(* ===== verification/OneBase_Prelude.thy ===== *)
theory OneBase_Prelude
  imports Main "HOL-Library.Word" "HOL-Library.AList"
begin

text \<open>
  The prelude of the OneBase development: the exceptions and error results of the code, the
  machine types of \<^verbatim>\<open>common/types.h\<close>, record identifiers, and the generic lemmas on
  association lists, list updates and error results that the component theories share.
\<close>

unbundle bit_operations_syntax

section \<open>Exceptions and fallible results\<close>

text \<open>
  The kinds of \<^verbatim>\<open>common/exception.h\<close>. \<open>LogicError\<close> is the \<^verbatim>\<open>std::logic_error\<close> that
  the macros ONEBASE_ASSERT and UNREACHABLE throw, \<open>RuntimeError\<close> is \<^verbatim>\<open>std::runtime_error\<close>.
  \<open>UndefinedBehaviour\<close> is not an exception of the code: the model returns it where the C++ code
  would have no defined behaviour (a read outside an array, a null dereference, a signed
  overflow), so that the absence of such behaviour is something the development can state.
\<close>

datatype exception_type =
    EX_INVALID | OUT_OF_RANGE | BUFFER_FULL | IO_ERROR | EXECUTION | TRANSACTION | LOCK
  | CATALOG | TYPE_MISMATCH | NOT_IMPLEMENTED

datatype exn =
    OneBaseException exception_type
  | LogicError string
  | RuntimeError string
  | UndefinedBehaviour string

type_synonym 'a res = "exn + 'a"

fun rbind :: "'a res \<Rightarrow> ('a \<Rightarrow> 'b res) \<Rightarrow> 'b res" where
  "rbind (Inl e) f = Inl e"
| "rbind (Inr x) f = f x"

definition ONEBASE_ASSERT :: "bool \<Rightarrow> string \<Rightarrow> 'a res \<Rightarrow> 'a res" where
  "ONEBASE_ASSERT b msg k = (if b then k else Inl (LogicError msg))"

lemma rbind_eq_Inr [simp]: "rbind r f = Inr y \<longleftrightarrow> (\<exists>x. r = Inr x \<and> f x = Inr y)"
  by (cases r) auto

lemma rbind_eq_Inl: "rbind r f = Inl e \<longleftrightarrow> r = Inl e \<or> (\<exists>x. r = Inr x \<and> f x = Inl e)"
  by (cases r) auto

lemma rbind_Inr_right [simp]: "rbind r Inr = r"
  by (cases r) auto

lemma rbind_assoc: "rbind (rbind r f) g = rbind r (\<lambda>x. rbind (f x) g)"
  by (cases r) auto

text \<open>
  A computation with a loop that may not end has the type \<^typ>\<open>'a res option\<close>, \<open>None\<close> standing for
  a loop that does not end; \<open>cbind\<close> runs one after the other.
\<close>

definition cbind :: "'a res option \<Rightarrow> ('a \<Rightarrow> 'b res option) \<Rightarrow> 'b res option" where
  "cbind c k = (case c of None \<Rightarrow> None | Some (Inl e) \<Rightarrow> Some (Inl e) | Some (Inr x) \<Rightarrow> k x)"

lemma cbind_simps [simp]:
  "cbind None k = None" "cbind (Some (Inl e)) k = Some (Inl e)" "cbind (Some (Inr x)) k = k x"
  by (simp_all add: cbind_def)

lemma cbind_eq_Inr: "cbind c k = Some (Inr y) \<longleftrightarrow> (\<exists>x. c = Some (Inr x) \<and> k x = Some (Inr y))"
  by (auto simp: cbind_def split: option.splits sum.splits)

lemma cbind_bind: "cbind r h = Option.bind r (\<lambda>s. case s of Inl e \<Rightarrow> Some (Inl e) | Inr x \<Rightarrow> h x)"
  by (simp add: cbind_def split: option.split sum.split)

lemma cbind_mono [partial_function_mono]:
  assumes "mono_option c" "\<And>x. mono_option (\<lambda>f. k x f)"
  shows "mono_option (\<lambda>f. cbind (c f) (\<lambda>x. k x f))"
proof -
  have "mono_option (\<lambda>f. case s of Inl e \<Rightarrow> Some (Inl e) | Inr x \<Rightarrow> k x f)" for s
    using assms(2) by (cases s) (simp_all add: option.const_mono)
  then show ?thesis unfolding cbind_bind by (rule bind_mono [OF assms(1)])
qed

lemma ONEBASE_ASSERT_simps [simp]:
  "ONEBASE_ASSERT True msg k = k"
  "ONEBASE_ASSERT False msg k = Inl (LogicError msg)"
  by (simp_all add: ONEBASE_ASSERT_def)

lemma ONEBASE_ASSERT_eq_Inr [simp]: "ONEBASE_ASSERT b msg k = Inr x \<longleftrightarrow> b \<and> k = Inr x"
  by (simp add: ONEBASE_ASSERT_def)

section \<open>Machine types\<close>

text \<open>
  \<^verbatim>\<open>page_id_t\<close> and \<^verbatim>\<open>frame_id_t\<close> are \<^verbatim>\<open>int32_t\<close> counters and array indices that the code
  only compares, increments and casts; they are \<^typ>\<open>int\<close> here, with the sentinel
  \<^verbatim>\<open>INVALID_PAGE_ID\<close>. Sizes (\<^verbatim>\<open>size_t\<close>) are \<^typ>\<open>nat\<close>. The integers of stored
  data keep their widths as words.
\<close>

type_synonym byte = "8 word"
type_synonym page_id = int
type_synonym frame_id = int

definition INVALID_PAGE_ID :: page_id where
  "INVALID_PAGE_ID = -1"

definition PAGE_SIZE :: nat where
  "PAGE_SIZE = 4096"

definition SIZE_MAX :: nat where
  "SIZE_MAX = 2 ^ 64 - 1"

text \<open>Record identifiers (\<^verbatim>\<open>common/rid.h\<close>): a page and a 16-bit slot.\<close>

datatype rid = RID (rid_page_id: page_id) (rid_slot_num: "16 word")

definition invalid_rid :: rid where
  "invalid_rid = RID INVALID_PAGE_ID 0"

instantiation rid :: linorder
begin

definition less_eq_rid :: "rid \<Rightarrow> rid \<Rightarrow> bool" where
  "less_eq_rid r s \<longleftrightarrow> rid_page_id r < rid_page_id s \<or>
     (rid_page_id r = rid_page_id s \<and> rid_slot_num r \<le> rid_slot_num s)"

definition less_rid :: "rid \<Rightarrow> rid \<Rightarrow> bool" where
  "less_rid r s \<longleftrightarrow> rid_page_id r < rid_page_id s \<or>
     (rid_page_id r = rid_page_id s \<and> rid_slot_num r < rid_slot_num s)"

instance
  by standard (auto simp: less_eq_rid_def less_rid_def rid.expand)

end

section \<open>Association lists as hash maps\<close>

text \<open>
  A \<^verbatim>\<open>std::unordered_map\<close> is an association list with distinct keys: its order stands for
  the unspecified iteration order of the container, which a loop over the map observes.
\<close>

type_synonym ('k, 'v) umap = "('k \<times> 'v) list"

abbreviation keys :: "('k, 'v) umap \<Rightarrow> 'k list" where
  "keys m \<equiv> map fst m"

lemma map_of_update [simp]: "map_of (AList.update k v m) = (map_of m)(k \<mapsto> v)"
  by (simp add: update_conv')

lemma map_of_delete [simp]: "map_of (AList.delete k m) = (map_of m)(k := None)"
  by (simp add: delete_conv')

lemma distinct_keys_update [simp]: "distinct (keys m) \<Longrightarrow> distinct (keys (AList.update k v m))"
  by (rule distinct_update)

lemma distinct_keys_delete [simp]: "distinct (keys m) \<Longrightarrow> distinct (keys (AList.delete k m))"
  by (rule distinct_delete)

lemma set_umap_iff: "distinct (keys m) \<Longrightarrow> (k, v) \<in> set m \<longleftrightarrow> map_of m k = Some v"
  by simp

lemma set_keys_dom: "set (keys m) = dom (map_of m)"
  by (simp add: dom_map_of_conv_image_fst)

lemma ran_umap: "distinct (keys m) \<Longrightarrow> ran (map_of m) = snd ` set m"
  by (rule ran_distinct)

end
