(* ===== verification/LRU_K_Replacer.thy ===== *)
theory LRU_K_Replacer
  imports OneBase_Prelude "HOL-Library.Extended_Nat"
begin

text \<open>
  The LRU-K replacer: \<^verbatim>\<open>buffer/lru_k_replacer.h\<close> and \<^verbatim>\<open>buffer/lru_k_replacer.cpp\<close>.
  A replacer is a record of its fields; the hash map \<^verbatim>\<open>entries_\<close> is an association list in
  the iteration order of the container. Every method runs under the replacer's mutex, so a
  concurrent execution is a sequence of method calls: \<open>lru_reachable\<close> below. The textbook
  LRU-K policy over the full access logs (\<open>k_distance\<close>, \<open>lru_k_victim\<close>) is the specification,
  and the locale \<open>replacer\<close> is the contract the buffer pool relies on.
\<close>

section \<open>State and methods\<close>

record frame_entry =
  history :: "nat list"
  is_evictable :: bool

record lruk =
  max_frames :: nat
  k_ref :: nat
  curr_size :: nat
  current_timestamp :: nat
  entries :: "(frame_id, frame_entry) umap"

definition LRUKReplacer :: "nat \<Rightarrow> nat \<Rightarrow> lruk" where
  "LRUKReplacer num_frames k =
     \<lparr>max_frames = num_frames, k_ref = k, curr_size = 0, current_timestamp = 0, entries = []\<rparr>"

text \<open>
  One round of the loop of \<^verbatim>\<open>Evict\<close>; its state is \<open>(victim_frame_id, victim_time,
  found_less_than_k)\<close>.
\<close>

fun evict_step :: "nat \<Rightarrow> frame_id \<times> nat \<times> bool \<Rightarrow> frame_id \<times> frame_entry \<Rightarrow>
    (frame_id \<times> nat \<times> bool) res" where
  "evict_step k (victim_id, victim_time, found) (f_id, entry) =
     (if \<not> is_evictable entry then Inr (victim_id, victim_time, found)
      else case history entry of
        [] \<Rightarrow> Inl (UndefinedBehaviour ''front of an empty history'')
      | front # _ \<Rightarrow>
          if length (history entry) < k then
            (if victim_time > front \<or> \<not> found then Inr (f_id, front, True)
             else Inr (victim_id, victim_time, found))
          else
            (if victim_time > front \<and> \<not> found then Inr (f_id, front, found)
             else Inr (victim_id, victim_time, found)))"

primrec evict_scan :: "nat \<Rightarrow> frame_id \<times> nat \<times> bool \<Rightarrow> (frame_id \<times> frame_entry) list \<Rightarrow>
    (frame_id \<times> nat \<times> bool) res" where
  "evict_scan k st [] = Inr st"
| "evict_scan k st (x # xs) = rbind (evict_step k st x) (\<lambda>st'. evict_scan k st' xs)"

definition Evict :: "lruk \<Rightarrow> (frame_id option \<times> lruk) res" where
  "Evict r = rbind (evict_scan (k_ref r) (-1, SIZE_MAX, False) (entries r))
     (\<lambda>(victim_id, victim_time, found).
        if victim_id \<noteq> -1
        then Inr (Some victim_id,
               r\<lparr>entries := AList.delete victim_id (entries r), curr_size := curr_size r - 1\<rparr>)
        else Inr (None, r))"

definition RecordAccess :: "lruk \<Rightarrow> frame_id \<Rightarrow> lruk res" where
  "RecordAccess r f =
     (if f < 0 \<or> f \<ge> int (max_frames r) then Inl (OneBaseException OUT_OF_RANGE)
      else
        let entry = (case map_of (entries r) f of
                       None \<Rightarrow> \<lparr>history = [], is_evictable = False\<rparr>
                     | Some e \<Rightarrow> e);
            hist = history entry
        in rbind (if length hist = k_ref r
                  then (case hist of
                          [] \<Rightarrow> Inl (UndefinedBehaviour ''pop_front of an empty history'')
                        | _ # rest \<Rightarrow> Inr (rest @ [current_timestamp r]))
                  else Inr (hist @ [current_timestamp r]))
           (\<lambda>hist'. Inr (r\<lparr>entries := AList.update f (entry\<lparr>history := hist'\<rparr>) (entries r),
                          current_timestamp := current_timestamp r + 1\<rparr>)))"

definition SetEvictable :: "lruk \<Rightarrow> frame_id \<Rightarrow> bool \<Rightarrow> lruk" where
  "SetEvictable r f b =
     (case map_of (entries r) f of
        None \<Rightarrow> r
      | Some e \<Rightarrow>
          if is_evictable e \<noteq> b then
            r\<lparr>curr_size := (if b then curr_size r + 1 else curr_size r - 1),
              entries := AList.update f (e\<lparr>is_evictable := b\<rparr>) (entries r)\<rparr>
          else r)"

definition Replacer_Remove :: "lruk \<Rightarrow> frame_id \<Rightarrow> lruk res" where
  "Replacer_Remove r f =
     (case map_of (entries r) f of
        None \<Rightarrow> Inr r
      | Some e \<Rightarrow>
          if is_evictable e
          then Inr (r\<lparr>entries := AList.delete f (entries r), curr_size := curr_size r - 1\<rparr>)
          else Inl (OneBaseException EXECUTION))"

definition Replacer_Size :: "lruk \<Rightarrow> nat" where
  "Replacer_Size r = curr_size r"

section \<open>The invariant of the replacer\<close>

definition entry_of :: "lruk \<Rightarrow> frame_id \<Rightarrow> frame_entry option" where
  "entry_of r = map_of (entries r)"

definition tracked :: "lruk \<Rightarrow> frame_id set" where
  "tracked r = dom (entry_of r)"

definition evictable :: "lruk \<Rightarrow> frame_id set" where
  "evictable r = {f. \<exists>e. entry_of r f = Some e \<and> is_evictable e}"

definition entry_ok :: "lruk \<Rightarrow> frame_id \<Rightarrow> frame_entry \<Rightarrow> bool" where
  "entry_ok r f e \<longleftrightarrow> 0 \<le> f \<and> f < int (max_frames r) \<and> history e \<noteq> [] \<and>
     length (history e) \<le> k_ref r \<and> sorted_wrt (<) (history e) \<and>
     (\<forall>t \<in> set (history e). t < current_timestamp r)"

definition lruk_inv :: "lruk \<Rightarrow> bool" where
  "lruk_inv r \<longleftrightarrow> 0 < k_ref r \<and> distinct (keys (entries r)) \<and>
     (\<forall>f e. entry_of r f = Some e \<longrightarrow> entry_ok r f e) \<and>
     (\<forall>f e g e' t. entry_of r f = Some e \<longrightarrow> entry_of r g = Some e' \<longrightarrow>
        t \<in> set (history e) \<longrightarrow> t \<in> set (history e') \<longrightarrow> f = g) \<and>
     curr_size r = card (evictable r)"

lemma lruk_invD:
  assumes "lruk_inv r"
  shows "0 < k_ref r" "distinct (keys (entries r))" "curr_size r = card (evictable r)"
  using assms by (auto simp: lruk_inv_def)

lemma lruk_inv_entry: "lruk_inv r \<Longrightarrow> entry_of r f = Some e \<Longrightarrow> entry_ok r f e"
  by (auto simp: lruk_inv_def)

lemma lruk_inv_unique:
  "lruk_inv r \<Longrightarrow> entry_of r f = Some e \<Longrightarrow> entry_of r g = Some e' \<Longrightarrow>
   t \<in> set (history e) \<Longrightarrow> t \<in> set (history e') \<Longrightarrow> f = g"
  unfolding lruk_inv_def by blast

lemma lruk_invI:
  assumes "0 < k_ref r" "distinct (keys (entries r))"
    "\<And>f e. entry_of r f = Some e \<Longrightarrow> entry_ok r f e"
    "\<And>f e g e' t. entry_of r f = Some e \<Longrightarrow> entry_of r g = Some e' \<Longrightarrow>
       t \<in> set (history e) \<Longrightarrow> t \<in> set (history e') \<Longrightarrow> f = g"
    "curr_size r = card (evictable r)"
  shows "lruk_inv r"
  unfolding lruk_inv_def using assms by blast

lemma set_entries_iff: "lruk_inv r \<Longrightarrow> (f, e) \<in> set (entries r) \<longleftrightarrow> entry_of r f = Some e"
  by (simp add: entry_of_def lruk_invD)

lemma finite_tracked [simp]: "finite (tracked r)"
  by (simp add: tracked_def entry_of_def finite_dom_map_of)

lemma evictable_tracked: "evictable r \<subseteq> tracked r"
  by (auto simp: evictable_def tracked_def)

lemma finite_evictable [simp]: "finite (evictable r)"
  by (rule finite_subset [OF evictable_tracked finite_tracked])

lemma tracked_range: "lruk_inv r \<Longrightarrow> tracked r \<subseteq> {0..<int (max_frames r)}"
  by (auto simp: tracked_def entry_ok_def dest: lruk_inv_entry)

lemma lruk_inv_init: "0 < k \<Longrightarrow> lruk_inv (LRUKReplacer n k)"
  by (auto simp: lruk_inv_def LRUKReplacer_def evictable_def entry_of_def)

text \<open>
  How the field updates of the methods act on the view \<open>entry_of\<close>: look-ups in the hash map are
  folded into it, so that the proofs below never see association lists.
\<close>

lemma map_of_entries [simp]: "map_of (entries r) = entry_of r"
  by (simp add: entry_of_def)

lemma entry_of_updates [simp]:
  "entry_of (entries_update g r) = map_of (g (entries r))"
  "entry_of (curr_size_update h r) = entry_of r"
  "entry_of (current_timestamp_update h r) = entry_of r"
  by (simp_all add: entry_of_def del: map_of_entries)

lemma lruk_inv_cong:
  assumes "lruk_inv r" and "entry_of s = entry_of r" and "distinct (keys (entries s))"
    and "max_frames s = max_frames r" "k_ref s = k_ref r"
      "current_timestamp s = current_timestamp r" "curr_size s = curr_size r"
  shows "lruk_inv s"
  using assms(1) unfolding lruk_inv_def entry_ok_def evictable_def assms(2,4-7) using assms(3) by blast

text \<open>Deleting one evictable entry: the common part of \<^verbatim>\<open>Evict\<close> and \<^verbatim>\<open>Remove\<close>.\<close>

definition drop_entry :: "lruk \<Rightarrow> frame_id \<Rightarrow> lruk" where
  "drop_entry r f = r\<lparr>entries := AList.delete f (entries r), curr_size := curr_size r - 1\<rparr>"

lemma drop_entry_sel [simp]:
  "max_frames (drop_entry r f) = max_frames r" "k_ref (drop_entry r f) = k_ref r"
  "current_timestamp (drop_entry r f) = current_timestamp r"
  "entries (drop_entry r f) = AList.delete f (entries r)"
  "curr_size (drop_entry r f) = curr_size r - 1"
  "entry_of (drop_entry r f) = (entry_of r)(f := None)"
  by (simp_all add: drop_entry_def)

lemma drop_entry_sets [simp]:
  "tracked (drop_entry r f) = tracked r - {f}" "evictable (drop_entry r f) = evictable r - {f}"
  by (auto simp: tracked_def evictable_def)

lemma drop_entry_inv: "lruk_inv r \<Longrightarrow> f \<in> evictable r \<Longrightarrow> lruk_inv (drop_entry r f)"
  by (rule lruk_invI)
     (auto simp: lruk_invD entry_ok_def split: if_splits dest: lruk_inv_entry lruk_inv_unique)

section \<open>The methods keep the invariant\<close>

lemma RecordAccess_ok:
  assumes inv: "lruk_inv r" and f: "0 \<le> f" "f < int (max_frames r)"
  shows "\<exists>e r'. RecordAccess r f = Inr r' \<and> lruk_inv r' \<and> entry_of r' = (entry_of r)(f \<mapsto> e) \<and>
    is_evictable e = (f \<in> evictable r) \<and> max_frames r' = max_frames r \<and> k_ref r' = k_ref r \<and>
    current_timestamp r' = current_timestamp r + 1 \<and>
    history e = (let h = (case entry_of r f of None \<Rightarrow> [] | Some e0 \<Rightarrow> history e0) @ [current_timestamp r]
                 in drop (length h - k_ref r) h)"
proof -
  define e0 where "e0 = (case entry_of r f of None \<Rightarrow> \<lparr>history = [], is_evictable = False\<rparr> | Some e \<Rightarrow> e)"
  define h where "h = history e0"
  define h' where "h' = (if length h = k_ref r then tl h else h) @ [current_timestamp r]"
  define r' where "r' = r\<lparr>entries := AList.update f (e0\<lparr>history := h'\<rparr>) (entries r),
                          current_timestamp := current_timestamp r + 1\<rparr>"
  have k: "0 < k_ref r" using inv by (simp add: lruk_invD)
  have ok: "h = [] \<or> entry_ok r f e0" "length h \<le> k_ref r"
    using inv by (auto simp: h_def e0_def entry_ok_def split: option.splits dest: lruk_inv_entry)
  have rec: "RecordAccess r f = Inr r'"
    using f k by (auto simp: RecordAccess_def Let_def r'_def h'_def h_def e0_def split: list.splits option.splits)
  have hsub: "set h' \<subseteq> insert (current_timestamp r) (set h)"
    by (cases h) (auto simp: h'_def)
  have hh: "t \<in> set h \<Longrightarrow> \<exists>e. entry_of r f = Some e \<and> t \<in> set (history e)" for t
    by (auto simp: h_def e0_def split: option.splits)
  have lt: "t < current_timestamp r" if "t \<in> set (history e)" "entry_of r g = Some e" for t g e
    using that inv by (auto simp: entry_ok_def dest: lruk_inv_entry)
  have ev: "is_evictable e0 = (f \<in> evictable r)"
    by (auto simp: e0_def evictable_def split: option.splits)
  have ents: "entry_of r' = (entry_of r)(f \<mapsto> e0\<lparr>history := h'\<rparr>)"
    by (simp add: r'_def)
  have evs: "evictable r' = evictable r"
    using ev by (auto simp: evictable_def [of r'] ents) (auto simp: evictable_def)
  have eok: "entry_ok r' f (e0\<lparr>history := h'\<rparr>)"
    using ok k f by (cases h) (auto simp: entry_ok_def r'_def h'_def h_def sorted_wrt_append less_Suc_eq)
  have inv': "lruk_inv r'"
  proof (rule lruk_invI)
    show "0 < k_ref r'" "distinct (keys (entries r'))" "curr_size r' = card (evictable r')"
      using inv evs by (simp_all add: r'_def lruk_invD)
    fix g e assume "entry_of r' g = Some e"
    then show "entry_ok r' g e"
      using eok inv by (auto simp: ents entry_ok_def r'_def less_Suc_eq split: if_splits dest!: lruk_inv_entry)
  next
    fix g e g' e' t
    assume "entry_of r' g = Some e" "entry_of r' g' = Some e'" "t \<in> set (history e)" "t \<in> set (history e')"
    then show "g = g'"
      using hsub lt by (auto simp: ents split: if_splits dest!: hh subsetD dest: lruk_inv_unique [OF inv])
  qed
  have hist: "h' = (let h = h @ [current_timestamp r] in drop (length h - k_ref r) h)"
    using ok(2) k by (cases h) (auto simp: h'_def Let_def)
  show ?thesis
    by (rule exI [of _ "e0\<lparr>history := h'\<rparr>"], rule exI [of _ r'])
       (use rec inv' ents ev hist in \<open>auto simp: r'_def h_def e0_def split: option.splits\<close>)
qed

lemma SetEvictable_ok:
  assumes inv: "lruk_inv r" and f: "f \<in> tracked r"
  shows "lruk_inv (SetEvictable r f b)"
    and "tracked (SetEvictable r f b) = tracked r"
    and "evictable (SetEvictable r f b) = (if b then insert f (evictable r) else evictable r - {f})"
proof -
  obtain e where e: "entry_of r f = Some e" using f by (auto simp: tracked_def)
  let ?r = "SetEvictable r f b"
  have ents: "entry_of ?r = (entry_of r)(f \<mapsto> e\<lparr>is_evictable := b\<rparr>)"
    using e by (auto simp: SetEvictable_def)
  have sels: "max_frames ?r = max_frames r" "k_ref ?r = k_ref r"
    "current_timestamp ?r = current_timestamp r" "distinct (keys (entries ?r))"
    using e inv by (auto simp: SetEvictable_def lruk_invD)
  show tr: "tracked ?r = tracked r"
    using e by (auto simp: tracked_def ents)
  show ev: "evictable ?r = (if b then insert f (evictable r) else evictable r - {f})"
    using e by (auto simp: evictable_def ents)
  have fe: "f \<in> evictable r \<longleftrightarrow> is_evictable e"
    using e by (simp add: evictable_def)
  have cs: "curr_size ?r = (if is_evictable e \<noteq> b then if b then curr_size r + 1 else curr_size r - 1 else curr_size r)"
    using e by (auto simp: SetEvictable_def)
  show "lruk_inv ?r"
  proof (rule lruk_invI)
    show "curr_size ?r = card (evictable ?r)"
      unfolding cs ev using inv fe by (auto simp: lruk_invD insert_absorb)
    fix g e' assume "entry_of ?r g = Some e'"
    then show "entry_ok ?r g e'"
      using lruk_inv_entry [OF inv e] lruk_inv_entry [OF inv, of g e']
      by (auto simp: ents entry_ok_def sels split: if_splits)
  next
    fix g e1 g' e2 t
    assume "entry_of ?r g = Some e1" "entry_of ?r g' = Some e2" "t \<in> set (history e1)" "t \<in> set (history e2)"
    then show "g = g'"
      using e by (auto simp: ents split: if_splits dest: lruk_inv_unique [OF inv])
  qed (use inv sels in \<open>simp_all add: lruk_invD\<close>)
qed

lemma SetEvictable_untracked [simp]: "f \<notin> tracked r \<Longrightarrow> SetEvictable r f b = r"
  by (auto simp: SetEvictable_def tracked_def split: option.splits)

lemma SetEvictable_sel [simp]:
  "max_frames (SetEvictable r f b) = max_frames r" "k_ref (SetEvictable r f b) = k_ref r"
  "current_timestamp (SetEvictable r f b) = current_timestamp r"
  by (simp_all add: SetEvictable_def split: option.splits)

lemma SetEvictable_history:
  "map_option history (entry_of (SetEvictable r f b) g) = map_option history (entry_of r g)"
  by (auto simp: SetEvictable_def split: option.splits)

lemma Replacer_Remove_evictable:
  "f \<in> evictable r \<Longrightarrow> Replacer_Remove r f = Inr (drop_entry r f)"
  by (auto simp: Replacer_Remove_def evictable_def drop_entry_def)

lemma Replacer_Remove_untracked: "f \<notin> tracked r \<Longrightarrow> Replacer_Remove r f = Inr r"
  by (auto simp: Replacer_Remove_def tracked_def split: option.splits)

lemma Replacer_Remove_pinned:
  "f \<in> tracked r \<Longrightarrow> f \<notin> evictable r \<Longrightarrow> Replacer_Remove r f = Inl (OneBaseException EXECUTION)"
  by (auto simp: Replacer_Remove_def tracked_def evictable_def)

section \<open>What Evict selects\<close>

text \<open>
  \<open>scan_inv k xs st\<close>: after the entries \<open>xs\<close>, the loop state \<open>st\<close> names the best victim among
  them: with \<open>found\<close>, the evictable entry with fewer than \<open>k\<close> accesses whose first access is the
  earliest; without it no such entry exists and the state is the evictable entry whose oldest
  recorded access is the earliest, if any.
\<close>

abbreviation short :: "nat \<Rightarrow> frame_entry \<Rightarrow> bool" where
  "short k e \<equiv> is_evictable e \<and> length (history e) < k"

definition scan_inv :: "nat \<Rightarrow> (frame_id \<times> frame_entry) set \<Rightarrow> frame_id \<times> nat \<times> bool \<Rightarrow> bool" where
  "scan_inv k X = (\<lambda>(vid, vt, found).
     if found then (\<exists>e. (vid, e) \<in> X \<and> short k e \<and> hd (history e) = vt) \<and>
        (\<forall>(g, e) \<in> X. short k e \<longrightarrow> vt \<le> hd (history e))
     else (\<forall>(g, e) \<in> X. \<not> short k e) \<and>
       (if vid = -1 then vt = SIZE_MAX \<and> (\<forall>(g, e) \<in> X. \<not> is_evictable e)
        else (\<exists>e. (vid, e) \<in> X \<and> is_evictable e \<and> hd (history e) = vt) \<and>
          (\<forall>(g, e) \<in> X. is_evictable e \<longrightarrow> vt \<le> hd (history e))))"

lemma evict_step_inv:
  assumes inv: "scan_inv k X (vid, vt, found)"
    and f: "0 \<le> f" and h: "history e = t # ts" and t: "t < SIZE_MAX"
  shows "\<exists>st'. evict_step k (vid, vt, found) (f, e) = Inr st' \<and> scan_inv k (insert (f, e) X) st'"
proof -
  consider (skip) "\<not> is_evictable e" | (short) "short k e" | (full) "is_evictable e" "\<not> length (history e) < k"
    by blast
  then show ?thesis
  proof cases
    case skip
    then show ?thesis using inv by (cases found) (force simp: scan_inv_def split: if_splits)+
  next
    case short
    then have step: "evict_step k (vid, vt, found) (f, e) =
        Inr (if t < vt \<or> \<not> found then (f, t, True) else (vid, vt, found))"
      using h by simp
    show ?thesis unfolding step using short inv f h
      by (cases found) (force simp: scan_inv_def split: if_splits)+
  next
    case full
    then have step: "evict_step k (vid, vt, found) (f, e) =
        Inr (if t < vt \<and> \<not> found then (f, t, found) else (vid, vt, found))"
      using h by simp
    show ?thesis
    proof (cases found)
      case True
      with full show ?thesis unfolding step using inv by (auto simp: scan_inv_def)
    next
      case False
      show ?thesis
      proof (cases "t < vt")
        case True
        with False full inv f h show ?thesis unfolding step
          by (cases "vid = -1") (force simp: scan_inv_def)+
      next
        case noless: False
        with False full inv h t show ?thesis unfolding step
          by (cases "vid = -1") (force simp: scan_inv_def)+
      qed
    qed
  qed
qed

lemma evict_scan_inv:
  assumes "scan_inv k X st" and "\<forall>(f, e) \<in> set xs. 0 \<le> f \<and> history e \<noteq> [] \<and> hd (history e) < SIZE_MAX"
  shows "\<exists>st'. evict_scan k st xs = Inr st' \<and> scan_inv k (set xs \<union> X) st'"
  using assms
proof (induction xs arbitrary: st X)
  case Nil
  then show ?case by simp
next
  case (Cons x xs)
  obtain f e where x: "x = (f, e)" by (cases x)
  obtain vid vt found where st: "st = (vid, vt, found)" by (cases st)
  from Cons.prems(2) x obtain t ts where "history e = t # ts" "t < SIZE_MAX" "0 \<le> f"
    by (cases "history e") auto
  with Cons.prems(1) obtain st1 where st1: "evict_step k st x = Inr st1" "scan_inv k (insert x X) st1"
    unfolding x st using evict_step_inv by blast
  from Cons.IH [OF st1(2)] Cons.prems(2) st1(1) show ?case by auto
qed

text \<open>The weak fact that needs no bound on the timestamps: the victim is an evictable entry.\<close>

lemma evict_scan_evictable:
  assumes "\<forall>(f, e) \<in> set xs. history e \<noteq> []"
    and "fst st = -1 \<or> fst st \<in> F"
    and "\<forall>(f, e) \<in> set xs. is_evictable e \<longrightarrow> f \<in> F"
  shows "\<exists>st'. evict_scan k st xs = Inr st' \<and> (fst st' = -1 \<or> fst st' \<in> F)"
  using assms
proof (induction xs arbitrary: st)
  case Nil
  then show ?case by simp
next
  case (Cons x xs)
  obtain f e where x: "x = (f, e)" by (cases x)
  obtain vid vt found where st: "st = (vid, vt, found)" by (cases st)
  have "\<exists>st1. evict_step k st x = Inr st1 \<and> (fst st1 = -1 \<or> fst st1 \<in> F)"
    using Cons.prems unfolding x st by (cases "history e") auto
  then obtain st1 where st1: "evict_step k st x = Inr st1" "fst st1 = -1 \<or> fst st1 \<in> F" by blast
  have "\<exists>st'. evict_scan k st1 xs = Inr st' \<and> (fst st' = -1 \<or> fst st' \<in> F)"
    using Cons.prems st1(2) by (intro Cons.IH) auto
  then show ?case using st1(1) by simp
qed

lemma entries_ok:
  assumes inv: "lruk_inv r" and x: "(f, e) \<in> set (entries r)"
  shows "0 \<le> f" "history e \<noteq> []" "hd (history e) < current_timestamp r"
    "is_evictable e \<Longrightarrow> f \<in> evictable r"
proof -
  from x have e: "entry_of r f = Some e" using set_entries_iff [OF inv] by simp
  with inv have "entry_ok r f e" by (rule lruk_inv_entry)
  then show "0 \<le> f" "history e \<noteq> []" "hd (history e) < current_timestamp r"
    by (auto simp: entry_ok_def)
  show "is_evictable e \<Longrightarrow> f \<in> evictable r" using e by (simp add: evictable_def)
qed

lemma Evict_cases:
  assumes inv: "lruk_inv r"
  shows "Evict r = Inr (None, r) \<or> (\<exists>f \<in> evictable r. Evict r = Inr (Some f, drop_entry r f))"
proof -
  have "\<forall>(f, e) \<in> set (entries r). history e \<noteq> []"
    and "\<forall>(f, e) \<in> set (entries r). is_evictable e \<longrightarrow> f \<in> evictable r"
    using entries_ok [OF inv] by blast+
  from evict_scan_evictable [OF this(1) _ this(2), of "(-1, SIZE_MAX, False)" "k_ref r"]
  obtain vid vt found where "evict_scan (k_ref r) (-1, SIZE_MAX, False) (entries r) = Inr (vid, vt, found)"
    and "vid = -1 \<or> vid \<in> evictable r" by auto
  then show ?thesis by (auto simp: Evict_def drop_entry_def)
qed

section \<open>The LRU-K policy over access logs\<close>

text \<open>
  The specification keeps, for every frame, the full log of its accesses since it was last
  forgotten. The backward k-distance is infinite for a frame with fewer than \<open>k\<close> accesses, and
  otherwise the time since its \<open>k\<close>-th most recent access. A victim has the largest k-distance;
  among frames of infinite distance it is the one with the earliest first access.
\<close>

definition k_distance :: "nat \<Rightarrow> nat \<Rightarrow> nat list \<Rightarrow> enat" where
  "k_distance k now ts = (if length ts < k then \<infinity> else enat (now - ts ! (length ts - k)))"

definition lru_k_victim :: "nat \<Rightarrow> nat \<Rightarrow> (frame_id \<Rightarrow> nat list) \<Rightarrow> frame_id set \<Rightarrow> frame_id \<Rightarrow> bool" where
  "lru_k_victim k now L E f \<longleftrightarrow> f \<in> E \<and>
     (\<forall>g \<in> E. k_distance k now (L g) \<le> k_distance k now (L f)) \<and>
     (k_distance k now (L f) = \<infinity> \<longrightarrow>
        (\<forall>g \<in> E. k_distance k now (L g) = \<infinity> \<longrightarrow> hd (L f) \<le> hd (L g)))"

definition log_sim :: "(frame_id \<Rightarrow> nat list) \<Rightarrow> lruk \<Rightarrow> bool" where
  "log_sim L r \<longleftrightarrow> (\<forall>f. case entry_of r f of
       None \<Rightarrow> L f = []
     | Some e \<Rightarrow> history e = drop (length (L f) - k_ref r) (L f))"

lemma log_simD:
  assumes "log_sim L r" "entry_of r f = Some e" "lruk_inv r"
  shows "length (history e) < k_ref r \<longleftrightarrow> length (L f) < k_ref r"
    and "length (L f) < k_ref r \<Longrightarrow> hd (L f) = hd (history e)"
    and "\<not> length (L f) < k_ref r \<Longrightarrow> L f ! (length (L f) - k_ref r) = hd (history e)"
proof -
  have h: "history e = drop (length (L f) - k_ref r) (L f)"
    using assms(1) unfolding log_sim_def by (auto dest: spec [of _ f] simp: assms(2))
  show "length (history e) < k_ref r \<longleftrightarrow> length (L f) < k_ref r"
    using lruk_invD(1) [OF assms(3)] by (auto simp: h)
  show "length (L f) < k_ref r \<Longrightarrow> hd (L f) = hd (history e)"
    by (simp add: h)
  show "\<not> length (L f) < k_ref r \<Longrightarrow> L f ! (length (L f) - k_ref r) = hd (history e)"
    using lruk_invD(1) [OF assms(3)] by (simp add: h hd_drop_conv_nth)
qed

lemma log_sim_history:
  "lruk_inv r \<Longrightarrow> log_sim (\<lambda>f. case entry_of r f of None \<Rightarrow> [] | Some e \<Rightarrow> history e) r"
  by (auto simp: log_sim_def entry_ok_def split: option.splits dest: lruk_inv_entry)

lemma log_sim_at:
  "log_sim L r \<Longrightarrow> case entry_of r f of None \<Rightarrow> L f = []
     | Some e \<Rightarrow> history e = drop (length (L f) - k_ref r) (L f)"
  by (simp add: log_sim_def)

lemma log_sim_upd:
  assumes sim: "log_sim L r" and "k_ref r' = k_ref r" and "entry_of r' = (entry_of r)(f := eo)"
    and "case eo of None \<Rightarrow> l = [] | Some e \<Rightarrow> history e = drop (length l - k_ref r) l"
  shows "log_sim (L(f := l)) r'"
  unfolding log_sim_def
proof
  fix g
  from log_sim_at [OF sim, of g] assms(2-)
  show "case entry_of r' g of None \<Rightarrow> (L(f := l)) g = []
     | Some e \<Rightarrow> history e = drop (length ((L(f := l)) g) - k_ref r') ((L(f := l)) g)"
    by (cases "g = f") (simp_all split: option.splits)
qed

lemma log_sim_drop: "log_sim L r \<Longrightarrow> log_sim (L(f := [])) (drop_entry r f)"
  by (erule log_sim_upd) auto

lemma log_sim_SetEvictable: "log_sim L r \<Longrightarrow> log_sim L (SetEvictable r f b)"
  using log_sim_upd [of L r "SetEvictable r f b" f "entry_of (SetEvictable r f b) f" "L f"] log_sim_at [of L r f]
  by (cases "entry_of r f") (auto simp: SetEvictable_def fun_upd_triv fun_upd_idem split: option.splits)

lemma k_distance_entry:
  assumes "log_sim L r" "entry_of r f = Some e" "lruk_inv r"
  shows "k_distance (k_ref r) (current_timestamp r) (L f) =
    (if length (history e) < k_ref r then \<infinity> else enat (current_timestamp r - hd (history e)))"
  using log_simD [OF assms] by (simp add: k_distance_def)

lemma hd_history_less: "lruk_inv r \<Longrightarrow> entry_of r f = Some e \<Longrightarrow> hd (history e) < current_timestamp r"
  by (drule (1) lruk_inv_entry) (auto simp: entry_ok_def)

text \<open>The state the loop ends in names a victim of the policy.\<close>

lemma scan_inv_victim:
  assumes inv: "lruk_inv r" and sim: "log_sim L r"
    and sc: "scan_inv (k_ref r) (set (entries r)) (vid, vt, found)" and vid: "vid \<noteq> -1"
  shows "lru_k_victim (k_ref r) (current_timestamp r) L (evictable r) vid"
proof -
  note kd = k_distance_entry [OF sim _ inv] and ent = set_entries_iff [OF inv]
  obtain e where e: "entry_of r vid = Some e" "is_evictable e" "hd (history e) = vt"
      "found \<longleftrightarrow> length (history e) < k_ref r"
    using sc vid by (cases found) (force simp: scan_inv_def ent)+
  have best: "(length (history e) < k_ref r \<and> length (history e') < k_ref r \<longrightarrow> vt \<le> hd (history e')) \<and>
      (\<not> length (history e) < k_ref r \<longrightarrow> \<not> length (history e') < k_ref r \<and> vt \<le> hd (history e'))"
    if "entry_of r g = Some e'" "is_evictable e'" for g e'
    using sc vid that e(4) by (cases found) (auto simp: scan_inv_def ent)
  show ?thesis
    unfolding lru_k_victim_def
  proof (intro conjI ballI impI)
    show "vid \<in> evictable r" using e by (auto simp: evictable_def)
  next
    fix g assume "g \<in> evictable r"
    then obtain e' where e': "entry_of r g = Some e'" "is_evictable e'" by (auto simp: evictable_def)
    with best [OF e'] e(3) show "k_distance (k_ref r) (current_timestamp r) (L g)
        \<le> k_distance (k_ref r) (current_timestamp r) (L vid)"
      by (auto simp: kd [OF e(1)] kd [OF e'(1)])
  next
    fix g assume g: "g \<in> evictable r" and inf: "k_distance (k_ref r) (current_timestamp r) (L vid) = \<infinity>"
      "k_distance (k_ref r) (current_timestamp r) (L g) = \<infinity>"
    then obtain e' where e': "entry_of r g = Some e'" "is_evictable e'" by (auto simp: evictable_def)
    have "length (history e) < k_ref r" "length (history e') < k_ref r"
      using inf by (auto simp: kd [OF e(1)] kd [OF e'(1)] split: if_splits)
    then show "hd (L vid) \<le> hd (L g)"
      using best [OF e'] e(3) log_simD [OF sim e(1) inv] log_simD [OF sim e'(1) inv] by auto
  qed
qed

lemma Evict_victim:
  assumes inv: "lruk_inv r" and sim: "log_sim L r" and ts: "current_timestamp r \<le> SIZE_MAX"
  shows "(evictable r = {} \<and> Evict r = Inr (None, r)) \<or>
    (\<exists>f. lru_k_victim (k_ref r) (current_timestamp r) L (evictable r) f \<and>
         Evict r = Inr (Some f, drop_entry r f))"
proof -
  have "\<forall>(f, e) \<in> set (entries r). 0 \<le> f \<and> history e \<noteq> [] \<and> hd (history e) < SIZE_MAX"
    using entries_ok [OF inv] ts less_le_trans by blast
  from evict_scan_inv [OF _ this, of "k_ref r" "{}" "(-1, SIZE_MAX, False)"]
  obtain vid vt found where sc: "evict_scan (k_ref r) (-1, SIZE_MAX, False) (entries r) = Inr (vid, vt, found)"
      "scan_inv (k_ref r) (set (entries r)) (vid, vt, found)"
    by (auto simp: scan_inv_def)
  show ?thesis
  proof (cases "vid = -1")
    case True
    then have "\<not> found" using sc(2) entries_ok(1) [OF inv] by (fastforce simp: scan_inv_def)
    then have "evictable r = {}"
      using sc(2) True by (auto simp: scan_inv_def evictable_def set_entries_iff [OF inv])
    then show ?thesis using sc(1) True by (simp add: Evict_def)
  next
    case False
    then show ?thesis using sc(1) scan_inv_victim [OF inv sim sc(2)]
      by (auto simp: Evict_def drop_entry_def)
  qed
qed

lemma lru_k_victim_unique:
  assumes inv: "lruk_inv r" and sim: "log_sim L r"
    and f: "lru_k_victim (k_ref r) (current_timestamp r) L (evictable r) f"
    and g: "lru_k_victim (k_ref r) (current_timestamp r) L (evictable r) g"
  shows "f = g"
proof -
  obtain e e' where e: "entry_of r f = Some e" "entry_of r g = Some e'"
    using f g by (auto simp: lru_k_victim_def evictable_def)
  have fin: "f \<in> evictable r" "g \<in> evictable r" using f g by (auto simp: lru_k_victim_def)
  have eq: "k_distance (k_ref r) (current_timestamp r) (L f) = k_distance (k_ref r) (current_timestamp r) (L g)"
    using f g fin unfolding lru_k_victim_def by (blast intro: order_antisym)
  note kd = k_distance_entry [OF sim e(1) inv] k_distance_entry [OF sim e(2) inv]
  have "hd (history e) = hd (history e')"
  proof (cases "length (history e) < k_ref r")
    case True
    then have inf: "k_distance (k_ref r) (current_timestamp r) (L f) = \<infinity>"
      "k_distance (k_ref r) (current_timestamp r) (L g) = \<infinity>" using eq kd by auto
    then have "hd (L f) = hd (L g)"
      using f g fin unfolding lru_k_victim_def by (blast intro: order_antisym)
    then show ?thesis
      using inf log_simD [OF sim e(1) inv] log_simD [OF sim e(2) inv]
      by (auto simp: kd split: if_splits)
  next
    case False
    then show ?thesis
      using eq hd_history_less [OF inv e(1)] hd_history_less [OF inv e(2)]
      by (auto simp: kd split: if_splits)
  qed
  moreover have "history e \<noteq> []" "history e' \<noteq> []"
    using lruk_inv_entry [OF inv e(1)] lruk_inv_entry [OF inv e(2)] by (auto simp: entry_ok_def)
  ultimately show ?thesis using lruk_inv_unique [OF inv e] by (metis hd_in_set)
qed

section \<open>The contract of a replacer\<close>

text \<open>
  What the buffer pool relies on. A replacer tracks a set of frames, some of them evictable;
  \<open>record_access\<close> starts tracking a frame, \<open>set_evictable\<close> moves it between the two classes,
  \<open>remove\<close> and \<open>evict\<close> forget an evictable frame. \<open>alive\<close> is the condition under which
  \<open>evict\<close> finds a victim whenever there is one.
\<close>

locale replacer =
  fixes evict :: "'r \<Rightarrow> (frame_id option \<times> 'r) res"
    and record_access :: "'r \<Rightarrow> frame_id \<Rightarrow> 'r res"
    and set_evictable :: "'r \<Rightarrow> frame_id \<Rightarrow> bool \<Rightarrow> 'r"
    and remove :: "'r \<Rightarrow> frame_id \<Rightarrow> 'r res"
    and size_of :: "'r \<Rightarrow> nat"
    and capacity :: "'r \<Rightarrow> nat"
    and track :: "'r \<Rightarrow> frame_id set"
    and evictables :: "'r \<Rightarrow> frame_id set"
    and inv :: "'r \<Rightarrow> bool"
    and alive :: "'r \<Rightarrow> bool"
  assumes evictables_track: "inv r \<Longrightarrow> evictables r \<subseteq> track r"
    and track_range: "inv r \<Longrightarrow> track r \<subseteq> {0..<int (capacity r)}"
    and record_access: "inv r \<Longrightarrow> 0 \<le> f \<Longrightarrow> f < int (capacity r) \<Longrightarrow>
      \<exists>r'. record_access r f = Inr r' \<and> inv r' \<and> capacity r' = capacity r \<and>
           track r' = insert f (track r) \<and> evictables r' = evictables r"
    and set_evictable: "inv r \<Longrightarrow> f \<in> track r \<Longrightarrow>
      inv (set_evictable r f b) \<and> capacity (set_evictable r f b) = capacity r \<and>
      track (set_evictable r f b) = track r \<and>
      evictables (set_evictable r f b) = (if b then insert f (evictables r) else evictables r - {f})"
    and remove: "inv r \<Longrightarrow> f \<in> evictables r \<Longrightarrow>
      \<exists>r'. remove r f = Inr r' \<and> inv r' \<and> capacity r' = capacity r \<and>
           track r' = track r - {f} \<and> evictables r' = evictables r - {f}"
    and evict: "inv r \<Longrightarrow> evict r = Inr (None, r) \<or>
      (\<exists>f r'. evict r = Inr (Some f, r') \<and> f \<in> evictables r \<and> inv r' \<and> capacity r' = capacity r \<and>
              track r' = track r - {f} \<and> evictables r' = evictables r - {f})"
    and evict_alive: "inv r \<Longrightarrow> alive r \<Longrightarrow> evict r = Inr (None, r') \<Longrightarrow> evictables r = {}"
    and size_of: "inv r \<Longrightarrow> size_of r = card (evictables r)"
begin

text \<open>The pair of calls with which the pool pins a frame.\<close>

lemma pin:
  assumes "inv r" "0 \<le> f" "f < int (capacity r)"
  shows "\<exists>r1. record_access r f = Inr r1 \<and> inv (set_evictable r1 f False) \<and>
    capacity (set_evictable r1 f False) = capacity r \<and>
    track (set_evictable r1 f False) = insert f (track r) \<and>
    evictables (set_evictable r1 f False) = evictables r - {f}"
proof -
  obtain r1 where r1: "record_access r f = Inr r1" "inv r1" "capacity r1 = capacity r"
      "track r1 = insert f (track r)" "evictables r1 = evictables r"
    using record_access [OF assms] by blast
  then have "f \<in> track r1" by simp
  from set_evictable [OF r1(2) this, of False] r1 show ?thesis by simp
qed

text \<open>Evicting a frame and pinning it again leaves it tracked and no longer evictable.\<close>

lemma evict_pin:
  assumes "inv r" "evict r = Inr (Some f, r')"
  shows "f \<in> evictables r \<and> (\<exists>r1. record_access r' f = Inr r1 \<and> inv (set_evictable r1 f False) \<and>
    capacity (set_evictable r1 f False) = capacity r \<and>
    track (set_evictable r1 f False) = track r \<and>
    evictables (set_evictable r1 f False) = evictables r - {f})"
proof -
  have r': "f \<in> evictables r" "inv r'" "capacity r' = capacity r"
      "track r' = track r - {f}" "evictables r' = evictables r - {f}"
    using evict [OF assms(1)] assms(2) by auto
  then have t: "f \<in> track r" using evictables_track [OF assms(1)] by blast
  then have "0 \<le> f" "f < int (capacity r')"
    using track_range [OF assms(1)] r'(3) by auto
  from pin [OF r'(2) this] r' t show ?thesis by (auto simp: insert_absorb)
qed

lemma finite_track: "inv r \<Longrightarrow> finite (track r)"
  by (drule track_range) (rule finite_subset, auto)

lemma nothing_evictable: "inv r \<Longrightarrow> evictables r = {} \<Longrightarrow> evict r = Inr (None, r)"
  using evict [of r] by auto

lemma size_zero: "inv r \<Longrightarrow> size_of r = 0 \<Longrightarrow> evict r = Inr (None, r)"
  using evictables_track finite_track by (intro nothing_evictable) (auto simp: size_of card_eq_0_iff dest: finite_subset)

end

interpretation lru: replacer Evict RecordAccess SetEvictable Replacer_Remove Replacer_Size
  max_frames tracked evictable lruk_inv "\<lambda>r. current_timestamp r \<le> SIZE_MAX"
proof unfold_locales
  fix r f assume "lruk_inv r" "0 \<le> f" "f < int (max_frames r)"
  from RecordAccess_ok [OF this] obtain e r' where
    r': "RecordAccess r f = Inr r'" "lruk_inv r'" "entry_of r' = (entry_of r)(f \<mapsto> e)"
      "is_evictable e = (f \<in> evictable r)" "max_frames r' = max_frames r" by blast
  then have "tracked r' = insert f (tracked r)" "evictable r' = evictable r"
    by (auto simp: tracked_def evictable_def split: if_splits)
  with r' show "\<exists>r'. RecordAccess r f = Inr r' \<and> lruk_inv r' \<and> max_frames r' = max_frames r \<and>
      tracked r' = insert f (tracked r) \<and> evictable r' = evictable r" by blast
next
  fix r r' assume "lruk_inv r" "current_timestamp r \<le> SIZE_MAX" "Evict r = Inr (None, r')"
  then show "evictable r = {}" using Evict_victim [OF _ log_sim_history] by fastforce
next
  fix r assume inv: "lruk_inv r"
  show "Evict r = Inr (None, r) \<or>
      (\<exists>f r'. Evict r = Inr (Some f, r') \<and> f \<in> evictable r \<and> lruk_inv r' \<and> max_frames r' = max_frames r \<and>
              tracked r' = tracked r - {f} \<and> evictable r' = evictable r - {f})"
    using Evict_cases [OF inv] drop_entry_inv [OF inv] by fastforce
next
  fix r f assume "lruk_inv r" "f \<in> evictable r"
  then show "\<exists>r'. Replacer_Remove r f = Inr r' \<and> lruk_inv r' \<and> max_frames r' = max_frames r \<and>
      tracked r' = tracked r - {f} \<and> evictable r' = evictable r - {f}"
    by (simp add: Replacer_Remove_evictable drop_entry_inv)
qed (simp_all add: evictable_tracked tracked_range SetEvictable_ok Replacer_Size_def lruk_invD)

section \<open>Every sequence of calls\<close>

text \<open>
  \<open>lru_reachable n k L r\<close>: the replacer \<open>r\<close> results from a new one with \<open>n\<close> frames by method
  calls that return, and \<open>L\<close> is the log of the accesses of each frame.
\<close>

inductive lru_reachable :: "nat \<Rightarrow> nat \<Rightarrow> (frame_id \<Rightarrow> nat list) \<Rightarrow> lruk \<Rightarrow> bool" for n k where
  init: "lru_reachable n k (\<lambda>_. []) (LRUKReplacer n k)"
| accessed: "lru_reachable n k L r \<Longrightarrow> RecordAccess r f = Inr r' \<Longrightarrow>
     lru_reachable n k (L(f := L f @ [current_timestamp r])) r'"
| set_ev: "lru_reachable n k L r \<Longrightarrow> lru_reachable n k L (SetEvictable r f b)"
| removed: "lru_reachable n k L r \<Longrightarrow> Replacer_Remove r f = Inr r' \<Longrightarrow> lru_reachable n k (L(f := [])) r'"
| evicted: "lru_reachable n k L r \<Longrightarrow> Evict r = Inr (Some f, r') \<Longrightarrow> lru_reachable n k (L(f := [])) r'"
| no_victim: "lru_reachable n k L r \<Longrightarrow> Evict r = Inr (None, r') \<Longrightarrow> lru_reachable n k L r'"

lemma RecordAccess_range: "RecordAccess r f = Inr r' \<Longrightarrow> 0 \<le> f \<and> f < int (max_frames r)"
  by (auto simp: RecordAccess_def split: if_splits)

lemma log_sim_record:
  assumes inv: "lruk_inv r" and sim: "log_sim L r" and rec: "RecordAccess r f = Inr r'"
  shows "log_sim (L(f := L f @ [current_timestamp r])) r'"
proof -
  have "0 \<le> f" "f < int (max_frames r)" using RecordAccess_range [OF rec] by auto
  from RecordAccess_ok [OF inv this] rec obtain e where
    r': "entry_of r' = (entry_of r)(f \<mapsto> e)" "k_ref r' = k_ref r"
      "history e = (let h = (case entry_of r f of None \<Rightarrow> [] | Some e0 \<Rightarrow> history e0) @ [current_timestamp r]
                 in drop (length h - k_ref r) h)" by auto
  have k: "0 < k_ref r" using inv by (simp add: lruk_invD)
  have "(case entry_of r f of None \<Rightarrow> [] | Some e0 \<Rightarrow> history e0) = drop (length (L f) - k_ref r) (L f)"
    using log_sim_at [OF sim, of f] by (simp split: option.splits)
  then have "history e = drop (Suc (length (L f)) - k_ref r) (L f @ [current_timestamp r])"
    using k by (cases "k_ref r \<le> length (L f)") (simp_all add: r'(3) Let_def Suc_diff_le)
  then show ?thesis
    using r'(1,2) by (intro log_sim_upd [OF sim]) auto
qed

lemma lru_reachable_inv:
  assumes "lru_reachable n k L r" and k: "0 < k"
  shows "lruk_inv r \<and> log_sim L r \<and> k_ref r = k \<and> max_frames r = n"
  using assms(1)
proof induction
  case init
  then show ?case using k by (simp add: lruk_inv_init) (simp add: LRUKReplacer_def log_sim_def entry_of_def del: map_of_entries)
next
  case (accessed L r f r')
  then have r: "lruk_inv r" "log_sim L r" "0 \<le> f" "f < int (max_frames r)"
    using RecordAccess_range by auto
  from RecordAccess_ok [OF r(1,3,4)] accessed have "lruk_inv r'" "k_ref r' = k" "max_frames r' = n" by auto
  with log_sim_record [OF r(1,2) accessed(2)] show ?case by blast
next
  case (set_ev L r f b)
  then show ?case
    using SetEvictable_ok(1) [of r f b] log_sim_SetEvictable [of L r f b]
    by (cases "f \<in> tracked r") auto
next
  case (removed L r f r')
  then have r: "lruk_inv r" "log_sim L r" "k_ref r = k" "max_frames r = n" by auto
  consider (untracked) "f \<notin> tracked r" "r' = r" | (evictable) "f \<in> evictable r" "r' = drop_entry r f"
    using removed.hyps(2) Replacer_Remove_evictable [of f r] Replacer_Remove_untracked [of f r]
      Replacer_Remove_pinned [of f r] by fastforce
  then show ?case
  proof cases
    case untracked
    then have "L(f := []) = L" using log_sim_at [OF r(2), of f] by (simp add: tracked_def fun_upd_idem domIff)
    then show ?thesis using untracked r by simp
  next
    case evictable
    then show ?thesis using r drop_entry_inv [OF r(1)] log_sim_drop [OF r(2)] by (metis drop_entry_sel(1,2))
  qed
next
  case (evicted L r f r')
  then have r: "lruk_inv r" "log_sim L r" "k_ref r = k" "max_frames r = n" by auto
  with evicted.hyps(2) Evict_cases [of r] have "f \<in> evictable r" "r' = drop_entry r f" by auto
  then show ?case using r drop_entry_inv [OF r(1)] log_sim_drop [OF r(2)] by (metis drop_entry_sel(1,2))
next
  case (no_victim L r r')
  then show ?case using Evict_cases [of r] by auto
qed

section \<open>Properties\<close>

text \<open>
  C11. In every state that any sequence of calls can produce, \<^verbatim>\<open>Evict\<close> returns a victim of the
  textbook LRU-K policy over the full access logs (largest backward k-distance, ties between
  infinite distances broken by the earliest first access), forgets exactly that frame, and
  reports failure exactly when no frame is evictable.
\<close>

theorem Evict_is_LRU_K:
  assumes "lru_reachable n k L r" and "0 < k" and "current_timestamp r \<le> SIZE_MAX"
  shows "(evictable r = {} \<and> Evict r = Inr (None, r)) \<or>
    (\<exists>f r'. Evict r = Inr (Some f, r') \<and>
       lru_k_victim k (current_timestamp r) L (evictable r) f \<and>
       tracked r' = tracked r - {f} \<and> evictable r' = evictable r - {f})"
proof -
  from lru_reachable_inv [OF assms(1,2)]
  have r: "lruk_inv r" "log_sim L r" "k_ref r = k" by auto
  from Evict_victim [OF r(1,2) assms(3)] show ?thesis by (auto simp: r(3))
qed

definition demo_replacer :: lruk where
  "demo_replacer = \<lparr>max_frames = 2, k_ref = 1, curr_size = 2, current_timestamp = 2,
     entries = [(0, \<lparr>history = [0], is_evictable = True\<rparr>), (1, \<lparr>history = [1], is_evictable = True\<rparr>)]\<rparr>"

definition demo_log :: "frame_id \<Rightarrow> nat list" where
  "demo_log = (\<lambda>_. [])(0 := [0], 1 := [1])"

lemma demo_replacer_reachable: "lru_reachable 2 1 demo_log demo_replacer"
proof -
  let ?r0 = "LRUKReplacer 2 1"
  let ?r1 = "\<lparr>max_frames = 2, k_ref = 1, curr_size = 0, current_timestamp = 1,
     entries = [(0, \<lparr>history = [0], is_evictable = False\<rparr>)]\<rparr>"
  let ?r2 = "\<lparr>max_frames = 2, k_ref = 1, curr_size = 0, current_timestamp = 2,
     entries = [(0, \<lparr>history = [0], is_evictable = False\<rparr>), (1, \<lparr>history = [1], is_evictable = False\<rparr>)]\<rparr>"
  let ?L1 = "(\<lambda>_. [])(0 := [0])"
  have r: "RecordAccess ?r0 0 = Inr ?r1" "RecordAccess ?r1 1 = Inr ?r2"
    by (simp_all add: RecordAccess_def LRUKReplacer_def)
  have l1: "lru_reachable 2 1 ?L1 ?r1"
    using lru_reachable.accessed [OF lru_reachable.init r(1)] by (simp add: LRUKReplacer_def)
  have "lru_reachable 2 1 demo_log ?r2"
    using lru_reachable.accessed [OF l1 r(2)] by (simp add: demo_log_def)
  from lru_reachable.set_ev [OF lru_reachable.set_ev [OF this, of 0 True], of 1 True]
  show ?thesis by (simp add: SetEvictable_def demo_replacer_def numeral_2_eq_2)
qed

theorem Evict_is_LRU_K_witness:
  "\<exists>f r'. Evict demo_replacer = Inr (Some f, r') \<and>
     lru_k_victim 1 2 demo_log (evictable demo_replacer) f"
proof -
  have "current_timestamp demo_replacer \<le> SIZE_MAX" "0 \<in> evictable demo_replacer"
    by (simp_all add: demo_replacer_def SIZE_MAX_def evictable_def entry_of_def del: map_of_entries)
  with Evict_is_LRU_K [OF demo_replacer_reachable] show ?thesis
    by (auto simp: demo_replacer_def)
qed

text \<open>
  \<^verbatim>\<open>Size\<close> is the number of evictable frames in every reachable state, so the counter
  \<^verbatim>\<open>curr_size_\<close> never runs below zero, and it is zero exactly when \<^verbatim>\<open>Evict\<close> fails.
\<close>

theorem Size_counts_evictable:
  assumes "lru_reachable n k L r" and "0 < k" and "current_timestamp r \<le> SIZE_MAX"
  shows "Replacer_Size r = card (evictable r) \<and> (Replacer_Size r = 0 \<longleftrightarrow> Evict r = Inr (None, r))"
proof -
  from lru_reachable_inv [OF assms(1,2)] have r: "lruk_inv r" by simp
  then show ?thesis
    using lru.size_of [OF r] lru.size_zero [OF r] lru.evict_alive [OF r assms(3)] by auto
qed

theorem Size_counts_evictable_witness:
  "Replacer_Size demo_replacer = card (evictable demo_replacer) \<and>
   (Replacer_Size demo_replacer = 0 \<longleftrightarrow> Evict demo_replacer = Inr (None, demo_replacer))"
  by (rule Size_counts_evictable [OF demo_replacer_reachable]) (simp_all add: demo_replacer_def SIZE_MAX_def)

text \<open>
  The choice of \<^verbatim>\<open>Evict\<close> does not depend on the iteration order of the hash map: two
  replacers whose maps hold the same entries, listed in any order, evict the same frame.
\<close>

theorem Evict_order_independent:
  assumes "lruk_inv r" and "current_timestamp r \<le> SIZE_MAX"
    and "distinct (keys es)" and "set es = set (entries r)"
  shows "(\<exists>r'. Evict (r\<lparr>entries := es\<rparr>) = Inr (v, r')) \<longleftrightarrow> (\<exists>r'. Evict r = Inr (v, r'))"
proof -
  define s where "s = r\<lparr>entries := es\<rparr>"
  let ?L = "\<lambda>f. case entry_of r f of None \<Rightarrow> [] | Some e \<Rightarrow> history e"
  have s: "max_frames s = max_frames r" "k_ref s = k_ref r" "curr_size s = curr_size r"
    "current_timestamp s = current_timestamp r" "distinct (keys (entries s))"
    using assms(3) by (simp_all add: s_def)
  have "map_of es = map_of (entries r)"
    using assms(3,4) lruk_invD(2) [OF assms(1)] map_of_inject_set [of es "entries r"] by blast
  then have ent: "entry_of s = entry_of r" by (simp add: s_def)
  then have sets: "evictable s = evictable r" by (simp add: evictable_def)
  have inv: "lruk_inv s" by (rule lruk_inv_cong [OF assms(1) ent s(5,1,2,4,3)])
  have L: "log_sim ?L r" "log_sim ?L s"
    using log_sim_history [OF assms(1)] log_sim_history [OF inv] by (simp_all add: ent)
  from Evict_victim [OF assms(1) L(1) assms(2)] Evict_victim [OF inv L(2)] assms(2)
    lru_k_victim_unique [OF assms(1) L(1)]
  show ?thesis unfolding s_def [symmetric] by (auto simp: sets s lru_k_victim_def)
qed

theorem Evict_order_independent_witness:
  "(\<exists>r'. Evict (demo_replacer\<lparr>entries := rev (entries demo_replacer)\<rparr>) = Inr (Some 1, r'))
     \<longleftrightarrow> (\<exists>r'. Evict demo_replacer = Inr (Some 1, r'))"
proof (rule Evict_order_independent)
  show "lruk_inv demo_replacer"
    using lru_reachable_inv [OF demo_replacer_reachable] by simp
qed (auto simp: demo_replacer_def SIZE_MAX_def)

end
