(* ===== verification/Disk_Manager.thy ===== *)
theory Disk_Manager
  imports OneBase_Prelude
begin

text \<open>
  The disk manager: \<^verbatim>\<open>storage/disk/disk_manager.h\<close> and \<^verbatim>\<open>storage/disk/disk_manager.cpp\<close>.
  The database file is a list of pages of PAGE_SIZE bytes, the contents of a page being any type
  with a zero (the page filled with zero bytes). The state of the \<^verbatim>\<open>std::fstream\<close> that the code
  depends on is its failbit \<open>io_failed\<close> and its badbit \<open>io_bad\<close>. A seek to a negative position or a
  read that reaches the end of the file sets the failbit; a transfer that the operating system refuses
  sets the badbit, and the set \<open>faulty\<close> of the pages whose transfers are refused is a parameter of the
  model. No method of the class clears the bits, and while one is set \<^verbatim>\<open>seekg\<close>, \<^verbatim>\<open>seekp\<close>,
  \<^verbatim>\<open>read\<close> and \<^verbatim>\<open>write\<close> do nothing. The code only asks \<^verbatim>\<open>bad()\<close>: after the seek of a read, so that
  a refused read gives a zero page and is reported by the next call, and after a write.
  The file size is taken to be a multiple of the page size, as this class writes it. The locale
  \<open>block_device\<close> is what the buffer pool relies on.
\<close>

section \<open>State and methods\<close>

record 'd disk =
  db_file :: "'d list"
  io_failed :: bool
  io_bad :: bool
  faulty :: "page_id set"
  next_page_id :: page_id
  num_pages :: nat

text \<open>The constructor; \<open>None\<close> is a file that can neither be opened nor created.\<close>

definition DiskManager :: "page_id set \<Rightarrow> 'd list option \<Rightarrow> 'd disk res" where
  "DiskManager refused file =
     (case file of
        None \<Rightarrow> Inl (RuntimeError ''Cannot open DB file'')
      | Some ps \<Rightarrow> Inr \<lparr>db_file = ps, io_failed = False, io_bad = False, faulty = refused,
          next_page_id = int (length ps), num_pages = length ps\<rparr>)"

abbreviation seek_error :: exn where
  "seek_error \<equiv> RuntimeError ''I/O error while seeking to read page''"

abbreviation write_error :: exn where
  "write_error \<equiv> RuntimeError ''I/O error while writing page''"

definition ReadPage :: "'d::zero disk \<Rightarrow> page_id \<Rightarrow> ('d \<times> 'd disk) res" where
  "ReadPage d p =
     (if io_bad d then Inl seek_error
      else if io_failed d then Inr (0, d)
      else if p < 0 then Inr (0, d\<lparr>io_failed := True\<rparr>)
      else if p \<in> faulty d then Inr (0, d\<lparr>io_bad := True\<rparr>)
      else if nat p < length (db_file d) then Inr (db_file d ! nat p, d)
      else Inr (0, d\<lparr>io_failed := True\<rparr>))"

definition put_page :: "'d::zero list \<Rightarrow> nat \<Rightarrow> 'd \<Rightarrow> 'd list" where
  "put_page ps n x =
     (if n < length ps then ps[n := x] else ps @ replicate (n - length ps) 0 @ [x])"

text \<open>The disk after a write that is not reported as an error.\<close>

definition written :: "'d::zero disk \<Rightarrow> page_id \<Rightarrow> 'd \<Rightarrow> 'd disk" where
  "written d p x =
     (let d1 = (if io_failed d then d
                else if p < 0 then d\<lparr>io_failed := True\<rparr>
                else d\<lparr>db_file := put_page (db_file d) (nat p) x\<rparr>)
      in if p < 0 \<or> nat p \<ge> num_pages d1
         then d1\<lparr>num_pages := nat ((p + 1) mod 2 ^ 64)\<rparr> else d1)"

definition WritePage :: "'d::zero disk \<Rightarrow> page_id \<Rightarrow> 'd \<Rightarrow> 'd disk res" where
  "WritePage d p x =
     (if io_bad d then Inl write_error
      else if \<not> io_failed d \<and> 0 \<le> p \<and> p \<in> faulty d then Inl write_error
      else Inr (written d p x))"

text \<open>Page numbers are integers: the 32-bit number of the code does not overflow before \<open>2 ^ 31\<close> pages.\<close>

definition AllocatePage :: "'d disk \<Rightarrow> page_id \<times> 'd disk" where
  "AllocatePage d = (next_page_id d, d\<lparr>next_page_id := next_page_id d + 1\<rparr>)"

definition DeallocatePage :: "'d disk \<Rightarrow> page_id \<Rightarrow> 'd disk" where
  "DeallocatePage d p = d"

section \<open>The file as a map of pages\<close>

definition on_disk :: "'d disk \<Rightarrow> page_id \<Rightarrow> bool" where
  "on_disk d p \<longleftrightarrow> 0 \<le> p \<and> nat p < length (db_file d)"

definition disk_page :: "'d::zero disk \<Rightarrow> page_id \<Rightarrow> 'd" where
  "disk_page d p = (if on_disk d p then db_file d ! nat p else 0)"

definition disk_ok :: "'d disk \<Rightarrow> bool" where
  "disk_ok d \<longleftrightarrow> \<not> io_failed d \<and> \<not> io_bad d \<and> faulty d = {} \<and> int (length (db_file d)) \<le> next_page_id d"

lemma length_put_page: "length (put_page ps n x) = max (length ps) (Suc n)"
  by (auto simp: put_page_def)

lemma nth_put_page:
  "i < length (put_page ps n x) \<Longrightarrow>
   put_page ps n x ! i = (if i = n then x else if i < length ps then ps ! i else 0)"
  by (auto simp: put_page_def nth_append nth_list_update nth_Cons')

lemma written_sel [simp]:
  "io_failed (written d p x) = (io_failed d \<or> p < 0)"
  "next_page_id (written d p x) = next_page_id d"
  "io_bad (written d p x) = io_bad d" "faulty (written d p x) = faulty d"
  by (auto simp: written_def Let_def)

lemma db_file_written:
  "db_file (written d p x) = (if io_failed d \<or> p < 0 then db_file d else put_page (db_file d) (nat p) x)"
  by (auto simp: written_def Let_def)

lemma on_disk_written:
  "\<not> io_failed d \<Longrightarrow> 0 \<le> p \<Longrightarrow> on_disk (written d p x) q \<longleftrightarrow> 0 \<le> q \<and> (q \<le> p \<or> on_disk d q)"
  by (auto simp: on_disk_def db_file_written length_put_page less_max_iff_disj nat_less_iff less_Suc_eq_le nat_le_eq_zle)

lemma disk_page_written:
  assumes "\<not> io_failed d" "0 \<le> p"
  shows "disk_page (written d p x) q = (if q = p then x else disk_page d q)"
  using assms nth_put_page [of "nat q" "db_file d" "nat p" x]
  by (auto simp: disk_page_def on_disk_def db_file_written length_put_page nat_less_iff eq_nat_nat_iff)

lemma ReadPage_on_disk: "disk_ok d \<Longrightarrow> on_disk d p \<Longrightarrow> ReadPage d p = Inr (disk_page d p, d)"
  by (auto simp: ReadPage_def disk_page_def on_disk_def disk_ok_def)

lemma WritePage_ok: "\<not> io_bad d \<Longrightarrow> p \<notin> faulty d \<Longrightarrow> WritePage d p x = Inr (written d p x)"
  by (simp add: WritePage_def)

section \<open>The contract of a block device\<close>

locale block_device =
  fixes read :: "'s \<Rightarrow> page_id \<Rightarrow> ('d \<times> 's) res"
    and write' :: "'s \<Rightarrow> page_id \<Rightarrow> 'd \<Rightarrow> 's res"
    and allocate :: "'s \<Rightarrow> page_id \<times> 's"
    and page_at :: "'s \<Rightarrow> page_id \<Rightarrow> 'd"
    and present :: "'s \<Rightarrow> page_id \<Rightarrow> bool"
    and frontier :: "'s \<Rightarrow> page_id"
    and ok :: "'s \<Rightarrow> bool"
  assumes read: "ok s \<Longrightarrow> present s p \<Longrightarrow> read s p = Inr (page_at s p, s)"
    and write': "ok s \<Longrightarrow> 0 \<le> p \<Longrightarrow> p < frontier s \<Longrightarrow>
      \<exists>s'. write' s p x = Inr s' \<and> ok s' \<and> frontier s' = frontier s \<and> present s' p \<and>
        page_at s' = (page_at s)(p := x) \<and> (\<forall>q. present s q \<longrightarrow> present s' q)"
    and allocate: "ok s \<Longrightarrow> \<exists>s'. allocate s = (frontier s, s') \<and> ok s' \<and> frontier s' = frontier s + 1 \<and>
      page_at s' = page_at s \<and> present s' = present s"
    and present_range: "ok s \<Longrightarrow> present s p \<Longrightarrow> 0 \<le> p \<and> p < frontier s"
    and frontier_nonneg: "ok s \<Longrightarrow> 0 \<le> frontier s"
begin

lemma read_after_write:
  assumes "ok s" "0 \<le> p" "p < frontier s"
  shows "rbind (write' s p x) (\<lambda>s'. rbind (read s' p) (\<lambda>(y, _). Inr y)) = Inr x"
proof -
  obtain s' where "write' s p x = Inr s'" "ok s'" "present s' p" "page_at s' = (page_at s)(p := x)"
    using write' [OF assms, of x] by blast
  then show ?thesis using read [of s' p] by simp
qed

lemma read_other_after_write:
  assumes "ok s" "0 \<le> p" "p < frontier s" "present s q" "q \<noteq> p"
  shows "rbind (write' s p x) (\<lambda>s'. rbind (read s' q) (\<lambda>(y, _). Inr y)) = rbind (read s q) (\<lambda>(y, _). Inr y)"
proof -
  obtain s' where "write' s p x = Inr s'" "ok s'" "present s' q" "page_at s' = (page_at s)(p := x)"
    using write' [OF assms(1-3), of x] assms(4) by blast
  then show ?thesis using read [of s' q] read [OF assms(1,4)] assms(5) by simp
qed

lemma allocate_fresh: "ok s \<Longrightarrow> \<not> present s (fst (allocate s))"
  using allocate [of s] present_range [of s "frontier s"] by auto

end

interpretation dev: block_device "ReadPage :: 'd::zero disk \<Rightarrow> page_id \<Rightarrow> ('d \<times> 'd disk) res" WritePage AllocatePage
  disk_page on_disk next_page_id disk_ok
proof unfold_locales
  fix s :: "'d disk" and p x
  assume a: "disk_ok s" "0 \<le> p" "p < next_page_id s"
  then have "WritePage s p x = Inr (written s p x)" by (simp add: WritePage_ok disk_ok_def)
  moreover have "disk_ok (written s p x) \<and> next_page_id (written s p x) = next_page_id s \<and>
      on_disk (written s p x) p \<and> disk_page (written s p x) = (disk_page s)(p := x) \<and>
      (\<forall>q. on_disk s q \<longrightarrow> on_disk (written s p x) q)"
    using a by (auto simp: disk_ok_def on_disk_written disk_page_written fun_eq_iff db_file_written length_put_page)
       (auto simp: on_disk_def)
  ultimately show "\<exists>s'. WritePage s p x = Inr s' \<and> disk_ok s' \<and> next_page_id s' = next_page_id s \<and>
      on_disk s' p \<and> disk_page s' = (disk_page s)(p := x) \<and> (\<forall>q. on_disk s q \<longrightarrow> on_disk s' q)" by blast
next
  fix s :: "'d disk"
  assume "disk_ok s"
  then show "\<exists>s'. AllocatePage s = (next_page_id s, s') \<and> disk_ok s' \<and> next_page_id s' = next_page_id s + 1 \<and>
      disk_page s' = disk_page s \<and> on_disk s' = on_disk s"
    by (auto simp: AllocatePage_def disk_ok_def disk_page_def on_disk_def fun_eq_iff)
qed (auto simp: ReadPage_on_disk disk_ok_def on_disk_def)

section \<open>Errors of the device\<close>

text \<open>
  The exceptions come from the badbit alone, and only a refused transfer sets it: a device that works
  keeps working and no read or write on it throws, whatever the page.
\<close>

definition device_works :: "'d disk \<Rightarrow> bool" where
  "device_works d \<longleftrightarrow> \<not> io_bad d \<and> faulty d = {}"

lemma ReadPage_throws: "ReadPage d p = Inl e \<Longrightarrow> e = seek_error \<and> \<not> device_works d"
  by (auto simp: ReadPage_def device_works_def split: if_splits)

lemma ReadPage_works: "ReadPage d p = Inr (x, d') \<Longrightarrow> device_works d' \<longleftrightarrow> device_works d"
  by (auto simp: ReadPage_def device_works_def split: if_splits)

lemma WritePage_throws: "WritePage d p x = Inl e \<Longrightarrow> e = write_error \<and> \<not> device_works d"
  by (auto simp: WritePage_def device_works_def split: if_splits)

lemma WritePage_works: "WritePage d p x = Inr d' \<Longrightarrow> device_works d' \<longleftrightarrow> device_works d"
  by (auto simp: WritePage_def device_works_def split: if_splits)

lemma AllocatePage_works: "AllocatePage d = (p, d') \<Longrightarrow> device_works d' \<longleftrightarrow> device_works d"
  by (auto simp: AllocatePage_def device_works_def)

section \<open>Properties\<close>


abbreviation demo_file :: "nat disk" where
  "demo_file \<equiv> \<lparr>db_file = [5], io_failed = False, io_bad = False, faulty = {}, next_page_id = 4, num_pages = 1\<rparr>"


text \<open>A sequence of writes.\<close>

fun run_writes :: "'d::zero disk \<Rightarrow> (page_id \<times> 'd) list \<Rightarrow> 'd disk res" where
  "run_writes d [] = Inr d"
| "run_writes d ((p, x) # ws) = rbind (WritePage d p x) (\<lambda>d'. run_writes d' ws)"

lemma run_writes_failed:
  "io_failed d \<Longrightarrow> \<not> io_bad d \<Longrightarrow>
   \<exists>d'. run_writes d ws = Inr d' \<and> io_failed d' \<and> \<not> io_bad d' \<and> db_file d' = db_file d"
proof (induction ws arbitrary: d)
  case (Cons w ws)
  obtain p x where "w = (p, x)" by (cases w)
  then show ?case using Cons.IH [of "written d p x"] Cons.prems by (auto simp: WritePage_def db_file_written)
qed simp

text \<open>
  C33. The failbit is sticky: once one page at or beyond the end of the file has been read, every
  later write is lost (the file no longer changes) and every later read returns a zero page,
  although no exception is thrown.
\<close>

theorem short_read_loses_writes:
  assumes "\<not> on_disk d p" and "\<not> io_bad d" and "p \<notin> faulty d"
  shows "\<exists>d1 d2. ReadPage d p = Inr (0, d1) \<and> run_writes d1 ws = Inr d2 \<and> db_file d2 = db_file d \<and>
    ReadPage d2 q = Inr (0, d2)"
proof -
  define d1 where "d1 = d\<lparr>io_failed := True\<rparr>"
  have d1: "ReadPage d p = Inr (0, d1)" "io_failed d1" "\<not> io_bad d1" "db_file d1 = db_file d"
    using assms by (auto simp: ReadPage_def on_disk_def d1_def)
  from run_writes_failed [OF d1(2,3), of ws] d1 show ?thesis by (auto simp: ReadPage_def)
qed

theorem short_read_loses_writes_witness:
  "\<exists>d1 d2. ReadPage demo_file 1 = Inr (0, d1) \<and> run_writes d1 [(0, 7)] = Inr d2 \<and> ReadPage d2 0 = Inr (0, d2)"
  using short_read_loses_writes [of demo_file 1 "[(0, 7)]" 0] by (auto simp: on_disk_def)

end
