(* ===== verification/Buffer_Pool.thy ===== *)
theory Buffer_Pool
  imports LRU_K_Replacer Disk_Manager
begin

text \<open>
  The buffer pool manager: \<^verbatim>\<open>buffer/buffer_pool_manager.h\<close>, \<^verbatim>\<open>buffer/buffer_pool_manager.cpp\<close> and
  the frame \<^verbatim>\<open>storage/page/page.h\<close>. A \<^verbatim>\<open>Page *\<close> is the number of its frame; \<^verbatim>\<open>nullptr\<close> is \<open>None\<close>.
  The contents of a page are any type with a zero, so that the table heap (pages of bytes) and
  the B+ tree (pages of entries) use the same pool. Every method holds the pool's mutex, so its
  calls are atomic. The lemmas show that the pool never throws, never loses an update that was
  unpinned dirty, and presents the pages as one map (\<open>page_view\<close>) whatever it evicts.
\<close>

section \<open>State and methods\<close>

text \<open>Pin counts are integers; \<open>pool_throws_io_errors\<close> bounds them, and the page numbers, by the number of calls.\<close>

record 'd page =
  pg_data :: 'd
  pg_id :: page_id
  pin_count :: int
  is_dirty :: bool

definition Page :: "'d::zero page" where
  "Page = \<lparr>pg_data = 0, pg_id = INVALID_PAGE_ID, pin_count = 0, is_dirty = False\<rparr>"

record 'd bpm =
  pool_size :: nat
  disk_manager :: "'d disk"
  bp_replacer :: lruk
  pages :: "'d page list"
  page_table :: "(page_id, frame_id) umap"
  free_list :: "frame_id list"

definition BufferPoolManager :: "nat \<Rightarrow> 'd::zero disk \<Rightarrow> nat \<Rightarrow> 'd bpm" where
  "BufferPoolManager n d k =
     \<lparr>pool_size = n, disk_manager = d, bp_replacer = LRUKReplacer n k,
      pages = replicate n Page, page_table = [], free_list = map int [0..<n]\<rparr>"

definition frame :: "'d bpm \<Rightarrow> frame_id \<Rightarrow> 'd page" where
  "frame b f = pages b ! nat f"

definition set_frame :: "'d bpm \<Rightarrow> frame_id \<Rightarrow> 'd page \<Rightarrow> 'd bpm" where
  "set_frame b f pg = b\<lparr>pages := (pages b)[nat f := pg]\<rparr>"

text \<open>
  The common first part of \<^verbatim>\<open>NewPage\<close> and \<^verbatim>\<open>FetchPage\<close>: the front of the free list, or a victim
  of the replacer, written back if dirty and removed from the page table.
\<close>

definition take_frame :: "'d::zero bpm \<Rightarrow> (frame_id option \<times> 'd bpm) res" where
  "take_frame b =
     (case free_list b of
        f # fs \<Rightarrow> Inr (Some f, b\<lparr>free_list := fs\<rparr>)
      | [] \<Rightarrow>
          rbind (Evict (bp_replacer b)) (\<lambda>(victim, r).
            let b1 = b\<lparr>bp_replacer := r\<rparr>
            in case victim of
                 None \<Rightarrow> Inr (None, b1)
               | Some f \<Rightarrow>
                   let victim_page = frame b1 f
                   in rbind (if is_dirty victim_page
                             then rbind (WritePage (disk_manager b1) (pg_id victim_page) (pg_data victim_page))
                                    (\<lambda>d. Inr (b1\<lparr>disk_manager := d\<rparr>))
                             else Inr b1)
                        (\<lambda>b2. Inr (Some f, b2\<lparr>page_table := AList.delete (pg_id victim_page) (page_table b2)\<rparr>))))"

text \<open>The common last part: access, pin.\<close>

definition pin_frame :: "'d bpm \<Rightarrow> frame_id \<Rightarrow> 'd bpm res" where
  "pin_frame b f =
     rbind (RecordAccess (bp_replacer b) f) (\<lambda>r. Inr (b\<lparr>bp_replacer := SetEvictable r f False\<rparr>))"

definition NewPage :: "'d::zero bpm \<Rightarrow> ((page_id \<times> frame_id) option \<times> 'd bpm) res" where
  "NewPage b =
     rbind (take_frame b) (\<lambda>(fo, b1).
       case fo of
         None \<Rightarrow> Inr (None, b1)
       | Some f \<Rightarrow>
           let (p, d) = AllocatePage (disk_manager b1);
               b2 = set_frame (b1\<lparr>disk_manager := d\<rparr>) f \<lparr>pg_data = 0, pg_id = p, pin_count = 1, is_dirty = False\<rparr>;
               b3 = b2\<lparr>page_table := AList.update p f (page_table b2)\<rparr>
           in rbind (pin_frame b3 f) (\<lambda>b4. Inr (Some (p, f), b4)))"

definition FetchPage :: "'d::zero bpm \<Rightarrow> page_id \<Rightarrow> (frame_id option \<times> 'd bpm) res" where
  "FetchPage b p =
     (case map_of (page_table b) p of
        Some f \<Rightarrow>
          rbind (pin_frame (set_frame b f ((frame b f)\<lparr>pin_count := pin_count (frame b f) + 1\<rparr>)) f)
            (\<lambda>b1. Inr (Some f, b1))
      | None \<Rightarrow>
          rbind (take_frame b) (\<lambda>(fo, b1).
            case fo of
              None \<Rightarrow> Inr (None, b1)
            | Some f \<Rightarrow>
                rbind (ReadPage (disk_manager b1) p) (\<lambda>(x, d).
                let b2 = set_frame (b1\<lparr>disk_manager := d\<rparr>) f \<lparr>pg_data = x, pg_id = p, pin_count = 1, is_dirty = False\<rparr>;
                    b3 = b2\<lparr>page_table := AList.update p f (page_table b2)\<rparr>
                in rbind (pin_frame b3 f) (\<lambda>b4. Inr (Some f, b4)))))"

definition UnpinPage :: "'d bpm \<Rightarrow> page_id \<Rightarrow> bool \<Rightarrow> bool \<times> 'd bpm" where
  "UnpinPage b p dirty =
     (case map_of (page_table b) p of
        None \<Rightarrow> (False, b)
      | Some f \<Rightarrow>
          let page = frame b f
          in if pin_count page \<le> 0 then (False, b)
             else
               let page' = page\<lparr>pin_count := pin_count page - 1, is_dirty := (is_dirty page \<or> dirty)\<rparr>;
                   b1 = set_frame b f page'
               in (True, if pin_count page' = 0
                         then b1\<lparr>bp_replacer := SetEvictable (bp_replacer b1) f True\<rparr> else b1))"

definition DeletePage :: "'d::zero bpm \<Rightarrow> page_id \<Rightarrow> (bool \<times> 'd bpm) res" where
  "DeletePage b p =
     (case map_of (page_table b) p of
        None \<Rightarrow> Inr (True, b)
      | Some f \<Rightarrow>
          if pin_count (frame b f) \<noteq> 0 then Inr (False, b)
          else
            rbind (Replacer_Remove (bp_replacer b) f) (\<lambda>r.
              let b1 = b\<lparr>page_table := AList.delete p (page_table b), bp_replacer := r,
                         free_list := free_list b @ [f]\<rparr>;
                  b2 = set_frame b1 f \<lparr>pg_data = 0, pg_id = INVALID_PAGE_ID, pin_count = 0, is_dirty = False\<rparr>
              in Inr (True, b2\<lparr>disk_manager := DeallocatePage (disk_manager b2) p\<rparr>)))"

text \<open>Writing one cached page to disk, the body shared by \<^verbatim>\<open>FlushPage\<close> and \<^verbatim>\<open>FlushAllPages\<close>.\<close>

definition flush_frame :: "'d::zero bpm \<Rightarrow> page_id \<Rightarrow> frame_id \<Rightarrow> 'd bpm res" where
  "flush_frame b p f =
     rbind (WritePage (disk_manager b) p (pg_data (frame b f))) (\<lambda>d.
       Inr (set_frame (b\<lparr>disk_manager := d\<rparr>) f ((frame b f)\<lparr>is_dirty := False\<rparr>)))"

definition FlushPage :: "'d::zero bpm \<Rightarrow> page_id \<Rightarrow> (bool \<times> 'd bpm) res" where
  "FlushPage b p =
     (case map_of (page_table b) p of
        None \<Rightarrow> Inr (False, b)
      | Some f \<Rightarrow> rbind (flush_frame b p f) (\<lambda>b1. Inr (True, b1)))"

primrec flush_frames :: "(page_id \<times> frame_id) list \<Rightarrow> 'd::zero bpm \<Rightarrow> 'd bpm res" where
  "flush_frames [] b = Inr b"
| "flush_frames (x # xs) b = rbind (flush_frame b (fst x) (snd x)) (flush_frames xs)"

definition FlushAllPages :: "'d::zero bpm \<Rightarrow> 'd bpm res" where
  "FlushAllPages b = flush_frames (page_table b) b"

text \<open>What a client does with a page it has pinned: read and write its bytes through the pointer.\<close>

definition page_read :: "'d bpm \<Rightarrow> frame_id \<Rightarrow> 'd" where
  "page_read b f = pg_data (frame b f)"

definition page_write :: "'d bpm \<Rightarrow> frame_id \<Rightarrow> 'd \<Rightarrow> 'd bpm" where
  "page_write b f x = set_frame b f ((frame b f)\<lparr>pg_data := x\<rparr>)"

section \<open>The invariant of the pool\<close>

text \<open>
  The proofs look at a pool through \<open>cached\<close> (which frame holds a page) and \<open>frame\<close>.
  \<open>bpm_invT T b\<close> is the invariant while the frames \<open>T\<close> are in transit, taken from the free list
  or from a victim and not yet installed; \<open>bpm_inv\<close> is the invariant between calls.
\<close>

definition cached :: "'d bpm \<Rightarrow> page_id \<Rightarrow> frame_id option" where
  "cached b = map_of (page_table b)"

definition frame_ok :: "'d bpm \<Rightarrow> page_id \<Rightarrow> frame_id \<Rightarrow> bool" where
  "frame_ok b p f \<longleftrightarrow> 0 \<le> f \<and> f < int (pool_size b) \<and> 0 \<le> p \<and> p < next_page_id (disk_manager b) \<and>
     pg_id (frame b f) = p \<and> 0 \<le> pin_count (frame b f)"

definition bpm_invT :: "frame_id set \<Rightarrow> 'd::zero bpm \<Rightarrow> bool" where
  "bpm_invT T b \<longleftrightarrow>
     length (pages b) = pool_size b \<and> max_frames (bp_replacer b) = pool_size b \<and>
     lruk_inv (bp_replacer b) \<and> disk_ok (disk_manager b) \<and>
     distinct (keys (page_table b)) \<and> distinct (free_list b) \<and>
     (\<forall>p f. cached b p = Some f \<longrightarrow> frame_ok b p f) \<and>
     set (free_list b) \<inter> ran (cached b) = {} \<and>
     set (free_list b) \<union> ran (cached b) \<union> T = {0..<int (pool_size b)} \<and>
     T \<inter> (set (free_list b) \<union> ran (cached b)) = {} \<and>
     tracked (bp_replacer b) = ran (cached b) \<and>
     evictable (bp_replacer b) = {f \<in> ran (cached b). pin_count (frame b f) = 0}"

abbreviation bpm_inv :: "'d::zero bpm \<Rightarrow> bool" where
  "bpm_inv b \<equiv> bpm_invT {} b"

text \<open>
  \<open>page_view\<close> is the content of a page as a client sees it, \<open>stored\<close> says that it is in the pool
  or in the file. \<open>coherent W b\<close>: a cached page that is not dirty agrees with the file, but for the
  pages in \<open>W\<close>, which clients have pinned and are modifying.
\<close>

definition page_view :: "'d::zero bpm \<Rightarrow> page_id \<Rightarrow> 'd" where
  "page_view b p = (case cached b p of Some f \<Rightarrow> pg_data (frame b f) | None \<Rightarrow> disk_page (disk_manager b) p)"

definition stored :: "'d bpm \<Rightarrow> page_id \<Rightarrow> bool" where
  "stored b p \<longleftrightarrow> cached b p \<noteq> None \<or> on_disk (disk_manager b) p"

definition pins :: "'d bpm \<Rightarrow> page_id \<Rightarrow> int" where
  "pins b p = (case cached b p of Some f \<Rightarrow> pin_count (frame b f) | None \<Rightarrow> 0)"

definition coherent :: "page_id set \<Rightarrow> 'd::zero bpm \<Rightarrow> bool" where
  "coherent W b \<longleftrightarrow>
     (\<forall>p f. cached b p = Some f \<longrightarrow> \<not> is_dirty (frame b f) \<longrightarrow> p \<notin> W \<longrightarrow>
        on_disk (disk_manager b) p \<and> disk_page (disk_manager b) p = pg_data (frame b f)) \<and>
     (\<forall>p \<in> W. 0 < pins b p)"

subsection \<open>Views of the field updates\<close>

lemma map_of_page_table [simp]: "map_of (page_table b) = cached b"
  by (simp add: cached_def)

lemma cached_updates [simp]:
  "cached (b\<lparr>page_table := m\<rparr>) = map_of m"
  "cached (b\<lparr>disk_manager := d\<rparr>) = cached b" "cached (b\<lparr>bp_replacer := r\<rparr>) = cached b"
  "cached (b\<lparr>free_list := fs\<rparr>) = cached b" "cached (set_frame b f pg) = cached b"
  by (simp_all add: cached_def set_frame_def del: map_of_page_table)

lemma set_frame_sel [simp]:
  "pool_size (set_frame b f pg) = pool_size b" "disk_manager (set_frame b f pg) = disk_manager b"
  "bp_replacer (set_frame b f pg) = bp_replacer b" "page_table (set_frame b f pg) = page_table b"
  "free_list (set_frame b f pg) = free_list b" "length (pages (set_frame b f pg)) = length (pages b)"
  by (simp_all add: set_frame_def)

lemma frame_updates [simp]:
  "frame (b\<lparr>page_table := m\<rparr>) = frame b" "frame (b\<lparr>disk_manager := d\<rparr>) = frame b"
  "frame (b\<lparr>bp_replacer := r\<rparr>) = frame b" "frame (b\<lparr>free_list := fs\<rparr>) = frame b"
  by (simp_all add: frame_def fun_eq_iff)

lemma frame_set_frame:
  "0 \<le> f \<Longrightarrow> f < int (length (pages b)) \<Longrightarrow> 0 \<le> g \<Longrightarrow>
   frame (set_frame b f pg) g = (if g = f then pg else frame b g)"
  by (auto simp: frame_def set_frame_def nth_list_update eq_nat_nat_iff nat_less_iff)

lemma bpm_invTD:
  assumes "bpm_invT T b"
  shows "length (pages b) = pool_size b" "max_frames (bp_replacer b) = pool_size b"
    "lruk_inv (bp_replacer b)" "disk_ok (disk_manager b)" "distinct (keys (page_table b))"
    "distinct (free_list b)" "tracked (bp_replacer b) = ran (cached b)"
    "evictable (bp_replacer b) = {f \<in> ran (cached b). pin_count (frame b f) = 0}"
    "T \<subseteq> {0..<int (pool_size b)}" "set (free_list b) \<subseteq> {0..<int (pool_size b)}"
    "set (free_list b) \<inter> ran (cached b) = {}"
    "T \<inter> (set (free_list b) \<union> ran (cached b)) = {}"
    "set (free_list b) \<union> ran (cached b) \<union> T = {0..<int (pool_size b)}"
  using assms unfolding bpm_invT_def by blast+

lemma bpm_inv_cached: "bpm_invT T b \<Longrightarrow> cached b p = Some f \<Longrightarrow> frame_ok b p f"
  by (simp add: bpm_invT_def)

lemma cached_inj: "bpm_invT T b \<Longrightarrow> cached b p = Some f \<Longrightarrow> cached b q = Some f \<Longrightarrow> p = q"
  using bpm_inv_cached unfolding frame_ok_def by metis

lemma bpm_views [simp]:
  "pins (b\<lparr>free_list := fs\<rparr>) = pins b" "pins (b\<lparr>bp_replacer := r\<rparr>) = pins b"
  "pins (b\<lparr>disk_manager := d\<rparr>) = pins b"
  "stored (b\<lparr>free_list := fs\<rparr>) = stored b" "stored (b\<lparr>bp_replacer := r\<rparr>) = stored b"
  "page_view (b\<lparr>free_list := fs\<rparr>) = page_view b" "page_view (b\<lparr>bp_replacer := r\<rparr>) = page_view b"
  by (simp_all add: pins_def stored_def page_view_def fun_eq_iff split: option.split)

lemma coherent_updates [simp]:
  "coherent W (b\<lparr>free_list := fs\<rparr>) = coherent W b" "coherent W (b\<lparr>bp_replacer := r\<rparr>) = coherent W b"
  by (simp_all add: coherent_def)

lemma set_ints [simp]: "int ` {0..<n} = {0..<int n}"
  by (simp add: image_int_atLeastLessThan)

lemma bpm_inv_init:
  assumes "disk_ok d" "0 < k"
  shows "bpm_inv (BufferPoolManager n d k)"
proof -
  have "tracked (LRUKReplacer n k) = {}" "evictable (LRUKReplacer n k) = {}"
    by (simp_all add: tracked_def evictable_def entry_of_def LRUKReplacer_def del: map_of_entries)
  then show ?thesis
    using assms lruk_inv_init [of k n]
    by (simp add: bpm_invT_def BufferPoolManager_def cached_def distinct_map LRUKReplacer_def del: map_of_page_table)
qed

section \<open>Taking and installing a frame\<close>

text \<open>
  \<open>keeps X b b'\<close>: but for the pages in \<open>X\<close>, every page that was stored still is, with the same
  content, the pin counts are the same, and a page that is pinned stays in its frame.
\<close>

definition keeps :: "page_id set \<Rightarrow> 'd::zero bpm \<Rightarrow> 'd bpm \<Rightarrow> bool" where
  "keeps X b b' \<longleftrightarrow> pool_size b' = pool_size b \<and>
     (\<forall>q. q \<notin> X \<longrightarrow> stored b q \<longrightarrow> stored b' q \<and> page_view b' q = page_view b q) \<and>
     (\<forall>q. q \<notin> X \<longrightarrow> pins b' q = pins b q) \<and>
     (\<forall>q. q \<notin> X \<longrightarrow> 0 < pins b q \<longrightarrow> cached b' q = cached b q)"

lemma keepsI:
  assumes "pool_size b' = pool_size b"
    and "\<And>q. q \<notin> X \<Longrightarrow> stored b q \<Longrightarrow> stored b' q \<and> page_view b' q = page_view b q"
    and "\<And>q. q \<notin> X \<Longrightarrow> pins b' q = pins b q"
    and "\<And>q. q \<notin> X \<Longrightarrow> 0 < pins b q \<Longrightarrow> cached b' q = cached b q"
  shows "keeps X b b'"
  using assms by (simp add: keeps_def)

lemma keeps_refl [simp]: "keeps X b b"
  by (simp add: keeps_def)

lemma keeps_trans: "keeps X b b' \<Longrightarrow> keeps Y b' b'' \<Longrightarrow> keeps (X \<union> Y) b b''"
  by (auto simp: keeps_def)

lemma keeps_mono: "keeps X b b' \<Longrightarrow> X \<subseteq> Y \<Longrightarrow> keeps Y b b'"
  by (auto simp: keeps_def)

lemma ran_delete_inj:
  assumes "m p = Some f" "\<And>q. m q = Some f \<Longrightarrow> q = p"
  shows "ran (m(p := None)) = ran m - {f}"
proof
  show "ran (m(p := None)) \<subseteq> ran m - {f}"
    by (auto simp: ran_def dest: assms(2) split: if_splits)
  show "ran m - {f} \<subseteq> ran (m(p := None))"
  proof
    fix g assume "g \<in> ran m - {f}"
    then obtain q where "m q = Some g" "g \<noteq> f" by (auto simp: ran_def)
    then have "(m(p := None)) q = Some g" using assms(1) by auto
    then show "g \<in> ran (m(p := None))" by (rule ranI)
  qed
qed

lemma coherentD:
  assumes "coherent W b" "cached b p = Some f" "\<not> is_dirty (frame b f)" "p \<notin> W"
  shows "on_disk (disk_manager b) p" "disk_page (disk_manager b) p = pg_data (frame b f)"
  using assms by (auto simp: coherent_def)

lemma coherent_pinned: "coherent W b \<Longrightarrow> p \<in> W \<Longrightarrow> 0 < pins b p"
  by (simp add: coherent_def)

text \<open>
  What the proofs need of the pool after a victim was taken out: one page \<open>p\<close> is no longer cached,
  its frame \<open>f\<close> is in transit, and the disk holds its content.
\<close>

definition uncached :: "page_id \<Rightarrow> frame_id \<Rightarrow> 'd::zero bpm \<Rightarrow> 'd bpm \<Rightarrow> bool" where
  "uncached p f b b' \<longleftrightarrow> cached b p = Some f \<and> pin_count (frame b f) = 0 \<and>
     cached b' = (cached b)(p := None) \<and> frame b' = frame b \<and> pool_size b' = pool_size b \<and>
     length (pages b') = length (pages b) \<and> free_list b' = free_list b \<and>
     distinct (keys (page_table b')) \<and> disk_ok (disk_manager b') \<and>
     next_page_id (disk_manager b') = next_page_id (disk_manager b) \<and>
     on_disk (disk_manager b') p \<and> disk_page (disk_manager b') p = pg_data (frame b f) \<and>
     (\<forall>q. on_disk (disk_manager b) q \<longrightarrow> on_disk (disk_manager b') q) \<and>
     (\<forall>q. q \<noteq> p \<longrightarrow> disk_page (disk_manager b') q = disk_page (disk_manager b) q) \<and>
     lruk_inv (bp_replacer b') \<and> max_frames (bp_replacer b') = pool_size b \<and>
     tracked (bp_replacer b') = tracked (bp_replacer b) - {f} \<and>
     evictable (bp_replacer b') = evictable (bp_replacer b) - {f}"

lemma victim_written:
  assumes inv: "bpm_inv b" and ev: "Evict (bp_replacer b) = Inr (Some f, r)"
  shows "\<exists>d. WritePage (disk_manager b) (pg_id (frame b f)) (pg_data (frame b f)) = Inr d"
proof -
  note i = bpm_invTD [OF inv]
  have "f \<in> evictable (bp_replacer b)" using lru.evict [OF i(3)] ev by auto
  then obtain p where "cached b p = Some f" by (auto simp: i(8) ran_def)
  from bpm_inv_cached [OF inv this] show ?thesis
    using dev.write' [OF i(4), of p "pg_data (frame b f)"] by (auto simp: frame_ok_def)
qed

lemma evict_uncached:
  assumes inv: "bpm_inv b" and coh: "coherent W b" and ev: "Evict (bp_replacer b) = Inr (Some f, r)"
    and b1: "b1 = b\<lparr>bp_replacer := r\<rparr>"
    and b2: "(if is_dirty (frame b f)
        then rbind (WritePage (disk_manager b1) (pg_id (frame b f)) (pg_data (frame b f))) (\<lambda>d. Inr (b1\<lparr>disk_manager := d\<rparr>))
        else Inr b1) = Inr b2"
    and b3: "b3 = b2\<lparr>page_table := AList.delete (pg_id (frame b f)) (page_table b2)\<rparr>"
  shows "\<exists>p. p \<notin> W \<and> uncached p f b b3"
proof -
  let ?d = "disk_manager b" let ?d' = "disk_manager b3" let ?x = "pg_data (frame b f)"
  note i = bpm_invTD [OF inv]
  have r: "f \<in> evictable (bp_replacer b)" "lruk_inv r" "max_frames r = pool_size b"
      "tracked r = tracked (bp_replacer b) - {f}" "evictable r = evictable (bp_replacer b) - {f}"
    using lru.evict [OF i(3)] ev i(2) by auto
  then obtain p where p: "cached b p = Some f" "pin_count (frame b f) = 0"
    by (auto simp: i(8) ran_def)
  have "frame_ok b p f" using inv p(1) by (rule bpm_inv_cached)
  then have id: "pg_id (frame b f) = p" "0 \<le> p" "p < next_page_id ?d" by (auto simp: frame_ok_def)
  have pW: "p \<notin> W" using coherent_pinned [OF coh, of p] p by (auto simp: pins_def)
  from dev.write' [OF i(4) id(2,3), of ?x] obtain dw where w: "WritePage ?d p ?x = Inr dw" "disk_ok dw"
      "next_page_id dw = next_page_id ?d" "on_disk dw p" "disk_page dw = (disk_page ?d)(p := ?x)"
      "\<forall>q. on_disk ?d q \<longrightarrow> on_disk dw q" by blast
  have b2': "b2 = (if is_dirty (frame b f) then b1\<lparr>disk_manager := dw\<rparr> else b1)"
    using b2 w(1) by (auto simp: b1 id split: if_splits)
  have d': "?d' = (if is_dirty (frame b f) then dw else ?d)"
    by (simp add: b1 b2' b3 id)
  have "disk_ok ?d' \<and> next_page_id ?d' = next_page_id ?d \<and> on_disk ?d' p \<and> disk_page ?d' p = ?x \<and>
      (\<forall>q. on_disk ?d q \<longrightarrow> on_disk ?d' q) \<and> (\<forall>q. q \<noteq> p \<longrightarrow> disk_page ?d' q = disk_page ?d q)"
  proof (cases "is_dirty (frame b f)")
    case True
    then show ?thesis unfolding d' using w by simp
  next
    case False
    then show ?thesis unfolding d' using i(4) coherentD [OF coh p(1) False pW] by simp
  qed
  then show ?thesis
    using pW p r i(5) by (intro exI [of _ p]) (simp add: uncached_def b1 b2' b3 id)
qed

lemma uncached_ran: "bpm_inv b \<Longrightarrow> uncached p f b b' \<Longrightarrow> ran (cached b') = ran (cached b) - {f}"
  unfolding uncached_def by (metis cached_inj ran_delete_inj)

lemma uncached_cached:
  "uncached p f b b' \<Longrightarrow> cached b' q = Some g \<longleftrightarrow> q \<noteq> p \<and> cached b q = Some g"
  by (simp add: uncached_def)

lemma uncached_frame: "uncached p f b b' \<Longrightarrow> frame b' = frame b"
  by (simp add: uncached_def)

lemma uncached_pins: "uncached p f b b' \<Longrightarrow> pins b' = pins b"
  by (auto simp: uncached_def pins_def fun_eq_iff cong: option.case_cong)

lemma uncached_inv:
  assumes inv: "bpm_inv b" and un: "uncached p f b b'"
  shows "bpm_invT {f} b'"
proof -
  note i = bpm_invTD [OF inv]
  note u = un [unfolded uncached_def]
  have ran': "ran (cached b') = ran (cached b) - {f}" using inv un by (rule uncached_ran)
  have fran: "f \<in> ran (cached b)" using u by (blast intro: ranI)
  have "cached b' q = Some g \<Longrightarrow> frame_ok b' q g" for q g
    using bpm_inv_cached [OF inv, of q g] u by (simp add: frame_ok_def split: if_splits)
  moreover have "set (free_list b) \<inter> (ran (cached b) - {f}) = {}"
      "set (free_list b) \<union> (ran (cached b) - {f}) \<union> {f} = {0..<int (pool_size b)}"
      "{f} \<inter> (set (free_list b) \<union> (ran (cached b) - {f})) = {}"
    using i(11,13) fran by auto
  moreover have "evictable (bp_replacer b') = {g \<in> ran (cached b) - {f}. pin_count (frame b g) = 0}"
    "tracked (bp_replacer b') = ran (cached b) - {f}"
    using u i(7,8) by auto
  ultimately show ?thesis
    using i(1,6) u unfolding bpm_invT_def ran' by auto
qed

lemma uncached_coherent:
  assumes coh: "coherent W b" and un: "uncached p f b b'" and W: "p \<notin> W"
  shows "coherent W b'"
  unfolding coherent_def
proof (intro conjI allI impI ballI)
  fix q g assume q: "cached b' q = Some g" "\<not> is_dirty (frame b' g)" "q \<notin> W"
  then have "q \<noteq> p" "cached b q = Some g" "\<not> is_dirty (frame b g)"
    by (simp_all add: uncached_cached [OF un] uncached_frame [OF un])
  from coherentD [OF coh this(2,3) q(3)] this(1) un
  show "on_disk (disk_manager b') q" "disk_page (disk_manager b') q = pg_data (frame b' g)"
    by (simp_all add: uncached_def)
next
  fix q assume "q \<in> W"
  then show "0 < pins b' q"
    using coherent_pinned [OF coh, of q] W by (simp add: uncached_pins [OF un])
qed

lemma uncached_keeps:
  assumes un: "uncached p f b b'"
  shows "keeps {} b b'"
proof (rule keepsI)
  fix q assume "stored b q"
  then show "stored b' q \<and> page_view b' q = page_view b q"
    using un by (cases "q = p") (auto simp: stored_def page_view_def uncached_def split: option.splits)
next
  fix q show "pins b' q = pins b q" by (simp add: uncached_pins [OF un])
next
  fix q assume "0 < pins b q"
  then show "cached b' q = cached b q" using un by (auto simp: uncached_def pins_def)
qed (use un in \<open>simp add: uncached_def\<close>)

lemma take_frame_ok:
  assumes inv: "bpm_inv b" and coh: "coherent W b"
  shows "(take_frame b = Inr (None, b) \<and> free_list b = [] \<and> Evict (bp_replacer b) = Inr (None, bp_replacer b)) \<or>
    (\<exists>f b1. take_frame b = Inr (Some f, b1) \<and> bpm_invT {f} b1 \<and> coherent W b1 \<and> keeps {} b b1 \<and>
       next_page_id (disk_manager b1) = next_page_id (disk_manager b) \<and>
       (\<forall>q. cached b q = None \<longrightarrow> cached b1 q = None))"
proof (cases "free_list b")
  case (Cons f fs)
  let ?b1 = "b\<lparr>free_list := fs\<rparr>"
  note i = bpm_invTD [OF inv]
  have "bpm_invT {f} ?b1"
    using inv Cons i(6) by (auto simp: bpm_invT_def frame_ok_def)
  moreover have "keeps {} b ?b1" by (simp add: keeps_def)
  ultimately show ?thesis using Cons coh by (simp add: take_frame_def)
next
  case Nil
  from lru.evict [OF bpm_invTD(3) [OF inv]]
  consider "Evict (bp_replacer b) = Inr (None, bp_replacer b)" | f r where "Evict (bp_replacer b) = Inr (Some f, r)"
    by blast
  then show ?thesis
  proof cases
    case 1
    then show ?thesis using Nil by (simp add: take_frame_def)
  next
    case 2
    define b1 where "b1 = b\<lparr>bp_replacer := r\<rparr>"
    let ?wr = "if is_dirty (frame b f)
        then rbind (WritePage (disk_manager b1) (pg_id (frame b f)) (pg_data (frame b f))) (\<lambda>d. Inr (b1\<lparr>disk_manager := d\<rparr>))
        else Inr b1"
    obtain d where "WritePage (disk_manager b) (pg_id (frame b f)) (pg_data (frame b f)) = Inr d"
      using victim_written [OF inv 2] by blast
    then have b2: "?wr = Inr (if is_dirty (frame b f) then b1\<lparr>disk_manager := d\<rparr> else b1)" (is "_ = Inr ?b2") by (simp add: b1_def)
    define b3 where "b3 = ?b2\<lparr>page_table := AList.delete (pg_id (frame b f)) (page_table ?b2)\<rparr>"
    have fb: "frame b1 = frame b" by (simp add: b1_def)
    have "take_frame b = rbind ?wr (\<lambda>b2. Inr (Some f, b2\<lparr>page_table := AList.delete (pg_id (frame b f)) (page_table b2)\<rparr>))"
      using Nil 2 fb by (simp add: take_frame_def Let_def flip: b1_def del: rbind_eq_Inr)
    then have "take_frame b = Inr (Some f, b3)"
      unfolding b2 b3_def by simp
    moreover obtain p where p: "p \<notin> W" "uncached p f b b3"
      using evict_uncached [OF inv coh 2 b1_def b2 b3_def] by blast
    moreover have "next_page_id (disk_manager b3) = next_page_id (disk_manager b)"
        "\<forall>q. cached b q = None \<longrightarrow> cached b3 q = None"
      using p(2) by (auto simp: uncached_def)
    ultimately show ?thesis
      using uncached_inv [OF inv p(2)] uncached_coherent [OF coh p(2,1)] uncached_keeps [OF p(2)] by blast
  qed
qed

text \<open>The frame in transit receives page \<open>p\<close>, pinned once.\<close>

lemma pin_frame_ok:
  assumes "lruk_inv (bp_replacer b)" "0 \<le> f" "f < int (max_frames (bp_replacer b))"
  shows "\<exists>r. pin_frame b f = Inr (b\<lparr>bp_replacer := r\<rparr>) \<and> lruk_inv r \<and>
    max_frames r = max_frames (bp_replacer b) \<and> tracked r = insert f (tracked (bp_replacer b)) \<and>
    evictable r = evictable (bp_replacer b) - {f}"
proof -
  obtain r1 where "RecordAccess (bp_replacer b) f = Inr r1" "lruk_inv (SetEvictable r1 f False)"
      "max_frames (SetEvictable r1 f False) = max_frames (bp_replacer b)"
      "tracked (SetEvictable r1 f False) = insert f (tracked (bp_replacer b))"
      "evictable (SetEvictable r1 f False) = evictable (bp_replacer b) - {f}"
    using lru.pin [OF assms] by blast
  then show ?thesis by (intro exI [of _ "SetEvictable r1 f False"]) (simp add: pin_frame_def)
qed

definition installed :: "page_id \<Rightarrow> frame_id \<Rightarrow> 'd \<Rightarrow> 'd::zero bpm \<Rightarrow> 'd bpm \<Rightarrow> bool" where
  "installed p f x b b' \<longleftrightarrow> cached b p = None \<and> cached b' = (cached b)(p \<mapsto> f) \<and>
     pool_size b' = pool_size b \<and>
     frame b' f = \<lparr>pg_data = x, pg_id = p, pin_count = 1, is_dirty = False\<rparr> \<and>
     (\<forall>g. 0 \<le> g \<longrightarrow> g \<noteq> f \<longrightarrow> frame b' g = frame b g) \<and>
     disk_page (disk_manager b') = disk_page (disk_manager b) \<and>
     on_disk (disk_manager b') = on_disk (disk_manager b)"

lemma install_frame_ok:
  assumes inv: "bpm_invT {f} b" and new: "cached b p = None"
    and d: "disk_ok d" "next_page_id (disk_manager b) \<le> next_page_id d"
      "disk_page d = disk_page (disk_manager b)" "on_disk d = on_disk (disk_manager b)"
    and p: "0 \<le> p" "p < next_page_id d"
    and b2: "b2 = set_frame (b\<lparr>disk_manager := d\<rparr>) f \<lparr>pg_data = x, pg_id = p, pin_count = 1, is_dirty = False\<rparr>"
    and b3: "b3 = b2\<lparr>page_table := AList.update p f (page_table b2)\<rparr>"
  shows "\<exists>b4. pin_frame b3 f = Inr b4 \<and> bpm_inv b4 \<and> installed p f x b b4 \<and> disk_manager b4 = d"
proof -
  note i = bpm_invTD [OF inv]
  have f: "0 \<le> f" "f < int (pool_size b)" using i(9) by auto
  have fnot: "f \<notin> set (free_list b)" "f \<notin> ran (cached b)" using i(12) by auto
  have sel: "bp_replacer b3 = bp_replacer b" "pool_size b3 = pool_size b" "disk_manager b3 = d"
      "free_list b3 = free_list b" "length (pages b3) = pool_size b" "distinct (keys (page_table b3))"
      "cached b3 = (cached b)(p \<mapsto> f)"
    using i(1,5) by (simp_all add: b2 b3)
  have fr: "frame b3 g = (if g = f then \<lparr>pg_data = x, pg_id = p, pin_count = 1, is_dirty = False\<rparr> else frame b g)"
    if "0 \<le> g" for g
    using f that i(1) by (simp add: b2 b3 frame_set_frame)
  obtain r where r: "pin_frame b3 f = Inr (b3\<lparr>bp_replacer := r\<rparr>)" "lruk_inv r" "max_frames r = pool_size b"
      "tracked r = insert f (tracked (bp_replacer b))" "evictable r = evictable (bp_replacer b) - {f}"
    using pin_frame_ok [of b3 f] f i(2,3) by (auto simp: sel)
  have ran3: "ran (cached b3) = insert f (ran (cached b))"
    using new by (simp add: sel)
  have nonneg: "0 \<le> g" if "g \<in> ran (cached b)" for g using i(13) that by auto
  have "cached b3 q = Some g \<Longrightarrow> frame_ok b3 q g" for q g
    using bpm_inv_cached [OF inv, of q g] ranI [of "cached b" q g] fnot(2) f p d(2) by (auto simp: sel fr frame_ok_def split: if_splits)
  moreover have "evictable r = {g \<in> insert f (ran (cached b)). pin_count (frame b3 g) = 0}"
    using r(5) i(8) nonneg f fnot(2) by (auto simp: fr split: if_splits)
  moreover have "set (free_list b) \<inter> insert f (ran (cached b)) = {}"
      "set (free_list b) \<union> insert f (ran (cached b)) = {0..<int (pool_size b)}"
    using i(11,13) fnot by auto
  ultimately have "bpm_inv (b3\<lparr>bp_replacer := r\<rparr>)"
    using r i(6,7) d(1) sel ran3 unfolding bpm_invT_def by (simp add: frame_ok_def)
  moreover have "installed p f x b (b3\<lparr>bp_replacer := r\<rparr>)"
    using new d f by (simp add: installed_def sel fr)
  ultimately show ?thesis using r(1) sel(3) by (intro exI [of _ "b3\<lparr>bp_replacer := r\<rparr>"]) simp
qed

lemma installed_frame:
  "installed p f x b b' \<Longrightarrow> bpm_invT {f} b \<Longrightarrow> q \<noteq> p \<Longrightarrow> cached b' q = Some g \<Longrightarrow>
   cached b q = Some g \<and> frame b' g = frame b g"
  using bpm_invTD(12) [of "{f}" b] bpm_inv_cached [of "{f}" b q g] ranI [of "cached b" q g]
  by (auto simp: installed_def frame_ok_def)

lemma installed_pins:
  assumes "installed p f x b b'" "bpm_invT {f} b"
  shows "pins b' q = (if q = p then 1 else pins b q)"
proof (cases "cached b' q")
  case (Some g)
  then show ?thesis using assms installed_frame [OF assms, of q g]
    by (auto simp: pins_def installed_def split: if_splits)
qed (use assms in \<open>auto simp: pins_def installed_def split: if_splits\<close>)

lemma installed_stored: "installed p f x b b' \<Longrightarrow> stored b' q \<longleftrightarrow> q = p \<or> stored b q"
  by (auto simp: stored_def installed_def)

lemma installed_view:
  assumes "installed p f x b b'" "bpm_invT {f} b"
  shows "page_view b' q = (if q = p then x else page_view b q)"
proof (cases "cached b' q")
  case (Some g)
  then show ?thesis using assms installed_frame [OF assms, of q g]
    by (auto simp: page_view_def installed_def split: if_splits)
qed (use assms in \<open>auto simp: page_view_def installed_def split: if_splits\<close>)

lemma installed_keeps: "installed p f x b b' \<Longrightarrow> bpm_invT {f} b \<Longrightarrow> keeps {p} b b'"
  by (rule keepsI) (auto simp: installed_pins installed_view installed_stored, simp_all add: installed_def)

lemma installed_coherent:
  assumes ins: "installed p f x b b'" and inv: "bpm_invT {f} b" and coh: "coherent W b"
    and V: "V = W \<or> V = insert p W"
      "p \<in> V \<or> on_disk (disk_manager b) p \<and> disk_page (disk_manager b) p = x"
  shows "coherent V b'"
  unfolding coherent_def
proof (intro conjI allI impI ballI)
  fix q g assume q: "cached b' q = Some g" "\<not> is_dirty (frame b' g)" "q \<notin> V"
  have "on_disk (disk_manager b') q \<and> disk_page (disk_manager b') q = pg_data (frame b' g)"
  proof (cases "q = p")
    case True
    then show ?thesis using q V ins by (auto simp: installed_def)
  next
    case False
    from installed_frame [OF ins inv this q(1)] q V
    show ?thesis using coherentD [OF coh, of q g] ins by (auto simp: installed_def)
  qed
  then show "on_disk (disk_manager b') q" "disk_page (disk_manager b') q = pg_data (frame b' g)"
    by simp_all
next
  fix q assume "q \<in> V"
  then show "0 < pins b' q"
    using V(1) coherent_pinned [OF coh, of q] by (auto simp: installed_pins [OF ins inv])
qed

section \<open>The operations\<close>

lemma NewPage_ok:
  assumes inv: "bpm_inv b" and coh: "coherent W b"
  shows "(NewPage b = Inr (None, b) \<and> free_list b = [] \<and> Evict (bp_replacer b) = Inr (None, bp_replacer b)) \<or>
    (\<exists>p f b'. p = next_page_id (disk_manager b) \<and> NewPage b = Inr (Some (p, f), b') \<and> bpm_inv b' \<and>
       coherent (insert p W) b' \<and> keeps {p} b b' \<and> \<not> stored b p \<and> stored b' p \<and> page_view b' p = 0 \<and>
       cached b' p = Some f \<and> frame b' f = \<lparr>pg_data = 0, pg_id = p, pin_count = 1, is_dirty = False\<rparr> \<and>
       next_page_id (disk_manager b') = p + 1)"
  using take_frame_ok [OF inv coh]
proof (elim disjE exE conjE)
  fix f b1
  assume tk: "take_frame b = Inr (Some f, b1)" "bpm_invT {f} b1" "coherent W b1" "keeps {} b b1"
    "next_page_id (disk_manager b1) = next_page_id (disk_manager b)"
  let ?p = "next_page_id (disk_manager b)"
  let ?d = "snd (AllocatePage (disk_manager b1))"
  define b2 where "b2 = set_frame (b1\<lparr>disk_manager := ?d\<rparr>) f
    \<lparr>pg_data = 0, pg_id = ?p, pin_count = 1, is_dirty = False\<rparr>"
  define b3 where "b3 = b2\<lparr>page_table := AList.update ?p f (page_table b2)\<rparr>"
  have fresh: "cached c ?p = None \<and> \<not> on_disk (disk_manager c) ?p"
    if "bpm_invT T c" "next_page_id (disk_manager c) = ?p" for T and c :: "'a bpm"
  proof -
    have "\<not> on_disk (disk_manager c) ?p" "\<And>f. cached c ?p \<noteq> Some f"
      using dev.present_range [OF bpm_invTD(4) [OF that(1)], of ?p] bpm_inv_cached [OF that(1), of ?p] that(2)
      by (auto simp: frame_ok_def)
    then show ?thesis by (cases "cached c ?p") auto
  qed
  have d: "AllocatePage (disk_manager b1) = (?p, ?d)" "disk_ok ?d" "next_page_id ?d = ?p + 1"
      "disk_page ?d = disk_page (disk_manager b1)" "on_disk ?d = on_disk (disk_manager b1)"
    using dev.allocate [OF bpm_invTD(4) [OF tk(2)]] tk(5) by auto
  have "0 \<le> ?p" using dev.frontier_nonneg [OF bpm_invTD(4) [OF inv]] .
  then obtain b4 where b4: "pin_frame b3 f = Inr b4" "bpm_inv b4" "installed ?p f 0 b1 b4" "disk_manager b4 = ?d"
    using install_frame_ok [OF tk(2) _ d(2) _ d(4,5) _ _ b2_def b3_def] fresh [OF tk(2,5)] d(3) tk(5) by auto
  have "NewPage b = Inr (Some (?p, f), b4)"
    using tk(1) arg_cong [OF d(1), of fst] b4(1) by (simp add: NewPage_def Let_def b2_def b3_def case_prod_beta)
  moreover have "coherent (insert ?p W) b4"
    using installed_coherent [OF b4(3) tk(2,3)] by blast
  moreover have "keeps {?p} b b4"
    using keeps_trans [OF tk(4) installed_keeps [OF b4(3) tk(2)]] by simp
  ultimately show ?thesis
    using b4 d(3) fresh [OF inv refl] installed_view [OF b4(3) tk(2)] installed_stored [OF b4(3)]
    by (intro disjI2 exI [of _ ?p] exI [of _ f] exI [of _ b4]) (simp add: installed_def stored_def)
qed (simp add: NewPage_def)

lemma FetchPage_cached:
  assumes inv: "bpm_inv b" and coh: "coherent W b" and p: "cached b p = Some f"
  shows "\<exists>b'. FetchPage b p = Inr (Some f, b') \<and> bpm_inv b' \<and> coherent W b' \<and> cached b' = cached b \<and>
    pool_size b' = pool_size b \<and> disk_manager b' = disk_manager b \<and>
    (\<forall>g. 0 \<le> g \<longrightarrow> frame b' g = (if g = f then (frame b f)\<lparr>pin_count := pin_count (frame b f) + 1\<rparr> else frame b g))"
proof -
  note i = bpm_invTD [OF inv]
  define pg where "pg = (frame b f)\<lparr>pin_count := pin_count (frame b f) + 1\<rparr>"
  let ?b1 = "set_frame b f pg"
  have fo: "frame_ok b p f" using inv p by (rule bpm_inv_cached)
  then have f: "0 \<le> f" "f < int (pool_size b)" "0 \<le> pin_count (frame b f)" by (auto simp: frame_ok_def)
  obtain r where r: "pin_frame ?b1 f = Inr (?b1\<lparr>bp_replacer := r\<rparr>)" "lruk_inv r" "max_frames r = pool_size b"
      "tracked r = insert f (tracked (bp_replacer b))" "evictable r = evictable (bp_replacer b) - {f}"
    using pin_frame_ok [of ?b1 f] f i(2,3) by auto
  define b' where "b' = ?b1\<lparr>bp_replacer := r\<rparr>"
  have fr: "frame b' g = (if g = f then pg else frame b g)" if "0 \<le> g" for g
    using f that i(1) by (simp add: b'_def frame_set_frame)
  have nonneg: "0 \<le> g" if "cached b q = Some g" for q g
    using bpm_inv_cached [OF inv that] by (simp add: frame_ok_def)
  have sel: "cached b' = cached b" "pool_size b' = pool_size b" "disk_manager b' = disk_manager b"
    "length (pages b') = pool_size b" "free_list b' = free_list b" "page_table b' = page_table b"
    "bp_replacer b' = r"
    using i(1) by (simp_all add: b'_def)
  have "frame_ok b' q g" if "cached b q = Some g" for q g
    using bpm_inv_cached [OF inv that] nonneg [OF that] by (auto simp: frame_ok_def fr sel pg_def)
  moreover have "evictable r = {g \<in> ran (cached b). pin_count (frame b' g) = 0}"
    unfolding r(5) i(8) using f nonneg by (auto simp: fr pg_def ran_def split: if_splits)
  moreover have "tracked r = ran (cached b)"
    using r(4) i(7) p by (auto intro: ranI)
  ultimately have "bpm_inv b'"
    using i(4,5,6,11,13) r(2,3) by (simp add: bpm_invT_def sel)
  moreover have "coherent W b'"
    unfolding coherent_def
  proof (intro conjI allI impI ballI)
    fix q g assume q: "cached b' q = Some g" "\<not> is_dirty (frame b' g)" "q \<notin> W"
    then have "cached b q = Some g" "\<not> is_dirty (frame b g)" "pg_data (frame b' g) = pg_data (frame b g)"
      using nonneg [of q g] by (auto simp: sel fr pg_def split: if_splits)
    from coherentD [OF coh this(1,2) q(3)] this(3)
    show "on_disk (disk_manager b') q" "disk_page (disk_manager b') q = pg_data (frame b' g)"
      by (simp_all add: sel)
  next
    fix q assume "q \<in> W"
    then show "0 < pins b' q"
      using coherent_pinned [OF coh, of q] nonneg [of q] f(3)
      by (cases "cached b q") (auto simp: pins_def sel fr pg_def)
  qed
  ultimately show ?thesis
    using p r(1) fr sel by (intro exI [of _ b']) (simp add: FetchPage_def b'_def pg_def)
qed

lemma pins_nonneg: "bpm_invT T b \<Longrightarrow> 0 \<le> pins b p"
  using bpm_inv_cached [of T b p] by (auto simp: pins_def frame_ok_def split: option.splits)

lemma FetchPage_ok:
  assumes inv: "bpm_inv b" and coh: "coherent W b" and st: "stored b p"
  shows "(FetchPage b p = Inr (None, b) \<and> free_list b = [] \<and> cached b p = None \<and>
      Evict (bp_replacer b) = Inr (None, bp_replacer b)) \<or>
    (\<exists>f b'. FetchPage b p = Inr (Some f, b') \<and> bpm_inv b' \<and> coherent W b' \<and> keeps {p} b b' \<and>
       stored b' p \<and> page_view b' p = page_view b p \<and> pins b' p = pins b p + 1 \<and> cached b' p = Some f \<and>
       next_page_id (disk_manager b') = next_page_id (disk_manager b))"
proof (cases "cached b p")
  case (Some f)
  from FetchPage_cached [OF inv coh this] obtain b' where b':
    "FetchPage b p = Inr (Some f, b')" "bpm_inv b'" "coherent W b'" "cached b' = cached b"
    "pool_size b' = pool_size b" "disk_manager b' = disk_manager b"
    "\<And>g. 0 \<le> g \<Longrightarrow> frame b' g = (if g = f then (frame b f)\<lparr>pin_count := pin_count (frame b f) + 1\<rparr> else frame b g)"
    by blast
  have nonneg: "0 \<le> g" if "cached b q = Some g" for q g
    using bpm_inv_cached [OF inv that] by (simp add: frame_ok_def)
  have view: "page_view b' q = page_view b q" for q
    using nonneg [of q] b'(4,6,7) by (cases "cached b q") (auto simp: page_view_def)
  have pin: "pins b' q = (if q = p then pins b p + 1 else pins b q)" for q
    using nonneg [of q] b'(4,7) Some cached_inj [OF inv Some, of q] by (cases "cached b q") (auto simp: pins_def)
  have "keeps {p} b b'"
    using b'(4,5,6) view pin by (auto simp: keeps_def stored_def)
  then show ?thesis using b' view pin Some st by (auto simp: stored_def)
next
  case None
  from take_frame_ok [OF inv coh] show ?thesis
  proof (elim disjE exE conjE)
    fix f b1
    assume tk: "take_frame b = Inr (Some f, b1)" "bpm_invT {f} b1" "coherent W b1" "keeps {} b b1"
      "next_page_id (disk_manager b1) = next_page_id (disk_manager b)"
      "\<forall>q. cached b q = None \<longrightarrow> cached b1 q = None"
    let ?d = "disk_manager b1"
    define x where "x = disk_page ?d p"
    note dok = bpm_invTD(4) [OF tk(2)]
    have keep: "stored b1 p" "page_view b1 p = page_view b p" "pins b1 p = pins b p"
      using tk(4) st by (auto simp: keeps_def)
    have unc: "cached b1 p = None" using tk(6) None by blast
    have on: "on_disk ?d p" using keep(1) unc by (simp add: stored_def)
    define b2 where "b2 = set_frame (b1\<lparr>disk_manager := ?d\<rparr>) f
      \<lparr>pg_data = x, pg_id = p, pin_count = 1, is_dirty = False\<rparr>"
    define b3 where "b3 = b2\<lparr>page_table := AList.update p f (page_table b2)\<rparr>"
    have rd: "ReadPage ?d p = Inr (x, ?d)" using ReadPage_on_disk [OF dok on] by (simp add: x_def)
    obtain b4 where b4: "pin_frame b3 f = Inr b4" "bpm_inv b4" "installed p f x b1 b4" "disk_manager b4 = ?d"
      using install_frame_ok [OF tk(2) unc dok order_refl refl refl _ _ b2_def b3_def]
        dev.present_range [OF dok on] by blast
    have "FetchPage b p = Inr (Some f, b4)"
      using tk(1) rd b4(1) None by (simp add: FetchPage_def Let_def b2_def b3_def)
    moreover have "coherent W b4"
      using installed_coherent [OF b4(3) tk(2,3), of W] on by (simp add: x_def)
    moreover have "keeps {p} b b4"
      using keeps_trans [OF tk(4) installed_keeps [OF b4(3) tk(2)]] by simp
    moreover have "page_view b4 p = page_view b p" "pins b4 p = pins b p + 1" "stored b4 p"
      using installed_view [OF b4(3) tk(2)] installed_pins [OF b4(3) tk(2)] installed_stored [OF b4(3)]
        keep unc None by (auto simp: x_def page_view_def pins_def)
    ultimately show ?thesis using b4 tk(5) by (auto simp: installed_def)
  qed (use None in \<open>simp add: FetchPage_def\<close>)
qed

text \<open>Updating the frame of a cached page, its pin count staying on the same side of zero or the
  replacer being told.\<close>

lemma set_frame_ok:
  assumes inv: "bpm_inv b" and p: "cached b p = Some f"
    and pg: "pg_id pg = p" "0 \<le> pin_count pg"
    and r: "lruk_inv r" "max_frames r = pool_size b" "tracked r = tracked (bp_replacer b)"
      "evictable r = (if pin_count pg = 0 then insert f (evictable (bp_replacer b))
                      else evictable (bp_replacer b) - {f})"
    and b': "b' = (set_frame b f pg)\<lparr>bp_replacer := r\<rparr>"
  shows "bpm_inv b' \<and> pins b' = (pins b)(p := pin_count pg) \<and> stored b' = stored b \<and>
    page_view b' = (page_view b)(p := pg_data pg) \<and>
    (\<forall>q g. cached b q = Some g \<longrightarrow> frame b' g = (if q = p then pg else frame b g)) \<and> cached b' = cached b"
proof -
  note i = bpm_invTD [OF inv]
  have f: "0 \<le> f" "f < int (pool_size b)" using bpm_inv_cached [OF inv p] by (auto simp: frame_ok_def)
  have nonneg: "0 \<le> g" if "cached b q = Some g" for q g
    using bpm_inv_cached [OF inv that] by (simp add: frame_ok_def)
  have sel: "cached b' = cached b" "pool_size b' = pool_size b" "disk_manager b' = disk_manager b"
    "length (pages b') = pool_size b" "free_list b' = free_list b" "page_table b' = page_table b"
    "bp_replacer b' = r"
    using i(1) by (simp_all add: b')
  have fr: "frame b' g = (if g = f then pg else frame b g)" if "0 \<le> g" for g
    using f that i(1) by (simp add: b' frame_set_frame)
  have fq: "frame b' g = (if q = p then pg else frame b g)" if "cached b q = Some g" for q g
    using fr [OF nonneg [OF that]] that p cached_inj [OF inv p, of q] by auto
  have "frame_ok b' q g" if "cached b q = Some g" for q g
    using bpm_inv_cached [OF inv that] that p pg by (auto simp: frame_ok_def fq [OF that] sel)
  moreover have "evictable r = {g \<in> ran (cached b). pin_count (frame b' g) = 0}"
    unfolding r(4) i(8) using f nonneg p by (auto simp: fr ran_def split: if_splits)
  ultimately have "bpm_inv b'"
    using i(4-7,11,13) r by (simp add: bpm_invT_def sel)
  moreover have "pins b' q = ((pins b)(p := pin_count pg)) q" for q
    using p by (cases "cached b q") (auto simp: pins_def sel fq)
  moreover have "page_view b' q = ((page_view b)(p := pg_data pg)) q" for q
    using p by (cases "cached b q") (auto simp: page_view_def sel fq)
  moreover have "stored b' = stored b" by (simp add: stored_def sel fun_eq_iff)
  ultimately show ?thesis using fq sel(1) by (simp add: fun_eq_iff)
qed

lemma set_frame_coherent:
  assumes coh: "coherent W b" and p: "cached b p = Some f" "cached b' = cached b"
    and fr: "\<forall>q g. cached b q = Some g \<longrightarrow> frame b' g = (if q = p then pg else frame b g)"
    and d: "disk_manager b' = disk_manager b"
    and V: "V - {p} = W - {p}" "p \<in> V \<Longrightarrow> 0 < pin_count pg"
      "p \<notin> V \<Longrightarrow> \<not> is_dirty pg \<Longrightarrow>
         on_disk (disk_manager b) p \<and> disk_page (disk_manager b) p = pg_data pg"
  shows "coherent V b'"
  unfolding coherent_def
proof (intro conjI allI impI ballI)
  fix q g assume q: "cached b' q = Some g" "\<not> is_dirty (frame b' g)" "q \<notin> V"
  have "on_disk (disk_manager b) q \<and> disk_page (disk_manager b) q = pg_data (frame b' g)"
  proof (cases "q = p")
    case True
    then show ?thesis using q V(3) fr p by auto
  next
    case False
    then have "\<not> is_dirty (frame b g)" "frame b' g = frame b g" "cached b q = Some g" "q \<notin> W"
      using q fr p(2) V(1) by auto
    then show ?thesis using coherentD [OF coh, of q g] by simp
  qed
  then show "on_disk (disk_manager b') q" "disk_page (disk_manager b') q = pg_data (frame b' g)"
    by (simp_all add: d)
next
  fix q assume q: "q \<in> V"
  show "0 < pins b' q"
  proof (cases "q = p")
    case True
    then show ?thesis using V(2) q fr p by (auto simp: pins_def)
  next
    case False
    then have "0 < pins b q" using V(1) q coherent_pinned [OF coh, of q] by blast
    then show ?thesis using fr p(2) False by (cases "cached b q") (auto simp: pins_def)
  qed
qed

text \<open>A client writes a page it has pinned.\<close>

lemma page_write_ok:
  assumes inv: "bpm_inv b" and coh: "coherent W b" and p: "cached b p = Some f" "0 < pins b p"
  shows "bpm_inv (page_write b f x) \<and> coherent (insert p W) (page_write b f x) \<and>
    pins (page_write b f x) = pins b \<and> stored (page_write b f x) = stored b \<and>
    page_view (page_write b f x) = (page_view b)(p := x) \<and> cached (page_write b f x) = cached b"
proof -
  note i = bpm_invTD [OF inv]
  define pg where "pg = (frame b f)\<lparr>pg_data := x\<rparr>"
  have fo: "frame_ok b p f" using inv p(1) by (rule bpm_inv_cached)
  have pc: "pin_count pg = pins b p" "0 < pin_count pg" "pg_id pg = p" "pg_data pg = x"
    using p fo by (auto simp: pg_def pins_def frame_ok_def)
  have ev: "evictable (bp_replacer b) = evictable (bp_replacer b) - {f}"
    using p pc(1,2) by (auto simp: i(8) pg_def)
  have b': "page_write b f x = (set_frame b f pg)\<lparr>bp_replacer := bp_replacer b\<rparr>"
    by (simp add: page_write_def pg_def set_frame_def)
  note s = set_frame_ok [OF inv p(1) pc(3) _ i(3,2) refl _ b']
  have s': "bpm_inv (page_write b f x)" "pins (page_write b f x) = (pins b)(p := pin_count pg)"
    "stored (page_write b f x) = stored b" "page_view (page_write b f x) = (page_view b)(p := pg_data pg)"
    "\<forall>q g. cached b q = Some g \<longrightarrow> frame (page_write b f x) g = (if q = p then pg else frame b g)"
    "cached (page_write b f x) = cached b"
    using s ev pc by auto
  have "coherent (insert p W) (page_write b f x)"
    using set_frame_coherent [OF coh p(1) s'(6,5), of "insert p W"] pc by (simp add: b')
  then show ?thesis using s' pc by (simp add: fun_upd_idem)
qed

lemma UnpinPage_inv:
  assumes inv: "bpm_inv b" and p: "0 < pins b p"
  shows "\<exists>b'. UnpinPage b p d = (True, b') \<and> bpm_inv b' \<and>
    (\<forall>q g. cached b q = Some g \<longrightarrow> pg_data (frame b' g) = pg_data (frame b g) \<and>
       (is_dirty (frame b' g) \<longleftrightarrow> is_dirty (frame b g) \<or> q = p \<and> d)) \<and> cached b' = cached b \<and>
    pins b' = (pins b)(p := pins b p - 1) \<and> stored b' = stored b \<and> page_view b' = page_view b \<and>
    disk_manager b' = disk_manager b \<and> pool_size b' = pool_size b"
proof -
  note i = bpm_invTD [OF inv]
  from p obtain f where f: "cached b p = Some f" "0 < pin_count (frame b f)" "pins b p = pin_count (frame b f)"
    by (auto simp: pins_def split: option.splits)
  have fo: "frame_ok b p f" using inv f(1) by (rule bpm_inv_cached)
  define pg where "pg = (frame b f)\<lparr>pin_count := pin_count (frame b f) - 1, is_dirty := (is_dirty (frame b f) \<or> d)\<rparr>"
  define r where "r = (if pin_count pg = 0 then SetEvictable (bp_replacer b) f True else bp_replacer b)"
  define b' where "b' = (set_frame b f pg)\<lparr>bp_replacer := r\<rparr>"
  have pc: "pg_id pg = p" "0 \<le> pin_count pg" "pg_data pg = pg_data (frame b f)"
    using fo f(2) by (auto simp: pg_def frame_ok_def)
  have "f \<in> tracked (bp_replacer b)" using f(1) i(7) by (auto intro: ranI)
  note se = lru.set_evictable [OF i(3) this, of True]
  have ev: "f \<notin> evictable (bp_replacer b)" using f by (simp add: i(8))
  have r: "lruk_inv r" "max_frames r = pool_size b" "tracked r = tracked (bp_replacer b)"
    "evictable r = (if pin_count pg = 0 then insert f (evictable (bp_replacer b)) else evictable (bp_replacer b) - {f})"
    using se ev i(2,3) by (auto simp: r_def)
  have un: "UnpinPage b p d = (True, b')"
    using f by (simp add: UnpinPage_def Let_def b'_def r_def pg_def set_frame_def)
  from set_frame_ok [OF inv f(1) pc(1,2) r b'_def] have s: "bpm_inv b'" "pins b' = (pins b)(p := pin_count pg)"
    "stored b' = stored b" "page_view b' = (page_view b)(p := pg_data pg)"
    "\<forall>q g. cached b q = Some g \<longrightarrow> frame b' g = (if q = p then pg else frame b g)" "cached b' = cached b"
    by auto
  have "page_view b p = pg_data (frame b f)" using f by (simp add: page_view_def)
  then show ?thesis
    using un s f(1,3) by (intro exI [of _ b']) (auto simp: pc b'_def pg_def fun_upd_idem)
qed

lemma UnpinPage_ok:
  assumes inv: "bpm_inv b" and coh: "coherent W b" and p: "0 < pins b p"
    and d: "d \<or> p \<notin> W"
  shows "\<exists>b'. UnpinPage b p d = (True, b') \<and> bpm_inv b' \<and> coherent (W - {p}) b' \<and>
    pins b' = (pins b)(p := pins b p - 1) \<and> stored b' = stored b \<and> page_view b' = page_view b \<and>
    disk_manager b' = disk_manager b \<and> pool_size b' = pool_size b"
proof -
  from UnpinPage_inv [OF inv p, of d] obtain b' where b': "UnpinPage b p d = (True, b')" "bpm_inv b'"
    "\<forall>q g. cached b q = Some g \<longrightarrow> pg_data (frame b' g) = pg_data (frame b g) \<and>
       (is_dirty (frame b' g) \<longleftrightarrow> is_dirty (frame b g) \<or> q = p \<and> d)" "cached b' = cached b"
    "pins b' = (pins b)(p := pins b p - 1)" "stored b' = stored b" "page_view b' = page_view b"
    "disk_manager b' = disk_manager b" "pool_size b' = pool_size b"
    by blast
  have "coherent (W - {p}) b'" unfolding coherent_def
  proof (intro conjI allI impI ballI)
    fix q g assume "cached b' q = Some g" "\<not> is_dirty (frame b' g)" "q \<notin> W - {p}"
    then have q: "cached b q = Some g" "\<not> is_dirty (frame b g)" "q \<notin> W" "pg_data (frame b' g) = pg_data (frame b g)"
      using b'(3,4) d by auto
    from coherentD [OF coh q(1,2,3)] q(4) b'(8)
    show "on_disk (disk_manager b') q" "disk_page (disk_manager b') q = pg_data (frame b' g)" by simp_all
  qed (use coherent_pinned [OF coh] b'(5) in auto)
  then show ?thesis using b' by blast
qed

lemma UnpinPage_unpinned: "bpm_inv b \<Longrightarrow> pins b p = 0 \<Longrightarrow> UnpinPage b p d = (False, b)"
  by (auto simp: UnpinPage_def pins_def split: option.splits)

lemma DeletePage_pinned: "pins b p \<noteq> 0 \<Longrightarrow> DeletePage b p = Inr (False, b)"
  by (auto simp: DeletePage_def pins_def split: option.splits)

lemma DeletePage_uncached: "cached b p = None \<Longrightarrow> DeletePage b p = Inr (True, b)"
  by (simp add: DeletePage_def)

lemma DeletePage_cached:
  assumes inv: "bpm_inv b" and coh: "coherent W b" and p: "cached b p = Some f" "pins b p = 0"
  shows "\<exists>b'. DeletePage b p = Inr (True, b') \<and> bpm_inv b' \<and> coherent W b' \<and> keeps {p} b b' \<and>
    cached b' p = None \<and> pins b' p = 0 \<and> disk_manager b' = disk_manager b"
proof -
  note i = bpm_invTD [OF inv]
  have fo: "frame_ok b p f" using inv p(1) by (rule bpm_inv_cached)
  then have f: "0 \<le> f" "f < int (pool_size b)" by (auto simp: frame_ok_def)
  have fran: "f \<in> ran (cached b)" using p(1) by (rule ranI)
  have pc: "pin_count (frame b f) = 0" using p by (simp add: pins_def)
  then have "f \<in> evictable (bp_replacer b)" using fran by (simp add: i(8))
  from lru.remove [OF i(3) this] i(2) obtain r where r: "Replacer_Remove (bp_replacer b) f = Inr r" "lruk_inv r"
    "max_frames r = pool_size b" "tracked r = tracked (bp_replacer b) - {f}"
    "evictable r = evictable (bp_replacer b) - {f}" by auto
  define b1 where "b1 = b\<lparr>page_table := AList.delete p (page_table b), bp_replacer := r, free_list := free_list b @ [f]\<rparr>"
  define b' where "b' = set_frame b1 f \<lparr>pg_data = 0, pg_id = INVALID_PAGE_ID, pin_count = 0, is_dirty = False\<rparr>"
  have del: "DeletePage b p = Inr (True, b')"
    using p pc r(1) by (simp add: DeletePage_def Let_def DeallocatePage_def b'_def b1_def)
  have sel: "cached b' = (cached b)(p := None)" "pool_size b' = pool_size b" "disk_manager b' = disk_manager b"
    "length (pages b') = pool_size b" "free_list b' = free_list b @ [f]" "bp_replacer b' = r"
    "distinct (keys (page_table b'))"
    using i(1,5) by (simp_all add: b'_def b1_def)
  have fr: "frame b' g = frame b g" if "cached b q = Some g" "q \<noteq> p" for q g
  proof -
    have "g \<noteq> f" using cached_inj [OF inv p(1), of q] that by auto
    moreover have "0 \<le> g" using bpm_inv_cached [OF inv that(1)] by (simp add: frame_ok_def)
    ultimately show ?thesis using f i(1) by (simp add: b'_def b1_def frame_set_frame)
  qed
  have ran': "ran (cached b') = ran (cached b) - {f}"
    unfolding sel(1) by (rule ran_delete_inj [where m = "cached b", OF p(1)]) (rule cached_inj [OF inv _ p(1)])
  have frr: "frame b' g = frame b g" if g: "g \<in> ran (cached b) - {f}" for g
  proof -
    obtain q where q: "cached b q = Some g" using g by (auto simp: ran_def)
    then have "q \<noteq> p" using g p(1) by auto
    with q show ?thesis by (rule fr)
  qed
  have "frame_ok b' q g" if "cached b' q = Some g" for q g
  proof -
    from that have q: "cached b q = Some g" "q \<noteq> p" by (auto simp: sel split: if_splits)
    from bpm_inv_cached [OF inv q(1)] show ?thesis by (simp add: frame_ok_def sel fr [OF q])
  qed
  moreover have "evictable r = {g \<in> ran (cached b'). pin_count (frame b' g) = 0}"
    unfolding r(5) i(8) ran' using frr by auto
  moreover have "set (free_list b') \<inter> ran (cached b') = {}"
      "set (free_list b') \<union> ran (cached b') = {0..<int (pool_size b)}" "distinct (free_list b')"
    using i(6,11,13) fran by (auto simp: sel(5) ran')
  ultimately have "bpm_inv b'"
    using i(4,7) r ran' sel(2,3,4,6,7) by (simp add: bpm_invT_def)
  moreover have "coherent W b'"
    unfolding coherent_def
  proof (intro conjI allI impI ballI)
    fix q g assume q: "cached b' q = Some g" "\<not> is_dirty (frame b' g)" "q \<notin> W"
    then have "cached b q = Some g" "q \<noteq> p" by (auto simp: sel split: if_splits)
    with coherentD [OF coh this(1) _ q(3)] q(2) fr [OF this]
    show "on_disk (disk_manager b') q" "disk_page (disk_manager b') q = pg_data (frame b' g)"
      by (simp_all add: sel)
  next
    fix q assume q: "q \<in> W"
    then have "q \<noteq> p" "0 < pins b q" using coherent_pinned [OF coh] p(2) by force+
    then show "0 < pins b' q" using fr [of q] by (cases "cached b q") (auto simp: pins_def sel)
  qed
  moreover have "keeps {p} b b'"
  proof (rule keepsI)
    fix q assume "q \<notin> {p}" "stored b q"
    then show "stored b' q \<and> page_view b' q = page_view b q"
      using fr [of q] by (cases "cached b q") (auto simp: stored_def page_view_def sel)
  next
    fix q assume "q \<notin> {p}"
    then show "pins b' q = pins b q"
      using fr [of q] by (cases "cached b q") (auto simp: pins_def sel)
    show "cached b' q = cached b q" using \<open>q \<notin> {p}\<close> by (simp add: sel)
  qed (simp add: sel)
  ultimately show ?thesis using del by (auto simp: sel pins_def)
qed

text \<open>Flushing a page changes neither what clients see nor what is pinned.\<close>

definition flushed :: "page_id \<Rightarrow> 'd::zero bpm \<Rightarrow> 'd bpm \<Rightarrow> bool" where
  "flushed p b b' \<longleftrightarrow> cached b' = cached b \<and> page_table b' = page_table b \<and> pins b' = pins b \<and>
     page_view b' = page_view b \<and> pool_size b' = pool_size b \<and> on_disk (disk_manager b') p \<and>
     disk_page (disk_manager b') = (disk_page (disk_manager b))(p := page_view b p) \<and>
     (\<forall>q. stored b q \<longrightarrow> stored b' q) \<and> (\<forall>q. on_disk (disk_manager b) q \<longrightarrow> on_disk (disk_manager b') q)"

lemma flush_frame_ok:
  assumes inv: "bpm_inv b" and coh: "coherent W b" and p: "cached b p = Some f"
  shows "\<exists>b'. flush_frame b p f = Inr b' \<and> bpm_inv b' \<and> coherent W b' \<and> flushed p b b'"
proof -
  note i = bpm_invTD [OF inv]
  let ?x = "pg_data (frame b f)" let ?d = "disk_manager b"
  have fo: "frame_ok b p f" using inv p by (rule bpm_inv_cached)
  then obtain d' where wr: "WritePage ?d p ?x = Inr d'" and w: "disk_ok d'" "next_page_id d' = next_page_id ?d" "on_disk d' p"
      "disk_page d' = (disk_page ?d)(p := ?x)" "\<forall>q. on_disk ?d q \<longrightarrow> on_disk d' q"
    using dev.write' [OF i(4), of p ?x] by (auto simp: frame_ok_def)
  define c where "c = b\<lparr>disk_manager := d'\<rparr>"
  have c: "bpm_inv c" "cached c = cached b" "frame c = frame b" "bp_replacer c = bp_replacer b"
    "pins c = pins b" "pool_size c = pool_size b"
    using inv w(1,2) by (auto simp: c_def bpm_invT_def frame_ok_def)
  have cview: "page_view c = page_view b" "\<And>q. stored b q \<Longrightarrow> stored c q"
    using w p by (auto simp: page_view_def stored_def c_def fun_eq_iff split: option.splits)
  have ccoh: "coherent W c"
    unfolding coherent_def
  proof (intro conjI allI impI ballI)
    fix q g assume q: "cached c q = Some g" "\<not> is_dirty (frame c g)" "q \<notin> W"
    then show "on_disk (disk_manager c) q" "disk_page (disk_manager c) q = pg_data (frame c g)"
      using coherentD [OF coh, of q g] p w by (auto simp: c_def)
  next
    fix q assume "q \<in> W"
    then show "0 < pins c q" using coherent_pinned [OF coh] by (simp add: c)
  qed
  define pg where "pg = (frame b f)\<lparr>is_dirty := False\<rparr>"
  define b' where "b' = (set_frame c f pg)\<lparr>bp_replacer := bp_replacer c\<rparr>"
  have fr: "flush_frame b p f = Inr b'"
    using wr by (simp add: flush_frame_def c_def pg_def set_frame_def b'_def)
  have ev: "evictable (bp_replacer c) = (if pin_count pg = 0 then insert f (evictable (bp_replacer c))
                      else evictable (bp_replacer c) - {f})"
    using p by (auto simp: c i(8) pg_def ran_def)
  have pg: "pg_id pg = p" "0 \<le> pin_count pg" "pg_data pg = page_view b p" "pin_count pg = pins b p"
    using fo p by (auto simp: pg_def frame_ok_def page_view_def pins_def)
  note cp = p [folded c(2)]
  from set_frame_ok [OF c(1) cp pg(1,2) bpm_invTD(3,2) [OF c(1)] refl ev b'_def]
  have s: "bpm_inv b'" "pins b' = pins b" "stored b' = stored c"
      "page_view b' = page_view b"
      "\<forall>q g. cached c q = Some g \<longrightarrow> frame b' g = (if q = p then pg else frame c g)"
      "cached b' = cached c"
    by (auto simp: c cview pg fun_upd_idem)
  have dc: "disk_manager b' = disk_manager c" by (simp add: b'_def)
  have "coherent W b'"
    using set_frame_coherent [OF ccoh cp s(6,5) dc, of W] coherent_pinned [OF coh, of p] w(3,4) pg p
    by (auto simp: c_def page_view_def)
  moreover have "flushed p b b'"
    using s w cview p by (simp add: flushed_def c dc) (simp add: c_def page_view_def b'_def)
  ultimately show ?thesis using s(1) fr by blast
qed

lemma flush_fold_ok:
  assumes "bpm_inv b" "coherent W b" "\<forall>(p, f) \<in> set xs. cached b p = Some f"
  shows "\<exists>b'. flush_frames xs b = Inr b' \<and> bpm_inv b' \<and> coherent W b' \<and>
    cached b' = cached b \<and> pins b' = pins b \<and> page_view b' = page_view b \<and> pool_size b' = pool_size b \<and>
    (\<forall>q. stored b q \<longrightarrow> stored b' q) \<and>
    (\<forall>p. p \<in> fst ` set xs \<or> on_disk (disk_manager b) p \<and> disk_page (disk_manager b) p = page_view b p \<longrightarrow>
       on_disk (disk_manager b') p \<and> disk_page (disk_manager b') p = page_view b p)"
  using assms
proof (induction xs arbitrary: b)
  case Nil
  then show ?case by simp
next
  case (Cons x xs)
  obtain p f where x: "x = (p, f)" by (cases x)
  then have p: "cached b p = Some f" using Cons.prems(3) by simp
  from flush_frame_ok [OF Cons.prems(1,2) p] obtain b1
    where b1: "flush_frame b p f = Inr b1" and f: "bpm_inv b1" "coherent W b1" "flushed p b b1" by blast
  have "\<forall>(q, g) \<in> set xs. cached b1 q = Some g"
    using Cons.prems(3) f(3) by (auto simp: flushed_def)
  from Cons.IH [OF f(1,2) this] f(3) b1 show ?case
    unfolding x flushed_def by (auto simp: image_iff)
qed

lemma FlushAllPages_ok:
  assumes inv: "bpm_inv b" and coh: "coherent W b"
  shows "\<exists>b'. FlushAllPages b = Inr b' \<and> bpm_inv b' \<and> coherent W b' \<and> cached b' = cached b \<and>
    pins b' = pins b \<and> page_view b' = page_view b \<and> (\<forall>q. stored b q \<longrightarrow> stored b' q) \<and>
    (\<forall>p. stored b p \<longrightarrow> on_disk (disk_manager b') p \<and> disk_page (disk_manager b') p = page_view b p)"
proof -
  have pt: "(p, f) \<in> set (page_table b) \<longleftrightarrow> cached b p = Some f" for p f
    using set_umap_iff [OF bpm_invTD(5) [OF inv]] by simp
  then have "\<forall>(p, f) \<in> set (page_table b). cached b p = Some f" by blast
  from flush_fold_ok [OF inv coh this]
  obtain b' where b': "FlushAllPages b = Inr b'" "bpm_inv b'" "coherent W b'" "cached b' = cached b"
    "pins b' = pins b" "page_view b' = page_view b" "\<forall>q. stored b q \<longrightarrow> stored b' q"
    and dk: "\<And>p. p \<in> fst ` set (page_table b) \<or> on_disk (disk_manager b) p \<and>
        disk_page (disk_manager b) p = page_view b p \<Longrightarrow>
      on_disk (disk_manager b') p \<and> disk_page (disk_manager b') p = page_view b p"
    unfolding FlushAllPages_def by blast
  have "p \<in> fst ` set (page_table b) \<or> on_disk (disk_manager b) p \<and> disk_page (disk_manager b) p = page_view b p"
    if "stored b p" for p
  proof (cases "cached b p")
    case (Some f)
    then have "(p, f) \<in> set (page_table b)" by (simp add: pt)
    then show ?thesis by force
  next
    case None
    then show ?thesis using that by (simp add: stored_def page_view_def)
  qed
  then show ?thesis using b' dk by blast
qed

section \<open>When the pool is full\<close>

lemma full_pinned:
  assumes inv: "bpm_inv b" and full: "free_list b = []" "Evict (bp_replacer b) = Inr (None, bp_replacer b)"
    and ts: "current_timestamp (bp_replacer b) \<le> SIZE_MAX" and f: "0 \<le> f" "f < int (pool_size b)"
  shows "\<exists>p. cached b p = Some f \<and> 0 < pins b p"
proof -
  note i = bpm_invTD [OF inv]
  have "evictable (bp_replacer b) = {}" using lru.evict_alive [OF i(3) ts full(2)] .
  moreover have "f \<in> ran (cached b)" using i(13) full(1) f by auto
  ultimately obtain p where "cached b p = Some f" "pin_count (frame b f) \<noteq> 0"
    by (auto simp: i(8) ran_def)
  moreover have "0 \<le> pin_count (frame b f)"
    using bpm_inv_cached [OF inv calculation(1)] by (simp add: frame_ok_def)
  ultimately show ?thesis by (auto simp: pins_def)
qed

lemma all_pinned_full:
  assumes inv: "bpm_inv b" and all: "\<forall>f. 0 \<le> f \<longrightarrow> f < int (pool_size b) \<longrightarrow> (\<exists>p. cached b p = Some f \<and> 0 < pins b p)"
  shows "take_frame b = Inr (None, b)"
proof -
  note i = bpm_invTD [OF inv]
  have pinned: "f \<in> ran (cached b) \<and> pin_count (frame b f) \<noteq> 0" if f: "0 \<le> f" "f < int (pool_size b)" for f
  proof -
    from all f obtain p where "cached b p = Some f" "0 < pins b p" by blast
    then show ?thesis by (auto simp: pins_def intro: ranI)
  qed
  then have "{0..<int (pool_size b)} \<subseteq> ran (cached b)" by auto
  then have "free_list b = []" using i(10,11) by (cases "free_list b") auto
  moreover have "ran (cached b) \<subseteq> {0..<int (pool_size b)}" using i(13) by blast
  then have "evictable (bp_replacer b) = {}"
    using pinned by (fastforce simp: i(8))
  then have "Evict (bp_replacer b) = Inr (None, bp_replacer b)"
    by (rule lru.nothing_evictable [OF i(3)])
  ultimately show ?thesis by (simp add: take_frame_def)
qed

section \<open>The pool under its clients\<close>

text \<open>
  \<open>pool_run n k d m W b\<close>: the pool \<open>b\<close> of \<open>n\<close> frames over the disk \<open>d\<close> is reachable by calls of its
  clients, who have written \<open>m\<close> (the abstract map of pages) and have modified the pages \<open>W\<close> and not
  yet unpinned them dirty. The clients write only to pages they have pinned, unpin them as dirty, and
  fetch only pages that exist.
\<close>

inductive pool_run :: "nat \<Rightarrow> nat \<Rightarrow> 'd::zero disk \<Rightarrow> (page_id \<rightharpoonup> 'd) \<Rightarrow> page_id set \<Rightarrow> 'd bpm \<Rightarrow> bool"
  for n k d where
  start: "pool_run n k d (\<lambda>p. if on_disk d p then Some (disk_page d p) else None) {} (BufferPoolManager n d k)"
| new: "pool_run n k d m W b \<Longrightarrow> NewPage b = Inr (Some (p, f), b') \<Longrightarrow>
    pool_run n k d (m(p \<mapsto> 0)) (insert p W) b'"
| new_full: "pool_run n k d m W b \<Longrightarrow> NewPage b = Inr (None, b') \<Longrightarrow> pool_run n k d m W b'"
| fetch: "pool_run n k d m W b \<Longrightarrow> p \<in> dom m \<Longrightarrow> FetchPage b p = Inr (r, b') \<Longrightarrow> pool_run n k d m W b'"
| modify: "pool_run n k d m W b \<Longrightarrow> cached b p = Some f \<Longrightarrow> 0 < pins b p \<Longrightarrow>
    pool_run n k d (m(p \<mapsto> x)) (insert p W) (page_write b f x)"
| unpin: "pool_run n k d m W b \<Longrightarrow> dirty \<or> p \<notin> W \<Longrightarrow> UnpinPage b p dirty = (r, b') \<Longrightarrow>
    pool_run n k d m (W - {p}) b'"
| delete: "pool_run n k d m W b \<Longrightarrow> DeletePage b p = Inr (r, b') \<Longrightarrow>
    pool_run n k d (if r then m(p := None) else m) W b'"
| flush: "pool_run n k d m W b \<Longrightarrow> FlushPage b p = Inr (r, b') \<Longrightarrow> pool_run n k d m W b'"
| flush_all: "pool_run n k d m W b \<Longrightarrow> FlushAllPages b = Inr b' \<Longrightarrow> pool_run n k d m W b'"

definition agrees :: "(page_id \<rightharpoonup> 'd) \<Rightarrow> 'd::zero bpm \<Rightarrow> bool" where
  "agrees m b \<longleftrightarrow> (\<forall>p x. m p = Some x \<longrightarrow> stored b p \<and> page_view b p = x)"

lemma agrees_keeps:
  assumes "agrees m b" "keeps {p} b b'"
    and "\<forall>x. m' p = Some x \<longrightarrow> stored b' p \<and> page_view b' p = x" and "\<And>q. q \<noteq> p \<Longrightarrow> m' q = m q"
  shows "agrees m' b'"
  unfolding agrees_def
proof (intro allI impI)
  fix q x assume "m' q = Some x"
  then show "stored b' q \<and> page_view b' q = x"
    using assms by (cases "q = p") (auto simp: agrees_def keeps_def)
qed

lemma agrees_same:
  "agrees m b \<Longrightarrow> (\<And>q. stored b q \<Longrightarrow> stored b' q) \<Longrightarrow> page_view b' = page_view b \<Longrightarrow> agrees m b'"
  by (simp add: agrees_def)

lemma pool_run_ok:
  assumes "pool_run n k d m W b" and d: "disk_ok d" "0 < k"
  shows "bpm_inv b \<and> coherent W b \<and> agrees m b"
  using assms(1)
proof induction
  case start
  have "agrees (\<lambda>p. if on_disk d p then Some (disk_page d p) else None) (BufferPoolManager n d k)"
    "coherent {} (BufferPoolManager n d k)"
    by (auto simp: agrees_def coherent_def stored_def page_view_def BufferPoolManager_def cached_def
        simp del: map_of_page_table split: if_splits)
  then show ?case using bpm_inv_init [OF d] by blast
next
  case (new m W b p f b')
  then have "bpm_inv b" "coherent W b" "agrees m b" by auto
  from NewPage_ok [OF this(1,2)] new.hyps(2) this(3)
  have n: "bpm_inv b'" "coherent (insert p W) b'" "keeps {p} b b'" "stored b' p" "page_view b' p = 0" by auto
  have "agrees (m(p \<mapsto> 0)) b'"
    by (rule agrees_keeps [OF \<open>agrees m b\<close> n(3)]) (use n in auto)
  then show ?case using n by blast
next
  case (new_full m W b b')
  then have "bpm_inv b" "coherent W b" "agrees m b" by auto
  with NewPage_ok [OF this(1,2)] new_full.hyps(2) show ?case by auto
next
  case (fetch m W b p r b')
  then have ih: "bpm_inv b" "coherent W b" "agrees m b" by auto
  have st: "stored b p" using fetch.hyps(2) ih(3) by (auto simp: agrees_def)
  from FetchPage_ok [OF ih(1,2) st] show ?case
  proof (elim disjE exE conjE)
    fix f b1
    assume "FetchPage b p = Inr (Some f, b1)" "bpm_inv b1" "coherent W b1" "keeps {p} b b1" "stored b1 p"
      "page_view b1 p = page_view b p"
    with fetch.hyps(3) ih(3) show ?case
      using agrees_keeps [OF ih(3), of p b1 m] by (auto simp: agrees_def)
  qed (use fetch.hyps(3) ih in auto)
next
  case (modify m W b p f x)
  then have "bpm_inv b" "coherent W b" "agrees m b" by auto
  with page_write_ok [OF this(1,2) modify.hyps(2,3), of x] modify.hyps(2) show ?case
    by (auto simp: agrees_def stored_def)
next
  case (unpin m W b dirty p r b')
  then have ih: "bpm_inv b" "coherent W b" "agrees m b" by auto
  show ?case
  proof (cases "0 < pins b p")
    case True
    from UnpinPage_ok [OF ih(1,2) True unpin.hyps(2)] unpin.hyps(3) ih(3) show ?thesis
      by (auto simp: agrees_def)
  next
    case False
    then have z: "pins b p = 0" using pins_nonneg [OF ih(1), of p] by simp
    then have "b' = b" using UnpinPage_unpinned [OF ih(1) z, of dirty] unpin.hyps(3) by simp
    moreover have "p \<notin> W" using coherent_pinned [OF ih(2)] z by force
    ultimately show ?thesis using ih by simp
  qed
next
  case (delete m W b p r b')
  then have ih: "bpm_inv b" "coherent W b" "agrees m b" by auto
  show ?case
  proof (cases "pins b p = 0")
    case False
    then show ?thesis using DeletePage_pinned [OF False] delete.hyps(2) ih by simp
  next
    case z: True
    show ?thesis
    proof (cases "cached b p")
      case None
      then show ?thesis using DeletePage_uncached [OF None] delete.hyps(2) ih by (auto simp: agrees_def)
    next
      case (Some f)
      from DeletePage_cached [OF ih(1,2) Some z] delete.hyps(2)
      have r: "r" "bpm_inv b'" "coherent W b'" "keeps {p} b b'" by auto
      have "agrees (m(p := None)) b'"
        by (rule agrees_keeps [OF ih(3) r(4)]) auto
      then show ?thesis using r by presburger
    qed
  qed
next
  case (flush m W b p r b')
  then have ih: "bpm_inv b" "coherent W b" "agrees m b" by auto
  show ?case
  proof (cases "cached b p")
    case None
    then show ?thesis using flush.hyps(2) ih by (simp add: FlushPage_def)
  next
    case (Some f)
    then have b': "flush_frame b p f = Inr b'" using flush.hyps(2) by (simp add: FlushPage_def)
    from flush_frame_ok [OF ih(1,2) Some] have "bpm_inv b' \<and> coherent W b' \<and> flushed p b b'" unfolding b' by simp
    then show ?thesis using agrees_same [OF ih(3), of b'] unfolding flushed_def by blast
  qed
next
  case (flush_all m W b b')
  then have ih: "bpm_inv b" "coherent W b" "agrees m b" by auto
  from FlushAllPages_ok [OF ih(1,2)] flush_all.hyps(2) have "bpm_inv b' \<and> coherent W b' \<and>
    page_view b' = page_view b \<and> (\<forall>q. stored b q \<longrightarrow> stored b' q)" by simp
  then show ?case using agrees_same [OF ih(3), of b'] by blast
qed

lemmas pool_runD = pool_run_ok [THEN conjunct1] pool_run_ok [THEN conjunct2, THEN conjunct1]
  pool_run_ok [THEN conjunct2, THEN conjunct2]

section \<open>Arbitrary calls\<close>

text \<open>
  The calls of a client, with any arguments; \<open>WriteBytes\<close> is a write through a \<^verbatim>\<open>Page *\<close>, pinned or not. The first
  exception ends a sequence of calls.
\<close>

datatype 'd pool_call =
    NewCall | FetchCall page_id | UnpinCall page_id bool | DeleteCall page_id | FlushCall page_id | FlushAllCall
  | WriteBytes frame_id 'd

fun pool_exec :: "'d::zero pool_call \<Rightarrow> 'd bpm \<Rightarrow> 'd bpm res" where
  "pool_exec NewCall b = rbind (NewPage b) (\<lambda>(_, b'). Inr b')"
| "pool_exec (FetchCall p) b = rbind (FetchPage b p) (\<lambda>(_, b'). Inr b')"
| "pool_exec (UnpinCall p dirty) b = Inr (snd (UnpinPage b p dirty))"
| "pool_exec (DeleteCall p) b = rbind (DeletePage b p) (\<lambda>(_, b'). Inr b')"
| "pool_exec (FlushCall p) b = rbind (FlushPage b p) (\<lambda>(_, b'). Inr b')"
| "pool_exec FlushAllCall b = FlushAllPages b"
| "pool_exec (WriteBytes f x) b = Inr (page_write b f x)"

primrec pool_execs :: "'d::zero pool_call list \<Rightarrow> 'd bpm \<Rightarrow> 'd bpm res" where
  "pool_execs [] b = Inr b"
| "pool_execs (c # cs) b = rbind (pool_exec c b) (pool_execs cs)"

text \<open>
  What all calls keep, the ones that confuse the page table included: the frames are in range, and a frame that the
  replacer tracks without a pin is evictable. \<open>safe\<close> is what a call may do.
\<close>

definition frame_shape :: "'d bpm \<Rightarrow> frame_id \<Rightarrow> bool" where
  "frame_shape b f \<longleftrightarrow> 0 \<le> pin_count (frame b f) \<and>
     (f \<in> tracked (bp_replacer b) \<longrightarrow> pin_count (frame b f) = 0 \<longrightarrow> f \<in> evictable (bp_replacer b))"

definition pool_shape :: "'d bpm \<Rightarrow> bool" where
  "pool_shape b \<longleftrightarrow> length (pages b) = pool_size b \<and> max_frames (bp_replacer b) = pool_size b \<and>
     lruk_inv (bp_replacer b) \<and> set (free_list b) \<union> snd ` set (page_table b) \<subseteq> {0..<int (pool_size b)} \<and>
     (\<forall>f \<in> {0..<int (pool_size b)}. frame_shape b f)"

definition safe :: "'d bpm \<Rightarrow> 'd bpm res \<Rightarrow> bool" where
  "safe b r \<longleftrightarrow> (case r of
       Inl e \<Rightarrow> (e = seek_error \<or> e = write_error) \<and> \<not> device_works (disk_manager b)
     | Inr b' \<Rightarrow> pool_shape b' \<and> (device_works (disk_manager b') \<longleftrightarrow> device_works (disk_manager b)))"

lemma pool_shapeD:
  assumes "pool_shape b"
  shows "length (pages b) = pool_size b" "max_frames (bp_replacer b) = pool_size b" "lruk_inv (bp_replacer b)"
    "f \<in> set (free_list b) \<Longrightarrow> f \<in> {0..<int (pool_size b)}" "cached b p = Some f \<Longrightarrow> f \<in> {0..<int (pool_size b)}"
    "f \<in> {0..<int (pool_size b)} \<Longrightarrow> frame_shape b f"
  using assms map_of_SomeD [of "page_table b" p f] unfolding pool_shape_def map_of_page_table by force+

lemma pool_shapeI:
  assumes "length (pages b) = pool_size b" "max_frames (bp_replacer b) = pool_size b" "lruk_inv (bp_replacer b)"
    "\<And>f. f \<in> set (free_list b) \<Longrightarrow> f \<in> {0..<int (pool_size b)}"
    "snd ` set (page_table b) \<subseteq> {0..<int (pool_size b)}"
    "\<And>f. f \<in> {0..<int (pool_size b)} \<Longrightarrow> frame_shape b f"
  shows "pool_shape b"
  using assms unfolding pool_shape_def by blast

lemma pool_shape_disk [simp]: "pool_shape (b\<lparr>disk_manager := d\<rparr>) = pool_shape b"
  by (simp add: pool_shape_def frame_shape_def)

lemma pool_shape_init:
  assumes "0 < k"
  shows "pool_shape (BufferPoolManager n d k)"
proof -
  have "tracked (LRUKReplacer n k) = {}"
    by (simp add: tracked_def entry_of_def LRUKReplacer_def del: map_of_entries)
  then show ?thesis using lruk_inv_init [OF assms, of n]
    by (intro pool_shapeI)
       (auto simp: BufferPoolManager_def frame_shape_def frame_def LRUKReplacer_def Page_def cached_def nat_less_iff
          simp del: map_of_page_table)
qed

text \<open>One frame gets new contents, its replacer entry following.\<close>

lemma pool_shape_set_frame:
  assumes b: "pool_shape b" and f: "f \<in> {0..<int (pool_size b)}" and pg: "0 \<le> pin_count pg"
    and r: "lruk_inv r" "max_frames r = pool_size b" "tracked r - {f} \<subseteq> tracked (bp_replacer b)"
      "evictable (bp_replacer b) - {f} \<subseteq> evictable r"
      "f \<in> tracked r \<Longrightarrow> pin_count pg = 0 \<Longrightarrow> f \<in> evictable r"
    and m: "snd ` set m \<subseteq> {0..<int (pool_size b)}" and fs: "set fs \<subseteq> {0..<int (pool_size b)}"
  shows "pool_shape ((set_frame b f pg)\<lparr>bp_replacer := r, page_table := m, free_list := fs\<rparr>)" (is "pool_shape ?b")
proof (rule pool_shapeI)
  note i = pool_shapeD [OF b]
  fix g assume g: "g \<in> {0..<int (pool_size ?b)}"
  have "frame ?b g = (if g = f then pg else frame b g)"
    using f g i(1) by (simp add: frame_set_frame)
  moreover have "frame_shape b g" using i(6) g by simp
  ultimately show "frame_shape ?b g" using pg r by (auto simp: frame_shape_def)
qed (use pool_shapeD(1) [OF b] r m fs in auto)

lemma shape_pin:
  assumes b: "pool_shape b" and f: "f \<in> {0..<int (pool_size b)}" and pg: "0 < pin_count pg"
    and m: "snd ` set m \<subseteq> {0..<int (pool_size b)}"
  shows "\<exists>b'. pin_frame ((set_frame (b\<lparr>disk_manager := d\<rparr>) f pg)\<lparr>page_table := m\<rparr>) f = Inr b' \<and>
    pool_shape b' \<and> disk_manager b' = d"
proof -
  note i = pool_shapeD [OF b]
  let ?b1 = "(set_frame (b\<lparr>disk_manager := d\<rparr>) f pg)\<lparr>page_table := m\<rparr>"
  obtain r where r: "pin_frame ?b1 f = Inr (?b1\<lparr>bp_replacer := r\<rparr>)" "lruk_inv r" "max_frames r = pool_size b"
      "tracked r = insert f (tracked (bp_replacer b))" "evictable r = evictable (bp_replacer b) - {f}"
    using pin_frame_ok [of ?b1 f] f i(2,3) by auto
  have fs: "set (free_list b) \<subseteq> {0..<int (pool_size b)}" using i(4) by blast
  have eq: "(set_frame (b\<lparr>disk_manager := d\<rparr>) f pg)\<lparr>bp_replacer := r, page_table := m, free_list := free_list b\<rparr> = ?b1\<lparr>bp_replacer := r\<rparr>"
    by (simp add: set_frame_def)
  have "pool_shape ((set_frame (b\<lparr>disk_manager := d\<rparr>) f pg)\<lparr>bp_replacer := r, page_table := m, free_list := free_list b\<rparr>)"
    by (rule pool_shape_set_frame) (use b f pg r m fs in auto)
  then show ?thesis using r(1) unfolding eq by (intro exI [of _ "?b1\<lparr>bp_replacer := r\<rparr>"]) simp
qed

lemma umap_update_subset: "snd ` set m \<subseteq> A \<Longrightarrow> f \<in> A \<Longrightarrow> snd ` set (AList.update p f m) \<subseteq> A"
  by (induction m) auto

lemma umap_delete_subset: "snd ` set m \<subseteq> A \<Longrightarrow> snd ` set (AList.delete p m) \<subseteq> A"
  by (auto simp: AList.delete_eq)

lemma pool_shape_table: "pool_shape b \<Longrightarrow> snd ` set (page_table b) \<subseteq> {0..<int (pool_size b)}"
  by (simp add: pool_shape_def)

lemma shape_take:
  assumes b: "pool_shape b"
  shows "case take_frame b of
      Inl e \<Rightarrow> e = write_error \<and> \<not> device_works (disk_manager b)
    | Inr (fo, b') \<Rightarrow> pool_shape b' \<and> pool_size b' = pool_size b \<and>
        (device_works (disk_manager b') \<longleftrightarrow> device_works (disk_manager b)) \<and>
        (\<forall>f. fo = Some f \<longrightarrow> f \<in> {0..<int (pool_size b)})"
proof (cases "free_list b")
  case (Cons f fs)
  note i = pool_shapeD [OF b]
  have "pool_shape (b\<lparr>free_list := fs\<rparr>)"
    using i Cons pool_shape_table [OF b] by (intro pool_shapeI) (auto simp: frame_shape_def)
  then show ?thesis using Cons i(4) [of f] by (simp add: take_frame_def)
next
  case Nil
  note i = pool_shapeD [OF b]
  from lru.evict [OF i(3)] show ?thesis
  proof (elim disjE exE conjE)
    assume "Evict (bp_replacer b) = Inr (None, bp_replacer b)"
    then show ?thesis using Nil b by (simp add: take_frame_def)
  next
    fix f r assume ev: "Evict (bp_replacer b) = Inr (Some f, r)" "f \<in> evictable (bp_replacer b)" "lruk_inv r"
      "max_frames r = max_frames (bp_replacer b)" "tracked r = tracked (bp_replacer b) - {f}"
      "evictable r = evictable (bp_replacer b) - {f}"
    have f: "f \<in> {0..<int (pool_size b)}" using ev(2) evictable_tracked tracked_range [OF i(3)] i(2) by fastforce
    define m where "m = AList.delete (pg_id (frame b f)) (page_table b)"
    have "pool_shape ((set_frame b f (frame b f))\<lparr>bp_replacer := r, page_table := m, free_list := free_list b\<rparr>)"
      by (rule pool_shape_set_frame [OF b f])
         (use i(4,6) f ev(3-6) i(2) umap_delete_subset [OF pool_shape_table [OF b]] in \<open>auto simp: frame_shape_def m_def\<close>)
    moreover have "set_frame b f (frame b f) = b" by (simp add: set_frame_def frame_def)
    ultimately have sh: "pool_shape (b\<lparr>bp_replacer := r, page_table := m\<rparr>)" by simp
    show ?thesis
    proof (cases "is_dirty (frame b f)")
      case False
      then show ?thesis using Nil ev(1) sh f by (simp add: take_frame_def Let_def m_def)
    next
      case True
      let ?w = "WritePage (disk_manager b) (pg_id (frame b f)) (pg_data (frame b f))"
      have up: "b\<lparr>bp_replacer := r, disk_manager := d, page_table := m\<rparr> = (b\<lparr>bp_replacer := r, page_table := m\<rparr>)\<lparr>disk_manager := d\<rparr>" for d
        by simp
      show ?thesis
      proof (cases ?w)
        case (Inl e)
        then show ?thesis using Nil ev(1) True WritePage_throws [OF Inl] by (simp add: take_frame_def Let_def)
      next
        case (Inr d)
        have "pool_shape (b\<lparr>bp_replacer := r, disk_manager := d, page_table := m\<rparr>)"
          unfolding up using sh by (simp only: pool_shape_disk)
        then show ?thesis using Nil ev(1) True Inr WritePage_works [OF Inr] f by (simp add: take_frame_def Let_def m_def)
      qed
    qed
  qed
qed

lemma safe_NewPage: "pool_shape b \<Longrightarrow> safe b (pool_exec NewCall b)"
proof -
  assume b: "pool_shape b"
  show ?thesis
  proof (cases "take_frame b")
    case (Inl e)
    then show ?thesis using shape_take [OF b] by (simp add: NewPage_def safe_def)
  next
    case (Inr x)
    obtain fo b1 where x: "x = (fo, b1)" by (cases x)
    from shape_take [OF b] Inr x have b1: "pool_shape b1" "pool_size b1 = pool_size b"
      "device_works (disk_manager b1) \<longleftrightarrow> device_works (disk_manager b)"
      "\<And>f. fo = Some f \<Longrightarrow> f \<in> {0..<int (pool_size b1)}" by auto
    show ?thesis
    proof (cases fo)
      case None
      then show ?thesis using Inr x b1 by (simp add: NewPage_def safe_def)
    next
      case (Some f)
      obtain p d where d: "AllocatePage (disk_manager b1) = (p, d)" by (cases "AllocatePage (disk_manager b1)")
      from shape_pin [OF b1(1) b1(4) [OF Some], of "\<lparr>pg_data = 0, pg_id = p, pin_count = 1, is_dirty = False\<rparr>" "AList.update p f (page_table b1)" d]
        umap_update_subset [OF pool_shape_table [OF b1(1)] b1(4) [OF Some], of p]
      obtain b2 where "pin_frame ((set_frame (b1\<lparr>disk_manager := d\<rparr>) f \<lparr>pg_data = 0, pg_id = p, pin_count = 1, is_dirty = False\<rparr>)
          \<lparr>page_table := AList.update p f (page_table b1)\<rparr>) f = Inr b2" "pool_shape b2" "disk_manager b2 = d" by auto
      then show ?thesis using Inr x Some d b1(3) AllocatePage_works [OF d] by (simp add: NewPage_def safe_def)
    qed
  qed
qed

lemma safe_FetchPage: "pool_shape b \<Longrightarrow> safe b (pool_exec (FetchCall p) b)"
proof -
  assume b: "pool_shape b"
  show ?thesis
  proof (cases "cached b p")
    case (Some f)
    note f = pool_shapeD(5) [OF b Some]
    let ?pg = "(frame b f)\<lparr>pin_count := pin_count (frame b f) + 1\<rparr>"
    have "0 < pin_count ?pg" using pool_shapeD(6) [OF b f] by (simp add: frame_shape_def)
    from shape_pin [OF b f this pool_shape_table [OF b], of "disk_manager b"]
    obtain b2 where "pin_frame (set_frame b f ?pg) f = Inr b2" "pool_shape b2" "disk_manager b2 = disk_manager b"
      by (auto simp: set_frame_def)
    then show ?thesis using Some by (simp add: FetchPage_def safe_def)
  next
    case None
    show ?thesis
    proof (cases "take_frame b")
      case (Inl e)
      then show ?thesis using shape_take [OF b] None by (simp add: FetchPage_def safe_def)
    next
      case (Inr x)
      obtain fo b1 where x: "x = (fo, b1)" by (cases x)
      from shape_take [OF b] Inr x have b1: "pool_shape b1" "pool_size b1 = pool_size b"
        "device_works (disk_manager b1) \<longleftrightarrow> device_works (disk_manager b)"
        "\<And>f. fo = Some f \<Longrightarrow> f \<in> {0..<int (pool_size b1)}" by auto
      show ?thesis
      proof (cases fo)
        case None
        then show ?thesis using Inr x b1 \<open>cached b p = None\<close> by (simp add: FetchPage_def safe_def)
      next
        case (Some f)
        show ?thesis
        proof (cases "ReadPage (disk_manager b1) p")
          case (Inl e)
          then show ?thesis using Inr x Some None b1(3) ReadPage_throws [OF Inl] by (simp add: FetchPage_def safe_def)
        next
          case rd: (Inr y)
          obtain z d where y: "y = (z, d)" by (cases y)
          from shape_pin [OF b1(1) b1(4) [OF Some], of "\<lparr>pg_data = z, pg_id = p, pin_count = 1, is_dirty = False\<rparr>" "AList.update p f (page_table b1)" d]
            umap_update_subset [OF pool_shape_table [OF b1(1)] b1(4) [OF Some], of p]
          obtain b2 where "pin_frame ((set_frame (b1\<lparr>disk_manager := d\<rparr>) f \<lparr>pg_data = z, pg_id = p, pin_count = 1, is_dirty = False\<rparr>)
              \<lparr>page_table := AList.update p f (page_table b1)\<rparr>) f = Inr b2" "pool_shape b2" "disk_manager b2 = d" by auto
          then show ?thesis using Inr x Some rd y None b1(3) ReadPage_works [OF rd [unfolded y]]
            by (simp add: FetchPage_def safe_def)
        qed
      qed
    qed
  qed
qed

lemma safe_unpin: "pool_shape b \<Longrightarrow> safe b (pool_exec (UnpinCall p dirty) b)"
proof -
  assume b: "pool_shape b"
  show ?thesis
  proof (cases "\<exists>f. cached b p = Some f \<and> 0 < pin_count (frame b f)")
    case False
    then show ?thesis using b by (auto simp: UnpinPage_def safe_def split: option.split)
  next
    case True
    then obtain f where f: "cached b p = Some f" "0 < pin_count (frame b f)" by blast
    note i = pool_shapeD [OF b] and fr = pool_shapeD(5) [OF b f(1)]
    define pg where "pg = (frame b f)\<lparr>pin_count := pin_count (frame b f) - 1, is_dirty := (is_dirty (frame b f) \<or> dirty)\<rparr>"
    define r where "r = (if pin_count pg = 0 then SetEvictable (bp_replacer b) f True else bp_replacer b)"
    have "lruk_inv r \<and> max_frames r = pool_size b \<and> tracked r - {f} \<subseteq> tracked (bp_replacer b) \<and>
        evictable (bp_replacer b) - {f} \<subseteq> evictable r \<and> (f \<in> tracked r \<longrightarrow> pin_count pg = 0 \<longrightarrow> f \<in> evictable r)"
      using lru.set_evictable [OF i(3), of f True] i(2,3) by (cases "f \<in> tracked (bp_replacer b)") (auto simp: r_def)
    then have "pool_shape ((set_frame b f pg)\<lparr>bp_replacer := r, page_table := page_table b, free_list := free_list b\<rparr>)"
      using f(2) i(4) by (intro pool_shape_set_frame [OF b fr]) (use pool_shape_table [OF b] in \<open>auto simp: pg_def\<close>)
    moreover have "snd (UnpinPage b p dirty) = (set_frame b f pg)\<lparr>bp_replacer := r, page_table := page_table b, free_list := free_list b\<rparr>"
      using f by (simp add: UnpinPage_def Let_def r_def pg_def set_frame_def)
    ultimately show ?thesis by (simp add: safe_def)
  qed
qed

lemma safe_delete: "pool_shape b \<Longrightarrow> safe b (pool_exec (DeleteCall p) b)"
proof -
  assume b: "pool_shape b"
  show ?thesis
  proof (cases "cached b p = None \<or> (\<exists>f. cached b p = Some f \<and> pin_count (frame b f) \<noteq> 0)")
    case True
    then show ?thesis using b by (auto simp: DeletePage_def safe_def)
  next
    case False
    then obtain f where f: "cached b p = Some f" "pin_count (frame b f) = 0" by auto
    note i = pool_shapeD [OF b] and fr = pool_shapeD(5) [OF b f(1)]
    have "f \<in> tracked (bp_replacer b) \<Longrightarrow> f \<in> evictable (bp_replacer b)"
      using i(6) [OF fr] f(2) by (simp add: frame_shape_def)
    then obtain r where r: "Replacer_Remove (bp_replacer b) f = Inr r" "lruk_inv r" "max_frames r = pool_size b"
      "tracked r = tracked (bp_replacer b) - {f}" "evictable r = evictable (bp_replacer b) - {f}"
      using lru.remove [OF i(3), of f] Replacer_Remove_untracked [of f "bp_replacer b"] evictable_tracked [of "bp_replacer b"] i(2,3)
      by (cases "f \<in> tracked (bp_replacer b)") auto
    let ?pg = "\<lparr>pg_data = 0, pg_id = INVALID_PAGE_ID, pin_count = 0, is_dirty = False\<rparr>"
    let ?m = "AList.delete p (page_table b)" and ?fs = "free_list b @ [f]"
    have "pool_shape ((set_frame b f ?pg)\<lparr>bp_replacer := r, page_table := ?m, free_list := ?fs\<rparr>)"
      using r i(4) fr umap_delete_subset [OF pool_shape_table [OF b]] by (intro pool_shape_set_frame [OF b fr]) auto
    moreover have "DeletePage b p = Inr (True, (set_frame b f ?pg)\<lparr>bp_replacer := r, page_table := ?m, free_list := ?fs\<rparr>)"
      using f r(1) by (simp add: DeletePage_def Let_def DeallocatePage_def set_frame_def)
    ultimately show ?thesis by (simp add: safe_def)
  qed
qed

lemma pool_shape_same:
  assumes b: "pool_shape b" and f: "f \<in> {0..<int (pool_size b)}" and pg: "pin_count pg = pin_count (frame b f)"
  shows "pool_shape (set_frame b f pg)"
proof -
  note i = pool_shapeD [OF b]
  have "pool_shape ((set_frame b f pg)\<lparr>bp_replacer := bp_replacer b, page_table := page_table b, free_list := free_list b\<rparr>)"
    using i(2-4) i(6) [OF f] by (intro pool_shape_set_frame [OF b f]) (use pool_shape_table [OF b] in \<open>auto simp: pg frame_shape_def\<close>)
  then show ?thesis by (simp add: set_frame_def)
qed

lemma safe_flush_frame: "pool_shape b \<Longrightarrow> f \<in> {0..<int (pool_size b)} \<Longrightarrow>
  safe b (flush_frame b p f) \<and> (\<forall>b'. flush_frame b p f = Inr b' \<longrightarrow> pool_size b' = pool_size b)"
proof -
  assume b: "pool_shape b" and f: "f \<in> {0..<int (pool_size b)}"
  show ?thesis
  proof (cases "WritePage (disk_manager b) p (pg_data (frame b f))")
    case (Inl e)
    then show ?thesis using WritePage_throws [OF Inl] by (simp add: flush_frame_def safe_def)
  next
    case (Inr d)
    have "pool_shape (b\<lparr>disk_manager := d\<rparr>)" using b by simp
    from pool_shape_same [OF this, of f "(frame b f)\<lparr>is_dirty := False\<rparr>"] f
    show ?thesis using Inr WritePage_works [OF Inr] by (simp add: flush_frame_def safe_def)
  qed
qed

lemma safe_flush_frames:
  "pool_shape b \<Longrightarrow> snd ` set xs \<subseteq> {0..<int (pool_size b)} \<Longrightarrow> safe b (flush_frames xs b)"
proof (induction xs arbitrary: b)
  case (Cons x xs)
  from safe_flush_frame [OF Cons.prems(1), of "snd x" "fst x"] Cons.prems(2)
  have s: "safe b (flush_frame b (fst x) (snd x))" "\<And>b'. flush_frame b (fst x) (snd x) = Inr b' \<Longrightarrow> pool_size b' = pool_size b" by auto
  show ?case
  proof (cases "flush_frame b (fst x) (snd x)")
    case (Inr b')
    then show ?thesis using s Cons.IH [of b'] Cons.prems(2) by (auto simp: safe_def split: sum.splits)
  qed (use s in \<open>simp add: safe_def\<close>)
qed (simp add: safe_def)

lemma page_write_shape: "pool_shape b \<Longrightarrow> pool_shape (page_write b f x)"
proof -
  assume b: "pool_shape b"
  have n: "page_write b f x = set_frame b (int (nat f)) ((frame b (int (nat f)))\<lparr>pg_data := x\<rparr>)"
    by (simp add: page_write_def set_frame_def frame_def del: int_nat_eq)
  show ?thesis
  proof (cases "nat f < pool_size b")
    case True
    then show ?thesis unfolding n by (intro pool_shape_same [OF b]) (simp_all add: zless_nat_eq_int_zless [symmetric] del: int_nat_eq)
  next
    case False
    then have "page_write b f x = b" using pool_shapeD(1) [OF b] by (simp add: page_write_def set_frame_def list_update_beyond)
    then show ?thesis using b by simp
  qed
qed

lemma pool_exec_safe: "pool_shape b \<Longrightarrow> safe b (pool_exec c b)"
proof -
  assume b: "pool_shape b"
  show ?thesis
  proof (cases c)
    case NewCall
    then show ?thesis using safe_NewPage [OF b] by simp
  next
    case (FetchCall p)
    then show ?thesis using safe_FetchPage [OF b] by blast
  next
    case (UnpinCall p dirty)
    then show ?thesis using safe_unpin [OF b] by blast
  next
    case (DeleteCall p)
    then show ?thesis using safe_delete [OF b] by blast
  next
    case (FlushCall p)
    show ?thesis
    proof (cases "cached b p")
      case (Some f)
      from safe_flush_frame [OF b pool_shapeD(5) [OF b Some], of p] show ?thesis
        by (cases "flush_frame b p f") (simp_all add: FlushCall Some FlushPage_def safe_def)
    qed (use b in \<open>simp add: FlushCall FlushPage_def safe_def\<close>)
  next
    case FlushAllCall
    then show ?thesis using safe_flush_frames [OF b pool_shape_table [OF b]] by (simp add: FlushAllPages_def)
  next
    case (WriteBytes f x)
    then show ?thesis using page_write_shape [OF b] by (simp add: safe_def page_write_def)
  qed
qed

lemma pool_execs_safe: "pool_shape b \<Longrightarrow> safe b (pool_execs cs b)"
proof (induction cs arbitrary: b)
  case (Cons c cs)
  note s = pool_exec_safe [OF Cons.prems, of c]
  show ?case
  proof (cases "pool_exec c b")
    case (Inr b')
    then show ?thesis using s Cons.IH [of b'] by (auto simp: safe_def split: sum.splits)
  qed (use s in \<open>simp add: safe_def\<close>)
qed (simp add: safe_def)

text \<open>
  The sizes of the counters: a call adds at most one pin to a page and at most one to the next page number, so that the
  32-bit integers of the code do not overflow in fewer than \<open>2 ^ 31\<close> calls.
\<close>

definition counts :: "'d bpm \<Rightarrow> int \<Rightarrow> int \<Rightarrow> bool" where
  "counts b N n \<longleftrightarrow> next_page_id (disk_manager b) \<le> N \<and> (\<forall>pg \<in> set (pages b). pin_count pg \<le> n)"

lemma counts_mono: "counts b N n \<Longrightarrow> N \<le> N' \<Longrightarrow> n \<le> n' \<Longrightarrow> counts b N' n'"
  by (force simp: counts_def)

lemma counts_pages: "counts b N n \<Longrightarrow> pages b' = pages b \<Longrightarrow> next_page_id (disk_manager b') \<le> next_page_id (disk_manager b) \<Longrightarrow> counts b' N n"
  by (simp add: counts_def)

lemma counts_frame: "counts b N n \<Longrightarrow> nat f < length (pages b) \<Longrightarrow> pin_count (frame b f) \<le> n"
  by (simp add: counts_def frame_def)

lemma counts_set_frame:
  "counts b N n \<Longrightarrow> (nat f < length (pages b) \<Longrightarrow> pin_count pg \<le> n) \<Longrightarrow> counts (set_frame b f pg) N n"
proof (cases "nat f < length (pages b)")
  case True
  assume "counts b N n" "nat f < length (pages b) \<Longrightarrow> pin_count pg \<le> n"
  then show ?thesis using True set_update_subset_insert [of "pages b" "nat f" pg] by (fastforce simp: counts_def set_frame_def)
qed (simp add: counts_def set_frame_def not_less list_update_beyond)

lemma transfer_ids:
  "WritePage d p x = Inr d' \<Longrightarrow> next_page_id d' = next_page_id d"
  "ReadPage d p = Inr (y, d'') \<Longrightarrow> next_page_id d'' = next_page_id d"
  by (auto simp: WritePage_def ReadPage_def written_def put_page_def Let_def split: if_splits)

lemma counts_pin: "counts b N n \<Longrightarrow> pin_frame b f = Inr b' \<Longrightarrow> counts b' N n"
  by (auto simp: pin_frame_def rbind_eq_Inr intro: counts_pages)

lemma counts_take: "counts b N n \<Longrightarrow> take_frame b = Inr (fo, b') \<Longrightarrow> counts b' N n"
proof -
  assume b: "counts b N n" and t: "take_frame b = Inr (fo, b')"
  show ?thesis
  proof (cases "free_list b")
    case (Cons f fs)
    then show ?thesis using t by (auto simp: take_frame_def intro: counts_pages [OF b])
  next
    case Nil
    then obtain victim r where ev: "Evict (bp_replacer b) = Inr (victim, r)" using t by (auto simp: take_frame_def rbind_eq_Inr)
    show ?thesis
    proof (cases victim)
      case None
      then show ?thesis using t Nil ev by (auto simp: take_frame_def intro: counts_pages [OF b])
    next
      case (Some f)
      then show ?thesis using t Nil ev
        by (cases "is_dirty (frame b f)") (auto simp: take_frame_def Let_def rbind_eq_Inr transfer_ids(1) intro: counts_pages [OF b])
    qed
  qed
qed

lemma counts_flush_frame: "counts b N n \<Longrightarrow> flush_frame b p f = Inr b' \<Longrightarrow> counts b' N n"
proof -
  assume b: "counts b N n" and fl: "flush_frame b p f = Inr b'"
  then obtain d where d: "WritePage (disk_manager b) p (pg_data (frame b f)) = Inr d"
    "b' = set_frame (b\<lparr>disk_manager := d\<rparr>) f ((frame b f)\<lparr>is_dirty := False\<rparr>)" by (auto simp: flush_frame_def rbind_eq_Inr)
  have "counts (b\<lparr>disk_manager := d\<rparr>) N n" using transfer_ids(1) [OF d(1)] by (intro counts_pages [OF b]) simp_all
  then show ?thesis unfolding d(2) using counts_frame [OF b, of f] by (intro counts_set_frame) simp_all
qed

lemma counts_flush_frames: "counts b N n \<Longrightarrow> flush_frames xs b = Inr b' \<Longrightarrow> counts b' N n"
  by (induction xs arbitrary: b) (auto simp: rbind_eq_Inr dest: counts_flush_frame)

lemma counts_load:
  assumes "counts b N n" "next_page_id d \<le> N'" "N \<le> N'" "1 \<le> n" "pin_count pg = 1"
    "pin_frame ((set_frame (b\<lparr>disk_manager := d\<rparr>) f pg)\<lparr>page_table := m\<rparr>) f = Inr b'"
  shows "counts b' N' n"
proof -
  have "counts (b\<lparr>disk_manager := d\<rparr>) N' n" using assms(1,2) by (simp add: counts_def)
  then have "counts (set_frame (b\<lparr>disk_manager := d\<rparr>) f pg) N' n" using assms(4,5) by (intro counts_set_frame) simp_all
  then have "counts ((set_frame (b\<lparr>disk_manager := d\<rparr>) f pg)\<lparr>page_table := m\<rparr>) N' n" by (rule counts_pages) simp_all
  then show ?thesis using assms(6) by (rule counts_pin)
qed

lemma counts_new:
  assumes b: "counts b N n" and n: "0 \<le> n" and new: "NewPage b = Inr (r, b')"
  shows "counts b' (N + 1) (n + 1)"
proof -
  obtain fo b1 where t: "take_frame b = Inr (fo, b1)" using new by (auto simp: NewPage_def rbind_eq_Inr)
  have b1: "counts b1 N (n + 1)" using counts_mono [OF counts_take [OF b t]] by simp
  show ?thesis
  proof (cases fo)
    case None
    then show ?thesis using new t counts_mono [OF b1] by (simp add: NewPage_def)
  next
    case (Some f)
    obtain p d where d: "AllocatePage (disk_manager b1) = (p, d)" by (cases "AllocatePage (disk_manager b1)")
    then have "next_page_id d \<le> N + 1" using b1 by (auto simp: AllocatePage_def counts_def)
    moreover have "pin_frame ((set_frame (b1\<lparr>disk_manager := d\<rparr>) f \<lparr>pg_data = 0, pg_id = p, pin_count = 1, is_dirty = False\<rparr>)
        \<lparr>page_table := AList.update p f (page_table b1)\<rparr>) f = Inr b'"
      using new t Some d by (auto simp: NewPage_def Let_def rbind_eq_Inr)
    ultimately show ?thesis using n by (intro counts_load [OF b1]) simp_all
  qed
qed

lemma counts_fetch:
  assumes b: "counts b N n" and n: "0 \<le> n" and fetch: "FetchPage b p = Inr (r, b')"
  shows "counts b' N (n + 1)"
proof (cases "cached b p")
  case (Some f)
  have b1: "counts b N (n + 1)" using counts_mono [OF b] by simp
  have "counts (set_frame b f ((frame b f)\<lparr>pin_count := pin_count (frame b f) + 1\<rparr>)) N (n + 1)"
    using counts_frame [OF b, of f] by (intro counts_set_frame [OF b1]) simp
  then show ?thesis using fetch Some by (auto simp: FetchPage_def rbind_eq_Inr intro: counts_pin)
next
  case None
  then obtain fo b1 where t: "take_frame b = Inr (fo, b1)" using fetch by (auto simp: FetchPage_def rbind_eq_Inr)
  have b1: "counts b1 N (n + 1)" using counts_mono [OF counts_take [OF b t]] by simp
  show ?thesis
  proof (cases fo)
    case None
    then show ?thesis using fetch t b1 \<open>cached b p = None\<close> by (simp add: FetchPage_def)
  next
    case (Some f)
    then obtain x d where d: "ReadPage (disk_manager b1) p = Inr (x, d)" using fetch t None by (auto simp: FetchPage_def rbind_eq_Inr)
    have "next_page_id d \<le> N" using b1 transfer_ids(2) [OF d] by (simp add: counts_def)
    moreover have "pin_frame ((set_frame (b1\<lparr>disk_manager := d\<rparr>) f \<lparr>pg_data = x, pg_id = p, pin_count = 1, is_dirty = False\<rparr>)
        \<lparr>page_table := AList.update p f (page_table b1)\<rparr>) f = Inr b'"
      using fetch t Some d None by (auto simp: FetchPage_def Let_def rbind_eq_Inr)
    ultimately show ?thesis using n by (intro counts_load [OF b1]) simp_all
  qed
qed

lemma counts_unpin: "counts b N n \<Longrightarrow> counts (snd (UnpinPage b p dirty)) N n"
proof -
  assume b: "counts b N n"
  have c: "counts (set_frame b f ((frame b f)\<lparr>pin_count := k, is_dirty := x\<rparr>)) N n" if "k \<le> pin_count (frame b f)" for f k x
    using counts_frame [OF b, of f] that by (intro counts_set_frame [OF b]) simp
  have "counts ((set_frame b f ((frame b f)\<lparr>pin_count := k, is_dirty := x\<rparr>))\<lparr>bp_replacer := r\<rparr>) N n"
    if "k \<le> pin_count (frame b f)" for f k x r by (rule counts_pages [OF c [OF that]]) simp_all
  with b c show ?thesis by (auto simp: UnpinPage_def Let_def split: option.split)
qed

lemma counts_delete:
  assumes b: "counts b N n" and n: "0 \<le> n" and del: "DeletePage b p = Inr (r, b')"
  shows "counts b' N n"
proof -
  have "counts (set_frame c f \<lparr>pg_data = 0, pg_id = INVALID_PAGE_ID, pin_count = 0, is_dirty = False\<rparr>) N n"
    if "counts c N n" for c :: "'a bpm" and f using n by (intro counts_set_frame [OF that]) simp
  moreover have "counts (b\<lparr>page_table := m, bp_replacer := x, free_list := fs\<rparr>) N n" for m x fs by (rule counts_pages [OF b]) simp_all
  ultimately show ?thesis using del b
    by (auto simp: DeletePage_def Let_def rbind_eq_Inr DeallocatePage_def split: option.splits if_splits)
qed

lemma pool_exec_counts:
  assumes b: "counts b N n" and n: "0 \<le> n" and x: "pool_exec c b = Inr b'"
  shows "counts b' (N + 1) (n + 1)"
proof -
  note m = counts_mono [where N' = "N + 1" and n' = "n + 1"]
  show ?thesis
  proof (cases c)
    case NewCall
    then show ?thesis using x counts_new [OF b n] by (auto simp: rbind_eq_Inr)
  next
    case (FetchCall p)
    then show ?thesis using x counts_fetch [OF b n] by (auto simp: rbind_eq_Inr intro!: m)
  next
    case (UnpinCall p dirty)
    then show ?thesis using x m [OF counts_unpin [OF b]] by auto
  next
    case (DeleteCall p)
    then show ?thesis using x counts_delete [OF b n] by (auto simp: rbind_eq_Inr intro!: m)
  next
    case (FlushCall p)
    then show ?thesis using x b by (auto simp: FlushPage_def rbind_eq_Inr split: option.splits intro: m counts_flush_frame)
  next
    case FlushAllCall
    then show ?thesis using x counts_flush_frames [OF b] by (auto simp: FlushAllPages_def intro!: m)
  next
    case (WriteBytes f y)
    have "counts (set_frame b f ((frame b f)\<lparr>pg_data := y\<rparr>)) N n" using counts_frame [OF b, of f] by (intro counts_set_frame [OF b]) simp
    then show ?thesis using x WriteBytes by (auto simp: page_write_def intro: m)
  qed
qed

lemma pool_execs_counts:
  "counts b N n \<Longrightarrow> 0 \<le> n \<Longrightarrow> pool_execs cs b = Inr b' \<Longrightarrow> counts b' (N + int (length cs)) (n + int (length cs))"
proof (induction cs arbitrary: b N n)
  case (Cons c cs)
  then obtain b1 where b1: "pool_exec c b = Inr b1" "pool_execs cs b1 = Inr b'" by (auto simp: rbind_eq_Inr)
  from Cons.IH [OF pool_exec_counts [OF Cons.prems(1,2) b1(1)] _ b1(2)] Cons.prems(2) show ?case by (simp add: algebra_simps)
qed simp

lemma pool_shape_pins: "pool_shape b \<Longrightarrow> pg \<in> set (pages b) \<Longrightarrow> 0 \<le> pin_count pg"
proof -
  assume b: "pool_shape b" and "pg \<in> set (pages b)"
  then obtain i where i: "i < length (pages b)" "pages b ! i = pg" by (auto simp: in_set_conv_nth)
  then have "frame_shape b (int i)" using i(1) pool_shapeD(1) [OF b] pool_shapeD(6) [OF b, of "int i"] by simp
  then show ?thesis using i(2) by (simp add: frame_shape_def frame_def)
qed

section \<open>Pinned pages stay\<close>

text \<open>The calls of the pool itself that do not give back a pin of the page.\<close>

definition manager_call :: "page_id \<Rightarrow> 'd pool_call \<Rightarrow> bool" where
  "manager_call p c \<longleftrightarrow> (case c of UnpinCall q _ \<Rightarrow> q \<noteq> p | WriteBytes _ _ \<Rightarrow> False | _ \<Rightarrow> True)"

definition protects :: "page_id \<Rightarrow> frame_id \<Rightarrow> 'd bpm \<Rightarrow> 'd bpm \<Rightarrow> bool" where
  "protects q f b b' \<longleftrightarrow> cached b' q = Some f \<and> page_read b' f = page_read b f \<and> pins b q \<le> pins b' q"

lemma protects_refl: "cached b q = Some f \<Longrightarrow> protects q f b b"
  by (simp add: protects_def)

lemma view_protects:
  "cached b q = Some f \<Longrightarrow> cached b' q = Some f \<Longrightarrow> page_view b' q = page_view b q \<Longrightarrow> pins b q \<le> pins b' q \<Longrightarrow> protects q f b b'"
  by (simp add: protects_def page_view_def page_read_def)

lemma keeps_protects:
  assumes "keeps X b b'" "q \<notin> X" "cached b q = Some f" "0 < pins b q"
  shows "protects q f b b'"
proof (rule view_protects [OF assms(3)])
  show "cached b' q = Some f" "page_view b' q = page_view b q" "pins b q \<le> pins b' q"
    using assms by (simp_all add: keeps_def stored_def)
qed

lemma DeletePage_refused:
  assumes "bpm_inv b" "coherent W b"
  shows "DeletePage b p = Inr (False, b) \<longleftrightarrow> 0 < pins b p"
proof
  assume del: "DeletePage b p = Inr (False, b)"
  show "0 < pins b p"
  proof (rule ccontr)
    assume "\<not> 0 < pins b p"
    then have z: "pins b p = 0" using pins_nonneg [OF assms(1), of p] by simp
    show False
    proof (cases "cached b p")
      case None
      then show ?thesis using del DeletePage_uncached [OF None] by simp
    next
      case (Some f)
      then show ?thesis using del DeletePage_cached [OF assms Some z] by auto
    qed
  qed
qed (simp add: DeletePage_pinned)

text \<open>A page that neither the pool nor the file knows takes a frame, but not one that is pinned.\<close>

lemma FetchPage_unknown_protects:
  assumes inv: "bpm_inv b" and coh: "coherent W b" and q: "cached b q = Some f" "0 < pins b q" and p: "cached b p = None"
  shows "\<exists>r b'. FetchPage b p = Inr (r, b') \<and> protects q f b b'"
  using take_frame_ok [OF inv coh]
proof (elim disjE exE conjE)
  assume "take_frame b = Inr (None, b)"
  then show ?thesis using p protects_refl [OF q(1)] by (simp add: FetchPage_def)
next
  fix g b1
  assume tk: "take_frame b = Inr (Some g, b1)" "bpm_invT {g} b1" "keeps {} b b1" "\<forall>q. cached b q = None \<longrightarrow> cached b1 q = None"
  note i = bpm_invTD [OF tk(2)]
  have pr: "protects q f b b1" by (rule keeps_protects [OF tk(3) _ q]) simp
  then have q1: "cached b1 q = Some f" "q \<noteq> p" using p q(1) by (auto simp: protects_def)
  have fg: "f \<noteq> g" "0 \<le> f" "0 \<le> g" "g < int (pool_size b1)"
    using i(9,12) ranI [of "cached b1" q f] q1(1) bpm_inv_cached [OF tk(2) q1(1)] by (auto simp: frame_ok_def)
  obtain x d where rd: "ReadPage (disk_manager b1) p = Inr (x, d)"
    using i(4) ReadPage_throws [of "disk_manager b1" p] by (cases "ReadPage (disk_manager b1) p") (auto simp: disk_ok_def device_works_def)
  let ?b2 = "set_frame (b1\<lparr>disk_manager := d\<rparr>) g \<lparr>pg_data = x, pg_id = p, pin_count = 1, is_dirty = False\<rparr>"
  let ?b3 = "?b2\<lparr>page_table := AList.update p g (page_table ?b2)\<rparr>"
  obtain r where r: "pin_frame ?b3 g = Inr (?b3\<lparr>bp_replacer := r\<rparr>)"
    using pin_frame_ok [of ?b3 g] i(2,3) fg(3,4) by auto
  have "frame (?b3\<lparr>bp_replacer := r\<rparr>) f = frame b1 f" using fg i(1) by (simp add: frame_set_frame)
  then have "protects q f b (?b3\<lparr>bp_replacer := r\<rparr>)"
    using pr q1 by (simp add: protects_def page_read_def pins_def)
  then show ?thesis using tk(1) p rd r by (simp add: FetchPage_def Let_def)
qed

lemma FetchPage_protects:
  assumes inv: "bpm_inv b" and coh: "coherent W b" and q: "cached b q = Some f" "0 < pins b q"
  shows "\<exists>r b'. FetchPage b p = Inr (r, b') \<and> protects q f b b'"
proof (cases "cached b p")
  case (Some g)
  from FetchPage_ok [OF inv coh, of p] Some obtain b' where b': "FetchPage b p = Inr (Some g, b')" "keeps {p} b b'"
    "page_view b' p = page_view b p" "pins b' p = pins b p + 1" "cached b' p = Some g"
    using FetchPage_cached [OF inv coh Some] by (auto simp: stored_def)
  have "protects q f b b'"
  proof (cases "q = p")
    case True
    then show ?thesis using b' Some q by (intro view_protects) auto
  qed (use keeps_protects [OF b'(2) _ q] in simp)
  then show ?thesis using b'(1) by blast
qed (rule FetchPage_unknown_protects [OF assms])

lemma pool_exec_protects:
  assumes inv: "bpm_inv b" and coh: "coherent W b" and pin: "0 < pins b q" and q: "cached b q = Some f"
    and c: "manager_call q c"
  shows "\<exists>b'. pool_exec c b = Inr b' \<and> protects q f b b'"
proof (cases c)
  case NewCall
  have "stored b q" using q by (simp add: stored_def)
  with NewPage_ok [OF inv coh] show ?thesis
  proof (elim disjE exE conjE)
    fix p g b' assume "NewPage b = Inr (Some (p, g), b')" "keeps {p} b b'" "\<not> stored b p" "stored b q"
    then show ?thesis using keeps_protects [of "{p}" b b' q f] pin q NewCall by auto
  qed (use NewCall protects_refl [OF q] in simp)
next
  case (FetchCall p)
  then show ?thesis using FetchPage_protects [OF inv coh q pin, of p] by auto
next
  case (UnpinCall p dirty)
  then have "q \<noteq> p" using c by (auto simp: manager_call_def)
  show ?thesis
  proof (cases "0 < pins b p")
    case True
    from UnpinPage_inv [OF inv True, of dirty] obtain b' where "UnpinPage b p dirty = (True, b')" "cached b' = cached b"
      "pins b' = (pins b)(p := pins b p - 1)" "page_view b' = page_view b" by blast
    then show ?thesis using view_protects [OF q, of b'] q \<open>q \<noteq> p\<close> UnpinCall by simp
  next
    case False
    then have "pins b p = 0" using pins_nonneg [OF inv, of p] by simp
    then show ?thesis using UnpinPage_unpinned [OF inv] protects_refl [OF q] UnpinCall by simp
  qed
next
  case (DeleteCall p)
  consider "pins b p \<noteq> 0" | "cached b p = None" | g where "cached b p = Some g" "pins b p = 0" by (cases "cached b p") auto
  then show ?thesis
  proof cases
    case 1
    then show ?thesis using DeletePage_pinned [of b p] protects_refl [OF q] DeleteCall by auto
  next
    case 2
    then show ?thesis using DeletePage_uncached [of b p] protects_refl [OF q] DeleteCall by auto
  next
    case (3 g)
    then have "q \<noteq> p" using pin by auto
    with DeletePage_cached [OF inv coh 3] keeps_protects [OF _ _ q pin, of "{p}"] DeleteCall show ?thesis by auto
  qed
next
  case (FlushCall p)
  show ?thesis
  proof (cases "cached b p")
    case (Some g)
    from flush_frame_ok [OF inv coh Some] obtain b' where b': "flush_frame b p g = Inr b'" "flushed p b b'" by blast
    then have "protects q f b b'" using q by (intro view_protects) (simp_all add: flushed_def)
    then show ?thesis using b'(1) FlushCall Some by (simp add: FlushPage_def)
  qed (use FlushCall protects_refl [OF q] in \<open>simp add: FlushPage_def\<close>)
next
  case FlushAllCall
  from FlushAllPages_ok [OF inv coh] obtain b' where "FlushAllPages b = Inr b'" "cached b' = cached b" "pins b' = pins b"
    "page_view b' = page_view b" by blast
  then show ?thesis using view_protects [OF q, of b'] q FlushAllCall by simp
qed (use c in \<open>simp add: manager_call_def\<close>)

section \<open>Properties\<close>

text \<open>A run on a pool of one frame: page 0 is written, evicted by page 1, and still known.\<close>

definition demo_disk :: "nat disk" where
  "demo_disk = \<lparr>db_file = [], io_failed = False, io_bad = False, faulty = {}, next_page_id = 0, num_pages = 0\<rparr>"

definition demo_pool :: "nat list \<Rightarrow> page_id \<Rightarrow> nat \<Rightarrow> int \<Rightarrow> bool \<Rightarrow> nat bpm" where
  "demo_pool file p x pc dirty =
     \<lparr>pool_size = 1,
      disk_manager = \<lparr>db_file = file, io_failed = False, io_bad = False, faulty = {}, next_page_id = p + 1, num_pages = length file\<rparr>,
      bp_replacer = \<lparr>max_frames = 1, k_ref = 2, curr_size = (if pc = 0 then 1 else 0),
        current_timestamp = nat p + 1, entries = [(0, \<lparr>history = [nat p], is_evictable = (pc = 0)\<rparr>)]\<rparr>,
      pages = [\<lparr>pg_data = x, pg_id = p, pin_count = pc, is_dirty = dirty\<rparr>],
      page_table = [(p, 0)], free_list = []\<rparr>"

lemmas pool_eval = demo_pool_def demo_disk_def BufferPoolManager_def LRUKReplacer_def FetchPage_def take_frame_def
  NewPage_def UnpinPage_def Let_def pin_frame_def RecordAccess_def SetEvictable_def AllocatePage_def
  set_frame_def Page_def page_write_def page_read_def frame_def Evict_def WritePage_def written_def put_page_def
  SIZE_MAX_def ReadPage_def entry_of_def cached_def pins_def DeletePage_def

lemma demo_steps:
  "NewPage (BufferPoolManager 1 demo_disk 2) = Inr (Some (0, 0), demo_pool [] 0 0 1 False)"
  "page_write (demo_pool [] 0 0 1 False) 0 7 = demo_pool [] 0 7 1 False"
  "cached (demo_pool [] 0 0 1 False) 0 = Some 0" "pins (demo_pool [] 0 0 1 False) 0 = 1"
  "UnpinPage (demo_pool [] 0 7 1 False) 0 True = (True, demo_pool [] 0 7 0 True)"
  "NewPage (demo_pool [] 0 7 0 True) = Inr (Some (1, 0), demo_pool [7] 1 0 1 False)"
  "UnpinPage (demo_pool [7] 1 0 1 False) 1 True = (True, demo_pool [7] 1 0 0 True)"
  by (simp_all add: pool_eval del: map_of_entries map_of_page_table)

abbreviation demo_map :: "page_id \<rightharpoonup> nat" where
  "demo_map \<equiv> (\<lambda>p. if on_disk demo_disk p then Some (disk_page demo_disk p) else None)"

lemma demo_run_pinned: "pool_run 1 2 demo_disk (demo_map(0 \<mapsto> 0, 0 \<mapsto> 7, 1 \<mapsto> 0)) {1} (demo_pool [7] 1 0 1 False)"
proof -
  note a = new [OF start [of 1 2 demo_disk] demo_steps(1)]
  note b = modify [OF a demo_steps(3), of 7, simplified demo_steps, simplified]
  note c = unpin [OF b _ demo_steps(5), simplified]
  note d = new [OF c demo_steps(6)]
  show ?thesis using d by simp
qed

lemma demo_run: "pool_run 1 2 demo_disk (demo_map(0 \<mapsto> 0, 0 \<mapsto> 7, 1 \<mapsto> 0)) {} (demo_pool [7] 1 0 0 True)"
  using unpin [OF demo_run_pinned _ demo_steps(7)] by simp

lemma demo_disk_ok: "disk_ok demo_disk" "0 < (2::nat)"
  by (simp_all add: disk_ok_def demo_disk_def)

text \<open>
  C7. No update is lost: whatever the clients of the pool have called before, fetching a page that
  exists either fails without changing anything or pins a frame with the content that was last
  written to the page, however often it was evicted, written back and read again in between.
\<close>

theorem FetchPage_latest:
  assumes "pool_run n k d m W b" and "disk_ok d" and "0 < k" and "m p = Some x"
  shows "FetchPage b p = Inr (None, b) \<or>
    (\<exists>f b'. FetchPage b p = Inr (Some f, b') \<and> page_read b' f = x \<and> pins b' p = pins b p + 1 \<and>
       (\<forall>q. q \<noteq> p \<longrightarrow> pins b' q = pins b q))"
proof -
  note ok = pool_runD [OF assms(1-3)]
  have "stored b p" "page_view b p = x" using ok(3) assms(4) by (auto simp: agrees_def)
  from FetchPage_ok [OF ok(1,2) this(1)] this(2) show ?thesis
    by (auto simp: page_view_def page_read_def keeps_def)
qed

theorem FetchPage_latest_witness:
  "\<exists>f b'. FetchPage (demo_pool [7] 1 0 0 True) 0 = Inr (Some f, b') \<and> page_read b' f = 7"
proof -
  have "FetchPage (demo_pool [7] 1 0 0 True) 0 \<noteq> Inr (None, demo_pool [7] 1 0 0 True)"
    by (simp add: pool_eval del: map_of_entries map_of_page_table)
  then show ?thesis
    using FetchPage_latest [OF demo_run demo_disk_ok, of 0 7] by auto
qed

text \<open>
  C13. Whatever sequence of calls a client makes, of any page ids, known to the pool or not, and with any writes
  through the pages it was given: as long as the device does not refuse a transfer, the pool never throws; in particular
  the exceptions of the replacer (a frame out of range, removing a frame that is pinned) never happen. When a
  transfer is refused the exception is one of the two I/O errors of the disk manager. No pin count is ever negative, and pin counts
  and page numbers grow by at most one with each call, so that the \<^verbatim>\<open>int\<close> counters of the code do not overflow in fewer than
  \<open>2 ^ 31\<close> calls (less the pages of the file).
\<close>

theorem pool_throws_io_errors:
  assumes "0 < k"
  shows "(device_works d \<longrightarrow> (\<exists>b. pool_execs cs (BufferPoolManager n d k) = Inr b)) \<and>
    (\<forall>e. pool_execs cs (BufferPoolManager n d k) = Inl e \<longrightarrow> e = seek_error \<or> e = write_error) \<and>
    (\<forall>b. pool_execs cs (BufferPoolManager n d k) = Inr b \<longrightarrow> next_page_id (disk_manager b) \<le> next_page_id d + int (length cs) \<and>
       (\<forall>pg \<in> set (pages b). 0 \<le> pin_count pg \<and> pin_count pg \<le> int (length cs)))"
proof -
  note safe = pool_execs_safe [OF pool_shape_init [OF assms, of n d], of cs]
  have "counts (BufferPoolManager n d k) (next_page_id d) 0" by (simp add: counts_def BufferPoolManager_def Page_def)
  then have "pool_execs cs (BufferPoolManager n d k) = Inr b \<Longrightarrow> counts b (next_page_id d + int (length cs)) (int (length cs))" for b
    using pool_execs_counts [of "BufferPoolManager n d k" "next_page_id d" 0 cs] by simp
  then show ?thesis using safe pool_shape_pins by (auto simp: safe_def BufferPoolManager_def counts_def split: sum.splits)
qed

theorem pool_throws_io_errors_witness:
  "\<exists>b. pool_execs [FetchCall 5, NewCall, DeleteCall 5, UnpinCall (-1) True, FetchCall (-1), WriteBytes 0 7, UnpinCall 5 True,
     NewCall, DeleteCall 0, FlushAllCall] (BufferPoolManager 1 demo_disk 2) = Inr b"
proof -
  have "device_works demo_disk" by (simp add: device_works_def demo_disk_def)
  with pool_throws_io_errors [of 2 demo_disk] show ?thesis by (simp del: pool_execs.simps)
qed

text \<open>
  C27. \<^verbatim>\<open>NewPage\<close> fails exactly when every frame of the pool holds a page that somebody has pinned
  (as long as the 64-bit timestamp of the replacer has not wrapped).
\<close>

theorem NewPage_fails_iff_all_pinned:
  assumes "pool_run n k d m W b" and "disk_ok d" and "0 < k"
    and "current_timestamp (bp_replacer b) \<le> SIZE_MAX"
  shows "NewPage b = Inr (None, b) \<longleftrightarrow>
    (\<forall>f. 0 \<le> f \<longrightarrow> f < int (pool_size b) \<longrightarrow> (\<exists>p. cached b p = Some f \<and> 0 < pins b p))"
proof
  note ok = pool_runD [OF assms(1-3)]
  assume "NewPage b = Inr (None, b)"
  then have "free_list b = []" "Evict (bp_replacer b) = Inr (None, bp_replacer b)"
    using NewPage_ok [OF ok(1,2)] by auto
  from full_pinned [OF ok(1) this assms(4)]
  show "\<forall>f. 0 \<le> f \<longrightarrow> f < int (pool_size b) \<longrightarrow> (\<exists>p. cached b p = Some f \<and> 0 < pins b p)" by blast
next
  note ok = pool_runD [OF assms(1-3)]
  assume "\<forall>f. 0 \<le> f \<longrightarrow> f < int (pool_size b) \<longrightarrow> (\<exists>p. cached b p = Some f \<and> 0 < pins b p)"
  from all_pinned_full [OF ok(1) this] show "NewPage b = Inr (None, b)" by (simp add: NewPage_def)
qed

theorem NewPage_fails_iff_all_pinned_witness:
  "NewPage (demo_pool [7] 1 0 1 False) = Inr (None, demo_pool [7] 1 0 1 False)"
proof -
  have "\<forall>f. 0 \<le> f \<longrightarrow> f < int (pool_size (demo_pool [7] 1 0 1 False)) \<longrightarrow>
      (\<exists>p. cached (demo_pool [7] 1 0 1 False) p = Some f \<and> 0 < pins (demo_pool [7] 1 0 1 False) p)"
    by (auto simp: pool_eval simp del: map_of_entries map_of_page_table intro: exI [of _ 1])
  moreover have "current_timestamp (bp_replacer (demo_pool [7] 1 0 1 False)) \<le> SIZE_MAX"
    by (simp add: demo_pool_def SIZE_MAX_def)
  ultimately show ?thesis
    using NewPage_fails_iff_all_pinned [OF demo_run_pinned demo_disk_ok] by blast
qed

text \<open>
  C12. \<^verbatim>\<open>FlushAllPages\<close> makes the database durable: afterwards the file holds the current content of
  every page, and clients see the same pages, pinned as before.
\<close>

theorem FlushAllPages_durable:
  assumes "pool_run n k d m W b" and "disk_ok d" and "0 < k" and "m p = Some x"
  shows "\<exists>b'. FlushAllPages b = Inr b' \<and> ReadPage (disk_manager b') p = Inr (x, disk_manager b') \<and>
    page_view b' = page_view b \<and> pins b' = pins b"
proof -
  note ok = pool_runD [OF assms(1-3)]
  have st: "stored b p" "page_view b p = x" using ok(3) assms(4) by (auto simp: agrees_def)
  from FlushAllPages_ok [OF ok(1,2)] obtain b' where b': "FlushAllPages b = Inr b'" "bpm_inv b'" "pins b' = pins b"
    "page_view b' = page_view b" "\<forall>p. stored b p \<longrightarrow> on_disk (disk_manager b') p \<and> disk_page (disk_manager b') p = page_view b p"
    by blast
  then show ?thesis
    using ReadPage_on_disk [of "disk_manager b'" p] bpm_invTD(4) [OF b'(2)] st by auto
qed

theorem FlushAllPages_durable_witness:
  "\<exists>b'. FlushAllPages (demo_pool [7] 1 0 0 True) = Inr b' \<and> ReadPage (disk_manager b') 1 = Inr (0, disk_manager b')"
  using FlushAllPages_durable [OF demo_run demo_disk_ok, of 1 0] by simp blast

text \<open>
  C14. A pinned page is safe: \<^verbatim>\<open>DeletePage\<close> refuses a page exactly when it is pinned, and then changes nothing;
  \<^verbatim>\<open>UnpinPage\<close> succeeds exactly when the page is pinned, so no pin count becomes negative; and no other call of
  the pool, whatever frames it needs and whatever pages it is asked for, evicts a pinned page: the page stays in its frame
  with its bytes and at least its pins.
\<close>

theorem pins_protect:
  assumes "pool_run n k d m W b" and "disk_ok d" and "0 < k"
  shows "(DeletePage b p = Inr (False, b) \<longleftrightarrow> 0 < pins b p) \<and>
    (fst (UnpinPage b p dirty) \<longleftrightarrow> 0 < pins b p) \<and> 0 \<le> pins b p \<and>
    (0 < pins b p \<longrightarrow> manager_call p c \<longrightarrow>
       (\<exists>f b'. cached b p = Some f \<and> pool_exec c b = Inr b' \<and> cached b' p = Some f \<and>
          page_read b' f = page_read b f \<and> pins b p \<le> pins b' p))"
proof (intro conjI impI)
  note ok = pool_runD [OF assms]
  show nn: "0 \<le> pins b p" using ok(1) by (rule pins_nonneg)
  show "fst (UnpinPage b p dirty) \<longleftrightarrow> 0 < pins b p"
    by (auto simp: UnpinPage_def pins_def Let_def split: option.splits)
  show "DeletePage b p = Inr (False, b) \<longleftrightarrow> 0 < pins b p"
    using DeletePage_refused [OF ok(1,2)] .
  assume p: "0 < pins b p" "manager_call p c"
  then obtain f where f: "cached b p = Some f" by (auto simp: pins_def split: option.splits)
  from pool_exec_protects [OF ok(1,2) p(1) f p(2)] f
  show "\<exists>f b'. cached b p = Some f \<and> pool_exec c b = Inr b' \<and> cached b' p = Some f \<and>
          page_read b' f = page_read b f \<and> pins b p \<le> pins b' p" unfolding protects_def by blast
qed

theorem pins_protect_witness:
  "DeletePage (demo_pool [7] 1 0 1 False) 1 = Inr (False, demo_pool [7] 1 0 1 False) \<and>
   (\<exists>b'. pool_exec NewCall (demo_pool [7] 1 0 1 False) = Inr b' \<and> cached b' 1 = Some 0)"
proof -
  have "0 < pins (demo_pool [7] 1 0 1 False) 1" "cached (demo_pool [7] 1 0 1 False) 1 = Some 0"
    by (simp_all add: pool_eval del: map_of_entries map_of_page_table)
  then show ?thesis
    using pins_protect [OF demo_run_pinned demo_disk_ok, of 1 True NewCall] by (auto simp: manager_call_def)
qed

end
