(* ===== verification/Page_Store.thy ===== *)
theory Page_Store
  imports Buffer_Pool
begin

text \<open>
  The contract between the buffer pool and its clients, the table heap and the B+ tree: a store of
  pages that are fetched, read and written through a handle, and unpinned. The locale states what a
  client may rely on, its lemmas are the three ways in which the clients use a page (visit, change,
  create), and the interpretation shows that the modelled pool keeps the contract. \<open>ok W s\<close> is the
  invariant of the pool while the pages \<open>W\<close> are modified and not yet unpinned dirty; \<open>life s\<close> is the
  number of accesses left before the replacer's 64-bit clock wraps, \<open>frontier s\<close> the next new page.
\<close>

section \<open>The contract\<close>

locale page_store =
  fixes fetch :: "'s \<Rightarrow> page_id \<Rightarrow> ('h option \<times> 's) res"
    and new_page :: "'s \<Rightarrow> ((page_id \<times> 'h) option \<times> 's) res"
    and unpin :: "'s \<Rightarrow> page_id \<Rightarrow> bool \<Rightarrow> bool \<times> 's"
    and drop_page :: "'s \<Rightarrow> page_id \<Rightarrow> (bool \<times> 's) res"
    and read :: "'s \<Rightarrow> 'h \<Rightarrow> 'd::zero"
    and put :: "'s \<Rightarrow> 'h \<Rightarrow> 'd \<Rightarrow> 's"
    and view :: "'s \<Rightarrow> page_id \<Rightarrow> 'd"
    and present :: "'s \<Rightarrow> page_id \<Rightarrow> bool"
    and pin_of :: "'s \<Rightarrow> page_id \<Rightarrow> int"
    and held :: "'s \<Rightarrow> 'h \<Rightarrow> page_id \<Rightarrow> bool"
    and ok :: "page_id set \<Rightarrow> 's \<Rightarrow> bool"
    and capacity :: "'s \<Rightarrow> nat"
    and life :: "'s \<Rightarrow> nat"
    and frontier :: "'s \<Rightarrow> page_id"
  assumes fetch: "ok W s \<Longrightarrow> present s p \<Longrightarrow>
      fetch s p = Inr (None, s) \<or>
      (\<exists>h s'. fetch s p = Inr (Some h, s') \<and> ok W s' \<and> held s' h p \<and>
         pin_of s' = (pin_of s)(p := pin_of s p + 1) \<and>
         (\<forall>q. present s q \<longrightarrow> present s' q \<and> view s' q = view s q) \<and>
         (\<forall>g q. 0 < pin_of s q \<longrightarrow> held s g q \<longrightarrow> held s' g q) \<and>
         capacity s' = capacity s \<and> life s \<le> Suc (life s') \<and> frontier s' = frontier s)"
    and fetch_alive: "ok W s \<Longrightarrow> present s p \<Longrightarrow> 0 < life s \<Longrightarrow>
      0 < pin_of s p \<or> card {q. 0 < pin_of s q} < capacity s \<Longrightarrow> fetch s p \<noteq> Inr (None, s)"
    and new_page: "ok W s \<Longrightarrow>
      new_page s = Inr (None, s) \<or>
      (\<exists>p h s'. new_page s = Inr (Some (p, h), s') \<and> 0 \<le> p \<and> \<not> present s p \<and> pin_of s p = 0 \<and>
         ok (insert p W) s' \<and> held s' h p \<and> present s' p \<and> view s' p = 0 \<and>
         pin_of s' = (pin_of s)(p := 1) \<and>
         (\<forall>q. present s q \<longrightarrow> present s' q \<and> view s' q = view s q) \<and>
         (\<forall>g q. 0 < pin_of s q \<longrightarrow> held s g q \<longrightarrow> held s' g q) \<and>
         capacity s' = capacity s \<and> life s \<le> Suc (life s') \<and>
         p = frontier s \<and> frontier s' = p + 1)"
    and new_alive: "ok W s \<Longrightarrow> 0 < life s \<Longrightarrow> card {q. 0 < pin_of s q} < capacity s \<Longrightarrow>
      new_page s \<noteq> Inr (None, s)"
    and unpin: "ok W s \<Longrightarrow> 0 < pin_of s p \<Longrightarrow> d \<or> p \<notin> W \<Longrightarrow>
      \<exists>s'. unpin s p d = (True, s') \<and> ok (W - {p}) s' \<and> pin_of s' = (pin_of s)(p := pin_of s p - 1) \<and>
        present s' = present s \<and> view s' = view s \<and> held s' = held s \<and> capacity s' = capacity s \<and>
        life s' = life s \<and> frontier s' = frontier s"
    and put: "ok W s \<Longrightarrow> held s h p \<Longrightarrow> 0 < pin_of s p \<Longrightarrow>
      ok (insert p W) (put s h x) \<and> view (put s h x) = (view s)(p := x) \<and> pin_of (put s h x) = pin_of s \<and>
      present (put s h x) = present s \<and> held (put s h x) = held s \<and>
      capacity (put s h x) = capacity s \<and> life (put s h x) = life s \<and> frontier (put s h x) = frontier s"
    and read: "held s h p \<Longrightarrow> read s h = view s p"
    and drop_page: "ok W s \<Longrightarrow> pin_of s p = 0 \<Longrightarrow>
      \<exists>s'. drop_page s p = Inr (True, s') \<and> ok W s' \<and> pin_of s' = pin_of s \<and>
        (\<forall>q. q \<noteq> p \<longrightarrow> present s q \<longrightarrow> present s' q \<and> view s' q = view s q) \<and>
        (\<forall>g q. 0 < pin_of s q \<longrightarrow> held s g q \<longrightarrow> held s' g q) \<and> capacity s' = capacity s \<and> life s' = life s \<and>
        frontier s' = frontier s"
    and pin_nonneg: "ok W s \<Longrightarrow> 0 \<le> pin_of s p"
    and present_nonneg: "ok W s \<Longrightarrow> present s p \<Longrightarrow> 0 \<le> p"
    and ok_pinned: "ok W s \<Longrightarrow> p \<in> W \<Longrightarrow> 0 < pin_of s p"
begin

text \<open>A client looks at a page and leaves it as it was.\<close>

lemma visit:
  assumes "ok W s" "present s p" "fetch s p = Inr (Some h, s1)" "p \<notin> W"
  shows "read s1 h = view s p \<and> (\<exists>s2. unpin s1 p False = (True, s2) \<and> ok W s2 \<and> pin_of s2 = pin_of s \<and>
    (\<forall>q. present s q \<longrightarrow> present s2 q \<and> view s2 q = view s q) \<and>
    (\<forall>g q. 0 < pin_of s q \<longrightarrow> held s g q \<longrightarrow> held s2 g q) \<and> capacity s2 = capacity s \<and> life s \<le> Suc (life s2) \<and> frontier s2 = frontier s)"
proof -
  from fetch [OF assms(1,2)] assms(3) have s1: "ok W s1" "held s1 h p" "pin_of s1 = (pin_of s)(p := pin_of s p + 1)"
    "\<forall>q. present s q \<longrightarrow> present s1 q \<and> view s1 q = view s q"
    "\<forall>g q. 0 < pin_of s q \<longrightarrow> held s g q \<longrightarrow> held s1 g q" "capacity s1 = capacity s" "life s \<le> Suc (life s1)" "frontier s1 = frontier s"
    by auto
  have "0 < pin_of s1 p" using s1(3) pin_nonneg [OF assms(1), of p] by simp
  from unpin [OF s1(1) this, of False] assms(4) obtain s2 where
    "unpin s1 p False = (True, s2)" "ok (W - {p}) s2" "pin_of s2 = (pin_of s1)(p := pin_of s1 p - 1)"
    "present s2 = present s1" "view s2 = view s1" "held s2 = held s1" "capacity s2 = capacity s1" "life s2 = life s1" "frontier s2 = frontier s1"
    by blast
  then show ?thesis using s1 assms(2,4) read [OF s1(2)] by auto
qed

text \<open>A client fetches a page, replaces its content and unpins it dirty.\<close>

lemma change:
  assumes "ok W s" "present s p" "fetch s p = Inr (Some h, s1)"
  shows "read s1 h = view s p \<and> (\<exists>s2. unpin (put s1 h x) p True = (True, s2) \<and> ok (W - {p}) s2 \<and>
    pin_of s2 = pin_of s \<and> view s2 p = x \<and> present s2 p \<and>
    (\<forall>q. q \<noteq> p \<longrightarrow> present s q \<longrightarrow> present s2 q \<and> view s2 q = view s q) \<and>
    (\<forall>g q. 0 < pin_of s q \<longrightarrow> held s g q \<longrightarrow> held s2 g q) \<and> capacity s2 = capacity s \<and> life s \<le> Suc (life s2) \<and> frontier s2 = frontier s)"
proof -
  from fetch [OF assms(1,2)] assms(3) have s1: "ok W s1" "held s1 h p" "pin_of s1 = (pin_of s)(p := pin_of s p + 1)"
    "\<forall>q. present s q \<longrightarrow> present s1 q \<and> view s1 q = view s q"
    "\<forall>g q. 0 < pin_of s q \<longrightarrow> held s g q \<longrightarrow> held s1 g q" "capacity s1 = capacity s" "life s \<le> Suc (life s1)" "frontier s1 = frontier s"
    by auto
  have pp: "0 < pin_of s1 p" using s1(3) pin_nonneg [OF assms(1), of p] by simp
  note w = put [OF s1(1,2) pp, of x]
  have "ok (insert p W) (put s1 h x)" "0 < pin_of (put s1 h x) p" using w pp by auto
  from unpin [OF this, of True] obtain s2 where
    "unpin (put s1 h x) p True = (True, s2)" "ok (insert p W - {p}) s2"
    "pin_of s2 = (pin_of s1)(p := pin_of s1 p - 1)" "present s2 = present s1" "view s2 = (view s1)(p := x)"
    "held s2 = held s1" "capacity s2 = capacity s1" "life s2 = life s1" "frontier s2 = frontier s1"
    using w by auto
  then show ?thesis using s1 assms(2) read [OF s1(2)] by (auto simp: insert_Diff_if)
qed

text \<open>A client allocates a page, fills it and unpins it dirty.\<close>

lemma create:
  assumes "ok W s" "new_page s = Inr (Some (p, h), s1)"
  shows "p \<notin> W \<and> 0 \<le> p \<and> \<not> present s p \<and> (\<exists>s2. unpin (put s1 h x) p True = (True, s2) \<and> ok W s2 \<and>
    pin_of s2 = pin_of s \<and> view s2 p = x \<and> present s2 p \<and>
    (\<forall>q. present s q \<longrightarrow> present s2 q \<and> view s2 q = view s q) \<and>
    (\<forall>g q. 0 < pin_of s q \<longrightarrow> held s g q \<longrightarrow> held s2 g q) \<and> capacity s2 = capacity s \<and> life s \<le> Suc (life s2) \<and> p = frontier s \<and> frontier s2 = p + 1)"
proof -
  from new_page [OF assms(1)] assms(2) have s1: "0 \<le> p" "\<not> present s p" "pin_of s p = 0" "ok (insert p W) s1"
    "held s1 h p" "present s1 p" "pin_of s1 = (pin_of s)(p := 1)"
    "\<forall>q. present s q \<longrightarrow> present s1 q \<and> view s1 q = view s q"
    "\<forall>g q. 0 < pin_of s q \<longrightarrow> held s g q \<longrightarrow> held s1 g q" "capacity s1 = capacity s" "life s \<le> Suc (life s1)" "p = frontier s" "frontier s1 = p + 1"
    by auto
  have pW: "p \<notin> W" using ok_pinned [OF assms(1), of p] s1(3) by auto
  have pp: "0 < pin_of s1 p" using s1(7) by simp
  note w = put [OF s1(4,5) pp, of x]
  have "ok (insert p W) (put s1 h x)" "0 < pin_of (put s1 h x) p" using w pp by auto
  from unpin [OF this, of True] obtain s2 where
    "unpin (put s1 h x) p True = (True, s2)" "ok (insert p W - {p}) s2"
    "pin_of s2 = (pin_of s1)(p := pin_of s1 p - 1)" "present s2 = present s1" "view s2 = (view s1)(p := x)"
    "held s2 = held s1" "capacity s2 = capacity s1" "life s2 = life s1" "frontier s2 = frontier s1"
    using w by auto
  then show ?thesis using s1 pW by (auto simp: fun_upd_idem)
qed

end

section \<open>The buffer pool keeps the contract\<close>

definition pool_ok :: "page_id set \<Rightarrow> 'd::zero bpm \<Rightarrow> bool" where
  "pool_ok W b \<longleftrightarrow> bpm_inv b \<and> coherent W b"

definition holds :: "'d bpm \<Rightarrow> frame_id \<Rightarrow> page_id \<Rightarrow> bool" where
  "holds b f p \<longleftrightarrow> cached b p = Some f"

definition pool_life :: "'d bpm \<Rightarrow> nat" where
  "pool_life b = SIZE_MAX + 1 - current_timestamp (bp_replacer b)"

lemma keepsD:
  assumes "keeps X b b'" "q \<notin> X"
  shows "stored b q \<Longrightarrow> stored b' q" "stored b q \<Longrightarrow> page_view b' q = page_view b q" "pins b' q = pins b q"
    "0 < pins b q \<Longrightarrow> cached b' q = cached b q"
  using assms by (auto simp: keeps_def)

lemma pin_frame_ts:
  "pin_frame b f = Inr b' \<Longrightarrow> current_timestamp (bp_replacer b') = Suc (current_timestamp (bp_replacer b))"
  by (auto simp: pin_frame_def RecordAccess_def Let_def split: if_splits list.splits)

lemma Evict_ts: "Evict r = Inr (v, r') \<Longrightarrow> current_timestamp r' = current_timestamp r"
  by (auto simp: Evict_def split: if_splits)

lemma take_frame_ts:
  assumes "take_frame b = Inr (fo, b')"
  shows "current_timestamp (bp_replacer b') = current_timestamp (bp_replacer b)"
proof (cases "free_list b")
  case (Cons f fs)
  then show ?thesis using assms by (auto simp: take_frame_def)
next
  case Nil
  then obtain v r where v: "Evict (bp_replacer b) = Inr (v, r)"
    using assms by (cases "Evict (bp_replacer b)") (auto simp: take_frame_def)
  have "bp_replacer b' = r"
    using assms Nil v by (cases v) (auto simp: take_frame_def Let_def split: if_splits)
  then show ?thesis using Evict_ts [OF v] by simp
qed

lemma FetchPage_ts:
  assumes "FetchPage b p = Inr (Some f, b')"
  shows "current_timestamp (bp_replacer b') = Suc (current_timestamp (bp_replacer b))"
proof (cases "cached b p")
  case (Some g)
  then obtain b1 where "pin_frame (set_frame b g ((frame b g)\<lparr>pin_count := pin_count (frame b g) + 1\<rparr>)) g = Inr b1"
      "b' = b1"
    using assms by (auto simp: FetchPage_def)
  then show ?thesis using pin_frame_ts by fastforce
next
  case None
  with assms obtain g b1 b2 where "take_frame b = Inr (Some g, b1)" "pin_frame b2 g = Inr b'"
      "bp_replacer b2 = bp_replacer b1"
    by (auto simp: FetchPage_def Let_def case_prod_beta split: option.splits)
  then show ?thesis using pin_frame_ts take_frame_ts by metis
qed

lemma NewPage_ts:
  "NewPage b = Inr (Some pf, b') \<Longrightarrow> current_timestamp (bp_replacer b') = Suc (current_timestamp (bp_replacer b))"
  by (auto simp: NewPage_def Let_def case_prod_beta split: option.splits dest!: pin_frame_ts take_frame_ts)

lemma take_frame_alive:
  assumes inv: "bpm_inv b" and full: "free_list b = []" "Evict (bp_replacer b) = Inr (None, bp_replacer b)"
    and life: "0 < pool_life b"
  shows "pool_size b \<le> card {q. 0 < pins b q}"
proof -
  have ts: "current_timestamp (bp_replacer b) \<le> SIZE_MAX" using life by (simp add: pool_life_def)
  have sub: "{q. 0 < pins b q} \<subseteq> dom (cached b)" by (auto simp: pins_def split: option.splits)
  have "finite (dom (cached b))" by (simp add: cached_def finite_dom_map_of del: map_of_page_table)
  then have fin: "finite {q. 0 < pins b q}" using sub finite_subset by blast
  have "{0..<int (pool_size b)} \<subseteq> (\<lambda>p. the (cached b p)) ` {q. 0 < pins b q}"
  proof
    fix f assume "f \<in> {0..<int (pool_size b)}"
    then obtain p where "cached b p = Some f" "0 < pins b p" using full_pinned [OF inv full ts, of f] by auto
    then show "f \<in> (\<lambda>p. the (cached b p)) ` {q. 0 < pins b q}" by (auto intro!: image_eqI [of _ _ p])
  qed
  from card_mono [OF finite_imageI [OF fin] this] card_image_le [OF fin, of "\<lambda>p. the (cached b p)"]
  show ?thesis by simp
qed

interpretation pool: page_store "FetchPage :: 'd::zero bpm \<Rightarrow> _" NewPage UnpinPage DeletePage page_read page_write
  page_view stored pins holds pool_ok pool_size pool_life "\<lambda>b. next_page_id (disk_manager b)"
proof unfold_locales
  fix W p and s :: "'d bpm" assume ok: "pool_ok W s" and st: "stored s p"
  then have inv: "bpm_inv s" "coherent W s" by (auto simp: pool_ok_def)
  from FetchPage_ok [OF this st]
  show "FetchPage s p = Inr (None, s) \<or>
      (\<exists>h s'. FetchPage s p = Inr (Some h, s') \<and> pool_ok W s' \<and> holds s' h p \<and>
         pins s' = (pins s)(p := pins s p + 1) \<and>
         (\<forall>q. stored s q \<longrightarrow> stored s' q \<and> page_view s' q = page_view s q) \<and>
         (\<forall>g q. 0 < pins s q \<longrightarrow> holds s g q \<longrightarrow> holds s' g q) \<and>
         pool_size s' = pool_size s \<and> pool_life s \<le> Suc (pool_life s') \<and> next_page_id (disk_manager s') = next_page_id (disk_manager s))"
  proof (elim disjE exE conjE)
    fix f b' assume b': "FetchPage s p = Inr (Some f, b')" "bpm_inv b'" "coherent W b'" "keeps {p} s b'" "stored b' p"
      "page_view b' p = page_view s p" "pins b' p = pins s p + 1" "cached b' p = Some f"
      "next_page_id (disk_manager b') = next_page_id (disk_manager s)"
    have "0 < pins s p \<Longrightarrow> cached s p = Some g \<Longrightarrow> g = f" for g
      using b'(1) by (auto simp: FetchPage_def)
    then have "0 < pins s q \<Longrightarrow> holds s g q \<Longrightarrow> holds b' g q" for g q
      using keepsD(4) [OF b'(4), of q] b'(8) by (cases "q = p") (auto simp: holds_def)
    moreover have "pins b' = (pins s)(p := pins s p + 1)"
      using keepsD(3) [OF b'(4)] b'(7) by (auto simp: fun_eq_iff)
    moreover have "stored s q \<Longrightarrow> stored b' q \<and> page_view b' q = page_view s q" for q
      using keepsD(1,2) [OF b'(4), of q] b'(5,6) by (cases "q = p") auto
    moreover have "pool_life s \<le> Suc (pool_life b')" using FetchPage_ts [OF b'(1)] by (simp add: pool_life_def)
    moreover have "pool_size b' = pool_size s" using b'(4) by (simp add: keeps_def)
    ultimately show ?thesis using b' by (intro disjI2 exI [of _ f] exI [of _ b']) (simp add: pool_ok_def holds_def)
  qed simp
next
  fix W p and s :: "'d bpm" assume ok: "pool_ok W s" and st: "stored s p" and life: "0 < pool_life s"
    and av: "0 < pins s p \<or> card {q. 0 < pins s q} < pool_size s"
  then have inv: "bpm_inv s" "coherent W s" by (auto simp: pool_ok_def)
  show "FetchPage s p \<noteq> Inr (None, s)"
    using FetchPage_ok [OF inv st] take_frame_alive [OF inv(1) _ _ life] av by (auto simp: pins_def)
next
  fix W and s :: "'d bpm" assume ok: "pool_ok W s"
  then have inv: "bpm_inv s" "coherent W s" by (auto simp: pool_ok_def)
  from NewPage_ok [OF this] show "NewPage s = Inr (None, s) \<or>
      (\<exists>p h s'. NewPage s = Inr (Some (p, h), s') \<and> 0 \<le> p \<and> \<not> stored s p \<and> pins s p = 0 \<and>
         pool_ok (insert p W) s' \<and> holds s' h p \<and> stored s' p \<and> page_view s' p = 0 \<and>
         pins s' = (pins s)(p := 1) \<and>
         (\<forall>q. stored s q \<longrightarrow> stored s' q \<and> page_view s' q = page_view s q) \<and>
         (\<forall>g q. 0 < pins s q \<longrightarrow> holds s g q \<longrightarrow> holds s' g q) \<and>
         pool_size s' = pool_size s \<and> pool_life s \<le> Suc (pool_life s') \<and>
         p = next_page_id (disk_manager s) \<and> next_page_id (disk_manager s') = p + 1)"
  proof (elim disjE exE conjE)
    fix p f b' assume b': "NewPage s = Inr (Some (p, f), b')" "bpm_inv b'" "coherent (insert p W) b'" "keeps {p} s b'"
      "\<not> stored s p" "stored b' p" "page_view b' p = 0" "cached b' p = Some f"
      "frame b' f = \<lparr>pg_data = 0, pg_id = p, pin_count = 1, is_dirty = False\<rparr>"
      "p = next_page_id (disk_manager s)" "next_page_id (disk_manager b') = p + 1"
    have un: "cached s p = None" using b'(5) by (simp add: stored_def)
    then have z: "pins s p = 0" by (simp add: pins_def)
    have "0 < pins s q \<Longrightarrow> holds s g q \<Longrightarrow> holds b' g q" for g q
      using keepsD(4) [OF b'(4), of q] z by (cases "q = p") (auto simp: holds_def)
    moreover have "pins b' = (pins s)(p := 1)"
      using keepsD(3) [OF b'(4)] b'(8,9) by (auto simp: fun_eq_iff pins_def)
    moreover have "stored s q \<Longrightarrow> stored b' q \<and> page_view b' q = page_view s q" for q
      using keepsD(1,2) [OF b'(4), of q] b'(5) by (cases "q = p") auto
    moreover have "pool_life s \<le> Suc (pool_life b')" using NewPage_ts [OF b'(1)] by (simp add: pool_life_def)
    moreover have "pool_size b' = pool_size s" using b'(4) by (simp add: keeps_def)
    moreover have "0 \<le> p" using bpm_inv_cached [OF b'(2,8)] by (simp add: frame_ok_def)
    ultimately show ?thesis
      using b' z by (intro disjI2 exI [of _ p] exI [of _ f] exI [of _ b']) (simp add: pool_ok_def holds_def)
  qed simp
next
  fix W and s :: "'d bpm" assume ok: "pool_ok W s" and life: "0 < pool_life s" and av: "card {q. 0 < pins s q} < pool_size s"
  then have inv: "bpm_inv s" "coherent W s" by (auto simp: pool_ok_def)
  show "NewPage s \<noteq> Inr (None, s)"
    using NewPage_ok [OF inv] take_frame_alive [OF inv(1) _ _ life] av by auto
next
  fix W p d and s :: "'d bpm" assume ok: "pool_ok W s" "0 < pins s p" "d \<or> p \<notin> W"
  then have inv: "bpm_inv s" "coherent W s" by (auto simp: pool_ok_def)
  from UnpinPage_ok [OF inv ok(2,3)]
  show "\<exists>s'. UnpinPage s p d = (True, s') \<and> pool_ok (W - {p}) s' \<and> pins s' = (pins s)(p := pins s p - 1) \<and>
        stored s' = stored s \<and> page_view s' = page_view s \<and> holds s' = holds s \<and> pool_size s' = pool_size s \<and>
        pool_life s' = pool_life s \<and> next_page_id (disk_manager s') = next_page_id (disk_manager s)"
  proof (elim exE conjE)
    fix b' assume b': "UnpinPage s p d = (True, b')" "bpm_inv b'" "coherent (W - {p}) b'" "pins b' = (pins s)(p := pins s p - 1)"
      "stored b' = stored s" "page_view b' = page_view s" "pool_size b' = pool_size s"
      "disk_manager b' = disk_manager s"
    have "cached b' = cached s" "pool_life b' = pool_life s"
      using b'(1) by (auto simp: UnpinPage_def Let_def pool_life_def split: option.splits if_splits)
    then show ?thesis using b' by (intro exI [of _ b']) (simp add: pool_ok_def holds_def fun_eq_iff)
  qed
next
  fix W h p x and s :: "'d bpm" assume ok: "pool_ok W s" "holds s h p" "0 < pins s p"
  then have inv: "bpm_inv s" "coherent W s" "cached s p = Some h" by (auto simp: pool_ok_def holds_def)
  from page_write_ok [OF this ok(3), of x]
  show "pool_ok (insert p W) (page_write s h x) \<and> page_view (page_write s h x) = (page_view s)(p := x) \<and>
      pins (page_write s h x) = pins s \<and> stored (page_write s h x) = stored s \<and>
      holds (page_write s h x) = holds s \<and> pool_size (page_write s h x) = pool_size s \<and>
      pool_life (page_write s h x) = pool_life s \<and>
      next_page_id (disk_manager (page_write s h x)) = next_page_id (disk_manager s)"
    by (auto simp: pool_ok_def holds_def fun_eq_iff pool_life_def page_write_def)
next
  fix h p and s :: "'d bpm" assume "holds s h p"
  then show "page_read s h = page_view s p" by (simp add: page_read_def page_view_def holds_def)
next
  fix W p and s :: "'d bpm" assume ok: "pool_ok W s" "pins s p = 0"
  then have inv: "bpm_inv s" "coherent W s" by (auto simp: pool_ok_def)
  show "\<exists>s'. DeletePage s p = Inr (True, s') \<and> pool_ok W s' \<and> pins s' = pins s \<and>
        (\<forall>q. q \<noteq> p \<longrightarrow> stored s q \<longrightarrow> stored s' q \<and> page_view s' q = page_view s q) \<and>
        (\<forall>g q. 0 < pins s q \<longrightarrow> holds s g q \<longrightarrow> holds s' g q) \<and> pool_size s' = pool_size s \<and>
        pool_life s' = pool_life s \<and> next_page_id (disk_manager s') = next_page_id (disk_manager s)"
  proof (cases "cached s p")
    case None
    then show ?thesis using DeletePage_uncached [OF None] ok by auto
  next
    case (Some f)
    from DeletePage_cached [OF inv Some ok(2)] obtain b' where b': "DeletePage s p = Inr (True, b')" "bpm_inv b'"
      "coherent W b'" "keeps {p} s b'" "pins b' p = 0"
      "disk_manager b' = disk_manager s" by blast
    have "pins b' = pins s" using keepsD(3) [OF b'(4)] b'(5) ok(2) by (intro ext) (metis singletonD)
    moreover have "0 < pins s q \<Longrightarrow> holds s g q \<Longrightarrow> holds b' g q" for g q
      using keepsD(4) [OF b'(4), of q] ok(2) by (cases "q = p") (auto simp: holds_def)
    moreover have "pool_life b' = pool_life s"
      using b'(1) by (auto simp: DeletePage_def Let_def pool_life_def Replacer_Remove_def split: option.splits if_splits)
    ultimately show ?thesis
      using b' keepsD(1,2) [OF b'(4)] by (intro exI [of _ b']) (simp add: pool_ok_def keeps_def)
  qed
next
  fix W p and s :: "'d bpm" assume "pool_ok W s"
  then show "0 \<le> pins s p" by (auto simp: pool_ok_def intro: pins_nonneg)
next
  fix W p and s :: "'d bpm" assume "pool_ok W s" "stored s p"
  then show "0 \<le> p" 
    using bpm_inv_cached [of "{}" s p] by (auto simp: pool_ok_def stored_def frame_ok_def on_disk_def)
next
  fix W p and s :: "'d bpm" assume "pool_ok W s" "p \<in> W"
  then show "0 < pins s p" by (auto simp: pool_ok_def coherent_def)
qed

section \<open>The pool as an abstract state\<close>

text \<open>
  What the proofs of the clients track: \<open>pool_at W P V S L F b\<close> says that the pool \<open>b\<close> keeps its
  invariant with the pages \<open>W\<close> in modification, its pin counts are \<open>P\<close>, every page of \<open>S\<close> exists with
  the content \<open>V\<close>, at least \<open>L\<close> accesses are left, and the next new page is \<open>F\<close>.
\<close>

definition pool_at :: "page_id set \<Rightarrow> (page_id \<Rightarrow> int) \<Rightarrow> (page_id \<Rightarrow> 'd) \<Rightarrow> page_id set \<Rightarrow> nat \<Rightarrow> page_id \<Rightarrow>
    'd::zero bpm \<Rightarrow> bool" where
  "pool_at W P V S L F b \<longleftrightarrow> pool_ok W b \<and> pins b = P \<and> (\<forall>p \<in> S. stored b p \<and> page_view b p = V p) \<and>
     L \<le> pool_life b \<and> next_page_id (disk_manager b) = F"

lemma pool_at_nonneg: "pool_at W P V S L F b \<Longrightarrow> 0 \<le> P p"
  unfolding pool_at_def using pool.pin_nonneg by blast

lemma pool_at_page: "pool_at W P V S L F b \<Longrightarrow> p \<in> S \<Longrightarrow> 0 \<le> p"
  unfolding pool_at_def using pool.present_nonneg by blast

lemma pool_at_view: "pool_at W P V S L F b \<Longrightarrow> p \<in> S \<Longrightarrow> page_view b p = V p"
  by (simp add: pool_at_def)

lemma pool_at_read: "pool_at W P V S L F b \<Longrightarrow> p \<in> S \<Longrightarrow> holds b f p \<Longrightarrow> page_read b f = V p"
  by (simp add: pool_at_def pool.read)

lemma pool_at_weaken:
  "pool_at W P V S L F b \<Longrightarrow> S' \<subseteq> S \<Longrightarrow> L' \<le> L \<Longrightarrow> (\<And>p. p \<in> S' \<Longrightarrow> V' p = V p) \<Longrightarrow> pool_at W P V' S' L' F b"
  by (auto simp: pool_at_def)

lemma pool_at_start:
  "pool_ok W b \<Longrightarrow> pool_at W (pins b) (page_view b) {p. stored b p} (pool_life b) (next_page_id (disk_manager b)) b"
  by (simp add: pool_at_def)

lemma fetch_at:
  assumes "pool_at W P V S L F b" "p \<in> S"
  shows "FetchPage b p = Inr (None, b) \<and>
      (0 < L \<longrightarrow> \<not> 0 < P p \<and> pool_size b \<le> card {q. 0 < P q}) \<or>
    (\<exists>f b1. FetchPage b p = Inr (Some f, b1) \<and> pool_at W (P(p := P p + 1)) V S (L - 1) F b1 \<and> holds b1 f p \<and>
       (\<forall>g q. 0 < P q \<longrightarrow> holds b g q \<longrightarrow> holds b1 g q) \<and> pool_size b1 = pool_size b)"
proof -
  from assms have a: "pool_ok W b" "stored b p" "pins b = P" "L \<le> pool_life b"
      "\<forall>p\<in>S. stored b p \<and> page_view b p = V p" "next_page_id (disk_manager b) = F"
    by (auto simp: pool_at_def)
  from pool.fetch [OF a(1,2)] show ?thesis
  proof (elim disjE exE conjE)
    assume n: "FetchPage b p = Inr (None, b)"
    have "0 < L \<longrightarrow> \<not> (0 < P p \<or> card {q. 0 < P q} < pool_size b)"
      using pool.fetch_alive [OF a(1,2)] n a(3,4) by auto
    then show ?thesis using n by auto
  next
    fix f b1
    assume f: "FetchPage b p = Inr (Some f, b1)" "pool_ok W b1" "holds b1 f p" "pins b1 = (pins b)(p := pins b p + 1)"
      "\<forall>q. stored b q \<longrightarrow> stored b1 q \<and> page_view b1 q = page_view b q"
      "\<forall>g q. 0 < pins b q \<longrightarrow> holds b g q \<longrightarrow> holds b1 g q" "pool_size b1 = pool_size b"
      "pool_life b \<le> Suc (pool_life b1)" "next_page_id (disk_manager b1) = next_page_id (disk_manager b)"
    then have "pool_at W (P(p := P p + 1)) V S (L - 1) F b1" using a by (simp add: pool_at_def)
    then show ?thesis using f a(3) by auto
  qed
qed

lemma new_at:
  assumes "pool_at W P V S L F b"
  shows "NewPage b = Inr (None, b) \<and> (0 < L \<longrightarrow> pool_size b \<le> card {q. 0 < P q}) \<or>
    (\<exists>f b1. NewPage b = Inr (Some (F, f), b1) \<and>
       pool_at (insert F W) (P(F := 1)) (V(F := 0)) (insert F S) (L - 1) (F + 1) b1 \<and> holds b1 f F \<and>
       F \<notin> S \<and> F \<notin> W \<and> 0 \<le> F \<and> P F = 0 \<and>
       (\<forall>g q. 0 < P q \<longrightarrow> holds b g q \<longrightarrow> holds b1 g q) \<and> pool_size b1 = pool_size b)"
proof -
  from assms have a: "pool_ok W b" "pins b = P" "L \<le> pool_life b"
      "\<forall>p\<in>S. stored b p \<and> page_view b p = V p" "next_page_id (disk_manager b) = F"
    by (auto simp: pool_at_def)
  from pool.new_page [OF a(1)] show ?thesis
  proof (elim disjE exE conjE)
    assume n: "NewPage b = Inr (None, b)"
    have "0 < L \<longrightarrow> \<not> card {q. 0 < P q} < pool_size b"
      using pool.new_alive [OF a(1)] n a(2,3) by auto
    then show ?thesis using n by auto
  next
    fix p f b1
    assume f: "NewPage b = Inr (Some (p, f), b1)" "0 \<le> p" "\<not> stored b p" "pins b p = 0" "pool_ok (insert p W) b1"
      "holds b1 f p" "stored b1 p" "page_view b1 p = 0" "pins b1 = (pins b)(p := 1)"
      "\<forall>q. stored b q \<longrightarrow> stored b1 q \<and> page_view b1 q = page_view b q"
      "\<forall>g q. 0 < pins b q \<longrightarrow> holds b g q \<longrightarrow> holds b1 g q" "pool_size b1 = pool_size b"
      "pool_life b \<le> Suc (pool_life b1)" "p = next_page_id (disk_manager b)" "next_page_id (disk_manager b1) = p + 1"
    have pF: "p = F" using f(14) a(5) by simp
    have "F \<notin> S" "F \<notin> W" using f(3,4) a pool.ok_pinned [OF a(1), of F] by (auto simp: pF)
    moreover have "pool_at (insert F W) (P(F := 1)) (V(F := 0)) (insert F S) (L - 1) (F + 1) b1"
      using f a \<open>F \<notin> S\<close> by (auto simp: pool_at_def pF)
    ultimately show ?thesis using f a(2) by (auto simp: pF)
  qed
qed

lemma unpin_at:
  assumes "pool_at W P V S L F b" "0 < P p" "d \<or> p \<notin> W"
  shows "\<exists>b1. UnpinPage b p d = (True, b1) \<and> pool_at (W - {p}) (P(p := P p - 1)) V S L F b1 \<and>
    holds b1 = holds b \<and> pool_size b1 = pool_size b"
proof -
  from assms have a: "pool_ok W b" "pins b = P" by (auto simp: pool_at_def)
  from pool.unpin [OF a(1) _ assms(3)] a(2) assms(2)
  obtain b1 where b1: "UnpinPage b p d = (True, b1)" "pool_ok (W - {p}) b1" "pins b1 = (pins b)(p := pins b p - 1)"
    "stored b1 = stored b" "page_view b1 = page_view b" "holds b1 = holds b" "pool_size b1 = pool_size b"
    "pool_life b1 = pool_life b" "next_page_id (disk_manager b1) = next_page_id (disk_manager b)"
    by auto
  then have "pool_at (W - {p}) (P(p := P p - 1)) V S L F b1" using assms(1) a(2) by (simp add: pool_at_def)
  with b1 show ?thesis by blast
qed

lemma write_at:
  assumes "pool_at W P V S L F b" "holds b f p" "0 < P p" "p \<in> S"
  shows "pool_at (insert p W) P (V(p := x)) S L F (page_write b f x) \<and>
    holds (page_write b f x) = holds b \<and> pool_size (page_write b f x) = pool_size b"
proof -
  from assms have a: "pool_ok W b" "pins b = P" by (auto simp: pool_at_def)
  from pool.put [OF a(1) assms(2), of x] a(2) assms(3)
  have b1: "pool_ok (insert p W) (page_write b f x)" "page_view (page_write b f x) = (page_view b)(p := x)"
      "pins (page_write b f x) = pins b" "stored (page_write b f x) = stored b"
      "holds (page_write b f x) = holds b" "pool_size (page_write b f x) = pool_size b"
      "pool_life (page_write b f x) = pool_life b"
      "next_page_id (disk_manager (page_write b f x)) = next_page_id (disk_manager b)"
    by auto
  have "pool_at (insert p W) P (V(p := x)) S L F (page_write b f x)"
    using assms(1) by (auto simp: pool_at_def b1)
  with b1 show ?thesis by blast
qed

lemma drop_at:
  assumes "pool_at W P V S L F b" "P p = 0"
  shows "\<exists>b1. DeletePage b p = Inr (True, b1) \<and> pool_at W P V (S - {p}) L F b1 \<and>
    (\<forall>g q. 0 < P q \<longrightarrow> holds b g q \<longrightarrow> holds b1 g q) \<and> pool_size b1 = pool_size b"
proof -
  from assms have a: "pool_ok W b" "pins b = P" by (auto simp: pool_at_def)
  from pool.drop_page [OF a(1), of p] a(2) assms(2)
  obtain b1 where b1: "DeletePage b p = Inr (True, b1)" "pool_ok W b1" "pins b1 = pins b"
    "\<forall>q. q \<noteq> p \<longrightarrow> stored b q \<longrightarrow> stored b1 q \<and> page_view b1 q = page_view b q"
    "\<forall>g q. 0 < pins b q \<longrightarrow> holds b g q \<longrightarrow> holds b1 g q" "pool_size b1 = pool_size b"
    "pool_life b1 = pool_life b" "next_page_id (disk_manager b1) = next_page_id (disk_manager b)"
    by auto
  then have "pool_at W P V (S - {p}) L F b1" using assms(1) by (auto simp: pool_at_def)
  with b1 a(2) show ?thesis by auto
qed

lemma card_pin:
  assumes "0 \<le> P (p :: page_id)"
  shows "card {q. 0 < (P(p := P p + (1::int))) q} \<le> card {q. 0 < P q} + 1"
proof (cases "finite {q. 0 < P q}")
  case True
  define A where "A = {q. 0 < P q}"
  have "{q. 0 < (P(p := P p + 1)) q} \<subseteq> insert p A" by (auto simp: A_def)
  then have "card {q. 0 < (P(p := P p + 1)) q} \<le> card (insert p A)" using True by (intro card_mono) (auto simp: A_def)
  also have "\<dots> \<le> card A + 1" using True by (simp add: card_insert_if A_def [symmetric])
  finally show ?thesis by (simp add: A_def)
next
  case False
  have "{q. 0 < P q} \<subseteq> {q. 0 < (P(p := P p + 1)) q}" using assms by auto
  then have "infinite {q. 0 < (P(p := P p + 1)) q}" using False finite_subset by blast
  then show ?thesis by simp
qed

text \<open>The pattern of a look at one page.\<close>

lemma pin_unpin: "(P(p := P p + 1))(p := (P(p := P p + (1::int))) p - 1) = P"
  by auto

lemma visit_at:
  assumes at: "pool_at W P V S L F b" "p \<in> S" "p \<notin> W" and f: "FetchPage b p = Inr (Some f, b1)"
  shows "page_read b1 f = V p \<and> (\<exists>b2. UnpinPage b1 p False = (True, b2) \<and> pool_at W P V S (L - 1) F b2 \<and>
    pool_size b2 = pool_size b)"
proof -
  from fetch_at [OF at(1,2)] f have 1: "pool_at W (P(p := P p + 1)) V S (L - 1) F b1" "holds b1 f p" "pool_size b1 = pool_size b"
    by auto
  have "0 < (P(p := P p + 1)) p" using pool_at_nonneg [OF at(1), of p] by simp
  from unpin_at [OF 1(1) this, of False, unfolded pin_unpin] at(3) obtain b2 where
    "UnpinPage b1 p False = (True, b2)" "pool_at W P V S (L - 1) F b2" "pool_size b2 = pool_size b1"
    by (auto simp del: fun_upd_apply)
  then show ?thesis using 1 pool_at_read [OF 1(1) at(2) 1(2)] by auto
qed

text \<open>The pattern of changing one page.\<close>

lemma change_at:
  assumes at: "pool_at W P V S L F b" "p \<in> S" and f: "FetchPage b p = Inr (Some f, b1)"
  shows "page_read b1 f = V p \<and> (\<exists>b2. UnpinPage (page_write b1 f x) p True = (True, b2) \<and>
    pool_at (W - {p}) P (V(p := x)) S (L - 1) F b2 \<and> pool_size b2 = pool_size b)"
proof -
  from fetch_at [OF at(1,2)] f have 1: "pool_at W (P(p := P p + 1)) V S (L - 1) F b1" "holds b1 f p" "pool_size b1 = pool_size b"
    by auto
  have pp: "0 < (P(p := P p + 1)) p" using pool_at_nonneg [OF at(1), of p] by simp
  note w = write_at [OF 1(1,2) pp at(2), of x]
  from unpin_at [OF conjunct1 [OF w] pp, of True, unfolded pin_unpin] obtain b2 where
    "UnpinPage (page_write b1 f x) p True = (True, b2)" "pool_at (W - {p}) P (V(p := x)) S (L - 1) F b2"
    "pool_size b2 = pool_size (page_write b1 f x)"
    by (auto simp: insert_Diff_if)
  then show ?thesis using 1 w pool_at_read [OF 1(1) at(2) 1(2)] by auto
qed

end
