(* ===== verification/Table_Page.thy ===== *)
theory Table_Page
  imports OneBase_Prelude
begin

text \<open>
  The slotted page of a table: \<^verbatim>\<open>storage/page/table_page.h\<close> and \<^verbatim>\<open>storage/page/table_page.cpp\<close>.
  A page is its bytes, an address being an offset into \<^verbatim>\<open>data_\<close>; the integers in it are little
  endian. The header holds the next page (offset 0), the number of slots (4) and the free space
  pointer (8); slot \<open>i\<close> is at \<open>16 + 4 * i\<close> and holds the offset and the length of a tuple as 16-bit
  numbers; the tuples grow downwards from the end. An access outside the page is undefined behaviour.
  The lemmas refine the byte operations to a map from slots to byte strings (\<open>tuple_at\<close>).
\<close>

section \<open>Bytes\<close>

datatype table_data = TD (byte_at: "nat \<Rightarrow> byte")

instantiation table_data :: zero
begin

definition zero_table_data :: table_data where
  "zero_table_data = TD (\<lambda>_. 0)"

instance ..

end

definition get16 :: "table_data \<Rightarrow> nat \<Rightarrow> 16 word" where
  "get16 d a = word_cat (byte_at d (a + 1)) (byte_at d a)"

definition put16 :: "table_data \<Rightarrow> nat \<Rightarrow> 16 word \<Rightarrow> table_data" where
  "put16 d a w = TD ((byte_at d)(a := ucast w, a + 1 := ucast (drop_bit 8 w)))"

definition get32 :: "table_data \<Rightarrow> nat \<Rightarrow> 32 word" where
  "get32 d a = word_cat (get16 d (a + 2)) (get16 d a)"

definition put32 :: "table_data \<Rightarrow> nat \<Rightarrow> 32 word \<Rightarrow> table_data" where
  "put32 d a w = put16 (put16 d a (ucast w)) (a + 2) (ucast (drop_bit 16 w))"

definition get_bytes :: "table_data \<Rightarrow> nat \<Rightarrow> nat \<Rightarrow> byte list" where
  "get_bytes d a n = map (byte_at d) [a..<a + n]"

definition put_bytes :: "table_data \<Rightarrow> nat \<Rightarrow> byte list \<Rightarrow> table_data" where
  "put_bytes d a bs = TD (\<lambda>i. if a \<le> i \<and> i < a + length bs then bs ! (i - a) else byte_at d i)"

lemma cat16 [simp]: "word_cat (ucast (drop_bit 8 w) :: 8 word) (ucast w :: 8 word) = (w :: 16 word)"
  by (rule bit_word_eqI) (auto simp: bit_word_cat_iff bit_ucast_iff bit_drop_bit_eq)

lemma cat32 [simp]: "word_cat (ucast (drop_bit 16 w) :: 16 word) (ucast w :: 16 word) = (w :: 32 word)"
  by (rule bit_word_eqI) (auto simp: bit_word_cat_iff bit_ucast_iff bit_drop_bit_eq)

lemma get16_put16 [simp]: "get16 (put16 d a w) a = w"
  by (simp add: get16_def put16_def)

lemma byte_at_put16: "byte_at (put16 d a w) i = (if i = a then ucast w else if i = a + 1 then ucast (drop_bit 8 w) else byte_at d i)"
  by (simp add: put16_def)

lemma get32_put32 [simp]: "get32 (put32 d a w) a = w"
proof -
  have "get16 (put32 d a w) (a + 2) = ucast (drop_bit 16 w)" "get16 (put32 d a w) a = ucast w"
    by (simp_all add: put32_def) (simp add: get16_def byte_at_put16)
  then show ?thesis by (simp add: get32_def)
qed

text \<open>Framing: an access sees only its own bytes.\<close>

definition same_bytes :: "nat \<Rightarrow> nat \<Rightarrow> table_data \<Rightarrow> table_data \<Rightarrow> bool" where
  "same_bytes a n d d' \<longleftrightarrow> (\<forall>i. a \<le> i \<longrightarrow> i < a + n \<longrightarrow> byte_at d' i = byte_at d i)"

lemma same_bytes_put16 [simp]: "a + n \<le> b \<or> b + 2 \<le> a \<Longrightarrow> same_bytes a n d (put16 d b w)"
  by (auto simp: same_bytes_def byte_at_put16)

lemma same_bytes_put32 [simp]: "a + n \<le> b \<or> b + 4 \<le> a \<Longrightarrow> same_bytes a n d (put32 d b w)"
  by (auto simp: same_bytes_def byte_at_put16 put32_def)

lemma same_bytes_put_bytes [simp]: "a + n \<le> b \<or> b + length bs \<le> a \<Longrightarrow> same_bytes a n d (put_bytes d b bs)"
  by (auto simp: same_bytes_def put_bytes_def)

lemma same_get16: "same_bytes a 2 d d' \<Longrightarrow> get16 d' a = get16 d a"
  by (simp add: get16_def same_bytes_def)

lemma same_get32: "same_bytes a 4 d d' \<Longrightarrow> get32 d' a = get32 d a"
  by (simp add: get32_def get16_def same_bytes_def)

lemma same_get_bytes: "same_bytes a n d d' \<Longrightarrow> get_bytes d' a n = get_bytes d a n"
  by (simp add: get_bytes_def same_bytes_def)

lemmas get_other [simp] = same_get16 [OF same_bytes_put16] same_get16 [OF same_bytes_put32]
  same_get16 [OF same_bytes_put_bytes] same_get32 [OF same_bytes_put16] same_get32 [OF same_bytes_put32]
  same_get32 [OF same_bytes_put_bytes] same_get_bytes [OF same_bytes_put16]
  same_get_bytes [OF same_bytes_put32] same_get_bytes [OF same_bytes_put_bytes]

lemma get_bytes_put_bytes [simp]: "n = length bs \<Longrightarrow> get_bytes (put_bytes d a bs) a n = bs"
  by (auto simp: get_bytes_def put_bytes_def intro!: nth_equalityI)

lemma length_get_bytes [simp]: "length (get_bytes d a n) = n"
  by (simp add: get_bytes_def)

section \<open>The page operations\<close>

definition SIZE_TABLE_PAGE_HEADER :: nat where
  "SIZE_TABLE_PAGE_HEADER = 16"

definition SIZE_TUPLE_SLOT :: nat where
  "SIZE_TUPLE_SLOT = 4"

text \<open>\<open>page_id_t\<close> is stored in its 32-bit form.\<close>

definition GetNextPageId :: "table_data \<Rightarrow> page_id" where
  "GetNextPageId d = sint (get32 d 0)"

definition SetNextPageId :: "table_data \<Rightarrow> page_id \<Rightarrow> table_data" where
  "SetNextPageId d p = put32 d 0 (word_of_int p)"

definition GetNumTuples :: "table_data \<Rightarrow> 32 word" where
  "GetNumTuples d = get32 d 4"

definition SetNumTuples :: "table_data \<Rightarrow> 32 word \<Rightarrow> table_data" where
  "SetNumTuples d n = put32 d 4 n"

definition GetFreeSpacePointer :: "table_data \<Rightarrow> 32 word" where
  "GetFreeSpacePointer d = get32 d 8"

definition SetFreeSpacePointer :: "table_data \<Rightarrow> 32 word \<Rightarrow> table_data" where
  "SetFreeSpacePointer d n = put32 d 8 n"

definition Init :: "page_id \<Rightarrow> table_data" where
  "Init p = SetFreeSpacePointer (put32 (put32 0 0 (word_of_int p)) 4 0) (of_nat PAGE_SIZE)"

definition slot_addr :: "16 word \<Rightarrow> nat" where
  "slot_addr slot = SIZE_TABLE_PAGE_HEADER + unat slot * SIZE_TUPLE_SLOT"

definition in_page :: "nat \<Rightarrow> nat \<Rightarrow> 'a res \<Rightarrow> 'a res" where
  "in_page a n k = (if a + n \<le> PAGE_SIZE then k else Inl (UndefinedBehaviour ''access outside the page''))"

definition GetTupleOffsetAtSlot :: "table_data \<Rightarrow> 16 word \<Rightarrow> 16 word res" where
  "GetTupleOffsetAtSlot d slot = in_page (slot_addr slot) 2 (Inr (get16 d (slot_addr slot)))"

definition GetTupleLengthAtSlot :: "table_data \<Rightarrow> 16 word \<Rightarrow> 16 word res" where
  "GetTupleLengthAtSlot d slot = in_page (slot_addr slot + 2) 2 (Inr (get16 d (slot_addr slot + 2)))"

definition SetTupleOffsetAtSlot :: "table_data \<Rightarrow> 16 word \<Rightarrow> 16 word \<Rightarrow> table_data res" where
  "SetTupleOffsetAtSlot d slot w = in_page (slot_addr slot) 2 (Inr (put16 d (slot_addr slot) w))"

definition SetTupleLengthAtSlot :: "table_data \<Rightarrow> 16 word \<Rightarrow> 16 word \<Rightarrow> table_data res" where
  "SetTupleLengthAtSlot d slot w = in_page (slot_addr slot + 2) 2 (Inr (put16 d (slot_addr slot + 2) w))"

text \<open>The subtraction wraps: the result is cut to 32 bits.\<close>

definition GetFreeSpaceRemaining :: "table_data \<Rightarrow> 32 word" where
  "GetFreeSpaceRemaining d =
     GetFreeSpacePointer d - of_nat (SIZE_TABLE_PAGE_HEADER + unat (GetNumTuples d) * SIZE_TUPLE_SLOT)"

text \<open>\<^verbatim>\<open>tuple_size\<close> is a \<^verbatim>\<open>uint32_t\<close>; the byte string is \<^verbatim>\<open>tuple_data\<close> cut to that size.\<close>

definition write_tuple :: "table_data \<Rightarrow> 16 word \<Rightarrow> byte list \<Rightarrow> table_data res" where
  "write_tuple d slot bs =
     (let size = of_nat (length bs) :: 32 word;
          new_fsp = GetFreeSpacePointer d - size;
          d1 = SetFreeSpacePointer d new_fsp
      in in_page (unat new_fsp) (length bs)
           (rbind (SetTupleOffsetAtSlot (put_bytes d1 (unat new_fsp) bs) slot (ucast new_fsp)) (\<lambda>d2.
              SetTupleLengthAtSlot d2 slot (ucast size))))"

definition Page_InsertTuple :: "table_data \<Rightarrow> byte list \<Rightarrow> (16 word option \<times> table_data) res" where
  "Page_InsertTuple d bs =
     (if unat (GetFreeSpaceRemaining d) < length bs + SIZE_TUPLE_SLOT then Inr (None, d)
      else
        let num_tuples = GetNumTuples d
        in rbind (write_tuple d (ucast num_tuples) bs) (\<lambda>d1.
             Inr (Some (ucast num_tuples), SetNumTuples d1 (num_tuples + 1))))"

definition Page_GetTuple :: "table_data \<Rightarrow> 16 word \<Rightarrow> byte list res" where
  "Page_GetTuple d slot =
     rbind (GetTupleOffsetAtSlot d slot) (\<lambda>off.
     rbind (GetTupleLengthAtSlot d slot) (\<lambda>len.
       in_page (unat off) (unat len) (Inr (get_bytes d (unat off) (unat len)))))"

definition Page_GetTupleSize :: "table_data \<Rightarrow> 16 word \<Rightarrow> 32 word res" where
  "Page_GetTupleSize d slot = rbind (GetTupleLengthAtSlot d slot) (\<lambda>len. Inr (ucast len))"

definition Page_DeleteTuple :: "table_data \<Rightarrow> 16 word \<Rightarrow> table_data res" where
  "Page_DeleteTuple d slot =
     rbind (SetTupleLengthAtSlot d slot 0) (\<lambda>d1. SetTupleOffsetAtSlot d1 slot 0)"

definition Page_UpdateTuple :: "table_data \<Rightarrow> 16 word \<Rightarrow> byte list \<Rightarrow> (bool \<times> table_data) res" where
  "Page_UpdateTuple d slot bs =
     rbind (GetTupleLengthAtSlot d slot) (\<lambda>old.
       let old_size = ucast old :: 32 word; new_size = of_nat (length bs) :: 32 word
       in if new_size > old_size \<and> new_size - old_size > GetFreeSpaceRemaining d then Inr (False, d)
          else
            rbind (Page_DeleteTuple d slot) (\<lambda>d1.
            rbind (write_tuple d1 slot bs) (\<lambda>d2. Inr (True, d2))))"

section \<open>The layout invariant\<close>

text \<open>
  The page as the abstract operations see it: \<open>slots d\<close> slots, slot \<open>i\<close> at \<open>16 + 4 * i\<close> with the
  extent of its tuple; the tuples lie between the free space pointer and the end of the page, and
  those of two live slots do not overlap.
\<close>

definition slots :: "table_data \<Rightarrow> nat" where
  "slots d = unat (GetNumTuples d)"

definition fsp :: "table_data \<Rightarrow> nat" where
  "fsp d = unat (GetFreeSpacePointer d)"

definition slot_off :: "table_data \<Rightarrow> nat \<Rightarrow> nat" where
  "slot_off d i = unat (get16 d (16 + 4 * i))"

definition slot_len :: "table_data \<Rightarrow> nat \<Rightarrow> nat" where
  "slot_len d i = unat (get16 d (18 + 4 * i))"

definition page_inv :: "table_data \<Rightarrow> bool" where
  "page_inv d \<longleftrightarrow> 16 + 4 * slots d \<le> fsp d \<and> fsp d \<le> 4096 \<and>
     (\<forall>i < slots d. 0 < slot_len d i \<longrightarrow> fsp d \<le> slot_off d i \<and> slot_off d i + slot_len d i \<le> 4096) \<and>
     (\<forall>i < slots d. \<forall>j < slots d. i \<noteq> j \<longrightarrow> 0 < slot_len d i \<longrightarrow> 0 < slot_len d j \<longrightarrow>
        slot_off d i + slot_len d i \<le> slot_off d j \<or> slot_off d j + slot_len d j \<le> slot_off d i)"

definition tuple_at :: "table_data \<Rightarrow> nat \<Rightarrow> byte list option" where
  "tuple_at d i = (if i < slots d \<and> 0 < slot_len d i then Some (get_bytes d (slot_off d i) (slot_len d i)) else None)"

definition free_space :: "table_data \<Rightarrow> nat" where
  "free_space d = fsp d - (16 + 4 * slots d)"

lemma page_invD:
  assumes "page_inv d"
  shows "16 + 4 * slots d \<le> fsp d" "fsp d \<le> 4096" "slots d < 2 ^ 16"
  using assms by (auto simp: page_inv_def)

lemma page_inv_slot:
  "page_inv d \<Longrightarrow> i < slots d \<Longrightarrow> 0 < slot_len d i \<Longrightarrow> fsp d \<le> slot_off d i \<and> slot_off d i + slot_len d i \<le> 4096"
  by (simp add: page_inv_def)

lemma page_inv_disjoint:
  "page_inv d \<Longrightarrow> i < slots d \<Longrightarrow> j < slots d \<Longrightarrow> i \<noteq> j \<Longrightarrow> 0 < slot_len d i \<Longrightarrow> 0 < slot_len d j \<Longrightarrow>
   slot_off d i + slot_len d i \<le> slot_off d j \<or> slot_off d j + slot_len d j \<le> slot_off d i"
  by (simp add: page_inv_def)

lemma in_page_simps [simp]:
  "a + n \<le> 4096 \<Longrightarrow> in_page a n k = k" "\<not> a + n \<le> 4096 \<Longrightarrow> in_page a n k = Inl (UndefinedBehaviour ''access outside the page'')"
  by (simp_all add: in_page_def PAGE_SIZE_def)

lemma slot_addr_16: "slot_addr slot = 16 + 4 * unat slot"
  by (simp add: slot_addr_def SIZE_TABLE_PAGE_HEADER_def SIZE_TUPLE_SLOT_def)

lemma unat_of_nat_32: "n < 2 ^ 32 \<Longrightarrow> unat (of_nat n :: 32 word) = n"
  by (simp add: unat_of_nat take_bit_nat_eq_self_iff)

lemma unat_of_nat_16: "n < 2 ^ 16 \<Longrightarrow> unat (of_nat n :: 16 word) = n"
  by (simp add: unat_of_nat take_bit_nat_eq_self_iff)

lemma unat_ucast_16: "unat w < 2 ^ 16 \<Longrightarrow> unat (ucast (w :: 32 word) :: 16 word) = unat w"
  by (simp add: unsigned_ucast_eq unsigned_take_bit_eq take_bit_nat_eq_self_iff)

lemma unat_ucast_32: "unat (ucast (w :: 16 word) :: 32 word) = unat w"
  using unsigned_less [where 'a = nat, of w] by (simp add: unsigned_ucast_eq unsigned_take_bit_eq take_bit_nat_eq_self_iff)

lemma free_space_remaining:
  assumes "page_inv d"
  shows "unat (GetFreeSpaceRemaining d) = free_space d"
proof -
  note i = page_invD [OF assms]
  define n where "n = 16 + 4 * slots d"
  have n: "n < 2 ^ 32" "n \<le> fsp d" using i by (simp_all add: n_def)
  have r: "GetFreeSpaceRemaining d = GetFreeSpacePointer d - of_nat n"
    by (simp add: GetFreeSpaceRemaining_def SIZE_TABLE_PAGE_HEADER_def SIZE_TUPLE_SLOT_def n_def slots_def mult.commute)
  have "unat (GetFreeSpacePointer d - of_nat n) = fsp d - n"
    using n by (simp add: unat_sub word_le_nat_alt unat_of_nat_32 fsp_def)
  then show ?thesis unfolding r by (simp add: free_space_def n_def)
qed

text \<open>Storing a tuple in slot \<open>k\<close>, all of it below the free space pointer.\<close>

definition stored_in :: "nat \<Rightarrow> byte list \<Rightarrow> table_data \<Rightarrow> table_data \<Rightarrow> bool" where
  "stored_in k bs d d' \<longleftrightarrow> GetNextPageId d' = GetNextPageId d \<and> fsp d' = fsp d - length bs \<and> slot_off d' k = fsp d - length bs \<and> slot_len d' k = length bs \<and>
     get_bytes d' (fsp d - length bs) (length bs) = bs \<and>
     (\<forall>j. j \<noteq> k \<longrightarrow> 20 + 4 * j \<le> fsp d - length bs \<longrightarrow> slot_off d' j = slot_off d j \<and> slot_len d' j = slot_len d j) \<and>
     (\<forall>a n. fsp d \<le> a \<longrightarrow> get_bytes d' a n = get_bytes d a n)"

lemma write_tuple_ok:
  assumes f: "fsp d \<le> 4096" and k: "20 + 4 * unat slot + length bs \<le> fsp d"
  shows "\<exists>d'. write_tuple d slot bs = Inr d' \<and> GetNumTuples d' = GetNumTuples d \<and> stored_in (unat slot) bs d d'"
proof -
  define size where "size = (of_nat (length bs) :: 32 word)"
  define nf where "nf = GetFreeSpacePointer d - size"
  have us: "unat size = length bs" using f k by (simp add: size_def unat_of_nat_32)
  have un: "unat nf = fsp d - length bs"
    using f k us by (simp add: nf_def unat_sub word_le_nat_alt fsp_def)
  define a where "a = fsp d - length bs"
  define s where "s = slot_addr slot"
  have s: "s = 16 + 4 * unat slot" "s + 4 \<le> a" "a + length bs = fsp d" "a < 2 ^ 16" "length bs < 2 ^ 16"
    using f k by (simp_all add: s_def slot_addr_16 a_def)
  define d1 where "d1 = put_bytes (put32 d 8 nf) a bs"
  define d' where "d' = put16 (put16 d1 s (ucast nf)) (s + 2) (ucast size)"
  have w: "write_tuple d slot bs = Inr d'"
    using s f un by (simp add: write_tuple_def Let_def SetTupleOffsetAtSlot_def SetTupleLengthAtSlot_def
        SetFreeSpacePointer_def d'_def d1_def a_def [symmetric] size_def [symmetric] nf_def [symmetric] s_def [symmetric])
  have same: "get16 d' b = get16 d b" if "16 \<le> b" "b + 2 \<le> s \<or> s + 4 \<le> b" "b + 2 \<le> a" for b
    using that s by (cases "b + 2 \<le> s") (simp_all add: d'_def d1_def)
  have "slot_off d' j = slot_off d j \<and> slot_len d' j = slot_len d j" if "j \<noteq> unat slot" "20 + 4 * j \<le> a" for j
  proof (cases "j < unat slot")
    case True
    then show ?thesis using same [of "16 + 4 * j"] same [of "18 + 4 * j"] that s(1) by (simp add: slot_off_def slot_len_def)
  next
    case False
    then have "unat slot < j" using that(1) by simp
    then show ?thesis using same [of "16 + 4 * j"] same [of "18 + 4 * j"] that s(1) by (simp add: slot_off_def slot_len_def)
  qed
  moreover have "get_bytes d' b n = get_bytes d b n" if "fsp d \<le> b" for b n
    using that s by (simp add: d'_def d1_def)
  moreover have "get_bytes d' a (length bs) = bs" using s by (simp add: d'_def d1_def)
  moreover have "slot_off d' (unat slot) = a" "slot_len d' (unat slot) = length bs"
    using s un us by (simp_all add: slot_off_def slot_len_def d'_def a_def unat_ucast_16)
  moreover have "GetNumTuples d' = GetNumTuples d" "GetNextPageId d' = GetNextPageId d" "fsp d' = a"
    using s un by (simp_all add: GetNumTuples_def GetNextPageId_def fsp_def GetFreeSpacePointer_def d'_def d1_def a_def)
  ultimately have "GetNumTuples d' = GetNumTuples d" "stored_in (unat slot) bs d d'" by (simp_all add: stored_in_def a_def)
  with w show ?thesis by blast
qed

lemma stored_in_page:
  assumes inv: "page_inv d" and k: "k = slots d \<or> k < slots d \<and> slot_len d k = 0"
    and st: "stored_in k bs d d'" and n: "slots d' = max (slots d) (Suc k)"
    and room: "16 + 4 * slots d' + length bs \<le> fsp d"
  shows "page_inv d' \<and> tuple_at d' = (tuple_at d)(k := if bs = [] then None else Some bs) \<and>
    fsp d' = fsp d - length bs"
proof -
  define a where "a = fsp d - length bs"
  note i = page_invD [OF inv]
  have st: "fsp d' = a" "slot_off d' k = a" "slot_len d' k = length bs" "get_bytes d' a (length bs) = bs"
    "\<And>j. j \<noteq> k \<Longrightarrow> 20 + 4 * j \<le> a \<Longrightarrow> slot_off d' j = slot_off d j \<and> slot_len d' j = slot_len d j"
    "\<And>a n. fsp d \<le> a \<Longrightarrow> get_bytes d' a n = get_bytes d a n"
    using st by (auto simp: stored_in_def a_def)
  have a: "16 + 4 * slots d' \<le> a" "a + length bs = fsp d" using room by (auto simp: a_def)
  have other: "slot_off d' j = slot_off d j" "slot_len d' j = slot_len d j" "j < slots d"
    if "j < slots d'" "j \<noteq> k" for j
    using st(5) [of j] that a(1) n k by auto
  have ext: "a \<le> slot_off d' j \<and> slot_off d' j + slot_len d' j \<le> 4096"
    if "j < slots d'" "0 < slot_len d' j" for j
  proof (cases "j = k")
    case True
    then show ?thesis using st(2,3) a(2) i(2) by simp
  next
    case False
    then show ?thesis using other [OF that(1) False] page_inv_slot [OF inv, of j] that(2) a(2) by simp
  qed
  have k': "k < slots d'" using n by simp
  have disj: "slot_off d' p + slot_len d' p \<le> slot_off d' q \<or> slot_off d' q + slot_len d' q \<le> slot_off d' p"
    if p: "p < slots d'" "q < slots d'" "p \<noteq> q" "0 < slot_len d' p" "0 < slot_len d' q" for p q
  proof -
    have k_less: "slot_off d' k + slot_len d' k \<le> slot_off d' j" if "j < slots d'" "j \<noteq> k" "0 < slot_len d' j" for j
      using other [OF that(1,2)] page_inv_slot [OF inv, of j] that(3) st(2,3) a(2) by simp
    show ?thesis
    proof (cases "p = k \<or> q = k")
      case True
      then show ?thesis using k_less [of p] k_less [of q] p by auto
    next
      case False
      then show ?thesis
        using other [OF p(1)] other [OF p(2)] page_inv_disjoint [OF inv, of p q] p by simp
    qed
  qed
  have "page_inv d'"
    unfolding page_inv_def using st(1) a i(2) ext disj by simp
  moreover have "tuple_at d' j = ((tuple_at d)(k := if bs = [] then None else Some bs)) j" for j
  proof (cases "j = k")
    case True
    then show ?thesis using k' st(2-4) by (simp add: tuple_at_def)
  next
    case False
    show ?thesis
    proof (cases "j < slots d'")
      case True
      then show ?thesis
        using other [OF True False] False page_inv_slot [OF inv, of j] st(6) by (simp add: tuple_at_def)
    next
      case nless: False
      moreover have "slots d \<le> slots d'" by (simp add: n)
      ultimately show ?thesis using False by (simp add: tuple_at_def)
    qed
  qed
  ultimately show ?thesis using st(1) by (simp add: a_def fun_eq_iff)
qed

lemma SetNumTuples_frame:
  "GetNumTuples (SetNumTuples d n) = n" "GetNextPageId (SetNumTuples d n) = GetNextPageId d"
  "fsp (SetNumTuples d n) = fsp d" "slot_off (SetNumTuples d n) k = slot_off d k"
  "slot_len (SetNumTuples d n) k = slot_len d k" "8 \<le> a \<Longrightarrow> get_bytes (SetNumTuples d n) a m = get_bytes d a m"
  by (simp_all add: SetNumTuples_def GetNumTuples_def GetNextPageId_def fsp_def GetFreeSpacePointer_def
      slot_off_def slot_len_def)

lemma Page_InsertTuple_full:
  "page_inv d \<Longrightarrow> free_space d < length bs + 4 \<Longrightarrow> Page_InsertTuple d bs = Inr (None, d)"
  by (simp add: Page_InsertTuple_def free_space_remaining SIZE_TUPLE_SLOT_def)

lemma Page_InsertTuple_ok:
  assumes inv: "page_inv d" and room: "length bs + 4 \<le> free_space d"
  shows "\<exists>d'. Page_InsertTuple d bs = Inr (Some (of_nat (slots d)), d') \<and> page_inv d' \<and>
    slots d' = Suc (slots d) \<and> tuple_at d' = (tuple_at d)(slots d := if bs = [] then None else Some bs) \<and>
    GetNextPageId d' = GetNextPageId d \<and> free_space d' = free_space d - (length bs + 4)"
proof -
  note i = page_invD [OF inv]
  have r: "20 + 4 * slots d + length bs \<le> fsp d" using room by (auto simp: free_space_def)
  have sl: "ucast (GetNumTuples d) = (of_nat (slots d) :: 16 word)"
    by (simp add: slots_def)
  have us: "unat (of_nat (slots d) :: 16 word) = slots d" using i(3) by (simp add: unat_of_nat_16)
  obtain d1 where d1: "write_tuple d (of_nat (slots d)) bs = Inr d1" "stored_in (slots d) bs d d1"
    using write_tuple_ok [of d "of_nat (slots d)" bs] i(2) r us by auto
  define d' where "d' = SetNumTuples d1 (GetNumTuples d + 1)"
  have sd: "slots d' = Suc (slots d)"
  proof -
    have "unat (GetNumTuples d + 1) = unat (GetNumTuples d) + 1"
      using i(3) by (subst unat_plus_simple [THEN iffD1]) (simp_all add: slots_def word_le_nat_alt unat_word_ariths)
    then show ?thesis by (simp add: d'_def slots_def SetNumTuples_frame)
  qed
  have "stored_in (slots d) bs d d'"
    using d1(2) r by (auto simp: stored_in_def d'_def SetNumTuples_frame)
  from stored_in_page [OF inv _ this] sd r
  have "page_inv d'" "tuple_at d' = (tuple_at d)(slots d := if bs = [] then None else Some bs)" "fsp d' = fsp d - length bs"
    by auto
  moreover have "GetNextPageId d' = GetNextPageId d" using d1(2) by (simp add: stored_in_def d'_def SetNumTuples_frame)
  moreover have "Page_InsertTuple d bs = Inr (Some (of_nat (slots d)), d')"
    using d1(1) room by (simp add: Page_InsertTuple_def free_space_remaining [OF inv] SIZE_TUPLE_SLOT_def Let_def sl d'_def)
  ultimately show ?thesis using sd by (simp add: free_space_def)
qed

lemma slot_in_page:
  "page_inv d \<Longrightarrow> unat slot < slots d \<Longrightarrow> slot_addr slot + 4 \<le> 4096"
  using page_invD [of d] by (simp add: slot_addr_16)

lemma Page_GetTupleSize_ok:
  "page_inv d \<Longrightarrow> unat slot < slots d \<Longrightarrow> \<exists>w. Page_GetTupleSize d slot = Inr w \<and> unat w = slot_len d (unat slot)"
  using slot_in_page [of d slot]
  by (simp add: Page_GetTupleSize_def GetTupleLengthAtSlot_def slot_addr_16 slot_len_def unat_ucast_32 add.commute)

lemma Page_GetTuple_ok:
  assumes "page_inv d" "tuple_at d (unat slot) = Some bs"
  shows "Page_GetTuple d slot = Inr bs"
proof -
  have s: "unat slot < slots d" "0 < slot_len d (unat slot)"
    "bs = get_bytes d (slot_off d (unat slot)) (slot_len d (unat slot))"
    using assms(2) by (auto simp: tuple_at_def split: if_splits)
  show ?thesis
    using slot_in_page [OF assms(1) s(1)] page_inv_slot [OF assms(1) s(1,2)] s(3)
    by (simp add: Page_GetTuple_def GetTupleOffsetAtSlot_def GetTupleLengthAtSlot_def slot_addr_16
        slot_off_def slot_len_def add.commute)
qed

lemma Page_DeleteTuple_ok:
  assumes inv: "page_inv d" and s: "unat slot < slots d"
  shows "\<exists>d'. Page_DeleteTuple d slot = Inr d' \<and> page_inv d' \<and> slots d' = slots d \<and> fsp d' = fsp d \<and>
    tuple_at d' = (tuple_at d)(unat slot := None) \<and> GetNextPageId d' = GetNextPageId d \<and>
    slot_len d' (unat slot) = 0"
proof -
  define k where "k = unat slot"
  define d' where "d' = put16 (put16 d (18 + 4 * k) 0) (16 + 4 * k) 0"
  have del: "Page_DeleteTuple d slot = Inr d'"
    using slot_in_page [OF inv s]
    by (simp add: Page_DeleteTuple_def SetTupleLengthAtSlot_def SetTupleOffsetAtSlot_def slot_addr_16 d'_def k_def add.commute)
  have sel: "slots d' = slots d" "fsp d' = fsp d" "GetNextPageId d' = GetNextPageId d"
    by (simp_all add: d'_def slots_def GetNumTuples_def fsp_def GetFreeSpacePointer_def GetNextPageId_def)
  have k0: "slot_off d' k = 0" "slot_len d' k = 0" by (simp_all add: slot_off_def slot_len_def d'_def)
  have other: "slot_off d' j = slot_off d j" "slot_len d' j = slot_len d j" if "j \<noteq> k" for j
    using that by (cases "j < k"; simp add: slot_off_def slot_len_def d'_def)+
  have "get_bytes d' a n = get_bytes d a n" if "fsp d \<le> a" for a n
    using that s page_invD(1) [OF inv] by (simp add: d'_def k_def)
  then have "tuple_at d' j = ((tuple_at d)(k := None)) j" for j
    using page_inv_slot [OF inv, of j] k0 by (cases "j = k") (auto simp: tuple_at_def sel other)
  moreover have "page_inv d'"
    unfolding page_inv_def sel
  proof (intro conjI allI impI)
    fix i assume "i < slots d" "0 < slot_len d' i"
    then show "fsp d \<le> slot_off d' i" "slot_off d' i + slot_len d' i \<le> 4096"
      using other [of i] k0 page_inv_slot [OF inv, of i] by (cases "i = k"; simp)+
  next
    fix i j assume "i < slots d" "j < slots d" "i \<noteq> j" "0 < slot_len d' i" "0 < slot_len d' j"
    then show "slot_off d' i + slot_len d' i \<le> slot_off d' j \<or> slot_off d' j + slot_len d' j \<le> slot_off d' i"
      using other [of i] other [of j] k0 page_inv_disjoint [OF inv, of i j] by (cases "i = k"; cases "j = k"; simp)
  qed (use page_invD [OF inv] in simp_all)
  ultimately show ?thesis using del sel k0 by (auto simp: k_def fun_eq_iff)
qed

lemma update_guard:
  assumes inv: "page_inv d" and s: "unat slot < slots d" and n: "length bs < 2 ^ 32"
  shows "Page_UpdateTuple d slot bs =
    (if slot_len d (unat slot) + free_space d < length bs then Inr (False, d)
     else rbind (Page_DeleteTuple d slot) (\<lambda>d1. rbind (write_tuple d1 slot bs) (\<lambda>d2. Inr (True, d2))))"
proof -
  define old where "old = get16 d (slot_addr slot + 2)"
  have o: "unat old = slot_len d (unat slot)" by (simp add: old_def slot_len_def slot_addr_16 add.commute)
  have "GetTupleLengthAtSlot d slot = Inr old"
    using slot_in_page [OF inv s] by (simp add: GetTupleLengthAtSlot_def old_def)
  moreover have "of_nat (length bs) > (ucast old :: 32 word) \<and> of_nat (length bs) - ucast old > GetFreeSpaceRemaining d \<longleftrightarrow>
      slot_len d (unat slot) + free_space d < length bs"
    using n by (auto simp: word_less_nat_alt unat_of_nat_32 unat_ucast_32 o free_space_remaining [OF inv]
        unat_sub word_le_nat_alt)
  ultimately show ?thesis by (simp add: Page_UpdateTuple_def Let_def)
qed

lemma Page_UpdateTuple_room:
  assumes inv: "page_inv d" and s: "unat slot < slots d" and room: "length bs \<le> free_space d"
  shows "\<exists>d'. Page_UpdateTuple d slot bs = Inr (True, d') \<and> page_inv d' \<and> slots d' = slots d \<and>
    tuple_at d' = (tuple_at d)(unat slot := if bs = [] then None else Some bs) \<and>
    GetNextPageId d' = GetNextPageId d \<and> free_space d' = free_space d - length bs"
proof -
  note i = page_invD [OF inv]
  have r: "16 + 4 * slots d + length bs \<le> fsp d" using room i(1) by (auto simp: free_space_def)
  obtain d1 where d1: "Page_DeleteTuple d slot = Inr d1" "page_inv d1" "slots d1 = slots d" "fsp d1 = fsp d"
    "tuple_at d1 = (tuple_at d)(unat slot := None)" "GetNextPageId d1 = GetNextPageId d" "slot_len d1 (unat slot) = 0"
    using Page_DeleteTuple_ok [OF inv s] by blast
  have s': "20 + 4 * unat slot \<le> 16 + 4 * slots d" using s by simp
  obtain d2 where d2: "write_tuple d1 slot bs = Inr d2" "GetNumTuples d2 = GetNumTuples d1" "stored_in (unat slot) bs d1 d2"
    using write_tuple_ok [of d1 slot bs] d1(4) i(2) r s' by auto
  have n2: "slots d2 = slots d" using d2(2) d1(3) by (simp add: slots_def)
  have "page_inv d2 \<and> tuple_at d2 = (tuple_at d1)(unat slot := if bs = [] then None else Some bs) \<and> fsp d2 = fsp d1 - length bs"
    by (rule stored_in_page [OF d1(2) _ d2(3)]) (use d1(3,4,7) n2 s r in auto)
  then show ?thesis
    using update_guard [OF inv s, of bs] d1 d2 n2 room r i(2) by (auto simp: stored_in_def fun_upd_idem free_space_def)
qed

lemma Init_ok:
  "page_inv (Init p)" "slots (Init p) = 0" "tuple_at (Init p) = (\<lambda>_. None)" "free_space (Init p) = 4080"
proof -
  have "slots (Init p) = 0" by (simp add: Init_def SetFreeSpacePointer_def slots_def GetNumTuples_def)
  moreover have "fsp (Init p) = 4096"
    by (simp add: Init_def SetFreeSpacePointer_def fsp_def GetFreeSpacePointer_def PAGE_SIZE_def)
  ultimately show "page_inv (Init p)" "slots (Init p) = 0" "tuple_at (Init p) = (\<lambda>_. None)" "free_space (Init p) = 4080"
    by (auto simp: page_inv_def tuple_at_def free_space_def)
qed

lemma sint_of_int32: "- (2 ^ 31) \<le> p \<Longrightarrow> p < 2 ^ 31 \<Longrightarrow> sint (word_of_int p :: 32 word) = p"
  by (simp add: signed_of_int signed_take_bit_int_eq_self)

definition int32 :: "int \<Rightarrow> bool" where
  "int32 p \<longleftrightarrow> - (2 ^ 31) \<le> p \<and> p < 2 ^ 31"

lemma Init_next: "int32 p \<Longrightarrow> GetNextPageId (Init p) = p"
  by (simp add: Init_def SetFreeSpacePointer_def GetNextPageId_def sint_of_int32 int32_def)

lemma SetNextPageId_ok:
  "page_inv d \<Longrightarrow> page_inv (SetNextPageId d p) \<and> slots (SetNextPageId d p) = slots d \<and>
   tuple_at (SetNextPageId d p) = tuple_at d \<and> free_space (SetNextPageId d p) = free_space d \<and>
   (int32 p \<longrightarrow> GetNextPageId (SetNextPageId d p) = p)"
proof -
  assume inv: "page_inv d"
  have sel: "slots (SetNextPageId d p) = slots d" "fsp (SetNextPageId d p) = fsp d"
    "slot_off (SetNextPageId d p) = slot_off d" "slot_len (SetNextPageId d p) = slot_len d"
    by (simp_all add: SetNextPageId_def slots_def GetNumTuples_def fsp_def GetFreeSpacePointer_def
        slot_off_def slot_len_def fun_eq_iff)
  have "tuple_at (SetNextPageId d p) j = tuple_at d j" for j
    using page_inv_slot [OF inv, of j] page_invD(1) [OF inv]
    by (auto simp: tuple_at_def sel) (simp add: SetNextPageId_def)
  moreover have "int32 p \<longrightarrow> GetNextPageId (SetNextPageId d p) = p"
    by (simp add: SetNextPageId_def GetNextPageId_def sint_of_int32 int32_def)
  ultimately show ?thesis
    using inv by (simp add: page_inv_def sel fun_eq_iff free_space_def)
qed

section \<open>Properties\<close>

text \<open>
  \<open>page_reachable d m\<close>: the page \<open>d\<close> comes from \<open>Init\<close> by insertions, deletions, and updates that fit
  into the free space, and \<open>m\<close> is the list of what its slots hold, as the calls imply it.
\<close>

inductive page_reachable :: "table_data \<Rightarrow> byte list list \<Rightarrow> bool" where
  init: "page_reachable (Init p) []"
| insert: "page_reachable d m \<Longrightarrow> Page_InsertTuple d bs = Inr (Some slot, d') \<Longrightarrow>
    page_reachable d' (m @ [bs])"
| delete: "page_reachable d m \<Longrightarrow> unat slot < length m \<Longrightarrow> Page_DeleteTuple d slot = Inr d' \<Longrightarrow>
    page_reachable d' (m[unat slot := []])"
| update: "page_reachable d m \<Longrightarrow> unat slot < length m \<Longrightarrow> length bs \<le> free_space d \<Longrightarrow>
    Page_UpdateTuple d slot bs = Inr (r, d') \<Longrightarrow> page_reachable d' (m[unat slot := bs])"
| link: "page_reachable d m \<Longrightarrow> page_reachable (SetNextPageId d p) m"

definition agrees_with :: "table_data \<Rightarrow> byte list list \<Rightarrow> bool" where
  "agrees_with d m \<longleftrightarrow> slots d = length m \<and>
     (\<forall>i < length m. tuple_at d i = (if m ! i = [] then None else Some (m ! i)))"

lemma agrees_withD:
  "agrees_with d m \<Longrightarrow> slots d = length m"
  "agrees_with d m \<Longrightarrow> i < length m \<Longrightarrow> tuple_at d i = (if m ! i = [] then None else Some (m ! i))"
  by (auto simp: agrees_with_def)

lemma agrees_with_update:
  "agrees_with d m \<Longrightarrow> slots d' = slots d \<Longrightarrow> k < length m \<Longrightarrow>
   tuple_at d' = (tuple_at d)(k := if bs = [] then None else Some bs) \<Longrightarrow> agrees_with d' (m[k := bs])"
  by (auto simp: agrees_with_def nth_list_update)

lemma page_reachable_inv: "page_reachable d m \<Longrightarrow> page_inv d \<and> agrees_with d m"
proof (induction rule: page_reachable.induct)
  case (init p)
  then show ?case by (simp add: Init_ok agrees_with_def)
next
  case (insert d m bs slot d')
  then have inv: "page_inv d" "agrees_with d m" by auto
  have "\<not> free_space d < length bs + 4" using Page_InsertTuple_full [OF inv(1), of bs] insert.hyps(2) by auto
  then have d': "page_inv d'" "slots d' = Suc (slots d)"
      "tuple_at d' = (tuple_at d)(slots d := if bs = [] then None else Some bs)"
    using Page_InsertTuple_ok [OF inv(1), of bs] insert.hyps(2) by auto
  have "agrees_with d' (m @ [bs])"
    unfolding agrees_with_def d'(2,3)
    using agrees_withD [OF inv(2)] by (auto simp: nth_append less_Suc_eq)
  then show ?case using d'(1) by blast
next
  case (delete d m slot d')
  then have inv: "page_inv d" "agrees_with d m" by auto
  obtain e where "Page_DeleteTuple d slot = Inr e" "page_inv e" "slots e = slots d"
      "tuple_at e = (tuple_at d)(unat slot := None)"
    using Page_DeleteTuple_ok [OF inv(1), of slot] delete.hyps(2) agrees_withD(1) [OF inv(2)] by auto
  then show ?case using delete.hyps agrees_with_update [OF inv(2), of d' "unat slot" "[]"] by auto
next
  case (update d m slot bs r d')
  then have inv: "page_inv d" "agrees_with d m" by auto
  obtain e where "Page_UpdateTuple d slot bs = Inr (True, e)" "page_inv e" "slots e = slots d"
      "tuple_at e = (tuple_at d)(unat slot := if bs = [] then None else Some bs)"
    using Page_UpdateTuple_room [OF inv(1) _ update.hyps(3), of slot] update.hyps(2) agrees_withD(1) [OF inv(2)] by auto
  then show ?case using update.hyps agrees_with_update [OF inv(2), of d' "unat slot" bs] by auto
next
  case (link d m p)
  then show ?case using SetNextPageId_ok [of d p] by (auto simp: agrees_with_def)
qed

text \<open>
  The slotted page stores what was put into it: after any sequence of insertions, deletions and
  updates within the free space, reading a slot gives back exactly the bytes last stored there,
  whatever happened to the other slots, and the size of a deleted slot reads as zero.
\<close>

theorem Page_GetTuple_latest:
  assumes "page_reachable d m" and "unat slot < length m"
  shows "(m ! unat slot \<noteq> [] \<longrightarrow> Page_GetTuple d slot = Inr (m ! unat slot)) \<and>
    (\<exists>n. Page_GetTupleSize d slot = Inr n \<and> unat n = length (m ! unat slot))"
proof -
  note inv = page_reachable_inv [OF assms(1)]
  have s: "unat slot < slots d" using inv assms(2) agrees_withD(1) by metis
  have t: "tuple_at d (unat slot) = (if m ! unat slot = [] then None else Some (m ! unat slot))"
    using inv assms(2) agrees_withD(2) by blast
  then have "slot_len d (unat slot) = length (m ! unat slot)"
    using s length_get_bytes [of d "slot_off d (unat slot)" "slot_len d (unat slot)"]
    by (auto simp: tuple_at_def simp del: length_get_bytes split: if_splits)
  then show ?thesis
    using Page_GetTupleSize_ok [OF _ s] Page_GetTuple_ok [of d slot "m ! unat slot"] inv t by auto
qed

text \<open>
  C34. Insertion on every branch: it is refused exactly when the tuple and its slot do not fit into the
  free space, and then the page is unchanged; otherwise it takes the next slot, leaves every other
  slot as it was, and the page stays well formed.
\<close>

theorem Page_InsertTuple_correct:
  assumes "page_inv d"
  shows "if free_space d < length bs + 4 then Page_InsertTuple d bs = Inr (None, d)
    else \<exists>d'. Page_InsertTuple d bs = Inr (Some (of_nat (slots d)), d') \<and> page_inv d' \<and>
      (\<forall>i. i \<noteq> slots d \<longrightarrow> tuple_at d' i = tuple_at d i) \<and>
      (bs \<noteq> [] \<longrightarrow> Page_GetTuple d' (of_nat (slots d)) = Inr bs) \<and>
      free_space d' = free_space d - (length bs + 4)"
proof (cases "free_space d < length bs + 4")
  case True
  then show ?thesis using Page_InsertTuple_full [OF assms] by simp
next
  case False
  then obtain d' where d': "Page_InsertTuple d bs = Inr (Some (of_nat (slots d)), d')" "page_inv d'"
      "tuple_at d' = (tuple_at d)(slots d := if bs = [] then None else Some bs)"
      "free_space d' = free_space d - (length bs + 4)"
    using Page_InsertTuple_ok [OF assms, of bs] by auto
  have "unat (of_nat (slots d) :: 16 word) = slots d" using page_invD(3) [OF assms] by (simp add: unat_of_nat_16)
  then have "bs \<noteq> [] \<longrightarrow> Page_GetTuple d' (of_nat (slots d)) = Inr bs"
    using Page_GetTuple_ok [OF d'(2), of "of_nat (slots d)" bs] d'(3) by simp
  then show ?thesis using False d' by auto
qed

lemma Init_free: "page_inv (Init p) \<and> free_space (Init p) = 4080 \<and> slots (Init p) = 0"
  by (simp add: Init_ok)

theorem Page_InsertTuple_correct_witness:
  "\<exists>d'. Page_InsertTuple (Init (-1)) [1, 2] = Inr (Some 0, d') \<and> Page_GetTuple d' 0 = Inr [1, 2]"
  using Page_InsertTuple_correct [of "Init (-1)" "[1, 2]"] Init_free [of "-1"] by auto

theorem Page_GetTuple_latest_witness:
  "\<exists>d. page_reachable d [[1, 2]] \<and> Page_GetTuple d 0 = Inr [1, 2]"
proof -
  obtain d' where d': "Page_InsertTuple (Init (-1)) [1, 2] = Inr (Some 0, d')"
    using Page_InsertTuple_ok [of "Init (-1)" "[1, 2]"] Init_free [of "-1"] by auto
  then have r: "page_reachable d' [[1, 2]]"
    using page_reachable.insert [OF page_reachable.init [of "-1"] d'] by simp
  then show ?thesis using Page_GetTuple_latest [of d' "[[1, 2]]" 0] by auto
qed

text \<open>
  C35. \<^verbatim>\<open>UpdateTuple\<close> compares only the growth of the tuple with the free space, but always writes the whole new tuple
  into fresh space. When the free space is smaller than the new tuple it refuses the update only if the growth is larger than the
  free space; any other update, whether the tuple grows, keeps its size or shrinks, either writes outside the page (the new
  free space pointer wraps) or succeeds and leaves a page whose tuples lie over its slot directory.
\<close>

theorem Page_UpdateTuple_no_room:
  assumes "page_inv d" and "tuple_at d (unat slot) = Some old" and "free_space d < length bs" and "length bs < 2 ^ 32"
  shows "(length old + free_space d < length bs \<longrightarrow> Page_UpdateTuple d slot bs = Inr (False, d)) \<and>
    (length bs \<le> length old + free_space d \<longrightarrow>
      (fsp d < length bs \<longrightarrow> (\<exists>msg. Page_UpdateTuple d slot bs = Inl (UndefinedBehaviour msg))) \<and>
      (12 + length bs \<le> fsp d \<longrightarrow> (\<exists>d'. Page_UpdateTuple d slot bs = Inr (True, d') \<and> \<not> page_inv d')))"
proof (cases "length bs \<le> length old + free_space d")
  case False
  have "unat slot < slots d" "length old = slot_len d (unat slot)"
    using assms(2) by (auto simp: tuple_at_def split: if_splits)
  then show ?thesis using False update_guard [OF assms(1) _ assms(4), of slot] by simp
next
  case grow: True
  have s: "unat slot < slots d" "length old = slot_len d (unat slot)" "0 < slot_len d (unat slot)"
    using assms(2) by (auto simp: tuple_at_def split: if_splits)
  note i = page_invD [OF assms(1)]
  have lb: "length bs \<le> 4096" using page_inv_slot [OF assms(1) s(1,3)] s(2) grow unfolding free_space_def by linarith
  obtain d1 where d1: "Page_DeleteTuple d slot = Inr d1" "slots d1 = slots d" "fsp d1 = fsp d"
    using Page_DeleteTuple_ok [OF assms(1) s(1)] by blast
  define size where "size = (of_nat (length bs) :: 32 word)"
  define nf where "nf = GetFreeSpacePointer d1 - size"
  have us: "unat size = length bs" using lb by (simp add: size_def unat_of_nat_32)
  have up: "Page_UpdateTuple d slot bs = rbind (write_tuple d1 slot bs) (\<lambda>d2. Inr (True, d2))"
    using update_guard [OF assms(1) s(1) assms(4)] d1(1) s(2) grow by simp
  show ?thesis
  proof (intro conjI impI)
    assume "length old + free_space d < length bs"
    then show "Page_UpdateTuple d slot bs = Inr (False, d)" using grow by simp
  next
    assume True: "12 + length bs \<le> fsp d"
    then have un: "unat nf = fsp d - length bs"
      using us d1(3) by (simp add: nf_def unat_sub word_le_nat_alt fsp_def)
    define d2 where "d2 = put16 (put16 (put_bytes (SetFreeSpacePointer d1 nf) (unat nf) bs) (slot_addr slot) (ucast nf))
      (slot_addr slot + 2) (ucast size)"
    have w: "write_tuple d1 slot bs = Inr d2"
      using slot_in_page [OF assms(1) s(1)] un True i(2)
      by (simp add: write_tuple_def Let_def SetTupleOffsetAtSlot_def SetTupleLengthAtSlot_def d2_def
          size_def [symmetric] nf_def [symmetric])
    have small: "unat nf < 16 + 4 * slots d" using un assms(3) by (auto simp: free_space_def)
    have "12 \<le> unat nf" using un True by simp
    then have "fsp d2 = unat nf" "slots d2 = slots d"
      using d1(2) by (simp_all add: d2_def fsp_def GetFreeSpacePointer_def SetFreeSpacePointer_def slots_def GetNumTuples_def
          slot_addr_16)
    then have "\<not> page_inv d2" using small by (simp add: page_inv_def)
    then show "\<exists>d'. Page_UpdateTuple d slot bs = Inr (True, d') \<and> \<not> page_inv d'" using up w by simp
  next
    assume "fsp d < length bs"
    then have "4096 < unat nf + length bs"
      using us d1(3) i(2) lb unat_sub_if_size [of "GetFreeSpacePointer d1" size]
      by (simp add: nf_def fsp_def word_le_nat_alt word_size)
    then show "\<exists>msg. Page_UpdateTuple d slot bs = Inl (UndefinedBehaviour msg)"
      using up by (simp add: write_tuple_def Let_def size_def [symmetric] nf_def [symmetric])
  qed
qed

text \<open>A page with one tuple of 4000 bytes and 76 free bytes: 50 more bytes would be accepted and do not fit.\<close>

theorem Page_UpdateTuple_no_room_witness:
  "\<exists>d msg. page_inv d \<and> Page_GetTuple d 0 = Inr (replicate 4000 1) \<and> free_space d = 76 \<and>
     Page_UpdateTuple d 0 (replicate 4050 2) = Inl (UndefinedBehaviour msg) \<and>
     Page_UpdateTuple d 0 (replicate 4080 2) = Inr (False, d)"
proof -
  let ?bs = "replicate 4000 (1 :: byte)" let ?bs' = "replicate 4050 (2 :: byte)" let ?bs'' = "replicate 4080 (2 :: byte)"
  obtain d where "Page_InsertTuple (Init (-1)) ?bs = Inr (Some 0, d)" and d: "page_inv d" "slots d = 1"
      "tuple_at d = (tuple_at (Init (-1)))(0 := Some ?bs)" "free_space d = 76"
    using Page_InsertTuple_ok [of "Init (-1)" ?bs] Init_free [of "-1"] by auto
  have t: "tuple_at d (unat (0 :: 16 word)) = Some ?bs" using d(3) by simp
  have "fsp d = 96" using d(2,4) page_invD(1) [OF d(1)] by (simp add: free_space_def)
  then show ?thesis
    using Page_UpdateTuple_no_room [OF d(1) t, of ?bs'] Page_UpdateTuple_no_room [OF d(1) t, of ?bs''] Page_GetTuple_ok [OF d(1) t] d(1,4) by auto
qed

end
