(* ===== verification/Table_Heap.thy ===== *)
theory Table_Heap
  imports Page_Store Table_Page
begin

text \<open>
  The table heap: \<^verbatim>\<open>storage/table/table_heap.h\<close> and \<^verbatim>\<open>storage/table/table_heap.cpp\<close>, a linked list
  of slotted pages in the buffer pool, and its iterator. A heap is the number of its first page; every
  operation takes the pool and returns it. The loops over the list are \<open>partial_function\<close>s, so that a
  loop that does not end is \<open>None\<close>; that they end is proved. The lemmas show that the heap is a map
  from record identifiers to byte strings, and that a scan meets every live record once, in order.
\<close>

section \<open>Operations\<close>

type_synonym heap_pool = "table_data bpm"

definition TableHeap :: "heap_pool \<Rightarrow> (page_id \<times> heap_pool) res" where
  "TableHeap b =
     rbind (NewPage b) (\<lambda>(r, b1).
       case r of
         None \<Rightarrow> Inl (RuntimeError ''Cannot allocate page for table heap'')
       | Some (p, f) \<Rightarrow> Inr (p, snd (UnpinPage (page_write b1 f (Init INVALID_PAGE_ID)) p True)))"

text \<open>
  A loop that follows \<open>next_page_id\<close>: one round returns the result of the function (\<open>Inl\<close>) or the
  cursor of the next round (\<open>Inr\<close>); the loop stops with \<open>dflt\<close> when the page is invalid.
\<close>

partial_function (option) walk ::
  "('s \<Rightarrow> page_id \<times> 'c \<Rightarrow> (('r + page_id \<times> 'c) \<times> 's) res) \<Rightarrow> 'r \<Rightarrow> 's \<Rightarrow> page_id \<times> 'c \<Rightarrow> ('r \<times> 's) res option" where
  "walk rnd dflt s c =
     (if fst c = INVALID_PAGE_ID then Some (Inr (dflt, s))
      else case rnd s c of
             Inl e \<Rightarrow> Some (Inl e)
           | Inr x \<Rightarrow> (case fst x of
               Inl r \<Rightarrow> Some (Inr (r, snd x))
             | Inr c' \<Rightarrow> walk rnd dflt (snd x) c'))"

text \<open>One round of \<^verbatim>\<open>InsertTuple\<close>.\<close>

definition insert_round :: "byte list \<Rightarrow> heap_pool \<Rightarrow> page_id \<times> unit \<Rightarrow>
    ((rid option + page_id \<times> unit) \<times> heap_pool) res" where
  "insert_round bs b = (\<lambda>(p, _).
     rbind (FetchPage b p) (\<lambda>(fo, b1).
       case fo of
         None \<Rightarrow> Inr (Inl None, b1)
       | Some f \<Rightarrow>
           rbind (Page_InsertTuple (page_read b1 f) bs) (\<lambda>(slot, d1).
             case slot of
               Some s \<Rightarrow> Inr (Inl (Some (RID p s)), snd (UnpinPage (page_write b1 f d1) p True))
             | None \<Rightarrow>
                 let next_page_id = GetNextPageId (page_read b1 f)
                 in if next_page_id = INVALID_PAGE_ID
                    then rbind (NewPage b1) (\<lambda>(r, b2).
                           case r of
                             None \<Rightarrow> Inr (Inl None, snd (UnpinPage b2 p False))
                           | Some (q, g) \<Rightarrow>
                               let b3 = page_write b2 g (Init INVALID_PAGE_ID);
                                   b4 = page_write b3 f (SetNextPageId (page_read b3 f) q);
                                   b5 = snd (UnpinPage b4 p True)
                               in rbind (Page_InsertTuple (page_read b5 g) bs) (\<lambda>(new_slot, d2).
                                    Inr (Inl (map_option (RID q) new_slot),
                                         snd (UnpinPage (page_write b5 g d2) q True))))
                    else Inr (Inr (next_page_id, ()), snd (UnpinPage b1 p False)))))"

definition Heap_InsertTuple :: "heap_pool \<Rightarrow> page_id \<Rightarrow> byte list \<Rightarrow> (rid option \<times> heap_pool) res option" where
  "Heap_InsertTuple b first bs = walk (insert_round bs) None b (first, ())"

definition Heap_GetTuple :: "heap_pool \<Rightarrow> rid \<Rightarrow> (byte list \<times> heap_pool) res" where
  "Heap_GetTuple b rid =
     rbind (FetchPage b (rid_page_id rid)) (\<lambda>(fo, b1).
       case fo of
         None \<Rightarrow> Inl (RuntimeError ''Cannot fetch page for GetTuple'')
       | Some f \<Rightarrow>
           rbind (Page_GetTuple (page_read b1 f) (rid_slot_num rid)) (\<lambda>bs.
             Inr (bs, snd (UnpinPage b1 (rid_page_id rid) False))))"

definition Heap_UpdateTuple :: "heap_pool \<Rightarrow> rid \<Rightarrow> byte list \<Rightarrow> (bool \<times> heap_pool) res" where
  "Heap_UpdateTuple b rid bs =
     rbind (FetchPage b (rid_page_id rid)) (\<lambda>(fo, b1).
       case fo of
         None \<Rightarrow> Inr (False, b1)
       | Some f \<Rightarrow>
           rbind (Page_UpdateTuple (page_read b1 f) (rid_slot_num rid) bs) (\<lambda>(success, d).
             Inr (success, snd (UnpinPage (page_write b1 f d) (rid_page_id rid) success))))"

definition Heap_DeleteTuple :: "heap_pool \<Rightarrow> rid \<Rightarrow> heap_pool res" where
  "Heap_DeleteTuple b rid =
     rbind (FetchPage b (rid_page_id rid)) (\<lambda>(fo, b1).
       case fo of
         None \<Rightarrow> Inr b1
       | Some f \<Rightarrow>
           rbind (Page_DeleteTuple (page_read b1 f) (rid_slot_num rid)) (\<lambda>d.
             Inr (snd (UnpinPage (page_write b1 f d) (rid_page_id rid) True))))"

text \<open>
  The iterator is the record it stands on, the end being the invalid one. \<open>next_slot\<close> is the inner
  loop over the slots of a page. Its counter is a \<^verbatim>\<open>uint16_t\<close>, compared with the 32-bit number of
  tuples; the loop ends because a slot beyond the page is undefined behaviour before the counter wraps.
\<close>

lemma slot_bound:
  assumes "Page_GetTupleSize d slot = Inr n"
  shows "unat (slot + 1) = Suc (unat slot)" "unat slot < 1020"
proof -
  have s: "unat slot < 1020"
    using assms by (cases "slot_addr slot + 4 \<le> 4096")
      (auto simp: Page_GetTupleSize_def GetTupleLengthAtSlot_def slot_addr_16)
  then show "unat slot < 1020" .
  have "unat (slot + 1) = (unat slot + 1) mod 2 ^ 16" by (simp add: unat_word_ariths)
  then show "unat (slot + 1) = Suc (unat slot)" using s by simp
qed

function next_slot :: "table_data \<Rightarrow> 16 word \<Rightarrow> 16 word option res" where
  "next_slot d slot =
     (if unat slot < unat (GetNumTuples d)
      then case Page_GetTupleSize d slot of
             Inl e \<Rightarrow> Inl e
           | Inr n \<Rightarrow> if n > 0 then Inr (Some slot) else next_slot d (slot + 1)
      else Inr None)"
  by pat_completeness auto
termination
  by (relation "measure (\<lambda>(d, slot). 1020 - unat slot)") (auto simp: slot_bound dest: slot_bound)

declare next_slot.simps [simp del]

text \<open>One round of \<^verbatim>\<open>operator++\<close> and of \<^verbatim>\<open>Begin\<close>, from the given slot of the given page.\<close>

definition scan_round :: "heap_pool \<Rightarrow> page_id \<times> 16 word \<Rightarrow>
    ((rid + page_id \<times> 16 word) \<times> heap_pool) res" where
  "scan_round b = (\<lambda>(p, slot).
     rbind (FetchPage b p) (\<lambda>(fo, b1).
       case fo of
         None \<Rightarrow> Inr (Inl (RID INVALID_PAGE_ID 0), b1)
       | Some f \<Rightarrow>
           let d = page_read b1 f; b2 = snd (UnpinPage b1 p False)
           in rbind (next_slot d slot) (\<lambda>found.
                case found of
                  Some s \<Rightarrow> Inr (Inl (RID p s), b2)
                | None \<Rightarrow> Inr (Inr (GetNextPageId d, 0), b2))))"

definition Heap_Begin :: "heap_pool \<Rightarrow> page_id \<Rightarrow> (rid \<times> heap_pool) res option" where
  "Heap_Begin b first = walk scan_round (RID INVALID_PAGE_ID 0) b (first, 0)"

definition Heap_End :: rid where
  "Heap_End = RID INVALID_PAGE_ID 0"

definition Iterator_next :: "heap_pool \<Rightarrow> rid \<Rightarrow> (rid \<times> heap_pool) res option" where
  "Iterator_next b rid =
     walk scan_round (RID INVALID_PAGE_ID 0) b (rid_page_id rid, rid_slot_num rid + 1)"

text \<open>The scan of the executors: from \<^verbatim>\<open>Begin\<close>, advance until \<^verbatim>\<open>End\<close>; \<open>n\<close> bounds the rounds.\<close>

primrec scan_from :: "nat \<Rightarrow> heap_pool \<Rightarrow> rid \<Rightarrow> (rid list \<times> heap_pool) res option" where
  "scan_from 0 b r = (if r = Heap_End then Some (Inr ([], b)) else None)"
| "scan_from (Suc n) b r =
     (if r = Heap_End then Some (Inr ([], b))
      else case Iterator_next b r of
             None \<Rightarrow> None
           | Some (Inl e) \<Rightarrow> Some (Inl e)
           | Some (Inr (r', b')) \<Rightarrow>
               (case scan_from n b' r' of
                  Some (Inr (rs, b'')) \<Rightarrow> Some (Inr (r # rs, b''))
                | x \<Rightarrow> x))"

section \<open>The heap as a map\<close>

fun linked :: "(page_id \<Rightarrow> table_data) \<Rightarrow> page_id list \<Rightarrow> bool" where
  "linked V [] = True"
| "linked V [p] = (GetNextPageId (V p) = INVALID_PAGE_ID)"
| "linked V (p # q # ps) = (GetNextPageId (V p) = q \<and> linked V (q # ps))"

definition heap_pages :: "(page_id \<Rightarrow> table_data) \<Rightarrow> page_id list \<Rightarrow> bool" where
  "heap_pages V ps \<longleftrightarrow> ps \<noteq> [] \<and> distinct ps \<and> (\<forall>p \<in> set ps. 0 \<le> p \<and> page_inv (V p)) \<and> linked V ps"

definition heap_map :: "(page_id \<Rightarrow> table_data) \<Rightarrow> page_id list \<Rightarrow> rid \<Rightarrow> byte list option" where
  "heap_map V ps r =
     (if rid_page_id r \<in> set ps then tuple_at (V (rid_page_id r)) (unat (rid_slot_num r)) else None)"

lemma linked_cong: "linked V ps \<Longrightarrow> (\<And>p. p \<in> set ps \<Longrightarrow> GetNextPageId (V' p) = GetNextPageId (V p)) \<Longrightarrow> linked V' ps"
  by (induction V ps rule: linked.induct) auto

lemma linked_suffix: "linked V (ps @ qs) \<Longrightarrow> linked V qs"
proof (induction ps)
  case (Cons p ps)
  then show ?case by (cases "ps @ qs") auto
qed simp

lemma linked_snoc:
  "linked V (ps @ [p]) \<Longrightarrow> (\<And>q. q \<in> set ps \<Longrightarrow> V' q = V q) \<Longrightarrow> GetNextPageId (V' p) = q \<Longrightarrow>
   GetNextPageId (V' q) = INVALID_PAGE_ID \<Longrightarrow> linked V' (ps @ [p, q])"
proof (induction ps)
  case (Cons a ps)
  then show ?case by (cases ps) auto
qed simp

lemma linked_next: "linked V (p # ps) \<Longrightarrow> GetNextPageId (V p) = (case ps of [] \<Rightarrow> INVALID_PAGE_ID | q # _ \<Rightarrow> q)"
  by (cases ps) auto

text \<open>
  Why the pool refuses a frame to an operation that makes \<open>n\<close> accesses and pins \<open>m\<close> frames at a time:
  the access clock is about to run out (fewer than \<open>n\<close> accesses are left), or too few frames are free.
\<close>

definition exhausted :: "nat \<Rightarrow> nat \<Rightarrow> nat \<Rightarrow> (page_id \<Rightarrow> int) \<Rightarrow> heap_pool \<Rightarrow> bool" where
  "exhausted n m L P b \<longleftrightarrow> (n \<le> L \<longrightarrow> pool_size b < card {q. 0 < P q} + m)"

lemma fetch_exhausted:
  "pool_at W P V S L F (b :: heap_pool) \<Longrightarrow> p \<in> S \<Longrightarrow> FetchPage b p = Inr (None, b) \<Longrightarrow> exhausted 1 1 L P b"
  using fetch_at [of W P V S L F b p] by (auto simp: exhausted_def)

lemma insert_round_room:
  assumes at: "pool_at {} P V S L F b" "p \<in> S" and ins: "Page_InsertTuple (V p) bs = Inr (Some s, d)"
  shows "insert_round bs b (p, ()) = Inr (Inl None, b) \<and> exhausted 1 1 L P b \<or>
    (\<exists>b'. insert_round bs b (p, ()) = Inr (Inl (Some (RID p s)), b') \<and>
       pool_at {} P (V(p := d)) S (L - 1) F b' \<and> pool_size b' = pool_size b)"
  using fetch_at [OF at]
proof (elim disjE exE conjE)
  fix f b1 assume f: "FetchPage b p = Inr (Some f, b1)"
  from change_at [OF at f, of d] obtain b2 where
    "page_read b1 f = V p" "UnpinPage (page_write b1 f d) p True = (True, b2)"
    "pool_at {} P (V(p := d)) S (L - 1) F b2" "pool_size b2 = pool_size b" by auto
  then show ?thesis using f ins by (auto simp: insert_round_def)
qed (use at fetch_exhausted in \<open>auto simp: insert_round_def\<close>)

lemma insert_round_next:
  assumes at: "pool_at {} P V S L F b" "p \<in> S" and ins: "Page_InsertTuple (V p) bs = Inr (None, V p)"
    and nx: "GetNextPageId (V p) \<noteq> INVALID_PAGE_ID"
  shows "insert_round bs b (p, ()) = Inr (Inl None, b) \<and> exhausted 1 1 L P b \<or>
    (\<exists>b'. insert_round bs b (p, ()) = Inr (Inr (GetNextPageId (V p), ()), b') \<and>
       pool_at {} P V S (L - 1) F b' \<and> pool_size b' = pool_size b)"
  using fetch_at [OF at]
proof (elim disjE exE conjE)
  fix f b1 assume f: "FetchPage b p = Inr (Some f, b1)"
  from visit_at [OF at _ f] obtain b2 where
    "page_read b1 f = V p" "UnpinPage b1 p False = (True, b2)"
    "pool_at {} P V S (L - 1) F b2" "pool_size b2 = pool_size b" by auto
  then show ?thesis using f ins nx by (auto simp: insert_round_def Let_def)
qed (use at fetch_exhausted in \<open>auto simp: insert_round_def\<close>)

lemma insert_round_append:
  assumes at: "pool_at {} P V S L F b" "p \<in> S" and ins: "Page_InsertTuple (V p) bs = Inr (None, V p)"
    and nx: "GetNextPageId (V p) = INVALID_PAGE_ID"
    and new: "Page_InsertTuple (Init INVALID_PAGE_ID) bs = Inr (so, d)"
  shows "(\<exists>b'. insert_round bs b (p, ()) = Inr (Inl None, b') \<and> exhausted 2 2 L P b \<and>
       pool_at {} P V S (L - 1) F b' \<and> pool_size b' = pool_size b) \<or>
    (\<exists>b'. insert_round bs b (p, ()) = Inr (Inl (map_option (RID F) so), b') \<and>
       pool_at {} P (V(p := SetNextPageId (V p) F, F := d)) (insert F S) (L - 2) (F + 1) b' \<and>
       F \<notin> S \<and> 0 \<le> F \<and> pool_size b' = pool_size b)"
  using fetch_at [OF at]
proof (elim disjE exE conjE)
  assume n: "FetchPage b p = Inr (None, b)" "0 < L \<longrightarrow> \<not> 0 < P p \<and> pool_size b \<le> card {q. 0 < P q}"
  then have "exhausted 2 2 L P b" by (auto simp: exhausted_def)
  with n(1) show ?thesis
    using pool_at_weaken [OF at(1) subset_refl, of "L - 1" V] by (simp add: insert_round_def)
next
  fix f b1
  let ?P1 = "P(p := P p + 1)"
  assume f: "FetchPage b p = Inr (Some f, b1)" "pool_at {} ?P1 V S (L - 1) F b1"
    "holds b1 f p" "pool_size b1 = pool_size b"
  have pp: "0 < ?P1 p" using pool_at_nonneg [OF at(1), of p] by simp
  have rd: "page_read b1 f = V p" using pool_at_read [OF f(2) at(2) f(3)] .
  from new_at [OF f(2)] show ?thesis
  proof (elim disjE exE conjE)
    assume n: "NewPage b1 = Inr (None, b1)" "0 < L - 1 \<longrightarrow> pool_size b1 \<le> card {q. 0 < ?P1 q}"
    from unpin_at [OF f(2) pp, of False, unfolded pin_unpin] obtain b2 where
      b2: "UnpinPage b1 p False = (True, b2)" "pool_at {} P V S (L - 1) F b2" "pool_size b2 = pool_size b1"
      by (auto simp del: fun_upd_apply)
    have "card {q. 0 < ?P1 q} \<le> card {q. 0 < P q} + 1"
      using pool_at_nonneg [OF at(1)] by (rule card_pin)
    then have "exhausted 2 2 L P b" using n(2) f(4) by (auto simp: exhausted_def)
    moreover have "insert_round bs b (p, ()) = Inr (Inl None, b2)"
      using f(1) rd ins nx n(1) b2(1) by (simp add: insert_round_def Let_def)
    ultimately show ?thesis using b2 f(4) by auto
  next
    fix g b2
    assume n: "NewPage b1 = Inr (Some (F, g), b2)"
      "pool_at (insert F {}) (?P1(F := 1)) (V(F := 0)) (insert F S) (L - 1 - 1) (F + 1) b2" "holds b2 g F"
      "F \<notin> S" "0 \<le> F" "?P1 F = 0" "\<forall>g q. 0 < ?P1 q \<longrightarrow> holds b1 g q \<longrightarrow> holds b2 g q" "pool_size b2 = pool_size b1"
    have Fp: "F \<noteq> p" using n(4) at(2) by auto
    let ?I = "Init INVALID_PAGE_ID"
    define P2 where "P2 = ?P1(F := 1)"
    define b3 where "b3 = page_write b2 g ?I"
    have P2: "0 < P2 F" "0 < P2 p" "P2 F = 1" "P2 p = P p + 1" using pp Fp by (auto simp: P2_def)
    have 3: "pool_at {F} P2 (V(F := ?I)) (insert F S) (L - 2) (F + 1) b3" "holds b3 = holds b2" "pool_size b3 = pool_size b"
      using write_at [OF n(2,3), of ?I] P2(1) n(8) f(4) by (auto simp: b3_def P2_def numeral_2_eq_2)
    have h3: "holds b3 f p" "holds b3 g F" using n(3,7) f(3) pp 3(2) by auto
    have rd3: "page_read b3 f = V p" using pool_at_read [OF 3(1) _ h3(1)] at(2) Fp by auto
    define b4 where "b4 = page_write b3 f (SetNextPageId (V p) F)"
    define V4 where "V4 = V(F := ?I, p := SetNextPageId (V p) F)"
    have 4: "pool_at {F, p} P2 V4 (insert F S) (L - 2) (F + 1) b4" "holds b4 = holds b2" "pool_size b4 = pool_size b"
      using write_at [OF 3(1) h3(1) P2(2), of "SetNextPageId (V p) F"] at(2) 3(2,3)
      by (auto simp: b4_def V4_def insert_commute)
    from unpin_at [OF 4(1) P2(2), of True] obtain b5 where b5: "UnpinPage b4 p True = (True, b5)"
      "pool_at ({F, p} - {p}) (P2(p := P2 p - 1)) V4 (insert F S) (L - 2) (F + 1) b5" "holds b5 = holds b4" "pool_size b5 = pool_size b4"
      by blast
    have W5: "{F, p} - {p} = {F}" using Fp by auto
    have P5: "0 < (P2(p := P2 p - 1)) F" using P2 Fp by simp
    have h5: "holds b5 g F" using n(3) b5(3) 4(2) by simp
    have rd5: "page_read b5 g = ?I" using pool_at_read [OF b5(2) _ h5] Fp by (simp add: V4_def)
    define b6 where "b6 = page_write b5 g d"
    have 6: "pool_at {F} (P2(p := P2 p - 1)) (V4(F := d)) (insert F S) (L - 2) (F + 1) b6" "pool_size b6 = pool_size b"
      using write_at [OF b5(2)[unfolded W5] h5 P5, of d] b5(4) 4(3)
      by (simp_all add: b6_def del: fun_upd_apply)
    from unpin_at [OF 6(1) P5, of True] obtain b7 where b7: "UnpinPage b6 F True = (True, b7)"
      "pool_at ({F} - {F}) ((P2(p := P2 p - 1))(F := (P2(p := P2 p - 1)) F - 1)) (V4(F := d)) (insert F S) (L - 2) (F + 1) b7"
      "pool_size b7 = pool_size b6"
      by blast
    have same_pins: "(P2(p := P2 p - 1))(F := (P2(p := P2 p - 1)) F - 1) = P"
      using Fp n(6) by (auto simp: P2_def fun_eq_iff)
    have "V4(F := d) = V(p := SetNextPageId (V p) F, F := d)"
      using Fp by (auto simp: V4_def fun_eq_iff)
    then have "pool_at {} P (V(p := SetNextPageId (V p) F, F := d)) (insert F S) (L - 2) (F + 1) b7"
      using b7(2) by (simp only: same_pins Diff_cancel)
    moreover have "insert_round bs b (p, ()) = Inr (Inl (map_option (RID F) so), b7)"
      using f(1) rd ins nx n(1) rd3 rd5 new b5(1) b7(1)
      by (simp add: insert_round_def Let_def b3_def [symmetric] b4_def [symmetric] b6_def [symmetric])
    ultimately show ?thesis using n(4,5) b7(3) 6(2) by auto
  qed
qed

text \<open>What a change of one page, and an appended page, mean for the heap.\<close>

lemma unat_eq_iff_16: "k < 2 ^ 16 \<Longrightarrow> unat (s :: 16 word) = k \<longleftrightarrow> s = of_nat k"
  using unat_of_nat_16 [of k] by (auto simp: word_eq_iff_unsigned)

lemma heap_pagesD:
  assumes "heap_pages V ps" "p \<in> set ps"
  shows "page_inv (V p)" "0 \<le> p" "p \<noteq> INVALID_PAGE_ID"
  using assms by (auto simp: heap_pages_def INVALID_PAGE_ID_def)

lemma heap_pages_change:
  assumes "heap_pages V ps" "page_inv d" "GetNextPageId d = GetNextPageId (V p)"
  shows "heap_pages (V(p := d)) ps"
proof -
  have "linked (V(p := d)) ps"
    by (rule linked_cong [of V]) (use assms in \<open>auto simp: heap_pages_def\<close>)
  then show ?thesis using assms by (auto simp: heap_pages_def)
qed

lemma heap_map_change:
  assumes "p \<in> set ps" "tuple_at d = (tuple_at (V p))(unat slot := x)"
  shows "heap_map (V(p := d)) ps = (heap_map V ps)(RID p slot := x)"
proof
  fix r
  obtain q s where r: "r = RID q s" by (cases r)
  show "heap_map (V(p := d)) ps r = ((heap_map V ps)(RID p slot := x)) r"
    using assms by (cases "q = p"; cases "s = slot") (auto simp: heap_map_def r word_eq_iff_unsigned [where 'a = nat])
qed

lemma heap_map_same: "(\<And>p. p \<in> set ps \<Longrightarrow> tuple_at (V' p) = tuple_at (V p)) \<Longrightarrow> heap_map V' ps = heap_map V ps"
  by (auto simp: heap_map_def fun_eq_iff)

lemma heap_map_snoc_empty:
  assumes "F \<notin> set ps" "tuple_at (V' F) = (\<lambda>_. None)" "\<And>p. p \<in> set ps \<Longrightarrow> tuple_at (V' p) = tuple_at (V p)"
  shows "heap_map V' (ps @ [F]) = heap_map V ps"
  using assms by (auto simp: heap_map_def fun_eq_iff)

lemma heap_pages_append:
  assumes hp: "heap_pages V (pre @ [p])" and F: "F \<notin> set (pre @ [p])" "0 \<le> F" "F < 2 ^ 31"
    and d: "page_inv d" "GetNextPageId d = INVALID_PAGE_ID"
  shows "heap_pages (V(p := SetNextPageId (V p) F, F := d)) (pre @ [p, F])"
proof -
  have dist: "distinct (pre @ [p])" and li: "linked V (pre @ [p])" and pi: "\<And>q. q \<in> set (pre @ [p]) \<Longrightarrow> 0 \<le> q \<and> page_inv (V q)"
    using hp by (auto simp: heap_pages_def)
  have sn: "page_inv (SetNextPageId (V p) F)" "GetNextPageId (SetNextPageId (V p) F) = F"
    using SetNextPageId_ok [of "V p" F] pi [of p] F by (auto simp: int32_def)
  have "linked (V(p := SetNextPageId (V p) F, F := d)) (pre @ [p, F])"
    by (rule linked_snoc [OF li]) (use dist F sn d in auto)
  then show ?thesis using dist F sn d pi by (auto simp: heap_pages_def)
qed

lemma insert_page:
  assumes "page_inv d" "bs \<noteq> []" "Page_InsertTuple d bs = Inr (Some s, d')"
  shows "page_inv d'" "GetNextPageId d' = GetNextPageId d" "tuple_at d' = (tuple_at d)(unat s := Some bs)"
    "tuple_at d (unat s) = None"
proof -
  have "\<not> free_space d < length bs + 4" using Page_InsertTuple_full [OF assms(1), of bs] assms(3) by auto
  then obtain e where "Page_InsertTuple d bs = Inr (Some (of_nat (slots d)), e)" "page_inv e"
      "tuple_at e = (tuple_at d)(slots d := Some bs)" "GetNextPageId e = GetNextPageId d"
    using Page_InsertTuple_ok [OF assms(1), of bs] assms(2) by auto
  moreover have "unat (of_nat (slots d) :: 16 word) = slots d"
    using page_invD(3) [OF assms(1)] by (simp add: unat_of_nat_16)
  ultimately show "page_inv d'" "GetNextPageId d' = GetNextPageId d" "tuple_at d' = (tuple_at d)(unat s := Some bs)"
    "tuple_at d (unat s) = None"
    using assms(3) by (auto simp: tuple_at_def)
qed

lemma page_insert_cases:
  assumes "page_inv d"
  obtains "free_space d < length bs + 4" "Page_InsertTuple d bs = Inr (None, d)"
  | s d' where "length bs + 4 \<le> free_space d" "Page_InsertTuple d bs = Inr (Some s, d')"
  using Page_InsertTuple_full [OF assms, of bs] Page_InsertTuple_ok [OF assms, of bs] by (metis not_le)

section \<open>InsertTuple\<close>

text \<open>The outcome of an insertion: the heap \<open>V', ps'\<close> after it, in relation to the heap \<open>V, ps\<close> before.\<close>

definition inserted :: "byte list \<Rightarrow> rid option \<Rightarrow> (page_id \<Rightarrow> table_data) \<Rightarrow> page_id list \<Rightarrow>
    (page_id \<Rightarrow> table_data) \<Rightarrow> page_id list \<Rightarrow> page_id \<Rightarrow> bool" where
  "inserted bs r V ps V' ps' F \<longleftrightarrow> heap_pages V' ps' \<and> (ps' = ps \<or> ps' = ps @ [F]) \<and>
     (\<forall>q. q \<notin> set ps' \<longrightarrow> V' q = V q) \<and>
     (case r of None \<Rightarrow> heap_map V' ps' = heap_map V ps
      | Some rid \<Rightarrow> heap_map V ps rid = None \<and> heap_map V' ps' = (heap_map V ps)(rid \<mapsto> bs))"

lemma inserted_none: "heap_pages V ps \<Longrightarrow> inserted bs None V ps V ps F"
  by (simp add: inserted_def)

lemma inserted_room:
  assumes hp: "heap_pages V ps" and p: "p \<in> set ps" and bs: "bs \<noteq> []"
    and ins: "Page_InsertTuple (V p) bs = Inr (Some s, d)"
  shows "inserted bs (Some (RID p s)) V ps (V(p := d)) ps F"
proof -
  note i = insert_page [OF heap_pagesD(1) [OF hp p] bs ins]
  show ?thesis
    using heap_pages_change [OF hp i(1,2)] heap_map_change [of p ps d V s "Some bs", OF p i(3)] i(4) p
    by (simp add: inserted_def heap_map_def [of V])
qed

lemma inserted_append:
  assumes hp: "heap_pages V (pre @ [p])" and F: "F \<notin> set (pre @ [p])" "0 \<le> F" "F < 2 ^ 31" and bs: "bs \<noteq> []"
    and ins: "Page_InsertTuple (Init INVALID_PAGE_ID) bs = Inr (so, d)"
  shows "inserted bs (map_option (RID F) so) V (pre @ [p]) (V(p := SetNextPageId (V p) F, F := d)) (pre @ [p, F]) F"
proof -
  let ?I = "Init INVALID_PAGE_ID" let ?V = "\<lambda>d. V(p := SetNextPageId (V p) F, F := d)"
  have nI: "GetNextPageId ?I = INVALID_PAGE_ID" by (simp add: Init_next int32_def INVALID_PAGE_ID_def)
  have Fp: "F \<noteq> p" using F by auto
  have tp: "tuple_at (?V d q) = tuple_at (V q)" if "q \<in> set (pre @ [p])" for d q
    using SetNextPageId_ok [of "V p" F] heap_pagesD(1) [OF hp, of p] that F by auto
  have base: "heap_map (?V ?I) (pre @ [p, F]) = heap_map V (pre @ [p])"
    using heap_map_snoc_empty [of F "pre @ [p]" "?V ?I" V] F(1) tp [of _ ?I] Init_ok(3) by simp
  show ?thesis
  proof (cases so)
    case None
    then have "d = ?I" using ins page_insert_cases [OF Init_ok(1) [of INVALID_PAGE_ID], of bs] by fastforce
    then show ?thesis
      using None base heap_pages_append [OF hp F, of ?I] Init_ok(1) nI by (simp add: inserted_def)
  next
    case (Some s)
    note i = insert_page [OF Init_ok(1) bs ins [unfolded Some]]
    have hm: "heap_map ((?V ?I)(F := d)) (pre @ [p, F]) = (heap_map (?V ?I) (pre @ [p, F]))(RID F s \<mapsto> bs)"
      by (rule heap_map_change) (use i(3) in auto)
    have "heap_map (?V d) (pre @ [p, F]) = (heap_map V (pre @ [p]))(RID F s \<mapsto> bs)"
      using hm unfolding base by simp
    moreover have "heap_map V (pre @ [p]) (RID F s) = None" using F(1) by (simp add: heap_map_def)
    ultimately show ?thesis
      using Some heap_pages_append [OF hp F i(1)] i(2) nI by (simp add: inserted_def)
  qed
qed

lemma walk_unfold:
  assumes "fst c \<noteq> INVALID_PAGE_ID"
  shows "rnd s c = Inr (Inl r, s') \<Longrightarrow> walk rnd dflt s c = Some (Inr (r, s'))"
    and "rnd s c = Inr (Inr c', s') \<Longrightarrow> walk rnd dflt s c = walk rnd dflt s' c'"
  using assms by (subst walk.simps; simp)+

lemma insert_walk:
  assumes "pool_at {} P V S L F b" and "heap_pages V (pre @ suf)" and "set (pre @ suf) \<subseteq> S" and "suf \<noteq> []"
    and "F < 2 ^ 31" and "bs \<noteq> []"
  shows "\<exists>r b' V' S' ps' F'. walk (insert_round bs) None b (hd suf, ()) = Some (Inr (r, b')) \<and>
    pool_at {} P V' S' (L - (length suf + 1)) F' b' \<and> S \<subseteq> S' \<and> set ps' \<subseteq> S' \<and> F' \<le> F + 1 \<and>
    inserted bs r V (pre @ suf) V' ps' F \<and> pool_size b' = pool_size b \<and>
    (r = None \<longrightarrow> 4076 < length bs \<or> exhausted (length suf + 1) 2 L P b)"
  using assms
proof (induction suf arbitrary: pre b L)
  case (Cons p suf)
  let ?ps = "pre @ p # suf"
  note at = Cons.prems(1)
  have pS: "p \<in> S" "p \<in> set ?ps" using Cons.prems(3) by auto
  have pv: "p \<noteq> INVALID_PAGE_ID" using heap_pagesD(3) [OF Cons.prems(2) pS(2)] .
  have nx: "GetNextPageId (V p) = (case suf of [] \<Rightarrow> INVALID_PAGE_ID | q # _ \<Rightarrow> q)"
    using Cons.prems(2) linked_suffix [of V pre "p # suf"] linked_next [of V p suf] by (simp add: heap_pages_def)
  have stay: "pool_at {} P V S (L - (length (p # suf) + 1)) F b'" if "pool_at {} P V S (L - n) F b'" "n \<le> 2" for b' n
    by (rule pool_at_weaken [OF that(1)]) (use that(2) in auto)
  have ex: "exhausted (length (p # suf) + 1) 2 L P b" if "exhausted n m L P b" "n \<le> 2" "m \<le> 2" for n m
    using that by (auto simp: exhausted_def)
  note fin = walk_unfold(1) [of "(p, ())" "insert_round bs" b _ _ None]
  from page_insert_cases [OF heap_pagesD(1) [OF Cons.prems(2) pS(2)], of bs] show ?case
  proof cases
    case (2 s d)
    from insert_round_room [OF at pS(1) 2(2)] show ?thesis
    proof (elim disjE exE conjE)
      assume "insert_round bs b (p, ()) = Inr (Inl None, b)" "exhausted 1 1 L P b"
      then show ?thesis
        using fin [of None b] pv stay [of 0 b] at inserted_none [OF Cons.prems(2)] ex [of 1 1] Cons.prems(3)
        by (intro exI [of _ None] exI [of _ b] exI [of _ V] exI [of _ S] exI [of _ ?ps] exI [of _ F]) simp
    next
      fix b' assume b': "insert_round bs b (p, ()) = Inr (Inl (Some (RID p s)), b')"
        "pool_at {} P (V(p := d)) S (L - 1) F b'" "pool_size b' = pool_size b"
      have "pool_at {} P (V(p := d)) S (L - (length (p # suf) + 1)) F b'"
        by (rule pool_at_weaken [OF b'(2)]) auto
      then show ?thesis
        using fin [of "Some (RID p s)" b'] pv b' inserted_room [OF Cons.prems(2) pS(2) Cons.prems(6) 2(2)] Cons.prems(3)
        by (intro exI [of _ "Some (RID p s)"] exI [of _ b'] exI [of _ "V(p := d)"] exI [of _ S] exI [of _ ?ps] exI [of _ F])
            (simp del: fun_upd_apply)
    qed
  next
    case full: 1
    show ?thesis
    proof (cases suf)
      case Nil
      then have nv: "GetNextPageId (V p) = INVALID_PAGE_ID" using nx by simp
      obtain so d where new: "Page_InsertTuple (Init INVALID_PAGE_ID) bs = Inr (so, d)"
        by (rule page_insert_cases [OF Init_ok(1) [of INVALID_PAGE_ID], of bs]) blast+
      from insert_round_append [OF at pS(1) full(2) nv new] show ?thesis
      proof (elim disjE exE conjE)
        fix b' assume "insert_round bs b (p, ()) = Inr (Inl None, b')" "exhausted 2 2 L P b"
          "pool_at {} P V S (L - 1) F b'" "pool_size b' = pool_size b"
        then show ?thesis
          using fin [of None b'] pv stay [of 1 b'] inserted_none [OF Cons.prems(2)] ex [of 2 2] Cons.prems(3)
          by (intro exI [of _ None] exI [of _ b'] exI [of _ V] exI [of _ S] exI [of _ ?ps] exI [of _ F]) simp
      next
        fix b' assume b': "insert_round bs b (p, ()) = Inr (Inl (map_option (RID F) so), b')"
          "pool_at {} P (V(p := SetNextPageId (V p) F, F := d)) (insert F S) (L - 2) (F + 1) b'"
          "F \<notin> S" "0 \<le> F" "pool_size b' = pool_size b"
        have big: "4076 < length bs" if "so = None"
          using page_insert_cases [OF Init_ok(1) [of INVALID_PAGE_ID], of bs] new that Init_ok(4) by fastforce
        have "inserted bs (map_option (RID F) so) V (pre @ [p]) (V(p := SetNextPageId (V p) F, F := d)) (pre @ [p, F]) F"
          by (rule inserted_append) (use Cons.prems b' new Nil in auto)
        then show ?thesis
          using fin [OF _ b'(1)] pv b' b'(2) [unfolded numeral_2_eq_2] big Nil Cons.prems(3)
          by (intro exI [of _ "map_option (RID F) so"] exI [of _ b'] exI [of _ "V(p := SetNextPageId (V p) F, F := d)"]
              exI [of _ "insert F S"] exI [of _ "pre @ [p, F]"] exI [of _ "F + 1"]) (auto simp del: fun_upd_apply)
      qed
    next
      case (Cons q qs)
      have "q \<in> set ?ps" using Cons by simp
      then have nv: "GetNextPageId (V p) \<noteq> INVALID_PAGE_ID" "GetNextPageId (V p) = hd suf"
        using nx Cons heap_pagesD(3) [OF Cons.prems(2)] by auto
      from insert_round_next [OF at pS(1) full(2) nv(1)] show ?thesis
      proof (elim disjE exE conjE)
        assume "insert_round bs b (p, ()) = Inr (Inl None, b)" "exhausted 1 1 L P b"
        then show ?thesis
          using fin [of None b] pv stay [of 0 b] at inserted_none [OF Cons.prems(2)] ex [of 1 1] Cons.prems(3)
          by (intro exI [of _ None] exI [of _ b] exI [of _ V] exI [of _ S] exI [of _ ?ps] exI [of _ F]) simp
      next
        fix b1 assume b1: "insert_round bs b (p, ()) = Inr (Inr (GetNextPageId (V p), ()), b1)"
          "pool_at {} P V S (L - 1) F b1" "pool_size b1 = pool_size b"
        have hp: "heap_pages V ((pre @ [p]) @ suf)" "set ((pre @ [p]) @ suf) \<subseteq> S" using Cons.prems(2,3) by auto
        have w: "walk (insert_round bs) None b (p, ()) = walk (insert_round bs) None b1 (hd suf, ())"
          using walk_unfold(2) [of "(p, ())" "insert_round bs" b "(hd suf, ())" b1 None] pv b1(1) nv(2) by simp
        have len: "L - 1 - (length suf + 1) = L - (length (p # suf) + 1)" by simp
        have exh: "exhausted (length suf + 1) 2 (L - 1) P b1 \<Longrightarrow> exhausted (length (p # suf) + 1) 2 L P b"
          using b1(3) by (auto simp: exhausted_def)
        have ps: "(pre @ [p]) @ suf = ?ps" by simp
        from Cons.IH [OF b1(2) hp _ Cons.prems(5,6)] Cons
        obtain r b' V' S' ps' F' where "walk (insert_round bs) None b1 (hd suf, ()) = Some (Inr (r, b'))"
          "pool_at {} P V' S' (L - 1 - (length suf + 1)) F' b'" "S \<subseteq> S'" "set ps' \<subseteq> S'" "F' \<le> F + 1"
          "inserted bs r V ((pre @ [p]) @ suf) V' ps' F" "pool_size b' = pool_size b1"
          "r = None \<longrightarrow> 4076 < length bs \<or> exhausted (length suf + 1) 2 (L - 1) P b1"
          by auto
        then show ?thesis using w exh b1(3) unfolding len ps by (metis list.sel(1))
      qed
    qed
  qed
qed simp

section \<open>Scans\<close>

definition live_slots :: "table_data \<Rightarrow> nat \<Rightarrow> nat list" where
  "live_slots d k = filter (\<lambda>i. 0 < slot_len d i) [k..<slots d]"

definition live_from :: "(page_id \<Rightarrow> table_data) \<Rightarrow> page_id \<Rightarrow> nat \<Rightarrow> rid list" where
  "live_from V p k = map (\<lambda>i. RID p (of_nat i)) (live_slots (V p) k)"

text \<open>The live records of a heap, in the order of the pages and of the slots.\<close>

definition live :: "(page_id \<Rightarrow> table_data) \<Rightarrow> page_id list \<Rightarrow> rid list" where
  "live V ps = concat (map (\<lambda>p. live_from V p 0) ps)"

lemma live_simps [simp]: "live V [] = []" "live V (p # ps) = live_from V p 0 @ live V ps"
  by (simp_all add: live_def)

lemma live_slots_step:
  "k < slots d \<Longrightarrow> live_slots d k = (if 0 < slot_len d k then k # live_slots d (Suc k) else live_slots d (Suc k))"
  "\<not> k < slots d \<Longrightarrow> live_slots d k = []"
  by (simp_all add: live_slots_def upt_conv_Cons)

lemma next_slot_ok:
  assumes "page_inv d"
  shows "next_slot d slot = Inr (case live_slots d (unat slot) of [] \<Rightarrow> None | i # _ \<Rightarrow> Some (of_nat i))"
  using assms
proof (induction d slot rule: next_slot.induct)
  case (1 d slot)
  show ?case
  proof (cases "unat slot < slots d")
    case True
    then obtain n where n: "Page_GetTupleSize d slot = Inr n" "unat n = slot_len d (unat slot)"
      using Page_GetTupleSize_ok [OF 1(2)] by blast
    have pos: "n > 0 \<longleftrightarrow> 0 < slot_len d (unat slot)" using n(2) by (simp add: word_less_nat_alt)
    have suc: "unat (slot + 1) = Suc (unat slot)" using slot_bound(1) [OF n(1)] .
    show ?thesis
    proof (cases "n > 0")
      case True
      then show ?thesis
        using \<open>unat slot < slots d\<close> n pos
        by (subst next_slot.simps) (simp add: live_slots_step(1) slots_def)
    next
      case False
      then have "next_slot d slot = next_slot d (slot + 1)"
        using \<open>unat slot < slots d\<close> n by (subst next_slot.simps) (simp add: slots_def)
      then show ?thesis
        using 1(1) [OF _ n(1) False 1(2)] \<open>unat slot < slots d\<close> False pos suc
        by (simp add: live_slots_step(1) slots_def)
    qed
  next
    case False
    then show ?thesis by (subst next_slot.simps) (simp add: live_slots_step(2) slots_def)
  qed
qed

lemma live_from_nil: "live_slots (V p) k = [] \<longleftrightarrow> live_from V p k = []"
  by (simp add: live_from_def)

lemma scan_round_ok:
  assumes at: "pool_at {} P V S L F b" "p \<in> S" and inv: "page_inv (V p)"
  shows "scan_round b (p, slot) = Inr (Inl Heap_End, b) \<and> exhausted 1 1 L P b \<or>
    (\<exists>b'. scan_round b (p, slot) =
         Inr (case live_from V p (unat slot) of r # _ \<Rightarrow> Inl r | [] \<Rightarrow> Inr (GetNextPageId (V p), 0), b') \<and>
       pool_at {} P V S (L - 1) F b' \<and> pool_size b' = pool_size b)"
  using fetch_at [OF at]
proof (elim disjE exE conjE)
  fix f b1 assume f: "FetchPage b p = Inr (Some f, b1)"
  from visit_at [OF at _ f] obtain b2 where b2: "page_read b1 f = V p" "UnpinPage b1 p False = (True, b2)"
    "pool_at {} P V S (L - 1) F b2" "pool_size b2 = pool_size b" by auto
  show ?thesis
  proof (cases "live_slots (V p) (unat slot)")
    case Nil
    then show ?thesis
      using f b2 next_slot_ok [OF inv, of slot] by (simp add: scan_round_def Let_def live_from_def)
  next
    case (Cons i ks)
    then show ?thesis
      using f b2 next_slot_ok [OF inv, of slot] by (simp add: scan_round_def Let_def live_from_def)
  qed
qed (use at fetch_exhausted in \<open>auto simp: scan_round_def Heap_End_def\<close>)

lemma scan_walk:
  assumes "pool_at {} P V S L F b" and "set (p # suf) \<subseteq> S" and "\<forall>q \<in> set (p # suf). page_inv (V q) \<and> 0 \<le> q"
    and "linked V (p # suf)"
  shows "\<exists>r b'. walk scan_round Heap_End b (p, slot) = Some (Inr (r, b')) \<and>
    pool_at {} P V S (L - length (p # suf)) F b' \<and> pool_size b' = pool_size b \<and>
    (r = hd (live_from V p (unat slot) @ live V suf @ [Heap_End]) \<or> exhausted (length (p # suf)) 1 L P b)"
  using assms
proof (induction suf arbitrary: p slot b L)
  case Nil
  have pv: "p \<noteq> INVALID_PAGE_ID" using Nil.prems(3) by (auto simp: INVALID_PAGE_ID_def)
  have pS: "p \<in> S" "page_inv (V p)" using Nil.prems by auto
  from scan_round_ok [OF Nil.prems(1) pS, of slot] show ?case
  proof (elim disjE exE conjE)
    assume "scan_round b (p, slot) = Inr (Inl Heap_End, b)" "exhausted 1 1 L P b"
    then show ?thesis
      using walk_unfold(1) [of "(p, slot)" scan_round b] pv pool_at_weaken [OF Nil.prems(1) subset_refl, of "L - 1" V] by simp
  next
    fix b' assume b': "scan_round b (p, slot) =
         Inr (case live_from V p (unat slot) of r # _ \<Rightarrow> Inl r | [] \<Rightarrow> Inr (GetNextPageId (V p), 0), b')"
       "pool_at {} P V S (L - 1) F b'" "pool_size b' = pool_size b"
    show ?thesis
    proof (cases "live_from V p (unat slot)")
      case Nil
      then have "walk scan_round Heap_End b (p, slot) = walk scan_round Heap_End b' (INVALID_PAGE_ID, 0)"
        using walk_unfold(2) [of "(p, slot)" scan_round b] pv b'(1) Nil.prems(4) by simp
      then show ?thesis using b' Nil by (subst (asm) (2) walk.simps) simp
    next
      case (Cons r rs)
      then show ?thesis using walk_unfold(1) [of "(p, slot)" scan_round b] pv b' by simp
    qed
  qed
next
  case (Cons q qs)
  have pv: "p \<noteq> INVALID_PAGE_ID" using Cons.prems(3) by (auto simp: INVALID_PAGE_ID_def)
  have pS: "p \<in> S" "page_inv (V p)" using Cons.prems by auto
  from scan_round_ok [OF Cons.prems(1) pS, of slot] show ?case
  proof (elim disjE exE conjE)
    assume "scan_round b (p, slot) = Inr (Inl Heap_End, b)" "exhausted 1 1 L P b"
    moreover have "exhausted (length (p # q # qs)) 1 L P b"
      using calculation(2) by (auto simp: exhausted_def)
    ultimately show ?thesis
      using walk_unfold(1) [of "(p, slot)" scan_round b] pv
        pool_at_weaken [OF Cons.prems(1) subset_refl, of "L - length (p # q # qs)" V] by simp
  next
    fix b1 assume b1: "scan_round b (p, slot) =
         Inr (case live_from V p (unat slot) of r # _ \<Rightarrow> Inl r | [] \<Rightarrow> Inr (GetNextPageId (V p), 0), b1)"
       "pool_at {} P V S (L - 1) F b1" "pool_size b1 = pool_size b"
    show ?thesis
    proof (cases "live_from V p (unat slot)")
      case Nil
      have w: "walk scan_round Heap_End b (p, slot) = walk scan_round Heap_End b1 (q, 0)"
        using walk_unfold(2) [of "(p, slot)" scan_round b] pv b1(1) Nil Cons.prems(4) by simp
      have len: "L - 1 - length (q # qs) = L - length (p # q # qs)" by simp
      have exh: "exhausted (length (q # qs)) 1 (L - 1) P b1 \<Longrightarrow> exhausted (length (p # q # qs)) 1 L P b"
        using b1(3) by (auto simp: exhausted_def)
      from Cons.IH [OF b1(2), of q 0] Cons.prems
      obtain r b' where "walk scan_round Heap_End b1 (q, 0) = Some (Inr (r, b'))"
        "pool_at {} P V S (L - 1 - length (q # qs)) F b'" "pool_size b' = pool_size b1"
        "r = hd (live_from V q 0 @ live V qs @ [Heap_End]) \<or> exhausted (length (q # qs)) 1 (L - 1) P b1"
        by auto
      then show ?thesis using w exh b1(3) Nil unfolding len by auto
    next
      case (Cons r rs)
      have "pool_at {} P V S (L - length (p # q # qs)) F b1"
        by (rule pool_at_weaken [OF b1(2)]) auto
      then show ?thesis using walk_unfold(1) [of "(p, slot)" scan_round b] pv b1 Cons by simp
    qed
  qed
qed

lemma live_slots_split:
  "live_slots d k = i # ks \<Longrightarrow> i < slots d \<and> k \<le> i \<and> 0 < slot_len d i \<and> ks = live_slots d (Suc i)"
proof (induction "slots d - k" arbitrary: k)
  case 0
  then show ?case by (simp add: live_slots_step(2))
next
  case (Suc n)
  then have k: "k < slots d" by simp
  show ?case
  proof (cases "0 < slot_len d k")
    case True
    then show ?thesis using Suc.prems k by (auto simp: live_slots_step(1))
  next
    case False
    then have "live_slots d (Suc k) = i # ks" using Suc.prems k by (simp add: live_slots_step(1))
    moreover have "n = slots d - Suc k" using Suc.hyps(2) by simp
    ultimately have "i < slots d \<and> Suc k \<le> i \<and> 0 < slot_len d i \<and> ks = live_slots d (Suc i)"
      using Suc.hyps(1) [of "Suc k"] by blast
    then show ?thesis by simp
  qed
qed

lemma live_split:
  "live_from V p k @ live V suf = r # rs \<Longrightarrow>
   \<exists>q i pre suf'. p # suf = pre @ q # suf' \<and> r = RID q (of_nat i) \<and> i < slots (V q) \<and> 0 < slot_len (V q) i \<and>
     rs = live_from V q (Suc i) @ live V suf'"
proof (induction suf arbitrary: p k)
  case Nil
  then obtain i ks where "live_slots (V p) k = i # ks" "r = RID p (of_nat i)" "rs = map (\<lambda>i. RID p (of_nat i)) ks"
    by (auto simp: live_from_def map_eq_Cons_conv)
  then show ?case
    using live_slots_split [of "V p" k i ks] by (intro exI [of _ p] exI [of _ i] exI [of _ "[]"]) (simp add: live_from_def)
next
  case (Cons p' suf)
  show ?case
  proof (cases "live_slots (V p) k")
    case Nil
    then have "live_from V p' 0 @ live V suf = r # rs" using Cons.prems by (simp add: live_from_def)
    from Cons.IH [OF this] obtain q i pre suf' where "p' # suf = pre @ q # suf'" "r = RID q (of_nat i)"
      "i < slots (V q)" "0 < slot_len (V q) i" "rs = live_from V q (Suc i) @ live V suf'" by blast
    then show ?thesis by (intro exI [of _ q] exI [of _ i] exI [of _ "p # pre"] exI [of _ suf']) simp
  next
    case (Cons i ks)
    then show ?thesis
      using Cons.prems live_slots_split [of "V p" k i ks]
      by (intro exI [of _ p] exI [of _ i] exI [of _ "[]"] exI [of _ "p' # suf"]) (simp add: live_from_def)
  qed
qed

lemma linked_tail: "linked V (pre @ q # suf) \<Longrightarrow> linked V (q # suf)"
  using linked_suffix [of V pre "q # suf"] by simp

text \<open>Each step of the scan costs at most one access per page; \<open>c\<close> is the length of the list of pages.\<close>

lemma scan_from_ok:
  assumes "pool_at {} P V S L F b" and "set ps \<subseteq> S" and "\<forall>q \<in> set ps. page_inv (V q) \<and> 0 \<le> q"
    and "linked V ps" and "ps = pre @ p # suf" and "rs = live_from V p k @ live V suf"
    and "length rs \<le> n" and "length rs * length ps \<le> L" and "card {q. 0 < P q} < pool_size b"
  shows "\<exists>b'. scan_from n b (hd (rs @ [Heap_End])) = Some (Inr (rs, b')) \<and>
    pool_at {} P V S (L - length rs * length ps) F b' \<and> pool_size b' = pool_size b"
  using assms
proof (induction n arbitrary: rs pre p k suf b L)
  case 0
  then show ?case by simp
next
  case (Suc n)
  show ?case
  proof (cases rs)
    case Nil
    then show ?thesis using Suc.prems(1) by simp
  next
    case (Cons r rs')
    with Suc.prems(6) obtain q i pre' suf' where q: "p # suf = pre' @ q # suf'" "r = RID q (of_nat i)"
      "i < slots (V q)" "0 < slot_len (V q) i" "rs' = live_from V q (Suc i) @ live V suf'"
      using live_split [of V p k suf r rs'] by metis
    define pre2 where "pre2 = pre @ pre'"
    have ps: "ps = pre2 @ q # suf'" using Suc.prems(5) q(1) by (simp add: pre2_def)
    then have qv: "page_inv (V q)" "0 \<le> q" "q \<in> set ps" using Suc.prems(3) by auto
    have i16: "i < 2 ^ 16" "Suc i < 2 ^ 16" using page_invD(1,2) [OF qv(1)] q(3) by simp_all
    have ui: "unat (of_nat i + 1 :: 16 word) = Suc i"
      using i16 unat_of_nat_16 [of "Suc i"] by (simp add: add.commute)
    have it: "Iterator_next b r = walk scan_round Heap_End b (q, of_nat i + 1)"
      by (simp add: Iterator_next_def Heap_End_def q(2))
    have nend: "r \<noteq> Heap_End" using qv(2) by (simp add: Heap_End_def q(2) INVALID_PAGE_ID_def)
    have li: "linked V (q # suf')" using Suc.prems(4) ps linked_tail by blast
    have sub: "set (q # suf') \<subseteq> S" "\<forall>x \<in> set (q # suf'). page_inv (V x) \<and> 0 \<le> x"
      using Suc.prems(2,3) ps by auto
    from scan_walk [OF Suc.prems(1) sub li, of "of_nat i + 1"] obtain r2 b1 where b1:
      "walk scan_round Heap_End b (q, of_nat i + 1) = Some (Inr (r2, b1))"
      "pool_at {} P V S (L - length (q # suf')) F b1" "pool_size b1 = pool_size b"
      "r2 = hd (rs' @ [Heap_End]) \<or> exhausted (length (q # suf')) 1 L P b"
      using q(5) by (auto simp: ui)
    have L: "length ps + length rs' * length ps \<le> L" using Suc.prems(8) Cons by simp
    have lq: "length (q # suf') \<le> length ps" using ps by simp
    have "\<not> exhausted (length (q # suf')) 1 L P b" using Suc.prems(9) L lq by (auto simp: exhausted_def)
    then have r2: "r2 = hd (rs' @ [Heap_End])" using b1(4) by blast
    have at1: "pool_at {} P V S (L - length ps) F b1" by (rule pool_at_weaken [OF b1(2)]) (use lq in auto)
    have n: "length rs' \<le> n" "length rs' * length ps \<le> L - length ps" using Suc.prems(7) Cons L by auto
    have len: "L - length ps - length rs' * length ps = L - length rs * length ps" using Cons by simp
    obtain b2 where "scan_from n b1 (hd (rs' @ [Heap_End])) = Some (Inr (rs', b2))"
      "pool_at {} P V S (L - length rs * length ps) F b2" "pool_size b2 = pool_size b1"
      using Suc.IH [OF at1 Suc.prems(2-4) ps q(5) n] Suc.prems(9) b1(3) unfolding len by auto
    then show ?thesis using Cons nend it b1(1,3) r2 by simp
  qed
qed

section \<open>Properties\<close>

text \<open>
  \<open>heap_ok b first ps\<close>: in the pool \<open>b\<close>, the pages \<open>ps\<close> form a well-formed heap that starts at page
  \<open>first\<close>; \<open>heap_contents\<close> is its abstraction, the map from record identifiers to tuples.
\<close>

definition heap_ok :: "heap_pool \<Rightarrow> page_id \<Rightarrow> page_id list \<Rightarrow> bool" where
  "heap_ok b first ps \<longleftrightarrow> pool_ok {} b \<and> heap_pages (page_view b) ps \<and> hd ps = first \<and> (\<forall>p \<in> set ps. stored b p)"

definition heap_contents :: "heap_pool \<Rightarrow> page_id list \<Rightarrow> rid \<Rightarrow> byte list option" where
  "heap_contents b ps = heap_map (page_view b) ps"

text \<open>Enough of the pool is left for \<open>n\<close> accesses that pin \<open>m\<close> frames at a time.\<close>

definition room_for :: "nat \<Rightarrow> nat \<Rightarrow> heap_pool \<Rightarrow> bool" where
  "room_for n m b \<longleftrightarrow> n \<le> pool_life b \<and> card {q. 0 < pins b q} + m \<le> pool_size b"

lemma room_not_exhausted: "room_for n m b \<Longrightarrow> \<not> exhausted n m (pool_life b) (pins b) b"
  by (simp add: room_for_def exhausted_def)

lemma heap_okD:
  assumes "heap_ok b first ps"
  shows "pool_ok {} b" "heap_pages (page_view b) ps" "hd ps = first" "\<And>p. p \<in> set ps \<Longrightarrow> stored b p" "ps \<noteq> []"
  using assms by (auto simp: heap_ok_def heap_pages_def)

lemma heap_ok_at:
  "heap_ok b first ps \<Longrightarrow> pool_at {} (pins b) (page_view b) (set ps) (pool_life b) (next_page_id (disk_manager b)) b"
  by (auto simp: heap_ok_def pool_at_def)

lemma at_heap_ok:
  assumes "pool_at {} P V S L F b" "heap_pages V ps" "set ps \<subseteq> S" "hd ps = first"
  shows "heap_ok b first ps" "heap_contents b ps = heap_map V ps" "pins b = P"
proof -
  have v: "p \<in> set ps \<Longrightarrow> stored b p \<and> page_view b p = V p" for p
    using assms(1,3) by (auto simp: pool_at_def)
  have "linked (page_view b) ps"
    by (rule linked_cong [of V]) (use assms(2) v in \<open>auto simp: heap_pages_def\<close>)
  then show "heap_ok b first ps"
    using assms v by (auto simp: heap_ok_def heap_pages_def pool_at_def)
  show "heap_contents b ps = heap_map V ps"
    unfolding heap_contents_def by (rule heap_map_same) (simp add: v)
  show "pins b = P" using assms(1) by (simp add: pool_at_def)
qed

text \<open>
  C17. \<^verbatim>\<open>InsertTuple\<close> always returns. It stores the tuple under a fresh record identifier and
  changes nothing else in the heap, or it returns no identifier and leaves every record as it was; the
  latter only if the tuple does not fit into an empty page (more than 4076 bytes) or the pool has not
  two frames to spare. Either way the heap stays well formed and the pins are balanced.
\<close>

theorem Heap_InsertTuple_correct:
  assumes "heap_ok b first ps" and "bs \<noteq> []" and "next_page_id (disk_manager b) < 2 ^ 31"
  shows "\<exists>r b' ps'. Heap_InsertTuple b first bs = Some (Inr (r, b')) \<and> heap_ok b' first ps' \<and> pins b' = pins b \<and>
    (case r of
       None \<Rightarrow> heap_contents b' ps' = heap_contents b ps \<and>
         (4076 < length bs \<or> \<not> room_for (length ps + 1) 2 b)
     | Some rid \<Rightarrow> heap_contents b ps rid = None \<and> heap_contents b' ps' = (heap_contents b ps)(rid \<mapsto> bs))"
proof -
  note h = heap_okD [OF assms(1)]
  have hp: "heap_pages (page_view b) ([] @ ps)" "set ([] @ ps) \<subseteq> set ps" using h(2) by auto
  from insert_walk [OF heap_ok_at [OF assms(1)] hp h(5) assms(3,2)] obtain r b' V' S' ps' F' where
    w: "walk (insert_round bs) None b (hd ps, ()) = Some (Inr (r, b'))" "pool_at {} (pins b) V' S' (pool_life b - (length ps + 1)) F' b'"
    "set ps' \<subseteq> S'" "inserted bs r (page_view b) ps V' ps' (next_page_id (disk_manager b))"
    "r = None \<longrightarrow> 4076 < length bs \<or> exhausted (length ps + 1) 2 (pool_life b) (pins b) b"
    by auto
  have "heap_pages V' ps'" "hd ps' = first" using w(4) h(3,5) by (auto simp: inserted_def)
  from at_heap_ok [OF w(2) this(1) w(3) this(2)] w(1,4,5) h(3) room_not_exhausted [of "length ps + 1" 2 b]
  show ?thesis
    by (intro exI [of _ r] exI [of _ b'] exI [of _ ps'])
      (auto simp: Heap_InsertTuple_def inserted_def heap_contents_def split: option.splits)
qed

text \<open>The constructor gives an empty heap.\<close>

lemma TableHeap_at:
  assumes at: "pool_at {} P V S L F (b :: heap_pool)" and "0 < L" "card {q. 0 < P q} < pool_size b"
  shows "\<exists>b'. TableHeap b = Inr (F, b') \<and> pool_at {} P (V(F := Init INVALID_PAGE_ID)) (insert F S) (L - 1) (F + 1) b' \<and>
    F \<notin> S \<and> 0 \<le> F \<and> pool_size b' = pool_size b"
proof -
  let ?I = "Init INVALID_PAGE_ID"
  from new_at [OF at] assms(2,3) obtain f b1 where n: "NewPage b = Inr (Some (F, f), b1)"
    "pool_at {F} (P(F := 1)) (V(F := 0)) (insert F S) (L - 1) (F + 1) b1" "holds b1 f F" "F \<notin> S" "0 \<le> F" "P F = 0" "pool_size b1 = pool_size b" by auto
  define b2 where "b2 = page_write b1 f ?I"
  have pF: "0 < (P(F := 1)) F" by simp
  have w: "pool_at {F} (P(F := 1)) (V(F := 0, F := ?I)) (insert F S) (L - 1) (F + 1) b2" "pool_size b2 = pool_size b"
    using write_at [OF n(2,3) pF, of ?I] n(7) by (simp_all add: b2_def del: fun_upd_apply)
  from unpin_at [OF w(1) pF, of True] obtain b3 where u: "UnpinPage b2 F True = (True, b3)"
    "pool_at ({F} - {F}) (P(F := 1, F := (P(F := 1)) F - 1)) (V(F := 0, F := ?I)) (insert F S) (L - 1) (F + 1) b3"
    "pool_size b3 = pool_size b2" by blast
  have "P(F := 1, F := (P(F := 1)) F - 1) = P" using n(6) by (auto simp: fun_eq_iff)
  then have "pool_at {} P (V(F := ?I)) (insert F S) (L - 1) (F + 1) b3" using u(2) by simp
  moreover have "TableHeap b = Inr (F, b3)" using n(1) u(1) by (simp add: TableHeap_def b2_def)
  ultimately show ?thesis using n(4,5) u(3) w(2) by auto
qed

lemma empty_heap:
  assumes "0 \<le> p" "V p = Init INVALID_PAGE_ID"
  shows "heap_pages V [p]" "heap_map V [p] = (\<lambda>_. None)"
  using assms by (auto simp: heap_pages_def Init_ok Init_next int32_def INVALID_PAGE_ID_def heap_map_def fun_eq_iff)

lemma TableHeap_ok:
  assumes "pool_ok {} b" and "room_for 1 1 b"
  shows "\<exists>p b'. TableHeap b = Inr (p, b') \<and> heap_ok b' p [p] \<and> heap_contents b' [p] = (\<lambda>_. None) \<and>
    pins b' = pins b \<and> pool_life b \<le> pool_life b' + 1 \<and> pool_size b' = pool_size b \<and>
    next_page_id (disk_manager b') = next_page_id (disk_manager b) + 1 \<and> page_view b' p = Init INVALID_PAGE_ID"
proof -
  let ?F = "next_page_id (disk_manager b)"
  have at: "pool_at {} (pins b) (page_view b) {} (pool_life b) ?F b" using assms(1) by (simp add: pool_at_def)
  have "0 < pool_life b" "card {q. 0 < pins b q} < pool_size b" using assms(2) by (simp_all add: room_for_def)
  from TableHeap_at [OF at this] obtain b' where b': "TableHeap b = Inr (?F, b')"
    "pool_at {} (pins b) ((page_view b)(?F := Init INVALID_PAGE_ID)) {?F} (pool_life b - 1) (?F + 1) b'" "0 \<le> ?F" "pool_size b' = pool_size b" by auto
  note e = empty_heap [OF b'(3), of "(page_view b)(?F := Init INVALID_PAGE_ID)", simplified]
  show ?thesis using at_heap_ok [OF b'(2) e(1), of ?F] e(2) b'
    by (intro exI [of _ ?F] exI [of _ b']) (auto simp: pool_at_def)
qed

definition demo_heap_pool :: heap_pool where
  "demo_heap_pool = BufferPoolManager 4 \<lparr>db_file = [], io_failed = False, io_bad = False, faulty = {}, next_page_id = 0, num_pages = 0\<rparr> 2"

lemma demo_heap:
  "\<exists>b p. TableHeap demo_heap_pool = Inr (p, b) \<and> heap_ok b p [p] \<and> heap_contents b [p] = (\<lambda>_. None) \<and>
     room_for 100 2 b \<and> next_page_id (disk_manager b) = 1 \<and> pins b = (\<lambda>_. 0) \<and>
     page_view b p = Init INVALID_PAGE_ID"
proof -
  let ?d = "\<lparr>db_file = [], io_failed = False, io_bad = False, faulty = {}, next_page_id = 0, num_pages = 0\<rparr> :: table_data disk"
  have d: "disk_ok ?d" "0 < (2::nat)" by (simp_all add: disk_ok_def)
  have "pool_ok {} demo_heap_pool"
    using pool_run_ok [OF start [of 4 2 ?d] d] by (simp add: pool_ok_def demo_heap_pool_def)
  moreover have pz: "pins demo_heap_pool = (\<lambda>_. 0)"
    by (simp add: pins_def fun_eq_iff demo_heap_pool_def BufferPoolManager_def cached_def del: map_of_page_table)
  moreover have l: "pool_life demo_heap_pool = SIZE_MAX + 1" "pool_size demo_heap_pool = 4"
      "next_page_id (disk_manager demo_heap_pool) = 0"
    by (simp_all add: pool_life_def demo_heap_pool_def BufferPoolManager_def LRUKReplacer_def)
  moreover have "room_for 1 1 demo_heap_pool" using pz l by (simp add: room_for_def)
  ultimately obtain p b where "TableHeap demo_heap_pool = Inr (p, b)" "heap_ok b p [p]"
    "heap_contents b [p] = (\<lambda>_. None)" "pins b = (\<lambda>_. 0)" "SIZE_MAX + 1 \<le> pool_life b + 1" "pool_size b = 4"
    "next_page_id (disk_manager b) = 1" "page_view b p = Init INVALID_PAGE_ID"
    using TableHeap_ok [of demo_heap_pool] by auto
  then show ?thesis by (auto simp: room_for_def SIZE_MAX_def)
qed

theorem Heap_InsertTuple_correct_witness:
  "\<exists>b first rid b' ps'. TableHeap demo_heap_pool = Inr (first, b) \<and>
     Heap_InsertTuple b first [1, 2, 3] = Some (Inr (Some rid, b')) \<and> heap_contents b' ps' rid = Some [1, 2, 3]"
proof -
  obtain b p where b: "TableHeap demo_heap_pool = Inr (p, b)" "heap_ok b p [p]" "room_for 100 2 b"
    "next_page_id (disk_manager b) = 1" using demo_heap by blast
  have "room_for (length [p] + 1) 2 b" using b(3) by (simp add: room_for_def)
  moreover have "next_page_id (disk_manager b) < 2 ^ 31" using b(4) by simp
  ultimately obtain r b' ps' where r: "Heap_InsertTuple b p [1, 2, 3] = Some (Inr (r, b'))"
    "case r of None \<Rightarrow> 4076 < length [1, 2, 3 :: byte]
      | Some rid \<Rightarrow> heap_contents b' ps' = (heap_contents b [p])(rid \<mapsto> [1, 2, 3])"
    using Heap_InsertTuple_correct [OF b(2), of "[1, 2, 3]"] by (fastforce split: option.splits)
  then show ?thesis
    using b(1) by (intro exI [of _ b] exI [of _ p] exI [of _ "the r"] exI [of _ b'] exI [of _ ps'])
      (cases r; simp)
qed

lemma demo_heap_row:
  assumes bs: "bs \<noteq> []" "length bs \<le> 4076"
  shows "\<exists>b p. heap_ok b p [p] \<and> heap_contents b [p] = (\<lambda>_. None)(RID p 0 \<mapsto> bs) \<and> room_for 50 2 b \<and> next_page_id (disk_manager b) = 1 \<and>
     free_space (page_view b p) = 4076 - length bs \<and> live (page_view b) [p] = [RID p 0]"
proof -
  obtain b p where b: "heap_ok b p [p]" "heap_contents b [p] = (\<lambda>_. None)" "room_for 100 2 b"
    "next_page_id (disk_manager b) = 1" "page_view b p = Init INVALID_PAGE_ID" using demo_heap by blast
  obtain d where d: "Page_InsertTuple (page_view b p) bs = Inr (Some 0, d)" "page_inv d" "slots d = 1"
    "tuple_at d = (tuple_at (page_view b p))(unat (0 :: 16 word) := Some bs)" "free_space d = 4076 - length bs"
    "GetNextPageId d = GetNextPageId (page_view b p)"
    using Page_InsertTuple_ok [of "Init INVALID_PAGE_ID" bs] Init_ok [of INVALID_PAGE_ID] b(5) bs by auto
  have at: "pool_at {} (pins b) (page_view b) {p} (pool_life b) (next_page_id (disk_manager b)) b"
    using heap_ok_at [OF b(1)] by simp
  have "\<not> exhausted 1 1 (pool_life b) (pins b) b" using b(3) by (auto simp: room_for_def exhausted_def)
  with insert_round_room [OF at _ d(1)] obtain b' where b':
    "pool_at {} (pins b) ((page_view b)(p := d)) {p} (pool_life b - 1) (next_page_id (disk_manager b)) b'"
    "pool_size b' = pool_size b" by auto
  have hp: "heap_pages ((page_view b)(p := d)) [p]"
    by (rule heap_pages_change [OF heap_okD(2) [OF b(1)] d(2,6)])
  have hm: "heap_map ((page_view b)(p := d)) [p] = (heap_map (page_view b) [p])(RID p 0 := Some bs)"
    by (rule heap_map_change [of p "[p]" d "page_view b" 0 "Some bs", OF _ d(4)]) simp
  note h' = at_heap_ok [OF b'(1) hp, simplified]
  have v: "page_view b' p = d" using pool_at_view [OF b'(1), of p] by simp
  have "pool_life b - 1 \<le> pool_life b'" using b'(1) by (simp add: pool_at_def)
  then have "room_for 50 2 b'" "next_page_id (disk_manager b') = 1" using b(3,4) h'(3) b'(1,2) by (auto simp: room_for_def pool_at_def)
  moreover have "live (page_view b') [p] = [RID p 0]"
  proof -
    have "tuple_at d 0 = Some bs" using d(4) by simp
    then have "0 < slot_len d 0" by (simp add: tuple_at_def split: if_splits)
    then show ?thesis by (simp add: live_from_def live_slots_def v d(3))
  qed
  moreover have "heap_contents b' [p] = (\<lambda>_. None)(RID p 0 \<mapsto> bs)"
    using h'(2) hm b(2) by (simp add: heap_contents_def)
  ultimately show ?thesis using h'(1) v d(5) by (intro exI [of _ b'] exI [of _ p]) simp
qed

lemma demo_heap_one:
  "\<exists>b p. heap_ok b p [p] \<and> heap_contents b [p] = (\<lambda>_. None)(RID p 0 \<mapsto> [1, 2, 3]) \<and> room_for 1 1 b \<and> room_for 2 1 b \<and> room_for 50 1 b \<and>
     3 \<le> free_space (page_view b p) \<and> live (page_view b) [p] = [RID p 0]"
  using demo_heap_row [of "[1, 2, 3]"] by (fastforce simp: room_for_def)

text \<open>
  \<^verbatim>\<open>GetTuple\<close> returns exactly what the heap holds under the record identifier, and neither changes
  the heap nor leaves a page pinned.
\<close>

theorem Heap_GetTuple_correct:
  assumes "heap_ok b first ps" and "heap_contents b ps rid = Some bs" and "room_for 1 1 b"
  shows "\<exists>b'. Heap_GetTuple b rid = Inr (bs, b') \<and> heap_ok b' first ps \<and>
    heap_contents b' ps = heap_contents b ps \<and> pins b' = pins b"
proof -
  let ?p = "rid_page_id rid" let ?V = "page_view b"
  note h = heap_okD [OF assms(1)] note at = heap_ok_at [OF assms(1)]
  have p: "?p \<in> set ps" "tuple_at (?V ?p) (unat (rid_slot_num rid)) = Some bs"
    using assms(2) by (auto simp: heap_contents_def heap_map_def split: if_splits)
  have "FetchPage b ?p \<noteq> Inr (None, b)" using fetch_exhausted [OF at p(1)] room_not_exhausted [OF assms(3)] by blast
  with fetch_at [OF at p(1)] obtain f b1 where f: "FetchPage b ?p = Inr (Some f, b1)" by blast
  from visit_at [OF at p(1) _ f] obtain b2 where v: "page_read b1 f = ?V ?p" "UnpinPage b1 ?p False = (True, b2)"
    "pool_at {} (pins b) ?V (set ps) (pool_life b - 1) (next_page_id (disk_manager b)) b2" by auto
  have "Heap_GetTuple b rid = Inr (bs, b2)"
    using f v Page_GetTuple_ok [OF heap_pagesD(1) [OF h(2) p(1)] p(2)] by (simp add: Heap_GetTuple_def)
  then show ?thesis using at_heap_ok [OF v(3) h(2) subset_refl h(3)] by (auto simp: heap_contents_def)
qed

theorem Heap_GetTuple_correct_witness:
  "\<exists>b p b'. Heap_GetTuple b (RID p 0) = Inr ([1, 2, 3], b')"
  using demo_heap_one Heap_GetTuple_correct [of _ _ _ _ "[1, 2, 3]"] by (metis fun_upd_same)

text \<open>
  \<^verbatim>\<open>DeleteTuple\<close> removes exactly the record it is given.
\<close>

theorem Heap_DeleteTuple_correct:
  assumes "heap_ok b first ps" and "heap_contents b ps rid = Some bs" and "room_for 1 1 b"
  shows "\<exists>b'. Heap_DeleteTuple b rid = Inr b' \<and> heap_ok b' first ps \<and>
    heap_contents b' ps = (heap_contents b ps)(rid := None) \<and> pins b' = pins b"
proof -
  let ?p = "rid_page_id rid" let ?V = "page_view b" let ?s = "rid_slot_num rid"
  note h = heap_okD [OF assms(1)] note at = heap_ok_at [OF assms(1)]
  have p: "?p \<in> set ps" "tuple_at (?V ?p) (unat ?s) = Some bs"
    using assms(2) by (auto simp: heap_contents_def heap_map_def split: if_splits)
  have pi: "page_inv (?V ?p)" using heap_pagesD(1) [OF h(2) p(1)] .
  have sl: "unat ?s < slots (?V ?p)" using p(2) by (simp add: tuple_at_def split: if_splits)
  from Page_DeleteTuple_ok [OF pi sl] obtain d where d: "Page_DeleteTuple (?V ?p) ?s = Inr d" "page_inv d"
    "tuple_at d = (tuple_at (?V ?p))(unat ?s := None)" "GetNextPageId d = GetNextPageId (?V ?p)" by blast
  have "FetchPage b ?p \<noteq> Inr (None, b)" using fetch_exhausted [OF at p(1)] room_not_exhausted [OF assms(3)] by blast
  with fetch_at [OF at p(1)] obtain f b1 where f: "FetchPage b ?p = Inr (Some f, b1)" by blast
  from change_at [OF at p(1) f, of d] obtain b2 where v: "page_read b1 f = ?V ?p"
    "UnpinPage (page_write b1 f d) ?p True = (True, b2)"
    "pool_at {} (pins b) (?V(?p := d)) (set ps) (pool_life b - 1) (next_page_id (disk_manager b)) b2" by auto
  have "Heap_DeleteTuple b rid = Inr b2" using f v d(1) by (simp add: Heap_DeleteTuple_def)
  moreover have "heap_map (?V(?p := d)) ps = (heap_map ?V ps)(rid := None)"
    using heap_map_change [of ?p ps d ?V ?s None, OF p(1) d(3)] by simp
  ultimately show ?thesis
    using at_heap_ok [OF v(3) heap_pages_change [OF h(2) d(2,4)] subset_refl h(3)] by (auto simp: heap_contents_def)
qed

theorem Heap_DeleteTuple_correct_witness:
  "\<exists>b p b'. Heap_DeleteTuple b (RID p 0) = Inr b' \<and> heap_contents b [p] (RID p 0) = Some [1, 2, 3] \<and>
     heap_contents b' [p] (RID p 0) = None"
  using demo_heap_one Heap_DeleteTuple_correct [of _ _ _ _ "[1, 2, 3]"] by (metis fun_upd_same)

text \<open>
  C18. \<^verbatim>\<open>UpdateTuple\<close> replaces exactly the record it is given, when the new tuple fits into the free
  space of the page of the record.
\<close>

theorem Heap_UpdateTuple_correct:
  assumes "heap_ok b first ps" and "heap_contents b ps rid = Some old" and "room_for 1 1 b"
    and "length bs \<le> free_space (page_view b (rid_page_id rid))" and "bs \<noteq> []"
  shows "\<exists>b'. Heap_UpdateTuple b rid bs = Inr (True, b') \<and> heap_ok b' first ps \<and>
    heap_contents b' ps = (heap_contents b ps)(rid \<mapsto> bs) \<and> pins b' = pins b"
proof -
  let ?p = "rid_page_id rid" let ?V = "page_view b" let ?s = "rid_slot_num rid"
  note h = heap_okD [OF assms(1)] note at = heap_ok_at [OF assms(1)]
  have p: "?p \<in> set ps" "tuple_at (?V ?p) (unat ?s) = Some old"
    using assms(2) by (auto simp: heap_contents_def heap_map_def split: if_splits)
  have pi: "page_inv (?V ?p)" using heap_pagesD(1) [OF h(2) p(1)] .
  have sl: "unat ?s < slots (?V ?p)" using p(2) by (simp add: tuple_at_def split: if_splits)
  from Page_UpdateTuple_room [OF pi sl assms(4)] assms(5) obtain d where d: "Page_UpdateTuple (?V ?p) ?s bs = Inr (True, d)"
    "page_inv d" "tuple_at d = (tuple_at (?V ?p))(unat ?s := Some bs)" "GetNextPageId d = GetNextPageId (?V ?p)" by auto
  have "FetchPage b ?p \<noteq> Inr (None, b)" using fetch_exhausted [OF at p(1)] room_not_exhausted [OF assms(3)] by blast
  with fetch_at [OF at p(1)] obtain f b1 where f: "FetchPage b ?p = Inr (Some f, b1)" by blast
  from change_at [OF at p(1) f, of d] obtain b2 where v: "page_read b1 f = ?V ?p"
    "UnpinPage (page_write b1 f d) ?p True = (True, b2)"
    "pool_at {} (pins b) (?V(?p := d)) (set ps) (pool_life b - 1) (next_page_id (disk_manager b)) b2" by auto
  have "Heap_UpdateTuple b rid bs = Inr (True, b2)" using f v d(1) by (simp add: Heap_UpdateTuple_def)
  moreover have "heap_map (?V(?p := d)) ps = (heap_map ?V ps)(rid \<mapsto> bs)"
    using heap_map_change [of ?p ps d ?V ?s "Some bs", OF p(1) d(3)] by simp
  ultimately show ?thesis
    using at_heap_ok [OF v(3) heap_pages_change [OF h(2) d(2,4)] subset_refl h(3)] by (auto simp: heap_contents_def)
qed

theorem Heap_UpdateTuple_correct_witness:
  "\<exists>b p b'. Heap_UpdateTuple b (RID p 0) [7, 8] = Inr (True, b') \<and> heap_contents b' [p] (RID p 0) = Some [7, 8]"
proof -
  obtain b p where b: "heap_ok b p [p]" "heap_contents b [p] = (\<lambda>_. None)(RID p 0 \<mapsto> [1, 2, 3])" "room_for 1 1 b"
    "3 \<le> free_space (page_view b p)" using demo_heap_one by blast
  have "length [7, 8 :: byte] \<le> free_space (page_view b (rid_page_id (RID p 0)))" using b(4) by simp
  from Heap_UpdateTuple_correct [OF b(1) _ b(3) this, of "[1, 2, 3]"] b(2) show ?thesis by fastforce
qed

text \<open>The whole scan: the records met from \<^verbatim>\<open>Begin\<close> to \<^verbatim>\<open>End\<close>.\<close>

definition Heap_scan :: "nat \<Rightarrow> heap_pool \<Rightarrow> page_id \<Rightarrow> (rid list \<times> heap_pool) res option" where
  "Heap_scan n b first =
     (case Heap_Begin b first of
        Some (Inr (r, b')) \<Rightarrow> scan_from n b' r
      | Some (Inl e) \<Rightarrow> Some (Inl e)
      | None \<Rightarrow> None)"

lemma set_live: "r \<in> set (live V ps) \<longleftrightarrow> rid_page_id r \<in> set ps \<and>
    (\<exists>i < slots (V (rid_page_id r)). r = RID (rid_page_id r) (of_nat i) \<and> 0 < slot_len (V (rid_page_id r)) i)"
  by (auto simp: live_def live_from_def live_slots_def)

lemma live_contents:
  assumes "heap_pages V ps"
  shows "set (live V ps) = dom (heap_map V ps)"
proof (intro set_eqI)
  fix r
  obtain p s where r: "r = RID p s" by (cases r)
  have eq: "unat (of_nat i :: 16 word) = i" if "p \<in> set ps" "i < slots (V p)" for i
    using page_invD(3) [OF heap_pagesD(1) [OF assms that(1)]] that(2) by (simp add: unat_of_nat_16)
  show "r \<in> set (live V ps) \<longleftrightarrow> r \<in> dom (heap_map V ps)"
  proof
    assume "r \<in> set (live V ps)"
    then obtain i where "p \<in> set ps" "i < slots (V p)" "s = of_nat i" "0 < slot_len (V p) i"
      by (auto simp: set_live r)
    then show "r \<in> dom (heap_map V ps)" using eq by (simp add: r heap_map_def tuple_at_def domIff)
  next
    assume "r \<in> dom (heap_map V ps)"
    then have "p \<in> set ps" "unat s < slots (V p)" "0 < slot_len (V p) (unat s)"
      by (auto simp: r heap_map_def tuple_at_def split: if_splits)
    then show "r \<in> set (live V ps)" by (auto simp: set_live r intro!: exI [of _ "unat s"])
  qed
qed

lemma live_distinct: "heap_pages V ps \<Longrightarrow> distinct (live V ps)"
proof -
  assume hp: "heap_pages V ps"
  have "distinct (live V qs)" if "distinct qs" "set qs \<subseteq> set ps" for qs
    using that
  proof (induction qs)
    case (Cons q qs)
    have "inj_on (\<lambda>i. RID q (of_nat i :: 16 word)) {..<slots (V q)}"
    proof (rule inj_onI)
      fix i j assume "i \<in> {..<slots (V q)}" "j \<in> {..<slots (V q)}" "RID q (of_nat i :: 16 word) = RID q (of_nat j)"
      then have "i < slots (V q)" "j < slots (V q)" "(of_nat i :: 16 word) = of_nat j" by simp_all
      moreover have "slots (V q) < 2 ^ 16" using page_invD(3) heap_pagesD(1) [OF hp] Cons.prems(2) by simp
      ultimately show "i = j" using unat_of_nat_16 [of i] unat_of_nat_16 [of j] by (metis less_trans)
    qed
    moreover have "set (live_slots (V q) 0) \<subseteq> {..<slots (V q)}" by (auto simp: live_slots_def)
    ultimately have "inj_on (\<lambda>i. RID q (of_nat i :: 16 word)) (set (live_slots (V q) 0))"
      using inj_on_subset by blast
    then have "distinct (live_from V q 0)"
      by (simp add: live_from_def distinct_map) (simp add: live_slots_def)
    moreover have "set (live_from V q 0) \<inter> set (live V qs) = {}"
      using Cons.prems(1) by (auto simp: live_def live_from_def)
    ultimately show ?case using Cons by simp
  qed simp
  then show ?thesis using hp by (simp add: heap_pages_def)
qed

text \<open>
  C16. A sequential scan, from \<^verbatim>\<open>Begin\<close> with \<^verbatim>\<open>operator++\<close> until \<^verbatim>\<open>End\<close>, meets every live record of
  the heap exactly once, in the order of pages and slots, and ends, as long as the pool has a frame to
  spare for each access.
\<close>

theorem Heap_scan_complete:
  assumes "heap_ok b first ps" and "rs = live (page_view b) ps" and "length rs \<le> n"
    and "room_for (Suc (length rs) * length ps) 1 b"
  shows "\<exists>b'. Heap_scan n b first = Some (Inr (rs, b')) \<and> distinct rs \<and> set rs = dom (heap_contents b ps) \<and>
    heap_contents b' ps = heap_contents b ps \<and> heap_ok b' first ps"
proof -
  let ?V = "page_view b"
  note h = heap_okD [OF assms(1)] note at = heap_ok_at [OF assms(1)]
  obtain suf where ps: "ps = first # suf" using h(3,5) by (cases ps) auto
  have pi: "\<forall>q \<in> set ps. page_inv (?V q) \<and> 0 \<le> q" "linked ?V ps" using h(2) by (auto simp: heap_pages_def)
  from assms(4) have r: "length ps + length rs * length ps \<le> pool_life b" "card {q. 0 < pins b q} < pool_size b"
    by (auto simp: room_for_def)
  from scan_walk [OF at [unfolded ps] subset_refl pi [unfolded ps], of 0] obtain r0 b1 where b1:
    "walk scan_round Heap_End b (first, 0) = Some (Inr (r0, b1))"
    "pool_at {} (pins b) ?V (set ps) (pool_life b - length ps) (next_page_id (disk_manager b)) b1"
    "pool_size b1 = pool_size b" "r0 = hd (rs @ [Heap_End]) \<or> exhausted (length ps) 1 (pool_life b) (pins b) b"
    by (auto simp: ps assms(2))
  have "\<not> exhausted (length ps) 1 (pool_life b) (pins b) b" using r by (auto simp: exhausted_def)
  then have r0: "r0 = hd (rs @ [Heap_End])" using b1(4) by blast
  have rs: "rs = live_from ?V first 0 @ live ?V suf" using assms(2) ps by simp
  have ps': "ps = [] @ first # suf" using ps by simp
  have "\<exists>b'. scan_from n b1 (hd (rs @ [Heap_End])) = Some (Inr (rs, b')) \<and>
    pool_at {} (pins b) ?V (set ps) (pool_life b - length ps - length rs * length ps) (next_page_id (disk_manager b)) b' \<and>
    pool_size b' = pool_size b1"
    by (rule scan_from_ok [OF b1(2) subset_refl pi ps' rs assms(3)]) (use r b1(3) in auto)
  then obtain b2 where b2: "scan_from n b1 (hd (rs @ [Heap_End])) = Some (Inr (rs, b2))"
    "pool_at {} (pins b) ?V (set ps) (pool_life b - length ps - length rs * length ps) (next_page_id (disk_manager b)) b2"
    by blast
  have "Heap_scan n b first = Some (Inr (rs, b2))"
    using b1(1) b2(1) r0 by (simp add: Heap_scan_def Heap_Begin_def Heap_End_def)
  then show ?thesis
    using at_heap_ok [OF b2(2) h(2) subset_refl h(3)] live_contents [OF h(2)] live_distinct [OF h(2)] assms(2)
    by (auto simp: heap_contents_def)
qed

theorem Heap_scan_complete_witness:
  "\<exists>b p b'. Heap_scan 1 b p = Some (Inr ([RID p 0], b'))"
proof -
  obtain b p where b: "heap_ok b p [p]" "room_for 2 1 b" "live (page_view b) [p] = [RID p 0]"
    using demo_heap_one by blast
  from Heap_scan_complete [OF b(1) refl, of 1] b(2,3) show ?thesis by (auto simp: numeral_2_eq_2)
qed

end
