(* ===== verification/Float32.thy ===== *)
theory Float32
  imports OneBase_Prelude
begin

text \<open>
  The C++ type \<^verbatim>\<open>float\<close> as \<^verbatim>\<open>type/value.cpp\<close> uses it: comparison and the four operations, on IEEE
  single precision numbers given by their 32 bits, rounding to nearest with ties to even. A finite
  number is an integer in units of \<open>2 ^ -149\<close>, so that an exact result is a quotient of integers,
  rounded once. The bit pattern of a NaN result is not specified by the language; the model returns
  the positive quiet NaN.
\<close>

type_synonym f32 = "32 word"

definition f32_neg :: "f32 \<Rightarrow> bool" where
  "f32_neg b \<longleftrightarrow> bit b 31"

text \<open>The magnitude: the number without its sign bit.\<close>

definition f32_abs :: "f32 \<Rightarrow> nat" where
  "f32_abs b = unat b mod 2 ^ 31"

definition F32_INF :: nat where
  "F32_INF = 255 * 2 ^ 23"

definition f32_nan :: "f32 \<Rightarrow> bool" where
  "f32_nan b \<longleftrightarrow> F32_INF < f32_abs b"

definition f32_inf :: "f32 \<Rightarrow> bool" where
  "f32_inf b \<longleftrightarrow> f32_abs b = F32_INF"

definition f32_make :: "bool \<Rightarrow> nat \<Rightarrow> f32" where
  "f32_make neg m = of_nat ((if neg then 2 ^ 31 else 0) + m)"

definition F32_NAN :: f32 where
  "F32_NAN = f32_make False (F32_INF + 2 ^ 22)"

text \<open>The magnitude of a finite number in units of \<open>2 ^ -149\<close>.\<close>

definition f32_mag :: "nat \<Rightarrow> nat" where
  "f32_mag m = (if m < 2 ^ 23 then m else (m mod 2 ^ 23 + 2 ^ 23) * 2 ^ (m div 2 ^ 23 - 1))"

definition f32_scaled :: "f32 \<Rightarrow> int" where
  "f32_scaled b = (if f32_neg b then - int (f32_mag (f32_abs b)) else int (f32_mag (f32_abs b)))"

section \<open>Rounding\<close>

text \<open>The integer nearest to \<open>p / q\<close>, the even one if two are.\<close>

definition round_even :: "nat \<Rightarrow> nat \<Rightarrow> nat" where
  "round_even p q =
     (let t = p div q; r = p mod q
      in if 2 * r < q then t else if q < 2 * r then t + 1 else if even t then t else t + 1)"

text \<open>How many bits above 24 the integer \<open>n\<close> has.\<close>

function excess :: "nat \<Rightarrow> nat" where
  "excess n = (if n < 2 ^ 24 then 0 else Suc (excess (n div 2)))"
  by pat_completeness auto
termination
  by (relation "measure id") auto

declare excess.simps [simp del]

text \<open>The magnitude of the float nearest to \<open>p / q\<close> units; too large numbers become infinite.\<close>

definition f32_round :: "nat \<Rightarrow> nat \<Rightarrow> nat" where
  "f32_round p q =
     (let s = excess (p div q) in min F32_INF (s * 2 ^ 23 + round_even p (q * 2 ^ s)))"

section \<open>Operations\<close>

definition f32_key :: "f32 \<Rightarrow> int" where
  "f32_key b = (if f32_neg b then - int (f32_abs b) else int (f32_abs b))"

definition f32_less :: "f32 \<Rightarrow> f32 \<Rightarrow> bool" where
  "f32_less a b \<longleftrightarrow> \<not> f32_nan a \<and> \<not> f32_nan b \<and> f32_key a < f32_key b"

definition f32_less_eq :: "f32 \<Rightarrow> f32 \<Rightarrow> bool" where
  "f32_less_eq a b \<longleftrightarrow> \<not> f32_nan a \<and> \<not> f32_nan b \<and> f32_key a \<le> f32_key b"

definition f32_equal :: "f32 \<Rightarrow> f32 \<Rightarrow> bool" where
  "f32_equal a b \<longleftrightarrow> \<not> f32_nan a \<and> \<not> f32_nan b \<and> f32_key a = f32_key b"

definition f32_negate :: "f32 \<Rightarrow> f32" where
  "f32_negate b = f32_make (\<not> f32_neg b) (f32_abs b)"

definition f32_add :: "f32 \<Rightarrow> f32 \<Rightarrow> f32" where
  "f32_add a b =
     (if f32_nan a \<or> f32_nan b then F32_NAN
      else if f32_inf a \<and> f32_inf b then (if f32_neg a = f32_neg b then a else F32_NAN)
      else if f32_inf a then a
      else if f32_inf b then b
      else let s = f32_scaled a + f32_scaled b
           in if s = 0 then f32_make (f32_neg a \<and> f32_neg b) 0
              else f32_make (s < 0) (f32_round (nat \<bar>s\<bar>) 1))"

definition f32_sub :: "f32 \<Rightarrow> f32 \<Rightarrow> f32" where
  "f32_sub a b = (if f32_nan b then F32_NAN else f32_add a (f32_negate b))"

definition f32_mul :: "f32 \<Rightarrow> f32 \<Rightarrow> f32" where
  "f32_mul a b =
     (let neg = (f32_neg a \<noteq> f32_neg b)
      in if f32_nan a \<or> f32_nan b then F32_NAN
         else if f32_inf a \<or> f32_inf b then
           (if f32_abs a = 0 \<or> f32_abs b = 0 then F32_NAN else f32_make neg F32_INF)
         else f32_make neg (f32_round (f32_mag (f32_abs a) * f32_mag (f32_abs b)) (2 ^ 149)))"

definition f32_div :: "f32 \<Rightarrow> f32 \<Rightarrow> f32" where
  "f32_div a b =
     (let neg = (f32_neg a \<noteq> f32_neg b)
      in if f32_nan a \<or> f32_nan b then F32_NAN
         else if f32_inf a then (if f32_inf b then F32_NAN else f32_make neg F32_INF)
         else if f32_inf b then f32_make neg 0
         else if f32_abs b = 0 then (if f32_abs a = 0 then F32_NAN else f32_make neg F32_INF)
         else f32_make neg (f32_round (f32_mag (f32_abs a) * 2 ^ 149) (f32_mag (f32_abs b))))"

section \<open>Lemmas\<close>

lemma f32_compare:
  assumes "\<not> f32_nan a" "\<not> f32_nan b"
  shows "f32_less_eq a b \<longleftrightarrow> f32_less a b \<or> f32_equal a b"
    and "f32_less_eq a b \<longleftrightarrow> \<not> f32_less b a"
    and "f32_less a b \<or> f32_equal a b \<or> f32_less b a"
    and "\<not> (f32_less a b \<and> f32_equal a b)" "\<not> (f32_less a b \<and> f32_less b a)"
  using assms by (auto simp: f32_less_def f32_less_eq_def f32_equal_def)

lemma f32_equal_sym: "f32_equal a b \<longleftrightarrow> f32_equal b a"
  by (auto simp: f32_equal_def)

lemma f32_less_trans: "f32_less a b \<Longrightarrow> f32_less b c \<Longrightarrow> f32_less a c"
  by (auto simp: f32_less_def)

text \<open>A number that a float can hold is not changed by rounding.\<close>

lemma round_even_exact: "0 < q \<Longrightarrow> round_even (t * q) q = t"
  by (simp add: round_even_def)

lemma excess_small: "n < 2 ^ 24 \<Longrightarrow> excess n = 0"
  by (subst excess.simps) simp

lemma excess_shift: "2 ^ 23 \<le> t \<Longrightarrow> t < 2 ^ 24 \<Longrightarrow> excess (t * 2 ^ s) = s"
proof (induction s)
  case 0
  then show ?case by (simp add: excess_small)
next
  case (Suc s)
  have "2 ^ 24 \<le> t * 2 ^ Suc s"
  proof -
    have "(2::nat) ^ 24 \<le> t * 2" using Suc.prems(1) by simp
    also have "\<dots> \<le> t * 2 ^ Suc s" by simp
    finally show ?thesis .
  qed
  then have "excess (t * 2 ^ Suc s) = Suc (excess (t * 2 ^ s))"
    by (subst excess.simps) simp
  then show ?case using Suc by simp
qed

lemma f32_round_exact:
  assumes "m < F32_INF"
  shows "f32_round (f32_mag m) 1 = m"
proof (cases "m < 2 ^ 23")
  case True
  then show ?thesis
    using assms round_even_exact [of 1 m] by (simp add: f32_round_def f32_mag_def excess_small F32_INF_def)
next
  case False
  define t where "t = m mod 2 ^ 23 + 2 ^ 23"
  define s where "s = m div 2 ^ 23 - 1"
  have "1 \<le> m div 2 ^ 23" using False by (simp add: Suc_le_eq div_greater_zero_iff)
  then have m: "m = s * 2 ^ 23 + t"
    using div_mult_mod_eq [of m "2 ^ 23"] by (simp add: s_def t_def algebra_simps)
  have t: "2 ^ 23 \<le> t" "t < 2 ^ 24" by (auto simp: t_def intro: mod_less_divisor less_le_trans)
  have mag: "f32_mag m = t * 2 ^ s" using False by (simp add: f32_mag_def t_def s_def)
  have "f32_round (f32_mag m) 1 = min F32_INF (s * 2 ^ 23 + t)"
    using excess_shift [OF t, of s] round_even_exact [of "2 ^ s" t] by (simp add: f32_round_def mag)
  also have "\<dots> = m" using assms unfolding m [symmetric] by simp
  finally show ?thesis .
qed

end
