(* ===== verification/SQL_Value.thy ===== *)
theory SQL_Value
  imports Float32 "HOL-Library.Char_ord" "HOL-Library.List_Lexorder"
begin

text \<open>
  SQL values: \<^verbatim>\<open>type/value.h\<close>, \<^verbatim>\<open>type/value.cpp\<close>, \<^verbatim>\<open>type/type_id.h\<close> and \<^verbatim>\<open>type/type.cpp\<close>. The union
  of the class is the word \<open>v_bits\<close>: an integer or a float is all of it, a boolean its lowest byte.
  Comparisons and arithmetic return a value or throw; signed overflow is undefined behaviour. A
  \<^verbatim>\<open>std::string\<close> is a \<^typ>\<open>string\<close>, compared by unsigned character codes. The format \<open>{:.2f}\<close> of the
  library fmt is the parameter \<open>fmt\<close> of \<open>Value_ToString\<close>.
\<close>

section \<open>Values\<close>

datatype type_id = T_INVALID | T_BOOLEAN | T_INTEGER | T_FLOAT | T_VARCHAR

record val =
  v_type :: type_id
  v_bits :: "32 word"
  v_varchar :: string
  v_null :: bool

definition Value_default :: val where
  "Value_default = \<lparr>v_type = T_INVALID, v_bits = 0, v_varchar = [], v_null = True\<rparr>"

definition Value_typed :: "type_id \<Rightarrow> val" where
  "Value_typed t = \<lparr>v_type = t, v_bits = 0, v_varchar = [], v_null = True\<rparr>"

definition Value_int :: "type_id \<Rightarrow> 32 word \<Rightarrow> val" where
  "Value_int t i = \<lparr>v_type = t, v_bits = i, v_varchar = [], v_null = False\<rparr>"

definition Value_float :: "type_id \<Rightarrow> f32 \<Rightarrow> val" where
  "Value_float t f = \<lparr>v_type = t, v_bits = f, v_varchar = [], v_null = False\<rparr>"

definition Value_bool :: "type_id \<Rightarrow> bool \<Rightarrow> val" where
  "Value_bool t b = \<lparr>v_type = t, v_bits = of_bool b, v_varchar = [], v_null = False\<rparr>"

definition Value_string :: "type_id \<Rightarrow> string \<Rightarrow> val" where
  "Value_string t s = \<lparr>v_type = t, v_bits = 0, v_varchar = s, v_null = False\<rparr>"

abbreviation SQL_bool :: "bool \<Rightarrow> val" where
  "SQL_bool b \<equiv> Value_bool T_BOOLEAN b"

abbreviation SQL_int :: "32 word \<Rightarrow> val" where
  "SQL_int i \<equiv> Value_int T_INTEGER i"

definition v_bool :: "val \<Rightarrow> bool" where
  "v_bool v \<longleftrightarrow> (ucast (v_bits v) :: byte) \<noteq> 0"

definition v_int :: "val \<Rightarrow> int" where
  "v_int v = sint (v_bits v)"

definition GetAsInteger :: "val \<Rightarrow> 32 word res" where
  "GetAsInteger v = ONEBASE_ASSERT (v_type v = T_INTEGER) ''Value is not an integer'' (Inr (v_bits v))"

definition GetAsFloat :: "val \<Rightarrow> f32 res" where
  "GetAsFloat v = ONEBASE_ASSERT (v_type v = T_FLOAT) ''Value is not a float'' (Inr (v_bits v))"

definition GetAsBoolean :: "val \<Rightarrow> bool res" where
  "GetAsBoolean v = ONEBASE_ASSERT (v_type v = T_BOOLEAN) ''Value is not a boolean'' (Inr (v_bool v))"

definition GetAsString :: "val \<Rightarrow> string res" where
  "GetAsString v = ONEBASE_ASSERT (v_type v = T_VARCHAR) ''Value is not a varchar'' (Inr (v_varchar v))"

section \<open>Comparison\<close>

definition comparison_error :: "'a res" where
  "comparison_error = Inl (LogicError ''Unsupported type for comparison'')"

definition CompareLessThan :: "val \<Rightarrow> val \<Rightarrow> val res" where
  "CompareLessThan v w = ONEBASE_ASSERT (v_type v = v_type w) ''Type mismatch in comparison''
     (case v_type v of
        T_INTEGER \<Rightarrow> Inr (SQL_bool (v_int v < v_int w))
      | T_FLOAT \<Rightarrow> Inr (SQL_bool (f32_less (v_bits v) (v_bits w)))
      | T_VARCHAR \<Rightarrow> Inr (SQL_bool (v_varchar v < v_varchar w))
      | _ \<Rightarrow> comparison_error)"

definition CompareGreaterThan :: "val \<Rightarrow> val \<Rightarrow> val res" where
  "CompareGreaterThan v w = ONEBASE_ASSERT (v_type v = v_type w) ''Type mismatch in comparison''
     (case v_type v of
        T_INTEGER \<Rightarrow> Inr (SQL_bool (v_int v > v_int w))
      | T_FLOAT \<Rightarrow> Inr (SQL_bool (f32_less (v_bits w) (v_bits v)))
      | T_VARCHAR \<Rightarrow> Inr (SQL_bool (v_varchar v > v_varchar w))
      | _ \<Rightarrow> comparison_error)"

definition CompareLessThanOrEqual :: "val \<Rightarrow> val \<Rightarrow> val res" where
  "CompareLessThanOrEqual v w = ONEBASE_ASSERT (v_type v = v_type w) ''Type mismatch in comparison''
     (case v_type v of
        T_INTEGER \<Rightarrow> Inr (SQL_bool (v_int v \<le> v_int w))
      | T_FLOAT \<Rightarrow> Inr (SQL_bool (f32_less_eq (v_bits v) (v_bits w)))
      | T_VARCHAR \<Rightarrow> Inr (SQL_bool (v_varchar v \<le> v_varchar w))
      | _ \<Rightarrow> comparison_error)"

definition CompareGreaterThanOrEqual :: "val \<Rightarrow> val \<Rightarrow> val res" where
  "CompareGreaterThanOrEqual v w = ONEBASE_ASSERT (v_type v = v_type w) ''Type mismatch in comparison''
     (case v_type v of
        T_INTEGER \<Rightarrow> Inr (SQL_bool (v_int v \<ge> v_int w))
      | T_FLOAT \<Rightarrow> Inr (SQL_bool (f32_less_eq (v_bits w) (v_bits v)))
      | T_VARCHAR \<Rightarrow> Inr (SQL_bool (v_varchar v \<ge> v_varchar w))
      | _ \<Rightarrow> comparison_error)"

definition CompareEquals :: "val \<Rightarrow> val \<Rightarrow> val res" where
  "CompareEquals v w = ONEBASE_ASSERT (v_type v = v_type w) ''Type mismatch in comparison''
     (case v_type v of
        T_INTEGER \<Rightarrow> Inr (SQL_bool (v_int v = v_int w))
      | T_FLOAT \<Rightarrow> Inr (SQL_bool (f32_equal (v_bits v) (v_bits w)))
      | T_BOOLEAN \<Rightarrow> Inr (SQL_bool (v_bool v = v_bool w))
      | T_VARCHAR \<Rightarrow> Inr (SQL_bool (v_varchar v = v_varchar w))
      | _ \<Rightarrow> comparison_error)"

definition CompareNotEquals :: "val \<Rightarrow> val \<Rightarrow> val res" where
  "CompareNotEquals v w = ONEBASE_ASSERT (v_type v = v_type w) ''Type mismatch in comparison''
     (case v_type v of
        T_INTEGER \<Rightarrow> Inr (SQL_bool (v_int v \<noteq> v_int w))
      | T_FLOAT \<Rightarrow> Inr (SQL_bool (\<not> f32_equal (v_bits v) (v_bits w)))
      | T_BOOLEAN \<Rightarrow> Inr (SQL_bool (v_bool v \<noteq> v_bool w))
      | T_VARCHAR \<Rightarrow> Inr (SQL_bool (v_varchar v \<noteq> v_varchar w))
      | _ \<Rightarrow> comparison_error)"

section \<open>Arithmetic\<close>

text \<open>The result of a signed 32-bit operation with the exact result \<open>i\<close>.\<close>

definition int_result :: "int \<Rightarrow> val res" where
  "int_result i =
     (if - (2 ^ 31) \<le> i \<and> i < 2 ^ 31 then Inr (SQL_int (word_of_int i))
      else Inl (UndefinedBehaviour ''signed integer overflow''))"

text \<open>Division of C++ rounds towards zero, the remainder has the sign of the dividend.\<close>

definition c_div :: "int \<Rightarrow> int \<Rightarrow> int" where
  "c_div a b = sgn a * sgn b * (\<bar>a\<bar> div \<bar>b\<bar>)"

definition c_mod :: "int \<Rightarrow> int \<Rightarrow> int" where
  "c_mod a b = sgn a * (\<bar>a\<bar> mod \<bar>b\<bar>)"

definition Value_Add :: "val \<Rightarrow> val \<Rightarrow> val res" where
  "Value_Add v w = ONEBASE_ASSERT (v_type v = v_type w) ''Type mismatch in arithmetic''
     (case v_type v of
        T_INTEGER \<Rightarrow> int_result (v_int v + v_int w)
      | T_FLOAT \<Rightarrow> Inr (Value_float T_FLOAT (f32_add (v_bits v) (v_bits w)))
      | _ \<Rightarrow> Inl (LogicError ''Unsupported type for addition''))"

definition Value_Subtract :: "val \<Rightarrow> val \<Rightarrow> val res" where
  "Value_Subtract v w = ONEBASE_ASSERT (v_type v = v_type w) ''Type mismatch in arithmetic''
     (case v_type v of
        T_INTEGER \<Rightarrow> int_result (v_int v - v_int w)
      | T_FLOAT \<Rightarrow> Inr (Value_float T_FLOAT (f32_sub (v_bits v) (v_bits w)))
      | _ \<Rightarrow> Inl (LogicError ''Unsupported type for subtraction''))"

definition Value_Multiply :: "val \<Rightarrow> val \<Rightarrow> val res" where
  "Value_Multiply v w = ONEBASE_ASSERT (v_type v = v_type w) ''Type mismatch in arithmetic''
     (case v_type v of
        T_INTEGER \<Rightarrow> int_result (v_int v * v_int w)
      | T_FLOAT \<Rightarrow> Inr (Value_float T_FLOAT (f32_mul (v_bits v) (v_bits w)))
      | _ \<Rightarrow> Inl (LogicError ''Unsupported type for multiplication''))"

definition Value_Divide :: "val \<Rightarrow> val \<Rightarrow> val res" where
  "Value_Divide v w = ONEBASE_ASSERT (v_type v = v_type w) ''Type mismatch in arithmetic''
     (case v_type v of
        T_INTEGER \<Rightarrow> ONEBASE_ASSERT (v_int w \<noteq> 0) ''Division by zero'' (int_result (c_div (v_int v) (v_int w)))
      | T_FLOAT \<Rightarrow> ONEBASE_ASSERT (\<not> f32_equal (v_bits w) 0) ''Division by zero''
          (Inr (Value_float T_FLOAT (f32_div (v_bits v) (v_bits w))))
      | _ \<Rightarrow> Inl (LogicError ''Unsupported type for division''))"

text \<open>The remainder is undefined when the quotient overflows.\<close>

definition Value_Modulo :: "val \<Rightarrow> val \<Rightarrow> val res" where
  "Value_Modulo v w = ONEBASE_ASSERT (v_type v = v_type w) ''Type mismatch in arithmetic''
     (case v_type v of
        T_INTEGER \<Rightarrow> ONEBASE_ASSERT (v_int w \<noteq> 0) ''Modulo by zero''
          (rbind (int_result (c_div (v_int v) (v_int w))) (\<lambda>_. int_result (c_mod (v_int v) (v_int w))))
      | _ \<Rightarrow> Inl (LogicError ''Unsupported type for modulo''))"

section \<open>Logic\<close>

definition Value_And :: "val \<Rightarrow> val \<Rightarrow> val res" where
  "Value_And v w = ONEBASE_ASSERT (v_type v = T_BOOLEAN \<and> v_type w = T_BOOLEAN) ''AND requires boolean''
     (Inr (SQL_bool (v_bool v \<and> v_bool w)))"

definition Value_Or :: "val \<Rightarrow> val \<Rightarrow> val res" where
  "Value_Or v w = ONEBASE_ASSERT (v_type v = T_BOOLEAN \<and> v_type w = T_BOOLEAN) ''OR requires boolean''
     (Inr (SQL_bool (v_bool v \<or> v_bool w)))"

definition Value_Not :: "val \<Rightarrow> val res" where
  "Value_Not v = ONEBASE_ASSERT (v_type v = T_BOOLEAN) ''NOT requires boolean'' (Inr (SQL_bool (\<not> v_bool v)))"

section \<open>Serialization\<close>

text \<open>\<open>SerializeTo\<close> exactly the bytes that the method writes at its argument.\<close>

definition le32 :: "32 word \<Rightarrow> byte list" where
  "le32 w = [ucast w, ucast (drop_bit 8 w), ucast (drop_bit 16 w), ucast (drop_bit 24 w)]"

definition of_le32 :: "byte list \<Rightarrow> 32 word" where
  "of_le32 bs = ucast (bs ! 0) OR push_bit 8 (ucast (bs ! 1)) OR push_bit 16 (ucast (bs ! 2)) OR push_bit 24 (ucast (bs ! 3))"

definition string_bytes :: "string \<Rightarrow> byte list" where
  "string_bytes s = map (\<lambda>c. of_nat (of_char c)) s"

definition bytes_string :: "byte list \<Rightarrow> string" where
  "bytes_string bs = map (\<lambda>b. char_of (unat b)) bs"

definition SerializeTo :: "val \<Rightarrow> byte list res" where
  "SerializeTo v =
     (case v_type v of
        T_BOOLEAN \<Rightarrow> Inr [of_bool (v_bool v)]
      | T_INTEGER \<Rightarrow> Inr (le32 (v_bits v))
      | T_FLOAT \<Rightarrow> Inr (le32 (v_bits v))
      | T_VARCHAR \<Rightarrow> Inr (le32 (of_nat (length (v_varchar v))) @ string_bytes (v_varchar v))
      | T_INVALID \<Rightarrow> Inl (LogicError ''Unsupported type for serialization''))"

text \<open>A read beyond the bytes of the buffer is undefined behaviour.\<close>

definition take_bytes :: "nat \<Rightarrow> byte list \<Rightarrow> (byte list \<Rightarrow> 'a res) \<Rightarrow> 'a res" where
  "take_bytes n bs k =
     (if n \<le> length bs then k (take n bs) else Inl (UndefinedBehaviour ''read beyond the buffer''))"

definition DeserializeFrom :: "byte list \<Rightarrow> type_id \<Rightarrow> val res" where
  "DeserializeFrom bs t =
     (case t of
        T_BOOLEAN \<Rightarrow> take_bytes 1 bs (\<lambda>x. Inr (Value_bool t (x ! 0 \<noteq> 0)))
      | T_INTEGER \<Rightarrow> take_bytes 4 bs (\<lambda>x. Inr (Value_int t (of_le32 x)))
      | T_FLOAT \<Rightarrow> take_bytes 4 bs (\<lambda>x. Inr (Value_float t (of_le32 x)))
      | T_VARCHAR \<Rightarrow> take_bytes 4 bs (\<lambda>x.
          take_bytes (unat (of_le32 x)) (drop 4 bs) (\<lambda>y. Inr (Value_string t (bytes_string y))))
      | T_INVALID \<Rightarrow> Inl (LogicError ''Unsupported type for deserialization''))"

definition GetSerializedSize :: "val \<Rightarrow> 32 word res" where
  "GetSerializedSize v =
     (case v_type v of
        T_BOOLEAN \<Rightarrow> Inr 1
      | T_INTEGER \<Rightarrow> Inr 4
      | T_FLOAT \<Rightarrow> Inr 4
      | T_VARCHAR \<Rightarrow> Inr (4 + of_nat (length (v_varchar v)))
      | T_INVALID \<Rightarrow> Inl (LogicError ''Unsupported type for GetSerializedSize''))"

text \<open>\<^verbatim>\<open>std::to_string\<close> of an integer, and the printed form of a value.\<close>

function digits :: "nat \<Rightarrow> string" where
  "digits n = (if n < 10 then [char_of (48 + n)] else digits (n div 10) @ [char_of (48 + n mod 10)])"
  by pat_completeness auto
termination
  by (relation "measure id") auto

declare digits.simps [simp del]

definition int_to_string :: "int \<Rightarrow> string" where
  "int_to_string i = (if i < 0 then CHR ''-'' # digits (nat (- i)) else digits (nat i))"

definition Value_ToString :: "(f32 \<Rightarrow> string) \<Rightarrow> val \<Rightarrow> string" where
  "Value_ToString fmt v =
     (if v_null v then ''NULL''
      else case v_type v of
             T_BOOLEAN \<Rightarrow> if v_bool v then ''true'' else ''false''
           | T_INTEGER \<Rightarrow> int_to_string (v_int v)
           | T_FLOAT \<Rightarrow> fmt (v_bits v)
           | T_VARCHAR \<Rightarrow> v_varchar v
           | T_INVALID \<Rightarrow> ''<INVALID>'')"

section \<open>Types\<close>

definition GetTypeSize :: "type_id \<Rightarrow> nat res" where
  "GetTypeSize t =
     (case t of
        T_BOOLEAN \<Rightarrow> Inr 1
      | T_INTEGER \<Rightarrow> Inr 4
      | T_FLOAT \<Rightarrow> Inr 4
      | T_VARCHAR \<Rightarrow> Inr 0
      | T_INVALID \<Rightarrow> Inl (LogicError ''Unknown type''))"

definition TypeIdToString :: "type_id \<Rightarrow> string" where
  "TypeIdToString t =
     (case t of
        T_INVALID \<Rightarrow> ''INVALID''
      | T_BOOLEAN \<Rightarrow> ''BOOLEAN''
      | T_INTEGER \<Rightarrow> ''INTEGER''
      | T_FLOAT \<Rightarrow> ''FLOAT''
      | T_VARCHAR \<Rightarrow> ''VARCHAR'')"

definition IsCoercableTo :: "type_id \<Rightarrow> type_id \<Rightarrow> bool" where
  "IsCoercableTo t u \<longleftrightarrow> t = u \<or> t = T_INTEGER \<and> u = T_FLOAT"

section \<open>Lemmas\<close>

lemma v_bool_SQL_bool [simp]: "v_bool (SQL_bool b) = b"
  by (simp add: v_bool_def Value_bool_def)

lemma SQL_bool_inject [simp]: "SQL_bool b = SQL_bool c \<longleftrightarrow> b = c"
  by (simp add: Value_bool_def)

lemma of_le32_le32 [simp]: "of_le32 (le32 w) = w"
  unfolding of_le32_def le32_def
proof (rule bit_word_eqI)
  fix n assume "n < LENGTH(32)"
  then have "n < 32" by simp
  then consider "n < 8" | "8 \<le> n" "n < 16" | "16 \<le> n" "n < 24" | "24 \<le> n" "n < 32"
    by linarith
  then show "bit (ucast ([ucast w, ucast (drop_bit 8 w), ucast (drop_bit 16 w), ucast (drop_bit 24 w)] ! 0 :: byte) OR
      push_bit 8 (ucast ([ucast w, ucast (drop_bit 8 w), ucast (drop_bit 16 w), ucast (drop_bit 24 w)] ! 1 :: byte)) OR
      push_bit 16 (ucast ([ucast w, ucast (drop_bit 8 w), ucast (drop_bit 16 w), ucast (drop_bit 24 w)] ! 2 :: byte)) OR
      push_bit 24 (ucast ([ucast w, ucast (drop_bit 8 w), ucast (drop_bit 16 w), ucast (drop_bit 24 w)] ! 3 :: byte)) :: 32 word) n = bit w n"
    by cases (auto simp: bit_or_iff bit_push_bit_iff bit_ucast_iff bit_drop_bit_eq nth_Cons')
qed

lemma length_le32 [simp]: "length (le32 w) = 4"
  by (simp add: le32_def)

lemma bytes_string_bytes [simp]: "bytes_string (string_bytes s) = s"
proof -
  have "char_of (unat (of_nat (of_char c) :: byte)) = c" for c :: char
    using nat_of_char_less_256 [of c] by (simp add: unat_of_nat take_bit_nat_eq_self_iff)
  then show ?thesis by (induction s) (simp_all add: bytes_string_def string_bytes_def)
qed

lemma length_string_bytes [simp]: "length (string_bytes s) = length s"
  by (simp add: string_bytes_def)

lemma take_bytes_append [simp]: "n = length xs \<Longrightarrow> take_bytes n (xs @ ys) k = k xs"
  by (simp add: take_bytes_def)

text \<open>What two values of the same type are as numbers and strings: the meaning of a comparison.\<close>

definition comparable :: "val \<Rightarrow> val \<Rightarrow> bool" where
  "comparable v w \<longleftrightarrow> v_type v = v_type w \<and>
     (v_type v = T_INTEGER \<or> v_type v = T_VARCHAR \<or>
      v_type v = T_FLOAT \<and> \<not> f32_nan (v_bits v) \<and> \<not> f32_nan (v_bits w))"

text \<open>
  The six comparisons agree with each other: on values of one of the ordered types (floats not
  NaN) exactly one of \<open><\<close>, \<open>=\<close>, \<open>>\<close> holds, \<open>\<le>\<close> and \<open>\<ge>\<close> and \<open>\<noteq>\<close> are the negations of \<open>>\<close>, \<open><\<close>
  and \<open>=\<close>, and none of them throws.
\<close>

theorem comparisons_consistent:
  assumes "comparable v w"
  shows "\<exists>lt eq gt. CompareLessThan v w = Inr (SQL_bool lt) \<and> CompareEquals v w = Inr (SQL_bool eq) \<and>
    CompareGreaterThan v w = Inr (SQL_bool gt) \<and>
    (lt, eq, gt) \<in> {(True, False, False), (False, True, False), (False, False, True)} \<and>
    CompareLessThanOrEqual v w = Inr (SQL_bool (\<not> gt)) \<and>
    CompareGreaterThanOrEqual v w = Inr (SQL_bool (\<not> lt)) \<and>
    CompareNotEquals v w = Inr (SQL_bool (\<not> eq))"
proof -
  consider "v_type v = T_INTEGER" "v_type w = T_INTEGER" | "v_type v = T_VARCHAR" "v_type w = T_VARCHAR"
    | "v_type v = T_FLOAT" "v_type w = T_FLOAT" "\<not> f32_nan (v_bits v)" "\<not> f32_nan (v_bits w)"
    using assms by (auto simp: comparable_def)
  then show ?thesis
  proof cases
    case 1
    then show ?thesis
      by (auto simp: CompareLessThan_def CompareEquals_def CompareGreaterThan_def CompareLessThanOrEqual_def
          CompareGreaterThanOrEqual_def CompareNotEquals_def)
  next
    case 2
    then show ?thesis
      by (auto simp: CompareLessThan_def CompareEquals_def CompareGreaterThan_def CompareLessThanOrEqual_def
          CompareGreaterThanOrEqual_def CompareNotEquals_def)
  next
    case 3
    then show ?thesis
      using f32_compare [of "v_bits v" "v_bits w"] f32_compare [of "v_bits w" "v_bits v"]
      by (auto simp: CompareLessThan_def CompareEquals_def CompareGreaterThan_def CompareLessThanOrEqual_def
          CompareGreaterThanOrEqual_def CompareNotEquals_def)
  qed
qed

theorem comparisons_consistent_witness:
  "\<exists>lt eq gt. CompareLessThan (SQL_int 2) (SQL_int 3) = Inr (SQL_bool lt) \<and>
     CompareNotEquals (SQL_int 2) (SQL_int 3) = Inr (SQL_bool (\<not> eq)) \<and>
     (lt, eq, gt) \<in> {(True, False, False), (False, True, False), (False, False, True)}"
  using comparisons_consistent [of "SQL_int 2" "SQL_int 3"] by (auto simp: comparable_def Value_int_def)

definition val_ok :: "val \<Rightarrow> bool" where
  "val_ok v \<longleftrightarrow> v_type v \<noteq> T_INVALID \<and> length (v_varchar v) + 4 < 2 ^ 32 \<and>
     (v_type v = T_BOOLEAN \<longrightarrow> v_bits v = of_bool (v_bool v)) \<and>
     (v_type v = T_VARCHAR \<longrightarrow> v_bits v = 0) \<and> (v_type v \<noteq> T_VARCHAR \<longrightarrow> v_varchar v = [])"

lemma val_roundtrip:
  assumes "val_ok v"
  shows "\<exists>bs. SerializeTo v = Inr bs \<and> DeserializeFrom (bs @ rest) (v_type v) = Inr (v\<lparr>v_null := False\<rparr>) \<and>
    (\<exists>n. GetSerializedSize v = Inr n \<and> unat n = length bs)"
proof -
  have u: "n < 2 ^ 32 \<Longrightarrow> unat (of_nat n :: 32 word) = n" for n
    by (simp add: unat_of_nat take_bit_nat_eq_self_iff)
  have l: "length (v_varchar v) + 4 < 2 ^ 32" using assms by (simp add: val_ok_def)
  then have l4: "unat (4 + of_nat (length (v_varchar v)) :: 32 word) = 4 + length (v_varchar v)"
    using u [of "4 + length (v_varchar v)"] by simp
  show ?thesis
  proof (cases "v_type v")
    case T_VARCHAR
    then show ?thesis
      using assms l l4 u [of "length (v_varchar v)"]
      by (auto simp: val_ok_def SerializeTo_def DeserializeFrom_def GetSerializedSize_def Value_string_def)
  next
    case T_BOOLEAN
    then show ?thesis
      using assms
      by (auto simp: val_ok_def SerializeTo_def DeserializeFrom_def GetSerializedSize_def Value_bool_def take_bytes_def)
  qed (use assms in \<open>auto simp: val_ok_def SerializeTo_def DeserializeFrom_def GetSerializedSize_def
        Value_int_def Value_float_def\<close>)
qed

text \<open>
  C28. Serialization loses nothing but NULL: reading a value back from a buffer that starts with its
  bytes exactly the same type and content, and the announced size is the number of bytes.
\<close>

theorem serialize_roundtrip:
  assumes "val_ok v"
  shows "\<exists>bs. SerializeTo v = Inr bs \<and> DeserializeFrom (bs @ rest) (v_type v) = Inr (v\<lparr>v_null := False\<rparr>) \<and>
    (\<exists>n. GetSerializedSize v = Inr n \<and> unat n = length bs)"
  using assms by (rule val_roundtrip)

theorem serialize_roundtrip_witness:
  "\<exists>bs. SerializeTo (Value_string T_VARCHAR ''ab'') = Inr bs \<and>
     DeserializeFrom (bs @ [9]) T_VARCHAR = Inr (Value_string T_VARCHAR ''ab'')"
  using serialize_roundtrip [of "Value_string T_VARCHAR ''ab''" "[9]"] by (auto simp: val_ok_def Value_string_def)

lemma v_int_SQL_int: "- (2 ^ 31) \<le> i \<Longrightarrow> i < 2 ^ 31 \<Longrightarrow> v_int (SQL_int (word_of_int i)) = i"
  by (simp add: v_int_def Value_int_def signed_of_int signed_take_bit_int_eq_self)

lemma v_int_range: "- (2 ^ 31) \<le> v_int v \<and> v_int v < 2 ^ 31"
  using sint_range_size [of "v_bits v"] by (simp add: v_int_def word_size)

lemma c_div_mod: "a = c_div a b * b + c_mod a b"
proof -
  have "c_div a b * b + c_mod a b = sgn a * (\<bar>b\<bar> * (\<bar>a\<bar> div \<bar>b\<bar>) + \<bar>a\<bar> mod \<bar>b\<bar>)"
    by (simp add: c_div_def c_mod_def algebra_simps abs_sgn)
  also have "\<dots> = a" by (simp add: mult_sgn_abs)
  finally show ?thesis by simp
qed

lemma c_mod_bound: "b \<noteq> 0 \<Longrightarrow> \<bar>c_mod a b\<bar> < \<bar>b\<bar>"
  by (auto simp: c_mod_def abs_mult sgn_if)

lemma c_div_range:
  assumes "- (2 ^ 31) \<le> a" "a < 2 ^ 31" "b \<noteq> 0" "\<not> (a = - (2 ^ 31) \<and> b = -1)"
  shows "- (2 ^ 31) \<le> c_div a b \<and> c_div a b < 2 ^ 31"
proof (cases "\<bar>b\<bar> = 1")
  case True
  then have "c_div a b = a * sgn b" by (simp add: c_div_def mult_sgn_abs abs_mult_sgn mult.commute mult.left_commute)
  then show ?thesis using assms True by (auto simp: sgn_if abs_if split: if_splits)
next
  case False
  then have b: "2 \<le> \<bar>b\<bar>" using assms(3) by linarith
  have "\<bar>a\<bar> div \<bar>b\<bar> \<le> \<bar>a\<bar> div 2" using b by (intro zdiv_mono2) auto
  also have "\<dots> \<le> 2 ^ 30" using assms(1,2) by (auto simp: abs_if)
  finally have q: "\<bar>a\<bar> div \<bar>b\<bar> \<le> 2 ^ 30" .
  have "0 \<le> \<bar>a\<bar> div \<bar>b\<bar>" using b by (simp add: pos_imp_zdiv_nonneg_iff)
  note q = this q
  define d where "d = \<bar>a\<bar> div \<bar>b\<bar>"
  have "0 \<le> d" using q by (simp add: d_def)
  then have "\<bar>sgn a * sgn b * d\<bar> \<le> d" by (simp add: abs_mult sgn_if)
  then have "\<bar>c_div a b\<bar> \<le> \<bar>a\<bar> div \<bar>b\<bar>" by (simp add: c_div_def d_def)
  then show ?thesis using q by (auto simp: abs_if split: if_splits)
qed

lemma c_mod_sign:
  assumes "b \<noteq> 0"
  shows "c_mod a b = 0 \<or> sgn (c_mod a b) = sgn a"
proof -
  have "0 \<le> \<bar>a\<bar> mod \<bar>b\<bar>" using assms by simp
  then have "\<bar>a\<bar> mod \<bar>b\<bar> = 0 \<or> sgn (\<bar>a\<bar> mod \<bar>b\<bar>) = 1" by (simp only: sgn_if) auto
  then show ?thesis unfolding c_mod_def sgn_mult by auto
qed

text \<open>A result is exactly an integer: the operation returns that INTEGER if it fits into 32 bits, and is undefined otherwise.\<close>

definition exactly :: "val res \<Rightarrow> int \<Rightarrow> bool" where
  "exactly r i \<longleftrightarrow>
     (if - (2 ^ 31) \<le> i \<and> i < 2 ^ 31 then \<exists>u. r = Inr u \<and> v_type u = T_INTEGER \<and> \<not> v_null u \<and> v_int u = i
      else \<exists>msg. r = Inl (UndefinedBehaviour msg))"

lemma int_result_exactly: "exactly (int_result i) i"
  using v_int_SQL_int [of i]
  by (auto simp del: of_int_add of_int_diff of_int_mult simp: exactly_def int_result_def Value_int_def)

text \<open>
  C30. Integer arithmetic is exact, on every branch: a sum, difference or product is returned when it fits into 32 bits and
  is a signed overflow otherwise; a division by zero throws; INT_MIN / -1 overflows; every other quotient and remainder is
  returned, rounded towards zero: \<open>a = (a / b) * b + a % b\<close>, \<open>\<bar>a % b\<bar> < \<bar>b\<bar>\<close> and the remainder has the sign of \<open>a\<close>.
\<close>

theorem integer_arithmetic_exact:
  assumes "v_type v = T_INTEGER" and "v_type w = T_INTEGER" and "a = v_int v" and "b = v_int w"
  shows "exactly (Value_Add v w) (a + b) \<and> exactly (Value_Subtract v w) (a - b) \<and> exactly (Value_Multiply v w) (a * b) \<and>
    (if b = 0 then Value_Divide v w = Inl (LogicError ''Division by zero'') \<and>
                   Value_Modulo v w = Inl (LogicError ''Modulo by zero'')
     else if a = - (2 ^ 31) \<and> b = -1
          then (\<exists>msg. Value_Divide v w = Inl (UndefinedBehaviour msg) \<and> Value_Modulo v w = Inl (UndefinedBehaviour msg))
     else \<exists>q r. Value_Divide v w = Inr q \<and> Value_Modulo v w = Inr r \<and> exactly (Inr q) (v_int q) \<and> exactly (Inr r) (v_int r) \<and>
            a = v_int q * b + v_int r \<and> \<bar>v_int r\<bar> < \<bar>b\<bar> \<and> (v_int r = 0 \<or> sgn (v_int r) = sgn a))"
proof -
  have ops: "exactly (Value_Add v w) (a + b)" "exactly (Value_Subtract v w) (a - b)" "exactly (Value_Multiply v w) (a * b)"
    using assms int_result_exactly by (simp_all add: Value_Add_def Value_Subtract_def Value_Multiply_def)
  have ab: "- (2 ^ 31) \<le> a" "a < 2 ^ 31" "- (2 ^ 31) \<le> b" "b < 2 ^ 31" using v_int_range assms by blast+
  consider (zero) "b = 0" | (over) "b \<noteq> 0" "a = - (2 ^ 31) \<and> b = -1" | (fine) "b \<noteq> 0" "\<not> (a = - (2 ^ 31) \<and> b = -1)"
    by blast
  then show ?thesis
  proof cases
    case zero
    then show ?thesis using ops assms by (simp add: Value_Divide_def Value_Modulo_def)
  next
    case over
    then have "c_div a b = 2 ^ 31" by (simp add: c_div_def)
    then show ?thesis using ops over assms by (simp add: Value_Divide_def Value_Modulo_def int_result_def)
  next
    case fine
    note q = c_div_range [OF ab(1,2) fine]
    have r: "\<bar>c_mod a b\<bar> < \<bar>b\<bar>" using c_mod_bound fine(1) by blast
    then have r': "- (2 ^ 31) \<le> c_mod a b" "c_mod a b < 2 ^ 31" using ab by linarith+
    let ?q = "SQL_int (word_of_int (c_div a b))" and ?r = "SQL_int (word_of_int (c_mod a b))"
    have "Value_Divide v w = Inr ?q" "Value_Modulo v w = Inr ?r"
      using fine q r' assms by (simp_all add: Value_Divide_def Value_Modulo_def int_result_def)
    moreover have qr: "v_int ?q = c_div a b" "v_int ?r = c_mod a b" using q r' by (simp_all add: v_int_SQL_int)
    moreover have "exactly (Inr ?q) (c_div a b)" "exactly (Inr ?r) (c_mod a b)"
      using int_result_exactly [of "c_div a b"] int_result_exactly [of "c_mod a b"] q r' by (simp_all add: int_result_def)
    ultimately have "Value_Divide v w = Inr ?q \<and> Value_Modulo v w = Inr ?r \<and> exactly (Inr ?q) (v_int ?q) \<and> exactly (Inr ?r) (v_int ?r) \<and>
        a = v_int ?q * b + v_int ?r \<and> \<bar>v_int ?r\<bar> < \<bar>b\<bar> \<and> (v_int ?r = 0 \<or> sgn (v_int ?r) = sgn a)"
      using r c_div_mod [of a b] c_mod_sign [OF fine(1), of a] unfolding qr by metis
    then show ?thesis using ops fine by auto
  qed
qed

theorem integer_arithmetic_exact_witness:
  "exactly (Value_Add (SQL_int (-7)) (SQL_int 2)) (-5) \<and>
   (\<exists>q r. Value_Divide (SQL_int (-7)) (SQL_int 2) = Inr q \<and> Value_Modulo (SQL_int (-7)) (SQL_int 2) = Inr r \<and>
     -7 = v_int q * 2 + v_int r \<and> \<bar>v_int r\<bar> < 2 \<and> (v_int r = 0 \<or> sgn (v_int r) = -1))"
proof -
  have "v_type (SQL_int (-7)) = T_INTEGER" "v_type (SQL_int 2) = T_INTEGER" "-7 = v_int (SQL_int (-7))"
    "2 = v_int (SQL_int 2)"
    by (simp_all add: v_int_def Value_int_def)
  from integer_arithmetic_exact [OF this] show ?thesis by auto
qed

text \<open>
  C36. NULL does not survive storage: a NULL value of any storable type is written as the bytes of
  zero, false or the empty string and is read back as that value, not as NULL; comparisons do not look
  at the NULL flag either, so a NULL integer equals zero.
\<close>

theorem null_is_not_stored:
  assumes "t \<noteq> T_INVALID"
  shows "\<exists>bs v. SerializeTo (Value_typed t) = Inr bs \<and> DeserializeFrom bs t = Inr v \<and>
    v_null (Value_typed t) \<and> \<not> v_null v \<and> CompareEquals (Value_typed t) v = Inr (SQL_bool True)"
  using assms by (cases t)
    (auto simp: Value_typed_def SerializeTo_def DeserializeFrom_def take_bytes_def CompareEquals_def
      Value_bool_def Value_int_def Value_float_def Value_string_def v_bool_def v_int_def string_bytes_def
      bytes_string_def f32_equal_def f32_nan_def f32_abs_def F32_INF_def)

theorem null_is_not_stored_witness:
  "\<exists>bs v. SerializeTo (Value_typed T_INTEGER) = Inr bs \<and> DeserializeFrom bs T_INTEGER = Inr v \<and> \<not> v_null v"
  using null_is_not_stored [of T_INTEGER] by blast

end
