(* ===== verification/Schema_Tuple.thy ===== *)
theory Schema_Tuple
  imports SQL_Value
begin

text \<open>
  Columns, schemas and tuples: \<^verbatim>\<open>catalog/column.h\<close>, \<^verbatim>\<open>catalog/schema.h\<close>,
  \<^verbatim>\<open>storage/table/tuple.h\<close> and \<^verbatim>\<open>storage/table/tuple.cpp\<close>. A tuple keeps the bytes of its values one after the
  other and, when it was made from values, the values themselves; a tuple that comes from a table
  heap has only the bytes, and a column is read at the offset that the schema computed for it. The
  lengths and offsets, \<^verbatim>\<open>uint32_t\<close> in the code, are natural numbers.
\<close>

section \<open>Columns and schemas\<close>

record column =
  c_name :: string
  c_type :: type_id
  c_length :: nat
  c_fixed_length :: nat
  c_variable_length :: nat
  c_offset :: nat

definition GetFixedLengthFor :: "type_id \<Rightarrow> nat" where
  "GetFixedLengthFor t = (case t of T_BOOLEAN \<Rightarrow> 1 | T_INTEGER \<Rightarrow> 4 | T_FLOAT \<Rightarrow> 8 | _ \<Rightarrow> 0)"

definition Column :: "string \<Rightarrow> type_id \<Rightarrow> nat \<Rightarrow> column" where
  "Column name t len =
     (if t = T_VARCHAR
      then let len' = (if len = 0 then 256 else len)
           in \<lparr>c_name = name, c_type = t, c_length = len', c_fixed_length = 4, c_variable_length = len', c_offset = 0\<rparr>
      else \<lparr>c_name = name, c_type = t, c_length = len, c_fixed_length = GetFixedLengthFor t,
             c_variable_length = 0, c_offset = 0\<rparr>)"

definition IsInlined :: "column \<Rightarrow> bool" where
  "IsInlined c \<longleftrightarrow> c_type c \<noteq> T_VARCHAR"

definition Column_TypeIdToString :: "type_id \<Rightarrow> string" where
  "Column_TypeIdToString t =
     (case t of T_BOOLEAN \<Rightarrow> ''BOOLEAN'' | T_INTEGER \<Rightarrow> ''INTEGER'' | T_FLOAT \<Rightarrow> ''FLOAT''
      | T_VARCHAR \<Rightarrow> ''VARCHAR'' | T_INVALID \<Rightarrow> ''INVALID'')"

definition Column_ToString :: "column \<Rightarrow> string" where
  "Column_ToString c = c_name c @ '':'' @ Column_TypeIdToString (c_type c)"

record schema =
  columns :: "column list"
  tuple_length :: nat

primrec set_offsets :: "nat \<Rightarrow> column list \<Rightarrow> column list \<times> nat" where
  "set_offsets off [] = ([], off)"
| "set_offsets off (c # cs) =
     (let (cs', n) = set_offsets (off + (if IsInlined c then c_fixed_length c else 4)) cs
      in (c\<lparr>c_offset := off\<rparr> # cs', n))"

definition Schema :: "column list \<Rightarrow> schema" where
  "Schema cs = (let (cs', n) = set_offsets 0 cs in \<lparr>columns = cs', tuple_length = n\<rparr>)"

definition UINT32_MAX :: nat where
  "UINT32_MAX = 2 ^ 32 - 1"

primrec column_idx :: "string \<Rightarrow> nat \<Rightarrow> column list \<Rightarrow> nat" where
  "column_idx name i [] = UINT32_MAX"
| "column_idx name i (c # cs) = (if c_name c = name then i else column_idx name (Suc i) cs)"

definition GetColumnIdx :: "schema \<Rightarrow> string \<Rightarrow> nat" where
  "GetColumnIdx s name = column_idx name 0 (columns s)"

text \<open>The strings of a list, with a separator between them.\<close>

fun join :: "string \<Rightarrow> string list \<Rightarrow> string" where
  "join sep [] = []"
| "join sep [s] = s"
| "join sep (s # t # ss) = s @ sep @ join sep (t # ss)"

definition Schema_ToString :: "schema \<Rightarrow> string" where
  "Schema_ToString s = ''('' @ join '', '' (map Column_ToString (columns s)) @ '')''"

section \<open>Tuples\<close>

record tuple =
  t_rid :: rid
  t_data :: "byte list"
  t_values :: "val list"

definition Tuple_empty :: tuple where
  "Tuple_empty = \<lparr>t_rid = invalid_rid, t_data = [], t_values = []\<rparr>"

primrec serialize_values :: "val list \<Rightarrow> byte list res" where
  "serialize_values [] = Inr []"
| "serialize_values (v # vs) =
     rbind (SerializeTo v) (\<lambda>bs. rbind (serialize_values vs) (\<lambda>rest. Inr (bs @ rest)))"

definition Tuple :: "val list \<Rightarrow> tuple res" where
  "Tuple vs = rbind (serialize_values vs) (\<lambda>bs. Inr \<lparr>t_rid = invalid_rid, t_data = bs, t_values = vs\<rparr>)"

definition Tuple_GetValue :: "tuple \<Rightarrow> nat \<Rightarrow> val" where
  "Tuple_GetValue t i = (if i < length (t_values t) then t_values t ! i else Value_default)"

definition Tuple_GetColumn :: "tuple \<Rightarrow> schema \<Rightarrow> nat \<Rightarrow> val res" where
  "Tuple_GetColumn t s i =
     (if t_values t \<noteq> [] \<and> i < length (t_values t) then Inr (t_values t ! i)
      else if i < length (columns s)
      then DeserializeFrom (drop (c_offset (columns s ! i)) (t_data t)) (c_type (columns s ! i))
      else Inl (UndefinedBehaviour ''column index out of range''))"

definition Tuple_ToString :: "(f32 \<Rightarrow> string) \<Rightarrow> tuple \<Rightarrow> string" where
  "Tuple_ToString fmt t = ''('' @ join '', '' (map (Value_ToString fmt) (t_values t)) @ '')''"

text \<open>\<^verbatim>\<open>DeserializeFrom\<close> on the fresh tuple of \<^verbatim>\<open>TableHeap::GetTuple\<close>, then \<^verbatim>\<open>SetRID\<close>.\<close>

definition Tuple_DeserializeFrom :: "tuple \<Rightarrow> byte list \<Rightarrow> tuple" where
  "Tuple_DeserializeFrom t bs = t\<lparr>t_data := bs\<rparr>"

definition stored_tuple :: "rid \<Rightarrow> byte list \<Rightarrow> tuple" where
  "stored_tuple r bs = (Tuple_DeserializeFrom Tuple_empty bs)\<lparr>t_rid := r\<rparr>"

section \<open>Lemmas\<close>

definition col_width :: "column \<Rightarrow> nat" where
  "col_width c = (if IsInlined c then c_fixed_length c else 4)"

lemma set_offsets_props:
  "length (fst (set_offsets off cs)) = length cs \<and> snd (set_offsets off cs) = off + sum_list (map col_width cs) \<and>
   (\<forall>i < length cs. c_type (fst (set_offsets off cs) ! i) = c_type (cs ! i) \<and>
      c_name (fst (set_offsets off cs) ! i) = c_name (cs ! i) \<and>
      c_offset (fst (set_offsets off cs) ! i) = off + sum_list (map col_width (take i cs)))"
proof (induction cs arbitrary: off)
  case (Cons c cs)
  have "set_offsets off (c # cs) =
      (c\<lparr>c_offset := off\<rparr> # fst (set_offsets (off + col_width c) cs), snd (set_offsets (off + col_width c) cs))"
    by (simp add: case_prod_beta Let_def col_width_def)
  with Cons [of "off + col_width c"] show ?case
    by (auto simp: nth_Cons' take_Cons')
qed simp

lemma Schema_columns:
  "length (columns (Schema cs)) = length cs"
  "i < length cs \<Longrightarrow> c_type (columns (Schema cs) ! i) = c_type (cs ! i)"
  "i < length cs \<Longrightarrow> c_offset (columns (Schema cs) ! i) = sum_list (map col_width (take i cs))"
  using set_offsets_props [of 0 cs] by (simp_all add: Schema_def case_prod_beta)

definition bytes_of :: "val \<Rightarrow> byte list" where
  "bytes_of v = (case SerializeTo v of Inr bs \<Rightarrow> bs | Inl _ \<Rightarrow> [])"

lemma bytes_of_ok:
  assumes "val_ok v"
  shows "SerializeTo v = Inr (bytes_of v)"
    and "DeserializeFrom (bytes_of v @ rest) (v_type v) = Inr (v\<lparr>v_null := False\<rparr>)"
  using val_roundtrip [OF assms, of rest] by (auto simp: bytes_of_def)

lemma serialize_values_ok:
  "\<forall>v \<in> set vs. val_ok v \<Longrightarrow> serialize_values vs = Inr (concat (map bytes_of vs))"
  by (induction vs) (simp_all add: bytes_of_ok(1))

lemma Tuple_ok:
  "\<forall>v \<in> set vs. val_ok v \<Longrightarrow>
   Tuple vs = Inr \<lparr>t_rid = invalid_rid, t_data = concat (map bytes_of vs), t_values = vs\<rparr>"
  by (simp add: Tuple_def serialize_values_ok)

lemma drop_concat:
  "i < length xss \<Longrightarrow> n = sum_list (map length (take i xss)) \<Longrightarrow>
   drop n (concat xss) = xss ! i @ concat (drop (Suc i) xss)"
proof (induction xss arbitrary: i n)
  case (Cons xs xss)
  then show ?case by (cases i) (simp_all)
qed simp

text \<open>A column whose width in the schema is the number of bytes of its values.\<close>

definition fixed_column :: "column \<Rightarrow> bool" where
  "fixed_column c \<longleftrightarrow> (c_type c = T_BOOLEAN \<and> c_fixed_length c = 1) \<or> (c_type c = T_INTEGER \<and> c_fixed_length c = 4)"

lemma fixed_column_Column: "t = T_BOOLEAN \<or> t = T_INTEGER \<Longrightarrow> fixed_column (Column n t len)"
  by (auto simp: fixed_column_def Column_def GetFixedLengthFor_def)

lemma fixed_width: "val_ok v \<Longrightarrow> fixed_column c \<Longrightarrow> v_type v = c_type c \<Longrightarrow> length (bytes_of v) = col_width c"
  by (auto simp: bytes_of_def SerializeTo_def fixed_column_def col_width_def IsInlined_def)

definition row_ok :: "column list \<Rightarrow> val list \<Rightarrow> bool" where
  "row_ok cs vs \<longleftrightarrow> length vs = length cs \<and> (\<forall>i < length cs. val_ok (vs ! i) \<and> v_type (vs ! i) = c_type (cs ! i))"

lemma row_offset:
  assumes row: "row_ok cs vs" and fixed: "\<forall>j < i. fixed_column (cs ! j)" and i: "i < length cs"
  shows "sum_list (map col_width (take i cs)) = sum_list (map length (take i (map bytes_of vs)))"
proof -
  have "map col_width (take i cs) = map length (take i (map bytes_of vs))"
    using row fixed i by (intro nth_equalityI) (auto simp: row_ok_def fixed_width)
  then show ?thesis by simp
qed

section \<open>Properties\<close>

text \<open>
  C29. A row comes back from storage as it was written, NULLs apart: if every column before column
  \<open>i\<close> is BOOLEAN or INTEGER, then reading column \<open>i\<close>, of any type, from the stored bytes of a tuple at
  the offset of the schema gives the value that was written there.
\<close>

theorem stored_column_roundtrip:
  assumes "row_ok cs vs" and "i < length cs" and "\<forall>j < i. fixed_column (cs ! j)" and "Tuple vs = Inr t"
  shows "Tuple_GetColumn (stored_tuple r (t_data t)) (Schema cs) i = Inr ((vs ! i)\<lparr>v_null := False\<rparr>)"
proof -
  have ok: "\<forall>v \<in> set vs. val_ok v" using assms(1) by (auto simp: row_ok_def set_conv_nth)
  have len: "length vs = length cs" using assms(1) by (simp add: row_ok_def)
  have d: "t_data t = concat (map bytes_of vs)" using assms(4) Tuple_ok [OF ok] by auto
  have "drop (c_offset (columns (Schema cs) ! i)) (t_data t) = bytes_of (vs ! i) @ concat (drop (Suc i) (map bytes_of vs))"
    using drop_concat [of i "map bytes_of vs"] row_offset [OF assms(1,3,2)] assms(2) len
    by (simp add: d Schema_columns)
  then show ?thesis
    using assms(1,2) bytes_of_ok(2) [of "vs ! i"]
    by (simp add: Tuple_GetColumn_def stored_tuple_def Tuple_DeserializeFrom_def Tuple_empty_def Schema_columns row_ok_def)
qed

theorem stored_column_roundtrip_witness:
  "\<exists>t. Tuple [SQL_int 7, Value_string T_VARCHAR ''x''] = Inr t \<and>
     Tuple_GetColumn (stored_tuple (RID 3 0) (t_data t)) (Schema [Column ''a'' T_INTEGER 0, Column ''b'' T_VARCHAR 0]) 1 =
       Inr (Value_string T_VARCHAR ''x'')"
proof -
  let ?vs = "[SQL_int 7, Value_string T_VARCHAR ''x'']" let ?cs = "[Column ''a'' T_INTEGER 0, Column ''b'' T_VARCHAR 0]"
  have row: "row_ok ?cs ?vs"
    by (auto simp: row_ok_def less_Suc_eq val_ok_def Value_int_def Value_string_def Column_def Let_def)
  have fixed: "\<forall>j < 1. fixed_column (?cs ! j)" by (simp add: fixed_column_Column)
  have "\<forall>v \<in> set ?vs. val_ok v" by (auto simp: val_ok_def Value_int_def Value_string_def)
  then obtain t where "Tuple ?vs = Inr t" using Tuple_ok by blast
  with stored_column_roundtrip [OF row _ fixed this, of "RID 3 0"] show ?thesis by (simp add: Value_string_def)
qed

text \<open>
  C37. The schema reserves 8 bytes for a FLOAT column, a value takes 4: a column right after a FLOAT
  column is read beyond the end of the tuple when it is the last one, and after a VARCHAR column the
  bytes of the string are taken for the value.
\<close>

theorem column_after_float_or_varchar:
  assumes "c_type c = T_INTEGER"
  shows "(\<forall>t. Tuple [Value_float T_FLOAT f, SQL_int i] = Inr t \<longrightarrow>
      (\<exists>msg. Tuple_GetColumn (stored_tuple r (t_data t)) (Schema [Column n T_FLOAT 0, c]) 1 =
         Inl (UndefinedBehaviour msg))) \<and>
    (\<forall>t. Tuple [Value_string T_VARCHAR s, SQL_int i] = Inr t \<longrightarrow> 4 \<le> length s \<longrightarrow>
      Tuple_GetColumn (stored_tuple r (t_data t)) (Schema [Column n T_VARCHAR 0, c]) 1 =
        Inr (SQL_int (of_le32 (string_bytes (take 4 s)))))"
proof (intro conjI allI impI)
  fix t assume t: "Tuple [Value_float T_FLOAT f, SQL_int i] = Inr t"
  then have "t_data t = le32 f @ le32 i"
    by (auto simp: Tuple_def SerializeTo_def Value_float_def Value_int_def)
  moreover have "c_offset (columns (Schema [Column n T_FLOAT 0, c]) ! 1) = 8"
    by (simp add: Schema_columns col_width_def IsInlined_def Column_def GetFixedLengthFor_def)
  ultimately show "\<exists>msg. Tuple_GetColumn (stored_tuple r (t_data t)) (Schema [Column n T_FLOAT 0, c]) 1 =
      Inl (UndefinedBehaviour msg)"
    using assms Schema_columns(2) [of 1 "[Column n T_FLOAT 0, c]"]
    by (simp add: Tuple_GetColumn_def stored_tuple_def Tuple_DeserializeFrom_def Tuple_empty_def
        Schema_columns(1) DeserializeFrom_def take_bytes_def)
next
  fix t assume t: "Tuple [Value_string T_VARCHAR s, SQL_int i] = Inr t" and l: "4 \<le> length s"
  then have "t_data t = le32 (of_nat (length s)) @ string_bytes s @ le32 i"
    by (auto simp: Tuple_def SerializeTo_def Value_string_def Value_int_def)
  moreover have "c_offset (columns (Schema [Column n T_VARCHAR 0, c]) ! 1) = 4"
    by (simp add: Schema_columns col_width_def IsInlined_def Column_def)
  moreover have "take 4 (string_bytes s @ le32 i) = string_bytes (take 4 s)"
    using l by (simp add: string_bytes_def take_map)
  ultimately show "Tuple_GetColumn (stored_tuple r (t_data t)) (Schema [Column n T_VARCHAR 0, c]) 1 =
      Inr (SQL_int (of_le32 (string_bytes (take 4 s))))"
    using assms Schema_columns(2) [of 1 "[Column n T_VARCHAR 0, c]"] l
    by (simp add: Tuple_GetColumn_def stored_tuple_def Tuple_DeserializeFrom_def Tuple_empty_def
        Schema_columns(1) DeserializeFrom_def take_bytes_def)
qed

theorem column_after_float_or_varchar_witness:
  "\<exists>t msg. Tuple [Value_float T_FLOAT 0, SQL_int 5] = Inr t \<and>
     Tuple_GetColumn (stored_tuple (RID 0 0) (t_data t)) (Schema [Column ''f'' T_FLOAT 0, Column ''i'' T_INTEGER 0]) 1 =
       Inl (UndefinedBehaviour msg)"
proof -
  have c: "c_type (Column ''i'' T_INTEGER 0) = T_INTEGER" by (simp add: Column_def)
  obtain t where "Tuple [Value_float T_FLOAT 0, SQL_int 5] = Inr t"
    by (simp add: Tuple_def SerializeTo_def Value_float_def Value_int_def)
  then show ?thesis
    using column_after_float_or_varchar [OF c, of 0 5 "RID 0 0" "''f''"] by blast
qed

end
