(* ===== verification/BPT_Page.thy ===== *)
theory BPT_Page
  imports OneBase_Prelude
begin

text \<open>
  The pages of the B+ tree: \<^verbatim>\<open>storage/page/b_plus_tree_page.h\<close>,
  \<^verbatim>\<open>storage/page/b_plus_tree_leaf_page.h/.cpp\<close> and \<^verbatim>\<open>storage/page/b_plus_tree_internal_page.h/.cpp\<close>,
  in the only instance of the templates, keys \<^verbatim>\<open>int\<close> with \<^verbatim>\<open>std::less\<close>. The flexible array at the end
  of a page is a function from indices to pairs; writing at an index beyond what fits into 4096
  bytes is undefined behaviour. Sizes are never negative and are natural numbers. The lemmas refine
  the loops over the array to operations on lists (\<open>leaf_list\<close>, \<open>internal_list\<close>).
\<close>

section \<open>Loops over the array\<close>

text \<open>\<^verbatim>\<open>for (i = size; i > index; i--) a[i] = a[i-1]\<close>\<close>

fun shift_up :: "(nat \<Rightarrow> 'e) \<Rightarrow> nat \<Rightarrow> nat \<Rightarrow> (nat \<Rightarrow> 'e)" where
  "shift_up a i index = (if index < i then shift_up (a(i := a (i - 1))) (i - 1) index else a)"

text \<open>\<^verbatim>\<open>for (i = index; i < size - 1; i++) a[i] = a[i+1]\<close>\<close>

function shift_down :: "(nat \<Rightarrow> 'e) \<Rightarrow> nat \<Rightarrow> nat \<Rightarrow> (nat \<Rightarrow> 'e)" where
  "shift_down a i n = (if i + 1 < n then shift_down (a(i := a (i + 1))) (i + 1) n else a)"
  by pat_completeness auto
termination
  by (relation "measure (\<lambda>(a, i, n). n - i)") auto

text \<open>\<^verbatim>\<open>for (i = 0; i < n; i++) dst[d + i] = src[s + i]\<close>\<close>

primrec copy_to :: "(nat \<Rightarrow> 'e) \<Rightarrow> nat \<Rightarrow> (nat \<Rightarrow> 'e) \<Rightarrow> nat \<Rightarrow> nat \<Rightarrow> (nat \<Rightarrow> 'e)" where
  "copy_to dst d src s 0 = dst"
| "copy_to dst d src s (Suc n) = (copy_to dst d src s n)(d + n := src (s + n))"

declare shift_up.simps [simp del] shift_down.simps [simp del]

lemma shift_up_at: "shift_up a i index j = (if index < j \<and> j \<le> i then a (j - 1) else a j)"
proof (induction a i index rule: shift_up.induct)
  case (1 a i index)
  show ?case
  proof (cases "index < i")
    case True
    then have "shift_up a i index = shift_up (a(i := a (i - 1))) (i - 1) index" by (subst shift_up.simps) simp
    then show ?thesis unfolding fun_upd_def using 1 [OF True, unfolded fun_upd_def] True by auto
  qed (subst shift_up.simps, auto)
qed

lemma shift_down_at: "shift_down a i n j = (if i \<le> j \<and> j + 1 < n then a (j + 1) else a j)"
proof (induction a i n rule: shift_down.induct)
  case (1 a i n)
  show ?case
  proof (cases "i + 1 < n")
    case True
    then have "shift_down a i n = shift_down (a(i := a (i + 1))) (i + 1) n" by (subst shift_down.simps) simp
    then show ?thesis unfolding fun_upd_def using 1 [OF True, unfolded fun_upd_def] True by auto
  qed (subst shift_down.simps, auto)
qed

lemma copy_to_at: "copy_to dst d src s n j = (if d \<le> j \<and> j < d + n then src (s + (j - d)) else dst j)"
  by (induction n) auto

section \<open>Binary search\<close>

text \<open>
  The loop of \<^verbatim>\<open>KeyIndex\<close>, with \<open>before mid\<close> for \<^verbatim>\<open>comparator(KeyAt(mid), key)\<close>; the indices are
  \<^verbatim>\<open>int\<close> because \<^verbatim>\<open>high\<close> may become -1.
\<close>

function key_index_loop :: "(nat \<Rightarrow> bool) \<Rightarrow> int \<Rightarrow> int \<Rightarrow> int" where
  "key_index_loop before low high =
     (if low \<le> high
      then let mid = (low + high) div 2
           in if before (nat mid) then key_index_loop before (mid + 1) high else key_index_loop before low (mid - 1)
      else low)"
  by pat_completeness auto
termination
  by (relation "measure (\<lambda>(l, low, high). nat (high - low + 1))") auto

text \<open>The loop of \<^verbatim>\<open>Lookup\<close> of an internal page, with \<open>after mid\<close> for \<^verbatim>\<open>comparator(key, KeyAt(mid))\<close>.\<close>

function child_index_loop :: "(nat \<Rightarrow> bool) \<Rightarrow> int \<Rightarrow> int \<Rightarrow> int \<Rightarrow> int" where
  "child_index_loop after index low high =
     (if low \<le> high
      then let mid = (low + high) div 2
           in if after (nat mid) then child_index_loop after index low (mid - 1)
              else child_index_loop after mid (mid + 1) high
      else index)"
  by pat_completeness auto
termination
  by (relation "measure (\<lambda>(l, i, low, high). nat (high - low + 1))") auto

declare key_index_loop.simps [simp del] child_index_loop.simps [simp del]

text \<open>Both loops find the boundary of a monotone predicate.\<close>

lemma key_index_loop_ok:
  assumes "0 \<le> low" and "low \<le> high + 1" and "high < int n"
    and "\<forall>i. int i < low \<longrightarrow> before i" and "\<forall>i. high < int i \<longrightarrow> i < n \<longrightarrow> \<not> before i"
    and "\<forall>i j. i \<le> j \<longrightarrow> j < n \<longrightarrow> before j \<longrightarrow> before i"
  shows "0 \<le> key_index_loop before low high \<and> key_index_loop before low high \<le> int n \<and>
    (\<forall>i < n. before i \<longleftrightarrow> int i < key_index_loop before low high)"
  using assms
proof (induction before low high rule: key_index_loop.induct)
  case (1 before low high)
  show ?case
  proof (cases "low \<le> high")
    case False
    then have r: "key_index_loop before low high = low" "low = high + 1"
      using 1(4) by (simp_all add: key_index_loop.simps)
    have "before i \<longleftrightarrow> int i < low" if "i < n" for i
      using 1(6) 1(7) [rule_format, of i] r(2) that by (cases "int i < low") auto
    then show ?thesis using 1(3,5) r by simp
  next
    case True
    define mid where "mid = (low + high) div 2"
    have mid: "low \<le> mid" "mid \<le> high" "0 \<le> mid" "nat mid < n" using True 1(3,5) by (auto simp: mid_def)
    show ?thesis
    proof (cases "before (nat mid)")
      case b: True
      have r: "key_index_loop before low high = key_index_loop before (mid + 1) high"
        using True b by (subst key_index_loop.simps) (simp add: mid_def)
      have "\<forall>i. int i < mid + 1 \<longrightarrow> before i"
      proof (intro allI impI)
        fix i assume "int i < mid + 1"
        then have "i \<le> nat mid" using mid(3) by linarith
        then show "before i" using 1(8) mid(4) b by blast
      qed
      then show ?thesis
        unfolding r by (intro 1(1) [OF True mid_def b _ _ 1(5) _ 1(7,8)]) (use mid in auto)
    next
      case b: False
      have r: "key_index_loop before low high = key_index_loop before low (mid - 1)"
        using True b by (subst key_index_loop.simps) (simp add: mid_def)
      have "\<forall>i. mid - 1 < int i \<longrightarrow> i < n \<longrightarrow> \<not> before i"
      proof (intro allI impI)
        fix i assume "mid - 1 < int i" "i < n"
        then have "nat mid \<le> i" by linarith
        then show "\<not> before i" using 1(8) \<open>i < n\<close> b by blast
      qed
      then show ?thesis
        unfolding r by (intro 1(2) [OF True mid_def b 1(3) _ _ 1(6) _ 1(8)]) (use mid 1(5) in auto)
    qed
  qed
qed

lemma key_index_loop_cong:
  "0 \<le> low \<Longrightarrow> (\<And>i. low \<le> int i \<Longrightarrow> before i = before' i) \<Longrightarrow>
    key_index_loop before low high = key_index_loop before' low high"
proof (induction before low high rule: key_index_loop.induct)
  case (1 before low high)
  show ?case
  proof (cases "low \<le> high")
    case True
    define mid where "mid = (low + high) div 2"
    have mid: "low \<le> mid" "before (nat mid) = before' (nat mid)"
      using True 1(3) 1(4) [of "nat mid"] by (simp_all add: mid_def)
    show ?thesis
      using True mid 1(1) [OF True mid_def] 1(2) [OF True mid_def] 1(3,4)
      by (subst (1 2) key_index_loop.simps) (simp add: mid_def [symmetric])
  qed (simp add: key_index_loop.simps)
qed

text \<open>The second loop is the first one, one index behind, on the negated test.\<close>

lemma child_index_loop_eq:
  "index = low - 1 \<Longrightarrow> child_index_loop after index low high = key_index_loop (\<lambda>i. \<not> after i) low high - 1"
proof (induction after index low high rule: child_index_loop.induct)
  case (1 after index low high)
  show ?case
  proof (cases "low \<le> high")
    case True
    then show ?thesis
      using 1(1,2) [OF True refl] 1(3)
      by (subst child_index_loop.simps, subst key_index_loop.simps) (simp add: Let_def)
  next
    case False
    then show ?thesis using 1(3) by (subst child_index_loop.simps, subst key_index_loop.simps) simp
  qed
qed

section \<open>Leaf pages\<close>

text \<open>A pair of a leaf takes 12 bytes after a header of 20, one of an internal page 8 after 16.\<close>

definition LEAF_CAPACITY :: nat where
  "LEAF_CAPACITY = (PAGE_SIZE - 20) div 12"

definition INTERNAL_CAPACITY :: nat where
  "INTERNAL_CAPACITY = (PAGE_SIZE - 16) div 8"

definition fits :: "nat \<Rightarrow> nat \<Rightarrow> 'a res \<Rightarrow> 'a res" where
  "fits n capacity k =
     (if n \<le> capacity then k else Inl (UndefinedBehaviour ''array written beyond the end of the page''))"

record leaf_page =
  lp_size :: nat
  lp_max :: nat
  lp_parent :: page_id
  lp_next :: page_id
  lp_array :: "nat \<Rightarrow> int \<times> rid"

definition Leaf_Init :: "nat \<Rightarrow> leaf_page" where
  "Leaf_Init max_size =
     \<lparr>lp_size = 0, lp_max = max_size, lp_parent = INVALID_PAGE_ID, lp_next = INVALID_PAGE_ID,
      lp_array = (\<lambda>_. (0, RID 0 0))\<rparr>"

definition Leaf_KeyAt :: "leaf_page \<Rightarrow> nat \<Rightarrow> int" where
  "Leaf_KeyAt p i = fst (lp_array p i)"

definition Leaf_ValueAt :: "leaf_page \<Rightarrow> nat \<Rightarrow> rid" where
  "Leaf_ValueAt p i = snd (lp_array p i)"

definition Leaf_GetMinSize :: "leaf_page \<Rightarrow> nat" where
  "Leaf_GetMinSize p = lp_max p div 2"

definition Leaf_KeyIndex :: "leaf_page \<Rightarrow> int \<Rightarrow> nat" where
  "Leaf_KeyIndex p key = nat (key_index_loop (\<lambda>mid. Leaf_KeyAt p mid < key) 0 (int (lp_size p) - 1))"

definition Leaf_found :: "leaf_page \<Rightarrow> int \<Rightarrow> nat \<Rightarrow> bool" where
  "Leaf_found p key i \<longleftrightarrow> i < lp_size p \<and> \<not> key < Leaf_KeyAt p i \<and> \<not> Leaf_KeyAt p i < key"

definition Leaf_Lookup :: "leaf_page \<Rightarrow> int \<Rightarrow> rid option" where
  "Leaf_Lookup p key =
     (let index = Leaf_KeyIndex p key
      in if Leaf_found p key index then Some (Leaf_ValueAt p index) else None)"

definition Leaf_Insert :: "leaf_page \<Rightarrow> int \<Rightarrow> rid \<Rightarrow> (nat \<times> leaf_page) res" where
  "Leaf_Insert p key value =
     (let index = Leaf_KeyIndex p key
      in if Leaf_found p key index then Inr (lp_size p, p)
         else
           let a = (shift_up (lp_array p) (lp_size p) index)(index := (key, value));
               p' = p\<lparr>lp_array := a, lp_size := lp_size p + 1\<rparr>
           in fits (lp_size p + 1) LEAF_CAPACITY (Inr (lp_size p', p')))"

definition Leaf_RemoveAndDeleteRecord :: "leaf_page \<Rightarrow> int \<Rightarrow> nat \<times> leaf_page" where
  "Leaf_RemoveAndDeleteRecord p key =
     (let index = Leaf_KeyIndex p key
      in if \<not> Leaf_found p key index then (lp_size p, p)
         else
           let p' = p\<lparr>lp_array := shift_down (lp_array p) index (lp_size p), lp_size := lp_size p - 1\<rparr>
           in (lp_size p', p'))"

text \<open>The moves return the page and the recipient, in this order.\<close>

definition Leaf_MoveHalfTo :: "leaf_page \<Rightarrow> leaf_page \<Rightarrow> (leaf_page \<times> leaf_page) res" where
  "Leaf_MoveHalfTo p r =
     (let split_idx = lp_size p div 2; n = lp_size p - split_idx
      in fits n LEAF_CAPACITY (Inr (p\<lparr>lp_size := split_idx\<rparr>,
           r\<lparr>lp_array := copy_to (lp_array r) 0 (lp_array p) split_idx n, lp_size := n\<rparr>)))"

definition Leaf_MoveAllTo :: "leaf_page \<Rightarrow> leaf_page \<Rightarrow> (leaf_page \<times> leaf_page) res" where
  "Leaf_MoveAllTo p r =
     fits (lp_size r + lp_size p) LEAF_CAPACITY (Inr (p\<lparr>lp_size := 0\<rparr>,
       r\<lparr>lp_array := copy_to (lp_array r) (lp_size r) (lp_array p) 0 (lp_size p),
         lp_size := lp_size r + lp_size p, lp_next := lp_next p\<rparr>))"

definition Leaf_MoveFirstToEndOf :: "leaf_page \<Rightarrow> leaf_page \<Rightarrow> (leaf_page \<times> leaf_page) res" where
  "Leaf_MoveFirstToEndOf p r =
     fits (lp_size r + 1) LEAF_CAPACITY (Inr
       (p\<lparr>lp_array := shift_down (lp_array p) 0 (lp_size p), lp_size := lp_size p - 1\<rparr>,
        r\<lparr>lp_array := (lp_array r)(lp_size r := lp_array p 0), lp_size := lp_size r + 1\<rparr>))"

definition Leaf_MoveLastToFrontOf :: "leaf_page \<Rightarrow> leaf_page \<Rightarrow> (leaf_page \<times> leaf_page) res" where
  "Leaf_MoveLastToFrontOf p r =
     fits (lp_size r + 1) LEAF_CAPACITY (Inr
       (p\<lparr>lp_size := lp_size p - 1\<rparr>,
        r\<lparr>lp_array := (shift_up (lp_array r) (lp_size r) 0)(0 := lp_array p (lp_size p - 1)),
          lp_size := lp_size r + 1\<rparr>))"

section \<open>Internal pages\<close>

record internal_page =
  ip_size :: nat
  ip_max :: nat
  ip_parent :: page_id
  ip_array :: "nat \<Rightarrow> int \<times> page_id"

definition Internal_Init :: "nat \<Rightarrow> internal_page" where
  "Internal_Init max_size =
     \<lparr>ip_size = 0, ip_max = max_size, ip_parent = INVALID_PAGE_ID, ip_array = (\<lambda>_. (0, 0))\<rparr>"

definition Internal_KeyAt :: "internal_page \<Rightarrow> nat \<Rightarrow> int" where
  "Internal_KeyAt p i = fst (ip_array p i)"

definition Internal_ValueAt :: "internal_page \<Rightarrow> nat \<Rightarrow> page_id" where
  "Internal_ValueAt p i = snd (ip_array p i)"

definition Internal_SetKeyAt :: "internal_page \<Rightarrow> nat \<Rightarrow> int \<Rightarrow> internal_page" where
  "Internal_SetKeyAt p i key = p\<lparr>ip_array := (ip_array p)(i := (key, snd (ip_array p i)))\<rparr>"

definition Internal_SetValueAt :: "internal_page \<Rightarrow> nat \<Rightarrow> page_id \<Rightarrow> internal_page" where
  "Internal_SetValueAt p i v = p\<lparr>ip_array := (ip_array p)(i := (fst (ip_array p i), v))\<rparr>"

definition Internal_GetMinSize :: "internal_page \<Rightarrow> nat" where
  "Internal_GetMinSize p = (ip_max p + 1) div 2"

text \<open>\<^verbatim>\<open>ValueIndex\<close> scans from the left and returns -1 when the value is not there.\<close>

primrec value_index_from :: "(nat \<Rightarrow> int \<times> page_id) \<Rightarrow> page_id \<Rightarrow> nat \<Rightarrow> nat \<Rightarrow> int" where
  "value_index_from a v i 0 = -1"
| "value_index_from a v i (Suc n) = (if snd (a i) = v then int i else value_index_from a v (Suc i) n)"

definition Internal_ValueIndex :: "internal_page \<Rightarrow> page_id \<Rightarrow> int" where
  "Internal_ValueIndex p v = value_index_from (ip_array p) v 0 (ip_size p)"

definition Internal_Lookup :: "internal_page \<Rightarrow> int \<Rightarrow> page_id" where
  "Internal_Lookup p key =
     Internal_ValueAt p (nat (child_index_loop (\<lambda>mid. key < Internal_KeyAt p mid) 0 1 (int (ip_size p) - 1)))"

definition Internal_PopulateNewRoot :: "internal_page \<Rightarrow> page_id \<Rightarrow> int \<Rightarrow> page_id \<Rightarrow> internal_page" where
  "Internal_PopulateNewRoot p old_value key new_value =
     (Internal_SetValueAt (Internal_SetKeyAt (Internal_SetValueAt p 0 old_value) 1 key) 1 new_value)\<lparr>ip_size := 2\<rparr>"

definition Internal_InsertNodeAfter :: "internal_page \<Rightarrow> page_id \<Rightarrow> int \<Rightarrow> page_id \<Rightarrow> (nat \<times> internal_page) res" where
  "Internal_InsertNodeAfter p old_value key new_value =
     (let idx = nat (Internal_ValueIndex p old_value + 1);
          a = (shift_up (ip_array p) (ip_size p) idx)(idx := (key, new_value))
      in fits (ip_size p + 1) INTERNAL_CAPACITY
           (Inr (ip_size p + 1, p\<lparr>ip_array := a, ip_size := ip_size p + 1\<rparr>)))"

definition Internal_Remove :: "internal_page \<Rightarrow> nat \<Rightarrow> internal_page" where
  "Internal_Remove p index = p\<lparr>ip_array := shift_down (ip_array p) index (ip_size p), ip_size := ip_size p - 1\<rparr>"

definition Internal_RemoveAndReturnOnlyChild :: "internal_page \<Rightarrow> page_id \<times> internal_page" where
  "Internal_RemoveAndReturnOnlyChild p =
     (if ip_size p \<noteq> 1 then (INVALID_PAGE_ID, p) else (Internal_ValueAt p 0, p\<lparr>ip_size := 0\<rparr>))"

definition Internal_MoveAllTo :: "internal_page \<Rightarrow> internal_page \<Rightarrow> int \<Rightarrow> (internal_page \<times> internal_page) res" where
  "Internal_MoveAllTo p r middle_key =
     (let d = ip_size r; a = (ip_array r)(d := (middle_key, Internal_ValueAt p 0))
      in fits (d + ip_size p) INTERNAL_CAPACITY (Inr (p\<lparr>ip_size := 0\<rparr>,
           r\<lparr>ip_array := copy_to a (d + 1) (ip_array p) 1 (ip_size p - 1), ip_size := d + ip_size p\<rparr>)))"

definition Internal_MoveHalfTo :: "internal_page \<Rightarrow> internal_page \<Rightarrow> int \<Rightarrow> (internal_page \<times> internal_page) res" where
  "Internal_MoveHalfTo p r middle_key =
     (let split_idx = ip_size p div 2; move = ip_size p - split_idx
      in fits move INTERNAL_CAPACITY (Inr (p\<lparr>ip_size := ip_size p - move\<rparr>,
           r\<lparr>ip_array := copy_to (ip_array r) 0 (ip_array p) split_idx move, ip_size := ip_size r + move\<rparr>)))"

definition Internal_MoveFirstToEndOf :: "internal_page \<Rightarrow> internal_page \<Rightarrow> int \<Rightarrow> (internal_page \<times> internal_page) res" where
  "Internal_MoveFirstToEndOf p r middle_key =
     (let p1 = Internal_SetValueAt p 0 (Internal_ValueAt p 1)
      in fits (ip_size r + 1) INTERNAL_CAPACITY (Inr
           (p1\<lparr>ip_array := shift_down (ip_array p1) 1 (ip_size p), ip_size := ip_size p - 1\<rparr>,
            r\<lparr>ip_array := (ip_array r)(ip_size r := (middle_key, Internal_ValueAt p 0)), ip_size := ip_size r + 1\<rparr>)))"

definition Internal_MoveLastToFrontOf :: "internal_page \<Rightarrow> internal_page \<Rightarrow> int \<Rightarrow> (internal_page \<times> internal_page) res" where
  "Internal_MoveLastToFrontOf p r middle_key =
     (let r1 = r\<lparr>ip_array := shift_up (ip_array r) (ip_size r) 0\<rparr>;
          r2 = Internal_SetKeyAt (Internal_SetValueAt r1 0 (Internal_ValueAt p (ip_size p - 1))) 1 middle_key
      in fits (ip_size r + 1) INTERNAL_CAPACITY (Inr
           (p\<lparr>ip_size := ip_size p - 1\<rparr>, r2\<lparr>ip_size := ip_size r + 1\<rparr>)))"

section \<open>Pages as lists\<close>

lemma array_insert:
  "i \<le> n \<Longrightarrow> map ((shift_up a n i)(i := x)) [0..<Suc n] = take i (map a [0..<n]) @ x # drop i (map a [0..<n])"
  by (rule nth_equalityI) (auto simp: nth_append shift_up_at nth_Cons' nth_map_upt min_def simp del: upt_Suc)

lemma array_remove:
  "i < n \<Longrightarrow> map (shift_down a i n) [0..<n - 1] = take i (map a [0..<n]) @ drop (Suc i) (map a [0..<n])"
  by (rule nth_equalityI) (auto simp: nth_append shift_down_at min_def)

lemma array_copy: "map (copy_to dst d src s n) [0..<d + n] = map dst [0..<d] @ map src [s..<s + n]"
  by (rule nth_equalityI) (auto simp: nth_append copy_to_at)

definition leaf_list :: "leaf_page \<Rightarrow> (int \<times> rid) list" where
  "leaf_list p = map (lp_array p) [0..<lp_size p]"

definition internal_list :: "internal_page \<Rightarrow> (int \<times> page_id) list" where
  "internal_list p = map (ip_array p) [0..<ip_size p]"

lemma length_leaf_list [simp]: "length (leaf_list p) = lp_size p"
  by (simp add: leaf_list_def)

lemma length_internal_list [simp]: "length (internal_list p) = ip_size p"
  by (simp add: internal_list_def)

lemma leaf_list_nth: "i < lp_size p \<Longrightarrow> leaf_list p ! i = (Leaf_KeyAt p i, Leaf_ValueAt p i)"
  by (simp add: leaf_list_def Leaf_KeyAt_def Leaf_ValueAt_def)

lemma internal_list_nth: "i < ip_size p \<Longrightarrow> internal_list p ! i = (Internal_KeyAt p i, Internal_ValueAt p i)"
  by (simp add: internal_list_def Internal_KeyAt_def Internal_ValueAt_def)

text \<open>The keys from index \<open>lo\<close> on are strictly ascending.\<close>

definition ascending :: "(nat \<Rightarrow> int) \<Rightarrow> nat \<Rightarrow> nat \<Rightarrow> bool" where
  "ascending key lo n \<longleftrightarrow> (\<forall>i j. lo \<le> i \<longrightarrow> i < j \<longrightarrow> j < n \<longrightarrow> key i < key j)"

definition leaf_ordered :: "leaf_page \<Rightarrow> bool" where
  "leaf_ordered p \<longleftrightarrow> ascending (Leaf_KeyAt p) 0 (lp_size p)"

definition internal_ordered :: "internal_page \<Rightarrow> bool" where
  "internal_ordered p \<longleftrightarrow> ascending (Internal_KeyAt p) 1 (ip_size p)"

lemma ascending_le: "ascending key lo n \<Longrightarrow> lo \<le> i \<Longrightarrow> i \<le> j \<Longrightarrow> j < n \<Longrightarrow> key i \<le> key j"
  unfolding ascending_def by (cases "i = j") (auto intro: less_imp_le)

lemma leaf_ordered_list: "leaf_ordered p \<longleftrightarrow> sorted_wrt (<) (map fst (leaf_list p))"
  by (auto simp: leaf_ordered_def ascending_def sorted_wrt_iff_nth_less leaf_list_nth)

section \<open>The contract of the search in a node\<close>

text \<open>
  A search finds the boundary between the keys that are before the one sought and those that are not,
  among the keys of a node that are in order (from index \<open>start\<close> on).
\<close>

locale node_search =
  fixes size_of :: "'p \<Rightarrow> nat"
    and key_at :: "'p \<Rightarrow> nat \<Rightarrow> int"
    and start :: nat
    and before :: "int \<Rightarrow> int \<Rightarrow> bool"
    and find :: "'p \<Rightarrow> int \<Rightarrow> nat"
  assumes find: "ascending (key_at p) start (size_of p) \<Longrightarrow> start \<le> size_of p \<Longrightarrow>
    start \<le> find p k \<and> find p k \<le> size_of p \<and>
    (\<forall>i. start \<le> i \<longrightarrow> i < size_of p \<longrightarrow> (before (key_at p i) k \<longleftrightarrow> i < find p k))"
begin

lemma find_takeWhile:
  assumes "ascending (key_at p) start (size_of p)" "start \<le> size_of p"
    and xs: "xs = map (\<lambda>i. (key_at p i, v i)) [start..<size_of p]"
  shows "takeWhile (\<lambda>e. before (fst e) k) xs = take (find p k - start) xs"
    and "dropWhile (\<lambda>e. before (fst e) k) xs = drop (find p k - start) xs"
proof -
  note f = find [OF assms(1,2), of k]
  have nth: "i < length xs \<Longrightarrow> before (fst (xs ! i)) k \<longleftrightarrow> start + i < find p k" for i
    using f by (simp add: xs)
  have "length xs = size_of p - start" by (simp add: xs)
  then have n: "find p k - start \<le> length xs" using f by auto
  have "takeWhile (\<lambda>e. before (fst e) k) xs = take (find p k - start) xs"
    by (rule takeWhile_eq_take_P_nth) (use nth n f in auto)
  moreover have "length (takeWhile (\<lambda>e. before (fst e) k) xs) = find p k - start"
    using calculation n by simp
  ultimately show "takeWhile (\<lambda>e. before (fst e) k) xs = take (find p k - start) xs"
    "dropWhile (\<lambda>e. before (fst e) k) xs = drop (find p k - start) xs"
    by (auto simp: dropWhile_eq_drop)
qed

lemma find_boundary:
  assumes "ascending (key_at p) start (size_of p)" "start \<le> size_of p"
    and "start \<le> i" "i \<le> size_of p"
    and "\<forall>j. start \<le> j \<longrightarrow> j < size_of p \<longrightarrow> (before (key_at p j) k \<longleftrightarrow> j < i)"
  shows "find p k = i"
  using find [OF assms(1,2), of k] assms(3-5) by (metis le_less_trans nat_neq_iff order.strict_trans2)

end

definition Internal_ChildIndex :: "internal_page \<Rightarrow> int \<Rightarrow> nat" where
  "Internal_ChildIndex p key = nat (child_index_loop (\<lambda>mid. key < Internal_KeyAt p mid) 0 1 (int (ip_size p) - 1))"

lemma Internal_Lookup_index: "Internal_Lookup p key = Internal_ValueAt p (Internal_ChildIndex p key)"
  by (simp add: Internal_Lookup_def Internal_ChildIndex_def)

interpretation leaf: node_search lp_size Leaf_KeyAt 0 "(<)" Leaf_KeyIndex
proof unfold_locales
  fix p :: leaf_page and k
  assume "ascending (Leaf_KeyAt p) 0 (lp_size p)" "0 \<le> lp_size p"
  then have mono: "\<forall>i j. i \<le> j \<longrightarrow> j < lp_size p \<longrightarrow> Leaf_KeyAt p j < k \<longrightarrow> Leaf_KeyAt p i < k"
    using ascending_le [of "Leaf_KeyAt p" 0 "lp_size p"] by (meson le_less_trans less_eq_nat.simps(1))
  from key_index_loop_ok [of 0 "int (lp_size p) - 1" "lp_size p" "\<lambda>i. Leaf_KeyAt p i < k", OF _ _ _ _ _ mono]
  show "0 \<le> Leaf_KeyIndex p k \<and> Leaf_KeyIndex p k \<le> lp_size p \<and>
      (\<forall>i. 0 \<le> i \<longrightarrow> i < lp_size p \<longrightarrow> (Leaf_KeyAt p i < k \<longleftrightarrow> i < Leaf_KeyIndex p k))"
    by (auto simp: Leaf_KeyIndex_def zless_nat_conj)
qed

interpretation child: node_search ip_size Internal_KeyAt 1 "(\<le>)" "\<lambda>p k. Suc (Internal_ChildIndex p k)"
proof unfold_locales
  fix p :: internal_page and k
  assume asc: "ascending (Internal_KeyAt p) 1 (ip_size p)" and s: "1 \<le> ip_size p"
  let ?b = "\<lambda>i. i = 0 \<or> \<not> k < Internal_KeyAt p i"
  let ?r = "key_index_loop ?b 1 (int (ip_size p) - 1)"
  have mono: "\<forall>i j. i \<le> j \<longrightarrow> j < ip_size p \<longrightarrow> ?b j \<longrightarrow> ?b i"
  proof (intro allI impI)
    fix i j assume "i \<le> j" "j < ip_size p" "?b j"
    then show "?b i" using ascending_le [OF asc, of i j] by (cases "i = 0") auto
  qed
  have r: "0 \<le> ?r \<and> ?r \<le> int (ip_size p) \<and> (\<forall>i < ip_size p. ?b i \<longleftrightarrow> int i < ?r)"
    by (rule key_index_loop_ok [of 1 "int (ip_size p) - 1" "ip_size p", OF _ _ _ _ _ mono]) (use s in auto)
  then have "?b 0 \<longleftrightarrow> int 0 < ?r" using s by (metis less_eq_Suc_le One_nat_def)
  then have pos: "0 < ?r" by simp
  have eq: "key_index_loop (\<lambda>i. \<not> k < Internal_KeyAt p i) 1 high = key_index_loop ?b 1 high" for high
    by (rule key_index_loop_cong) auto
  have "Suc (Internal_ChildIndex p k) = nat ?r"
    using child_index_loop_eq [of 0 1 "\<lambda>mid. k < Internal_KeyAt p mid" "int (ip_size p) - 1"] eq pos
    by (simp add: Internal_ChildIndex_def Suc_nat_eq_nat_zadd1)
  then show "1 \<le> Suc (Internal_ChildIndex p k) \<and> Suc (Internal_ChildIndex p k) \<le> ip_size p \<and>
      (\<forall>i. 1 \<le> i \<longrightarrow> i < ip_size p \<longrightarrow> (Internal_KeyAt p i \<le> k \<longleftrightarrow> i < Suc (Internal_ChildIndex p k)))"
    using r by (auto simp: nat_le_iff zless_nat_conj)
qed

section \<open>Leaves as ordered maps\<close>

lemma leaf_takeWhile:
  assumes "leaf_ordered p"
  shows "takeWhile (\<lambda>e. fst e < k) (leaf_list p) = take (Leaf_KeyIndex p k) (leaf_list p)"
    and "dropWhile (\<lambda>e. fst e < k) (leaf_list p) = drop (Leaf_KeyIndex p k) (leaf_list p)"
  using leaf.find_takeWhile [of p "leaf_list p" "Leaf_ValueAt p" k] assms
  by (simp_all add: leaf_ordered_def leaf_list_def Leaf_KeyAt_def Leaf_ValueAt_def)

lemma leaf_index:
  assumes "leaf_ordered p"
  shows "Leaf_KeyIndex p k \<le> lp_size p" "i < lp_size p \<Longrightarrow> Leaf_KeyAt p i < k \<longleftrightarrow> i < Leaf_KeyIndex p k"
  using leaf.find [of p k] assms by (auto simp: leaf_ordered_def)

lemma leaf_found:
  assumes "leaf_ordered p"
  shows "Leaf_found p k (Leaf_KeyIndex p k) \<longleftrightarrow> k \<in> fst ` set (leaf_list p)"
proof
  assume "Leaf_found p k (Leaf_KeyIndex p k)"
  then have "Leaf_KeyIndex p k < lp_size p" "Leaf_KeyAt p (Leaf_KeyIndex p k) = k"
    by (auto simp: Leaf_found_def)
  then show "k \<in> fst ` set (leaf_list p)"
    by (metis fst_conv image_eqI leaf_list_nth length_leaf_list nth_mem)
next
  assume "k \<in> fst ` set (leaf_list p)"
  then obtain j where j: "j < lp_size p" "Leaf_KeyAt p j = k"
    by (auto simp: in_set_conv_nth leaf_list_nth)
  have "Leaf_KeyIndex p k = j"
  proof (rule leaf.find_boundary)
    show "\<forall>i. 0 \<le> i \<longrightarrow> i < lp_size p \<longrightarrow> (Leaf_KeyAt p i < k \<longleftrightarrow> i < j)"
    proof (intro allI impI)
      fix i assume i: "i < lp_size p"
      have "i < j \<Longrightarrow> Leaf_KeyAt p i < k" "j \<le> i \<Longrightarrow> k \<le> Leaf_KeyAt p i"
        using assms j i ascending_le [of "Leaf_KeyAt p" 0 "lp_size p" j i]
        by (auto simp: leaf_ordered_def ascending_def)
      then show "Leaf_KeyAt p i < k \<longleftrightarrow> i < j" by (cases "i < j") auto
    qed
  qed (use assms j in \<open>auto simp: leaf_ordered_def\<close>)
  then show "Leaf_found p k (Leaf_KeyIndex p k)" using j by (simp add: Leaf_found_def)
qed

lemma leaf_distinct: "leaf_ordered p \<Longrightarrow> distinct (map fst (leaf_list p))"
  by (simp add: leaf_ordered_list strict_sorted_iff)

lemma leaf_lookup: "leaf_ordered p \<Longrightarrow> Leaf_Lookup p k = map_of (leaf_list p) k"
proof -
  assume o: "leaf_ordered p"
  show ?thesis
  proof (cases "Leaf_found p k (Leaf_KeyIndex p k)")
    case True
    then have i: "Leaf_KeyIndex p k < lp_size p" "Leaf_KeyAt p (Leaf_KeyIndex p k) = k"
      by (auto simp: Leaf_found_def)
    then have "(k, Leaf_ValueAt p (Leaf_KeyIndex p k)) \<in> set (leaf_list p)"
      by (metis leaf_list_nth length_leaf_list nth_mem)
    then show ?thesis using True leaf_distinct [OF o] by (simp add: Leaf_Lookup_def)
  next
    case False
    then have "map_of (leaf_list p) k = None" using leaf_found [OF o, of k] by (simp add: map_of_eq_None_iff)
    then show ?thesis using False by (simp add: Leaf_Lookup_def)
  qed
qed

lemma map_of_inserted:
  "k \<notin> fst ` set xs \<Longrightarrow> map_of (takeWhile P xs @ (k, v) # dropWhile P xs) = (map_of xs)(k \<mapsto> v)"
proof -
  assume k: "k \<notin> fst ` set xs"
  have "map_of xs = map_of (takeWhile P xs @ dropWhile P xs)" by simp
  moreover have "map_of (takeWhile P xs) k = None"
    using k by (auto simp: map_of_eq_None_iff dest: set_takeWhileD)
  ultimately show ?thesis by (auto simp: map_add_def fun_eq_iff simp del: takeWhile_dropWhile_id split: option.split)
qed

lemma sorted_inserted:
  fixes k :: "'k :: linorder"
  assumes "sorted_wrt (<) (map fst xs)" "k \<notin> fst ` set xs"
  shows "sorted_wrt (<) (map fst (takeWhile (\<lambda>e. fst e < k) xs @ (k, v) # dropWhile (\<lambda>e. fst e < k) xs))"
  using assms
proof (induction xs)
  case (Cons x xs)
  have "k < fst x" if "\<not> fst x < k" using that Cons.prems(2) by auto
  with Cons show ?case
    by (auto dest: set_takeWhileD set_dropWhileD intro: less_trans)
qed simp

lemma leaf_insert:
  assumes "leaf_ordered p" "k \<notin> fst ` set (leaf_list p)" "lp_size p < LEAF_CAPACITY"
  obtains p' where "Leaf_Insert p k v = Inr (lp_size p + 1, p')"
    "leaf_list p' = takeWhile (\<lambda>e. fst e < k) (leaf_list p) @ (k, v) # dropWhile (\<lambda>e. fst e < k) (leaf_list p)"
    "lp_size p' = lp_size p + 1" "lp_max p' = lp_max p" "lp_parent p' = lp_parent p" "lp_next p' = lp_next p"
proof
  let ?i = "Leaf_KeyIndex p k"
  let ?p' = "p\<lparr>lp_array := (shift_up (lp_array p) (lp_size p) ?i)(?i := (k, v)), lp_size := lp_size p + 1\<rparr>"
  show "Leaf_Insert p k v = Inr (lp_size p + 1, ?p')"
    using assms leaf_found [OF assms(1)] by (simp add: Leaf_Insert_def fits_def Let_def)
  show "leaf_list ?p' = takeWhile (\<lambda>e. fst e < k) (leaf_list p) @ (k, v) # dropWhile (\<lambda>e. fst e < k) (leaf_list p)"
    unfolding leaf_takeWhile [OF assms(1)]
    using array_insert [OF leaf_index(1) [OF assms(1)], of "lp_array p" k "(k, v)"]
    by (simp add: leaf_list_def del: upt_Suc)
qed simp_all

lemma leaf_remove:
  assumes "leaf_ordered p" "k \<in> fst ` set (leaf_list p)"
  obtains p' where "Leaf_RemoveAndDeleteRecord p k = (lp_size p - 1, p')"
    "leaf_list p' = filter (\<lambda>e. fst e \<noteq> k) (leaf_list p)"
    "lp_size p' = lp_size p - 1" "lp_max p' = lp_max p" "lp_parent p' = lp_parent p" "lp_next p' = lp_next p"
proof
  let ?i = "Leaf_KeyIndex p k"
  let ?p' = "p\<lparr>lp_array := shift_down (lp_array p) ?i (lp_size p), lp_size := lp_size p - 1\<rparr>"
  have f: "Leaf_found p k ?i" using assms leaf_found [OF assms(1)] by simp
  then show "Leaf_RemoveAndDeleteRecord p k = (lp_size p - 1, ?p')"
    by (simp add: Leaf_RemoveAndDeleteRecord_def Let_def)
  have i: "?i < lp_size p" "Leaf_KeyAt p ?i = k" using f by (auto simp: Leaf_found_def)
  have split: "leaf_list p = take ?i (leaf_list p) @ (k, Leaf_ValueAt p ?i) # drop (Suc ?i) (leaf_list p)"
    using i leaf_list_nth [of ?i p] by (metis id_take_nth_drop length_leaf_list)
  let ?A = "take ?i (leaf_list p)" and ?B = "drop (Suc ?i) (leaf_list p)"
  have "distinct (map fst (?A @ (k, Leaf_ValueAt p ?i) # ?B))" using leaf_distinct [OF assms(1)] split by simp
  then have k: "k \<notin> fst ` set ?A" "k \<notin> fst ` set ?B" by auto
  have "filter (\<lambda>e. fst e \<noteq> k) (leaf_list p) = ?A @ ?B"
    by (subst split) (use k in \<open>auto simp: filter_id_conv image_iff intro!: arg_cong2 [of _ _ _ _ append]\<close>)
  then show "leaf_list ?p' = filter (\<lambda>e. fst e \<noteq> k) (leaf_list p)"
    using array_remove [OF i(1), of "lp_array p"] by (simp add: leaf_list_def)
qed simp_all

lemma map_of_filter_neq: "map_of (filter (\<lambda>e. fst e \<noteq> k) xs) = (map_of xs)(k := None)"
  by (induction xs) auto

lemma sorted_wrt_map_filter: "sorted_wrt P (map f xs) \<Longrightarrow> sorted_wrt P (map f (filter Q xs))"
  by (induction xs) auto

text \<open>
  A leaf whose keys are in order is a map from keys to records. \<^verbatim>\<open>Lookup\<close> is its lookup; \<^verbatim>\<open>Insert\<close> of
  a key that is there changes nothing and returns the old size, and of a new key (while the page has
  room) maps the key to the record, keeps the order, the link and the parent, and returns the new size.
\<close>

theorem Leaf_Insert_correct:
  assumes "leaf_ordered p" "lp_size p < LEAF_CAPACITY"
  shows "Leaf_Lookup p k = map_of (leaf_list p) k \<and>
    (if Leaf_Lookup p k \<noteq> None then Leaf_Insert p k v = Inr (lp_size p, p)
     else \<exists>p'. Leaf_Insert p k v = Inr (lp_size p + 1, p') \<and> leaf_ordered p' \<and>
            map_of (leaf_list p') = (map_of (leaf_list p))(k \<mapsto> v) \<and> lp_size p' = lp_size p + 1 \<and>
            lp_next p' = lp_next p \<and> lp_parent p' = lp_parent p \<and> lp_max p' = lp_max p)"
proof (cases "k \<in> fst ` set (leaf_list p)")
  case True
  then have "Leaf_Lookup p k \<noteq> None" using leaf_lookup [OF assms(1)] by (simp add: map_of_eq_None_iff)
  then show ?thesis
    using True leaf_lookup [OF assms(1)] leaf_found [OF assms(1), of k] by (simp add: Leaf_Insert_def)
next
  case False
  from leaf_insert [OF assms(1) False assms(2), of v] obtain p' where p': "Leaf_Insert p k v = Inr (lp_size p + 1, p')"
    "leaf_list p' = takeWhile (\<lambda>e. fst e < k) (leaf_list p) @ (k, v) # dropWhile (\<lambda>e. fst e < k) (leaf_list p)"
    "lp_size p' = lp_size p + 1" "lp_max p' = lp_max p" "lp_parent p' = lp_parent p" "lp_next p' = lp_next p" .
  have "leaf_ordered p'" "map_of (leaf_list p') = (map_of (leaf_list p))(k \<mapsto> v)"
    using sorted_inserted [OF _ False] map_of_inserted [OF False] assms(1) by (simp_all only: leaf_ordered_list p'(2))
  moreover have "map_of (leaf_list p) k = None" using False by (simp add: map_of_eq_None_iff)
  moreover from this have "Leaf_Lookup p k = None" using leaf_lookup [OF assms(1)] by simp
  ultimately show ?thesis using p'(1,3-6) by simp
qed

text \<open>
  \<^verbatim>\<open>RemoveAndDeleteRecord\<close> removes exactly the given key from the map of an ordered leaf, keeps the
  order, and returns the new size, which is the old one exactly when the key was not there.
\<close>

theorem Leaf_Remove_correct:
  assumes "leaf_ordered p"
  shows "\<exists>p'. Leaf_RemoveAndDeleteRecord p k = (lp_size p', p') \<and> leaf_ordered p' \<and>
    map_of (leaf_list p') = (map_of (leaf_list p))(k := None) \<and>
    lp_size p' = (if Leaf_Lookup p k = None then lp_size p else lp_size p - 1) \<and>
    lp_next p' = lp_next p \<and> lp_parent p' = lp_parent p \<and> lp_max p' = lp_max p"
proof (cases "k \<in> fst ` set (leaf_list p)")
  case True
  from leaf_remove [OF assms True] obtain p' where p': "Leaf_RemoveAndDeleteRecord p k = (lp_size p - 1, p')"
    "leaf_list p' = filter (\<lambda>e. fst e \<noteq> k) (leaf_list p)"
    "lp_size p' = lp_size p - 1" "lp_max p' = lp_max p" "lp_parent p' = lp_parent p" "lp_next p' = lp_next p" .
  have "leaf_ordered p'" using assms sorted_wrt_map_filter by (simp only: leaf_ordered_list p'(2))
  moreover have "Leaf_Lookup p k \<noteq> None" using True leaf_lookup [OF assms] by (simp add: map_of_eq_None_iff)
  moreover have "0 < lp_size p" using True by (cases "leaf_list p") (auto simp flip: length_leaf_list)
  ultimately show ?thesis using p' by (auto simp: map_of_filter_neq)
next
  case False
  then have n: "map_of (leaf_list p) k = None" by (simp add: map_of_eq_None_iff)
  then have "Leaf_Lookup p k = None" "(map_of (leaf_list p))(k := None) = map_of (leaf_list p)"
    using leaf_lookup [OF assms] by (auto simp: fun_eq_iff)
  moreover have "Leaf_RemoveAndDeleteRecord p k = (lp_size p, p)"
    using False leaf_found [OF assms, of k] by (simp add: Leaf_RemoveAndDeleteRecord_def)
  ultimately show ?thesis using assms by auto
qed

lemma leaf_move_half:
  assumes "lp_size p \<le> LEAF_CAPACITY"
  obtains p' r' where "Leaf_MoveHalfTo p r = Inr (p', r')"
    "leaf_list p' = take (lp_size p div 2) (leaf_list p)" "leaf_list r' = drop (lp_size p div 2) (leaf_list p)"
    "lp_max p' = lp_max p" "lp_parent p' = lp_parent p" "lp_next p' = lp_next p"
    "lp_max r' = lp_max r" "lp_parent r' = lp_parent r" "lp_next r' = lp_next r"
proof
  let ?m = "lp_size p div 2" let ?n = "lp_size p - ?m"
  let ?p' = "p\<lparr>lp_size := ?m\<rparr>"
  let ?r' = "r\<lparr>lp_array := copy_to (lp_array r) 0 (lp_array p) ?m ?n, lp_size := ?n\<rparr>"
  show "Leaf_MoveHalfTo p r = Inr (?p', ?r')" using assms by (simp add: Leaf_MoveHalfTo_def fits_def Let_def)
  show "leaf_list ?p' = take ?m (leaf_list p)" by (simp add: leaf_list_def take_map)
  show "leaf_list ?r' = drop ?m (leaf_list p)"
    using array_copy [of "lp_array r" 0 "lp_array p" ?m ?n] by (simp add: leaf_list_def drop_map)
qed simp_all

lemma leaf_move_all:
  assumes "lp_size r + lp_size p \<le> LEAF_CAPACITY"
  obtains p' r' where "Leaf_MoveAllTo p r = Inr (p', r')" "leaf_list p' = []" "leaf_list r' = leaf_list r @ leaf_list p"
    "lp_max r' = lp_max r" "lp_parent r' = lp_parent r" "lp_next r' = lp_next p" "p' = p\<lparr>lp_size := 0\<rparr>"
proof
  let ?r' = "r\<lparr>lp_array := copy_to (lp_array r) (lp_size r) (lp_array p) 0 (lp_size p),
         lp_size := lp_size r + lp_size p, lp_next := lp_next p\<rparr>"
  show "Leaf_MoveAllTo p r = Inr (p\<lparr>lp_size := 0\<rparr>, ?r')" using assms by (simp add: Leaf_MoveAllTo_def fits_def)
  show "leaf_list ?r' = leaf_list r @ leaf_list p"
    using array_copy [of "lp_array r" "lp_size r" "lp_array p" 0 "lp_size p"] by (simp add: leaf_list_def)
qed (simp_all add: leaf_list_def)

lemma leaf_move_first:
  assumes "lp_size r < LEAF_CAPACITY" "0 < lp_size p"
  obtains p' r' where "Leaf_MoveFirstToEndOf p r = Inr (p', r')"
    "leaf_list p' = tl (leaf_list p)" "leaf_list r' = leaf_list r @ [hd (leaf_list p)]"
    "lp_max p' = lp_max p" "lp_parent p' = lp_parent p" "lp_next p' = lp_next p"
    "lp_max r' = lp_max r" "lp_parent r' = lp_parent r" "lp_next r' = lp_next r"
proof
  let ?p' = "p\<lparr>lp_array := shift_down (lp_array p) 0 (lp_size p), lp_size := lp_size p - 1\<rparr>"
  let ?r' = "r\<lparr>lp_array := (lp_array r)(lp_size r := lp_array p 0), lp_size := lp_size r + 1\<rparr>"
  show "Leaf_MoveFirstToEndOf p r = Inr (?p', ?r')" using assms(1) by (simp add: Leaf_MoveFirstToEndOf_def fits_def)
  show "leaf_list ?p' = tl (leaf_list p)"
    using array_remove [OF assms(2), of "lp_array p"] by (simp add: leaf_list_def drop_Suc)
  show "leaf_list ?r' = leaf_list r @ [hd (leaf_list p)]" using assms(2) by (simp add: leaf_list_def hd_map)
qed simp_all

lemma leaf_move_last:
  assumes "lp_size r < LEAF_CAPACITY" "0 < lp_size p"
  obtains p' r' where "Leaf_MoveLastToFrontOf p r = Inr (p', r')"
    "leaf_list p' = butlast (leaf_list p)" "leaf_list r' = last (leaf_list p) # leaf_list r"
    "lp_max p' = lp_max p" "lp_parent p' = lp_parent p" "lp_next p' = lp_next p"
    "lp_max r' = lp_max r" "lp_parent r' = lp_parent r" "lp_next r' = lp_next r"
proof
  let ?p' = "p\<lparr>lp_size := lp_size p - 1\<rparr>"
  let ?r' = "r\<lparr>lp_array := (shift_up (lp_array r) (lp_size r) 0)(0 := lp_array p (lp_size p - 1)), lp_size := lp_size r + 1\<rparr>"
  show "Leaf_MoveLastToFrontOf p r = Inr (?p', ?r')" using assms(1) by (simp add: Leaf_MoveLastToFrontOf_def fits_def)
  show "leaf_list ?p' = butlast (leaf_list p)" by (simp add: leaf_list_def butlast_conv_take take_map)
  have "last (leaf_list p) = lp_array p (lp_size p - 1)" using assms(2) by (simp add: leaf_list_def last_map)
  then show "leaf_list ?r' = last (leaf_list p) # leaf_list r"
    using array_insert [of 0 "lp_size r" "lp_array r" "lp_array p (lp_size p - 1)"]
    by (simp add: leaf_list_def del: upt_Suc)
qed simp_all

section \<open>Internal pages as lists\<close>

lemma internal_set_value:
  "map (ip_array (Internal_SetValueAt p i v)) xs = map ((ip_array p)(i := (fst (ip_array p i), v))) xs"
  by (simp add: Internal_SetValueAt_def)

lemma internal_index:
  assumes "internal_ordered p" "1 \<le> ip_size p"
  shows "Internal_ChildIndex p k < ip_size p"
    "0 < i \<Longrightarrow> i < ip_size p \<Longrightarrow> Internal_KeyAt p i \<le> k \<longleftrightarrow> i \<le> Internal_ChildIndex p k"
  using child.find [of p k] assms by (auto simp: internal_ordered_def)

lemma internal_index_eq:
  assumes "internal_ordered p" "i < ip_size p"
    and "0 < i \<Longrightarrow> Internal_KeyAt p i \<le> k" "i + 1 < ip_size p \<Longrightarrow> k < Internal_KeyAt p (i + 1)"
  shows "Internal_ChildIndex p k = i"
proof -
  have c: "Internal_ChildIndex p k < ip_size p" "\<And>j. 0 < j \<Longrightarrow> j < ip_size p \<Longrightarrow> Internal_KeyAt p j \<le> k \<longleftrightarrow> j \<le> Internal_ChildIndex p k"
    using internal_index [OF assms(1)] assms(2) by auto
  have "i \<le> Internal_ChildIndex p k" using c(2) [of i] assms(2,3) by (cases "i = 0") auto
  moreover have "\<not> i + 1 \<le> Internal_ChildIndex p k" using c(1) c(2) [of "i + 1"] assms(4) by auto
  ultimately show ?thesis by simp
qed

lemma value_index_from_ok:
  "j < n \<Longrightarrow> snd (a (i + j)) = v \<Longrightarrow> (\<And>l. l < j \<Longrightarrow> snd (a (i + l)) \<noteq> v) \<Longrightarrow> value_index_from a v i n = int (i + j)"
proof (induction n arbitrary: i j)
  case (Suc n)
  show ?case
  proof (cases j)
    case 0
    then show ?thesis using Suc.prems by simp
  next
    case (Suc l)
    have "snd (a i) \<noteq> v" using Suc.prems(3) [of 0] Suc by simp
    moreover have "value_index_from a v (Suc i) n = int (Suc i + l)"
      using Suc.prems Suc by (intro Suc.IH) (auto simp flip: add_Suc_right)
    ultimately show ?thesis using Suc by simp
  qed
qed simp

lemma internal_value_index:
  assumes "distinct (map snd (internal_list p))" "i < ip_size p"
  shows "Internal_ValueIndex p (Internal_ValueAt p i) = int i"
proof -
  have "snd (ip_array p l) \<noteq> Internal_ValueAt p i" if "l < i" for l
    using assms that nth_eq_iff_index_eq [OF assms(1), of l i]
    by (auto simp: internal_list_nth Internal_ValueAt_def)
  then show ?thesis
    using value_index_from_ok [of i "ip_size p" "ip_array p" 0 "Internal_ValueAt p i"] assms(2)
    by (simp add: Internal_ValueIndex_def Internal_ValueAt_def)
qed

lemma internal_insert:
  assumes "distinct (map snd (internal_list p))" "i < ip_size p" "ip_size p < INTERNAL_CAPACITY"
  obtains p' where "Internal_InsertNodeAfter p (Internal_ValueAt p i) k v = Inr (ip_size p + 1, p')"
    "internal_list p' = take (i + 1) (internal_list p) @ (k, v) # drop (i + 1) (internal_list p)"
    "ip_size p' = ip_size p + 1" "ip_max p' = ip_max p" "ip_parent p' = ip_parent p"
proof
  let ?p' = "p\<lparr>ip_array := (shift_up (ip_array p) (ip_size p) (i + 1))(i + 1 := (k, v)), ip_size := ip_size p + 1\<rparr>"
  have n: "nat (int i + 1) = i + 1" by simp
  show "Internal_InsertNodeAfter p (Internal_ValueAt p i) k v = Inr (ip_size p + 1, ?p')"
    using n internal_value_index [OF assms(1,2)] assms(3) by (simp add: Internal_InsertNodeAfter_def fits_def Let_def)
  show "internal_list ?p' = take (i + 1) (internal_list p) @ (k, v) # drop (i + 1) (internal_list p)"
    using array_insert [of "i + 1" "ip_size p" "ip_array p" "(k, v)"] assms(2) by (simp add: internal_list_def del: upt_Suc)
qed simp_all

lemma internal_remove:
  assumes "i < ip_size p"
  shows "internal_list (Internal_Remove p i) = take i (internal_list p) @ drop (i + 1) (internal_list p)"
  using array_remove [OF assms, of "ip_array p"] by (simp add: Internal_Remove_def internal_list_def)

lemma internal_move_half:
  assumes "ip_size p \<le> INTERNAL_CAPACITY" "ip_size r = 0"
  obtains p' r' where "Internal_MoveHalfTo p r mid = Inr (p', r')"
    "internal_list p' = take (ip_size p div 2) (internal_list p)" "internal_list r' = drop (ip_size p div 2) (internal_list p)"
    "ip_max p' = ip_max p" "ip_parent p' = ip_parent p" "ip_max r' = ip_max r" "ip_parent r' = ip_parent r"
proof
  let ?m = "ip_size p div 2" let ?n = "ip_size p - ?m"
  let ?p' = "p\<lparr>ip_size := ip_size p - ?n\<rparr>"
  let ?r' = "r\<lparr>ip_array := copy_to (ip_array r) 0 (ip_array p) ?m ?n, ip_size := ip_size r + ?n\<rparr>"
  show "Internal_MoveHalfTo p r mid = Inr (?p', ?r')" using assms by (simp add: Internal_MoveHalfTo_def fits_def Let_def)
  have "ip_size p - ?n = ?m" by simp
  then show "internal_list ?p' = take ?m (internal_list p)" by (simp add: internal_list_def take_map)
  show "internal_list ?r' = drop ?m (internal_list p)"
    using array_copy [of "ip_array r" 0 "ip_array p" ?m ?n] assms(2) by (simp add: internal_list_def drop_map)
qed simp_all

lemma internal_list_hd: "0 < ip_size p \<Longrightarrow> internal_list p = (Internal_KeyAt p 0, Internal_ValueAt p 0) # tl (internal_list p)"
  using internal_list_nth [of 0 p] by (cases "internal_list p") (auto simp flip: length_internal_list)

lemma internal_list_tl: "tl (internal_list p) = map (ip_array p) [1..<ip_size p]"
  by (cases "ip_size p") (simp_all add: internal_list_def upt_rec [of 0] del: upt_Suc)

lemma internal_move_all:
  assumes "ip_size r + ip_size p \<le> INTERNAL_CAPACITY" "0 < ip_size p"
  obtains p' r' where "Internal_MoveAllTo p r mid = Inr (p', r')" "p' = p\<lparr>ip_size := 0\<rparr>"
    "internal_list r' = internal_list r @ (mid, Internal_ValueAt p 0) # tl (internal_list p)"
    "ip_max r' = ip_max r" "ip_parent r' = ip_parent r"
proof
  let ?d = "ip_size r"
  let ?a = "(ip_array r)(?d := (mid, Internal_ValueAt p 0))"
  let ?r' = "r\<lparr>ip_array := copy_to ?a (?d + 1) (ip_array p) 1 (ip_size p - 1), ip_size := ?d + ip_size p\<rparr>"
  show "Internal_MoveAllTo p r mid = Inr (p\<lparr>ip_size := 0\<rparr>, ?r')"
    using assms(1) by (simp add: Internal_MoveAllTo_def fits_def Let_def)
  show "internal_list ?r' = internal_list r @ (mid, Internal_ValueAt p 0) # tl (internal_list p)"
    using array_copy [of ?a "?d + 1" "ip_array p" 1 "ip_size p - 1"] assms(2)
    by (simp add: internal_list_tl) (simp add: internal_list_def)
qed simp_all

lemma internal_move_first:
  assumes "ip_size r < INTERNAL_CAPACITY" "1 < ip_size p"
  obtains p' r' where "Internal_MoveFirstToEndOf p r mid = Inr (p', r')"
    "internal_list p' = (Internal_KeyAt p 0, Internal_ValueAt p 1) # drop 2 (internal_list p)"
    "internal_list r' = internal_list r @ [(mid, Internal_ValueAt p 0)]"
    "ip_max p' = ip_max p" "ip_parent p' = ip_parent p" "ip_max r' = ip_max r" "ip_parent r' = ip_parent r"
proof
  let ?p1 = "Internal_SetValueAt p 0 (Internal_ValueAt p 1)"
  let ?p' = "?p1\<lparr>ip_array := shift_down (ip_array ?p1) 1 (ip_size p), ip_size := ip_size p - 1\<rparr>"
  let ?r' = "r\<lparr>ip_array := (ip_array r)(ip_size r := (mid, Internal_ValueAt p 0)), ip_size := ip_size r + 1\<rparr>"
  show "Internal_MoveFirstToEndOf p r mid = Inr (?p', ?r')"
    using assms(1) by (simp add: Internal_MoveFirstToEndOf_def fits_def Let_def)
  show "internal_list ?p' = (Internal_KeyAt p 0, Internal_ValueAt p 1) # drop 2 (internal_list p)"
    by (rule nth_equalityI) (use assms(2) in \<open>auto simp: internal_list_def shift_down_at nth_Cons' Internal_SetValueAt_def
      Internal_ValueAt_def Internal_KeyAt_def numeral_2_eq_2 Suc_diff_Suc\<close>)
  show "internal_list ?r' = internal_list r @ [(mid, Internal_ValueAt p 0)]" by (simp add: internal_list_def)
qed (simp_all add: Internal_SetValueAt_def)

lemma internal_move_last:
  assumes "ip_size r < INTERNAL_CAPACITY" "0 < ip_size p" "0 < ip_size r"
  obtains p' r' where "Internal_MoveLastToFrontOf p r mid = Inr (p', r')"
    "internal_list p' = butlast (internal_list p)"
    "internal_list r' = (Internal_KeyAt r 0, Internal_ValueAt p (ip_size p - 1)) # (mid, Internal_ValueAt r 0) # tl (internal_list r)"
    "ip_max p' = ip_max p" "ip_parent p' = ip_parent p" "ip_max r' = ip_max r" "ip_parent r' = ip_parent r"
proof
  let ?r1 = "r\<lparr>ip_array := shift_up (ip_array r) (ip_size r) 0\<rparr>"
  let ?r2 = "Internal_SetKeyAt (Internal_SetValueAt ?r1 0 (Internal_ValueAt p (ip_size p - 1))) 1 mid"
  show "Internal_MoveLastToFrontOf p r mid = Inr (p\<lparr>ip_size := ip_size p - 1\<rparr>, ?r2\<lparr>ip_size := ip_size r + 1\<rparr>)"
    using assms(1) by (simp add: Internal_MoveLastToFrontOf_def fits_def Let_def)
  show "internal_list (p\<lparr>ip_size := ip_size p - 1\<rparr>) = butlast (internal_list p)"
    by (simp add: internal_list_def butlast_conv_take take_map)
  show "internal_list (?r2\<lparr>ip_size := ip_size r + 1\<rparr>) =
      (Internal_KeyAt r 0, Internal_ValueAt p (ip_size p - 1)) # (mid, Internal_ValueAt r 0) # tl (internal_list r)"
    unfolding internal_list_tl
    by (rule nth_equalityI) (use assms(3) in \<open>auto simp: internal_list_def shift_up_at nth_Cons' Internal_SetValueAt_def
      Internal_SetKeyAt_def Internal_ValueAt_def Internal_KeyAt_def nth_append Suc_diff_Suc simp del: upt_Suc\<close>)
qed (simp_all add: Internal_SetValueAt_def Internal_SetKeyAt_def)

section \<open>Splitting, merging and routing\<close>

lemma sorted_keys_split:
  fixes xs :: "('k :: linorder \<times> 'v) list"
  assumes "sorted_wrt (<) (map fst xs)" "n < length xs"
  shows "e \<in> set (take n xs) \<Longrightarrow> fst e < fst (xs ! n)" "e \<in> set (drop n xs) \<Longrightarrow> fst (xs ! n) \<le> fst e"
proof -
  have "sorted_wrt (<) (map fst (take n xs @ xs ! n # drop (Suc n) xs))"
    using assms(1,2) by (simp add: id_take_nth_drop [symmetric])
  moreover have "drop n xs = xs ! n # drop (Suc n) xs" using assms(2) by (simp add: Cons_nth_drop_Suc)
  ultimately show "e \<in> set (take n xs) \<Longrightarrow> fst e < fst (xs ! n)" "e \<in> set (drop n xs) \<Longrightarrow> fst (xs ! n) \<le> fst e"
    by (auto simp: sorted_wrt_append)
qed

text \<open>
  Splitting a leaf into a fresh page (\<^verbatim>\<open>MoveHalfTo\<close>) keeps every entry, lower half left and upper
  half right; the first key of the right page separates the halves. Merging the pages again
  (\<^verbatim>\<open>MoveAllTo\<close>) gives the entries of the page before the split, and the link of the right page.
\<close>

theorem Leaf_split_merge:
  assumes "leaf_ordered p" "0 < lp_size p" "lp_size p \<le> LEAF_CAPACITY"
  shows "\<exists>l r. Leaf_MoveHalfTo p (Leaf_Init m) = Inr (l, r) \<and> leaf_list l @ leaf_list r = leaf_list p \<and>
    leaf_ordered l \<and> leaf_ordered r \<and> lp_size l \<le> lp_size r \<and> lp_size r \<le> lp_size l + 1 \<and>
    (\<forall>e \<in> set (leaf_list l). fst e < Leaf_KeyAt r 0) \<and> (\<forall>e \<in> set (leaf_list r). Leaf_KeyAt r 0 \<le> fst e) \<and>
    (\<exists>r' l'. Leaf_MoveAllTo r l = Inr (r', l') \<and> leaf_list l' = leaf_list p \<and> lp_size r' = 0 \<and> lp_next l' = lp_next r)"
proof -
  let ?m = "lp_size p div 2"
  from leaf_move_half [OF assms(3), of "Leaf_Init m"] obtain l r where lr:
    "Leaf_MoveHalfTo p (Leaf_Init m) = Inr (l, r)" "leaf_list l = take ?m (leaf_list p)" "leaf_list r = drop ?m (leaf_list p)" by blast
  have "min (lp_size p) ?m = ?m" by simp
  then have len: "lp_size l = ?m" "lp_size r = lp_size p - ?m"
    using arg_cong [OF lr(2), of length] arg_cong [OF lr(3), of length] by simp_all
  have o: "leaf_ordered l" "leaf_ordered r"
    using assms(1) by (simp_all add: leaf_ordered_list lr sorted_wrt_take sorted_wrt_drop flip: take_map drop_map)
  have "leaf_list r ! 0 = leaf_list p ! ?m" using assms(2) by (simp add: lr(3))
  then have k: "Leaf_KeyAt r 0 = fst (leaf_list p ! ?m)"
    using leaf_list_nth [of 0 r] len(2) assms(2) by (metis div_less_dividend fst_conv one_less_numeral_iff semiring_norm(76) zero_less_diff)
  have sep: "\<forall>e \<in> set (leaf_list l). fst e < Leaf_KeyAt r 0" "\<forall>e \<in> set (leaf_list r). Leaf_KeyAt r 0 \<le> fst e"
    using sorted_keys_split [of "leaf_list p" ?m] assms(1,2) lr(2,3) by (simp_all add: leaf_ordered_list k)
  have "lp_size l + lp_size r \<le> LEAF_CAPACITY" using len assms(3) by simp
  from leaf_move_all [OF this] obtain r' l' where m: "Leaf_MoveAllTo r l = Inr (r', l')"
    "leaf_list l' = leaf_list l @ leaf_list r" "r' = r\<lparr>lp_size := 0\<rparr>" "lp_next l' = lp_next r" by blast
  have "leaf_list l @ leaf_list r = leaf_list p" by (simp add: lr)
  with lr(1) o sep len m show ?thesis by fastforce
qed

text \<open>
  \<^verbatim>\<open>Lookup\<close> of an internal page whose keys (from index 1) are in order goes to the child in whose
  range the key lies: the child at \<open>i\<close> exactly when the key at \<open>i\<close> is not greater and the next one is.
\<close>

theorem Internal_Lookup_routes:
  assumes "internal_ordered p" "1 \<le> ip_size p"
  shows "(\<exists>i < ip_size p. (0 < i \<longrightarrow> Internal_KeyAt p i \<le> k) \<and> (i + 1 < ip_size p \<longrightarrow> k < Internal_KeyAt p (i + 1))) \<and>
    (\<forall>i < ip_size p. (0 < i \<longrightarrow> Internal_KeyAt p i \<le> k) \<longrightarrow> (i + 1 < ip_size p \<longrightarrow> k < Internal_KeyAt p (i + 1)) \<longrightarrow>
       Internal_Lookup p k = Internal_ValueAt p i)"
proof
  let ?i = "Internal_ChildIndex p k"
  have i: "?i < ip_size p" by (rule internal_index(1) [OF assms])
  have 1: "0 < ?i \<longrightarrow> Internal_KeyAt p ?i \<le> k" using internal_index(2) [OF assms, of ?i k] i by blast
  have "?i + 1 < ip_size p \<longrightarrow> \<not> Internal_KeyAt p (?i + 1) \<le> k"
    using internal_index(2) [OF assms, of "?i + 1" k] by simp
  with i 1 show "\<exists>i < ip_size p. (0 < i \<longrightarrow> Internal_KeyAt p i \<le> k) \<and> (i + 1 < ip_size p \<longrightarrow> k < Internal_KeyAt p (i + 1))"
    by (intro exI [of _ ?i]) (simp only: not_le simp_thms)
  show "\<forall>i < ip_size p. (0 < i \<longrightarrow> Internal_KeyAt p i \<le> k) \<longrightarrow> (i + 1 < ip_size p \<longrightarrow> k < Internal_KeyAt p (i + 1)) \<longrightarrow>
       Internal_Lookup p k = Internal_ValueAt p i"
  proof (intro allI impI)
    fix i assume "i < ip_size p" "0 < i \<longrightarrow> Internal_KeyAt p i \<le> k" "i + 1 < ip_size p \<longrightarrow> k < Internal_KeyAt p (i + 1)"
    then have "Internal_ChildIndex p k = i" by (intro internal_index_eq [OF assms(1)]) blast+
    then show "Internal_Lookup p k = Internal_ValueAt p i" by (simp add: Internal_Lookup_index)
  qed
qed

text \<open>
  Entering a split child in its parent: \<^verbatim>\<open>InsertNodeAfter\<close> with a key between the neighbours of
  the old child keeps the order, and afterwards the keys that went to the old child are divided at the
  new key between the old and the new child, while all other keys are routed as before.
\<close>

theorem InsertNodeAfter_routes:
  assumes "internal_ordered p" "distinct (map snd (internal_list p))" "i < ip_size p" "ip_size p < INTERNAL_CAPACITY"
    and "0 < i \<Longrightarrow> Internal_KeyAt p i < m" "i + 1 < ip_size p \<Longrightarrow> m < Internal_KeyAt p (i + 1)"
  shows "\<exists>p'. Internal_InsertNodeAfter p (Internal_ValueAt p i) m new = Inr (ip_size p', p') \<and>
    ip_size p' = ip_size p + 1 \<and> internal_ordered p' \<and>
    (\<forall>k. Internal_Lookup p' k =
       (if Internal_Lookup p k = Internal_ValueAt p i then if k < m then Internal_ValueAt p i else new
        else Internal_Lookup p k))"
proof -
  from internal_insert [OF assms(2-4), of m new] obtain p' where p':
    "Internal_InsertNodeAfter p (Internal_ValueAt p i) m new = Inr (ip_size p + 1, p')"
    "internal_list p' = take (i + 1) (internal_list p) @ (m, new) # drop (i + 1) (internal_list p)"
    "ip_size p' = ip_size p + 1" by blast
  have at: "Internal_KeyAt p' j = (if j \<le> i then Internal_KeyAt p j else if j = i + 1 then m else Internal_KeyAt p (j - 1)) \<and>
      Internal_ValueAt p' j = (if j \<le> i then Internal_ValueAt p j else if j = i + 1 then new else Internal_ValueAt p (j - 1))"
    if "j \<le> ip_size p" for j
  proof -
    have len: "length (take (i + 1) (internal_list p)) = i + 1" using assms(3) by simp
    have e: "(Internal_KeyAt p' j, Internal_ValueAt p' j) =
        (take (i + 1) (internal_list p) @ (m, new) # drop (i + 1) (internal_list p)) ! j"
      using internal_list_nth [of j p'] p'(2,3) that by simp
    consider "j \<le> i" | "j = i + 1" | l where "j = i + 2 + l" by (metis add_2_eq_Suc' le_Suc_ex not_less_eq_eq Suc_eq_plus1 le_antisym)
    then show ?thesis
      by cases (use e len that assms(3) in \<open>auto simp: nth_append internal_list_nth\<close>)
  qed
  have asc: "Internal_KeyAt p j < Internal_KeyAt p j'" if "0 < j" "j < j'" "j' < ip_size p" for j j'
    using assms(1) that by (simp add: internal_ordered_def ascending_def)
  have below: "Internal_KeyAt p j < m" if "0 < j" "j \<le> i" for j
    using asc [OF that(1), of i] assms(3,5) that by (cases "j = i") auto
  have above: "m < Internal_KeyAt p j" if "i < j" "j < ip_size p" for j
    using asc [of "i + 1" j] assms(6) that by (cases "j = i + 1") auto
  have o: "internal_ordered p'"
    unfolding internal_ordered_def ascending_def
  proof (intro allI impI)
    fix j j' assume j: "1 \<le> j" "j < j'" "j' < ip_size p'"
    have kj: "Internal_KeyAt p' j = (if j \<le> i then Internal_KeyAt p j else if j = i + 1 then m else Internal_KeyAt p (j - 1))"
      "Internal_KeyAt p' j' = (if j' \<le> i then Internal_KeyAt p j' else if j' = i + 1 then m else Internal_KeyAt p (j' - 1))"
      using at [of j] at [of j'] j p'(3) by simp_all
    consider "j' \<le> i" | "j \<le> i" "j' = i + 1" | "j \<le> i" "i + 1 < j'" | "j = i + 1" | "i + 1 < j" using j(2) by linarith
    then show "Internal_KeyAt p' j < Internal_KeyAt p' j'"
    proof cases
      case 3
      have "m < Internal_KeyAt p (j' - 1)" by (rule above) (use 3 j p'(3) in auto)
      then show ?thesis using 3 kj below [of j] j by simp
    qed (use kj j p'(3) assms(3) asc [of j j'] asc [of "j - 1" "j' - 1"] below [of j] above [of "j' - 1"] in simp_all)
  qed
  have "Internal_Lookup p' k =
       (if Internal_Lookup p k = Internal_ValueAt p i then if k < m then Internal_ValueAt p i else new
        else Internal_Lookup p k)" for k
  proof -
    have s: "1 \<le> ip_size p" using assms(3) by simp
    let ?c = "Internal_ChildIndex p k"
    have c: "?c < ip_size p" "0 < ?c \<Longrightarrow> Internal_KeyAt p ?c \<le> k" "?c + 1 < ip_size p \<Longrightarrow> k < Internal_KeyAt p (?c + 1)"
      using internal_index(1) [OF assms(1) s, of k] internal_index(2) [OF assms(1) s, of ?c k]
        internal_index(2) [OF assms(1) s, of "?c + 1" k] by auto
    have old: "Internal_Lookup p k = Internal_ValueAt p i \<longleftrightarrow> ?c = i"
      using nth_eq_iff_index_eq [OF assms(2), of ?c i] c(1) assms(3) by (auto simp: Internal_Lookup_index internal_list_nth)
    let ?d = "if ?c < i \<or> ?c = i \<and> k < m then ?c else ?c + 1"
    have "Internal_ChildIndex p' k = ?d"
    proof (rule internal_index_eq [OF o])
      show "?d < ip_size p'" using c(1) p'(3) by simp
      show "0 < ?d \<Longrightarrow> Internal_KeyAt p' ?d \<le> k" using at [of ?d] c(1,2) by (auto split: if_splits)
      show "?d + 1 < ip_size p' \<Longrightarrow> k < Internal_KeyAt p' (?d + 1)" using at [of "?d + 1"] c(1,3) p'(3) assms(3) by (auto split: if_splits)
    qed
    then show ?thesis using at [of ?d] c(1) old by (auto simp: Internal_Lookup_index split: if_splits)
  qed
  with p' o show ?thesis by (intro exI [of _ p']) simp
qed

text \<open>
  Borrowing between neighbouring leaves moves one entry across the boundary and changes neither
  the sequence of all entries nor the links: \<^verbatim>\<open>MoveLastToFrontOf\<close> of the left leaf, and
  \<^verbatim>\<open>MoveFirstToEndOf\<close> of the right one.
\<close>

theorem Leaf_borrow:
  assumes "0 < lp_size l" "0 < lp_size r" "lp_size l < LEAF_CAPACITY" "lp_size r < LEAF_CAPACITY"
  shows "(\<exists>l' r'. Leaf_MoveLastToFrontOf l r = Inr (l', r') \<and> leaf_list l' @ leaf_list r' = leaf_list l @ leaf_list r \<and>
      lp_size l' = lp_size l - 1 \<and> lp_size r' = lp_size r + 1 \<and> lp_next l' = lp_next l \<and> lp_next r' = lp_next r) \<and>
    (\<exists>r' l'. Leaf_MoveFirstToEndOf r l = Inr (r', l') \<and> leaf_list l' @ leaf_list r' = leaf_list l @ leaf_list r \<and>
      lp_size l' = lp_size l + 1 \<and> lp_size r' = lp_size r - 1 \<and> lp_next l' = lp_next l \<and> lp_next r' = lp_next r)"
proof
  have ne: "leaf_list l \<noteq> []" "leaf_list r \<noteq> []" using assms(1,2) by (auto simp flip: length_leaf_list)
  from leaf_move_last [OF assms(4,1)] obtain l' r' where m: "Leaf_MoveLastToFrontOf l r = Inr (l', r')"
    "leaf_list l' = butlast (leaf_list l)" "leaf_list r' = last (leaf_list l) # leaf_list r"
    "lp_next l' = lp_next l" "lp_next r' = lp_next r" by blast
  have "lp_size l' = lp_size l - 1" "lp_size r' = lp_size r + 1"
    using arg_cong [OF m(2), of length] arg_cong [OF m(3), of length] by simp_all
  with m ne show "\<exists>l' r'. Leaf_MoveLastToFrontOf l r = Inr (l', r') \<and> leaf_list l' @ leaf_list r' = leaf_list l @ leaf_list r \<and>
      lp_size l' = lp_size l - 1 \<and> lp_size r' = lp_size r + 1 \<and> lp_next l' = lp_next l \<and> lp_next r' = lp_next r" by simp
next
  have ne: "leaf_list r \<noteq> []" using assms(2) by (auto simp flip: length_leaf_list)
  from leaf_move_first [OF assms(3,2)] obtain r' l' where m: "Leaf_MoveFirstToEndOf r l = Inr (r', l')"
    "leaf_list r' = tl (leaf_list r)" "leaf_list l' = leaf_list l @ [hd (leaf_list r)]"
    "lp_next r' = lp_next r" "lp_next l' = lp_next l" by blast
  have "lp_size r' = lp_size r - 1" "lp_size l' = lp_size l + 1"
    using arg_cong [OF m(2), of length] arg_cong [OF m(3), of length] by simp_all
  with m ne show "\<exists>r' l'. Leaf_MoveFirstToEndOf r l = Inr (r', l') \<and> leaf_list l' @ leaf_list r' = leaf_list l @ leaf_list r \<and>
      lp_size l' = lp_size l + 1 \<and> lp_size r' = lp_size r - 1 \<and> lp_next l' = lp_next l \<and> lp_next r' = lp_next r" by simp
qed

text \<open>The entries of two neighbours under the key \<open>m\<close> that separates them in the parent.\<close>

definition joined :: "internal_page \<Rightarrow> int \<Rightarrow> internal_page \<Rightarrow> (int \<times> page_id) list" where
  "joined l m r = internal_list l @ (m, Internal_ValueAt r 0) # tl (internal_list r)"

lemma internal_values:
  assumes "internal_list p = (k, v) # xs"
  shows "Internal_ValueAt p 0 = v" "Internal_KeyAt p 0 = k"
proof -
  have "0 < ip_size p" using assms by (metis length_greater_0_conv length_internal_list list.discI)
  then show "Internal_ValueAt p 0 = v" "Internal_KeyAt p 0 = k" using internal_list_nth [of 0 p] assms by simp_all
qed

lemma joined_list: "internal_list r = (k, v) # xs \<Longrightarrow> joined l m r = internal_list l @ (m, v) # xs"
  using internal_values [of r k v xs] by (simp add: joined_def)

text \<open>
  Splitting, merging and borrowing of internal pages keep the children and the keys that divide
  them, when the separating key travels through the parent as the code does: a split around the key at
  the middle, a merge with the separator, and a borrow from the left or the right with the key that is
  pushed up.
\<close>

theorem Internal_moves_keep_children:
  assumes "1 < ip_size l" "1 < ip_size r" "ip_size l + ip_size r \<le> INTERNAL_CAPACITY" "ip_size e = 0"
  shows "(\<exists>a b. Internal_MoveHalfTo l e (Internal_KeyAt l (ip_size l div 2)) = Inr (a, b) \<and>
      joined a (Internal_KeyAt l (ip_size l div 2)) b = internal_list l) \<and>
    (\<exists>r' l'. Internal_MoveAllTo r l m = Inr (r', l') \<and> internal_list l' = joined l m r \<and> ip_size r' = 0) \<and>
    (\<exists>l' r'. Internal_MoveLastToFrontOf l r m = Inr (l', r') \<and>
      joined l' (Internal_KeyAt l (ip_size l - 1)) r' = joined l m r) \<and>
    (\<exists>r' l'. Internal_MoveFirstToEndOf r l m = Inr (r', l') \<and> joined l' (Internal_KeyAt r 1) r' = joined l m r)"
proof (intro conjI)
  let ?m = "ip_size l div 2"
  have cap: "ip_size l \<le> INTERNAL_CAPACITY" "0 < ip_size r" "0 < ip_size l" "ip_size r < INTERNAL_CAPACITY"
    "ip_size l < INTERNAL_CAPACITY" "ip_size l + ip_size r \<le> INTERNAL_CAPACITY" using assms by simp_all
  from internal_move_half [OF cap(1) assms(4), of "Internal_KeyAt l ?m"] obtain a b where ab:
    "Internal_MoveHalfTo l e (Internal_KeyAt l ?m) = Inr (a, b)" "internal_list a = take ?m (internal_list l)"
    "internal_list b = drop ?m (internal_list l)" by blast
  have m: "?m < ip_size l" using assms(1) by simp
  then have "internal_list b = (Internal_KeyAt l ?m, Internal_ValueAt l ?m) # drop (Suc ?m) (internal_list l)"
    using ab(3) Cons_nth_drop_Suc [of ?m "internal_list l"] by (simp add: internal_list_nth)
  then have "joined a (Internal_KeyAt l ?m) b = internal_list l"
    using m ab(2) by (simp add: joined_list) (metis append_take_drop_id ab(3))
  with ab(1) show "\<exists>a b. Internal_MoveHalfTo l e (Internal_KeyAt l ?m) = Inr (a, b) \<and>
      joined a (Internal_KeyAt l ?m) b = internal_list l" by blast
  from internal_move_all [OF cap(6,2), of m] obtain r' l' where "Internal_MoveAllTo r l m = Inr (r', l')"
    "r' = r\<lparr>ip_size := 0\<rparr>" "internal_list l' = internal_list l @ (m, Internal_ValueAt r 0) # tl (internal_list r)" by blast
  then show "\<exists>r' l'. Internal_MoveAllTo r l m = Inr (r', l') \<and> internal_list l' = joined l m r \<and> ip_size r' = 0"
    by (simp add: joined_def)
  have last: "internal_list l = butlast (internal_list l) @ [(Internal_KeyAt l (ip_size l - 1), Internal_ValueAt l (ip_size l - 1))]"
    using internal_list_nth [of "ip_size l - 1" l] cap(3)
    by (metis append_butlast_last_id diff_less last_conv_nth length_0_conv length_internal_list less_numeral_extra(1) not_gr_zero)
  from internal_move_last [OF cap(4,3,2), of m] obtain l' r' where lr: "Internal_MoveLastToFrontOf l r m = Inr (l', r')"
    "internal_list l' = butlast (internal_list l)"
    "internal_list r' = (Internal_KeyAt r 0, Internal_ValueAt l (ip_size l - 1)) # (m, Internal_ValueAt r 0) # tl (internal_list r)" by blast
  then have "joined l' (Internal_KeyAt l (ip_size l - 1)) r' =
      (butlast (internal_list l) @ [(Internal_KeyAt l (ip_size l - 1), Internal_ValueAt l (ip_size l - 1))]) @
      (m, Internal_ValueAt r 0) # tl (internal_list r)"
    by (simp add: joined_list)
  then have "joined l' (Internal_KeyAt l (ip_size l - 1)) r' = joined l m r"
    unfolding last [symmetric] by (simp add: joined_def)
  with lr(1) show "\<exists>l' r'. Internal_MoveLastToFrontOf l r m = Inr (l', r') \<and>
      joined l' (Internal_KeyAt l (ip_size l - 1)) r' = joined l m r" by blast
  have two: "tl (internal_list r) = (Internal_KeyAt r 1, Internal_ValueAt r 1) # drop 2 (internal_list r)"
    using assms(2) Cons_nth_drop_Suc [of 1 "internal_list r"] by (simp add: internal_list_nth drop_Suc numeral_2_eq_2)
  from internal_move_first [OF cap(5) assms(2), of m] obtain r' l' where rl: "Internal_MoveFirstToEndOf r l m = Inr (r', l')"
    "internal_list r' = (Internal_KeyAt r 0, Internal_ValueAt r 1) # drop 2 (internal_list r)"
    "internal_list l' = internal_list l @ [(m, Internal_ValueAt r 0)]" by blast
  then have "joined l' (Internal_KeyAt r 1) r' = joined l m r"
    using two by (simp add: joined_list) (simp add: joined_def)
  with rl(1) show "\<exists>r' l'. Internal_MoveFirstToEndOf r l m = Inr (r', l') \<and> joined l' (Internal_KeyAt r 1) r' = joined l m r"
    by blast
qed

section \<open>Concrete pages\<close>

definition demo_leaf :: "nat \<Rightarrow> int \<Rightarrow> leaf_page" where
  "demo_leaf n k = (Leaf_Init 4)\<lparr>lp_size := n, lp_array := (\<lambda>i. (k + 10 * int i, RID 0 (of_nat i)))\<rparr>"

definition demo_internal :: "nat \<Rightarrow> int \<Rightarrow> internal_page" where
  "demo_internal n k = (Internal_Init 4)\<lparr>ip_size := n, ip_array := (\<lambda>i. (k + 10 * int i, k + int i))\<rparr>"

lemma demo_pages:
  "leaf_ordered (demo_leaf n k)" "lp_size (demo_leaf n k) = n"
  "internal_ordered (demo_internal n k)" "ip_size (demo_internal n k) = n"
  "Internal_KeyAt (demo_internal n k) i = k + 10 * int i" "Internal_ValueAt (demo_internal n k) i = k + int i"
  by (auto simp: demo_leaf_def demo_internal_def leaf_ordered_def internal_ordered_def ascending_def
      Leaf_KeyAt_def Internal_KeyAt_def Internal_ValueAt_def)

lemma capacities: "LEAF_CAPACITY = 339" "INTERNAL_CAPACITY = 510"
  by (simp_all add: LEAF_CAPACITY_def INTERNAL_CAPACITY_def PAGE_SIZE_def)

lemma Leaf_Insert_correct_witness:
  "\<exists>p'. Leaf_Insert (demo_leaf 3 1) 15 (RID 7 7) = Inr (4, p') \<and> map_of (leaf_list p') 15 = Some (RID 7 7)"
proof -
  have "Leaf_KeyAt (demo_leaf 3 1) i \<noteq> 15" for i
    by (simp add: demo_leaf_def Leaf_KeyAt_def) presburger
  then have "\<not> Leaf_found (demo_leaf 3 1) 15 i" for i by (meson Leaf_found_def linorder_neqE)
  then have "Leaf_Lookup (demo_leaf 3 1) 15 = None" by (simp add: Leaf_Lookup_def)
  with Leaf_Insert_correct [of "demo_leaf 3 1" 15 "RID 7 7"] show ?thesis by (auto simp: demo_pages capacities)
qed

lemma Leaf_Remove_correct_witness:
  "\<exists>p'. Leaf_RemoveAndDeleteRecord (demo_leaf 3 1) 11 = (lp_size p', p') \<and> map_of (leaf_list p') 11 = None"
  using Leaf_Remove_correct [of "demo_leaf 3 1" 11] by (auto simp: demo_pages)

lemma Leaf_split_merge_witness:
  "\<exists>l r. Leaf_MoveHalfTo (demo_leaf 5 1) (Leaf_Init 4) = Inr (l, r) \<and> leaf_list l @ leaf_list r = leaf_list (demo_leaf 5 1)"
  using Leaf_split_merge [of "demo_leaf 5 1" 4] by (auto simp: demo_pages capacities)

lemma Internal_Lookup_routes_witness: "Internal_Lookup (demo_internal 3 1) 15 = 2"
  using Internal_Lookup_routes [of "demo_internal 3 1" 15] by (auto simp: demo_pages)

lemma InsertNodeAfter_routes_witness:
  "\<exists>p'. Internal_InsertNodeAfter (demo_internal 3 1) 2 15 9 = Inr (4, p') \<and> internal_ordered p'"
proof -
  have "distinct (map snd (internal_list (demo_internal 3 1)))"
    by (simp add: internal_list_def demo_internal_def upt_rec)
  with InsertNodeAfter_routes [of "demo_internal 3 1" 1 15 9] show ?thesis by (auto simp: demo_pages capacities)
qed

lemma Leaf_borrow_witness:
  "\<exists>l r. Leaf_MoveLastToFrontOf (demo_leaf 3 1) (demo_leaf 1 50) = Inr (l, r) \<and> lp_size l = 2 \<and> lp_size r = 2"
  using Leaf_borrow [of "demo_leaf 3 1" "demo_leaf 1 50"] by (auto simp: demo_pages capacities)

lemma Internal_moves_keep_children_witness:
  "\<exists>l r. Internal_MoveAllTo (demo_internal 2 50) (demo_internal 3 1) 40 = Inr (r, l) \<and>
     internal_list l = joined (demo_internal 3 1) 40 (demo_internal 2 50)"
  using Internal_moves_keep_children [of "demo_internal 3 1" "demo_internal 2 50" "Internal_Init 4" 40]
  by (auto simp: demo_pages capacities Internal_Init_def)

end
