(* ===== verification/BPT_Remove.thy ===== *)
theory BPT_Remove
  imports BPlus_Tree
begin

text \<open>
  \<^verbatim>\<open>BPlusTree::Remove\<close> of \<^verbatim>\<open>storage/index/b_plus_tree.cpp\<close>: removal from the leaf, and the loop that
  borrows from a sibling or merges with it, first for the leaf and then for the internal pages above it.
\<close>

text \<open>
  The sibling of an underfull child in its parent: the left one, or for the first child the right one.
  The result is \<open>(left_page_id, left_page, right_page_id, right_page, right_page_index, right_underflow)\<close>.
  A child that is not in its parent has index -1, and the code then reads the array at -2.
\<close>

type_synonym siblings = "page_id \<times> frame_id \<times> page_id \<times> frame_id \<times> nat \<times> bool"

definition find_sibling :: "internal_page \<Rightarrow> page_id \<Rightarrow> frame_id \<Rightarrow> bpt_pool \<Rightarrow> (siblings \<times> bpt_pool) res" where
  "find_sibling parent p f b =
     (let index = Internal_ValueIndex parent p
      in if index < 0 then Inl (UndefinedBehaviour ''child not found in its parent'')
         else if index = 0
         then rbind (fetch_page b (Internal_ValueAt parent 1)) (\<lambda>(rf, b1).
                Inr ((p, f, Internal_ValueAt parent 1, rf, 1, False), b1))
         else rbind (fetch_page b (Internal_ValueAt parent (nat index - 1))) (\<lambda>(lf, b1).
                Inr ((Internal_ValueAt parent (nat index - 1), lf, p, f, nat index, True), b1)))"

text \<open>Underflow of a leaf that is not the root; \<open>Inr\<close> is the parent page that is underfull in turn.\<close>

type_synonym merge_state = "page_id \<times> frame_id"

definition leaf_borrow :: "siblings \<Rightarrow> merge_state \<Rightarrow> bpt_pool \<Rightarrow> bpt_pool res" where
  "leaf_borrow = (\<lambda>(left, lf, right, rf, index, right_underflow) (parent, pf) b.
     rbind (as_leaf (page_read b lf)) (\<lambda>l.
     rbind (as_leaf (page_read b rf)) (\<lambda>r.
     rbind (if right_underflow then Leaf_MoveLastToFrontOf l r
            else rbind (Leaf_MoveFirstToEndOf r l) (\<lambda>(r', l'). Inr (l', r'))) (\<lambda>(l', r').
       let b1 = page_write (page_write b lf (LeafPage l')) rf (LeafPage r')
       in rbind (as_internal (page_read b1 pf)) (\<lambda>n.
            let b2 = page_write b1 pf (InternalPage (Internal_SetKeyAt n index (Leaf_KeyAt r' 0)))
            in Inr (unpin (unpin (unpin b2 left True) right True) parent True))))))"

definition leaf_merge :: "siblings \<Rightarrow> merge_state \<Rightarrow> bpt_pool \<Rightarrow> bpt_pool res" where
  "leaf_merge = (\<lambda>(left, lf, right, rf, index, right_underflow) (parent, pf) b.
     rbind (as_leaf (page_read b lf)) (\<lambda>l.
     rbind (as_leaf (page_read b rf)) (\<lambda>r.
     rbind (Leaf_MoveAllTo r l) (\<lambda>(r', l').
       let b1 = page_write (page_write b lf (LeafPage l')) rf (LeafPage r')
       in rbind (as_internal (page_read b1 pf)) (\<lambda>n.
            let b2 = page_write b1 pf (InternalPage (Internal_Remove n index))
            in rbind (DeletePage (unpin (unpin b2 left True) right True) right) (\<lambda>(_, b3). Inr b3))))))"

text \<open>After a merge: the parent is done, or underfull.\<close>

definition parent_done :: "bptree \<Rightarrow> merge_state \<Rightarrow> bpt_pool \<Rightarrow> ((bptree + merge_state) \<times> bpt_pool) res" where
  "parent_done t = (\<lambda>(parent, pf) b.
     rbind (as_internal (page_read b pf)) (\<lambda>n.
       if ip_size n \<ge> Internal_GetMinSize n then Inr (Inl t, unpin b parent True)
       else Inr (Inr (parent, pf), b)))"

definition leaf_underflow :: "bptree \<Rightarrow> page_id \<times> frame_id \<Rightarrow> merge_state \<Rightarrow> bpt_pool \<Rightarrow>
    ((bptree + merge_state) \<times> bpt_pool) res" where
  "leaf_underflow t = (\<lambda>(p, f) (parent, pf) b.
     rbind (as_internal (page_read b pf)) (\<lambda>n.
     rbind (find_sibling n p f b) (\<lambda>((left, lf, right, rf, index, right_underflow), b1).
     rbind (as_leaf (page_read b1 lf)) (\<lambda>l.
     rbind (as_leaf (page_read b1 rf)) (\<lambda>r.
       let s = (left, lf, right, rf, index, right_underflow)
       in if lp_size l > Leaf_GetMinSize l \<or> lp_size r > Leaf_GetMinSize r
          then rbind (leaf_borrow s (parent, pf) b1) (\<lambda>b2. Inr (Inl t, b2))
          else rbind (leaf_merge s (parent, pf) b1) (\<lambda>b2. parent_done t (parent, pf) b2))))))"

text \<open>One round of the loop over the internal pages: the page \<open>(p, f)\<close> is pinned and underfull.\<close>

definition root_underflow :: "bptree \<Rightarrow> merge_state \<Rightarrow> bpt_pool \<Rightarrow> (bptree \<times> bpt_pool) res" where
  "root_underflow t = (\<lambda>(p, f) b.
     rbind (as_internal (page_read b f)) (\<lambda>n.
       if ip_size n = 1
       then let (child, n') = Internal_RemoveAndReturnOnlyChild n
            in rbind (fetch_page (page_write b f (InternalPage n')) child) (\<lambda>(g, b1).
               rbind (set_parent_at b1 g INVALID_PAGE_ID) (\<lambda>b2.
               rbind (DeletePage (unpin (unpin b2 child True) p True) p) (\<lambda>(_, b3).
                 Inr (t\<lparr>root_page_id := child\<rparr>, b3))))
       else Inr (t, unpin b p True)))"

definition internal_borrow :: "siblings \<Rightarrow> merge_state \<Rightarrow> int \<Rightarrow> bpt_pool \<Rightarrow> bpt_pool res" where
  "internal_borrow = (\<lambda>(left, lf, right, rf, index, right_underflow) (parent, pf) middle b.
     rbind (as_internal (page_read b lf)) (\<lambda>l.
     rbind (as_internal (page_read b rf)) (\<lambda>r.
       let key_to_push_up = (if right_underflow then Internal_KeyAt l (ip_size l - 1) else Internal_KeyAt r 1)
       in rbind (if right_underflow then Internal_MoveLastToFrontOf l r middle
                 else rbind (Internal_MoveFirstToEndOf r l middle) (\<lambda>(r', l'). Inr (l', r'))) (\<lambda>(l', r').
            let b1 = page_write (page_write b lf (InternalPage l')) rf (InternalPage r')
            in rbind (as_internal (page_read b1 pf)) (\<lambda>n.
                 let b2 = page_write b1 pf (InternalPage (Internal_SetKeyAt n index key_to_push_up));
                     moved = (if right_underflow then Internal_ValueAt r' 0
                              else Internal_ValueAt l' (ip_size l' - 1))
                 in rbind (fetch_page b2 moved) (\<lambda>(g, b3).
                    rbind (set_parent_at b3 g (if right_underflow then right else left)) (\<lambda>b4.
                      Inr (unpin (unpin (unpin (unpin b4 moved True) parent True) left True) right True))))))))"

definition internal_merge :: "siblings \<Rightarrow> merge_state \<Rightarrow> int \<Rightarrow> bpt_pool \<Rightarrow> bpt_pool res" where
  "internal_merge = (\<lambda>(left, lf, right, rf, index, right_underflow) (parent, pf) middle b.
     rbind (as_internal (page_read b lf)) (\<lambda>l.
     rbind (as_internal (page_read b rf)) (\<lambda>r.
     rbind (Internal_MoveAllTo r l middle) (\<lambda>(r', l').
     rbind (adopt (ip_size l') 0 lf left (page_write (page_write b lf (InternalPage l')) rf (InternalPage r'))) (\<lambda>b1.
     rbind (as_internal (page_read b1 pf)) (\<lambda>n.
       let b2 = page_write b1 pf (InternalPage (Internal_Remove n index))
       in rbind (DeletePage (unpin b2 right True) right) (\<lambda>(_, b3). Inr (unpin b3 left True))))))))"

definition merge_round :: "bptree \<Rightarrow> merge_state \<Rightarrow> bpt_pool \<Rightarrow> ((bptree + merge_state) \<times> bpt_pool) res" where
  "merge_round t = (\<lambda>(p, f) b.
     rbind (as_internal (page_read b f)) (\<lambda>node.
       if ip_parent node = INVALID_PAGE_ID
       then rbind (root_underflow t (p, f) b) (\<lambda>(t', b'). Inr (Inl t', b'))
       else
         let parent = ip_parent node
         in rbind (fetch_page b parent) (\<lambda>(pf, b1).
            rbind (as_internal (page_read b1 pf)) (\<lambda>n.
            rbind (find_sibling n p f b1) (\<lambda>((left, lf, right, rf, index, right_underflow), b2).
            rbind (as_internal (page_read b2 lf)) (\<lambda>l.
            rbind (as_internal (page_read b2 rf)) (\<lambda>r.
              let s = (left, lf, right, rf, index, right_underflow); middle = Internal_KeyAt n index
              in if ip_size l > Internal_GetMinSize l \<or> ip_size r > Internal_GetMinSize r
                 then rbind (internal_borrow s (parent, pf) middle b2) (\<lambda>b3. Inr (Inl t, b3))
                 else rbind (internal_merge s (parent, pf) middle b2) (\<lambda>b3. parent_done t (parent, pf) b3))))))))"

text \<open>\<open>pf\<close> is the frame of the parent, which \<^verbatim>\<open>Remove\<close> has pinned unless the leaf is the root.\<close>

definition fetch_parent :: "bpt_pool \<Rightarrow> page_id \<Rightarrow> (frame_id option \<times> bpt_pool) res" where
  "fetch_parent b parent =
     (if parent = INVALID_PAGE_ID then Inr (None, b)
      else rbind (fetch_page b parent) (\<lambda>(pf, b1). Inr (Some pf, b1)))"

definition unpin_parent :: "bpt_pool \<Rightarrow> page_id \<Rightarrow> bool \<Rightarrow> bpt_pool" where
  "unpin_parent b parent dirty = (if parent = INVALID_PAGE_ID then b else unpin b parent dirty)"

definition remove_from_leaf :: "bptree \<Rightarrow> page_id \<times> frame_id \<Rightarrow> int \<Rightarrow> bpt_pool \<Rightarrow>
    ((bptree + merge_state) \<times> bpt_pool) res" where
  "remove_from_leaf t = (\<lambda>(p, f) key b.
     rbind (as_leaf (page_read b f)) (\<lambda>leaf0.
       let parent = lp_parent leaf0
       in rbind (fetch_parent b parent) (\<lambda>(pf, b1).
          rbind (as_leaf (page_read b1 f)) (\<lambda>leaf.
            let (new_size, leaf') = Leaf_RemoveAndDeleteRecord leaf key; b2 = page_write b1 f (LeafPage leaf')
            in if new_size = lp_size leaf then Inr (Inl t, unpin_parent (unpin b2 p False) parent False)
               else if new_size \<ge> Leaf_GetMinSize leaf' then Inr (Inl t, unpin_parent (unpin b2 p True) parent True)
               else case pf of
                      None \<Rightarrow>
                        if lp_size leaf' = 0
                        then rbind (DeletePage (unpin b2 p True) p) (\<lambda>(_, b3).
                               Inr (Inl (t\<lparr>root_page_id := INVALID_PAGE_ID\<rparr>), b3))
                        else Inr (Inl t, unpin b2 p True)
                    | Some g \<Rightarrow> leaf_underflow t (p, f) (parent, g) b2))))"

definition BPT_Remove :: "bptree \<Rightarrow> bpt_pool \<Rightarrow> int \<Rightarrow> (bptree \<times> bpt_pool) res option" where
  "BPT_Remove t b key =
     (if IsEmpty t then Some (Inr (t, b))
      else cbind (FindLeaf (\<lambda>n. Internal_Lookup n key) t b) (\<lambda>((p, f), b1).
           cbind (Some (remove_from_leaf t (p, f) key b1)) (\<lambda>(r, b2).
             case r of
               Inl t' \<Rightarrow> Some (Inr (t', b2))
             | Inr st \<Rightarrow> rounds (merge_round t) st b2)))"

end
