(* ===== verification/BPT_Tree.thy ===== *)
theory BPT_Tree
  imports BPlus_Tree
begin

text \<open>
  The B+ tree as a mathematical object: a logical tree, the sorted list of entries it holds, and the
  relation \<open>rep\<close> between it and the pages of the pool. The lemmas refine the search and the iterator of
  \<^verbatim>\<open>BPlusTree\<close> to look-up and traversal of the list of entries.
\<close>

section \<open>Logical trees\<close>

text \<open>A leaf with its entries; an inner node with its first child and its (key, child) pairs.\<close>

datatype btree = Lf page_id "(int \<times> rid) list" | Nd page_id btree "(int \<times> btree) list"

primrec tid :: "btree \<Rightarrow> page_id" where
  "tid (Lf p es) = p"
| "tid (Nd p t kts) = p"

abbreviation children :: "btree \<Rightarrow> (int \<times> btree) list \<Rightarrow> btree list" where
  "children t kts \<equiv> t # map snd kts"

text \<open>The leaves from left to right, and the entries in them; all pages; the height.\<close>

fun lnodes :: "btree \<Rightarrow> (page_id \<times> (int \<times> rid) list) list" where
  "lnodes (Lf p es) = [(p, es)]"
| "lnodes (Nd p t kts) = lnodes t @ concat (map (\<lambda>e. lnodes (snd e)) kts)"

definition contents :: "btree \<Rightarrow> (int \<times> rid) list" where
  "contents T = concat (map snd (lnodes T))"

fun ids :: "btree \<Rightarrow> page_id list" where
  "ids (Lf p es) = [p]"
| "ids (Nd p t kts) = p # ids t @ concat (map (\<lambda>e. ids (snd e)) kts)"

fun levels :: "btree \<Rightarrow> nat" where
  "levels (Lf p es) = 0"
| "levels (Nd p t kts) = Suc (Max (set (levels t # map (\<lambda>e. levels (snd e)) kts)))"

lemma contents_simps [simp]:
  "contents (Lf p es) = es"
  "contents (Nd p t kts) = contents t @ concat (map (\<lambda>e. contents (snd e)) kts)"
  by (induction kts) (auto simp: contents_def)

lemma tid_in_ids [simp]: "tid T \<in> set (ids T)"
  by (cases T) auto

lemma child_levels: "c \<in> set (children t kts) \<Longrightarrow> levels c < levels (Nd p t kts)"
  by (auto simp: less_Suc_eq_le intro!: Max_ge intro: rev_image_eqI)

lemma child_ids: "c \<in> set (children t kts) \<Longrightarrow> set (ids c) \<subseteq> set (ids (Nd p t kts))"
  by auto

text \<open>The keys of a subtree lie in \<open>[lo, hi)\<close>, where \<open>None\<close> is no bound; separators lie strictly inside.\<close>

definition at_least :: "int option \<Rightarrow> int \<Rightarrow> bool" where
  "at_least lo k \<longleftrightarrow> (case lo of None \<Rightarrow> True | Some l \<Rightarrow> l \<le> k)"

definition beyond :: "int option \<Rightarrow> int \<Rightarrow> bool" where
  "beyond lo k \<longleftrightarrow> (case lo of None \<Rightarrow> True | Some l \<Rightarrow> l < k)"

definition below :: "int option \<Rightarrow> int \<Rightarrow> bool" where
  "below hi k \<longleftrightarrow> (case hi of None \<Rightarrow> True | Some h \<Rightarrow> k < h)"

lemmas bounds = at_least_def beyond_def below_def

lemma bounds_simps [simp]:
  "at_least None k" "beyond None k" "below None k"
  "at_least (Some l) k \<longleftrightarrow> l \<le> k" "beyond (Some l) k \<longleftrightarrow> l < k" "below (Some h) k \<longleftrightarrow> k < h"
  by (simp_all add: bounds)

lemma bounds_trans:
  "beyond lo k \<Longrightarrow> k \<le> j \<Longrightarrow> beyond lo j" "below hi k \<Longrightarrow> j \<le> k \<Longrightarrow> below hi j"
  "at_least lo k \<Longrightarrow> k \<le> j \<Longrightarrow> at_least lo j" "at_least lo k \<Longrightarrow> k < j \<Longrightarrow> beyond lo j" "beyond lo k \<Longrightarrow> at_least lo k"
  by (auto simp: bounds split: option.splits)

function ordered :: "int option \<Rightarrow> int option \<Rightarrow> btree \<Rightarrow> bool"
  and ordered_children :: "int option \<Rightarrow> int option \<Rightarrow> btree \<Rightarrow> (int \<times> btree) list \<Rightarrow> bool" where
  "ordered lo hi (Lf p es) \<longleftrightarrow>
     sorted_wrt (<) (map fst es) \<and> (\<forall>e \<in> set es. at_least lo (fst e) \<and> below hi (fst e))"
| "ordered lo hi (Nd p t kts) \<longleftrightarrow> ordered_children lo hi t kts"
| "ordered_children lo hi t [] \<longleftrightarrow> ordered lo hi t"
| "ordered_children lo hi t ((k, t') # kts) \<longleftrightarrow>
     beyond lo k \<and> below hi k \<and> ordered lo (Some k) t \<and> ordered_children (Some k) hi t' kts"
  by pat_completeness auto
termination
  by (relation "measure (\<lambda>x. case x of Inl (_, _, t) \<Rightarrow> 2 * size t | Inr (_, _, t, kts) \<Rightarrow> 2 * (size t + size_list (size_prod (\<lambda>_. 0) size) kts) + 1)")
    auto

lemma ordered_children_append:
  "ordered_children lo hi t (xs @ (k, t') # ys) \<longleftrightarrow>
     beyond lo k \<and> below hi k \<and> ordered_children lo (Some k) t xs \<and> ordered_children (Some k) hi t' ys"
proof (induction xs arbitrary: lo t)
  case (Cons x xs)
  then show ?case
    by (cases x) (auto intro: bounds_trans(1) [OF _ less_imp_le] bounds_trans(2) [OF _ less_imp_le])
qed auto

lemma ordered_keys: "ordered_children lo hi t kts \<Longrightarrow> sorted_wrt (<) (map fst kts) \<and> (\<forall>e \<in> set kts. beyond lo (fst e) \<and> below hi (fst e))"
proof (induction kts arbitrary: lo t)
  case (Cons x kts)
  then show ?case
    by (cases x) (fastforce intro: bounds_trans(1) [OF _ less_imp_le])
qed simp

lemma sorted_append_keys:
  fixes k :: int
  shows "sorted_wrt (<) (map fst xs) \<Longrightarrow> \<forall>e \<in> set xs. fst e < k \<Longrightarrow> sorted_wrt (<) (map fst ys) \<Longrightarrow>
    \<forall>e \<in> set ys. k \<le> fst e \<Longrightarrow> sorted_wrt (<) (map fst (xs @ ys))"
  by (simp add: sorted_wrt_append) (meson less_le_trans)

lemma ordered_range:
  "ordered lo hi T \<Longrightarrow> sorted_wrt (<) (map fst (contents T)) \<and> (\<forall>e \<in> set (contents T). at_least lo (fst e) \<and> below hi (fst e))"
  "ordered_children lo hi t kts \<Longrightarrow> sorted_wrt (<) (map fst (contents t @ concat (map (\<lambda>e. contents (snd e)) kts))) \<and>
     (\<forall>e \<in> set (contents t @ concat (map (\<lambda>e. contents (snd e)) kts)). at_least lo (fst e) \<and> below hi (fst e))"
proof (induction lo hi T and lo hi t kts rule: ordered_ordered_children.induct)
  case (4 lo hi t k t' kts)
  let ?R = "contents t' @ concat (map (\<lambda>e. contents (snd e)) kts)"
  have l: "sorted_wrt (<) (map fst (contents t))" "\<forall>e \<in> set (contents t). at_least lo (fst e) \<and> fst e < k"
    and r: "sorted_wrt (<) (map fst ?R)" "\<forall>e \<in> set ?R. k \<le> fst e \<and> below hi (fst e)"
    and k: "beyond lo k" "below hi k"
    using 4 by simp_all
  have "sorted_wrt (<) (map fst (contents t @ ?R))"
    by (rule sorted_append_keys [OF l(1) _ r(1)]) (use l(2) r(2) in auto)
  moreover have "\<forall>e \<in> set (contents t @ ?R). at_least lo (fst e) \<and> below hi (fst e)"
  proof
    fix e assume "e \<in> set (contents t @ ?R)"
    then consider "e \<in> set (contents t)" | "e \<in> set ?R" by auto
    then show "at_least lo (fst e) \<and> below hi (fst e)"
    proof cases
      case 1
      then show ?thesis using l(2) bounds_trans(2) [OF k(2) less_imp_le] by blast
    next
      case 2
      then show ?thesis using r(2) bounds_trans(5) [OF bounds_trans(1) [OF k(1)]] by blast
    qed
  qed
  ultimately show ?case by simp
qed simp_all

text \<open>The child, and the leaf, that a search goes to: the first one, or that for a key.\<close>

fun child_of :: "int option \<Rightarrow> btree \<Rightarrow> (int \<times> btree) list \<Rightarrow> btree" where
  "child_of None t kts = t"
| "child_of (Some key) t [] = t"
| "child_of (Some key) t ((k, t') # kts) = (if key < k then t else child_of (Some key) t' kts)"

lemma child_of_in: "child_of ko t kts \<in> set (children t kts)"
  by (induction ko t kts rule: child_of.induct) auto

lemma child_of_size: "size (child_of ko t kts) < size (Nd p t kts)"
proof -
  have "size (child_of ko t kts) \<le> size t + size_list (size_prod (\<lambda>_. 0) size) kts"
    by (induction ko t kts rule: child_of.induct) auto
  then show ?thesis by simp
qed

function leaf_for :: "int option \<Rightarrow> btree \<Rightarrow> btree" where
  "leaf_for ko (Lf p es) = Lf p es"
| "leaf_for ko (Nd p t kts) = leaf_for ko (child_of ko t kts)"
  by pat_completeness auto
termination
  by (relation "measure (\<lambda>(ko, t). size t)") (use child_of_size in auto)

lemma child_of_nth:
  "child_of (Some key) t kts = (t # map snd kts) ! length (takeWhile (\<lambda>e. fst e \<le> key) kts)"
  by (induction "Some key" t kts rule: child_of.induct) auto

lemma leaf_for_Lf: "\<exists>p es. leaf_for ko T = Lf p es"
  by (induction ko T rule: leaf_for.induct) auto

lemma leaf_for_id: "tid (leaf_for ko T) \<in> set (ids T)"
proof (induction ko T rule: leaf_for.induct)
  case (2 ko p t kts)
  then show ?case using child_ids [OF child_of_in, of ko t kts p] by auto
qed simp

text \<open>The entries before that leaf are below the key, those behind it above it.\<close>

definition splits_at :: "int option \<Rightarrow> btree \<Rightarrow> (page_id \<times> (int \<times> rid) list) list \<Rightarrow> btree \<Rightarrow>
    (page_id \<times> (int \<times> rid) list) list \<Rightarrow> bool" where
  "splits_at ko T xs c ys \<longleftrightarrow> lnodes T = xs @ lnodes c @ ys \<and>
     (\<forall>x \<in> set xs. \<forall>e \<in> set (snd x). \<exists>k. ko = Some k \<and> fst e < k) \<and>
     (\<forall>y \<in> set ys. \<forall>e \<in> set (snd y). \<forall>k. ko = Some k \<longrightarrow> k < fst e)"

lemma contents_lnodes: "e \<in> set (contents T) \<longleftrightarrow> (\<exists>x \<in> set (lnodes T). e \<in> set (snd x))"
  by (auto simp: contents_def)

lemma child_splits:
  "ordered_children lo hi t kts \<Longrightarrow> \<exists>xs ys lo' hi'. splits_at ko (Nd p t kts) xs (child_of ko t kts) ys \<and>
     ordered lo' hi' (child_of ko t kts)"
proof (induction ko t kts arbitrary: lo rule: child_of.induct)
  case (1 t kts)
  have "\<exists>lo' hi'. ordered lo' hi' t" using 1 by (cases kts) force+
  moreover have "splits_at None (Nd p t kts) [] t (concat (map (\<lambda>e. lnodes (snd e)) kts))"
    by (auto simp: splits_at_def)
  ultimately show ?case by auto
next
  case (2 key t)
  then show ?case by (auto simp: splits_at_def intro!: exI [of _ "[]"])
next
  case (3 key t k t' kts)
  show ?case
  proof (cases "key < k")
    case True
    let ?ys = "lnodes (Nd p t' kts)"
    have "\<forall>e \<in> set (contents (Nd p t' kts)). k \<le> fst e" using ordered_range(2) [of "Some k" hi t' kts] 3(2) by auto
    then have "\<forall>y \<in> set ?ys. \<forall>e \<in> set (snd y). k \<le> fst e" by (meson contents_lnodes)
    then have "\<forall>y \<in> set ?ys. \<forall>e \<in> set (snd y). key < fst e" using True by force
    then have "splits_at (Some key) (Nd p t ((k, t') # kts)) [] t ?ys" by (simp add: splits_at_def)
    then show ?thesis using 3(2) True by auto
  next
    case False
    from 3(1) [OF False, of "Some k"] 3(2) obtain xs ys lo' hi' where s: "splits_at (Some key) (Nd p t' kts) xs (child_of (Some key) t' kts) ys"
      "ordered lo' hi' (child_of (Some key) t' kts)" by auto
    have "\<forall>e \<in> set (contents t). fst e < k" using ordered_range(1) [of lo "Some k" t] 3(2) by auto
    then have "\<forall>x \<in> set (lnodes t). \<forall>e \<in> set (snd x). fst e < key"
      using False by (meson contents_lnodes less_le_trans not_less)
    then have "splits_at (Some key) (Nd p t ((k, t') # kts)) (lnodes t @ xs) (child_of (Some key) t' kts) ys"
      using s(1) by (auto simp: splits_at_def)
    then show ?thesis using s(2) False by (simp only: child_of.simps if_False) blast
  qed
qed

lemma splits_trans:
  "splits_at ko T xs c ys \<Longrightarrow> splits_at ko c xs' d ys' \<Longrightarrow> splits_at ko T (xs @ xs') d (ys' @ ys)"
  unfolding splits_at_def by (simp add: ball_Un)

lemma leaf_splits:
  "ordered lo hi T \<Longrightarrow> \<exists>xs ys lo' hi'. splits_at ko T xs (leaf_for ko T) ys \<and> ordered lo' hi' (leaf_for ko T)"
proof (induction ko T arbitrary: lo hi rule: leaf_for.induct)
  case (1 ko p es)
  then show ?case by (auto simp: splits_at_def intro!: exI [of _ "[]"])
next
  case (2 ko p t kts)
  then obtain xs ys lo' hi' where 1: "splits_at ko (Nd p t kts) xs (child_of ko t kts) ys" "ordered lo' hi' (child_of ko t kts)"
    using child_splits [of lo hi t kts ko p] by auto
  from 2(1) [OF 1(2)] obtain xs' ys' lo'' hi'' where
    "splits_at ko (child_of ko t kts) xs' (leaf_for ko (child_of ko t kts)) ys'" "ordered lo'' hi'' (leaf_for ko (child_of ko t kts))"
    by blast
  with splits_trans [OF 1(1) this(1)] show ?case by auto
qed

section \<open>Representation\<close>

text \<open>
  The pages \<open>V\<close> hold the tree: every page has the content, the children, the parent and the maximal size
  that the logical tree says (the key at index 0 of an internal page is not used).
\<close>

fun rep :: "nat \<Rightarrow> nat \<Rightarrow> (page_id \<Rightarrow> bpt_data) \<Rightarrow> page_id \<Rightarrow> btree \<Rightarrow> bool" where
  "rep lm im V parent (Lf p es) \<longleftrightarrow>
     (\<exists>l. V p = LeafPage l \<and> leaf_list l = es \<and> lp_parent l = parent \<and> lp_max l = lm)"
| "rep lm im V parent (Nd p t kts) \<longleftrightarrow>
     (\<exists>n k. V p = InternalPage n \<and> internal_list n = (k, tid t) # map (\<lambda>e. (fst e, tid (snd e))) kts \<and>
        ip_parent n = parent \<and> ip_max n = im) \<and>
     rep lm im V p t \<and> (\<forall>e \<in> set kts. rep lm im V p (snd e))"

lemma rep_child: "rep lm im V parent (Nd p t kts) \<Longrightarrow> c \<in> set (children t kts) \<Longrightarrow> rep lm im V p c"
  by auto

lemma rep_cong: "rep lm im V parent T \<Longrightarrow> (\<And>p. p \<in> set (ids T) \<Longrightarrow> V' p = V p) \<Longrightarrow> rep lm im V' parent T"
proof (induction lm im V parent T rule: rep.induct)
  case (2 lm im V parent p t kts)
  have "rep lm im V' p t" using 2 by simp
  moreover have "rep lm im V' p (snd e)" if e: "e \<in> set kts" for e
    by (rule 2(2) [OF e]) (use 2(3,4) e in auto)
  ultimately show ?case using 2(3,4) by simp
qed simp

text \<open>The links of the leaves.\<close>

definition next_of :: "bpt_data \<Rightarrow> page_id" where
  "next_of d = (case d of LeafPage l \<Rightarrow> lp_next l | _ \<Rightarrow> 0)"

fun chain :: "(page_id \<Rightarrow> bpt_data) \<Rightarrow> page_id list \<Rightarrow> page_id \<Rightarrow> bool" where
  "chain V [] z \<longleftrightarrow> True"
| "chain V [p] z \<longleftrightarrow> next_of (V p) = z"
| "chain V (p # q # ps) z \<longleftrightarrow> next_of (V p) = q \<and> chain V (q # ps) z"

abbreviation leaf_ids :: "btree \<Rightarrow> page_id list" where
  "leaf_ids T \<equiv> map fst (lnodes T)"

text \<open>Sizes: no leaf is empty and no page holds more than its maximal size.\<close>

fun sized :: "nat \<Rightarrow> nat \<Rightarrow> btree \<Rightarrow> bool" where
  "sized lm im (Lf p es) \<longleftrightarrow> 0 < length es \<and> length es \<le> lm"
| "sized lm im (Nd p t kts) \<longleftrightarrow> Suc (length kts) \<le> im \<and> sized lm im t \<and> (\<forall>e \<in> set kts. sized lm im (snd e))"

definition tree_in :: "nat \<Rightarrow> nat \<Rightarrow> (page_id \<Rightarrow> bpt_data) \<Rightarrow> btree \<Rightarrow> bool" where
  "tree_in lm im V T \<longleftrightarrow> rep lm im V INVALID_PAGE_ID T \<and> ordered None None T \<and> sized lm im T \<and>
     distinct (ids T) \<and> chain V (leaf_ids T) INVALID_PAGE_ID"

text \<open>The tree object \<open>t\<close> with the pool \<open>b\<close> holds the logical tree \<open>T\<close>, \<open>None\<close> being the empty tree.\<close>

definition holds_tree :: "bptree \<Rightarrow> bpt_pool \<Rightarrow> btree option \<Rightarrow> bool" where
  "holds_tree t b To \<longleftrightarrow> pool_ok {} b \<and>
     (case To of
        None \<Rightarrow> IsEmpty t
      | Some T \<Rightarrow> root_page_id t = tid T \<and> tree_in (leaf_max_size t) (internal_max_size t) (page_view b) T \<and>
          (\<forall>p \<in> set (ids T). stored b p))"

definition bindings :: "btree option \<Rightarrow> (int \<times> rid) list" where
  "bindings To = (case To of None \<Rightarrow> [] | Some T \<Rightarrow> contents T)"

text \<open>\<open>room n m b\<close>: \<open>n\<close> more accesses before the clock of the replacer wraps, \<open>m\<close> frames not pinned.\<close>

definition room :: "nat \<Rightarrow> nat \<Rightarrow> bpt_pool \<Rightarrow> bool" where
  "room n m b \<longleftrightarrow> n \<le> pool_life b \<and> card {q. 0 < pins b q} + m \<le> pool_size b"

section \<open>Search\<close>

definition child_fun :: "int option \<Rightarrow> internal_page \<Rightarrow> page_id" where
  "child_fun ko n = (case ko of None \<Rightarrow> Internal_ValueAt n 0 | Some k \<Rightarrow> Internal_Lookup n k)"

lemma internal_ordered_tl:
  assumes "internal_list n = e # kvs" "sorted_wrt (<) (map fst kvs)"
  shows "internal_ordered n"
  unfolding internal_ordered_def ascending_def
proof (intro allI impI)
  fix i j assume ij: "1 \<le> i" "i < j" "j < ip_size n"
  have len: "ip_size n = Suc (length kvs)" using arg_cong [OF assms(1), of length] by simp
  have key: "Internal_KeyAt n m = fst (kvs ! (m - 1))" if "1 \<le> m" "m < ip_size n" for m
    using internal_list_nth [of m n] that assms(1) by (cases m) simp_all
  show "Internal_KeyAt n i < Internal_KeyAt n j"
    using sorted_wrt_nth_less [OF assms(2), of "i - 1" "j - 1"] ij len key by simp
qed

lemma child_fun_child:
  assumes "internal_list n = (k0, tid t) # map (\<lambda>e. (fst e, tid (snd e))) kts" "sorted_wrt (<) (map fst kts)"
  shows "child_fun ko n = tid (child_of ko t kts)"
proof (cases ko)
  case None
  then show ?thesis using internal_values [OF assms(1)] by (simp add: child_fun_def)
next
  case (Some k)
  let ?kvs = "map (\<lambda>e. (fst e, tid (snd e))) kts"
  have o: "internal_ordered n" by (rule internal_ordered_tl [OF assms(1)]) (use assms(2) in \<open>simp add: comp_def\<close>)
  have len: "ip_size n = Suc (length kts)" using arg_cong [OF assms(1), of length] by simp
  have tl: "?kvs = map (\<lambda>i. (Internal_KeyAt n i, Internal_ValueAt n i)) [1..<ip_size n]"
    using internal_list_tl [of n] assms(1) by (simp add: Internal_KeyAt_def Internal_ValueAt_def)
  have c: "Internal_ChildIndex n k < ip_size n" using internal_index(1) [OF o] len by simp
  have "takeWhile (\<lambda>e. fst e \<le> k) ?kvs = take (Internal_ChildIndex n k) ?kvs"
    using child.find_takeWhile(1) [of n ?kvs "Internal_ValueAt n" k] o len tl by (simp add: internal_ordered_def)
  then have "length (takeWhile (\<lambda>e. fst e \<le> k) ?kvs) = Internal_ChildIndex n k"
    using c len by simp
  then have i: "length (takeWhile (\<lambda>e. fst e \<le> k) kts) = Internal_ChildIndex n k"
    by (simp add: takeWhile_map comp_def)
  have "Internal_ValueAt n j = tid ((t # map snd kts) ! j)" if "j < ip_size n" for j
    using internal_list_nth [OF that] assms(1) that len by (cases j) simp_all
  then show ?thesis using c i by (simp add: Some child_fun_def child_of_nth Internal_Lookup_index)
qed

lemma fetch_room:
  assumes "pool_at W P V S L F (b :: bpt_pool)" "p \<in> S" "0 < L" "card {q. 0 < P q} < pool_size b"
  shows "\<exists>f b1. fetch_page b p = Inr (f, b1) \<and> FetchPage b p = Inr (Some f, b1) \<and>
    pool_at W (P(p := P p + 1)) V S (L - 1) F b1 \<and> holds b1 f p \<and> pool_size b1 = pool_size b \<and>
    (\<forall>g q. 0 < P q \<longrightarrow> holds b g q \<longrightarrow> holds b1 g q)"
  using fetch_at [OF assms(1,2)] assms(3,4) by (auto simp: fetch_page_def)

lemma rounds_unfold:
  "rounds step st b =
     (case step st b of
        Inl e \<Rightarrow> Some (Inl e)
      | Inr (Inl r, b') \<Rightarrow> Some (Inr (r, b'))
      | Inr (Inr st', b') \<Rightarrow> rounds step st' b')"
  by (rule rounds.simps)

lemma find_leaf_at:
  assumes "pool_at {} P V S L F b" "rep lm im V parent T" "ordered lo hi T" "set (ids T) \<subseteq> S"
    and "levels T < L" "card {q. 0 < P q} < pool_size b"
  shows "\<exists>f b1. rounds (descend_round (child_fun ko)) (tid T) b = Some (Inr ((tid (leaf_for ko T), f), b1)) \<and>
    pool_at {} (P(tid (leaf_for ko T) := P (tid (leaf_for ko T)) + 1)) V S (L - levels T - 1) F b1 \<and>
    holds b1 f (tid (leaf_for ko T)) \<and> pool_size b1 = pool_size b"
  using assms
proof (induction ko T arbitrary: L b parent lo hi rule: leaf_for.induct)
  case (1 ko p es)
  have "p \<in> S" "0 < L" using 1(4,5) by auto
  from fetch_room [OF 1(1) this 1(6)] obtain f b1 where f: "fetch_page b p = Inr (f, b1)"
    "pool_at {} (P(p := P p + 1)) V S (L - 1) F b1" "holds b1 f p" "pool_size b1 = pool_size b" by blast
  obtain l where l: "V p = LeafPage l" using 1(2) by auto
  have "page_read b1 f = LeafPage l" using pool_at_read [OF f(2) _ f(3)] 1(4) l by simp
  then have "rounds (descend_round (child_fun ko)) p b = Some (Inr ((p, f), b1))"
    using f(1) by (subst rounds_unfold) (simp add: descend_round_def IsLeafPage_def)
  then show ?case using f by (simp del: fun_upd_apply)
next
  case (2 ko p t kts)
  let ?c = "child_of ko t kts"
  have "p \<in> S" "0 < L" using 2(5,6) by auto
  from fetch_room [OF 2(2) this 2(7)] obtain f b1 where f: "fetch_page b p = Inr (f, b1)" "FetchPage b p = Inr (Some f, b1)"
    by blast
  from visit_at [OF 2(2) _ _ f(2)] 2(5) obtain b2 where b2: "page_read b1 f = V p" "UnpinPage b1 p False = (True, b2)"
    "pool_at {} P V S (L - 1) F b2" "pool_size b2 = pool_size b" by auto
  obtain n k0 where n: "V p = InternalPage n" "internal_list n = (k0, tid t) # map (\<lambda>e. (fst e, tid (snd e))) kts"
    using 2(3) by auto
  have "sorted_wrt (<) (map fst kts)" using ordered_keys [of lo hi t kts] 2(4) by simp
  then have c: "child_fun ko n = tid ?c" by (rule child_fun_child [OF n(2)])
  have step: "rounds (descend_round (child_fun ko)) p b = rounds (descend_round (child_fun ko)) (tid ?c) b2"
    using f b2(1,2) n(1) c by (subst rounds_unfold) (simp add: descend_round_def IsLeafPage_def as_internal_def)
  obtain lo' hi' where o: "ordered lo' hi' ?c" using child_splits 2(4) ordered.simps(2) by metis
  have lv: "levels ?c < levels (Nd p t kts)" by (rule child_levels [OF child_of_in])
  have ids: "set (ids ?c) \<subseteq> S" using child_ids [OF child_of_in, of ko t kts p] 2(5) by blast
  have "rep lm im V p ?c" by (rule rep_child [OF 2(3) child_of_in])
  from 2(1) [OF pool_at_weaken [OF b2(3) subset_refl, of "levels ?c + (L - levels (Nd p t kts))" V] this o ids]
  show ?case using 2(6,7) b2(4) lv step by (simp del: levels.simps fun_upd_apply)
qed

lemma lnodes_ids: "set (leaf_ids T) \<subseteq> set (ids T)"
proof (induction T rule: ids.induct)
  case (2 p t kts)
  then show ?case by fastforce
qed simp

lemma chain_cong: "chain V ps z \<Longrightarrow> (\<And>p. p \<in> set ps \<Longrightarrow> next_of (V' p) = next_of (V p)) \<Longrightarrow> chain V' ps z"
  by (induction V ps z rule: chain.induct) auto

lemma tree_in_cong: "tree_in lm im V T \<Longrightarrow> (\<And>p. p \<in> set (ids T) \<Longrightarrow> V' p = V p) \<Longrightarrow> tree_in lm im V' T"
  using rep_cong [of lm im V INVALID_PAGE_ID T V'] chain_cong [of V "leaf_ids T" INVALID_PAGE_ID V'] lnodes_ids [of T]
  unfolding tree_in_def by (metis subsetD)

lemma holds_tree_at:
  "holds_tree t b (Some T) \<Longrightarrow>
    pool_at {} (pins b) (page_view b) (set (ids T)) (pool_life b) (next_page_id (disk_manager b)) b"
  by (auto simp: holds_tree_def pool_at_def)

lemma holds_treeI:
  assumes "pool_at {} P V S L F b" "tree_in (leaf_max_size t) (internal_max_size t) V T" "root_page_id t = tid T" "set (ids T) \<subseteq> S"
  shows "holds_tree t b (Some T)"
proof -
  have "page_view b p = V p" "stored b p" if "p \<in> set (ids T)" for p
    using assms(1,4) that by (auto simp: pool_at_def)
  then show ?thesis using assms tree_in_cong [OF assms(2), of "page_view b"] by (auto simp: holds_tree_def pool_at_def)
qed

lemma tid_valid: "holds_tree t b (Some T) \<Longrightarrow> root_page_id t = tid T \<and> \<not> IsEmpty t"
  using pool_at_page [OF holds_tree_at, of t b T "tid T"] by (auto simp: holds_tree_def IsEmpty_def INVALID_PAGE_ID_def)

definition height :: "btree option \<Rightarrow> nat" where
  "height To = (case To of None \<Rightarrow> 0 | Some T \<Rightarrow> Suc (levels T))"

text \<open>The content of the leaf that a search ends at, and its place among the leaves.\<close>

lemma rep_leaves: "rep lm im V parent T \<Longrightarrow> (p, es) \<in> set (lnodes T) \<Longrightarrow>
   \<exists>l. V p = LeafPage l \<and> leaf_list l = es \<and> lp_max l = lm"
  by (induction lm im V parent T rule: rep.induct) auto

lemma find_leaf:
  assumes "holds_tree t b (Some T)" "room (height (Some T)) 1 b"
  obtains p es l f b1 xs ys where "leaf_for ko T = Lf p es"
    "FindLeaf (child_fun ko) t b = Some (Inr ((p, f), b1))"
    "pool_at {} ((pins b)(p := pins b p + 1)) (page_view b) (set (ids T)) (pool_life b - height (Some T)) (next_page_id (disk_manager b)) b1"
    "holds b1 f p" "pool_size b1 = pool_size b" "page_view b p = LeafPage l" "leaf_list l = es" "leaf_ordered l" "p \<in> set (ids T)"
    "splits_at ko T xs (Lf p es) ys"
proof -
  have t: "root_page_id t = tid T" "tree_in (leaf_max_size t) (internal_max_size t) (page_view b) T"
    using assms(1) by (auto simp: holds_tree_def)
  then have r: "rep (leaf_max_size t) (internal_max_size t) (page_view b) INVALID_PAGE_ID T" and o: "ordered None None T"
    by (auto simp: tree_in_def)
  obtain p es where l: "leaf_for ko T = Lf p es" using leaf_for_Lf by blast
  have lv: "levels T < pool_life b" "card {q. 0 < pins b q} < pool_size b"
    using assms(2) by (auto simp: room_def height_def)
  from find_leaf_at [OF holds_tree_at [OF assms(1)] r o subset_refl lv, of ko] l t(1) obtain f b1 where
    f: "FindLeaf (child_fun ko) t b = Some (Inr ((p, f), b1))"
    "pool_at {} ((pins b)(p := pins b p + 1)) (page_view b) (set (ids T)) (pool_life b - height (Some T)) (next_page_id (disk_manager b)) b1"
    "holds b1 f p" "pool_size b1 = pool_size b"
    by (auto simp: FindLeaf_def height_def)
  from leaf_splits [OF o, of ko] l obtain xs ys lo hi where s: "splits_at ko T xs (Lf p es) ys" "ordered lo hi (Lf p es)" by auto
  have "(p, es) \<in> set (lnodes T)" using s(1) by (simp add: splits_at_def)
  from rep_leaves [OF r this] obtain lf where "page_view b p = LeafPage lf" "leaf_list lf = es" by blast
  moreover have "leaf_ordered lf" using s(2) calculation by (simp add: leaf_ordered_list)
  moreover have "p \<in> set (ids T)" using leaf_for_id [of ko T] l by simp
  ultimately show ?thesis using that l f s(1) by blast
qed

lemma splits_contents:
  "splits_at ko T xs (Lf p es) ys \<Longrightarrow> contents T = concat (map snd xs) @ es @ concat (map snd ys)"
  by (simp add: splits_at_def contents_def)

lemma splits_map_of:
  assumes "splits_at (Some k) T xs (Lf p es) ys"
  shows "map_of (contents T) k = map_of es k"
proof -
  have "k \<notin> fst ` set (concat (map snd xs))" "k \<notin> fst ` set (concat (map snd ys))"
    using assms by (fastforce simp: splits_at_def)+
  then have "map_of (concat (map snd xs)) k = None" "map_of (concat (map snd ys)) k = None"
    by (simp_all add: map_of_eq_None_iff)
  then show ?thesis by (simp add: splits_contents [OF assms] map_add_def split: option.split)
qed

text \<open>A visit of the leaf for a key: found, looked at, and unpinned.\<close>

lemma visit_leaf:
  assumes "holds_tree t b (Some T)" "room (height (Some T)) 1 b"
  obtains p es l f b1 b2 xs ys where "leaf_for ko T = Lf p es"
    "FindLeaf (child_fun ko) t b = Some (Inr ((p, f), b1))" "page_read b1 f = LeafPage l" "page_view b p = LeafPage l"
    "UnpinPage b1 p False = (True, b2)" "leaf_list l = es" "leaf_ordered l" "splits_at ko T xs (Lf p es) ys"
    "holds_tree t b2 (Some T)" "pins b2 = pins b" "\<forall>q \<in> set (ids T). page_view b2 q = page_view b q"
    "pool_life b - height (Some T) \<le> pool_life b2" "pool_size b2 = pool_size b"
proof -
  from find_leaf [OF assms, of ko] obtain p es l f b1 xs ys where l: "leaf_for ko T = Lf p es"
    "FindLeaf (child_fun ko) t b = Some (Inr ((p, f), b1))"
    "pool_at {} ((pins b)(p := pins b p + 1)) (page_view b) (set (ids T)) (pool_life b - height (Some T)) (next_page_id (disk_manager b)) b1"
    "holds b1 f p" "pool_size b1 = pool_size b" "page_view b p = LeafPage l" "leaf_list l = es" "leaf_ordered l" "p \<in> set (ids T)"
    "splits_at ko T xs (Lf p es) ys" .
  have rd: "page_read b1 f = LeafPage l" using pool_at_read [OF l(3,9,4)] l(6) by simp
  have "0 < ((pins b)(p := pins b p + 1)) p"
    using pool_at_nonneg [OF holds_tree_at [OF assms(1)], of p] by simp
  from unpin_at [OF l(3) this, of False, unfolded pin_unpin] obtain b2 where b2: "UnpinPage b1 p False = (True, b2)"
    "pool_at {} (pins b) (page_view b) (set (ids T)) (pool_life b - height (Some T)) (next_page_id (disk_manager b)) b2"
    "pool_size b2 = pool_size b1"
    by (auto simp del: fun_upd_apply)
  have h: "holds_tree t b2 (Some T)" by (rule holds_treeI [OF b2(2)]) (use assms(1) in \<open>auto simp: holds_tree_def\<close>)
  have "pins b2 = pins b" "\<forall>q \<in> set (ids T). page_view b2 q = page_view b q"
    "pool_life b - height (Some T) \<le> pool_life b2" using b2(2) by (auto simp: pool_at_def)
  note v = this
  have "pool_size b2 = pool_size b" using b2(3) l(5) by simp
  then show ?thesis by (rule that [OF l(1,2) rd l(6) b2(1) l(7,8,10) h v])
qed

lemma child_fun_simps: "child_fun (Some k) = (\<lambda>n. Internal_Lookup n k)" "child_fun None = (\<lambda>n. Internal_ValueAt n 0)"
  by (simp_all add: child_fun_def fun_eq_iff)

text \<open>
  C21. \<^verbatim>\<open>GetValue\<close> returns what the map that the tree represents holds under the key, changes no
  page of the tree, and leaves no page pinned.
\<close>

theorem GetValue_correct:
  assumes "holds_tree t b To" "room (height To) 1 b"
  shows "\<exists>b'. GetValue t b k = Some (Inr (map_of (bindings To) k, b')) \<and> holds_tree t b' To \<and> pins b' = pins b"
proof (cases To)
  case None
  then show ?thesis using assms by (simp add: GetValue_def holds_tree_def bindings_def)
next
  case (Some T)
  with assms have ht: "holds_tree t b (Some T)" and rm: "room (height (Some T)) 1 b" by simp_all
  from visit_leaf [OF ht rm, of "Some k"] obtain p es l f b1 b2 xs ys where
    l: "FindLeaf (child_fun (Some k)) t b = Some (Inr ((p, f), b1))" "page_read b1 f = LeafPage l"
    "UnpinPage b1 p False = (True, b2)" "leaf_list l = es" "leaf_ordered l" "splits_at (Some k) T xs (Lf p es) ys"
    "holds_tree t b2 (Some T)" "pins b2 = pins b" by metis
  then have "GetValue t b k = Some (Inr (map_of (contents T) k, b2))"
    using tid_valid [OF ht] splits_map_of [OF l(6)] leaf_lookup [OF l(5), of k]
    by (simp add: GetValue_def cbind_def as_leaf_def child_fun_simps)
  then show ?thesis using l(7,8) Some by (simp add: bindings_def)
qed

section \<open>Iteration\<close>

text \<open>The loop of a client, from an iterator until \<^verbatim>\<open>End()\<close>, reading each pair; \<open>n\<close> bounds the rounds.\<close>

primrec BPT_scan :: "nat \<Rightarrow> bpt_pool \<Rightarrow> bpt_iterator \<Rightarrow> ((int \<times> rid) list \<times> bpt_pool) res option" where
  "BPT_scan 0 b it = (if it = BPT_End then Some (Inr ([], b)) else None)"
| "BPT_scan (Suc n) b it =
     (if it = BPT_End then Some (Inr ([], b))
      else case BPT_Deref b it of
             Inl e \<Rightarrow> Some (Inl e)
           | Inr (x, b1) \<Rightarrow>
               (case BPT_Next b1 it of
                  Inl e \<Rightarrow> Some (Inl e)
                | Inr (it', b2) \<Rightarrow> cbind (BPT_scan n b2 it') (\<lambda>(xs, b3). Some (Inr (x # xs, b3)))))"

definition leaf_at :: "(page_id \<Rightarrow> bpt_data) \<Rightarrow> page_id \<Rightarrow> (int \<times> rid) list" where
  "leaf_at V p = (case V p of LeafPage l \<Rightarrow> leaf_list l | _ \<Rightarrow> [])"

lemma pool_at_pg_id: "pool_at W P V S L F b \<Longrightarrow> holds b f p \<Longrightarrow> pg_id (frame b f) = p"
  using bpm_inv_cached [of "{}" b p f] by (auto simp: pool_at_def pool_ok_def holds_def frame_ok_def)

lemma fetch_visit:
  assumes "pool_at {} P V S L F (b :: bpt_pool)" "p \<in> S" "0 < L" "card {q. 0 < P q} < pool_size b"
  shows "\<exists>f b1 b2. fetch_page b p = Inr (f, b1) \<and> page_read b1 f = V p \<and> pg_id (frame b1 f) = p \<and>
    UnpinPage b1 p False = (True, b2) \<and> pool_at {} P V S (L - 1) F b2 \<and> pool_size b2 = pool_size b"
proof -
  from fetch_room [OF assms] obtain f b1 where f: "fetch_page b p = Inr (f, b1)" "FetchPage b p = Inr (Some f, b1)"
    "pool_at {} (P(p := P p + 1)) V S (L - 1) F b1" "holds b1 f p" by blast
  from visit_at [OF assms(1,2) _ f(2)] show ?thesis using f(1) pool_at_pg_id [OF f(3,4)] by auto
qed

lemma deref_at:
  assumes "pool_at {} P V S L F b" "p \<in> S" "0 < L" "card {q. 0 < P q} < pool_size b"
    and "V p = LeafPage l" "i < lp_size l"
  shows "\<exists>b2. BPT_Deref b (p, i) = Inr (leaf_list l ! i, b2) \<and> pool_at {} P V S (L - 1) F b2 \<and> pool_size b2 = pool_size b"
  using fetch_visit [OF assms(1-4)] assms(5,6) by (auto simp: BPT_Deref_def as_leaf_def leaf_list_nth)

lemma next_at:
  assumes "pool_at {} P V S L F b" "p \<in> S" "0 < L" "card {q. 0 < P q} < pool_size b"
    and "V p = LeafPage l"
  shows "\<exists>b2. BPT_Next b (p, i) = Inr (if i + 1 < lp_size l then (p, i + 1) else (lp_next l, 0), b2) \<and>
    pool_at {} P V S (L - 1) F b2 \<and> pool_size b2 = pool_size b"
proof -
  have "p \<noteq> INVALID_PAGE_ID" using pool_at_page [OF assms(1,2)] by (auto simp: INVALID_PAGE_ID_def)
  moreover from fetch_visit [OF assms(1-4)] obtain f b1 b2 where "fetch_page b p = Inr (f, b1)" "page_read b1 f = V p"
    "pg_id (frame b1 f) = p" "UnpinPage b1 p False = (True, b2)" "pool_at {} P V S (L - 1) F b2" "pool_size b2 = pool_size b"
    by blast
  ultimately show ?thesis
    using assms(5) by (intro exI [of _ b2]) (simp add: BPT_Next_def BPT_IsEnd_def as_leaf_def Let_def)
qed

lemma scan_at:
  assumes "pool_at {} P V S L F b" "set (p # qs) \<subseteq> S" "chain V (p # qs) INVALID_PAGE_ID"
    and "\<forall>q \<in> set (p # qs). (\<exists>l. V q = LeafPage l) \<and> leaf_at V q \<noteq> []" "i < length (leaf_at V p)"
    and "length (drop i (leaf_at V p) @ concat (map (leaf_at V) qs)) \<le> n"
    and "2 * length (drop i (leaf_at V p) @ concat (map (leaf_at V) qs)) \<le> L" "card {q. 0 < P q} < pool_size b"
  shows "\<exists>b' L'. BPT_scan n b (p, i) = Some (Inr (drop i (leaf_at V p) @ concat (map (leaf_at V) qs), b')) \<and>
    pool_at {} P V S L' F b'"
  using assms
proof (induction n arbitrary: b L p qs i)
  case (Suc n)
  let ?rest = "drop i (leaf_at V p) @ concat (map (leaf_at V) qs)"
  obtain l where l: "V p = LeafPage l" "leaf_list l = leaf_at V p" using Suc.prems(4) by (auto simp: leaf_at_def)
  have i: "i < lp_size l" using Suc.prems(5) l(2) by (metis length_leaf_list)
  have p: "p \<in> S" "(p, i) \<noteq> BPT_End"
    using Suc.prems(2) pool_at_page [OF Suc.prems(1), of p] by (auto simp: BPT_End_def INVALID_PAGE_ID_def)
  have L: "0 < L" "0 < L - 1" using Suc.prems(5,7) by auto
  from deref_at [OF Suc.prems(1) p(1) L(1) Suc.prems(8) l(1) i] obtain b1 where
    d: "BPT_Deref b (p, i) = Inr (leaf_list l ! i, b1)" "pool_at {} P V S (L - 1) F b1" "pool_size b1 = pool_size b" by blast
  from next_at [OF d(2) p(1) L(2) _ l(1), of i] Suc.prems(8) d(3) obtain b2 where
    x: "BPT_Next b1 (p, i) = Inr (if i + 1 < lp_size l then (p, i + 1) else (lp_next l, 0), b2)"
      "pool_at {} P V S (L - 1 - 1) F b2" "pool_size b2 = pool_size b" by auto
  have size: "lp_size l = length (leaf_at V p)" using l(2) by (metis length_leaf_list)
  have rest: "?rest = leaf_list l ! i # drop (i + 1) (leaf_at V p) @ concat (map (leaf_at V) qs)"
    using Suc.prems(5) l(2) by (simp add: Cons_nth_drop_Suc [symmetric])
  have "\<exists>b' L'. BPT_scan n b2 (if i + 1 < lp_size l then (p, i + 1) else (lp_next l, 0)) =
      Some (Inr (drop (i + 1) (leaf_at V p) @ concat (map (leaf_at V) qs), b')) \<and> pool_at {} P V S L' F b'"
  proof (cases "i + 1 < lp_size l")
    case True
    then show ?thesis
      using Suc.IH [OF x(2) Suc.prems(2,3,4), of "i + 1"] Suc.prems(6-8) x(3) size by simp
  next
    case False
    then have e: "drop (i + 1) (leaf_at V p) = []" using size by simp
    show ?thesis
    proof (cases qs)
      case Nil
      then have "lp_next l = INVALID_PAGE_ID" using Suc.prems(3) l(1) by (simp add: next_of_def)
      then have "BPT_scan n b2 (lp_next l, 0) = Some (Inr ([], b2))" by (cases n) (simp_all add: BPT_End_def)
      then show ?thesis using False e Nil x(2) by auto
    next
      case (Cons q qs')
      then have q: "lp_next l = q" "chain V (q # qs') INVALID_PAGE_ID" using Suc.prems(3) l(1) by (simp_all add: next_of_def)
      have "set (q # qs') \<subseteq> S" "\<forall>r \<in> set (q # qs'). (\<exists>l. V r = LeafPage l) \<and> leaf_at V r \<noteq> []" "0 < length (leaf_at V q)"
        using Suc.prems(2,4) Cons by auto
      from Suc.IH [OF x(2) this(1) q(2) this(2,3)] show ?thesis
        using Suc.prems(5-8) rest e Cons x(3) q(1) False by simp
    qed
  qed
  then show ?case using d(1) x(1) p(2) rest by (auto simp: cbind_def simp del: if_split)
qed simp

lemma tree_leaves:
  assumes "holds_tree t b (Some T)"
  shows "\<forall>x \<in> set (lnodes T). (\<exists>l. page_view b (fst x) = LeafPage l) \<and> leaf_at (page_view b) (fst x) = snd x \<and> snd x \<noteq> []"
proof
  fix x assume x: "x \<in> set (lnodes T)"
  have r: "rep (leaf_max_size t) (internal_max_size t) (page_view b) INVALID_PAGE_ID T"
    and s: "sized (leaf_max_size t) (internal_max_size t) T"
    using assms by (auto simp: holds_tree_def tree_in_def)
  have "snd x \<noteq> []" using s x by (induction T rule: lnodes.induct) auto
  then show "(\<exists>l. page_view b (fst x) = LeafPage l) \<and> leaf_at (page_view b) (fst x) = snd x \<and> snd x \<noteq> []"
    using rep_leaves [OF r, of "fst x" "snd x"] x by (auto simp: leaf_at_def)
qed

lemma chain_suffix: "chain V (ps @ qs) z \<Longrightarrow> chain V qs z"
proof (induction ps)
  case (Cons p ps)
  then show ?case by (cases "ps @ qs") auto
qed simp

lemma chain_next: "chain V (p # ps) z \<Longrightarrow> next_of (V p) = (case ps of [] \<Rightarrow> z | q # _ \<Rightarrow> q)"
  by (cases ps) auto

text \<open>A scan from a position among the leaves of a tree in the pool.\<close>

lemma scan_tree:
  assumes h: "holds_tree t b (Some T)" and l: "lnodes T = xs @ (p, es) # ys" and i: "i < length es"
    and r: "room (2 * length (contents T)) 1 b"
  shows "\<exists>b'. BPT_scan (length (contents T)) b (p, i) = Some (Inr (drop i es @ concat (map snd ys), b')) \<and>
    holds_tree t b' (Some T) \<and> pins b' = pins b"
proof -
  let ?V = "page_view b"
  have lf: "\<forall>x \<in> set ((p, es) # ys). (\<exists>l. ?V (fst x) = LeafPage l) \<and> leaf_at ?V (fst x) = snd x \<and> snd x \<noteq> []"
    using tree_leaves [OF h] l by simp
  then have es: "leaf_at ?V p = es" "map (leaf_at ?V \<circ> fst) ys = map snd ys" by auto
  have "chain ?V (leaf_ids T) INVALID_PAGE_ID" using h by (auto simp: holds_tree_def tree_in_def)
  then have ch: "chain ?V (p # map fst ys) INVALID_PAGE_ID" using chain_suffix [of ?V "map fst xs"] l by simp
  have ids: "set (p # map fst ys) \<subseteq> set (ids T)" using lnodes_ids [of T] l by auto
  have len: "length (drop i es @ concat (map snd ys)) \<le> length (contents T)" by (simp add: contents_def l)
  have rest: "drop i (leaf_at ?V p) @ concat (map (leaf_at ?V) (map fst ys)) = drop i es @ concat (map snd ys)"
    unfolding map_map es ..
  have n: "length (drop i (leaf_at ?V p) @ concat (map (leaf_at ?V) (map fst ys))) \<le> length (contents T)"
    "2 * length (drop i (leaf_at ?V p) @ concat (map (leaf_at ?V) (map fst ys))) \<le> pool_life b"
    using len r unfolding rest room_def by linarith+
  have "\<exists>b' L'. BPT_scan (length (contents T)) b (p, i) =
      Some (Inr (drop i (leaf_at ?V p) @ concat (map (leaf_at ?V) (map fst ys)), b')) \<and>
      pool_at {} (pins b) ?V (set (ids T)) L' (next_page_id (disk_manager b)) b'"
    by (rule scan_at [OF holds_tree_at [OF h] ids ch _ _ n]) (use lf i r es in \<open>auto simp: room_def\<close>)
  then obtain b' L' where b': "BPT_scan (length (contents T)) b (p, i) = Some (Inr (drop i es @ concat (map snd ys), b'))"
    "pool_at {} (pins b) ?V (set (ids T)) L' (next_page_id (disk_manager b)) b'" unfolding rest by blast
  then have "holds_tree t b' (Some T)" by (intro holds_treeI [OF b'(2)]) (use h in \<open>auto simp: holds_tree_def\<close>)
  then show ?thesis using b' by (auto simp: pool_at_def)
qed

lemma scan_rest:
  assumes h: "holds_tree t b (Some T)" and l: "lnodes T = xs @ (p, es) # ys" and i: "i \<le> length es"
    and r: "room (2 * length (contents T)) 1 b"
  shows "\<exists>b'. BPT_scan (length (contents T)) b (if i < length es then (p, i) else (next_of (page_view b p), 0)) =
      Some (Inr (drop i es @ concat (map snd ys), b')) \<and> holds_tree t b' (Some T) \<and> pins b' = pins b"
proof (cases "i < length es")
  case True
  then show ?thesis using scan_tree [OF h l _ r] by simp
next
  case False
  have "chain (page_view b) (leaf_ids T) INVALID_PAGE_ID" using h by (auto simp: holds_tree_def tree_in_def)
  then have "chain (page_view b) (p # map fst ys) INVALID_PAGE_ID" using chain_suffix [of "page_view b" "map fst xs"] l by simp
  then have nx: "next_of (page_view b p) = (case map fst ys of [] \<Rightarrow> INVALID_PAGE_ID | q # _ \<Rightarrow> q)" by (rule chain_next)
  show ?thesis
  proof (cases ys)
    case Nil
    then have "BPT_scan n b (next_of (page_view b p), 0) = Some (Inr ([], b))" for n
      using nx by (cases n) (simp_all add: BPT_End_def)
    then show ?thesis using False Nil h by simp
  next
    case (Cons y ys')
    then have "0 < length (snd y)" using tree_leaves [OF h] l by simp
    then show ?thesis
      using scan_tree [OF h, of "xs @ [(p, es)]" "fst y" "snd y" ys' 0] l r False nx Cons by simp
  qed
qed

lemma room_mono: "room n m b \<Longrightarrow> n' \<le> n \<Longrightarrow> room n' m b"
  by (simp add: room_def)

lemma room_after: "room (n + n') m b \<Longrightarrow> pins b' = pins b \<Longrightarrow> pool_size b' = pool_size b \<Longrightarrow> pool_life b - n \<le> pool_life b' \<Longrightarrow> room n' m b'"
  unfolding room_def by auto

lemma dropWhile_middle:
  assumes "\<forall>x \<in> set xs. P x" "\<forall>x \<in> set zs. \<not> P x"
  shows "dropWhile P (xs @ ys @ zs) = dropWhile P ys @ zs"
proof -
  have "dropWhile P zs = zs" using assms(2) by (cases zs) auto
  then show ?thesis using assms(1) by (cases "\<forall>y \<in> set ys. P y") (auto simp: dropWhile_append)
qed

lemma begin_at_scan:
  assumes ht: "holds_tree t b (Some T)" and rm: "room (height (Some T) + 2 * length (contents T)) 1 b"
  shows "\<exists>it b1 b2. (case ko of None \<Rightarrow> BPT_Begin t b | Some k \<Rightarrow> BPT_BeginAt t b k) = Some (Inr (it, b1)) \<and>
    BPT_scan (length (contents T)) b1 it =
      Some (Inr ((case ko of None \<Rightarrow> contents T | Some k \<Rightarrow> dropWhile (\<lambda>e. fst e < k) (contents T)), b2)) \<and>
    holds_tree t b2 (Some T) \<and> pins b2 = pins b"
proof -
  from visit_leaf [OF ht room_mono [OF rm], of ko] obtain p es l f b1 b2 xs ys where
    l: "FindLeaf (child_fun ko) t b = Some (Inr ((p, f), b1))" "page_read b1 f = LeafPage l" "page_view b p = LeafPage l"
    "UnpinPage b1 p False = (True, b2)" "leaf_list l = es" "leaf_ordered l" "splits_at ko T xs (Lf p es) ys"
    "holds_tree t b2 (Some T)" "pins b2 = pins b" "\<forall>q \<in> set (ids T). page_view b2 q = page_view b q"
    "pool_life b - height (Some T) \<le> pool_life b2" "pool_size b2 = pool_size b" by (metis le_add1)
  have ln: "lnodes T = xs @ (p, es) # ys" using l(7) by (simp add: splits_at_def)
  have "p \<in> set (ids T)" using ln lnodes_ids [of T] by auto
  then have nx: "next_of (page_view b2 p) = lp_next l" using l(3,10) by (simp add: next_of_def)
  have rm2: "room (2 * length (contents T)) 1 b2" by (rule room_after [OF rm l(9,12,11)])
  show ?thesis
  proof (cases ko)
    case None
    have "\<forall>x \<in> set xs. snd x = []" using l(7) None unfolding splits_at_def by (metis last_in_set option.distinct(1))
    moreover have "\<forall>x \<in> set xs. snd x \<noteq> []" using ln tree_leaves [OF ht] by simp
    ultimately have "xs = []" by (cases xs) auto
    moreover have "es \<noteq> []" using ln tree_leaves [OF ht] by simp
    moreover have "BPT_Begin t b = Some (Inr ((p, 0), b2))"
      using l(1,4) None tid_valid [OF ht] by (simp add: BPT_Begin_def cbind_def child_fun_simps)
    ultimately show ?thesis
      using scan_rest [OF l(8) ln, of 0] rm2 l(9) None ln by (auto simp: contents_def)
  next
    case (Some k)
    let ?i = "Leaf_KeyIndex l k"
    have i: "?i \<le> length es" "lp_size l = length es" using leaf_index(1) [OF l(6)] l(5) length_leaf_list [of l] by simp_all
    have "BPT_BeginAt t b k = Some (Inr (if ?i < length es then (p, ?i) else (next_of (page_view b2 p), 0), b2))"
      using l(1,2,4) Some tid_valid [OF ht] i nx
      by (simp add: BPT_BeginAt_def cbind_def child_fun_simps as_leaf_def Let_def)
    moreover have "dropWhile (\<lambda>e. fst e < k) (contents T) = drop ?i es @ concat (map snd ys)"
    proof -
      have "\<forall>e \<in> set (concat (map snd xs)). fst e < k" "\<forall>e \<in> set (concat (map snd ys)). \<not> fst e < k"
        using l(7) Some by (fastforce simp: splits_at_def)+
      then show ?thesis
        using leaf_takeWhile(2) [OF l(6), of k] l(5)
        by (simp only: splits_contents [OF l(7)] dropWhile_middle)
    qed
    ultimately show ?thesis using scan_rest [OF l(8) ln i(1) rm2] l(9) Some by auto
  qed
qed

text \<open>
  C22. The iterator runs through the map in the order of the keys: from \<^verbatim>\<open>Begin()\<close> to \<^verbatim>\<open>End()\<close> it
  yields every binding once, from \<^verbatim>\<open>Begin(key)\<close> exactly the bindings whose keys are not below the key;
  it ends, and leaves the tree and the pins as they were.
\<close>

theorem iterator_in_order:
  assumes "holds_tree t b To" "room (height To + 2 * length (bindings To)) 1 b"
  shows "sorted_wrt (<) (map fst (bindings To)) \<and>
    (\<exists>it b1 b2. BPT_Begin t b = Some (Inr (it, b1)) \<and>
       BPT_scan (length (bindings To)) b1 it = Some (Inr (bindings To, b2)) \<and> holds_tree t b2 To \<and> pins b2 = pins b) \<and>
    (\<exists>it b1 b2. BPT_BeginAt t b k = Some (Inr (it, b1)) \<and>
       BPT_scan (length (bindings To)) b1 it = Some (Inr (filter (\<lambda>e. k \<le> fst e) (bindings To), b2)) \<and>
       holds_tree t b2 To \<and> pins b2 = pins b)"
proof (cases To)
  case None
  then show ?thesis using assms by (simp add: bindings_def holds_tree_def BPT_Begin_def BPT_BeginAt_def BPT_End_def)
next
  case (Some T)
  with assms have h: "holds_tree t b (Some T)" "room (height (Some T) + 2 * length (contents T)) 1 b"
    by (simp_all add: bindings_def)
  have s: "sorted_wrt (<) (map fst (contents T))"
    using h(1) ordered_range(1) [of None None T] by (simp add: holds_tree_def tree_in_def)
  have "dropWhile (\<lambda>e. fst e < k) xs = filter (\<lambda>e. k \<le> fst e) xs" if "sorted_wrt (<) (map fst xs)" for xs :: "(int \<times> rid) list"
    using that
  proof (induction xs)
    case (Cons x xs)
    have "k \<le> fst x \<Longrightarrow> filter (\<lambda>e. k \<le> fst e) xs = xs" using Cons.prems by (auto simp: filter_id_conv)
    then show ?case using Cons by auto
  qed simp
  then show ?thesis
    using begin_at_scan [OF h, of None] begin_at_scan [OF h, of "Some k"] s Some by (simp add: bindings_def)
qed

end
