(* ===== verification/BPT_Insert.thy ===== *)
theory BPT_Insert
  imports BPT_Tree
begin

text \<open>
  Insertion into the B+ tree is insertion into the map that it represents: the first half of the theory is
  about logical trees (a child replaced by one or two trees), the second about the pages (the loop of
  \<^verbatim>\<open>BPlusTree::Insert\<close> that propagates a split to the root).
\<close>

section \<open>Growing a tree\<close>

text \<open>Children of a node, in the form (key, child) with an unused key for the first one.\<close>

abbreviation cids :: "(int \<times> btree) list \<Rightarrow> page_id list" where
  "cids cs \<equiv> concat (map (\<lambda>e. ids (snd e)) cs)"

abbreviation clnodes :: "(int \<times> btree) list \<Rightarrow> (page_id \<times> (int \<times> rid) list) list" where
  "clnodes cs \<equiv> concat (map (\<lambda>e. lnodes (snd e)) cs)"

abbreviation ccontents :: "(int \<times> btree) list \<Rightarrow> (int \<times> rid) list" where
  "ccontents cs \<equiv> concat (map (\<lambda>e. contents (snd e)) cs)"

definition ordered_list :: "int option \<Rightarrow> int option \<Rightarrow> (int \<times> btree) list \<Rightarrow> bool" where
  "ordered_list lo hi cs \<longleftrightarrow> ordered_children lo hi (snd (hd cs)) (tl cs)"

definition node :: "page_id \<Rightarrow> (int \<times> btree) list \<Rightarrow> btree" where
  "node p cs = Nd p (snd (hd cs)) (tl cs)"

lemma node_simps:
  assumes "cs \<noteq> []"
  shows "ids (node p cs) = p # cids cs" "lnodes (node p cs) = clnodes cs" "contents (node p cs) = ccontents cs"
    "tid (node p cs) = p" "ordered lo hi (node p cs) = ordered_list lo hi cs"
    "sized lm im (node p cs) \<longleftrightarrow> length cs \<le> im \<and> (\<forall>e \<in> set cs. sized lm im (snd e))"
  using assms by (cases cs; simp add: node_def ordered_list_def)+

lemma contents_clnodes: "concat (map snd (clnodes cs)) = ccontents cs"
  by (induction cs) (simp_all add: contents_def)

lemma node_Cons: "node p ((k, t) # kts) = Nd p t kts"
  by (simp add: node_def)

lemma ordered_list_append:
  "xs \<noteq> [] \<Longrightarrow> ordered_list lo hi (xs @ (k, c) # ys) \<longleftrightarrow>
     beyond lo k \<and> below hi k \<and> ordered_list lo (Some k) xs \<and> ordered_list (Some k) hi ((k, c) # ys)"
  by (cases xs) (simp_all add: ordered_list_def ordered_children_append)

text \<open>The place of the child for a key, with the bounds that the child has there.\<close>

lemma hole:
  assumes "ordered_children lo hi t kts" "at_least lo key" "below hi key"
  obtains xs k c ys lo' hi' where "(k0, t) # kts = xs @ (k, c) # ys" "c = child_of (Some key) t kts"
    "ordered lo' hi' c" "at_least lo' key" "below hi' key" "\<forall>e \<in> set (ccontents xs). fst e < key"
    "\<forall>l rest. ordered_list lo' hi' ((k, l) # rest) \<longrightarrow> ordered_list lo hi (xs @ ((k, l) # rest) @ ys)"
  using assms
proof (induction "Some key" t kts arbitrary: lo k0 thesis rule: child_of.induct)
  case (2 t)
  show ?case
    by (rule 2(1) [of "[]" k0 t "[]" lo hi]) (use 2(2-4) in \<open>simp_all add: ordered_list_def\<close>)
next
  case (3 t k t' kts)
  show ?case
  proof (cases "key < k")
    case True
    show ?thesis
      by (rule 3(2) [of "[]" k0 t "(k, t') # kts" lo "Some k"])
        (use 3(3-5) True in \<open>simp_all add: ordered_list_def ordered_children_append\<close>)
  next
    case False
    have o: "beyond lo k" "below hi k" "ordered lo (Some k) t" "ordered_children (Some k) hi t' kts" using 3(3) by simp_all
    have ge: "at_least (Some k) key" using False by simp
    from 3(1) [OF False _ o(4) ge 3(5), of k] obtain xs j c ys lo' hi' where h: "(k, t') # kts = xs @ (j, c) # ys" "c = child_of (Some key) t' kts"
      "ordered lo' hi' c" "at_least lo' key" "below hi' key" "\<forall>e \<in> set (ccontents xs). fst e < key"
      "\<forall>l rest. ordered_list lo' hi' ((j, l) # rest) \<longrightarrow> ordered_list (Some k) hi (xs @ ((j, l) # rest) @ ys)" by blast
    have t: "\<forall>e \<in> set (contents t). fst e < key" using ordered_range(1) [OF o(3)] False by auto
    have all: "ordered_list lo hi (((k0, t) # xs) @ ((j, l) # rest) @ ys)" if "ordered_list lo' hi' ((j, l) # rest)" for l rest
    proof (cases xs)
      case Nil
      then show ?thesis using h(1) h(7) that o by (simp add: ordered_list_def)
    next
      case (Cons x xs')
      then show ?thesis using h(1) h(7) [rule_format, OF that] o by (auto simp: ordered_list_def)
    qed
    have c: "c = child_of (Some key) t ((k, t') # kts)" using h(2) False by (simp only: child_of.simps if_False)
    have s: "(k0, t) # (k, t') # kts = ((k0, t) # xs) @ (j, c) # ys" using h(1) by simp
    have "\<forall>e \<in> set (ccontents ((k0, t) # xs)). fst e < key" using h(6) t by auto
    then show ?thesis using 3(2) [OF s c h(3-5)] all by blast
  qed
qed

text \<open>
  \<open>grown\<close>: the pages \<open>V'\<close> hold the trees \<open>l\<close> and \<open>rest\<close> (one tree, or two with the key between them) in
  the place of \<open>T\<close>, with one more binding; pages outside \<open>T\<close> are as they were, new pages come from \<open>S' - S\<close>.
\<close>

definition grown :: "nat \<Rightarrow> nat \<Rightarrow> (page_id \<Rightarrow> bpt_data) \<Rightarrow> page_id set \<Rightarrow> (page_id \<Rightarrow> bpt_data) \<Rightarrow> page_id set \<Rightarrow>
    page_id \<Rightarrow> int option \<Rightarrow> int option \<Rightarrow> int \<Rightarrow> rid \<Rightarrow> btree \<Rightarrow> (int \<times> btree) list \<Rightarrow> bool" where
  "grown lm im V S V' S' parent lo hi key val T cs \<longleftrightarrow>
     cs \<noteq> [] \<and> (\<forall>e \<in> set cs. rep lm im V' parent (snd e) \<and> sized lm im (snd e)) \<and> ordered_list lo hi cs \<and>
     map_of (ccontents cs) = (map_of (contents T))(key \<mapsto> val) \<and>
     distinct (cids cs) \<and> set (cids cs) \<subseteq> set (ids T) \<union> (S' - S) \<and> S \<subseteq> S' \<and>
     (\<forall>q \<in> S - set (ids T). V' q = V q) \<and> map fst (clnodes cs) \<noteq> [] \<and>
     hd (map fst (clnodes cs)) = hd (leaf_ids T) \<and>
     (\<forall>z. chain V (leaf_ids T) z \<longrightarrow> chain V' (map fst (clnodes cs)) z)"

lemma chain_append:
  "xs \<noteq> [] \<Longrightarrow> chain V (xs @ ys) z \<longleftrightarrow> chain V xs (if ys = [] then z else hd ys) \<and> chain V ys z"
proof (induction xs)
  case (Cons x xs)
  then show ?case by (cases xs; cases ys) auto
qed simp

lemma lnodes_not_Nil [simp]: "lnodes T \<noteq> []"
  by (induction T rule: lnodes.induct) auto

lemma map_of_middle:
  assumes "map_of Y' = (map_of Y)(k \<mapsto> v)" "k \<notin> fst ` set X"
  shows "map_of (X @ Y' @ Z) = (map_of (X @ Y @ Z))(k \<mapsto> v)"
proof -
  have "map_of X k = None" using assms(2) by (simp add: map_of_eq_None_iff)
  then show ?thesis by (auto simp: assms(1) map_add_def fun_eq_iff split: option.split)
qed

text \<open>Replacing a child in the list of children.\<close>

lemma grown_children:
  assumes g: "grown lm im V S V' S' p lo' hi' key val c ((k, l) # rest)"
    and cs: "cs = xs @ (k, c) # ys" and r: "\<forall>e \<in> set cs. rep lm im V p (snd e) \<and> sized lm im (snd e)"
    and d: "distinct (p # cids cs)" and sub: "set (p # cids cs) \<subseteq> S"
    and small: "\<forall>e \<in> set (ccontents xs). fst e < key"
    and o: "\<forall>l rest. ordered_list lo' hi' ((k, l) # rest) \<longrightarrow> ordered_list lo hi (xs @ ((k, l) # rest) @ ys)"
    and new: "cs' = xs @ ((k, l) # rest) @ ys"
  shows "(\<forall>e \<in> set cs'. rep lm im V' p (snd e) \<and> sized lm im (snd e))" "ordered_list lo hi cs'"
    "map_of (ccontents cs') = (map_of (ccontents cs))(key \<mapsto> val)"
    "distinct (p # cids cs')" "set (cids cs') \<subseteq> set (cids cs) \<union> (S' - S)"
    "\<forall>q \<in> S - set (cids cs). V' q = V q" "V' p = V p"
    "hd (map fst (clnodes cs')) = hd (map fst (clnodes cs))"
    "chain V (map fst (clnodes cs)) z \<Longrightarrow> chain V' (map fst (clnodes cs')) z"
proof -
  have out: "\<forall>q \<in> S - set (ids c). V' q = V q" and idl: "set (cids ((k, l) # rest)) \<subseteq> set (ids c) \<union> (S' - S)"
    using g by (simp_all add: grown_def)
  have sides: "V' q = V q" if "e \<in> set xs \<union> set ys" "q \<in> set (ids (snd e))" for e q
    using that d sub out by (fastforce simp: cs)
  show "\<forall>e \<in> set cs'. rep lm im V' p (snd e) \<and> sized lm im (snd e)"
  proof
    fix e assume "e \<in> set cs'"
    then consider "e \<in> set ((k, l) # rest)" | "e \<in> set xs \<union> set ys" by (auto simp: new)
    then show "rep lm im V' p (snd e) \<and> sized lm im (snd e)"
    proof cases
      case 1
      then show ?thesis using g unfolding grown_def by blast
    next
      case 2
      then have "rep lm im V p (snd e)" "sized lm im (snd e)" using r by (auto simp: cs)
      then show ?thesis using rep_cong [of lm im V p "snd e" V'] sides [OF 2] by blast
    qed
  qed
  show "ordered_list lo hi cs'" using g o by (simp add: grown_def new)
  have "key \<notin> fst ` set (ccontents xs)" using small by auto
  then show "map_of (ccontents cs') = (map_of (ccontents cs))(key \<mapsto> val)"
    using map_of_middle [of "ccontents ((k, l) # rest)" "contents c" key val "ccontents xs" "ccontents ys"] g
    by (simp add: grown_def new cs del: map_of_append)
  have "set (p # cids xs) \<inter> set (ids c) = {}" "set (cids ys) \<inter> set (ids c) = {}" "set (p # cids xs) \<inter> set (cids ys) = {}"
    "distinct (p # cids xs)" "distinct (cids ys)" "set (p # cids xs) \<subseteq> S" "set (cids ys) \<subseteq> S"
    using d sub by (auto simp: cs)
  moreover have "distinct (cids ((k, l) # rest))" using g by (simp add: grown_def)
  ultimately have "distinct ((p # cids xs) @ cids ((k, l) # rest) @ cids ys)"
    using idl unfolding distinct_append by (simp only: set_append) blast
  then show "distinct (p # cids cs')" by (simp add: new)
  show "set (cids cs') \<subseteq> set (cids cs) \<union> (S' - S)" using idl by (auto simp: new cs)
  show "\<forall>q \<in> S - set (cids cs). V' q = V q" using out by (auto simp: cs)
  show "V' p = V p" using out d sub by (auto simp: cs)
  have ne: "map fst (clnodes ((k, l) # rest)) \<noteq> []" and h: "hd (map fst (clnodes ((k, l) # rest))) = hd (leaf_ids c)"
    using g unfolding grown_def by blast+
  then show "hd (map fst (clnodes cs')) = hd (map fst (clnodes cs))"
    by (cases xs) (simp_all add: new cs hd_append)
  assume ch: "chain V (map fst (clnodes cs)) z"
  have cong: "chain V' (map fst (clnodes zs)) z'" if "chain V (map fst (clnodes zs)) z'" "set zs \<subseteq> set xs \<union> set ys" for zs z'
  proof (rule chain_cong [OF that(1)])
    fix q assume "q \<in> set (map fst (clnodes zs))"
    then obtain e where e: "e \<in> set zs" "q \<in> set (leaf_ids (snd e))" by auto
    then have "V' q = V q" using sides [of e q] that(2) lnodes_ids [of "snd e"] by blast
    then show "next_of (V' q) = next_of (V q)" by simp
  qed
  have step: "chain V' (map fst (clnodes (((k, l) # rest) @ ys))) z" if "chain V (map fst (clnodes ((k, c) # ys))) z"
  proof -
    let ?z = "if map fst (clnodes ys) = [] then z else hd (map fst (clnodes ys))"
    have "chain V (leaf_ids c) ?z" "chain V (map fst (clnodes ys)) z"
      using that chain_append [of "leaf_ids c" V "map fst (clnodes ys)" z] by simp_all
    then have "chain V' (map fst (clnodes ((k, l) # rest))) ?z" "chain V' (map fst (clnodes ys)) z"
      using g cong [of ys z] unfolding grown_def by blast+
    then show ?thesis using chain_append [OF ne, of V' "map fst (clnodes ys)" z] by simp
  qed
  show "chain V' (map fst (clnodes cs')) z"
  proof (cases xs)
    case Nil
    then show ?thesis using step ch by (simp add: new cs)
  next
    case (Cons x xs')
    then have nx: "map fst (clnodes xs) \<noteq> []" by simp
    have "chain V (map fst (clnodes xs)) (hd (leaf_ids c))" "chain V (map fst (clnodes ((k, c) # ys))) z"
      using ch chain_append [OF nx, of V "map fst (clnodes ((k, c) # ys))" z] by (simp_all add: cs)
    then have "chain V' (map fst (clnodes xs)) (hd (leaf_ids c))" "chain V' (map fst (clnodes (((k, l) # rest) @ ys))) z"
      using cong step by auto
    then show ?thesis
      using chain_append [OF nx, of V' "map fst (clnodes (((k, l) # rest) @ ys))" z] h ne by (simp add: new)
  qed
qed

section \<open>The pages of a split\<close>

subsection \<open>Pins\<close>

definition pin :: "(page_id \<Rightarrow> int) \<Rightarrow> page_id \<Rightarrow> page_id \<Rightarrow> int" where
  "pin P q = P(q := P q + 1)"

lemma pin_commute: "pin (pin P q) r = pin (pin P r) q"
  by (auto simp: pin_def fun_eq_iff)

lemma pin_pos: "0 \<le> P r \<Longrightarrow> 0 < pin P r r" "\<forall>q. 0 \<le> P q \<Longrightarrow> \<forall>q. 0 \<le> pin P r q" "0 < P q \<Longrightarrow> 0 < pin P r q"
  by (auto simp: pin_def)

lemma pin_card: "\<forall>q. 0 \<le> P q \<Longrightarrow> card {q. 0 < pin P r q} \<le> card {q. 0 < P q} + 1"
  unfolding pin_def by (rule card_pin) simp

lemma fetch_pin:
  assumes "pool_at W P V S L F (b :: bpt_pool)" "p \<in> S" "0 < L" "card {q. 0 < P q} < pool_size b"
  shows "\<exists>f b1. fetch_page b p = Inr (f, b1) \<and> pool_at W (pin P p) V S (L - 1) F b1 \<and> holds b1 f p \<and>
    pool_size b1 = pool_size b \<and> (\<forall>g q. 0 < P q \<longrightarrow> holds b g q \<longrightarrow> holds b1 g q)"
  using fetch_room [OF assms] unfolding pin_def by blast

lemma create_pin:
  assumes "pool_at W P V S L F (b :: bpt_pool)" "0 < L" "card {q. 0 < P q} < pool_size b"
  shows "\<exists>f b1. create_page b = Inr ((F, f), b1) \<and> pool_at (insert F W) (pin P F) (V(F := 0)) (insert F S) (L - 1) (F + 1) b1 \<and>
    holds b1 f F \<and> F \<notin> S \<and> F \<notin> W \<and> 0 \<le> F \<and> pool_size b1 = pool_size b \<and> (\<forall>g q. 0 < P q \<longrightarrow> holds b g q \<longrightarrow> holds b1 g q)"
  using new_at [OF assms(1)] assms(2,3) by (auto simp: create_page_def pin_def)

lemma unpin_pin:
  assumes "pool_at W (pin P q) V S L F (b :: bpt_pool)" "0 \<le> P q"
  shows "pool_at (W - {q}) P V S L F (unpin b q True) \<and> holds (unpin b q True) = holds b \<and>
    pool_size (unpin b q True) = pool_size b"
proof -
  have e: "(pin P q)(q := pin P q q - 1) = P" unfolding pin_def by (rule pin_unpin)
  have "0 < pin P q q" using assms(2) by (rule pin_pos(1))
  from unpin_at [OF assms(1) this, of True, unfolded e] show ?thesis by auto
qed

lemma write_pin:
  assumes "pool_at W P V S L F (b :: bpt_pool)" "holds b f p" "0 < P p" "p \<in> S"
  shows "pool_at (insert p W) P (V(p := x)) S L F (page_write b f x) \<and> holds (page_write b f x) = holds b \<and>
    pool_size (page_write b f x) = pool_size b"
  using write_at [OF assms] .

subsection \<open>Children with a new parent\<close>

definition setp :: "bpt_data \<Rightarrow> page_id \<Rightarrow> bpt_data" where
  "setp d parent =
     (case d of
        LeafPage l \<Rightarrow> LeafPage (l\<lparr>lp_parent := parent\<rparr>)
      | InternalPage n \<Rightarrow> InternalPage (n\<lparr>ip_parent := parent\<rparr>)
      | Raw \<Rightarrow> Raw)"

lemma setp_simps [simp]:
  "d \<noteq> Raw \<Longrightarrow> SetParentPageId d parent = Inr (setp d parent)"
  "setp (setp d parent) parent = setp d parent" "setp d parent = Raw \<longleftrightarrow> d = Raw"
  "next_of (setp d parent) = next_of d"
  by (cases d; simp add: setp_def SetParentPageId_def next_of_def)+

lemma set_parent_pin:
  assumes "pool_at W P V S L F b" "holds b f p" "0 < P p" "p \<in> S" "V p \<noteq> Raw"
  shows "\<exists>b1. set_parent_at b f parent = Inr b1 \<and> pool_at (insert p W) P (V(p := setp (V p) parent)) S L F b1 \<and>
    holds b1 = holds b \<and> pool_size b1 = pool_size b"
proof -
  have "page_read b f = V p" by (rule pool_at_read [OF assms(1,4,2)])
  then show ?thesis using write_pin [OF assms(1-4), of "setp (V p) parent"] assms(5) by (simp add: set_parent_at_def)
qed

definition reparent :: "page_id \<Rightarrow> page_id list \<Rightarrow> (page_id \<Rightarrow> bpt_data) \<Rightarrow> page_id \<Rightarrow> bpt_data" where
  "reparent parent cs V q = (if q \<in> set cs then setp (V q) parent else V q)"

lemma reparent_Cons: "reparent parent cs (V(c := setp (V c) parent)) = reparent parent (c # cs) V"
  by (auto simp: reparent_def fun_eq_iff)

lemma adopt_at:
  assumes "pool_at W P V S L F b" "\<forall>q. 0 \<le> P q" "holds b f r" "0 < P r" "r \<in> S" "V r = InternalPage n"
    and "\<forall>j < m. Internal_ValueAt n (i + j) \<in> S \<and> Internal_ValueAt n (i + j) \<noteq> r \<and> Internal_ValueAt n (i + j) \<notin> W \<and> V (Internal_ValueAt n (i + j)) \<noteq> Raw"
    and "m \<le> L" "card {q. 0 < P q} < pool_size b"
  shows "\<exists>b'. adopt m i f parent b = Inr b' \<and>
    pool_at W P (reparent parent (map (Internal_ValueAt n) [i..<i + m]) V) S (L - m) F b' \<and>
    pool_size b' = pool_size b \<and> (\<forall>g q. 0 < P q \<longrightarrow> holds b g q \<longrightarrow> holds b' g q)"
  using assms
proof (induction m arbitrary: i V L b)
  case 0
  then show ?case by (simp add: reparent_def)
next
  case (Suc m)
  let ?c = "Internal_ValueAt n i"
  have c: "?c \<in> S" "?c \<noteq> r" "?c \<notin> W" "V ?c \<noteq> Raw" using Suc.prems(7) [rule_format, of 0] by auto
  have rd: "page_read b f = InternalPage n" using pool_at_read [OF Suc.prems(1,5,3)] Suc.prems(6) by simp
  have "0 < L" using Suc.prems(8) by simp
  from fetch_pin [OF Suc.prems(1) c(1) this Suc.prems(9)] obtain g b1 where
    1: "fetch_page b ?c = Inr (g, b1)" "pool_at W (pin P ?c) V S (L - 1) F b1" "holds b1 g ?c" "pool_size b1 = pool_size b"
    "\<forall>g q. 0 < P q \<longrightarrow> holds b g q \<longrightarrow> holds b1 g q" by blast
  from set_parent_pin [OF 1(2,3) pin_pos(1) c(1,4), of parent] Suc.prems(2) obtain b2 where
    2: "set_parent_at b1 g parent = Inr b2" "pool_at (insert ?c W) (pin P ?c) (V(?c := setp (V ?c) parent)) S (L - 1) F b2"
      "holds b2 = holds b1" "pool_size b2 = pool_size b1" by auto
  define b3 where "b3 = unpin b2 ?c True"
  have W: "insert ?c W - {?c} = W" using c(3) by auto
  have 3: "pool_at W P (V(?c := setp (V ?c) parent)) S (L - 1) F b3" "holds b3 = holds b2" "pool_size b3 = pool_size b2"
    using unpin_pin [OF 2(2)] Suc.prems(2) unfolding b3_def W by auto
  have hr: "\<forall>g q. 0 < P q \<longrightarrow> holds b g q \<longrightarrow> holds b3 g q" using 1(5) 2(3) 3(2) by simp
  have ch: "\<forall>j < m. Internal_ValueAt n (i + 1 + j) \<in> S \<and> Internal_ValueAt n (i + 1 + j) \<noteq> r \<and>
      Internal_ValueAt n (i + 1 + j) \<notin> W \<and> (V(?c := setp (V ?c) parent)) (Internal_ValueAt n (i + 1 + j)) \<noteq> Raw"
    using Suc.prems(7) c(4) by (auto simp: less_Suc_eq_0_disj)
  have "(V(?c := setp (V ?c) parent)) r = InternalPage n" "m \<le> L - 1" "card {q. 0 < P q} < pool_size b3"
    using Suc.prems(6,8,9) c(2) 1(4) 2(4) 3(3) by auto
  from Suc.IH [OF 3(1) Suc.prems(2) _ Suc.prems(4,5) this(1) ch this(2,3)] hr Suc.prems(3,4) obtain b' where
    b': "adopt m (i + 1) f parent b3 = Inr b'" "pool_size b' = pool_size b3" "\<forall>g q. 0 < P q \<longrightarrow> holds b3 g q \<longrightarrow> holds b' g q"
    "pool_at W P (reparent parent (map (Internal_ValueAt n) [i + 1..<i + 1 + m]) (V(?c := setp (V ?c) parent))) S (L - 1 - m) F b'"
    by blast
  have "adopt (Suc m) i f parent b = Inr b'" using rd 1(1) 2(1) b'(1) by (simp add: as_internal_def Let_def b3_def)
  moreover have "map (Internal_ValueAt n) [i..<i + Suc m] = ?c # map (Internal_ValueAt n) [i + 1..<i + 1 + m]"
    by (simp add: upt_rec)
  ultimately show ?case
    using b' hr 1(4) 2(4) 3(3) by (intro exI [of _ b']) (simp add: reparent_Cons)
qed

subsection \<open>One round\<close>

lemma GetParent_setp: "GetParentPageId d = Inr p \<Longrightarrow> setp d p = d \<and> d \<noteq> Raw"
  by (cases d) (simp_all add: GetParentPageId_def setp_def)

text \<open>The first part of a round below the root: the right page is entered in the parent.\<close>

lemma split_round_at:
  assumes at: "pool_at {l, r} (pin (pin P l) r) V S L F b" and nn: "\<forall>q. 0 \<le> P q"
    and h: "holds b lf l" "holds b rf r" and ne: "l \<noteq> r" "p \<noteq> l" "p \<noteq> r" "p \<noteq> INVALID_PAGE_ID" and S: "l \<in> S" "r \<in> S" "p \<in> S"
    and V: "GetParentPageId (V l) = Inr p" "GetParentPageId (V r) = Inr p" "V p = InternalPage n"
    and ins: "Internal_InsertNodeAfter n l mid r = Inr (m, n')"
    and L: "0 < L" "card {q. 0 < P q} + 3 \<le> pool_size b"
  shows "\<exists>pf b3. pool_at {p} (pin P p) (V(p := InternalPage n')) S (L - 1) F b3 \<and> holds b3 pf p \<and> pool_size b3 = pool_size b \<and>
    split_round t (l, lf, r, rf, mid) b =
      (if ip_size n' \<le> ip_max n' then Inr (Inl t, unpin b3 p True)
       else rbind (split_parent t p pf b3) (\<lambda>(st, b'). Inr (Inr st, b')))"
proof -
  let ?P = "pin (pin P l) r"
  have pp: "0 < ?P l" "0 < ?P r" "\<forall>q. 0 \<le> pin P l q" "\<forall>q. 0 \<le> ?P q"
    using nn pin_pos by metis+
  have rl: "page_read b lf = V l" by (rule pool_at_read [OF at S(1) h(1)])
  have Vr: "V r \<noteq> Raw" "V(r := setp (V r) p) = V" using GetParent_setp [OF V(2)] by simp_all
  from set_parent_pin [OF at h(2) pp(2) S(2) Vr(1), of p] obtain b1 where
    1: "set_parent_at b rf p = Inr b1" "pool_at {l, r} ?P V S L F b1" "pool_size b1 = pool_size b"
    unfolding Vr(2) by (auto simp: insert_absorb)
  have "card {q. 0 < ?P q} < pool_size b1" using pin_card [OF nn, of l] pin_card [OF pp(3), of r] L(2) 1(3) by simp
  from fetch_pin [OF 1(2) S(3) L(1) this] obtain pf b2 where
    2: "fetch_page b1 p = Inr (pf, b2)" "pool_at {l, r} (pin ?P p) V S (L - 1) F b2" "holds b2 pf p" "pool_size b2 = pool_size b1" by blast
  have rp: "page_read b2 pf = InternalPage n" using pool_at_read [OF 2(2) S(3) 2(3)] V(3) by simp
  have "0 < pin ?P p p" using pp(4) by (simp add: pin_def)
  from write_pin [OF 2(2,3) this S(3), of "InternalPage n'"] have
    w: "pool_at {p, l, r} (pin (pin (pin P p) r) l) (V(p := InternalPage n')) S (L - 1) F (page_write b2 pf (InternalPage n'))"
      "holds (page_write b2 pf (InternalPage n')) = holds b2" "pool_size (page_write b2 pf (InternalPage n')) = pool_size b2"
    by (simp_all add: pin_commute [of _ l] pin_commute [of _ r p])
  define b3 where "b3 = unpin (unpin (page_write b2 pf (InternalPage n')) l True) r True"
  have "0 \<le> pin (pin P p) r l" "0 \<le> pin P p r" using nn by (simp_all add: pin_def)
  from unpin_pin [OF w(1) this(1)] have u1: "pool_at {p, r} (pin (pin P p) r) (V(p := InternalPage n')) S (L - 1) F (unpin (page_write b2 pf (InternalPage n')) l True)"
    "holds (unpin (page_write b2 pf (InternalPage n')) l True) = holds b2" "pool_size (unpin (page_write b2 pf (InternalPage n')) l True) = pool_size b2"
    using ne w(2,3) by (auto simp: insert_Diff_if)
  from unpin_pin [OF u1(1) \<open>0 \<le> pin P p r\<close>] have u2: "pool_at {p} (pin P p) (V(p := InternalPage n')) S (L - 1) F b3"
    "holds b3 pf p" "pool_size b3 = pool_size b"
    using ne u1(2,3) 2(3,4) 1(3) unfolding b3_def by (auto simp: insert_Diff_if)
  have "split_round t (l, lf, r, rf, mid) b =
      (if ip_size n' \<le> ip_max n' then Inr (Inl t, unpin b3 p True)
       else rbind (split_parent t p pf b3) (\<lambda>(st, b'). Inr (Inr st, b')))"
    using rl V(1) ne(4) 1(1) 2(1) rp ins by (simp add: split_round_def as_internal_def b3_def Let_def)
  then show ?thesis using u2 by blast
qed

text \<open>The second part when the parent overflows: it is split in turn.\<close>

lemma split_parent_at:
  assumes at: "pool_at {p} (pin P p) V S L F b" and nn: "\<forall>q. 0 \<le> P q" and h: "holds b pf p" and S: "p \<in> S"
    and V: "V p = InternalPage n" and n: "ip_size n \<le> INTERNAL_CAPACITY"
    and c: "\<forall>i < ip_size n. Internal_ValueAt n i \<in> S \<and> Internal_ValueAt n i \<noteq> p \<and> V (Internal_ValueAt n i) \<noteq> Raw"
    and L: "ip_size n + 1 \<le> L" "card {q. 0 < P q} + 3 \<le> pool_size b"
  shows "\<exists>rf b' n1 n2. split_parent t p pf b = Inr ((p, pf, F, rf, Internal_KeyAt n (ip_size n div 2)), b') \<and>
    internal_list n1 = take (ip_size n div 2) (internal_list n) \<and> internal_list n2 = drop (ip_size n div 2) (internal_list n) \<and>
    ip_max n1 = ip_max n \<and> ip_parent n1 = ip_parent n \<and> ip_max n2 = internal_max_size t \<and> ip_parent n2 = ip_parent n \<and>
    pool_at {p, F} (pin (pin P p) F) (reparent F (map snd (internal_list n2)) (V(p := InternalPage n1, F := InternalPage n2)))
      (insert F S) (L - ip_size n - 1) (F + 1) b' \<and>
    holds b' pf p \<and> holds b' rf F \<and> F \<notin> S \<and> 0 \<le> F \<and> pool_size b' = pool_size b"
proof -
  have pp: "0 < pin P p p" "\<forall>q. 0 \<le> pin P p q" using nn by (auto simp: pin_def)
  have "0 < L" "card {q. 0 < pin P p q} < pool_size b" using L pin_card [OF nn, of p] by simp_all
  from create_pin [OF at this] obtain rf b1 where 1: "create_page b = Inr ((F, rf), b1)"
    "pool_at (insert F {p}) (pin (pin P p) F) (V(F := 0)) (insert F S) (L - 1) (F + 1) b1" "holds b1 rf F" "F \<notin> S" "0 \<le> F"
    "pool_size b1 = pool_size b" "\<forall>g q. 0 < pin P p q \<longrightarrow> holds b g q \<longrightarrow> holds b1 g q" by blast
  have Fp: "F \<noteq> p" using 1(4) S by auto
  let ?P = "pin (pin P p) F"
  have P2: "0 < ?P p" "0 < ?P F" "\<forall>q. 0 \<le> ?P q"
    using nn pin_pos by metis+
  have hp: "holds b1 pf p" using 1(7) pp(1) h by blast
  have rp: "page_read b1 pf = InternalPage n" using pool_at_read [OF 1(2) _ hp] S Fp V by simp
  let ?new = "(Internal_Init (internal_max_size t))\<lparr>ip_parent := ip_parent n\<rparr>"
  let ?mid = "Internal_KeyAt n (ip_size n div 2)"
  have "ip_size ?new = 0" by (simp add: Internal_Init_def)
  from internal_move_half [OF n this, of ?mid] obtain n1 n2 where m: "Internal_MoveHalfTo n ?new ?mid = Inr (n1, n2)"
    "internal_list n1 = take (ip_size n div 2) (internal_list n)" "internal_list n2 = drop (ip_size n div 2) (internal_list n)"
    "ip_max n1 = ip_max n" "ip_parent n1 = ip_parent n" "ip_max n2 = ip_max ?new" "ip_parent n2 = ip_parent ?new" by blast
  define b2 where "b2 = page_write (page_write b1 pf (InternalPage n1)) rf (InternalPage n2)"
  let ?V = "V(p := InternalPage n1, F := InternalPage n2)"
  have w1: "pool_at {p, F} ?P (V(F := 0, p := InternalPage n1)) (insert F S) (L - 1) (F + 1) (page_write b1 pf (InternalPage n1))"
    "holds (page_write b1 pf (InternalPage n1)) = holds b1" "pool_size (page_write b1 pf (InternalPage n1)) = pool_size b1"
    using write_pin [OF 1(2) hp P2(1)] S by (auto simp: insert_commute)
  have "V(F := 0, p := InternalPage n1, F := InternalPage n2) = ?V" using Fp by (auto simp: fun_eq_iff)
  then have 2: "pool_at {p, F} ?P ?V (insert F S) (L - 1) (F + 1) b2" "holds b2 = holds b1" "pool_size b2 = pool_size b1"
    using write_pin [OF w1(1) _ P2(2), of rf "InternalPage n2"] w1(2,3) 1(3) by (auto simp: b2_def insert_commute)
  have len: "ip_size n2 = ip_size n - ip_size n div 2" using arg_cong [OF m(3), of length] by simp
  have "Internal_ValueAt n2 j = Internal_ValueAt n (ip_size n div 2 + j)" if "j < ip_size n2" for j
    using that m(3) len internal_list_nth [of j n2] internal_list_nth [of "ip_size n div 2 + j" n] by simp
  then have ch: "\<forall>j < ip_size n2. Internal_ValueAt n2 (0 + j) \<in> insert F S \<and> Internal_ValueAt n2 (0 + j) \<noteq> F \<and>
      Internal_ValueAt n2 (0 + j) \<notin> {p, F} \<and> ?V (Internal_ValueAt n2 (0 + j)) \<noteq> Raw"
    using c len 1(4) by auto
  have "card {q. 0 < ?P q} < pool_size b2" using pin_card [OF nn, of p] pin_card [OF pp(2), of F] L(2) 1(6) 2(3) by simp
  note cd = this
  have f: "holds b2 rf F" "F \<in> insert F S" "?V F = InternalPage n2" "ip_size n2 \<le> L - 1" using 1(3) 2(2) L(1) len by simp_all
  from adopt_at [OF 2(1) P2(3) f(1) P2(2) f(2,3) ch f(4) cd, of F] obtain b3 where
    a: "adopt (ip_size n2) 0 rf F b2 = Inr b3"
    "pool_at {p, F} ?P (reparent F (map (Internal_ValueAt n2) [0..<0 + ip_size n2]) ?V) (insert F S) (L - 1 - ip_size n2) (F + 1) b3"
    "pool_size b3 = pool_size b2" "\<forall>g q. 0 < ?P q \<longrightarrow> holds b2 g q \<longrightarrow> holds b3 g q"
    by blast
  have "map (Internal_ValueAt n2) [0..<0 + ip_size n2] = map snd (internal_list n2)"
    by (rule nth_equalityI) (simp_all add: internal_list_nth)
  then have at3: "pool_at {p, F} ?P (reparent F (map snd (internal_list n2)) ?V) (insert F S) (L - ip_size n - 1) (F + 1) b3"
    using a(2) len by (auto simp: pool_at_def)
  have h3: "holds b3 pf p" "holds b3 rf F" using a(4) P2 2(2) hp 1(3) by auto
  have "split_parent t p pf b = Inr ((p, pf, F, rf, ?mid), b3)"
    using 1(1) rp m(1) a(1) by (simp add: split_parent_def as_internal_def b2_def Let_def)
  then show ?thesis using m(2-7) at3 h3 1(4-6) a(3) 2(3)
    by - (rule exI [of _ rf], rule exI [of _ b3], rule exI [of _ n1], rule exI [of _ n2], simp add: Internal_Init_def)
qed

section \<open>Climbing to the root\<close>

lemma rep_reparent:
  assumes "rep lm im V q c" "distinct (ids c)" "V' (tid c) = setp (V (tid c)) p" "\<forall>r \<in> set (ids c) - {tid c}. V' r = V r"
  shows "rep lm im V' p c"
proof (cases c)
  case (Lf r es)
  then obtain l where "V r = LeafPage l" "leaf_list l = es" "lp_max l = lm" using assms(1) by auto
  then show ?thesis using assms(3) Lf by (auto simp: setp_def leaf_list_def)
next
  case (Nd r t kts)
  then obtain n k where n: "V r = InternalPage n" "internal_list n = (k, tid t) # map (\<lambda>e. (fst e, tid (snd e))) kts"
    "ip_max n = im" using assms(1) by auto
  have d: "r \<notin> set (ids t)" "\<forall>e \<in> set kts. r \<notin> set (ids (snd e))" using assms(2) Nd by auto
  have "rep lm im V r t" "\<forall>e \<in> set kts. rep lm im V r (snd e)" using assms(1) Nd by auto
  moreover have "\<And>q. q \<in> set (ids t) \<Longrightarrow> V' q = V q" "\<And>e q. e \<in> set kts \<Longrightarrow> q \<in> set (ids (snd e)) \<Longrightarrow> V' q = V q"
    using assms(4) d Nd by (auto simp: set_eq_iff)
  ultimately have "rep lm im V' r t" "\<forall>e \<in> set kts. rep lm im V' r (snd e)"
    using rep_cong [of lm im V r _ V'] by blast+
  moreover have "internal_list (n\<lparr>ip_parent := p\<rparr>) = internal_list n" by (simp add: internal_list_def)
  ultimately show ?thesis using n assms(3) Nd by (auto simp: setp_def)
qed

lemma rep_node:
  assumes "cs \<noteq> []" "V p = InternalPage n" "map (\<lambda>x. snd x) (internal_list n) = map (\<lambda>e. tid (snd e)) cs"
    "tl (map fst (internal_list n)) = tl (map fst cs)" "ip_parent n = par" "ip_max n = im" "\<forall>e \<in> set cs. rep lm im V p (snd e)"
  shows "rep lm im V par (node p cs)"
proof -
  obtain k t kts where cs: "cs = (k, t) # kts" using assms(1) by (cases cs) auto
  then obtain x xs where x: "internal_list n = x # xs" "snd x = tid t" "map (\<lambda>x. snd x) xs = map (\<lambda>e. tid (snd e)) kts" "map fst xs = map fst kts"
    using assms(3,4) by (cases "internal_list n") auto
  have "xs = map (\<lambda>e. (fst e, tid (snd e))) kts"
    using x(3,4) by (intro nth_equalityI) (auto simp: list_eq_iff_nth_eq prod_eq_iff)
  then have "internal_list n = (fst x, tid t) # map (\<lambda>e. (fst e, tid (snd e))) kts" using x(1,2) by (metis prod.collapse)
  then show ?thesis using assms(2,5-7) cs by (auto simp: node_def)
qed

text \<open>A node over grown children, rebuilt with the pages \<open>V''\<close> into one or two trees.\<close>

lemma grown_up:
  assumes cs': "cs' \<noteq> []" and m: "map_of (ccontents cs') = (map_of (contents T))(key \<mapsto> val)"
    and d: "distinct (p # cids cs')" "set (p # cids cs') \<subseteq> set (ids T) \<union> (S' - S)" and S: "S \<subseteq> S'" "S' \<subseteq> S''"
    and fr: "\<forall>q \<in> S - set (ids T). V'' q = V q" and hd: "hd (map fst (clnodes cs')) = hd (leaf_ids T)"
    and ch: "\<forall>z. chain V (leaf_ids T) z \<longrightarrow> chain V' (map fst (clnodes cs')) z"
    and nx: "\<forall>q \<in> set (cids cs'). next_of (V'' q) = next_of (V' q)"
    and ds: "ds \<noteq> []" "clnodes ds = clnodes cs'" "ordered_list lo hi ds" "\<forall>e \<in> set ds. rep lm im V'' par (snd e) \<and> sized lm im (snd e)"
      "distinct (cids ds)" "set (cids ds) \<subseteq> set (p # cids cs') \<union> (S'' - S')"
  shows "grown lm im V S V'' S'' par lo hi key val T ds"
proof -
  have "ccontents ds = ccontents cs'" using ds(2) contents_clnodes by metis
  moreover have "set (cids ds) \<subseteq> set (ids T) \<union> (S'' - S)" using ds(6) d(2) S by blast
  moreover have "map fst (clnodes ds) \<noteq> []" using ds(1) by (cases ds) auto
  moreover have "chain V'' (map fst (clnodes cs')) z" if "chain V (leaf_ids T) z" for z
  proof (rule chain_cong)
    show "chain V' (map fst (clnodes cs')) z" using ch that by blast
    fix q assume "q \<in> set (map fst (clnodes cs'))"
    then obtain e where "e \<in> set cs'" "q \<in> set (leaf_ids (snd e))" by auto
    then have "q \<in> set (cids cs')" using lnodes_ids [of "snd e"] by auto
    then show "next_of (V'' q) = next_of (V' q)" using nx by blast
  qed
  ultimately show ?thesis using assms unfolding grown_def by auto
qed

text \<open>The child for a key, as \<open>hole\<close> finds it.\<close>

definition place :: "int option \<Rightarrow> int option \<Rightarrow> int \<Rightarrow> (int \<times> btree) list \<Rightarrow> (int \<times> btree) list \<Rightarrow> int \<Rightarrow> btree \<Rightarrow>
    (int \<times> btree) list \<Rightarrow> int option \<Rightarrow> int option \<Rightarrow> bool" where
  "place lo hi key cs xs k c ys lo' hi' \<longleftrightarrow> cs = xs @ (k, c) # ys \<and> ordered lo' hi' c \<and> at_least lo' key \<and> below hi' key \<and>
     (\<forall>e \<in> set (ccontents xs). fst e < key) \<and>
     (\<forall>l rest. ordered_list lo' hi' ((k, l) # rest) \<longrightarrow> ordered_list lo hi (xs @ ((k, l) # rest) @ ys))"

definition in_place :: "nat \<Rightarrow> nat \<Rightarrow> (page_id \<Rightarrow> bpt_data) \<Rightarrow> page_id set \<Rightarrow> page_id \<Rightarrow> btree \<Rightarrow> bool" where
  "in_place lm im V S par T \<longleftrightarrow> rep lm im V par T \<and> sized lm im T \<and> distinct (ids T) \<and> set (ids T) \<subseteq> S"

lemma in_place_child: "in_place lm im V S par (Nd p t kts) \<Longrightarrow> c \<in> set (children t kts) \<Longrightarrow> in_place lm im V S p c"
  unfolding in_place_def by (auto simp: distinct_concat_iff)

lemma in_place_node:
  assumes "in_place lm im V S par (Nd p t kts)" "cs = (k, t) # kts"
  shows "\<forall>e \<in> set cs. rep lm im V p (snd e) \<and> sized lm im (snd e)" "distinct (p # cids cs)" "set (p # cids cs) \<subseteq> S"
    "ids (Nd p t kts) = p # cids cs" "contents (Nd p t kts) = ccontents cs" "lnodes (Nd p t kts) = clnodes cs" "length cs \<le> im"
  using assms by (auto simp: in_place_def)

lemma climb_keep:
  assumes T: "in_place lm im V S par (Nd p t kts)" and pl: "place lo hi key ((k0, t) # kts) xs k c ys lo' hi'"
    and g: "grown lm im V S V' S' p lo' hi' key val c [(k, c')]" and id: "tid c' = tid c"
  shows "\<exists>T'. grown lm im V S V' S' par lo hi key val (Nd p t kts) [(j, T')] \<and> tid T' = p"
proof -
  define cs where "cs = (k0, t) # kts"
  define cs' where "cs' = xs @ [(k, c')] @ ys"
  note n = in_place_node [OF T cs_def]
  have cs: "cs = xs @ (k, c) # ys" using pl by (simp add: place_def cs_def)
  have c: "\<forall>e \<in> set (ccontents xs). fst e < key"
    "\<forall>l rest. ordered_list lo' hi' ((k, l) # rest) \<longrightarrow> ordered_list lo hi (xs @ ((k, l) # rest) @ ys)"
    using pl by (simp_all add: place_def)
  note gc = grown_children [OF g cs n(1-3) c cs'_def]
  have ne: "cs' \<noteq> []" by (simp add: cs'_def)
  have S: "S \<subseteq> S'" using g by (simp add: grown_def)
  obtain m k1 where m: "V p = InternalPage m" "internal_list m = (k1, tid t) # map (\<lambda>e. (fst e, tid (snd e))) kts"
    "ip_parent m = par" "ip_max m = im" using T by (auto simp: in_place_def)
  have "map (\<lambda>x. snd x) (internal_list m) = map (\<lambda>e. tid (snd e)) cs" "tl (map fst (internal_list m)) = tl (map fst cs)"
    by (simp_all add: m(2) cs_def comp_def)
  then have "map (\<lambda>x. snd x) (internal_list m) = map (\<lambda>e. tid (snd e)) cs'" "tl (map fst (internal_list m)) = tl (map fst cs')"
    unfolding cs cs'_def using id by (cases xs; simp)+
  then have r: "rep lm im V' par (node p cs')"
    using rep_node [OF ne, of V' p m par im lm] m gc(1,7) by simp
  have "length cs' \<le> im" using n(7) cs by (simp add: cs'_def)
  then have s: "sized lm im (node p cs')" using gc(1) unfolding node_simps [OF ne] by blast
  have "grown lm im V S V' S' par lo hi key val (Nd p t kts) [(j, node p cs')]"
    by (rule grown_up [OF ne, of _ key val p S' S S'])
      (use gc n S r s node_simps [OF ne] in \<open>auto simp: ordered_list_def\<close>)
  then show ?thesis using node_simps(4) [OF ne] by blast
qed

definition outcome :: "bptree \<Rightarrow> nat \<Rightarrow> nat \<Rightarrow> (page_id \<Rightarrow> bpt_data) \<Rightarrow> page_id set \<Rightarrow> (page_id \<Rightarrow> int) \<Rightarrow> nat \<Rightarrow> nat \<Rightarrow>
    page_id \<Rightarrow> int option \<Rightarrow> int option \<Rightarrow> int \<Rightarrow> rid \<Rightarrow> btree \<Rightarrow> (bptree \<times> bpt_pool) res option \<Rightarrow> bool" where
  "outcome t lm im V S P N A par lo hi key val T run \<longleftrightarrow>
     (\<exists>b' T' V' S' L' F'. run = Some (Inr (t, b')) \<and> pool_at {} P V' S' L' F' b' \<and> pool_size b' = N \<and>
        grown lm im V S V' S' par lo hi key val T [(0, T')] \<and> tid T' = tid T) \<or>
     (\<exists>b' l m r lf rf V' S' L' F'. run = rounds (split_round t) (tid l, lf, tid r, rf, m) b' \<and>
        pool_at {tid l, tid r} (pin (pin P (tid l)) (tid r)) V' S' L' F' b' \<and> holds b' lf (tid l) \<and> holds b' rf (tid r) \<and>
        pool_size b' = N \<and> grown lm im V S V' S' par lo hi key val T [(0, l), (m, r)] \<and> tid l = tid T \<and> A \<le> L' + levels T * (im + 4))"

lemma tids_distinct: "distinct (cids cs) \<Longrightarrow> distinct (map (\<lambda>e. tid (snd e)) cs)"
proof (induction cs)
  case (Cons a cs)
  have "tid (snd a) \<notin> (\<lambda>e. tid (snd e)) ` set cs"
  proof
    assume "tid (snd a) \<in> (\<lambda>e. tid (snd e)) ` set cs"
    then obtain e where "e \<in> set cs" "tid (snd a) = tid (snd e)" by auto
    then have "tid (snd a) \<in> set (cids cs)" by (auto intro!: bexI [of _ e])
    then show False using Cons.prems tid_in_ids [of "snd a"] by (auto simp del: tid_in_ids)
  qed
  then show ?case using Cons by simp
qed simp

lemma rep_parent: "rep lm im V par T \<Longrightarrow> GetParentPageId (V (tid T)) = Inr par"
  by (cases T) (auto simp: GetParentPageId_def)

lemma insert_child:
  assumes n: "map snd (internal_list n) = map (\<lambda>e. tid (snd e)) (xs @ (k, c) # ys)"
    "tl (map fst (internal_list n)) = tl (map fst (xs @ (k, c) # ys))"
    and d: "distinct (cids (xs @ (k, c) # ys))" and cap: "length (xs @ (k, c) # ys) < INTERNAL_CAPACITY" and l: "tid l = tid c"
  shows "\<exists>n'. Internal_InsertNodeAfter n (tid l) m (tid r) = Inr (ip_size n + 1, n') \<and>
    map snd (internal_list n') = map (\<lambda>e. tid (snd e)) (xs @ [(k, l), (m, r)] @ ys) \<and>
    tl (map fst (internal_list n')) = tl (map fst (xs @ [(k, l), (m, r)] @ ys)) \<and>
    ip_size n' = ip_size n + 1 \<and> ip_max n' = ip_max n \<and> ip_parent n' = ip_parent n"
proof -
  let ?cs = "xs @ (k, c) # ys" let ?i = "length xs"
  have len: "ip_size n = length ?cs" using arg_cong [OF n(1), of length] by simp
  have "distinct (map snd (internal_list n))" unfolding n(1) by (rule tids_distinct [OF d])
  moreover have i: "?i < ip_size n" using len by simp
  moreover have "ip_size n < INTERNAL_CAPACITY" using len cap by simp
  ultimately obtain n' where n': "Internal_InsertNodeAfter n (Internal_ValueAt n ?i) m (tid r) = Inr (ip_size n + 1, n')"
    "internal_list n' = take (?i + 1) (internal_list n) @ (m, tid r) # drop (?i + 1) (internal_list n)"
    "ip_size n' = ip_size n + 1" "ip_max n' = ip_max n" "ip_parent n' = ip_parent n"
    by (rule internal_insert) blast
  have "Internal_ValueAt n ?i = map snd (internal_list n) ! ?i" using i by (simp add: internal_list_nth)
  then have "Internal_ValueAt n ?i = tid l" using l by (simp add: n(1) nth_append)
  moreover have "map snd (internal_list n') = map (\<lambda>e. tid (snd e)) (xs @ [(k, l), (m, r)] @ ys)"
    using l by (simp add: n'(2) take_map [symmetric] drop_map [symmetric] n(1))
  moreover have "tl (map fst (internal_list n')) = tl (map fst (xs @ [(k, l), (m, r)] @ ys))"
  proof -
    obtain a as where a: "map fst (internal_list n) = a # as" using i by (cases "internal_list n") (auto simp flip: length_internal_list)
    obtain b bs where b: "map fst ?cs = b # bs" by (cases xs) auto
    have "as = bs" using n(2) a b by simp
    moreover have "map fst (internal_list n') = take (?i + 1) (a # as) @ m # drop (?i + 1) (a # as)"
      by (simp add: n'(2) take_map [symmetric] drop_map [symmetric] a)
    moreover have "map fst (xs @ [(k, l), (m, r)] @ ys) = take (?i + 1) (b # bs) @ m # drop (?i + 1) (b # bs)"
      by (simp add: b [symmetric] take_map drop_map)
    ultimately show ?thesis by simp
  qed
  ultimately show ?thesis using n' by auto
qed

lemma grown_key: "grown lm im V S V' S' par lo hi key val T ((k, l) # rest) \<longleftrightarrow> grown lm im V S V' S' par lo hi key val T ((k', l) # rest)"
  by (simp add: grown_def ordered_list_def)

lemma levels_child: "c \<in> set (children t kts) \<Longrightarrow> levels c * d + d \<le> levels (Nd p t kts) * (d :: nat)"
  using child_levels [of c t kts p] mult_le_mono1 [of "Suc (levels c)" "levels (Nd p t kts)" d] by simp

text \<open>A node whose child has grown into two trees, when the parent page has room.\<close>

lemma split_fits:
  assumes T: "in_place lm im V S par (Nd p t0 kts)" and cs: "(0, t0) # kts = xs @ (k, c) # ys"
    and cs': "cs' = xs @ [(k, l), (m, r)] @ ys" and len: "length cs' \<le> im"
    and gc: "\<forall>e \<in> set cs'. rep lm im V' p (snd e) \<and> sized lm im (snd e)" "ordered_list lo hi cs'"
      "map_of (ccontents cs') = (map_of (contents (Nd p t0 kts)))(key \<mapsto> val)" "distinct (p # cids cs')"
      "set (p # cids cs') \<subseteq> set (ids (Nd p t0 kts)) \<union> (S' - S)" "\<forall>q \<in> S - set (ids (Nd p t0 kts)). V' q = V q"
      "hd (map fst (clnodes cs')) = hd (leaf_ids (Nd p t0 kts))"
      "\<forall>z. chain V (leaf_ids (Nd p t0 kts)) z \<longrightarrow> chain V' (map fst (clnodes cs')) z" "S \<subseteq> S'"
    and n': "map snd (internal_list n') = map (\<lambda>e. tid (snd e)) cs'" "tl (map fst (internal_list n')) = tl (map fst cs')"
      "ip_max n' = im" "ip_parent n' = par"
  shows "grown lm im V S (V'(p := InternalPage n')) S' par lo hi key val (Nd p t0 kts) [(0, node p cs')]"
proof -
  let ?V = "V'(p := InternalPage n')"
  have ne: "cs' \<noteq> []" by (simp add: cs')
  have "rep lm im ?V p (snd e)" if "e \<in> set cs'" for e
    by (rule rep_cong [of lm im V']) (use gc(1,4) that in auto)
  then have r: "rep lm im ?V par (node p cs')" using rep_node [OF ne, of ?V p n' par im lm] n' by simp
  have s: "sized lm im (node p cs')" using gc(1) len unfolding node_simps [OF ne] by blast
  show ?thesis
    by (rule grown_up [OF ne gc(3,4,5) gc(9) subset_refl _ gc(7,8)])
      (use gc(2,4,6) r s node_simps [OF ne] in \<open>auto simp: ordered_list_def\<close>)
qed

text \<open>The same when the parent overflows: it becomes two nodes around its middle key.\<close>

lemma split_splits:
  assumes T: "in_place lm im V S par (Nd p t0 kts)" and cs: "(0, t0) # kts = xs @ (k, c) # ys"
    and cs': "cs' = xs @ [(k, l), (m, r)] @ ys" and len: "length cs' = im + 1"
    and gc: "\<forall>e \<in> set cs'. rep lm im V' p (snd e) \<and> sized lm im (snd e)" "ordered_list lo hi cs'"
      "map_of (ccontents cs') = (map_of (contents (Nd p t0 kts)))(key \<mapsto> val)" "distinct (p # cids cs')"
      "set (p # cids cs') \<subseteq> set (ids (Nd p t0 kts)) \<union> (S' - S)" "\<forall>q \<in> S - set (ids (Nd p t0 kts)). V' q = V q"
      "hd (map fst (clnodes cs')) = hd (leaf_ids (Nd p t0 kts))"
      "\<forall>z. chain V (leaf_ids (Nd p t0 kts)) z \<longrightarrow> chain V' (map fst (clnodes cs')) z" "S \<subseteq> S'"
    and F: "F \<notin> S'" and h: "h = length cs' div 2"
    and n1: "map snd (internal_list n1) = map (\<lambda>e. tid (snd e)) (take h cs')" "tl (map fst (internal_list n1)) = tl (map fst (take h cs'))"
      "ip_max n1 = im" "ip_parent n1 = par"
    and n2: "map snd (internal_list n2) = map (\<lambda>e. tid (snd e)) (drop h cs')" "tl (map fst (internal_list n2)) = tl (map fst (drop h cs'))"
      "ip_max n2 = im" "ip_parent n2 = par"
    and V'': "V'' = reparent F (map snd (internal_list n2)) (V'(p := InternalPage n1, F := InternalPage n2))"
  shows "grown lm im V S V'' (insert F S') par lo hi key val (Nd p t0 kts) [(0, node p (take h cs')), (fst (cs' ! h), node F (drop h cs'))]"
proof -
  let ?l = "take h cs'" and ?r = "drop h cs'"
  have ge: "2 \<le> length cs'" by (simp add: cs')
  then have hs: "0 < h" "h < length cs'" by (auto simp: h)
  have ne: "cs' \<noteq> []" "?l \<noteq> []" "?r \<noteq> []" using hs ge by auto
  have split: "cs' = ?l @ ?r" "?r = (fst (cs' ! h), snd (cs' ! h)) # drop (Suc h) cs'"
    using hs by (simp_all add: Cons_nth_drop_Suc)
  have p: "p \<in> S'" "p \<noteq> F" using gc(9) T F by (auto simp: in_place_def)
  have "set (ids (Nd p t0 kts)) \<subseteq> S" using T by (simp only: in_place_def)
  then have ids: "set (cids cs') \<subseteq> S'" using gc(5,9) by (simp only: list.set) blast
  then have Fn: "F \<notin> set (cids cs')" using F by blast
  have cid: "set (cids cs') = set (cids ?l) \<union> set (cids ?r)" "set (cids ?l) \<inter> set (cids ?r) = {}" "distinct (cids ?l)" "distinct (cids ?r)"
    using gc(4) split(1) by (metis concat_append map_append set_append, metis concat_append map_append distinct_append distinct.simps(2),
      metis concat_append map_append distinct_append distinct.simps(2), metis concat_append map_append distinct_append distinct.simps(2))
  have tids: "tid (snd e) \<in> set (cids ?r)" if "e \<in> set ?r" for e using that by (auto intro!: bexI [of _ e])
  have Vl: "V'' q = V' q" if "q \<in> set (cids ?l)" for q
    using that cid(1,2) gc(4) Fn tids by (auto simp: V'' reparent_def n2(1))
  have Vp: "V'' p = InternalPage n1" "V'' F = InternalPage n2"
    using gc(4) Fn p(2) cid(1) tids by (auto simp: V'' reparent_def n2(1))
  have "rep lm im V'' p (snd e)" if "e \<in> set ?l" for e
  proof (rule rep_cong [of lm im V'])
    show "rep lm im V' p (snd e)" using gc(1) that by (meson in_set_takeD)
    show "q \<in> set (ids (snd e)) \<Longrightarrow> V'' q = V' q" for q using Vl that by auto
  qed
  then have rl: "rep lm im V'' par (node p ?l)" by (intro rep_node [of ?l V'' p n1 par im lm] ne(2) Vp(1) n1) blast
  have "rep lm im V'' F (snd e)" if e: "e \<in> set ?r" for e
  proof (rule rep_reparent [of lm im V' p])
    show "rep lm im V' p (snd e)" using gc(1) e by (meson in_set_dropD)
    show "distinct (ids (snd e))" using cid(4) e by (auto simp: distinct_concat_iff)
    have out: "q \<noteq> p \<and> q \<noteq> F" if "q \<in> set (ids (snd e))" for q
      using that e gc(4) Fn cid(1) by auto
    show "V'' (tid (snd e)) = setp (V' (tid (snd e))) F"
      using out [of "tid (snd e)"] e by (auto simp: V'' reparent_def n2(1))
    have "q \<noteq> tid (snd e')" if q: "q \<in> set (ids (snd e)) - {tid (snd e)}" and e': "e' \<in> set ?r" for q e'
    proof
      assume "q = tid (snd e')"
      then have "q \<in> set (ids (snd e'))" by simp
      then have "ids (snd e') = ids (snd e)"
        using cid(4) q e e' by (auto simp: distinct_concat_iff)
      then show False using q \<open>q = tid (snd e')\<close> by (cases "snd e"; cases "snd e'") auto
    qed
    then show "\<forall>q \<in> set (ids (snd e)) - {tid (snd e)}. V'' q = V' q" using out by (auto simp: V'' reparent_def n2(1))
  qed
  then have rr: "rep lm im V'' par (node F ?r)" by (intro rep_node [of ?r V'' F n2 par im lm] ne(3) Vp(2) n2) blast
  have "length ?l \<le> im" "length ?r \<le> im" using len hs by (auto simp: h)
  moreover have "\<forall>e \<in> set ?l \<union> set ?r. sized lm im (snd e)" using gc(1) by (meson Un_iff in_set_dropD in_set_takeD)
  ultimately have sz: "sized lm im (node p ?l)" "sized lm im (node F ?r)" unfolding node_simps [OF ne(2)] node_simps [OF ne(3)] by blast+
  have "ordered_list lo hi (?l @ (fst (cs' ! h), snd (cs' ! h)) # drop (Suc h) cs')" using gc(2) split by metis
  note iffD1 [OF ordered_list_append [OF ne(2)] this, folded split(2)]
  then have o: "ordered_list lo hi [(0, node p ?l), (fst (cs' ! h), node F ?r)]"
    using node_simps(5) [OF ne(2)] node_simps(5) [OF ne(3)] by (simp add: ordered_list_def [of lo hi "[_, _]"])
  have nx: "\<forall>q \<in> set (cids cs'). next_of (V'' q) = next_of (V' q)"
    using gc(4) Fn by (auto simp: V'' reparent_def)
  have fr: "\<forall>q \<in> S - set (ids (Nd p t0 kts)). V'' q = V q"
  proof
    fix q assume q: "q \<in> S - set (ids (Nd p t0 kts))"
    then have "q \<noteq> p" "q \<noteq> F" "q \<notin> set (cids cs')" using gc(5,9) F by auto
    then show "V'' q = V q" using q gc(6) cid(1) tids by (auto simp: V'' reparent_def n2(1))
  qed
  have "clnodes ?l @ clnodes ?r = clnodes cs'" by (metis concat_append map_append append_take_drop_id)
  note cl = this
  show ?thesis
    by (rule grown_up [OF ne(1) gc(3,4,5) gc(9) _ fr gc(7,8) nx])
      (use cl rl rr sz o cid gc(4) Fn F p node_simps [OF ne(2)] node_simps [OF ne(3)] split(1) in auto)
qed

text \<open>A round of the code at a node whose child has grown into two trees.\<close>

lemma drop_by_tl: "0 < h \<Longrightarrow> drop h zs = drop (h - 1) (tl zs)"
  by (cases h) (simp_all add: drop_Suc)

lemma climb_split:
  assumes T: "in_place lm im V S par (Nd p t0 kts)" and pl: "place lo hi key ((0, t0) # kts) xs k c ys lo' hi'"
    and im: "im < INTERNAL_CAPACITY" "internal_max_size t = im"
    and g: "grown lm im V S V' S' p lo' hi' key val c [(k, l), (m, r)]" and id: "tid l = tid c"
    and at: "pool_at {tid l, tid r} (pin (pin P (tid l)) (tid r)) V' S' L' F' b'" and nn: "\<forall>q. 0 \<le> P q"
    and hold: "holds b' lf (tid l)" "holds b' rf (tid r)" and room: "card {q. 0 < P q} + 3 \<le> pool_size b'" "pool_size b' = N"
    and L: "im + 4 \<le> L'" "A \<le> L' + levels c * (im + 4)"
  shows "outcome t lm im V S P N A par lo hi key val (Nd p t0 kts) (rounds (split_round t) (tid l, lf, tid r, rf, m) b')"
proof -
  define cs where "cs = (0, t0) # kts"
  define cs' where "cs' = xs @ [(k, l), (m, r)] @ ys"
  note n = in_place_node [OF T cs_def]
  have cs: "cs = xs @ (k, c) # ys" using pl by (simp add: place_def cs_def)
  have c: "\<forall>e \<in> set (ccontents xs). fst e < key"
    "\<forall>l rest. ordered_list lo' hi' ((k, l) # rest) \<longrightarrow> ordered_list lo hi (xs @ ((k, l) # rest) @ ys)"
    using pl by (simp_all add: place_def)
  have new: "cs' = xs @ ((k, l) # [(m, r)]) @ ys" by (simp add: cs'_def)
  note gc = grown_children [OF g cs n(1-3) c new]
  have S: "S \<subseteq> S'" using g by (simp add: grown_def)
  have p: "p \<in> S" using n(3) by simp
  obtain nd k1 where nd: "V p = InternalPage nd" "internal_list nd = (k1, tid t0) # map (\<lambda>e. (fst e, tid (snd e))) kts"
    "ip_parent nd = par" "ip_max nd = im" using T by (auto simp: in_place_def)
  have lst: "map snd (internal_list nd) = map (\<lambda>e. tid (snd e)) (xs @ (k, c) # ys)" "tl (map fst (internal_list nd)) = tl (map fst (xs @ (k, c) # ys))"
    unfolding cs [symmetric] by (simp_all add: nd(2) cs_def comp_def)
  have "distinct (cids (xs @ (k, c) # ys))" "length (xs @ (k, c) # ys) < INTERNAL_CAPACITY"
    using n(2,7) im(1) unfolding cs [symmetric] by simp_all
  from insert_child [OF lst this id, of m r] obtain n' where n': "Internal_InsertNodeAfter nd (tid l) m (tid r) = Inr (ip_size nd + 1, n')"
    "map snd (internal_list n') = map (\<lambda>e. tid (snd e)) cs'" "tl (map fst (internal_list n')) = tl (map fst cs')"
    "ip_max n' = im" "ip_parent n' = par" unfolding cs'_def using nd(3,4) by blast
  have sz: "ip_size n' = length cs'" using arg_cong [OF n'(2), of length] by simp
  have lr: "tid l \<in> set (cids cs')" "tid r \<in> set (cids cs')" "tid l \<noteq> tid r"
    using gc(4) tid_in_ids [of l] tid_in_ids [of r] by (auto simp: cs'_def simp del: tid_in_ids)
  have sub: "set (cids cs') \<subseteq> S'" using gc(5) n(3) S by auto
  have ne: "p \<noteq> tid l" "p \<noteq> tid r" using gc(4) lr by auto
  have pS: "tid l \<in> S'" "tid r \<in> S'" "p \<in> S'" using lr sub p S by auto
  have "p \<noteq> INVALID_PAGE_ID" using pool_at_page [OF at pS(3)] by (auto simp: INVALID_PAGE_ID_def)
  moreover have "GetParentPageId (V' (tid l)) = Inr p" "GetParentPageId (V' (tid r)) = Inr p"
    using gc(1) rep_parent [of lm im V' p l] rep_parent [of lm im V' p r] by (simp_all add: cs'_def)
  moreover have "V' p = InternalPage nd" "0 < L'" using gc(7) nd(1) L(1) by simp_all
  ultimately obtain pf b3 where b3: "pool_at {p} (pin P p) (V'(p := InternalPage n')) S' (L' - 1) F' b3" "holds b3 pf p" "pool_size b3 = pool_size b'"
    "split_round t (tid l, lf, tid r, rf, m) b' =
      (if ip_size n' \<le> ip_max n' then Inr (Inl t, unpin b3 p True)
       else rbind (split_parent t p pf b3) (\<lambda>(st, b''). Inr (Inr st, b'')))"
    using split_round_at [OF at nn hold lr(3) ne _ pS _ _ _ n'(1) _ room(1)] by blast
  have split_args: "map_of (ccontents cs') = (map_of (contents (Nd p t0 kts)))(key \<mapsto> val)"
    "set (p # cids cs') \<subseteq> set (ids (Nd p t0 kts)) \<union> (S' - S)" "\<forall>q \<in> S - set (ids (Nd p t0 kts)). V' q = V q"
    "hd (map fst (clnodes cs')) = hd (leaf_ids (Nd p t0 kts))"
    "\<forall>z. chain V (leaf_ids (Nd p t0 kts)) z \<longrightarrow> chain V' (map fst (clnodes cs')) z"
    using gc unfolding n(4-6) by auto
  show ?thesis
  proof (cases "length cs' \<le> im")
    case True
    have "grown lm im V S (V'(p := InternalPage n')) S' par lo hi key val (Nd p t0 kts) [(0, node p cs')]"
      by (rule split_fits [OF T cs [unfolded cs_def] cs'_def True gc(1,2) split_args(1) gc(4) split_args(2-5) S n'(2,3,4,5)])
    moreover have "rounds (split_round t) (tid l, lf, tid r, rf, m) b' = Some (Inr (t, unpin b3 p True))"
      using b3(4) True sz n'(4) by (subst rounds_unfold) simp
    moreover have "pool_at {} P (V'(p := InternalPage n')) S' (L' - 1) F' (unpin b3 p True)" "pool_size (unpin b3 p True) = N"
      using unpin_pin [OF b3(1)] nn b3(3) room(2) by auto
    moreover have "tid (node p cs') = tid (Nd p t0 kts)" by (simp add: cs'_def node_def)
    ultimately show ?thesis unfolding outcome_def by blast
  next
    case False
    have len: "length cs' = im + 1" using False n(7) cs by (simp add: cs'_def)
    let ?h = "length cs' div 2" let ?V = "V'(p := InternalPage n')"
    have cap: "ip_size n' \<le> INTERNAL_CAPACITY" using sz len im(1) by simp
    have ch: "\<forall>i < ip_size n'. Internal_ValueAt n' i \<in> S' \<and> Internal_ValueAt n' i \<noteq> p \<and> ?V (Internal_ValueAt n' i) \<noteq> Raw"
    proof (intro allI impI)
      fix i assume i: "i < ip_size n'"
      then have v: "Internal_ValueAt n' i = tid (snd (cs' ! i))"
        using internal_list_nth [OF i] arg_cong [OF n'(2), of "\<lambda>xs. xs ! i"] sz by simp
      have "cs' ! i \<in> set cs'" using i sz by simp
      then have "tid (snd (cs' ! i)) \<in> set (cids cs')" "rep lm im V' p (snd (cs' ! i))"
        using gc(1) by (auto intro!: bexI [of _ "cs' ! i"])
      moreover have "V' (tid (snd (cs' ! i))) \<noteq> Raw" using calculation(2) by (cases "snd (cs' ! i)") auto
      ultimately show "Internal_ValueAt n' i \<in> S' \<and> Internal_ValueAt n' i \<noteq> p \<and> ?V (Internal_ValueAt n' i) \<noteq> Raw"
        using sub gc(4) unfolding v by auto
    qed
    have lim: "ip_size n' + 1 \<le> L' - 1" "card {q. 0 < P q} + 3 \<le> pool_size b3" using L(1) sz len room b3(3) by simp_all
    have vp: "?V p = InternalPage n'" by (rule fun_upd_same)
    from split_parent_at [OF b3(1) nn b3(2) pS(3) vp cap ch lim, of t]
    obtain rf' b4 n1 n2 where s: "split_parent t p pf b3 = Inr ((p, pf, F', rf', Internal_KeyAt n' (ip_size n' div 2)), b4)"
      "internal_list n1 = take (ip_size n' div 2) (internal_list n')" "internal_list n2 = drop (ip_size n' div 2) (internal_list n')"
      "ip_max n1 = ip_max n'" "ip_parent n1 = ip_parent n'" "ip_max n2 = internal_max_size t" "ip_parent n2 = ip_parent n'"
      "pool_at {p, F'} (pin (pin P p) F') (reparent F' (map snd (internal_list n2)) (?V(p := InternalPage n1, F' := InternalPage n2)))
        (insert F' S') (L' - 1 - ip_size n' - 1) (F' + 1) b4" "holds b4 pf p" "holds b4 rf' F'" "F' \<notin> S'" "pool_size b4 = pool_size b3"
      by blast
    have Vs: "?V(p := InternalPage n1, F' := InternalPage n2) = V'(p := InternalPage n1, F' := InternalPage n2)" by simp
    have l1: "map snd (internal_list n1) = map (\<lambda>e. tid (snd e)) (take ?h cs')" "map snd (internal_list n2) = map (\<lambda>e. tid (snd e)) (drop ?h cs')"
      using n'(2) by (simp_all add: s(2,3) sz take_map [symmetric] drop_map [symmetric])
    have h: "0 < ?h" "?h < length cs'" by (auto simp: cs'_def)
    have tln: "tl (map fst (internal_list n1)) = tl (map fst (take ?h cs'))"
      using n'(3) by (simp add: s(2) sz tl_take take_map [symmetric])
    have dr: "drop ?h zs = drop (?h - 1) (tl zs)" for zs :: "int list"
      by (rule drop_by_tl [OF h(1)])
    have tld: "map fst (drop ?h (internal_list n')) = map fst (drop ?h cs')"
      using n'(3) dr [of "map fst (internal_list n')"] dr [of "map fst cs'"] by (simp only: drop_map)
    then have tlr: "tl (map fst (internal_list n2)) = tl (map fst (drop ?h cs'))" by (simp add: s(3) sz)
    have "Internal_KeyAt n' ?h = fst (internal_list n' ! ?h)" using h(2) sz by (simp add: internal_list_nth)
    also have "\<dots> = fst (hd (drop ?h (internal_list n')))" using h(2) sz by (simp add: hd_drop_conv_nth)
    also have "\<dots> = fst (cs' ! ?h)" using arg_cong [OF tld, of hd] h(2) sz by (simp add: hd_map hd_drop_conv_nth)
    finally have mid: "Internal_KeyAt n' (ip_size n' div 2) = fst (cs' ! ?h)" by (simp add: sz)
    let ?V2 = "reparent F' (map snd (internal_list n2)) (V'(p := InternalPage n1, F' := InternalPage n2))"
    have gr: "grown lm im V S ?V2 (insert F' S') par lo hi key val (Nd p t0 kts)
        [(0, node p (take ?h cs')), (fst (cs' ! ?h), node F' (drop ?h cs'))]"
      by (rule split_splits [OF T cs [unfolded cs_def] cs'_def len gc(1,2) split_args(1) gc(4) split_args(2-5) S s(11) refl
        l1(1) tln _ _ l1(2) tlr _ _ refl]) (use s(4-7) n'(4,5) im(2) in simp_all)
    have tids: "tid (node p (take ?h cs')) = p" "tid (node F' (drop ?h cs')) = F'" by (simp_all add: node_def)
    have run: "rounds (split_round t) (tid l, lf, tid r, rf, m) b' =
        rounds (split_round t) (tid (node p (take ?h cs')), pf, tid (node F' (drop ?h cs')), rf', fst (cs' ! ?h)) b4"
      using b3(4) False sz n'(4) s(1) mid tids by (subst rounds_unfold) simp
    have pool4: "pool_at {tid (node p (take ?h cs')), tid (node F' (drop ?h cs'))}
        (pin (pin P (tid (node p (take ?h cs')))) (tid (node F' (drop ?h cs')))) ?V2 (insert F' S') (L' - 1 - ip_size n' - 1) (F' + 1) b4"
      using s(8) unfolding tids Vs .
    have "c \<in> set (children t0 kts)" using cs by (auto simp: cs_def Cons_eq_append_conv)
    note levels_child [OF this, of "im + 4" p]
    moreover have "L' - 1 - ip_size n' - 1 = L' - im - 3" using sz len by simp
    ultimately have "A \<le> L' - 1 - ip_size n' - 1 + levels (Nd p t0 kts) * (im + 4)"
      using L by linarith
    then show ?thesis
      unfolding outcome_def using run pool4 s(9,10,12) gr tids b3(3) room(2) by (intro disjI2) (metis tid.simps(2))
  qed
qed

end
