(* ===== verification/BPT_Insert_Correct.thy ===== *)
theory BPT_Insert_Correct
  imports BPT_Insert
begin

text \<open>
  The insertion as a whole: the leaf that grows, the climb to the root along the path of the search, the
  new root, and the first leaf of an empty tree. \<^verbatim>\<open>BPlusTree::Insert\<close> refines the update of the map.
\<close>

section \<open>Along the path of the search\<close>

lemma climb:
  assumes "in_place lm im V S par T" "ordered lo hi T" "at_least lo key" "below hi key" "levels T \<le> h"
    and base: "\<And>par lo hi. in_place lm im V S par (leaf_for (Some key) T) \<Longrightarrow> ordered lo hi (leaf_for (Some key) T) \<Longrightarrow>
      at_least lo key \<Longrightarrow> below hi key \<Longrightarrow> Q par lo hi (leaf_for (Some key) T)"
    and step: "\<And>par lo hi p t kts xs k c ys lo' hi'. in_place lm im V S par (Nd p t kts) \<Longrightarrow>
      place lo hi key ((0, t) # kts) xs k c ys lo' hi' \<Longrightarrow> levels (Nd p t kts) \<le> h \<Longrightarrow> Q p lo' hi' c \<Longrightarrow> Q par lo hi (Nd p t kts)"
  shows "Q par lo hi T"
  using assms(1-5) base
proof (induction "Some key" T arbitrary: par lo hi rule: leaf_for.induct)
  case (1 p es)
  then show ?case by simp
next
  case (2 p t kts)
  have "ordered_children lo hi t kts" using 2(3) by simp
  from hole [OF this 2(4,5), of 0] obtain xs k c ys lo' hi' where pl: "place lo hi key ((0, t) # kts) xs k c ys lo' hi'"
    and c: "c = child_of (Some key) t kts" unfolding place_def by metis
  have o: "ordered lo' hi' c" "at_least lo' key" "below hi' key" using pl by (auto simp: place_def)
  have "in_place lm im V S p c" unfolding c by (rule in_place_child [OF 2(2) child_of_in])
  moreover have "levels c \<le> h" using child_levels [OF child_of_in, of "Some key" t kts p] 2(6) unfolding c by linarith
  moreover have lf: "leaf_for (Some key) (Nd p t kts) = leaf_for (Some key) c" by (simp add: c)
  ultimately have "Q p lo' hi' c" using 2(1) [folded c, OF _ o] 2(7) [unfolded lf] by blast
  then show ?case by (rule step [OF 2(2) pl 2(6)])
qed

section \<open>The leaf\<close>

abbreviation inserted :: "int \<Rightarrow> rid \<Rightarrow> (int \<times> rid) list \<Rightarrow> (int \<times> rid) list" where
  "inserted k v es \<equiv> takeWhile (\<lambda>e. fst e < k) es @ (k, v) # dropWhile (\<lambda>e. fst e < k) es"

lemma inserted_facts:
  assumes "ordered lo hi (Lf p es)" "at_least lo k" "below hi k" "k \<notin> fst ` set es"
  shows "ordered lo hi (Lf p (inserted k v es))" "map_of (inserted k v es) = (map_of es)(k \<mapsto> v)"
    "length (inserted k v es) = length es + 1"
proof -
  have "e \<in> set es \<or> e = (k, v)" if "e \<in> set (inserted k v es)" for e
    using that by (auto dest: set_takeWhileD set_dropWhileD)
  then show "ordered lo hi (Lf p (inserted k v es))"
    using sorted_inserted [of es k v] assms by (simp only: ordered.simps) fastforce
  show "map_of (inserted k v es) = (map_of es)(k \<mapsto> v)" by (rule map_of_inserted [OF assms(4)])
  show "length (inserted k v es) = length es + 1"
    by (metis add.commute length_Cons length_append plus_1_eq_Suc add_Suc_right takeWhile_dropWhile_id)
qed

text \<open>A leaf with one more binding that stays one page.\<close>

lemma leaf_keeps:
  assumes "in_place lm im V S par (Lf p es)" "ordered lo hi (Lf p es)" "at_least lo key" "below hi key" "key \<notin> fst ` set es"
    and "V p = LeafPage l" "leaf_list l' = inserted key val es" "lp_max l' = lp_max l" "lp_parent l' = lp_parent l" "lp_next l' = lp_next l"
    and "length es + 1 \<le> lm"
  shows "grown lm im V S (V(p := LeafPage l')) S par lo hi key val (Lf p es) [(0, Lf p (inserted key val es))]"
proof -
  note f = inserted_facts [OF assms(2-5), of val]
  have r: "rep lm im (V(p := LeafPage l')) par (Lf p (inserted key val es))"
    using assms(1,6-10) by (auto simp: in_place_def)
  have "next_of ((V(p := LeafPage l')) p) = next_of (V p)" using assms(6,10) by (simp add: next_of_def)
  then have "chain (V(p := LeafPage l')) [p] z \<longleftrightarrow> chain V [p] z" for z by simp
  moreover have "sized lm im (Lf p (inserted key val es))" using f(3) assms(11) by simp
  ultimately show ?thesis
    using f(1,2) r by (auto simp: grown_def ordered_list_def simp del: rep.simps ordered.simps sized.simps chain.simps)
qed

text \<open>A leaf that is split into two pages.\<close>

lemma leaf_splits_in_two:
  assumes "in_place lm im V S par (Lf p es)" "ordered lo hi (Lf p es)" "at_least lo key" "below hi key" "key \<notin> fst ` set es"
    and es': "es' = inserted key val es" and V: "V p = LeafPage l" and len: "length es + 1 \<le> Suc lm" "1 \<le> lm" "1 \<le> length es" and h: "h = (length es + 1) div 2"
    and l1: "leaf_list l1 = take h es'" "lp_max l1 = lm" "lp_parent l1 = par" "lp_next l1 = F"
    and l2: "leaf_list l2 = drop h es'" "lp_max l2 = lm" "lp_parent l2 = par" "lp_next l2 = lp_next l"
    and F: "F \<notin> S"
  shows "grown lm im V S (V(p := LeafPage l1, F := LeafPage l2)) (insert F S) par lo hi key val (Lf p es)
    [(0, Lf p (take h es')), (Leaf_KeyAt l2 0, Lf F (drop h es'))]"
proof -
  note f = inserted_facts [OF assms(2-5), of val, folded es']
  have hs: "0 < h" "h < length es'" "h \<le> lm" "length es' - h \<le> lm" using h len f(3) by auto
  have p: "p \<in> S" "p \<noteq> F" using assms(1) F by (auto simp: in_place_def)
  have m: "Leaf_KeyAt l2 0 = fst (es' ! h)"
  proof -
    have "lp_size l2 = length es' - h" using arg_cong [OF l2(1), of length] by simp
    then have "leaf_list l2 ! 0 = (Leaf_KeyAt l2 0, Leaf_ValueAt l2 0)" using leaf_list_nth [of 0 l2] hs(2) by simp
    then have "es' ! h = (Leaf_KeyAt l2 0, Leaf_ValueAt l2 0)" using nth_drop [of h es' 0] hs(2) unfolding l2(1) by simp
    then show ?thesis by (metis fst_conv)
  qed
  have s: "sorted_wrt (<) (map fst es')" "\<forall>e \<in> set es'. at_least lo (fst e) \<and> below hi (fst e)"
    using f(1) unfolding ordered.simps by blast+
  note k = sorted_keys_split [OF s(1) hs(2)]
  have in_es: "es' ! h \<in> set es'" "es' ! 0 \<in> set (take h es')" "es' ! 0 \<in> set es'"
    using hs(1,2) less_trans [OF hs(1,2)] nth_mem [of h es'] nth_mem [of 0 es'] nth_mem [of 0 "take h es'"] by simp_all
  have b: "beyond lo (fst (es' ! h))" "below hi (fst (es' ! h))"
    using bounds_trans(4) [of lo "fst (es' ! 0)" "fst (es' ! h)"] s(2) in_es k(1) [OF in_es(2)] by blast+
  have "ordered lo (Some (fst (es' ! h))) (Lf p (take h es'))"
    using s k(1) by (auto simp: take_map [symmetric] sorted_wrt_take dest: in_set_takeD)
  moreover have "ordered (Some (fst (es' ! h))) hi (Lf F (drop h es'))"
    using s k(2) by (auto simp: drop_map [symmetric] sorted_wrt_drop dest: in_set_dropD)
  ultimately have o: "ordered_list lo hi [(0, Lf p (take h es')), (Leaf_KeyAt l2 0, Lf F (drop h es'))]"
    using b by (simp add: ordered_list_def m del: ordered.simps)
  have c: "chain (V(p := LeafPage l1, F := LeafPage l2)) [p, F] z" if "chain V [p] z" for z
    using that V p(2) l1(4) l2(4) by (simp add: next_of_def)
  have mp: "map_of (take h es' @ drop h es') = (map_of es)(key \<mapsto> val)" unfolding append_take_drop_id by (rule f(2))
  have sz: "sized lm im (Lf p (take h es'))" "sized lm im (Lf F (drop h es'))" using hs by auto
  have r: "rep lm im (V(p := LeafPage l1, F := LeafPage l2)) par (Lf p (take h es'))"
    "rep lm im (V(p := LeafPage l1, F := LeafPage l2)) par (Lf F (drop h es'))" using l1 l2 p(2) by simp_all
  show ?thesis unfolding grown_def using o c mp sz r p F
    by (auto simp del: chain.simps sized.simps rep.simps ordered.simps map_of_append take_append drop_append append_take_drop_id)
qed

lemma split_leaf_at:
  assumes at: "pool_at {p} (pin P p) V S L F b" and nn: "\<forall>q. 0 \<le> P q" and h: "holds b f p" and S: "p \<in> S"
    and V: "V p = LeafPage l" and l: "lp_size l \<le> LEAF_CAPACITY"
    and L: "0 < L" "card {q. 0 < P q} + 3 \<le> pool_size b"
  shows "\<exists>rf b' l1 l2. split_leaf t p f b = Inr ((p, f, F, rf, Leaf_KeyAt l2 0), b') \<and>
    leaf_list l1 = take (lp_size l div 2) (leaf_list l) \<and> lp_max l1 = lp_max l \<and> lp_parent l1 = lp_parent l \<and> lp_next l1 = F \<and>
    leaf_list l2 = drop (lp_size l div 2) (leaf_list l) \<and> lp_max l2 = leaf_max_size t \<and> lp_parent l2 = lp_parent l \<and>
    lp_next l2 = lp_next l \<and>
    pool_at {p, F} (pin (pin P p) F) (V(p := LeafPage l1, F := LeafPage l2)) (insert F S) (L - 1) (F + 1) b' \<and>
    holds b' f p \<and> holds b' rf F \<and> F \<notin> S \<and> pool_size b' = pool_size b"
proof -
  have pp: "0 < pin P p p" using nn by (auto simp: pin_def)
  have "card {q. 0 < pin P p q} < pool_size b" using L(2) pin_card [OF nn, of p] by simp
  from create_pin [OF at L(1) this] obtain rf b1 where 1: "create_page b = Inr ((F, rf), b1)"
    "pool_at (insert F {p}) (pin (pin P p) F) (V(F := 0)) (insert F S) (L - 1) (F + 1) b1" "holds b1 rf F" "F \<notin> S"
    "pool_size b1 = pool_size b" "\<forall>g q. 0 < pin P p q \<longrightarrow> holds b g q \<longrightarrow> holds b1 g q" by blast
  have Fp: "F \<noteq> p" using 1(4) S by auto
  let ?P = "pin (pin P p) F"
  have P2: "0 < ?P p" "0 < ?P F" using nn pin_pos by metis+
  have hp: "holds b1 f p" using 1(6) pp h by blast
  have rp: "page_read b1 f = LeafPage l" using pool_at_read [OF 1(2) _ hp] S Fp V by simp
  let ?new = "(Leaf_Init (leaf_max_size t))\<lparr>lp_parent := lp_parent l, lp_next := lp_next l\<rparr>"
  have sz: "lp_size (l\<lparr>lp_next := F\<rparr>) \<le> LEAF_CAPACITY" using l by simp
  from leaf_move_half [OF sz, of ?new] obtain l1 l2 where m: "Leaf_MoveHalfTo (l\<lparr>lp_next := F\<rparr>) ?new = Inr (l1, l2)"
    "leaf_list l1 = take (lp_size l div 2) (leaf_list (l\<lparr>lp_next := F\<rparr>))" "leaf_list l2 = drop (lp_size l div 2) (leaf_list (l\<lparr>lp_next := F\<rparr>))"
    "lp_max l1 = lp_max l" "lp_parent l1 = lp_parent l" "lp_next l1 = F"
    "lp_max l2 = leaf_max_size t" "lp_parent l2 = lp_parent l" "lp_next l2 = lp_next l"
    by (auto simp: Leaf_Init_def)
  define b2 where "b2 = page_write (page_write b1 f (LeafPage l1)) rf (LeafPage l2)"
  have w1: "pool_at {p, F} ?P (V(F := 0, p := LeafPage l1)) (insert F S) (L - 1) (F + 1) (page_write b1 f (LeafPage l1))"
    "holds (page_write b1 f (LeafPage l1)) = holds b1" "pool_size (page_write b1 f (LeafPage l1)) = pool_size b1"
    using write_pin [OF 1(2) hp P2(1)] S by (auto simp: insert_commute)
  have "V(F := 0, p := LeafPage l1, F := LeafPage l2) = V(p := LeafPage l1, F := LeafPage l2)" using Fp by (auto simp: fun_eq_iff)
  then have 2: "pool_at {p, F} ?P (V(p := LeafPage l1, F := LeafPage l2)) (insert F S) (L - 1) (F + 1) b2" "holds b2 = holds b1" "pool_size b2 = pool_size b1"
    using write_pin [OF w1(1) _ P2(2), of rf "LeafPage l2"] w1(2,3) 1(3) by (auto simp: b2_def insert_commute)
  have nl: "leaf_list (l\<lparr>lp_next := F\<rparr>) = leaf_list l" by (simp add: leaf_list_def)
  have "split_leaf t p f b = Inr ((p, f, F, rf, Leaf_KeyAt l2 0), b2)"
    using 1(1) rp m(1) by (simp add: split_leaf_def as_leaf_def b2_def Let_def)
  then show ?thesis using m(2-9) 2 hp 1(3-5) unfolding nl
    by - (rule exI [of _ rf], rule exI [of _ b2], rule exI [of _ l1], rule exI [of _ l2], simp del: fun_upd_apply)
qed

section \<open>The root\<close>

text \<open>A split that reaches the root ends there with a new root.\<close>

lemma split_root_at:
  assumes at: "pool_at {l, r} (pin (pin P l) r) V S L F b" and nn: "\<forall>q. 0 \<le> P q"
    and h: "holds b lf l" "holds b rf r" and ne: "l \<noteq> r" and S: "l \<in> S" "r \<in> S"
    and V: "GetParentPageId (V l) = Inr INVALID_PAGE_ID" "V l \<noteq> Raw" "V r \<noteq> Raw"
    and L: "0 < L" "card {q. 0 < P q} + 3 \<le> pool_size b"
  shows "\<exists>b' n. rounds (split_round t) (l, lf, r, rf, m) b = Some (Inr (t\<lparr>root_page_id := F\<rparr>, b')) \<and>
    pool_at {} P (V(F := InternalPage n, l := setp (V l) F, r := setp (V r) F)) (insert F S) (L - 1) (F + 1) b' \<and>
    internal_list n = [(fst (hd (internal_list n)), l), (m, r)] \<and> ip_max n = internal_max_size t \<and> ip_parent n = INVALID_PAGE_ID \<and>
    F \<notin> S \<and> pool_size b' = pool_size b"
proof -
  let ?P = "pin (pin P l) r"
  have nn2: "\<forall>q. 0 \<le> pin P l q" "\<forall>q. 0 \<le> ?P q" and pl: "0 < ?P l" "0 < ?P r" using nn pin_pos by metis+
  have rl: "page_read b lf = V l" by (rule pool_at_read [OF at S(1) h(1)])
  have "card {q. 0 < ?P q} < pool_size b" using pin_card [OF nn, of l] pin_card [OF nn2(1), of r] L(2) by simp
  from create_pin [OF at L(1) this] obtain pf b1 where 1: "create_page b = Inr ((F, pf), b1)"
    "pool_at (insert F {l, r}) (pin ?P F) (V(F := 0)) (insert F S) (L - 1) (F + 1) b1" "holds b1 pf F" "F \<notin> S"
    "pool_size b1 = pool_size b" "\<forall>g q. 0 < ?P q \<longrightarrow> holds b g q \<longrightarrow> holds b1 g q" by blast
  have hl: "holds b1 lf l" "holds b1 rf r" using 1(6) pl h by blast+
  have Fne: "F \<noteq> l" "F \<noteq> r" using 1(4) S by auto
  have PF: "0 < pin ?P F F" "0 < pin ?P F l" "0 < pin ?P F r" using nn2 pl pin_pos by metis+
  define n where "n = Internal_PopulateNewRoot (Internal_Init (internal_max_size t)) l m r"
  have n: "internal_list n = [(fst (hd (internal_list n)), l), (m, r)]" "ip_max n = internal_max_size t" "ip_parent n = INVALID_PAGE_ID"
    by (simp_all add: n_def Internal_PopulateNewRoot_def Internal_Init_def internal_list_def Internal_SetValueAt_def
      Internal_SetKeyAt_def upt_rec eval_nat_numeral)
  define b2 where "b2 = page_write b1 pf (InternalPage n)"
  have 2: "pool_at {F, l, r} (pin ?P F) (V(F := InternalPage n)) (insert F S) (L - 1) (F + 1) b2" "holds b2 = holds b1" "pool_size b2 = pool_size b1"
    using write_pin [OF 1(2,3) PF(1), of "InternalPage n"] by (auto simp: b2_def)
  have Vl: "(V(F := InternalPage n)) l = V l" "(V(F := InternalPage n, l := setp (V l) F)) r = V r" using Fne ne by simp_all
  from set_parent_pin [OF 2(1) _ PF(2), of lf F] 2(2) hl S V(2) Vl(1) obtain b3 where
    3: "set_parent_at b2 lf F = Inr b3" "pool_at {F, l, r} (pin ?P F) (V(F := InternalPage n, l := setp (V l) F)) (insert F S) (L - 1) (F + 1) b3"
      "holds b3 = holds b2" "pool_size b3 = pool_size b2" by (auto simp: insert_absorb simp del: fun_upd_apply)
  from set_parent_pin [OF 3(2) _ PF(3), of rf F] 3(3) 2(2) hl S V(3) Vl(2) obtain b4 where
    4: "set_parent_at b3 rf F = Inr b4" "pool_at {F, l, r} (pin ?P F) (V(F := InternalPage n, l := setp (V l) F, r := setp (V r) F)) (insert F S) (L - 1) (F + 1) b4"
      "pool_size b4 = pool_size b3" by (auto simp: insert_absorb simp del: fun_upd_apply)
  have nF: "0 \<le> ?P F" "0 \<le> pin P r l" "0 \<le> P r" using nn nn2 pin_pos(2) [OF nn] by auto
  define b5 where "b5 = unpin (unpin (unpin b4 F True) l True) r True"
  have W: "{F, l, r} - {F} = {l, r}" "{l, r} - {l} = {r}" "{r} - {r} = {}" using Fne ne by auto
  have 5: "pool_at {} P (V(F := InternalPage n, l := setp (V l) F, r := setp (V r) F)) (insert F S) (L - 1) (F + 1) b5" "pool_size b5 = pool_size b4"
  proof -
    let ?V = "V(F := InternalPage n, l := setp (V l) F, r := setp (V r) F)"
    have u1: "pool_at {l, r} (pin (pin P r) l) ?V (insert F S) (L - 1) (F + 1) (unpin b4 F True)" "pool_size (unpin b4 F True) = pool_size b4"
      using unpin_pin [OF 4(2) nF(1)] unfolding W(1) pin_commute [of P l r] by blast+
    have u2: "pool_at {r} (pin P r) ?V (insert F S) (L - 1) (F + 1) (unpin (unpin b4 F True) l True)"
      "pool_size (unpin (unpin b4 F True) l True) = pool_size b4"
      using unpin_pin [OF u1(1) nF(2)] u1(2) unfolding W(2) by simp_all
    show "pool_at {} P ?V (insert F S) (L - 1) (F + 1) b5" "pool_size b5 = pool_size b4"
      using unpin_pin [OF u2(1) nF(3)] u2(2) unfolding W(3) b5_def by simp_all
  qed
  have "rounds (split_round t) (l, lf, r, rf, m) b = Some (Inr (t\<lparr>root_page_id := F\<rparr>, b5))"
    using rl V(1) 1(1) 3(1) 4(1)
    by (subst rounds_unfold) (simp add: split_round_def split_root_def Let_def n_def [symmetric] b2_def [symmetric] b5_def)
  then show ?thesis using 5 n 1(4,5) 2(3) 3(4) 4(3)
    by - (rule exI [of _ b5], rule exI [of _ n], simp del: fun_upd_apply)
qed

text \<open>What the pages hold when the climb has ended: the grown tree, or the two parts under a new root.\<close>

lemma grown_tree:
  assumes "grown lm im V S V' S' INVALID_PAGE_ID None None key val T [(k, T')]" "tree_in lm im V T" "set (ids T) \<subseteq> S"
  shows "tree_in lm im V' T'" "map_of (contents T') = (map_of (contents T))(key \<mapsto> val)" "set (ids T') \<subseteq> S'"
  using assms by (auto simp: grown_def tree_in_def ordered_list_def simp del: rep.simps ordered.simps sized.simps)

lemma distinct_tids:
  "distinct (ids l @ ids r) \<Longrightarrow> tid l \<noteq> tid r \<and> tid l \<notin> set (ids r) \<and> tid r \<notin> set (ids l)"
  using tid_in_ids [of l] tid_in_ids [of r] by (metis IntI distinct_append empty_iff)

lemma rep_not_raw: "rep lm im V par T \<Longrightarrow> V (tid T) \<noteq> Raw"
  by (cases T) auto

lemma grown_root:
  assumes g: "grown lm im V S V' S' INVALID_PAGE_ID None None key val T [(0, l), (m, r)]" and T: "tree_in lm im V T" "set (ids T) \<subseteq> S"
    and im: "2 \<le> im" and F: "F \<notin> S'"
    and n: "internal_list n = [(k, tid l), (m, tid r)]" "ip_max n = im" "ip_parent n = INVALID_PAGE_ID"
    and V'': "V'' = V'(F := InternalPage n, tid l := setp (V' (tid l)) F, tid r := setp (V' (tid r)) F)"
  shows "tree_in lm im V'' (Nd F l [(m, r)])" "map_of (contents (Nd F l [(m, r)])) = (map_of (contents T))(key \<mapsto> val)"
    "set (ids (Nd F l [(m, r)])) \<subseteq> insert F S'"
proof -
  have rp: "rep lm im V' INVALID_PAGE_ID l" "rep lm im V' INVALID_PAGE_ID r" "sized lm im l" "sized lm im r"
    and o: "ordered_list None None [(0, l), (m, r)]" and mp: "map_of (contents l @ contents r) = (map_of (contents T))(key \<mapsto> val)"
    and d: "distinct (ids l @ ids r)" and ids: "set (ids l @ ids r) \<subseteq> S'"
    and ch: "chain V' (leaf_ids l @ leaf_ids r) INVALID_PAGE_ID"
    using g T by (auto simp: grown_def tree_in_def simp del: rep.simps map_of_append)
  have Fn: "F \<notin> set (ids l)" "F \<notin> set (ids r)" using F ids by auto
  have tl: "tid l \<in> set (ids l)" "tid r \<in> set (ids r)" "tid l \<noteq> tid r" "tid l \<noteq> F" "tid r \<noteq> F"
    "tid l \<notin> set (ids r)" "tid r \<notin> set (ids l)"
    using d Fn tid_in_ids [of l] tid_in_ids [of r] distinct_tids [OF d] by auto
  have "rep lm im V'' F l"
    by (rule rep_reparent [OF rp(1)]) (use d tl Fn in \<open>auto simp: V''\<close>)
  moreover have "rep lm im V'' F r"
    by (rule rep_reparent [OF rp(2)]) (use d tl Fn in \<open>auto simp: V''\<close>)
  moreover have "V'' F = InternalPage n" using tl by (simp add: V'')
  ultimately have "rep lm im V'' INVALID_PAGE_ID (Nd F l [(m, r)])" using n by simp
  moreover have "ordered None None (Nd F l [(m, r)])" using o by (simp add: ordered_list_def)
  moreover have "sized lm im (Nd F l [(m, r)])" "distinct (ids (Nd F l [(m, r)]))" using rp(3,4) im d Fn by auto
  moreover have "chain V'' (leaf_ids l @ leaf_ids r) INVALID_PAGE_ID"
  proof (rule chain_cong [OF ch])
    fix q assume "q \<in> set (leaf_ids l @ leaf_ids r)"
    then have "q \<noteq> F" using lnodes_ids [of l] lnodes_ids [of r] Fn by auto
    then show "next_of (V'' q) = next_of (V' q)" by (simp add: V'')
  qed
  ultimately show "tree_in lm im V'' (Nd F l [(m, r)])" by (simp add: tree_in_def)
  show "map_of (contents (Nd F l [(m, r)])) = (map_of (contents T))(key \<mapsto> val)" using mp by simp
  show "set (ids (Nd F l [(m, r)])) \<subseteq> insert F S'" using ids by auto
qed

lemma climb_outcome:
  assumes T: "in_place lm im V S par T" "ordered lo hi T" "at_least lo key" "below hi key" and A: "(levels T + 1) * (im + 4) \<le> A"
    and im: "im < INTERNAL_CAPACITY" "internal_max_size t = im" and P: "\<forall>q. 0 \<le> P q" "card {q. 0 < P q} + 3 \<le> N"
    and base: "\<And>par lo hi. in_place lm im V S par (leaf_for (Some key) T) \<Longrightarrow> ordered lo hi (leaf_for (Some key) T) \<Longrightarrow>
      at_least lo key \<Longrightarrow> below hi key \<Longrightarrow> outcome t lm im V S P N A par lo hi key val (leaf_for (Some key) T) run"
  shows "outcome t lm im V S P N A par lo hi key val T run"
proof (rule climb [of lm im V S par T lo hi key "levels T" "\<lambda>par lo hi T. outcome t lm im V S P N A par lo hi key val T run",
    OF T le_refl base], assumption+)
  fix par lo hi p t0 kts xs k c ys lo' hi'
  assume n: "in_place lm im V S par (Nd p t0 kts)" and pl: "place lo hi key ((0, t0) # kts) xs k c ys lo' hi'"
    and lv: "levels (Nd p t0 kts) \<le> levels T" and o: "outcome t lm im V S P N A p lo' hi' key val c run"
  consider b' T' V' S' L' F' where "run = Some (Inr (t, b'))" "pool_at {} P V' S' L' F' b'" "pool_size b' = N"
      "grown lm im V S V' S' p lo' hi' key val c [(0, T')]" "tid T' = tid c" |
    b' l m r lf rf V' S' L' F' where "run = rounds (split_round t) (tid l, lf, tid r, rf, m) b'"
      "pool_at {tid l, tid r} (pin (pin P (tid l)) (tid r)) V' S' L' F' b'" "holds b' lf (tid l)" "holds b' rf (tid r)"
      "pool_size b' = N" "grown lm im V S V' S' p lo' hi' key val c [(0, l), (m, r)]" "tid l = tid c" "A \<le> L' + levels c * (im + 4)"
    using o unfolding outcome_def by blast
  then show "outcome t lm im V S P N A par lo hi key val (Nd p t0 kts) run"
  proof cases
    case 1
    have "grown lm im V S V' S' p lo' hi' key val c [(k, T')]" using 1(4) grown_key by blast
    from climb_keep [OF n pl this 1(5), of 0] show ?thesis unfolding outcome_def using 1(1-3) by (metis tid.simps(2))
  next
    case 2
    have g: "grown lm im V S V' S' p lo' hi' key val c [(k, l), (m, r)]" using 2(6) grown_key by blast
    have "c \<in> set (children t0 kts)" using pl by (auto simp: place_def Cons_eq_append_conv)
    moreover have "levels T * (im + 4) + (im + 4) \<le> A" using A by (simp only: add_mult_distrib mult_1)
    ultimately have "im + 4 \<le> L'" using levels_child [of c t0 kts "im + 4" p] mult_le_mono1 [OF lv, of "im + 4"] 2(8) by linarith
    from climb_split [OF n pl im g 2(7,2) P(1) 2(3,4) _ 2(5) this 2(8)] show ?thesis using P(2) 2(1,5) by simp
  qed
qed

lemma outcome_done:
  assumes o: "outcome t (leaf_max_size t) (internal_max_size t) V S P N A INVALID_PAGE_ID None None key val T run"
    and T: "tree_in (leaf_max_size t) (internal_max_size t) V T" "set (ids T) \<subseteq> S" "root_page_id t = tid T"
    and im: "2 \<le> internal_max_size t" and A: "(levels T + 1) * (internal_max_size t + 4) \<le> A"
    and P: "\<forall>q. 0 \<le> P q" "card {q. 0 < P q} + 3 \<le> N"
  shows "\<exists>t' b' T'. run = Some (Inr (t', b')) \<and> holds_tree t' b' (Some T') \<and> map_of (contents T') = (map_of (contents T))(key \<mapsto> val) \<and>
    pins b' = P \<and> leaf_max_size t' = leaf_max_size t \<and> internal_max_size t' = internal_max_size t"
proof -
  let ?lm = "leaf_max_size t" let ?im = "internal_max_size t"
  consider b' T' V' S' L' F' where "run = Some (Inr (t, b'))" "pool_at {} P V' S' L' F' b'"
      "grown ?lm ?im V S V' S' INVALID_PAGE_ID None None key val T [(0, T')]" "tid T' = tid T" |
    b' l m r lf rf V' S' L' F' where "run = rounds (split_round t) (tid l, lf, tid r, rf, m) b'"
      "pool_at {tid l, tid r} (pin (pin P (tid l)) (tid r)) V' S' L' F' b'" "holds b' lf (tid l)" "holds b' rf (tid r)"
      "pool_size b' = N" "grown ?lm ?im V S V' S' INVALID_PAGE_ID None None key val T [(0, l), (m, r)]" "A \<le> L' + levels T * (?im + 4)"
    using o unfolding outcome_def by blast
  then show ?thesis
  proof cases
    case 1
    note g = grown_tree [OF 1(3) T(1,2)]
    have "holds_tree t b' (Some T')" using holds_treeI [OF 1(2) g(1)] g(3) 1(4) T(3) by simp
    moreover have "pins b' = P" using 1(2) by (simp add: pool_at_def)
    ultimately show ?thesis using 1(1) g(2) by blast
  next
    case 2
    have rp: "rep ?lm ?im V' INVALID_PAGE_ID l" "rep ?lm ?im V' INVALID_PAGE_ID r" and d: "distinct (ids l @ ids r)"
      and "set (ids l @ ids r) \<subseteq> S'"
      using 2(6) T(2) by (auto simp: grown_def simp del: rep.simps)
    then have S: "tid l \<noteq> tid r" "tid l \<in> S'" "tid r \<in> S'" using tid_in_ids [of l] tid_in_ids [of r] distinct_tids [OF d] by auto
    have L: "0 < L'" "card {q. 0 < P q} + 3 \<le> pool_size b'" using 2(5,7) A P(2) by (simp_all add: add_mult_distrib)
    from split_root_at [OF 2(2) P(1) 2(3,4) S rep_parent [OF rp(1)] rep_not_raw [OF rp(1)] rep_not_raw [OF rp(2)] L, of t m]
    obtain b'' n where b'': "run = Some (Inr (t\<lparr>root_page_id := F'\<rparr>, b''))"
      "pool_at {} P (V'(F' := InternalPage n, tid l := setp (V' (tid l)) F', tid r := setp (V' (tid r)) F')) (insert F' S') (L' - 1) (F' + 1) b''"
      "internal_list n = [(fst (hd (internal_list n)), tid l), (m, tid r)]" "ip_max n = ?im" "ip_parent n = INVALID_PAGE_ID" "F' \<notin> S'"
      unfolding 2(1) by blast
    note g = grown_root [OF 2(6) T(1,2) im b''(6,3,4,5) refl]
    have "holds_tree (t\<lparr>root_page_id := F'\<rparr>) b'' (Some (Nd F' l [(m, r)]))"
      by (rule holds_treeI [OF b''(2)]) (use g(1,3) in simp_all)
    moreover have "pins b'' = P" using b''(2) by (simp add: pool_at_def)
    ultimately show ?thesis using b''(1) g(2)
      by (intro exI [of _ "t\<lparr>root_page_id := F'\<rparr>"] exI [of _ b''] exI [of _ "Nd F' l [(m, r)]"]) simp
  qed
qed

section \<open>Insertion\<close>

lemma sized_leaf: "sized lm im T \<Longrightarrow> (p, es) \<in> set (lnodes T) \<Longrightarrow> 1 \<le> length es \<and> length es \<le> lm"
  by (induction T rule: lnodes.induct) (auto simp: Suc_le_eq)

text \<open>A new page with a single leaf is a tree.\<close>

lemma new_leaf_at:
  assumes "pool_ok {} b" "room 1 1 b"
    and l: "leaf_ordered l" "0 < lp_size l" "lp_size l \<le> leaf_max_size t" "lp_max l = leaf_max_size t"
      "lp_parent l = INVALID_PAGE_ID" "lp_next l = INVALID_PAGE_ID"
  shows "\<exists>p f b1. NewPage b = Inr (Some (p, f), b1) \<and> pg_id (frame (page_write b1 f (LeafPage l)) f) = p \<and>
    (let b' = unpin (page_write b1 f (LeafPage l)) p True
     in holds_tree (t\<lparr>root_page_id := p\<rparr>) b' (Some (Lf p (leaf_list l))) \<and> pins b' = pins b \<and>
        pool_size b' = pool_size b \<and> pool_life b - 1 \<le> pool_life b')"
proof -
  have r: "0 < pool_life b" "card {q. 0 < pins b q} < pool_size b" using assms(2) by (auto simp: room_def)
  from new_at [OF pool_at_start [OF assms(1)]] r obtain p f b1 where
    1: "NewPage b = Inr (Some (p, f), b1)" "pool_at {p} ((pins b)(p := 1)) ((page_view b)(p := 0)) (insert p {q. stored b q}) (pool_life b - 1) (p + 1) b1"
      "holds b1 f p" "pins b p = 0" "pool_size b1 = pool_size b" by auto
  have P: "(pins b)(p := 1) = pin (pins b) p" using 1(4) by (auto simp: pin_def fun_eq_iff)
  have nn: "0 \<le> pins b p" using 1(4) by simp
  define b2 where "b2 = page_write b1 f (LeafPage l)"
  have 2: "pool_at {p} (pin (pins b) p) ((page_view b)(p := LeafPage l)) (insert p {q. stored b q}) (pool_life b - 1) (p + 1) b2"
      "holds b2 f p" "pool_size b2 = pool_size b"
    using write_pin [OF 1(2) 1(3), of "LeafPage l"] 1(3,5) unfolding P b2_def by (auto simp: pin_def 1(4))
  have u: "pool_at {} (pins b) ((page_view b)(p := LeafPage l)) (insert p {q. stored b q}) (pool_life b - 1) (p + 1) (unpin b2 p True)"
      "pool_size (unpin b2 p True) = pool_size b"
    using unpin_pin [OF 2(1) nn] 2(3) by simp_all
  have "holds_tree (t\<lparr>root_page_id := p\<rparr>) (unpin b2 p True) (Some (Lf p (leaf_list l)))"
    by (rule holds_treeI [OF u(1)]) (use l in \<open>auto simp: tree_in_def next_of_def leaf_ordered_list simp flip: length_leaf_list\<close>)
  moreover have "pins (unpin b2 p True) = pins b" "pool_life b - 1 \<le> pool_life (unpin b2 p True)" using u(1) by (simp_all add: pool_at_def)
  ultimately show ?thesis using 1(1) pool_at_pg_id [OF 2(1,2)] u(2) unfolding b2_def Let_def by blast
qed

lemma insert_first_at:
  assumes "pool_ok {} b" "room 1 1 b" "1 \<le> leaf_max_size t"
  shows "\<exists>t' b' p. insert_first t b key val = Inr ((True, t'), b') \<and> holds_tree t' b' (Some (Lf p [(key, val)])) \<and>
    pins b' = pins b \<and> leaf_max_size t' = leaf_max_size t \<and> internal_max_size t' = internal_max_size t \<and>
    pool_size b' = pool_size b \<and> pool_life b - 1 \<le> pool_life b'"
proof -
  let ?l0 = "Leaf_Init (leaf_max_size t)"
  have "leaf_ordered ?l0" "key \<notin> fst ` set (leaf_list ?l0)" "lp_size ?l0 < LEAF_CAPACITY"
    by (simp_all add: leaf_ordered_list leaf_list_def Leaf_Init_def capacities)
  from leaf_insert [OF this, of val] obtain l where l: "Leaf_Insert ?l0 key val = Inr (lp_size ?l0 + 1, l)"
    "leaf_list l = takeWhile (\<lambda>e. fst e < key) (leaf_list ?l0) @ (key, val) # dropWhile (\<lambda>e. fst e < key) (leaf_list ?l0)"
    "lp_size l = lp_size ?l0 + 1" "lp_max l = lp_max ?l0" "lp_parent l = lp_parent ?l0" "lp_next l = lp_next ?l0" by blast
  have l': "leaf_list l = [(key, val)]" "lp_size l = 1" "lp_max l = leaf_max_size t" "lp_parent l = INVALID_PAGE_ID" "lp_next l = INVALID_PAGE_ID"
    using l(2-6) by (simp_all add: leaf_list_def Leaf_Init_def)
  have "leaf_ordered l" "0 < lp_size l" "lp_size l \<le> leaf_max_size t" using l' assms(3) by (simp_all add: leaf_ordered_list)
  from new_leaf_at [OF assms(1,2) this l'(3-5)] obtain p f b1 where n: "NewPage b = Inr (Some (p, f), b1)"
    "pg_id (frame (page_write b1 f (LeafPage l)) f) = p"
    "holds_tree (t\<lparr>root_page_id := p\<rparr>) (unpin (page_write b1 f (LeafPage l)) p True) (Some (Lf p [(key, val)]))"
    "pins (unpin (page_write b1 f (LeafPage l)) p True) = pins b" "pool_size (unpin (page_write b1 f (LeafPage l)) p True) = pool_size b"
    "pool_life b - 1 \<le> pool_life (unpin (page_write b1 f (LeafPage l)) p True)" unfolding Let_def l'(1) by blast
  have "insert_first t b key val = Inr ((True, t\<lparr>root_page_id := p\<rparr>), unpin (page_write b1 f (LeafPage l)) p True)"
    using n(1,2) l(1) by (simp add: insert_first_def Let_def)
  then show ?thesis using n(3-6)
    by - (rule exI [of _ "t\<lparr>root_page_id := p\<rparr>"], rule exI [of _ "unpin (page_write b1 f (LeafPage l)) p True"], rule exI [of _ p], simp)
qed

text \<open>The insertion of a key that the tree does not hold.\<close>

lemma insert_fresh:
  assumes h: "holds_tree t b (Some T)" and r: "room ((height (Some T) + 1) * (internal_max_size t + 5)) 3 b"
    and lm: "1 \<le> leaf_max_size t" "leaf_max_size t < LEAF_CAPACITY" and im: "2 \<le> internal_max_size t" "internal_max_size t < INTERNAL_CAPACITY"
    and fresh: "map_of (contents T) key = None"
  shows "\<exists>t' b' T'. BPT_Insert t b key val = Some (Inr ((True, t'), b')) \<and> holds_tree t' b' (Some T') \<and>
    map_of (contents T') = (map_of (contents T))(key \<mapsto> val) \<and>
    pins b' = pins b \<and> leaf_max_size t' = leaf_max_size t \<and> internal_max_size t' = internal_max_size t"
proof -
  let ?lm = "leaf_max_size t" let ?im = "internal_max_size t" let ?V = "page_view b" let ?S = "set (ids T)" let ?P = "pins b"
  let ?L = "pool_life b - height (Some T)" let ?F = "next_page_id (disk_manager b)"
  have P: "\<forall>q. 0 \<le> ?P q" using pool_at_nonneg [OF holds_tree_at [OF h]] by blast
  have hL: "(levels T + 1) * (?im + 4) + levels T + 2 \<le> pool_life b" "card {q. 0 < ?P q} + 3 \<le> pool_size b"
    using r by (simp_all add: room_def height_def algebra_simps)
  then have "room (height (Some T)) 1 b" by (simp add: room_def height_def)
  from find_leaf [OF h this, of "Some key"] obtain p es l f b1 xs ys where l: "leaf_for (Some key) T = Lf p es"
    "FindLeaf (child_fun (Some key)) t b = Some (Inr ((p, f), b1))"
    "pool_at {} (?P(p := ?P p + 1)) ?V ?S ?L ?F b1"
    "holds b1 f p" "pool_size b1 = pool_size b" "?V p = LeafPage l" "leaf_list l = es" "leaf_ordered l" "p \<in> ?S"
    "splits_at (Some key) T xs (Lf p es) ys" .
  note find = l(2) [unfolded child_fun_simps]
  have at: "pool_at {} (pin ?P p) ?V ?S ?L ?F b1" using l(3) unfolding pin_def .
  have pp: "0 < pin ?P p p" "0 \<le> ?P p" using P by (simp_all add: pin_def)
  have T: "tree_in ?lm ?im ?V T" "root_page_id t = tid T" using h by (auto simp: holds_tree_def)
  then have ip: "in_place ?lm ?im ?V ?S INVALID_PAGE_ID T" and o: "ordered None None T" by (simp_all add: in_place_def tree_in_def)
  have new: "key \<notin> fst ` set es" using fresh splits_map_of [OF l(10)] by (simp add: map_of_eq_None_iff)
  have sz: "length es \<le> ?lm" "1 \<le> length es" "lp_max l = ?lm"
  proof -
    have "(p, es) \<in> set (lnodes T)" using l(10) by (simp add: splits_at_def)
    moreover have "sized ?lm ?im T" "rep ?lm ?im ?V INVALID_PAGE_ID T" using T(1) by (simp_all add: tree_in_def)
    ultimately show "length es \<le> ?lm" "1 \<le> length es" "lp_max l = ?lm"
      using sized_leaf rep_leaves [of ?lm ?im ?V _ T p es] l(6) by fastforce+
  qed
  have "lp_size l < LEAF_CAPACITY" using sz(1) lm(2) l(7) by (metis le_less_trans length_leaf_list)
  from leaf_insert [OF l(8) new [folded l(7)] this, of val] obtain l' where l': "Leaf_Insert l key val = Inr (lp_size l + 1, l')"
    "leaf_list l' = inserted key val es" "lp_size l' = lp_size l + 1" "lp_max l' = lp_max l" "lp_parent l' = lp_parent l" "lp_next l' = lp_next l"
    unfolding l(7) by blast
  have len: "lp_size l = length es" using l(7) by (metis length_leaf_list)
  define b2 where "b2 = page_write b1 f (LeafPage l')"
  have rd: "page_read b1 f = LeafPage l" using pool_at_read [OF at l(9,4)] l(6) by simp
  have 2: "pool_at {p} (pin ?P p) (?V(p := LeafPage l')) ?S ?L ?F b2" "holds b2 f p" "pool_size b2 = pool_size b"
    using write_pin [OF at l(4) pp(1) l(9), of "LeafPage l'"] l(4,5) by (simp_all add: b2_def)
  note pg = pool_at_pg_id [OF 2(1,2)]
  show ?thesis
  proof (cases "length es + 1 \<le> ?lm")
    case True
    have "\<exists>T'. grown ?lm ?im ?V ?S (?V(p := LeafPage l')) ?S INVALID_PAGE_ID None None key val T [(0, T')] \<and> tid T' = tid T"
    proof (rule climb [of ?lm ?im ?V ?S INVALID_PAGE_ID T None None key "levels T"
          "\<lambda>par lo hi T. \<exists>T'. grown ?lm ?im ?V ?S (?V(p := LeafPage l')) ?S par lo hi key val T [(0, T')] \<and> tid T' = tid T",
          OF ip o _ _ le_refl])
      fix par lo hi
      assume "in_place ?lm ?im ?V ?S par (leaf_for (Some key) T)" "ordered lo hi (leaf_for (Some key) T)" "at_least lo key" "below hi key"
      from leaf_keeps [OF this [unfolded l(1)] new l(6) l'(2,4,5,6) True]
      show "\<exists>T'. grown ?lm ?im ?V ?S (?V(p := LeafPage l')) ?S par lo hi key val (leaf_for (Some key) T) [(0, T')] \<and> tid T' = tid (leaf_for (Some key) T)"
        unfolding l(1) by (intro exI conjI) (assumption, simp)
    next
      fix par lo hi q t0 kts xs k c ys lo' hi'
      assume n: "in_place ?lm ?im ?V ?S par (Nd q t0 kts)" "place lo hi key ((0, t0) # kts) xs k c ys lo' hi'"
        "\<exists>T'. grown ?lm ?im ?V ?S (?V(p := LeafPage l')) ?S q lo' hi' key val c [(0, T')] \<and> tid T' = tid c"
      then obtain T' where "grown ?lm ?im ?V ?S (?V(p := LeafPage l')) ?S q lo' hi' key val c [(k, T')]" "tid T' = tid c"
        using grown_key by blast
      from climb_keep [OF n(1,2) this, of 0]
      show "\<exists>T'. grown ?lm ?im ?V ?S (?V(p := LeafPage l')) ?S par lo hi key val (Nd q t0 kts) [(0, T')] \<and> tid T' = tid (Nd q t0 kts)" by simp
    qed simp_all
    then obtain T' where g: "grown ?lm ?im ?V ?S (?V(p := LeafPage l')) ?S INVALID_PAGE_ID None None key val T [(0, T')]" "tid T' = tid T" by blast
    note g' = grown_tree [OF g(1) T(1) subset_refl]
    have u: "pool_at {} ?P (?V(p := LeafPage l')) ?S ?L ?F (unpin b2 p True)" using unpin_pin [OF 2(1) pp(2)] by simp
    have "BPT_Insert t b key val = Some (Inr ((True, t), unpin b2 p True))"
      using find rd l'(1,3,4) True len sz(3) pg tid_valid [OF h]
      by (simp add: BPT_Insert_def cbind_def as_leaf_def Let_def b2_def)
    moreover have "holds_tree t (unpin b2 p True) (Some T')" using holds_treeI [OF u g'(1)] T(2) g(2) g'(3) by simp
    moreover have "pins (unpin b2 p True) = ?P" using u by (simp add: pool_at_def)
    ultimately show ?thesis using g'(2) by blast
  next
    case False
    have L: "0 < ?L" "(levels T + 1) * (?im + 4) \<le> ?L - 1" using hL(1) by (simp_all add: height_def)
    have "(?V(p := LeafPage l')) p = LeafPage l'" "lp_size l' \<le> LEAF_CAPACITY" "card {q. 0 < ?P q} + 3 \<le> pool_size b2"
      using l'(3) len sz(1) lm(2) hL(2) 2(3) by simp_all
    from split_leaf_at [OF 2(1) P 2(2) l(9) this(1,2) L(1) this(3), of t] obtain rf b3 l1 l2 where
      s: "split_leaf t p f b2 = Inr ((p, f, ?F, rf, Leaf_KeyAt l2 0), b3)"
      "leaf_list l1 = take (lp_size l' div 2) (leaf_list l')" "lp_max l1 = lp_max l'" "lp_parent l1 = lp_parent l'" "lp_next l1 = ?F"
      "leaf_list l2 = drop (lp_size l' div 2) (leaf_list l')" "lp_max l2 = ?lm" "lp_parent l2 = lp_parent l'" "lp_next l2 = lp_next l'"
      "pool_at {p, ?F} (pin (pin ?P p) ?F) (?V(p := LeafPage l', p := LeafPage l1, ?F := LeafPage l2)) (insert ?F ?S) (?L - 1) (?F + 1) b3"
      "holds b3 f p" "holds b3 rf ?F" "?F \<notin> ?S" "pool_size b3 = pool_size b2" by blast
    let ?A = "?L - 1" let ?run = "rounds (split_round t) (p, f, ?F, rf, Leaf_KeyAt l2 0) b3"
    have "outcome t ?lm ?im ?V ?S ?P (pool_size b) ?A INVALID_PAGE_ID None None key val T ?run"
    proof (rule climb_outcome [OF ip o _ _ L(2) im(2) refl P hL(2)])
      fix par lo hi
      assume i: "in_place ?lm ?im ?V ?S par (leaf_for (Some key) T)" "ordered lo hi (leaf_for (Some key) T)" "at_least lo key" "below hi key"
      have par: "lp_parent l = par" using i(1) l(1,6) by (auto simp: in_place_def)
      have sp: "lp_size l' div 2 = (length es + 1) div 2" "length es + 1 \<le> Suc ?lm" using l'(3) len sz(1) by simp_all
      note g = leaf_splits_in_two [OF i [unfolded l(1)] new refl l(6) sp(2) lm(1) sz(2) refl]
      have "grown ?lm ?im ?V ?S (?V(p := LeafPage l1, ?F := LeafPage l2)) (insert ?F ?S) par lo hi key val (Lf p es)
          [(0, Lf p (take ((length es + 1) div 2) (inserted key val es))), (Leaf_KeyAt l2 0, Lf ?F (drop ((length es + 1) div 2) (inserted key val es)))]"
        by (rule g) (use s(2-9,13) l'(2,4-6) par sz(3) sp(1) in simp_all)
      moreover have "?A \<le> ?A + levels (Lf p es) * (?im + 4)" by simp
      ultimately show "outcome t ?lm ?im ?V ?S ?P (pool_size b) ?A par lo hi key val (leaf_for (Some key) T) ?run"
        unfolding outcome_def l(1) using s(10-12,14) 2(3) unfolding fun_upd_upd
        by (intro disjI2) (metis tid.simps(1))
    qed simp_all
    from outcome_done [OF this T(1) subset_refl T(2) im(1) L(2) P hL(2)] obtain t' b' T' where
      r: "?run = Some (Inr (t', b'))" "holds_tree t' b' (Some T')" "map_of (contents T') = (map_of (contents T))(key \<mapsto> val)"
      "pins b' = ?P" "leaf_max_size t' = ?lm" "internal_max_size t' = ?im" by blast
    have "BPT_Insert t b key val = Some (Inr ((True, t'), b'))"
      using find rd l'(1,3,4) False len sz(3) s(1) r(1) tid_valid [OF h]
      by (simp add: BPT_Insert_def cbind_def as_leaf_def Let_def b2_def)
    then show ?thesis using r by blast
  qed
qed

text \<open>The insertion of a key that the tree holds: nothing changes.\<close>

lemma page_write_read: "page_write b f (page_read b f) = b"
  by (simp add: page_write_def page_read_def set_frame_def frame_def)

lemma insert_present:
  assumes h: "holds_tree t b (Some T)" and r: "room (height (Some T)) 1 b" and k: "map_of (contents T) key \<noteq> None"
  shows "\<exists>b'. BPT_Insert t b key val = Some (Inr ((False, t), b')) \<and> holds_tree t b' (Some T) \<and> pins b' = pins b"
proof -
  from find_leaf [OF h r, of "Some key"] obtain p es l f b1 xs ys where l: "leaf_for (Some key) T = Lf p es"
    "FindLeaf (child_fun (Some key)) t b = Some (Inr ((p, f), b1))"
    "pool_at {} ((pins b)(p := pins b p + 1)) (page_view b) (set (ids T)) (pool_life b - height (Some T)) (next_page_id (disk_manager b)) b1"
    "holds b1 f p" "pool_size b1 = pool_size b" "page_view b p = LeafPage l" "leaf_list l = es" "leaf_ordered l" "p \<in> set (ids T)"
    "splits_at (Some key) T xs (Lf p es) ys" .
  have rd: "page_read b1 f = LeafPage l" using pool_at_read [OF l(3,9,4)] l(6) by simp
  have "key \<in> fst ` set (leaf_list l)" using k splits_map_of [OF l(10)] l(7) by (simp add: map_of_eq_None_iff)
  then have i: "Leaf_Insert l key val = Inr (lp_size l, l)" using leaf_found [OF l(8)] by (simp add: Leaf_Insert_def Let_def)
  have w: "page_write b1 f (LeafPage l) = b1" using page_write_read [of b1 f] rd by simp
  have "0 < ((pins b)(p := pins b p + 1)) p" using pool_at_nonneg [OF holds_tree_at [OF h], of p] by simp
  from unpin_at [OF l(3) this, of False, unfolded pin_unpin] obtain b2 where b2: "UnpinPage b1 p False = (True, b2)"
    "pool_at {} (pins b) (page_view b) (set (ids T)) (pool_life b - height (Some T)) (next_page_id (disk_manager b)) b2"
    by (auto simp del: fun_upd_apply)
  have "holds_tree t b2 (Some T)" by (rule holds_treeI [OF b2(2)]) (use h in \<open>auto simp: holds_tree_def\<close>)
  moreover have "BPT_Insert t b key val = Some (Inr ((False, t), b2))"
    using l(2) [unfolded child_fun_simps] rd i w b2(1) pool_at_pg_id [OF l(3,4)] tid_valid [OF h]
    by (simp add: BPT_Insert_def cbind_def as_leaf_def Let_def)
  ultimately show ?thesis using b2(2) by (simp add: pool_at_def)
qed

text \<open>
  C8. \<^verbatim>\<open>Insert\<close> adds the binding to the map that the tree represents and returns true exactly when
  the key is new; otherwise it returns false and the map is unchanged. Splits up to a new root included, it
  ends, keeps the tree in order and within its page sizes, and leaves no page pinned. It needs maximal
  sizes below the capacities of the pages.
\<close>

theorem BPT_Insert_correct:
  assumes "holds_tree t b To" "room ((height To + 1) * (internal_max_size t + 5)) 3 b"
    and "1 \<le> leaf_max_size t" "leaf_max_size t < LEAF_CAPACITY" "2 \<le> internal_max_size t" "internal_max_size t < INTERNAL_CAPACITY"
  shows "\<exists>t' b' To'. BPT_Insert t b key val = Some (Inr ((map_of (bindings To) key = None, t'), b')) \<and> holds_tree t' b' To' \<and>
    map_of (bindings To') =
      (if map_of (bindings To) key = None then (map_of (bindings To))(key \<mapsto> val) else map_of (bindings To)) \<and>
    pins b' = pins b \<and> leaf_max_size t' = leaf_max_size t \<and> internal_max_size t' = internal_max_size t"
proof (cases To)
  case None
  then have "pool_ok {} b" "room 1 1 b" "IsEmpty t" using assms(1,2) by (simp_all add: holds_tree_def room_def height_def)
  moreover from insert_first_at [OF this(1,2) assms(3), of key val] obtain t' b' p where
    i: "insert_first t b key val = Inr ((True, t'), b')" "holds_tree t' b' (Some (Lf p [(key, val)]))"
    "pins b' = pins b" "leaf_max_size t' = leaf_max_size t" "internal_max_size t' = internal_max_size t" by blast
  ultimately show ?thesis
    using None by - (rule exI [of _ t'], rule exI [of _ b'], rule exI [of _ "Some (Lf p [(key, val)])"], simp add: BPT_Insert_def bindings_def)
next
  case (Some T)
  with assms(1,2) have h: "holds_tree t b (Some T)" and r: "room ((height (Some T) + 1) * (internal_max_size t + 5)) 3 b" by simp_all
  show ?thesis
  proof (cases "map_of (contents T) key")
    case None
    from insert_fresh [OF h r assms(3-6) None, of val] show ?thesis using Some None unfolding bindings_def
      by (auto intro!: exI [of _ "Some _"])
  next
    case (Some v)
    have "height (Some T) \<le> (height (Some T) + 1) * (internal_max_size t + 5)"
      by (metis le_add1 le_trans mult.right_neutral mult_le_mono2 one_le_numeral trans_le_add2)
    then have "room (height (Some T)) 1 b" using r unfolding room_def by linarith
    from insert_present [OF h this, of key val] Some show ?thesis using \<open>To = Some T\<close> unfolding bindings_def
      by (auto intro!: exI [of _ "Some T"])
  qed
qed

section \<open>Witnesses, and the sizes that the code uses by default\<close>

definition demo_tree_pool :: bpt_pool where
  "demo_tree_pool = BufferPoolManager 4 \<lparr>db_file = [], io_failed = False, io_bad = False, faulty = {}, next_page_id = 0, num_pages = 0\<rparr> 2"

lemma demo_tree_pool: "pool_ok {} demo_tree_pool" "room 1000 3 demo_tree_pool" "pins demo_tree_pool = (\<lambda>_. 0)"
proof -
  let ?d = "\<lparr>db_file = [], io_failed = False, io_bad = False, faulty = {}, next_page_id = 0, num_pages = 0\<rparr> :: bpt_data disk"
  have d: "disk_ok ?d" "0 < (2::nat)" by (simp_all add: disk_ok_def)
  show "pool_ok {} demo_tree_pool"
    using pool_run_ok [OF start [of 4 2 ?d] d] by (simp add: pool_ok_def demo_tree_pool_def)
  show p: "pins demo_tree_pool = (\<lambda>_. 0)"
    by (simp add: pins_def fun_eq_iff demo_tree_pool_def BufferPoolManager_def cached_def del: map_of_page_table)
  have "pool_life demo_tree_pool = SIZE_MAX + 1" "pool_size demo_tree_pool = 4"
    by (simp_all add: pool_life_def demo_tree_pool_def BufferPoolManager_def LRUKReplacer_def)
  then show "room 1000 3 demo_tree_pool" using p by (simp add: room_def SIZE_MAX_def)
qed

lemma demo_tree:
  "\<exists>t b p. BPT_Insert (BPlusTree 4 4) demo_tree_pool 7 (RID 0 1) = Some (Inr ((True, t), b)) \<and>
     holds_tree t b (Some (Lf p [(7, RID 0 1)])) \<and> room 999 3 b \<and> leaf_max_size t = 4 \<and> internal_max_size t = 4"
proof -
  let ?t = "BPlusTree 4 4"
  have t: "leaf_max_size ?t = 4" "internal_max_size ?t = 4" "IsEmpty ?t" by (simp_all add: BPlusTree_def IsEmpty_def)
  have "room 1 1 demo_tree_pool" using demo_tree_pool(2) by (simp add: room_def)
  from insert_first_at [OF demo_tree_pool(1) this, of ?t 7 "RID 0 1"] t obtain t' b' p where
    i: "insert_first ?t demo_tree_pool 7 (RID 0 1) = Inr ((True, t'), b')" "holds_tree t' b' (Some (Lf p [(7, RID 0 1)]))"
    "pins b' = pins demo_tree_pool" "leaf_max_size t' = 4" "internal_max_size t' = 4" "pool_size b' = pool_size demo_tree_pool"
    "pool_life demo_tree_pool - 1 \<le> pool_life b'" by auto
  have "room 999 3 b'" using demo_tree_pool(2) i(3,6,7) by (auto simp: room_def)
  then show ?thesis using i t(3) by (auto simp: BPT_Insert_def)
qed

lemma GetValue_correct_witness:
  "\<exists>t b b'. BPT_Insert (BPlusTree 4 4) demo_tree_pool 7 (RID 0 1) = Some (Inr ((True, t), b)) \<and>
     GetValue t b 7 = Some (Inr (Some (RID 0 1), b'))"
proof -
  from demo_tree obtain t b p where d: "BPT_Insert (BPlusTree 4 4) demo_tree_pool 7 (RID 0 1) = Some (Inr ((True, t), b))"
    "holds_tree t b (Some (Lf p [(7, RID 0 1)]))" "room 999 3 b" by blast
  have "room (height (Some (Lf p [(7, RID 0 1)]))) 1 b" using d(3) by (simp add: room_def height_def)
  from GetValue_correct [OF d(2) this, of 7] d(1) show ?thesis by (auto simp: bindings_def)
qed

lemma iterator_in_order_witness:
  "\<exists>t b it b1 b2. BPT_Insert (BPlusTree 4 4) demo_tree_pool 7 (RID 0 1) = Some (Inr ((True, t), b)) \<and>
     BPT_Begin t b = Some (Inr (it, b1)) \<and> BPT_scan 1 b1 it = Some (Inr ([(7, RID 0 1)], b2))"
proof -
  from demo_tree obtain t b p where d: "BPT_Insert (BPlusTree 4 4) demo_tree_pool 7 (RID 0 1) = Some (Inr ((True, t), b))"
    "holds_tree t b (Some (Lf p [(7, RID 0 1)]))" "room 999 3 b" by blast
  let ?To = "Some (Lf p [(7, RID 0 1)])"
  have "room (height ?To + 2 * length (bindings ?To)) 1 b" using d(3) by (simp add: room_def height_def bindings_def)
  from iterator_in_order [OF d(2) this] d(1) show ?thesis unfolding bindings_def by fastforce
qed

lemma BPT_Insert_correct_witness:
  "\<exists>t b t' b' To'. BPT_Insert (BPlusTree 4 4) demo_tree_pool 7 (RID 0 1) = Some (Inr ((True, t), b)) \<and>
     BPT_Insert t b 3 (RID 0 2) = Some (Inr ((True, t'), b')) \<and> holds_tree t' b' To' \<and>
     map_of (bindings To') = [7 \<mapsto> RID 0 1, 3 \<mapsto> RID 0 2]"
proof -
  from demo_tree obtain t b p where d: "BPT_Insert (BPlusTree 4 4) demo_tree_pool 7 (RID 0 1) = Some (Inr ((True, t), b))"
    "holds_tree t b (Some (Lf p [(7, RID 0 1)]))" "room 999 3 b" "leaf_max_size t = 4" "internal_max_size t = 4" by blast
  have "room ((height (Some (Lf p [(7, RID 0 1)])) + 1) * (internal_max_size t + 5)) 3 b"
    using d(3,5) by (simp add: room_def height_def)
  from BPT_Insert_correct [OF d(2) this, of 3 "RID 0 2"] d show ?thesis by (fastforce simp: bindings_def capacities)
qed

text \<open>
  C38. With the sizes that the constructor sets by default, a leaf is split only after it has been
  filled beyond the page: the insertion into a full leaf writes behind the end of the page.
\<close>

theorem default_leaf_overflow:
  assumes "holds_tree t b (Some T)" "room (height (Some T)) 1 b" "leaf_max_size t = leaf_max_size (BPlusTree 0 0)"
    and "leaf_for (Some key) T = Lf p es" "length es = leaf_max_size t" "key \<notin> fst ` set es"
  shows "\<exists>e. BPT_Insert t b key val = Some (Inl (UndefinedBehaviour e))"
proof -
  from find_leaf [OF assms(1,2), of "Some key"] obtain f b1 l where
    l: "FindLeaf (child_fun (Some key)) t b = Some (Inr ((p, f), b1))"
      "pool_at {} ((pins b)(p := pins b p + 1)) (page_view b) (set (ids T)) (pool_life b - height (Some T)) (next_page_id (disk_manager b)) b1"
      "holds b1 f p" "page_view b p = LeafPage l" "leaf_list l = es" "leaf_ordered l" "p \<in> set (ids T)"
    unfolding assms(4) btree.inject by metis
  have rd: "page_read b1 f = LeafPage l" using pool_at_read [OF l(2,7,3)] l(4) by simp
  have "lp_size l = LEAF_CAPACITY" using assms(3,5) l(5) length_leaf_list [of l] by (simp add: BPlusTree_def)
  moreover have "\<not> Leaf_found l key (Leaf_KeyIndex l key)" using leaf_found [OF l(6)] assms(6) l(5) by simp
  ultimately obtain e where "Leaf_Insert l key val = Inl (UndefinedBehaviour e)"
    by (auto simp: Leaf_Insert_def Let_def fits_def)
  then show ?thesis
    using l(1) [unfolded child_fun_simps] rd tid_valid [OF assms(1)] by (simp add: BPT_Insert_def cbind_def as_leaf_def)
qed

definition full_leaf :: leaf_page where
  "full_leaf = (Leaf_Init LEAF_CAPACITY)\<lparr>lp_size := LEAF_CAPACITY, lp_array := (\<lambda>i. (int i, RID 0 (of_nat i)))\<rparr>"

lemma default_leaf_overflow_witness:
  "\<exists>t b e. leaf_max_size t = leaf_max_size (BPlusTree 0 0) \<and> BPT_Insert t b 1000 (RID 0 0) = Some (Inl (UndefinedBehaviour e))"
proof -
  let ?t = "BPlusTree 0 0"
  have f: "leaf_ordered full_leaf" "lp_size full_leaf = LEAF_CAPACITY" "lp_max full_leaf = LEAF_CAPACITY"
    "lp_parent full_leaf = INVALID_PAGE_ID" "lp_next full_leaf = INVALID_PAGE_ID"
    by (simp_all add: full_leaf_def Leaf_Init_def leaf_ordered_def ascending_def Leaf_KeyAt_def)
  have t: "leaf_max_size ?t = LEAF_CAPACITY" by (simp add: BPlusTree_def)
  have r: "room 1 1 demo_tree_pool" using demo_tree_pool(2) by (simp add: room_def)
  from new_leaf_at [OF demo_tree_pool(1) r f(1), of ?t] f(2-5) t capacities(1) obtain p b' where
    b: "holds_tree (?t\<lparr>root_page_id := p\<rparr>) b' (Some (Lf p (leaf_list full_leaf)))" "pins b' = pins demo_tree_pool"
      "pool_size b' = pool_size demo_tree_pool" "pool_life demo_tree_pool - 1 \<le> pool_life b'"
    unfolding Let_def by auto
  have "room (height (Some (Lf p (leaf_list full_leaf)))) 1 b'" using demo_tree_pool(2) b(2-4) by (auto simp: room_def height_def)
  moreover have "1000 \<notin> fst ` set (leaf_list full_leaf)" by (auto simp: leaf_list_def full_leaf_def capacities)
  ultimately show ?thesis
    using default_leaf_overflow [OF b(1), of 1000 p "leaf_list full_leaf"] f(2) t
    by (intro exI [of _ "?t\<lparr>root_page_id := p\<rparr>"] exI [of _ b']) auto
qed

end
