(* ===== verification/Expressions.thy ===== *)
theory Expressions
  imports Schema_Tuple
begin

text \<open>
  The expressions of query plans: \<^verbatim>\<open>execution/expressions/*.h\<close>. The abstract class with its subclasses
  is a datatype, the virtual methods \<^verbatim>\<open>Evaluate\<close> and \<^verbatim>\<open>EvaluateJoin\<close> are functions by recursion on it. The
  lemmas show that an expression that is typed in the schema evaluates to a value of its type, and that
  evaluation over two joined rows is evaluation over the concatenated row.
\<close>

section \<open>Expressions\<close>

datatype comparison_type = Equal | NotEqual | LessThan | LessThanOrEqual | GreaterThan | GreaterThanOrEqual

datatype arithmetic_type = Plus | Minus | Multiply | Divide | Modulo

datatype logic_type = And | Or

datatype expr =
    ColumnValueExpression (GetTupleIdx: nat) (GetColIdx: nat) type_id
  | ConstantValueExpression (GetValue: val)
  | ComparisonExpression expr expr comparison_type
  | ArithmeticExpression expr expr arithmetic_type
  | LogicExpression expr expr logic_type
  | NullExpression

text \<open>
  The return type. The constructor of \<^verbatim>\<open>ArithmeticExpression\<close> moves its argument \<^verbatim>\<open>left\<close> into the vector
  of children and, in another argument of the same call, reads the type of \<^verbatim>\<open>left\<close>: the order of the two
  is not specified, and the parameter \<open>moved_first\<close> says which comes first (a moved pointer is null). A child may be a null
  pointer, \<open>NullExpression\<close>: the constructor takes INTEGER for it, and every other use of it is undefined behaviour.
\<close>

primrec GetReturnType :: "bool \<Rightarrow> expr \<Rightarrow> type_id" where
  "GetReturnType moved_first (ColumnValueExpression ti ci t) = t"
| "GetReturnType moved_first (ConstantValueExpression v) = v_type v"
| "GetReturnType moved_first (ComparisonExpression l r c) = T_BOOLEAN"
| "GetReturnType moved_first (ArithmeticExpression l r a) = (if moved_first then T_INTEGER else GetReturnType moved_first l)"
| "GetReturnType moved_first (LogicExpression l r g) = T_BOOLEAN"
| "GetReturnType moved_first NullExpression = T_INTEGER"

section \<open>Evaluation\<close>

definition PerformComparison :: "comparison_type \<Rightarrow> val \<Rightarrow> val \<Rightarrow> val res" where
  "PerformComparison c left right =
     (case c of
        Equal \<Rightarrow> CompareEquals left right
      | NotEqual \<Rightarrow> CompareNotEquals left right
      | LessThan \<Rightarrow> CompareLessThan left right
      | LessThanOrEqual \<Rightarrow> CompareLessThanOrEqual left right
      | GreaterThan \<Rightarrow> CompareGreaterThan left right
      | GreaterThanOrEqual \<Rightarrow> CompareGreaterThanOrEqual left right)"

definition PerformComputation :: "arithmetic_type \<Rightarrow> val \<Rightarrow> val \<Rightarrow> val res" where
  "PerformComputation a left right =
     (case a of
        Plus \<Rightarrow> Value_Add left right
      | Minus \<Rightarrow> Value_Subtract left right
      | Multiply \<Rightarrow> Value_Multiply left right
      | Divide \<Rightarrow> Value_Divide left right
      | Modulo \<Rightarrow> Value_Modulo left right)"

definition PerformLogic :: "logic_type \<Rightarrow> val \<Rightarrow> val \<Rightarrow> val res" where
  "PerformLogic g left right = (case g of And \<Rightarrow> Value_And left right | Or \<Rightarrow> Value_Or left right)"

text \<open>\<open>None\<close> stands for the null pointers that an index scan passes as tuple and schema.\<close>

definition column_value :: "(tuple \<times> schema) option \<Rightarrow> nat \<Rightarrow> val res" where
  "column_value row i =
     (case row of
        None \<Rightarrow> Inl (UndefinedBehaviour ''null tuple dereferenced'')
      | Some (t, s) \<Rightarrow> Tuple_GetColumn t s i)"

definition null_expression :: "val res" where
  "null_expression = Inl (UndefinedBehaviour ''null expression dereferenced'')"

primrec Evaluate :: "expr \<Rightarrow> (tuple \<times> schema) option \<Rightarrow> val res" where
  "Evaluate (ColumnValueExpression ti ci t) row = column_value row ci"
| "Evaluate (ConstantValueExpression v) row = Inr v"
| "Evaluate (ComparisonExpression l r c) row =
     rbind (Evaluate l row) (\<lambda>left. rbind (Evaluate r row) (\<lambda>right. PerformComparison c left right))"
| "Evaluate (ArithmeticExpression l r a) row =
     rbind (Evaluate l row) (\<lambda>left. rbind (Evaluate r row) (\<lambda>right. PerformComputation a left right))"
| "Evaluate (LogicExpression l r g) row =
     rbind (Evaluate l row) (\<lambda>left. rbind (Evaluate r row) (\<lambda>right. PerformLogic g left right))"
| "Evaluate NullExpression row = null_expression"

primrec EvaluateJoin :: "expr \<Rightarrow> tuple \<times> schema \<Rightarrow> tuple \<times> schema \<Rightarrow> val res" where
  "EvaluateJoin (ColumnValueExpression ti ci t) lrow rrow = column_value (Some (if ti = 0 then lrow else rrow)) ci"
| "EvaluateJoin (ConstantValueExpression v) lrow rrow = Inr v"
| "EvaluateJoin (ComparisonExpression l r c) lrow rrow =
     rbind (EvaluateJoin l lrow rrow) (\<lambda>left. rbind (EvaluateJoin r lrow rrow) (\<lambda>right. PerformComparison c left right))"
| "EvaluateJoin (ArithmeticExpression l r a) lrow rrow =
     rbind (EvaluateJoin l lrow rrow) (\<lambda>left. rbind (EvaluateJoin r lrow rrow) (\<lambda>right. PerformComputation a left right))"
| "EvaluateJoin (LogicExpression l r g) lrow rrow =
     rbind (EvaluateJoin l lrow rrow) (\<lambda>left. rbind (EvaluateJoin r lrow rrow) (\<lambda>right. PerformLogic g left right))"
| "EvaluateJoin NullExpression lrow rrow = null_expression"

section \<open>Types\<close>

text \<open>
  \<open>has_type \<Gamma> e T\<close>: the expression has the type \<open>T\<close> when column \<open>ci\<close> of the row \<open>ti\<close> has the type
  \<open>\<Gamma> ti ci\<close> and is declared with it.
\<close>

inductive has_type :: "(nat \<Rightarrow> nat \<Rightarrow> type_id option) \<Rightarrow> expr \<Rightarrow> type_id \<Rightarrow> bool" for \<Gamma> where
  col: "\<Gamma> ti ci = Some T \<Longrightarrow> has_type \<Gamma> (ColumnValueExpression ti ci T) T"
| const: "val_ok v \<Longrightarrow> has_type \<Gamma> (ConstantValueExpression v) (v_type v)"
| equality: "has_type \<Gamma> l T \<Longrightarrow> has_type \<Gamma> r T \<Longrightarrow> c = Equal \<or> c = NotEqual \<Longrightarrow>
    has_type \<Gamma> (ComparisonExpression l r c) T_BOOLEAN"
| ordering: "has_type \<Gamma> l T \<Longrightarrow> has_type \<Gamma> r T \<Longrightarrow> T \<noteq> T_BOOLEAN \<Longrightarrow> has_type \<Gamma> (ComparisonExpression l r c) T_BOOLEAN"
| arith: "has_type \<Gamma> l T \<Longrightarrow> has_type \<Gamma> r T \<Longrightarrow> T = T_INTEGER \<or> T = T_FLOAT \<and> a \<noteq> Modulo \<Longrightarrow>
    has_type \<Gamma> (ArithmeticExpression l r a) T"
| logic: "has_type \<Gamma> l T_BOOLEAN \<Longrightarrow> has_type \<Gamma> r T_BOOLEAN \<Longrightarrow> has_type \<Gamma> (LogicExpression l r g) T_BOOLEAN"

inductive_cases has_type_cases:
  "has_type \<Gamma> (ColumnValueExpression ti ci t) T"
  "has_type \<Gamma> (ConstantValueExpression v) T"
  "has_type \<Gamma> (ComparisonExpression l r c) T"
  "has_type \<Gamma> (ArithmeticExpression l r a) T"
  "has_type \<Gamma> (LogicExpression l r g) T"

definition row_types :: "column list \<Rightarrow> nat \<Rightarrow> nat \<Rightarrow> type_id option" where
  "row_types cs ti ci = (if ci < length cs then Some (c_type (cs ! ci)) else None)"

definition join_types :: "column list \<Rightarrow> column list \<Rightarrow> nat \<Rightarrow> nat \<Rightarrow> type_id option" where
  "join_types lcs rcs ti ci = (if ti = 0 then row_types lcs ti ci else row_types rcs ti ci)"

text \<open>What a typed expression may still end with: a division by zero, or a signed overflow.\<close>

definition arithmetic_exn :: "exn \<Rightarrow> bool" where
  "arithmetic_exn e \<longleftrightarrow> e = LogicError ''Division by zero'' \<or> e = LogicError ''Modulo by zero'' \<or>
     e = UndefinedBehaviour ''signed integer overflow''"

definition good :: "type_id \<Rightarrow> val res \<Rightarrow> bool" where
  "good T r \<longleftrightarrow> (case r of Inl e \<Rightarrow> arithmetic_exn e | Inr v \<Rightarrow> v_type v = T \<and> val_ok v)"

lemma good_Inr [simp]: "good T (Inr v) \<longleftrightarrow> v_type v = T \<and> val_ok v"
  by (simp add: good_def)

lemma good_rbind: "good T r \<Longrightarrow> (\<And>v. r = Inr v \<Longrightarrow> v_type v = T \<Longrightarrow> val_ok v \<Longrightarrow> good U (f v)) \<Longrightarrow> good U (rbind r f)"
  by (cases r) (auto simp: good_def)

lemma good_values [simp]:
  "val_ok (SQL_bool b)" "val_ok (SQL_int i)" "val_ok (Value_float T_FLOAT f)" "v_type (SQL_bool b) = T_BOOLEAN"
  "v_type (SQL_int i) = T_INTEGER" "v_type (Value_float T_FLOAT f) = T_FLOAT" "good T_INTEGER (int_result n)"
  by (auto simp: val_ok_def Value_bool_def Value_int_def Value_float_def v_bool_def int_result_def good_def arithmetic_exn_def)

lemma good_assert: "good T k \<Longrightarrow> arithmetic_exn (LogicError msg) \<Longrightarrow> good T (ONEBASE_ASSERT b msg k)"
  by (cases b) (simp_all add: good_def)

lemma good_comparison:
  assumes "v_type v = T" "v_type w = T" "val_ok v" "c = Equal \<or> c = NotEqual \<or> T \<noteq> T_BOOLEAN"
  shows "good T_BOOLEAN (PerformComparison c v w)"
proof -
  have "T \<noteq> T_INVALID" using assms(1,3) by (auto simp: val_ok_def)
  then show ?thesis
    using assms by (cases c; cases T; simp add: PerformComparison_def CompareEquals_def CompareNotEquals_def
      CompareLessThan_def CompareLessThanOrEqual_def CompareGreaterThan_def CompareGreaterThanOrEqual_def)
qed

lemma good_computation:
  assumes "v_type v = T" "v_type w = T" "T = T_INTEGER \<or> T = T_FLOAT \<and> a \<noteq> Modulo"
  shows "good T (PerformComputation a v w)"
  using assms
  by (cases a) (auto simp: PerformComputation_def Value_Add_def Value_Subtract_def Value_Multiply_def Value_Divide_def
    Value_Modulo_def arithmetic_exn_def intro!: good_assert good_rbind [of T_INTEGER])

lemma good_logic: "v_type v = T_BOOLEAN \<Longrightarrow> v_type w = T_BOOLEAN \<Longrightarrow> good T_BOOLEAN (PerformLogic g v w)"
  by (cases g) (simp_all add: PerformLogic_def Value_And_def Value_Or_def)

text \<open>The two evaluations are one, over a look-up of columns.\<close>

primrec eval_with :: "(nat \<Rightarrow> nat \<Rightarrow> val res) \<Rightarrow> expr \<Rightarrow> val res" where
  "eval_with c (ColumnValueExpression ti ci t) = c ti ci"
| "eval_with c (ConstantValueExpression v) = Inr v"
| "eval_with c (ComparisonExpression l r p) =
     rbind (eval_with c l) (\<lambda>left. rbind (eval_with c r) (\<lambda>right. PerformComparison p left right))"
| "eval_with c (ArithmeticExpression l r a) =
     rbind (eval_with c l) (\<lambda>left. rbind (eval_with c r) (\<lambda>right. PerformComputation a left right))"
| "eval_with c (LogicExpression l r g) =
     rbind (eval_with c l) (\<lambda>left. rbind (eval_with c r) (\<lambda>right. PerformLogic g left right))"
| "eval_with c NullExpression = null_expression"

lemma Evaluate_with: "Evaluate e row = eval_with (\<lambda>ti. column_value row) e"
  by (induction e) simp_all

lemma EvaluateJoin_with:
  "EvaluateJoin e lrow rrow = eval_with (\<lambda>ti. column_value (Some (if ti = 0 then lrow else rrow))) e"
  by (induction e) simp_all

lemma eval_with_good:
  assumes "has_type \<Gamma> e T" "\<And>ti ci T. \<Gamma> ti ci = Some T \<Longrightarrow> good T (c ti ci)"
  shows "good T (eval_with c e)"
  using assms(1)
proof induction
  case (col ti ci T)
  then show ?case using assms(2) by simp
next
  case (equality l T r c)
  then show ?case by (auto intro!: good_rbind [of T] good_comparison)
next
  case (ordering l T r c)
  then show ?case by (auto intro!: good_rbind [of T] good_comparison)
next
  case (arith l T r a)
  show ?case unfolding eval_with.simps
    by (rule good_rbind [OF arith(4)], rule good_rbind [OF arith(5)], rule good_computation) (use arith(3) in auto)
next
  case (logic l r g)
  then show ?case by (auto intro!: good_rbind [of T_BOOLEAN] good_logic)
qed simp

lemma has_type_return: "has_type \<Gamma> e T \<Longrightarrow> GetReturnType False e = T"
  by (induction rule: has_type.induct) simp_all

lemma row_column:
  assumes "row_ok cs vs" "Tuple vs = Inr t" "i < length cs"
  shows "column_value (Some (t, s)) i = Inr (vs ! i)"
proof -
  have "t_values t = vs" using assms(2) by (auto simp: Tuple_def)
  then show ?thesis using assms(1,3) by (auto simp: column_value_def Tuple_GetColumn_def row_ok_def)
qed

text \<open>
  C25. An expression that is typed in the schema of a row (or of two joined rows) evaluates to a value
  of its type: the only errors are a division by zero and a signed overflow. Its type is the one that
  \<^verbatim>\<open>GetReturnType\<close> gives, when the constructor read the type of the operand before moving it.
\<close>

theorem typed_expressions_evaluate:
  assumes "row_ok lcs lvs" "row_ok rcs rvs" "Tuple lvs = Inr lt" "Tuple rvs = Inr rt"
  shows "(has_type (row_types lcs) e T \<longrightarrow> good T (Evaluate e (Some (lt, Schema lcs))) \<and> GetReturnType False e = T) \<and>
    (has_type (join_types lcs rcs) e T \<longrightarrow> good T (EvaluateJoin e (lt, Schema lcs) (rt, Schema rcs)) \<and> GetReturnType False e = T)"
proof (intro conjI impI)
  have col: "good T (Inr (vs ! ci))" if "row_types cs ti ci = Some T" "row_ok cs vs" for cs vs ti ci T
    using that by (auto simp: row_types_def row_ok_def split: if_splits)
  have c: "good T (column_value (Some (lt, Schema lcs)) ci)" if "row_types lcs ti ci = Some T" for ti ci T
    using col [OF that assms(1)] row_column [OF assms(1,3)] that by (simp add: row_types_def split: if_splits)
  show "good T (Evaluate e (Some (lt, Schema lcs)))" if "has_type (row_types lcs) e T"
    unfolding Evaluate_with by (rule eval_with_good [OF that c])
  have "good T (column_value (Some (if ti = 0 then (lt, Schema lcs) else (rt, Schema rcs))) ci)"
    if "join_types lcs rcs ti ci = Some T" for ti ci T
  proof (cases "ti = 0")
    case True
    then show ?thesis using c that by (simp add: join_types_def)
  next
    case False
    then have "row_types rcs ti ci = Some T" using that by (simp add: join_types_def)
    then show ?thesis using col [OF _ assms(2)] row_column [OF assms(2,4)] False by (simp add: row_types_def split: if_splits)
  qed
  then show "good T (EvaluateJoin e (lt, Schema lcs) (rt, Schema rcs))" if "has_type (join_types lcs rcs) e T"
    unfolding EvaluateJoin_with by (rule eval_with_good [OF that])
qed (simp_all add: has_type_return)

text \<open>With a right operand of the same type and the move first, a FLOAT sum is declared INTEGER.\<close>

lemma moved_first_type: "GetReturnType True (ArithmeticExpression l r a) = T_INTEGER"
  by simp

section \<open>Joined rows\<close>

text \<open>The columns of the right row follow those of the left one in the joined row.\<close>

primrec shift :: "nat \<Rightarrow> expr \<Rightarrow> expr" where
  "shift n (ColumnValueExpression ti ci t) = ColumnValueExpression 0 (if ti = 0 then ci else n + ci) t"
| "shift n (ConstantValueExpression v) = ConstantValueExpression v"
| "shift n (ComparisonExpression l r c) = ComparisonExpression (shift n l) (shift n r) c"
| "shift n (ArithmeticExpression l r a) = ArithmeticExpression (shift n l) (shift n r) a"
| "shift n (LogicExpression l r g) = LogicExpression (shift n l) (shift n r) g"

text \<open>
  C26. Evaluating an expression over two rows is evaluating it, with the columns of the right row
  renumbered, over the row that a join makes of them.
\<close>

theorem EvaluateJoin_joined_row:
  assumes "has_type (join_types lcs rcs) e T" "row_ok lcs lvs" "row_ok rcs rvs"
    and "Tuple lvs = Inr lt" "Tuple rvs = Inr rt" "Tuple (lvs @ rvs) = Inr t"
  shows "EvaluateJoin e (lt, Schema lcs) (rt, Schema rcs) = Evaluate (shift (length lcs) e) (Some (t, s))"
proof -
  have row: "column_value (Some (t, s)) i = Inr ((lvs @ rvs) ! i)" if "i < length lcs + length rcs" for i
  proof -
    have "t_values t = lvs @ rvs" using assms(6) by (auto simp: Tuple_def)
    then show ?thesis using assms(2,3) that by (auto simp: column_value_def Tuple_GetColumn_def row_ok_def)
  qed
  have len: "length lvs = length lcs" using assms(2) by (simp add: row_ok_def)
  show ?thesis using assms(1)
  proof induction
    case (col ti ci T)
    show ?case
    proof (cases "ti = 0")
      case True
      with col have "ci < length lcs" by (simp add: join_types_def row_types_def split: if_splits)
      then show ?thesis using True row [of ci] row_column [OF assms(2,4)] len by (simp add: nth_append)
    next
      case False
      with col have "ci < length rcs" by (simp add: join_types_def row_types_def split: if_splits)
      then show ?thesis using False row [of "length lcs + ci"] row_column [OF assms(3,5)] len by (simp add: nth_append)
    qed
  qed simp_all
qed

section \<open>Witnesses\<close>

abbreviation demo_columns :: "column list" where
  "demo_columns \<equiv> [Column ''a'' T_INTEGER 0, Column ''b'' T_INTEGER 0]"

text \<open>\<open>a < a + b\<close>, and \<open>left.a = right.b\<close>.\<close>

definition demo_expr :: expr where
  "demo_expr = ComparisonExpression (ColumnValueExpression 0 0 T_INTEGER)
     (ArithmeticExpression (ColumnValueExpression 0 0 T_INTEGER) (ColumnValueExpression 0 1 T_INTEGER) Plus) LessThan"

definition demo_join_expr :: expr where
  "demo_join_expr = ComparisonExpression (ColumnValueExpression 0 0 T_INTEGER) (ColumnValueExpression 1 1 T_INTEGER) Equal"

lemma demo_columns: "length demo_columns = 2" "c_type (demo_columns ! 0) = T_INTEGER" "c_type (demo_columns ! 1) = T_INTEGER"
  by (simp_all add: Column_def)

lemma demo_row:
  "row_ok demo_columns [SQL_int i, SQL_int j]" "\<exists>t. Tuple [SQL_int i, SQL_int j] = Inr t"
  using Tuple_ok [of "[SQL_int i, SQL_int j]"] by (auto simp: row_ok_def less_Suc_eq Column_def)

lemma demo_typed:
  "has_type (row_types demo_columns) demo_expr T_BOOLEAN" "has_type (join_types demo_columns demo_columns) demo_join_expr T_BOOLEAN"
  unfolding demo_expr_def demo_join_expr_def
  by (rule has_type.ordering [of _ _ T_INTEGER] has_type.equality [of _ _ T_INTEGER] has_type.arith has_type.col |
      simp add: row_types_def join_types_def Column_def)+

lemma typed_expressions_evaluate_witness:
  "\<exists>t. Tuple [SQL_int 1, SQL_int 2] = Inr t \<and> good T_BOOLEAN (Evaluate demo_expr (Some (t, Schema demo_columns))) \<and>
     good T_BOOLEAN (EvaluateJoin demo_join_expr (t, Schema demo_columns) (t, Schema demo_columns))"
proof -
  obtain t where t: "Tuple [SQL_int 1, SQL_int 2] = Inr t" using demo_row(2) by blast
  note typed_expressions_evaluate [OF demo_row(1) demo_row(1) t t]
  then show ?thesis using t demo_typed by blast
qed

lemma EvaluateJoin_joined_row_witness:
  "\<exists>t t'. Tuple [SQL_int 1, SQL_int 2] = Inr t \<and> Tuple [SQL_int 1, SQL_int 2, SQL_int 1, SQL_int 2] = Inr t' \<and>
     EvaluateJoin demo_join_expr (t, Schema demo_columns) (t, Schema demo_columns) = Evaluate (shift 2 demo_join_expr) (Some (t', Schema []))"
proof -
  obtain t where t: "Tuple [SQL_int 1, SQL_int 2] = Inr t" using demo_row(2) by blast
  obtain t' where t': "Tuple ([SQL_int 1, SQL_int 2] @ [SQL_int 1, SQL_int 2]) = Inr t'"
    using Tuple_ok [of "[SQL_int 1, SQL_int 2] @ [SQL_int 1, SQL_int 2]"] by auto
  show ?thesis using EvaluateJoin_joined_row [OF demo_typed(2) demo_row(1) demo_row(1) t t t', of "Schema []"] t t'
    by (simp only: demo_columns append.simps) blast
qed

end
