(* ===== verification/Heap_Scan.thy ===== *)
theory Heap_Scan
  imports Table_Heap
begin

text \<open>
  The steps of a sequential scan, one lemma per call: \<^verbatim>\<open>Begin\<close>, \<^verbatim>\<open>operator++\<close> and \<^verbatim>\<open>GetTuple\<close> on a heap whose
  live records are known. The loops over a heap in the catalog and in the executors are proved with them. The
  heap is described by its pages \<open>ps\<close> in the view \<open>V\<close> of the pool; \<open>heap_room\<close> says that enough of the pool is left.
\<close>

definition heap_at :: "heap_pool \<Rightarrow> (page_id \<Rightarrow> int) \<Rightarrow> (page_id \<Rightarrow> table_data) \<Rightarrow> page_id set \<Rightarrow> page_id list \<Rightarrow> nat \<Rightarrow> page_id \<Rightarrow> bool" where
  "heap_at b P V S ps L F \<longleftrightarrow> pool_at {} P V S L F b \<and> set ps \<subseteq> S \<and> heap_pages V ps \<and> card {q. 0 < P q} < pool_size b"

lemma heap_atD:
  assumes "heap_at b P V S ps L F"
  shows "pool_at {} P V S L F b" "set ps \<subseteq> S" "heap_pages V ps" "card {q. 0 < P q} < pool_size b"
    "\<forall>q \<in> set ps. page_inv (V q) \<and> 0 \<le> q" "linked V ps" "ps \<noteq> []"
  using assms by (auto simp: heap_at_def heap_pages_def)

lemma heap_at_step:
  "heap_at b P V S ps L F \<Longrightarrow> pool_at {} P V S L' F b' \<Longrightarrow> pool_size b' = pool_size b \<Longrightarrow> heap_at b' P V S ps L' F"
  by (simp add: heap_at_def)

lemma heap_at_weaken: "heap_at b P V S ps L F \<Longrightarrow> L' \<le> L \<Longrightarrow> heap_at b P V S ps L' F"
  using pool_at_weaken [of _ _ _ _ _ _ _ S L' V] by (auto simp: heap_at_def)

lemma heap_ok_heap_at:
  "heap_ok b first ps \<Longrightarrow> room_for n 1 b \<Longrightarrow> heap_at b (pins b) (page_view b) (set ps) ps n (next_page_id (disk_manager b))"
  using heap_ok_at [of b first ps] pool_at_weaken [OF _ subset_refl, of _ _ _ "set ps" _ _ b n]
  by (auto simp: heap_at_def heap_ok_def room_for_def)

lemma heap_at_ok:
  assumes "heap_at b P V S ps L F"
  shows "heap_ok b (hd ps) ps" "heap_contents b ps = heap_map V ps" "pins b = P"
  using at_heap_ok [OF heap_atD(1,3,2) [OF assms] refl] by blast+

lemma Begin_at:
  assumes "heap_at b P V S ps L F" "length ps \<le> L"
  shows "\<exists>b'. Heap_Begin b (hd ps) = Some (Inr (hd (live V ps @ [Heap_End]), b')) \<and> heap_at b' P V S ps (L - length ps) F \<and> pool_size b' = pool_size b"
proof -
  note h = heap_atD [OF assms(1)]
  obtain p suf where ps: "ps = p # suf" using h(7) by (cases ps) auto
  from scan_walk [OF h(1) h(2,5,6) [unfolded ps], of 0] obtain r b' where
    r: "walk scan_round Heap_End b (p, 0) = Some (Inr (r, b'))" "pool_at {} P V S (L - length ps) F b'" "pool_size b' = pool_size b"
      "r = hd (live V ps @ [Heap_End]) \<or> exhausted (length ps) 1 L P b" by (auto simp: ps)
  have "\<not> exhausted (length ps) 1 L P b" using assms(2) h(4) by (auto simp: exhausted_def)
  then show ?thesis using r heap_at_step [OF assms(1) r(2,3)] ps by (simp add: Heap_Begin_def Heap_End_def)
qed

lemma live_middle:
  assumes "live V ps = pre @ r # post"
  shows "\<exists>q i qs suf. ps = qs @ q # suf \<and> r = RID q (of_nat i) \<and> i < slots (V q) \<and> 0 < slot_len (V q) i \<and>
    post = live_from V q (Suc i) @ live V suf"
  using assms
proof (induction ps arbitrary: pre)
  case (Cons p suf)
  from Cons.prems have e: "live_from V p 0 @ live V suf = pre @ r # post" by simp
  show ?case
  proof (cases "length pre < length (live_from V p 0)")
    case False
    then have "live V suf = drop (length (live_from V p 0)) pre @ r # post"
      using arg_cong [OF e, of "drop (length (live_from V p 0))"] by simp
    from Cons.IH [OF this] obtain q i qs suf' where "suf = qs @ q # suf'" "r = RID q (of_nat i)" "i < slots (V q)"
      "0 < slot_len (V q) i" "post = live_from V q (Suc i) @ live V suf'" by blast
    then show ?thesis by (intro exI [of _ q] exI [of _ i] exI [of _ "p # qs"] exI [of _ suf']) simp
  next
    case True
    define js where "js = live_slots (V p) 0"
    have lf: "live_from V p 0 = map (\<lambda>i. RID p (of_nat i)) js" by (simp add: live_from_def js_def)
    have len: "length pre < length js" using True lf by simp
    define i where "i = js ! length pre"
    have "r = (live_from V p 0 @ live V suf) ! length pre" by (simp add: e)
    then have r: "r = RID p (of_nat i)" using len by (simp add: lf nth_append i_def)
    have "i \<in> set js" using len by (simp add: i_def)
    then have i: "i < slots (V p)" "0 < slot_len (V p) i" by (auto simp: js_def live_slots_def)
    have split: "js = filter (\<lambda>i. 0 < slot_len (V p) i) [0..<i] @ i # live_slots (V p) (Suc i)"
    proof -
      have "[0..<slots (V p)] = [0..<i] @ [i] @ [Suc i..<slots (V p)]"
        using i(1) by (metis append_Cons append_Nil le0 less_or_eq_imp_le upt_add_eq_append upt_conv_Cons le_Suc_ex)
      then show ?thesis using i(2) by (simp add: js_def live_slots_def)
    qed
    have "distinct js" by (simp add: js_def live_slots_def)
    moreover have "js ! length (filter (\<lambda>i. 0 < slot_len (V p) i) [0..<i]) = i" by (subst split) (simp add: nth_append)
    moreover have "length (filter (\<lambda>i. 0 < slot_len (V p) i) [0..<i]) < length js" using arg_cong [OF split, of length] by simp
    ultimately have "length pre = length (filter (\<lambda>i. 0 < slot_len (V p) i) [0..<i])"
      using len by (metis i_def nth_eq_iff_index_eq)
    then have "drop (Suc (length pre)) js = live_slots (V p) (Suc i)" by (subst split) simp
    moreover have "post = drop (Suc (length pre)) (live_from V p 0 @ live V suf)" by (simp add: e)
    ultimately have "post = live_from V p (Suc i) @ live V suf"
      using len by (simp add: js_def drop_map live_from_def)
    then show ?thesis using r i by (intro exI [of _ p] exI [of _ i] exI [of _ "[]"] exI [of _ suf]) simp
  qed
qed simp

lemma Iterator_next_at:
  assumes "heap_at b P V S ps L F" "live V ps = pre @ r # post" "length ps \<le> L"
  shows "\<exists>b'. Iterator_next b r = Some (Inr (hd (post @ [Heap_End]), b')) \<and> heap_at b' P V S ps (L - length ps) F \<and>
    pool_size b' = pool_size b"
proof -
  note h = heap_atD [OF assms(1)]
  from live_middle [OF assms(2)] obtain q i qs suf where q: "ps = qs @ q # suf" "r = RID q (of_nat i)" "i < slots (V q)"
    "post = live_from V q (Suc i) @ live V suf" by blast
  have "page_inv (V q)" using h(5) q(1) by simp
  then have "Suc i < 2 ^ 16" using page_invD(1,2) q(3) by fastforce
  then have ui: "unat (of_nat i + 1 :: 16 word) = Suc i"
    using unat_of_nat_16 [of "Suc i"] by (simp add: add.commute)
  have li: "linked V (q # suf)" using h(6) q(1) linked_tail by blast
  have sub: "set (q # suf) \<subseteq> S" "\<forall>x \<in> set (q # suf). page_inv (V x) \<and> 0 \<le> x" using h(2,5) q(1) by auto
  from scan_walk [OF h(1) sub li, of "of_nat i + 1"] obtain r2 b' where b':
    "walk scan_round Heap_End b (q, of_nat i + 1) = Some (Inr (r2, b'))" "pool_at {} P V S (L - length (q # suf)) F b'"
    "pool_size b' = pool_size b" "r2 = hd (post @ [Heap_End]) \<or> exhausted (length (q # suf)) 1 L P b"
    using q(4) by (auto simp: ui)
  have "length (q # suf) \<le> length ps" using q(1) by simp
  then have "\<not> exhausted (length (q # suf)) 1 L P b" "L - length ps \<le> L - length (q # suf)"
    using h(4) assms(3) by (auto simp: exhausted_def)
  then show ?thesis
    using b' heap_at_weaken [OF heap_at_step [OF assms(1) b'(2,3)]] by (simp add: Iterator_next_def Heap_End_def q(2))
qed

lemma live_not_end: "heap_pages V ps \<Longrightarrow> r \<in> set (live V ps) \<Longrightarrow> r \<noteq> Heap_End"
  by (auto simp: set_live Heap_End_def heap_pages_def INVALID_PAGE_ID_def)

lemma GetTuple_at:
  assumes "heap_at b P V S ps L F" "heap_map V ps r = Some bs" "0 < L"
  shows "\<exists>b'. Heap_GetTuple b r = Inr (bs, b') \<and> heap_at b' P V S ps (L - 1) F \<and> pool_size b' = pool_size b"
proof -
  note h = heap_atD [OF assms(1)]
  have p: "rid_page_id r \<in> set ps" "rid_page_id r \<in> S" "tuple_at (V (rid_page_id r)) (unat (rid_slot_num r)) = Some bs"
    using assms(2) h(2) by (auto simp: heap_map_def split: if_splits)
  have "FetchPage b (rid_page_id r) \<noteq> Inr (None, b)"
    using fetch_exhausted [OF h(1) p(2)] h(4) assms(3) by (auto simp: exhausted_def)
  with fetch_at [OF h(1) p(2)] obtain f b1 where f: "FetchPage b (rid_page_id r) = Inr (Some f, b1)" by blast
  from visit_at [OF h(1) p(2) _ f] obtain b2 where v: "page_read b1 f = V (rid_page_id r)"
    "UnpinPage b1 (rid_page_id r) False = (True, b2)" "pool_at {} P V S (L - 1) F b2" "pool_size b2 = pool_size b" by auto
  have "Heap_GetTuple b r = Inr (bs, b2)"
    using f v Page_GetTuple_ok [OF heap_pagesD(1) [OF h(3) p(1)] p(3)] by (simp add: Heap_GetTuple_def)
  then show ?thesis using heap_at_step [OF assms(1) v(3,4)] v(4) by blast
qed

end
