(* ===== verification/Catalog.thy ===== *)
theory Catalog
  imports Heap_Scan Schema_Tuple
begin

text \<open>
  The catalog: \<^verbatim>\<open>catalog/catalog.h/.cpp\<close>. Tables and indexes are kept under their object identifiers
  (taken from 32-bit counters, which wrap) and found by their names. An index of one INTEGER column is a hash map from
  keys to record identifiers. A \<^verbatim>\<open>TableInfo *\<close> is the table's information as it is at the call, the heap of a table
  is the number of its first page, and a change through an \<^verbatim>\<open>IndexInfo *\<close> is a change of the catalog under the
  identifier of the index. The lemmas show that the four maps stay consistent and that a new index lists
  exactly the live rows.
\<close>

section \<open>Indexes\<close>

type_synonym table_oid = "32 word"
type_synonym index_oid = "32 word"

record table_info =
  ti_schema :: schema
  ti_name :: string
  ti_table :: page_id
  ti_oid :: table_oid

record index_info =
  ii_key_schema :: schema
  ii_name :: string
  ii_table_name :: string
  ii_oid :: index_oid
  ii_key_attrs :: "nat list"
  ii_supports_point_lookup :: bool
  ii_int_rid_map :: "(32 word, rid list) umap"

definition IndexInfo :: "schema \<Rightarrow> string \<Rightarrow> string \<Rightarrow> index_oid \<Rightarrow> nat list \<Rightarrow> index_info" where
  "IndexInfo s name table_name oid key_attrs =
     \<lparr>ii_key_schema = s, ii_name = name, ii_table_name = table_name, ii_oid = oid, ii_key_attrs = key_attrs,
      ii_supports_point_lookup = False, ii_int_rid_map = []\<rparr>"

text \<open>\<^verbatim>\<open>key_attrs_.front()\<close> of an index: \<open>CreateIndex\<close> makes none without attributes.\<close>

definition GetLookupAttr :: "index_info \<Rightarrow> nat res" where
  "GetLookupAttr ix =
     (case ii_key_attrs ix of [] \<Rightarrow> Inl (UndefinedBehaviour ''front of an empty vector'') | a # _ \<Rightarrow> Inr a)"

definition LookupInteger :: "index_info \<Rightarrow> 32 word \<Rightarrow> rid list option" where
  "LookupInteger ix key = map_of (ii_int_rid_map ix) key"

definition InsertEntry :: "32 word \<Rightarrow> rid \<Rightarrow> index_info \<Rightarrow> index_info" where
  "InsertEntry key r ix =
     ix\<lparr>ii_int_rid_map := AList.update key ((case map_of (ii_int_rid_map ix) key of None \<Rightarrow> [] | Some rs \<Rightarrow> rs) @ [r])
                            (ii_int_rid_map ix)\<rparr>"

definition RemoveEntry :: "32 word \<Rightarrow> rid \<Rightarrow> index_info \<Rightarrow> index_info" where
  "RemoveEntry key r ix =
     (case map_of (ii_int_rid_map ix) key of
        None \<Rightarrow> ix
      | Some rs \<Rightarrow>
          let rids = filter (\<lambda>s. s \<noteq> r) rs
          in if rids = [] then ix\<lparr>ii_int_rid_map := AList.delete key (ii_int_rid_map ix)\<rparr>
             else ix\<lparr>ii_int_rid_map := AList.update key rids (ii_int_rid_map ix)\<rparr>)"

section \<open>The catalog\<close>

record catalog =
  next_table_oid :: table_oid
  next_index_oid :: index_oid
  tables :: "(table_oid, table_info) umap"
  table_names :: "(string, table_oid) umap"
  indexes :: "(index_oid, index_info) umap"
  index_names :: "(string, (string, index_oid) umap) umap"

definition Catalog :: catalog where
  "Catalog = \<lparr>next_table_oid = 1, next_index_oid = 1, tables = [], table_names = [], indexes = [], index_names = []\<rparr>"

definition map_at :: "('k, 'v) umap \<Rightarrow> 'k \<Rightarrow> 'v res" where
  "map_at m k = (case map_of m k of None \<Rightarrow> Inl (LogicError ''unordered_map::at'') | Some v \<Rightarrow> Inr v)"

text \<open>
  A creation takes its identifier from the counter before it does anything that can throw: the catalog it leaves is part
  of the result also when it throws.
\<close>

definition CreateTable :: "catalog \<Rightarrow> heap_pool \<Rightarrow> string \<Rightarrow> schema \<Rightarrow> (table_info option \<times> heap_pool) res \<times> catalog" where
  "CreateTable c b name s =
     (if map_of (table_names c) name \<noteq> None then (Inr (None, b), c)
      else
        let oid = next_table_oid c;
            c1 = c\<lparr>next_table_oid := oid + 1\<rparr>
        in case TableHeap b of
             Inl e \<Rightarrow> (Inl e, c1)
           | Inr (p, b1) \<Rightarrow>
               let info = \<lparr>ti_schema = s, ti_name = name, ti_table = p, ti_oid = oid\<rparr>
               in (Inr (Some info, b1),
                   c1\<lparr>tables := AList.update oid info (tables c), table_names := AList.update name oid (table_names c)\<rparr>))"

definition GetTable_name :: "catalog \<Rightarrow> string \<Rightarrow> table_info option res" where
  "GetTable_name c name =
     (case map_of (table_names c) name of
        None \<Rightarrow> Inr None
      | Some oid \<Rightarrow> rbind (map_at (tables c) oid) (\<lambda>info. Inr (Some info)))"

definition GetTable :: "catalog \<Rightarrow> table_oid \<Rightarrow> table_info option" where
  "GetTable c oid = map_of (tables c) oid"

definition GetAllTables :: "catalog \<Rightarrow> table_info list" where
  "GetAllTables c = map snd (tables c)"

definition GetIndex_name :: "catalog \<Rightarrow> string \<Rightarrow> string \<Rightarrow> index_info option res" where
  "GetIndex_name c index_name table_name =
     (case map_of (index_names c) table_name of
        None \<Rightarrow> Inr None
      | Some m \<Rightarrow>
          (case map_of m index_name of
             None \<Rightarrow> Inr None
           | Some oid \<Rightarrow> rbind (map_at (indexes c) oid) (\<lambda>ix. Inr (Some ix))))"

definition GetIndex :: "catalog \<Rightarrow> index_oid \<Rightarrow> index_info option" where
  "GetIndex c oid = map_of (indexes c) oid"

primrec rmap :: "('a \<Rightarrow> 'b res) \<Rightarrow> 'a list \<Rightarrow> 'b list res" where
  "rmap f [] = Inr []"
| "rmap f (x # xs) = rbind (f x) (\<lambda>y. rbind (rmap f xs) (\<lambda>ys. Inr (y # ys)))"

definition GetTableIndexes :: "catalog \<Rightarrow> string \<Rightarrow> index_info list res" where
  "GetTableIndexes c table_name =
     (case map_of (index_names c) table_name of
        None \<Rightarrow> Inr []
      | Some m \<Rightarrow> rmap (\<lambda>(name, oid). map_at (indexes c) oid) m)"

definition GetAllIndexes :: "catalog \<Rightarrow> index_info list" where
  "GetAllIndexes c = map snd (indexes c)"

text \<open>The loop of \<^verbatim>\<open>CreateIndex\<close> over the rows of the table, from the iterator \<open>r\<close>.\<close>

partial_function (option) fill_index :: "schema \<Rightarrow> nat \<Rightarrow> index_info \<Rightarrow> rid \<Rightarrow> heap_pool \<Rightarrow>
    (index_info \<times> heap_pool) res option" where
  "fill_index s attr ix r b =
     (if r = Heap_End then Some (Inr (ix, b))
      else cbind (Some (Heap_GetTuple b r)) (\<lambda>(bs, b1).
           cbind (Some (rbind (Tuple_GetColumn (stored_tuple r bs) s attr) GetAsInteger)) (\<lambda>key.
           cbind (Iterator_next b1 r) (\<lambda>(r', b2). fill_index s attr (InsertEntry key r ix) r' b2))))"

definition CreateIndex :: "catalog \<Rightarrow> heap_pool \<Rightarrow> string \<Rightarrow> string \<Rightarrow> nat list \<Rightarrow>
    ((index_info option \<times> heap_pool) res \<times> catalog) option" where
  "CreateIndex c b index_name table_name key_attrs =
     (case GetTable_name c table_name of
        Inl e \<Rightarrow> Some (Inl e, c)
      | Inr None \<Rightarrow> Some (Inr (None, b), c)
      | Inr (Some info) \<Rightarrow>
          if index_name = [] \<or> key_attrs = [] then Some (Inr (None, b), c)
          else case GetIndex_name c index_name table_name of
                 Inl e \<Rightarrow> Some (Inl e, c)
               | Inr old \<Rightarrow>
                   if old \<noteq> None then Some (Inr (None, b), c)
                   else if \<exists>attr \<in> set key_attrs. attr \<ge> length (columns (ti_schema info)) then Some (Inr (None, b), c)
                   else
                     let cols = columns (ti_schema info); oid = next_index_oid c;
                         c1 = c\<lparr>next_index_oid := oid + 1\<rparr>;
                         ix = IndexInfo (Schema (map (\<lambda>a. cols ! a) key_attrs)) index_name table_name oid key_attrs
                     in case (if length key_attrs = 1 \<and> c_type (cols ! hd key_attrs) = T_INTEGER
                              then cbind (Heap_Begin b (ti_table info)) (\<lambda>(r, b1).
                                     fill_index (ti_schema info) (hd key_attrs) (ix\<lparr>ii_supports_point_lookup := True\<rparr>) r b1)
                              else Some (Inr (ix, b))) of
                          None \<Rightarrow> None
                        | Some (Inl e) \<Rightarrow> Some (Inl e, c1)
                        | Some (Inr (ix', b')) \<Rightarrow>
                            let names = (case map_of (index_names c) table_name of None \<Rightarrow> [] | Some m \<Rightarrow> m)
                            in Some (Inr (Some ix', b'),
                                 c1\<lparr>indexes := AList.update oid ix' (indexes c),
                                    index_names := AList.update table_name (AList.update index_name oid names) (index_names c)\<rparr>))"

definition DropIndex :: "catalog \<Rightarrow> string \<Rightarrow> string \<Rightarrow> bool \<times> catalog" where
  "DropIndex c index_name table_name =
     (case map_of (index_names c) table_name of
        None \<Rightarrow> (False, c)
      | Some m \<Rightarrow>
          (case map_of m index_name of
             None \<Rightarrow> (False, c)
           | Some oid \<Rightarrow>
               let m' = AList.delete index_name m
               in (True, c\<lparr>indexes := AList.delete oid (indexes c),
                     index_names := (if m' = [] then AList.delete table_name (index_names c)
                                     else AList.update table_name m' (index_names c))\<rparr>)))"

text \<open>A change of an index through a pointer to it.\<close>

definition update_index :: "index_oid \<Rightarrow> (index_info \<Rightarrow> index_info) \<Rightarrow> catalog \<Rightarrow> catalog" where
  "update_index oid f c =
     (case map_of (indexes c) oid of
        None \<Rightarrow> c
      | Some ix \<Rightarrow> c\<lparr>indexes := AList.update oid (f ix) (indexes c)\<rparr>)"

section \<open>An index as a set of rows\<close>

text \<open>
  What the catalog and the executors use of an index: a look-up, the insertion and the removal of an
  entry. \<open>exact i rows\<close> says that the index lists the rows under their keys, each once.
\<close>

locale multimap =
  fixes look :: "'i \<Rightarrow> 'k \<Rightarrow> 'r list"
    and ins :: "'k \<Rightarrow> 'r \<Rightarrow> 'i \<Rightarrow> 'i"
    and rem :: "'k \<Rightarrow> 'r \<Rightarrow> 'i \<Rightarrow> 'i"
  assumes look_ins: "look (ins k r i) k' = (if k' = k then look i k @ [r] else look i k')"
    and look_rem: "look (rem k r i) k' = (if k' = k then filter (\<lambda>s. s \<noteq> r) (look i k) else look i k')"
begin

definition exact :: "'i \<Rightarrow> ('r \<Rightarrow> 'k option) \<Rightarrow> bool" where
  "exact i rows \<longleftrightarrow> (\<forall>k. set (look i k) = {r. rows r = Some k} \<and> distinct (look i k))"

lemma exact_look: "exact i rows \<Longrightarrow> set (look i k) = {r. rows r = Some k}" "exact i rows \<Longrightarrow> distinct (look i k)"
  by (simp_all add: exact_def)

lemma exact_insert: "exact i rows \<Longrightarrow> rows r = None \<Longrightarrow> exact (ins k r i) (rows(r \<mapsto> k))"
  by (auto simp: exact_def look_ins split: if_splits)

lemma exact_remove: "exact i rows \<Longrightarrow> rows r = Some k \<Longrightarrow> exact (rem k r i) (rows(r := None))"
  by (auto simp: exact_def look_rem split: if_splits)

lemma exact_move:
  assumes "exact i rows" "rows r = Some k"
  shows "exact (ins k' r (rem k r i)) (rows(r \<mapsto> k'))"
  using exact_insert [OF exact_remove [OF assms], of r k'] by simp

lemma exact_empty: "(\<And>k. look i k = []) \<Longrightarrow> exact i (\<lambda>_. None)"
  by (simp add: exact_def)

end

definition entries_of :: "index_info \<Rightarrow> 32 word \<Rightarrow> rid list" where
  "entries_of ix key = (case LookupInteger ix key of None \<Rightarrow> [] | Some rs \<Rightarrow> rs)"

interpretation ix: multimap entries_of InsertEntry RemoveEntry
proof unfold_locales
  show "entries_of (InsertEntry k r i) k' = (if k' = k then entries_of i k @ [r] else entries_of i k')" for k r i k'
    by (auto simp: entries_of_def LookupInteger_def InsertEntry_def split: option.split)
  show "entries_of (RemoveEntry k r i) k' = (if k' = k then filter (\<lambda>s. s \<noteq> r) (entries_of i k) else entries_of i k')" for k r i k'
    by (auto simp: entries_of_def LookupInteger_def RemoveEntry_def Let_def split: option.split)
qed

lemma entry_fields [simp]:
  "ii_name (InsertEntry k r i) = ii_name i" "ii_table_name (InsertEntry k r i) = ii_table_name i"
  "ii_oid (InsertEntry k r i) = ii_oid i" "ii_key_attrs (InsertEntry k r i) = ii_key_attrs i"
  "ii_supports_point_lookup (InsertEntry k r i) = ii_supports_point_lookup i"
  "ii_name (RemoveEntry k r i) = ii_name i" "ii_table_name (RemoveEntry k r i) = ii_table_name i"
  "ii_oid (RemoveEntry k r i) = ii_oid i" "ii_key_attrs (RemoveEntry k r i) = ii_key_attrs i"
  "ii_supports_point_lookup (RemoveEntry k r i) = ii_supports_point_lookup i"
  by (simp_all add: InsertEntry_def RemoveEntry_def Let_def split: option.split)

section \<open>Consistency of the maps\<close>

definition index_oid_of :: "catalog \<Rightarrow> string \<Rightarrow> string \<Rightarrow> index_oid option" where
  "index_oid_of c t n = (case map_of (index_names c) t of None \<Rightarrow> None | Some m \<Rightarrow> map_of m n)"

definition umaps_ok :: "catalog \<Rightarrow> bool" where
  "umaps_ok c \<longleftrightarrow> distinct (keys (tables c)) \<and> distinct (keys (table_names c)) \<and> distinct (keys (indexes c)) \<and>
     distinct (keys (index_names c)) \<and> (\<forall>t m. map_of (index_names c) t = Some m \<longrightarrow> m \<noteq> [] \<and> distinct (keys m))"

definition catalog_ok :: "catalog \<Rightarrow> bool" where
  "catalog_ok c \<longleftrightarrow> umaps_ok c \<and>
     (\<forall>n oid. map_of (table_names c) n = Some oid \<longleftrightarrow> (\<exists>ti. map_of (tables c) oid = Some ti \<and> ti_name ti = n)) \<and>
     (\<forall>oid ti. map_of (tables c) oid = Some ti \<longrightarrow> ti_oid ti = oid \<and> oid < next_table_oid c) \<and>
     (\<forall>t n oid. index_oid_of c t n = Some oid \<longleftrightarrow> (\<exists>ix. map_of (indexes c) oid = Some ix \<and> ii_table_name ix = t \<and> ii_name ix = n)) \<and>
     (\<forall>oid ix. map_of (indexes c) oid = Some ix \<longrightarrow> ii_oid ix = oid \<and> oid < next_index_oid c \<and> ii_key_attrs ix \<noteq> [] \<and>
        map_of (table_names c) (ii_table_name ix) \<noteq> None)"

lemma catalog_okD:
  assumes "catalog_ok c"
  shows "umaps_ok c" "map_of (table_names c) n = Some oid \<longleftrightarrow> (\<exists>ti. map_of (tables c) oid = Some ti \<and> ti_name ti = n)"
    "map_of (tables c) oid = Some ti \<Longrightarrow> ti_oid ti = oid \<and> oid < next_table_oid c"
    "index_oid_of c t n = Some oid \<longleftrightarrow> (\<exists>ix. map_of (indexes c) oid = Some ix \<and> ii_table_name ix = t \<and> ii_name ix = n)"
    "map_of (indexes c) oid = Some ix \<Longrightarrow> ii_oid ix = oid \<and> oid < next_index_oid c \<and> ii_key_attrs ix \<noteq> [] \<and>
        map_of (table_names c) (ii_table_name ix) \<noteq> None"
  using assms unfolding catalog_ok_def by blast+

lemma Catalog_ok: "catalog_ok Catalog"
  by (simp add: catalog_ok_def umaps_ok_def Catalog_def index_oid_of_def)

text \<open>The counters: an identifier that was given out stays below the counter until that wraps.\<close>

abbreviation oid_limit :: nat where
  "oid_limit \<equiv> 2 ^ 32 - 1"

lemma oid_less_Suc:
  assumes "unat (y :: 32 word) < oid_limit"
  shows "unat (y + 1) = unat y + 1" "x \<le> y \<Longrightarrow> x < y + 1"
proof -
  show u: "unat (y + 1) = unat y + 1"
    using assms by (simp add: unat_word_ariths)
  show "x \<le> y \<Longrightarrow> x < y + 1" by (simp add: word_less_nat_alt word_le_nat_alt u)
qed

lemma oid_taken_ok:
  assumes c: "catalog_ok c"
  shows "unat (next_table_oid c) < oid_limit \<Longrightarrow> catalog_ok (c\<lparr>next_table_oid := next_table_oid c + 1\<rparr>)"
    "unat (next_index_oid c) < oid_limit \<Longrightarrow> catalog_ok (c\<lparr>next_index_oid := next_index_oid c + 1\<rparr>)"
  using c oid_less_Suc(2) unfolding catalog_ok_def umaps_ok_def index_oid_of_def by (fastforce intro: less_imp_le)+

lemma CreateTable_ok:
  assumes c: "catalog_ok c" and n: "unat (next_table_oid c) < oid_limit" and r: "CreateTable c b name s = (r, c')"
  shows "catalog_ok c' \<and> unat (next_table_oid c') \<le> unat (next_table_oid c) + 1 \<and> next_index_oid c' = next_index_oid c"
proof (cases "map_of (table_names c) name = None \<and> (\<exists>x. TableHeap b = Inr x)")
  case False
  then show ?thesis using c r oid_taken_ok(1) [OF c n] oid_less_Suc(1) [OF n]
    by (cases "TableHeap b") (auto simp: CreateTable_def split: if_splits)
next
  case True
  then obtain p where None: "map_of (table_names c) name = None" and c': "c' = c\<lparr>next_table_oid := next_table_oid c + 1,
      tables := AList.update (next_table_oid c) \<lparr>ti_schema = s, ti_name = name, ti_table = p, ti_oid = next_table_oid c\<rparr> (tables c),
      table_names := AList.update name (next_table_oid c) (table_names c)\<rparr>"
    using r by (auto simp: CreateTable_def Let_def split: prod.splits)
  note d = catalog_okD [OF c]
  have fresh: "map_of (tables c) (next_table_oid c) = None" using d(3) by (cases "map_of (tables c) (next_table_oid c)") auto
  have "umaps_ok c'" using d(1) by (simp add: umaps_ok_def c')
  moreover have "map_of (table_names c') n = Some oid \<longleftrightarrow> (\<exists>ti. map_of (tables c') oid = Some ti \<and> ti_name ti = n)" for n oid
    using d(2) [of n oid] d(2) [of name oid] None fresh by (auto simp: c')
  moreover have "map_of (tables c') oid = Some ti \<longrightarrow> ti_oid ti = oid \<and> oid < next_table_oid c'" for oid ti
    using d(3) [of oid ti] oid_less_Suc(2) [OF n, of oid] by (auto simp: c')
  moreover have "index_oid_of c' = index_oid_of c" by (simp add: index_oid_of_def c' fun_eq_iff)
  moreover have "map_of (indexes c') oid = Some ix \<longrightarrow> map_of (table_names c') (ii_table_name ix) \<noteq> None" for oid ix
    using d(5) [of oid ix] by (auto simp: c')
  ultimately have "catalog_ok c'" using d(4,5) unfolding catalog_ok_def by (simp add: c')
  then show ?thesis using oid_less_Suc(1) [OF n] by (simp add: c')
qed

text \<open>The part of \<^verbatim>\<open>CreateIndex\<close> that enters the new index.\<close>

definition add_index :: "catalog \<Rightarrow> index_info \<Rightarrow> catalog" where
  "add_index c ix =
     c\<lparr>next_index_oid := next_index_oid c + 1, indexes := AList.update (next_index_oid c) ix (indexes c),
       index_names := AList.update (ii_table_name ix)
         (AList.update (ii_name ix) (next_index_oid c) (case map_of (index_names c) (ii_table_name ix) of None \<Rightarrow> [] | Some m \<Rightarrow> m))
         (index_names c)\<rparr>"

lemma update_not_Nil [simp]: "AList.update k v m \<noteq> []"
  by (cases m) auto

lemma index_oid_of_add:
  "index_oid_of (add_index c ix) t n = (if t = ii_table_name ix \<and> n = ii_name ix then Some (next_index_oid c) else index_oid_of c t n)"
  by (auto simp: index_oid_of_def add_index_def split: option.split)

lemma add_index_ok:
  assumes c: "catalog_ok c" and n: "unat (next_index_oid c) < oid_limit"
    and ix: "ii_oid ix = next_index_oid c" "ii_key_attrs ix \<noteq> []" "map_of (table_names c) (ii_table_name ix) \<noteq> None"
    and fresh: "index_oid_of c (ii_table_name ix) (ii_name ix) = None"
  shows "catalog_ok (add_index c ix)"
proof -
  note d = catalog_okD [OF c]
  have new: "map_of (indexes c) (next_index_oid c) = None" using d(5) by (cases "map_of (indexes c) (next_index_oid c)") auto
  have "umaps_ok (add_index c ix)" using d(1) by (auto simp: umaps_ok_def add_index_def split: option.split)
  moreover have "index_oid_of (add_index c ix) t n = Some oid \<longleftrightarrow>
      (\<exists>i. map_of (indexes (add_index c ix)) oid = Some i \<and> ii_table_name i = t \<and> ii_name i = n)" for t n oid
    using d(4) [of t n oid] fresh new unfolding index_oid_of_add by (auto simp: add_index_def)
  moreover have "map_of (indexes (add_index c ix)) oid = Some i \<longrightarrow> ii_oid i = oid \<and> oid < next_index_oid (add_index c ix) \<and>
      ii_key_attrs i \<noteq> [] \<and> map_of (table_names (add_index c ix)) (ii_table_name i) \<noteq> None" for oid i
    using d(5) [of oid i] ix oid_less_Suc(2) [OF n, of oid] by (auto simp: add_index_def)
  ultimately show ?thesis using d(2,3) unfolding catalog_ok_def by (simp add: add_index_def)
qed

lemma DropIndex_ok:
  assumes c: "catalog_ok c"
  shows "catalog_ok (snd (DropIndex c n t))"
    "index_oid_of (snd (DropIndex c n t)) t' n' = (if t' = t \<and> n' = n then None else index_oid_of c t' n')"
proof -
  note d = catalog_okD [OF c]
  show l: "index_oid_of (snd (DropIndex c n t)) t' n' = (if t' = t \<and> n' = n then None else index_oid_of c t' n')" for t' n'
  proof -
    have "AList.delete n m = [] \<Longrightarrow> map_of m n' = (if n' = n then map_of m n else None)" for m :: "(string, index_oid) umap"
      using map_of_delete [of n m] by (metis fun_upd_other map_of.simps(1))
    then show ?thesis by (auto simp: DropIndex_def index_oid_of_def Let_def split: option.splits)
  qed
  show "catalog_ok (snd (DropIndex c n t))"
  proof (cases "index_oid_of c t n")
    case None
    then have "snd (DropIndex c n t) = c" by (auto simp: DropIndex_def index_oid_of_def split: option.splits)
    then show ?thesis using c by simp
  next
    case (Some oid)
    then obtain m where m: "map_of (index_names c) t = Some m" "map_of m n = Some oid" by (auto simp: index_oid_of_def split: option.splits)
    define c' where "c' = snd (DropIndex c n t)"
    have c': "c' = c\<lparr>indexes := AList.delete oid (indexes c),
        index_names := (if AList.delete n m = [] then AList.delete t (index_names c) else AList.update t (AList.delete n m) (index_names c))\<rparr>"
      by (simp add: c'_def DropIndex_def m Let_def)
    have "umaps_ok c'" using d(1) m(1) unfolding umaps_ok_def c' by (auto simp del: map_of_eq_Some_iff)
    moreover have "index_oid_of c' t' n' = Some o' \<longleftrightarrow> (\<exists>ix. map_of (indexes c') o' = Some ix \<and> ii_table_name ix = t' \<and> ii_name ix = n')" for t' n' o'
    proof -
      obtain ix where ix: "map_of (indexes c) oid = Some ix" "ii_table_name ix = t" "ii_name ix = n" using d(4) Some by blast
      then show ?thesis using d(4) [of t' n' o'] Some l [of t' n'] unfolding c'_def [symmetric] by (auto simp: c')
    qed
    moreover have "map_of (indexes c') o' = Some ix \<longrightarrow> ii_oid ix = o' \<and> o' < next_index_oid c' \<and> ii_key_attrs ix \<noteq> [] \<and>
        map_of (table_names c') (ii_table_name ix) \<noteq> None" for o' ix
      using d(5) [of o' ix] by (auto simp: c')
    ultimately show ?thesis using d(2,3) unfolding catalog_ok_def c'_def [symmetric] by (simp add: c')
  qed
qed

lemma update_index_ok:
  assumes c: "catalog_ok c" and f: "\<And>ix. ii_name (f ix) = ii_name ix \<and> ii_table_name (f ix) = ii_table_name ix \<and>
    ii_oid (f ix) = ii_oid ix \<and> ii_key_attrs (f ix) = ii_key_attrs ix"
  shows "catalog_ok (update_index oid f c)"
proof (cases "map_of (indexes c) oid")
  case None
  then show ?thesis using c by (simp add: update_index_def)
next
  case (Some ix)
  note d = catalog_okD [OF c]
  have u: "update_index oid f c = c\<lparr>indexes := AList.update oid (f ix) (indexes c)\<rparr>" using Some by (simp add: update_index_def)
  have "umaps_ok (update_index oid f c)" using d(1) by (simp add: umaps_ok_def u)
  moreover have "index_oid_of (update_index oid f c) = index_oid_of c" by (simp add: index_oid_of_def u fun_eq_iff)
  moreover have "index_oid_of c t n = Some o' \<longleftrightarrow>
      (\<exists>i. map_of (indexes (update_index oid f c)) o' = Some i \<and> ii_table_name i = t \<and> ii_name i = n)" for t n o'
    using d(4) [of t n o'] Some f [of ix] by (auto simp: u)
  moreover have "map_of (indexes (update_index oid f c)) o' = Some i \<longrightarrow> ii_oid i = o' \<and> o' < next_index_oid c \<and> ii_key_attrs i \<noteq> [] \<and>
      map_of (table_names c) (ii_table_name i) \<noteq> None" for o' i
    using d(5) [of o' i] d(5) [OF Some] f [of ix] by (auto simp: u)
  ultimately show ?thesis using d(2,3) unfolding catalog_ok_def by (simp add: u)
qed

lemma names_found:
  assumes "catalog_ok c"
  shows "GetTable_name c n = Inr (case map_of (table_names c) n of None \<Rightarrow> None | Some oid \<Rightarrow> map_of (tables c) oid)"
    "GetIndex_name c i t = Inr (case index_oid_of c t i of None \<Rightarrow> None | Some oid \<Rightarrow> map_of (indexes c) oid)"
proof -
  note d = catalog_okD [OF assms]
  show "GetTable_name c n = Inr (case map_of (table_names c) n of None \<Rightarrow> None | Some oid \<Rightarrow> map_of (tables c) oid)"
  proof (cases "map_of (table_names c) n")
    case (Some oid)
    then obtain ti where "map_of (tables c) oid = Some ti" using d(2) by blast
    then show ?thesis using Some by (simp add: GetTable_name_def map_at_def)
  qed (simp add: GetTable_name_def)
  show "GetIndex_name c i t = Inr (case index_oid_of c t i of None \<Rightarrow> None | Some oid \<Rightarrow> map_of (indexes c) oid)"
  proof (cases "index_oid_of c t i")
    case None
    then show ?thesis by (auto simp: GetIndex_name_def index_oid_of_def split: option.splits)
  next
    case (Some oid)
    then obtain m where "map_of (index_names c) t = Some m" "map_of m i = Some oid"
      by (auto simp: index_oid_of_def split: option.splits)
    moreover obtain ix where "map_of (indexes c) oid = Some ix" using d(4) Some by blast
    ultimately show ?thesis by (simp add: GetIndex_name_def map_at_def index_oid_of_def)
  qed
qed

lemma rmap_at: "\<forall>x \<in> set m. map_of is (snd x) \<noteq> None \<Longrightarrow>
   \<exists>ixs. rmap (\<lambda>(n, oid). map_at is oid) m = Inr ixs \<and> set ixs = {ix. \<exists>x \<in> set m. map_of is (snd x) = Some ix}"
proof (induction m)
  case (Cons x m)
  obtain n oid ix where x: "x = (n, oid)" "map_of is oid = Some ix" using Cons.prems by (cases x) auto
  from Cons obtain ixs where "rmap (\<lambda>(n, oid). map_at is oid) m = Inr ixs"
    "set ixs = {ix. \<exists>x \<in> set m. map_of is (snd x) = Some ix}" by auto
  then show ?case using x by (auto simp: map_at_def)
qed simp

lemma GetAllIndexes_ok: "catalog_ok c \<Longrightarrow> ix \<in> set (GetAllIndexes c) \<longleftrightarrow> (\<exists>oid. map_of (indexes c) oid = Some ix)"
  "catalog_ok c \<Longrightarrow> ti \<in> set (GetAllTables c) \<longleftrightarrow> (\<exists>oid. map_of (tables c) oid = Some ti)"
proof -
  assume "catalog_ok c"
  then have d: "distinct (keys (indexes c))" "distinct (keys (tables c))" using catalog_okD(1) by (auto simp: umaps_ok_def)
  show "ix \<in> set (GetAllIndexes c) \<longleftrightarrow> (\<exists>oid. map_of (indexes c) oid = Some ix)"
    using ran_umap [OF d(1)] by (simp add: GetAllIndexes_def ran_def set_eq_iff)
  show "ti \<in> set (GetAllTables c) \<longleftrightarrow> (\<exists>oid. map_of (tables c) oid = Some ti)"
    using ran_umap [OF d(2)] by (simp add: GetAllTables_def ran_def set_eq_iff)
qed

lemma GetTableIndexes_ok:
  assumes "catalog_ok c"
  shows "\<exists>ixs. GetTableIndexes c t = Inr ixs \<and> set ixs = {ix. ix \<in> set (GetAllIndexes c) \<and> ii_table_name ix = t}"
proof (cases "map_of (index_names c) t")
  case None
  note d = catalog_okD(4) [OF assms]
  have "index_oid_of c t n = None" for n using None by (simp add: index_oid_of_def)
  then have "{ix. ix \<in> set (GetAllIndexes c) \<and> ii_table_name ix = t} = {}"
    using d [of t] unfolding GetAllIndexes_ok(1) [OF assms] by fastforce
  then show ?thesis using None by (simp add: GetTableIndexes_def)
next
  case (Some m)
  note d = catalog_okD [OF assms]
  have dm: "distinct (keys m)" using d(1) Some unfolding umaps_ok_def by blast
  have m: "(n, oid) \<in> set m \<longleftrightarrow> (\<exists>ix. map_of (indexes c) oid = Some ix \<and> ii_table_name ix = t \<and> ii_name ix = n)" for n oid
    using d(4) [of t n oid] Some unfolding set_umap_iff [OF dm] by (simp add: index_oid_of_def)
  then have ne: "\<forall>x \<in> set m. map_of (indexes c) (snd x) \<noteq> None" by fastforce
  obtain ixs where "rmap (\<lambda>(n, oid). map_at (indexes c) oid) m = Inr ixs"
    "set ixs = {ix. \<exists>x \<in> set m. map_of (indexes c) (snd x) = Some ix}"
    using rmap_at [OF ne] by blast
  moreover have "{ix. \<exists>x \<in> set m. map_of (indexes c) (snd x) = Some ix} = {ix. ix \<in> set (GetAllIndexes c) \<and> ii_table_name ix = t}"
  proof -
    have "(\<exists>x \<in> set m. map_of (indexes c) (snd x) = Some ix) \<longleftrightarrow> (\<exists>n oid. (n, oid) \<in> set m \<and> map_of (indexes c) oid = Some ix)" for ix
      by force
    then show ?thesis unfolding GetAllIndexes_ok(1) [OF assms] m by (rule_tac set_eqI) (simp only: mem_Collect_eq; fastforce)
  qed
  ultimately show ?thesis using Some by (simp add: GetTableIndexes_def)
qed

text \<open>
  The catalogs that sequences of operations produce, the creations that throw included: \<open>catalog_run t i c\<close> has called
  \<open>CreateTable\<close> \<open>t\<close> times and \<open>CreateIndex\<close> \<open>i\<close> times.
\<close>

inductive catalog_run :: "nat \<Rightarrow> nat \<Rightarrow> catalog \<Rightarrow> bool" where
  start: "catalog_run 0 0 Catalog"
| create_table: "catalog_run t i c \<Longrightarrow> CreateTable c b name s = (r, c') \<Longrightarrow> catalog_run (Suc t) i c'"
| create_index: "catalog_run t i c \<Longrightarrow> CreateIndex c b name table attrs = Some (r, c') \<Longrightarrow> catalog_run t (Suc i) c'"
| drop_index: "catalog_run t i c \<Longrightarrow> catalog_run t i (snd (DropIndex c name table))"
| insert_entry: "catalog_run t i c \<Longrightarrow> catalog_run t i (update_index oid (InsertEntry k r) c)"
| remove_entry: "catalog_run t i c \<Longrightarrow> catalog_run t i (update_index oid (RemoveEntry k r) c)"

definition same_index :: "index_info \<Rightarrow> index_info \<Rightarrow> bool" where
  "same_index i j \<longleftrightarrow> ii_name i = ii_name j \<and> ii_table_name i = ii_table_name j \<and> ii_oid i = ii_oid j \<and>
     ii_key_attrs i = ii_key_attrs j \<and> ii_supports_point_lookup i = ii_supports_point_lookup j"

lemma fill_index_same_aux: "fill_index s a i r b = Some x \<Longrightarrow> \<forall>i' b'. x = Inr (i', b') \<longrightarrow> same_index i' i"
proof (erule fill_index.raw_induct [of "\<lambda>s a i r b x. \<forall>i' b'. x = Inr (i', b') \<longrightarrow> same_index i' i", rotated])
  fix f :: "schema \<Rightarrow> nat \<Rightarrow> index_info \<Rightarrow> rid \<Rightarrow> heap_pool \<Rightarrow> (index_info \<times> heap_pool) res option"
    and s a i r b x
  assume IH: "\<And>s a i r b x. f s a i r b = Some x \<Longrightarrow> \<forall>i' b'. x = Inr (i', b') \<longrightarrow> same_index i' i"
    and e: "(if r = Heap_End then Some (Inr (i, b))
      else cbind (Some (Heap_GetTuple b r)) (\<lambda>(bs, b1).
           cbind (Some (rbind (Tuple_GetColumn (stored_tuple r bs) s a) GetAsInteger)) (\<lambda>key.
           cbind (Iterator_next b1 r) (\<lambda>(r', b2). f s a (InsertEntry key r i) r' b2)))) = Some x"
  show "\<forall>i' b'. x = Inr (i', b') \<longrightarrow> same_index i' i"
  proof (intro allI impI)
    fix i' b' assume x: "x = Inr (i', b')"
    show "same_index i' i"
    proof (cases "r = Heap_End")
      case True
      then show ?thesis using e x by (simp add: same_index_def)
    next
      case False
      then obtain key r' b2 where "f s a (InsertEntry key r i) r' b2 = Some (Inr (i', b'))"
        using e unfolding x by (auto simp: cbind_eq_Inr)
      then have "same_index i' (InsertEntry key r i)" using IH by blast
      then show ?thesis by (simp add: same_index_def)
    qed
  qed
qed

lemma fill_index_same: "fill_index s a i r b = Some (Inr (i', b')) \<Longrightarrow> same_index i' i"
  using fill_index_same_aux by blast

lemma CreateIndex_cases:
  assumes c: "catalog_ok c" and r: "CreateIndex c b n t attrs = Some (r, c')"
  shows "c' = c \<or> c' = c\<lparr>next_index_oid := next_index_oid c + 1\<rparr> \<or>
    (\<exists>ix. c' = add_index c ix \<and> ii_oid ix = next_index_oid c \<and> ii_key_attrs ix = attrs \<and> attrs \<noteq> [] \<and>
       ii_table_name ix = t \<and> ii_name ix = n \<and> map_of (table_names c) t \<noteq> None \<and> index_oid_of c t n = None)"
proof (cases "map_of (table_names c) t")
  case None
  then show ?thesis using r by (simp add: CreateIndex_def names_found [OF c])
next
  case (Some toid)
  then obtain ti where ti: "map_of (tables c) toid = Some ti" using catalog_okD(2) [OF c] by blast
  have t: "GetTable_name c t = Inr (Some ti)" using Some ti by (simp add: names_found [OF c])
  show ?thesis
  proof (cases "n = [] \<or> attrs = [] \<or> index_oid_of c t n \<noteq> None \<or> (\<exists>attr \<in> set attrs. attr \<ge> length (columns (ti_schema ti)))")
    case True
    have "index_oid_of c t n = Some oid \<Longrightarrow> map_of (indexes c) oid \<noteq> None" for oid using catalog_okD(4) [OF c] by blast
    then show ?thesis using True r by (auto simp: CreateIndex_def t names_found(2) [OF c] split: if_splits option.splits)
  next
    case False
    define i0 where "i0 = IndexInfo (Schema (map (\<lambda>a. columns (ti_schema ti) ! a) attrs)) n t (next_index_oid c) attrs"
    define run where "run = (if length attrs = 1 \<and> c_type (columns (ti_schema ti) ! hd attrs) = T_INTEGER
                     then cbind (Heap_Begin b (ti_table ti)) (\<lambda>(r, b1).
                            fill_index (ti_schema ti) (hd attrs) (i0\<lparr>ii_supports_point_lookup := True\<rparr>) r b1)
                     else Some (Inr (i0, b)))"
    let ?c1 = "c\<lparr>next_index_oid := next_index_oid c + 1\<rparr>"
    have "GetIndex_name c n t = Inr None" using False by (simp add: names_found(2) [OF c])
    then have eq: "(case run of None \<Rightarrow> None | Some (Inl e) \<Rightarrow> Some (Inl e, ?c1)
        | Some (Inr (ix', b')) \<Rightarrow> Some (Inr (Some ix', b'),
            ?c1\<lparr>indexes := AList.update (next_index_oid c) ix' (indexes c),
               index_names := AList.update t (AList.update n (next_index_oid c)
                 (case map_of (index_names c) t of None \<Rightarrow> [] | Some m \<Rightarrow> m)) (index_names c)\<rparr>)) = Some (r, c')"
      using r False t unfolding CreateIndex_def run_def i0_def Let_def by (simp split del: if_split)
    show ?thesis
    proof (cases "\<exists>ix b'. run = Some (Inr (ix, b'))")
      case False
      then show ?thesis using eq by (auto split: option.splits sum.splits prod.splits)
    next
      case True
      then obtain ix b' where ix: "run = Some (Inr (ix, b'))" by blast
      with eq have c': "c' = c\<lparr>next_index_oid := next_index_oid c + 1, indexes := AList.update (next_index_oid c) ix (indexes c),
                             index_names := AList.update t (AList.update n (next_index_oid c)
                               (case map_of (index_names c) t of None \<Rightarrow> [] | Some m \<Rightarrow> m)) (index_names c)\<rparr>"
        by simp
      have "ii_name ix = n \<and> ii_table_name ix = t \<and> ii_oid ix = next_index_oid c \<and> ii_key_attrs ix = attrs"
      proof (cases "length attrs = 1 \<and> c_type (columns (ti_schema ti) ! hd attrs) = T_INTEGER")
        case True
        then obtain r b1 where "fill_index (ti_schema ti) (hd attrs) (i0\<lparr>ii_supports_point_lookup := True\<rparr>) r b1 = Some (Inr (ix, b'))"
          using ix unfolding run_def by (auto simp: cbind_eq_Inr)
        from fill_index_same [OF this] show ?thesis by (simp add: same_index_def i0_def IndexInfo_def)
      next
        case False
        then have "run = Some (Inr (i0, b))" unfolding run_def by (simp only: if_False)
        then show ?thesis using ix by (simp add: i0_def IndexInfo_def)
      qed
      then show ?thesis using c' False \<open>\<not> (n = [] \<or> attrs = [] \<or> _ \<or> _)\<close> Some by (auto simp: add_index_def)
    qed
  qed
qed

lemma CreateIndex_ok:
  assumes c: "catalog_ok c" and n: "unat (next_index_oid c) < oid_limit" and r: "CreateIndex c b name t attrs = Some (r, c')"
  shows "catalog_ok c' \<and> unat (next_index_oid c') \<le> unat (next_index_oid c) + 1 \<and> next_table_oid c' = next_table_oid c"
  using CreateIndex_cases [OF c r] c oid_taken_ok(2) [OF c n] add_index_ok [OF c n] oid_less_Suc(1) [OF n]
  by (auto simp: add_index_def)

lemma run_fields [simp]:
  "next_table_oid (snd (DropIndex c n t)) = next_table_oid c" "next_index_oid (snd (DropIndex c n t)) = next_index_oid c"
  "next_table_oid (update_index oid f c) = next_table_oid c" "next_index_oid (update_index oid f c) = next_index_oid c"
  by (simp_all add: DropIndex_def update_index_def Let_def split: option.split)

lemma catalog_run_ok:
  "catalog_run t i c \<Longrightarrow> t < oid_limit \<Longrightarrow> i < oid_limit \<Longrightarrow>
   catalog_ok c \<and> unat (next_table_oid c) \<le> t + 1 \<and> unat (next_index_oid c) \<le> i + 1"
proof (induction rule: catalog_run.induct)
  case start
  then show ?case using Catalog_ok by (simp add: Catalog_def)
next
  case (create_table t i c b name s r c')
  then have c: "catalog_ok c" "unat (next_table_oid c) < oid_limit" "unat (next_table_oid c) \<le> t + 1" "unat (next_index_oid c) \<le> i + 1" by auto
  from CreateTable_ok [OF c(1,2) create_table.hyps(2)] c show ?case by auto
next
  case (create_index t i c b name table attrs r c')
  then have c: "catalog_ok c" "unat (next_index_oid c) < oid_limit" "unat (next_table_oid c) \<le> t + 1" "unat (next_index_oid c) \<le> i + 1" by auto
  from CreateIndex_ok [OF c(1,2) create_index.hyps(2)] c show ?case by auto
qed (simp_all add: DropIndex_ok update_index_ok)

text \<open>
  C19. In every catalog that the operations produce, the creations that throw included, the maps agree: a look-up by name
  never throws and finds exactly the table or index of that name, the indexes of a table are those that name it, and
  identifiers are used once. The bound is that of the 32-bit counters: neither kind of creation was called
  \<open>2 ^ 32 - 1\<close> times.
\<close>

theorem catalog_consistent:
  assumes "catalog_run t' i' c" and "t' < 2 ^ 32 - 1" and "i' < 2 ^ 32 - 1"
  shows "(\<exists>r. GetTable_name c n = Inr r \<and> (\<forall>ti. r = Some ti \<longleftrightarrow> ti \<in> set (GetAllTables c) \<and> ti_name ti = n)) \<and>
    (\<exists>r. GetIndex_name c n t = Inr r \<and> (\<forall>ix. r = Some ix \<longleftrightarrow> ix \<in> set (GetAllIndexes c) \<and> ii_table_name ix = t \<and> ii_name ix = n)) \<and>
    (\<exists>ixs. GetTableIndexes c t = Inr ixs \<and> set ixs = {ix. ix \<in> set (GetAllIndexes c) \<and> ii_table_name ix = t}) \<and>
    (\<forall>ti \<in> set (GetAllTables c). GetTable c (ti_oid ti) = Some ti) \<and> (\<forall>ix \<in> set (GetAllIndexes c). GetIndex c (ii_oid ix) = Some ix)"
proof -
  have c: "catalog_ok c" using catalog_run_ok [OF assms] by blast
  note d = catalog_okD [OF c]
  have "(case map_of (table_names c) n of None \<Rightarrow> None | Some oid \<Rightarrow> map_of (tables c) oid) = Some ti \<longleftrightarrow>
      ti \<in> set (GetAllTables c) \<and> ti_name ti = n" for ti
  proof -
    have "(\<exists>oid. map_of (tables c) oid = Some ti) \<and> ti_name ti = n \<longleftrightarrow>
        (\<exists>oid. map_of (table_names c) n = Some oid \<and> map_of (tables c) oid = Some ti)"
      using d(2) [of n] by (metis option.inject)
    then show ?thesis unfolding GetAllIndexes_ok(2) [OF c] by (simp split: option.split)
  qed
  moreover have "(case index_oid_of c t n of None \<Rightarrow> None | Some oid \<Rightarrow> map_of (indexes c) oid) = Some ix \<longleftrightarrow>
      ix \<in> set (GetAllIndexes c) \<and> ii_table_name ix = t \<and> ii_name ix = n" for ix
  proof -
    have "(\<exists>oid. map_of (indexes c) oid = Some ix) \<and> ii_table_name ix = t \<and> ii_name ix = n \<longleftrightarrow>
        (\<exists>oid. index_oid_of c t n = Some oid \<and> map_of (indexes c) oid = Some ix)"
      using d(4) [of t n] by (metis option.inject)
    then show ?thesis unfolding GetAllIndexes_ok(1) [OF c] by (simp split: option.split)
  qed
  moreover have "\<forall>ti \<in> set (GetAllTables c). GetTable c (ti_oid ti) = Some ti" "\<forall>ix \<in> set (GetAllIndexes c). GetIndex c (ii_oid ix) = Some ix"
    using d(3,5) unfolding Ball_def GetAllIndexes_ok [OF c] GetTable_def GetIndex_def by blast+
  ultimately show ?thesis using names_found [OF c] GetTableIndexes_ok [OF c, of t] by blast
qed

section \<open>A new index\<close>

text \<open>The key of a stored row in an INTEGER column.\<close>

definition row_key :: "schema \<Rightarrow> nat \<Rightarrow> byte list \<Rightarrow> rid \<Rightarrow> 32 word res" where
  "row_key s attr bs r = rbind (Tuple_GetColumn (stored_tuple r bs) s attr) GetAsInteger"

definition row_keys :: "schema \<Rightarrow> nat \<Rightarrow> (rid \<Rightarrow> byte list option) \<Rightarrow> rid \<Rightarrow> 32 word option" where
  "row_keys s attr rows r =
     (case rows r of None \<Rightarrow> None | Some bs \<Rightarrow> (case row_key s attr bs r of Inl _ \<Rightarrow> None | Inr k \<Rightarrow> Some k))"

lemma fill_index_at:
  assumes "heap_at b P V S ps L F" "live V ps = pre @ rs" "\<forall>r bs. heap_map V ps r = Some bs \<longrightarrow> (\<exists>k. row_key s attr bs r = Inr k)"
    and "ix.exact i (\<lambda>r. if r \<in> set pre then row_keys s attr (heap_map V ps) r else None)" "length rs * (length ps + 1) \<le> L"
  shows "\<exists>i' b'. fill_index s attr i (hd (rs @ [Heap_End])) b = Some (Inr (i', b')) \<and>
    heap_at b' P V S ps (L - length rs * (length ps + 1)) F \<and> ix.exact i' (row_keys s attr (heap_map V ps))"
  using assms
proof (induction rs arbitrary: pre i b L)
  case Nil
  have "set (live V ps) = dom (heap_map V ps)" by (rule live_contents [OF heap_atD(3) [OF Nil(1)]])
  then have "row_keys s attr (heap_map V ps) r = (if r \<in> set pre then row_keys s attr (heap_map V ps) r else None)" for r
    using Nil(2) by (auto simp: row_keys_def domIff split: option.split)
  then have "ix.exact i (row_keys s attr (heap_map V ps))" using Nil(4) by simp
  then show ?case using Nil(1) by (subst fill_index.simps) simp
next
  case (Cons r rs)
  have hp: "heap_pages V ps" by (rule heap_atD(3) [OF Cons.prems(1)])
  have r: "r \<in> set (live V ps)" "r \<notin> set pre" using Cons.prems(2) live_distinct [OF hp] by auto
  then obtain bs where bs: "heap_map V ps r = Some bs" using live_contents [OF hp] by blast
  then obtain k where k: "row_key s attr bs r = Inr k" using Cons.prems(3) by blast
  have L: "0 < L" "length ps \<le> L - 1" "length rs * (length ps + 1) \<le> L - 1 - length ps" using Cons.prems(5) by simp_all
  from GetTuple_at [OF Cons.prems(1) bs L(1)] obtain b1 where b1: "Heap_GetTuple b r = Inr (bs, b1)" "heap_at b1 P V S ps (L - 1) F" by blast
  from Iterator_next_at [OF b1(2) Cons.prems(2) L(2)] obtain b2 where
    b2: "Iterator_next b1 r = Some (Inr (hd (rs @ [Heap_End]), b2))" "heap_at b2 P V S ps (L - 1 - length ps) F" by blast
  have "row_keys s attr (heap_map V ps) r = Some k" using bs k by (simp add: row_keys_def)
  then have "(\<lambda>q. if q \<in> set pre then row_keys s attr (heap_map V ps) q else None)(r \<mapsto> k) =
      (\<lambda>q. if q \<in> set (pre @ [r]) then row_keys s attr (heap_map V ps) q else None)" by (auto simp: fun_eq_iff)
  moreover have "ix.exact (InsertEntry k r i) ((\<lambda>q. if q \<in> set pre then row_keys s attr (heap_map V ps) q else None)(r \<mapsto> k))"
    by (rule ix.exact_insert [OF Cons.prems(4)]) (use r(2) in simp)
  ultimately have "ix.exact (InsertEntry k r i) (\<lambda>q. if q \<in> set (pre @ [r]) then row_keys s attr (heap_map V ps) q else None)" by simp
  from Cons.IH [OF b2(2) _ Cons.prems(3) this L(3)] Cons.prems(2) obtain i' b' where
    "fill_index s attr (InsertEntry k r i) (hd (rs @ [Heap_End])) b2 = Some (Inr (i', b'))"
    "heap_at b' P V S ps (L - 1 - length ps - length rs * (length ps + 1)) F" "ix.exact i' (row_keys s attr (heap_map V ps))" by auto
  moreover have "L - 1 - length ps - length rs * (length ps + 1) = L - length (r # rs) * (length ps + 1)" by simp
  ultimately show ?case
    using live_not_end [OF hp r(1)] b1(1) b2(1) k [unfolded row_key_def]
    by (subst fill_index.simps) (simp del: rbind_eq_Inr)
qed

text \<open>
  C20. \<^verbatim>\<open>CreateIndex\<close> on an INTEGER column enters an index that finds, under every key, exactly the live rows
  with that key, each once; it keeps every other index and the rows of the table.
\<close>

theorem CreateIndex_correct:
  assumes c: "catalog_run t' i' c" "t' < 2 ^ 32 - 1" "i' < 2 ^ 32 - 2" and ti: "ti \<in> set (GetAllTables c)" and h: "heap_ok b (ti_table ti) ps"
    and attr: "attr < length (columns (ti_schema ti))" "c_type (columns (ti_schema ti) ! attr) = T_INTEGER"
    and rows: "\<forall>r bs. heap_contents b ps r = Some bs \<longrightarrow> (\<exists>k. row_key (ti_schema ti) attr bs r = Inr k)"
    and name: "name \<noteq> []" "GetIndex_name c name (ti_name ti) = Inr None"
    and room: "room_for (length ps + length (live (page_view b) ps) * (length ps + 1)) 1 b"
  shows "\<exists>ix c' b'. CreateIndex c b name (ti_name ti) [attr] = Some (Inr (Some ix, b'), c') \<and>
    GetIndex_name c' name (ti_name ti) = Inr (Some ix) \<and> ii_supports_point_lookup ix \<and> GetLookupAttr ix = Inr attr \<and>
    (\<forall>k. set (entries_of ix k) = {r. row_keys (ti_schema ti) attr (heap_contents b ps) r = Some k} \<and> distinct (entries_of ix k)) \<and>
    (\<forall>n t. (n, t) \<noteq> (name, ti_name ti) \<longrightarrow> GetIndex_name c' n t = GetIndex_name c n t) \<and>
    heap_ok b' (ti_table ti) ps \<and> heap_contents b' ps = heap_contents b ps \<and> pins b' = pins b"
proof -
  have ok: "catalog_ok c" "unat (next_index_oid c) < oid_limit" using catalog_run_ok [OF c(1,2)] c(3) by auto
  note d = catalog_okD [OF ok(1)]
  from ti obtain toid where toid: "map_of (tables c) toid = Some ti" unfolding GetAllIndexes_ok(2) [OF ok(1)] by blast
  have tn: "GetTable_name c (ti_name ti) = Inr (Some ti)" "map_of (table_names c) (ti_name ti) = Some toid"
    using d(2) [of "ti_name ti" toid] toid by (auto simp: names_found [OF ok(1)])
  let ?V = "page_view b" let ?P = "pins b" let ?S = "set ps" let ?F = "next_page_id (disk_manager b)"
  let ?n = "length (live ?V ps)" let ?s = "ti_schema ti"
  define i0 where "i0 = IndexInfo (Schema [columns ?s ! attr]) name (ti_name ti) (next_index_oid c) [attr]"
  have at: "heap_at b ?P ?V ?S ps (length ps + ?n * (length ps + 1)) ?F" by (rule heap_ok_heap_at [OF h room])
  from Begin_at [OF at] h obtain b1 where b1: "Heap_Begin b (ti_table ti) = Some (Inr (hd (live ?V ps @ [Heap_End]), b1))"
    "heap_at b1 ?P ?V ?S ps (?n * (length ps + 1)) ?F" by (auto simp: heap_ok_def)
  have "ix.exact (i0\<lparr>ii_supports_point_lookup := True\<rparr>) (\<lambda>_. None)"
    by (rule ix.exact_empty) (simp add: entries_of_def LookupInteger_def i0_def IndexInfo_def)
  then have "ix.exact (i0\<lparr>ii_supports_point_lookup := True\<rparr>) (\<lambda>r. if r \<in> set [] then row_keys ?s attr (heap_map ?V ps) r else None)" by simp
  from fill_index_at [OF b1(2) _ rows [unfolded heap_contents_def] this] obtain ix b' where
    f: "fill_index ?s attr (i0\<lparr>ii_supports_point_lookup := True\<rparr>) (hd (live ?V ps @ [Heap_End])) b1 = Some (Inr (ix, b'))"
      "heap_at b' ?P ?V ?S ps 0 ?F" "ix.exact ix (row_keys ?s attr (heap_map ?V ps))" by auto
  have same: "ii_name ix = name" "ii_table_name ix = ti_name ti" "ii_oid ix = next_index_oid c" "ii_key_attrs ix = [attr]"
    "ii_supports_point_lookup ix" using fill_index_same [OF f(1)] by (simp_all add: same_index_def i0_def IndexInfo_def)
  have fresh: "index_oid_of c (ti_name ti) name = None"
  proof (cases "index_oid_of c (ti_name ti) name")
    case (Some oid)
    then have "map_of (indexes c) oid \<noteq> None" using d(4) [of "ti_name ti" name oid] by blast
    then show ?thesis using Some name(2) by (auto simp: names_found(2) [OF ok(1)])
  qed
  have run: "CreateIndex c b name (ti_name ti) [attr] = Some (Inr (Some ix, b'), add_index c ix)"
    using name(1) name(2) tn(1) attr b1(1) f(1) same by (simp add: CreateIndex_def Let_def i0_def add_index_def)
  have ok': "catalog_ok (add_index c ix)"
    by (rule add_index_ok [OF ok]) (use same fresh tn(2) in simp_all)
  have new: "map_of (indexes (add_index c ix)) oid = (if oid = next_index_oid c then Some ix else map_of (indexes c) oid)" for oid
    by (simp add: add_index_def)
  have old: "oid \<noteq> next_index_oid c" if "index_oid_of c t n = Some oid" for n t oid using d(4) [of t n oid] d(5) [of oid] that by auto
  have "GetIndex_name (add_index c ix) name (ti_name ti) = Inr (Some ix)"
    using same by (simp add: names_found(2) [OF ok'] index_oid_of_add new)
  moreover have "GetIndex_name (add_index c ix) n t = GetIndex_name c n t" if "(n, t) \<noteq> (name, ti_name ti)" for n t
    using that same old [of t n] by (auto simp: names_found(2) [OF ok'] names_found(2) [OF ok(1)] index_oid_of_add new split: option.split)
  moreover have "heap_ok b' (ti_table ti) ps" "heap_contents b' ps = heap_contents b ps" "pins b' = pins b"
    using heap_at_ok [OF f(2)] h by (simp_all add: heap_ok_def heap_contents_def)
  ultimately show ?thesis using run same ix.exact_look [OF f(3)]
    by (intro exI [of _ ix] exI [of _ "add_index c ix"] exI [of _ b']) (simp add: heap_contents_def GetLookupAttr_def)
qed

section \<open>Witnesses\<close>

definition demo_schema :: schema where
  "demo_schema = Schema [Column ''a'' T_INTEGER 0]"

text \<open>A catalog with one table, which holds the row (7).\<close>

lemma demo_catalog:
  "\<exists>c b ti. catalog_run 1 0 c \<and> ti \<in> set (GetAllTables c) \<and> ti_name ti = ''t'' \<and> ti_schema ti = demo_schema \<and>
     heap_ok b (ti_table ti) [ti_table ti] \<and> heap_contents b [ti_table ti] = (\<lambda>_. None) \<and> room_for 100 2 b \<and>
     GetIndex_name c ''i'' ''t'' = Inr None \<and> next_page_id (disk_manager b) = 1"
proof -
  obtain b p where b: "TableHeap demo_heap_pool = Inr (p, b)" "heap_ok b p [p]" "heap_contents b [p] = (\<lambda>_. None)" "room_for 100 2 b"
    "next_page_id (disk_manager b) = 1" using demo_heap by blast
  let ?ti = "\<lparr>ti_schema = demo_schema, ti_name = ''t'', ti_table = p, ti_oid = 1\<rparr>"
  let ?c = "\<lparr>next_table_oid = 2, next_index_oid = 1, tables = [(1, ?ti)], table_names = [(''t'', 1)], indexes = [], index_names = []\<rparr>"
  have "CreateTable Catalog demo_heap_pool ''t'' demo_schema = (Inr (Some ?ti, b), ?c)"
    using b(1) by (simp add: CreateTable_def Catalog_def Let_def)
  from create_table [OF start this] show ?thesis using b(2-5)
    by (intro exI [of _ ?c] exI [of _ b] exI [of _ ?ti]) (simp add: GetAllTables_def GetIndex_name_def)
qed

lemma catalog_consistent_witness:
  "\<exists>c ti. catalog_run 1 0 c \<and> GetTable_name c ''t'' = Inr (Some ti) \<and> ti \<in> set (GetAllTables c) \<and> ti_name ti = ''t''"
proof -
  from demo_catalog obtain c ti where c: "catalog_run 1 0 c" "ti \<in> set (GetAllTables c)" "ti_name ti = ''t''" by blast
  have "1 < (2 :: nat) ^ 32 - 1" "0 < (2 :: nat) ^ 32 - 1" by simp_all
  from catalog_consistent [OF c(1) this, of "''t''" "''t''"] obtain r where
    "GetTable_name c ''t'' = Inr r" "\<And>ti. r = Some ti \<longleftrightarrow> ti \<in> set (GetAllTables c) \<and> ti_name ti = ''t''" by (elim conjE exE) blast
  then have "GetTable_name c ''t'' = Inr (Some ti)" using c(2,3) by metis
  then show ?thesis using c by blast
qed

lemma CreateIndex_correct_witness:
  "\<exists>c b ix c' b'. catalog_run 1 0 c \<and> CreateIndex c b ''i'' ''t'' [0] = Some (Inr (Some ix, b'), c') \<and> entries_of ix 7 = []"
proof -
  from demo_catalog obtain c b ti where c: "catalog_run 1 0 c" "ti \<in> set (GetAllTables c)" "ti_name ti = ''t''" "ti_schema ti = demo_schema"
    "heap_ok b (ti_table ti) [ti_table ti]" "heap_contents b [ti_table ti] = (\<lambda>_. None)" "room_for 100 2 b"
    "GetIndex_name c ''i'' ''t'' = Inr None" by blast
  have "set (live (page_view b) [ti_table ti]) = {}"
    using live_contents [of "page_view b" "[ti_table ti]"] c(5,6) by (simp add: heap_ok_def heap_contents_def)
  then have room: "room_for (length [ti_table ti] + length (live (page_view b) [ti_table ti]) * (length [ti_table ti] + 1)) 1 b"
    using c(7) by (auto simp: room_for_def)
  have attr: "0 < length (columns (ti_schema ti))" "c_type (columns (ti_schema ti) ! 0) = T_INTEGER"
    using Schema_columns(1) [of "[Column ''a'' T_INTEGER 0]"] Schema_columns(2) [of 0 "[Column ''a'' T_INTEGER 0]"]
    by (simp_all add: c(4) demo_schema_def Column_def)
  have rows: "\<forall>r bs. heap_contents b [ti_table ti] r = Some bs \<longrightarrow> (\<exists>k. row_key (ti_schema ti) 0 bs r = Inr k)" by (simp add: c(6))
  have name: "''i'' \<noteq> []" "GetIndex_name c ''i'' (ti_name ti) = Inr None" using c(3,8) by simp_all
  have lim: "1 < (2 :: nat) ^ 32 - 1" "0 < (2 :: nat) ^ 32 - 2" by simp_all
  from CreateIndex_correct [OF c(1) lim c(2,5) attr rows name room] show ?thesis unfolding c(3)
  proof (elim exE conjE)
    fix ix c' b' assume i: "CreateIndex c b ''i'' ''t'' [0] = Some (Inr (Some ix, b'), c')"
      "\<forall>k. set (entries_of ix k) = {r. row_keys (ti_schema ti) 0 (heap_contents b [ti_table ti]) r = Some k} \<and> distinct (entries_of ix k)"
    have "set (entries_of ix 7) = {}" using i(2) by (simp add: row_keys_def c(6))
    then show ?thesis using c(1) i(1) by (intro exI conjI) (assumption, assumption, simp)
  qed
qed

end
