(* ===== verification/Page_Guard.thy ===== *)
theory Page_Guard
  imports Page_Store
begin

text \<open>
  Page guards and latches: \<^verbatim>\<open>buffer/page_guard.cpp\<close>, \<^verbatim>\<open>common/rwlatch.h\<close> and the latch of
  \<^verbatim>\<open>storage/page/page.h\<close>. A guard owns one pin of the page it points to, and a read or write guard the latch of
  the page as well. A \<^verbatim>\<open>Page *\<close> is the number of its frame, and a \<^verbatim>\<open>BufferPoolManager *\<close> says only whether it is
  null, since there is one pool. Guards are the values of variables, so that a guard can be assigned to itself.
  An operation that waits for a latch is \<open>None\<close>. The lemmas show that every guard gives back what it took.
\<close>

section \<open>Latches\<close>

record latch =
  readers :: nat
  writer :: bool

type_synonym latches = "frame_id \<Rightarrow> latch"

definition unlatched :: latch where
  "unlatched = \<lparr>readers = 0, writer = False\<rparr>"

definition RLock :: "latch \<Rightarrow> latch option" where
  "RLock l = (if writer l then None else Some (l\<lparr>readers := readers l + 1\<rparr>))"

definition WLock :: "latch \<Rightarrow> latch option" where
  "WLock l = (if writer l \<or> 0 < readers l then None else Some (l\<lparr>writer := True\<rparr>))"

definition RUnlock :: "latch \<Rightarrow> latch res" where
  "RUnlock l = (if readers l = 0 then Inl (UndefinedBehaviour ''unlock_shared of a mutex that is not held'')
                else Inr (l\<lparr>readers := readers l - 1\<rparr>))"

definition WUnlock :: "latch \<Rightarrow> latch res" where
  "WUnlock l = (if \<not> writer l then Inl (UndefinedBehaviour ''unlock of a mutex that is not held'')
                else Inr (l\<lparr>writer := False\<rparr>))"

section \<open>Guards\<close>

record basic_guard =
  bg_bpm :: bool
  bg_page :: "frame_id option"
  bg_dirty :: bool

record latch_guard =
  lg_bpm :: bool
  lg_page :: "frame_id option"

datatype guard = Basic basic_guard | Read latch_guard | Write latch_guard

definition null_page :: exn where
  "null_page = UndefinedBehaviour ''null pointer dereferenced''"

subsection \<open>Basic guards\<close>

definition BasicPageGuard :: "frame_id option \<Rightarrow> basic_guard" where
  "BasicPageGuard page = \<lparr>bg_bpm = True, bg_page = page, bg_dirty = False\<rparr>"

definition BasicPageGuard_default :: basic_guard where
  "BasicPageGuard_default = \<lparr>bg_bpm = False, bg_page = None, bg_dirty = False\<rparr>"

text \<open>Moving construction gives the new guard and what is left in the old one, its dirty flag included.\<close>

definition BasicPageGuard_move :: "basic_guard \<Rightarrow> basic_guard \<times> basic_guard" where
  "BasicPageGuard_move that = (that, that\<lparr>bg_bpm := False, bg_page := None\<rparr>)"

definition Basic_Drop :: "basic_guard \<Rightarrow> 'd bpm \<Rightarrow> (basic_guard \<times> 'd bpm) res" where
  "Basic_Drop g b =
     (case bg_page g of
        None \<Rightarrow> Inr (g, b)
      | Some f \<Rightarrow>
          if \<not> bg_bpm g then Inl null_page
          else let (_, b') = UnpinPage b (pg_id (frame b f)) (bg_dirty g)
               in Inr (\<lparr>bg_bpm = False, bg_page = None, bg_dirty = False\<rparr>, b'))"

text \<open>\<open>same\<close> says that the two operands of the assignment are one variable.\<close>

definition Basic_assign :: "bool \<Rightarrow> basic_guard \<Rightarrow> basic_guard \<Rightarrow> 'd bpm \<Rightarrow> ((basic_guard \<times> basic_guard) \<times> 'd bpm) res" where
  "Basic_assign same this that b =
     (if same then Inr ((this, that), b)
      else rbind (Basic_Drop this b) (\<lambda>(_, b').
        Inr ((\<lparr>bg_bpm = bg_bpm that, bg_page = bg_page that, bg_dirty = bg_dirty that\<rparr>,
              \<lparr>bg_bpm = False, bg_page = None, bg_dirty = False\<rparr>), b')))"

definition Basic_GetPageId :: "basic_guard \<Rightarrow> 'd bpm \<Rightarrow> page_id" where
  "Basic_GetPageId g b = (case bg_page g of None \<Rightarrow> INVALID_PAGE_ID | Some f \<Rightarrow> pg_id (frame b f))"

definition Basic_GetData :: "basic_guard \<Rightarrow> 'd bpm \<Rightarrow> 'd res" where
  "Basic_GetData g b = (case bg_page g of None \<Rightarrow> Inl null_page | Some f \<Rightarrow> Inr (page_read b f))"

text \<open>\<^verbatim>\<open>GetDataMut\<close> marks the guard dirty and gives a pointer through which the client writes.\<close>

definition Basic_GetDataMut :: "basic_guard \<Rightarrow> basic_guard \<times> frame_id res" where
  "Basic_GetDataMut g = (g\<lparr>bg_dirty := True\<rparr>, case bg_page g of None \<Rightarrow> Inl null_page | Some f \<Rightarrow> Inr f)"

definition Basic_IsDirty :: "basic_guard \<Rightarrow> bool" where
  "Basic_IsDirty g = bg_dirty g"

subsection \<open>Read guards\<close>

definition latch_guard_default :: latch_guard where
  "latch_guard_default = \<lparr>lg_bpm = False, lg_page = None\<rparr>"

definition ReadPageGuard :: "frame_id option \<Rightarrow> latches \<Rightarrow> (latch_guard \<times> latches) option" where
  "ReadPageGuard page ls =
     (case page of
        None \<Rightarrow> Some (\<lparr>lg_bpm = True, lg_page = None\<rparr>, ls)
      | Some f \<Rightarrow> (case RLock (ls f) of None \<Rightarrow> None | Some l \<Rightarrow> Some (\<lparr>lg_bpm = True, lg_page = Some f\<rparr>, ls(f := l))))"

definition ReadPageGuard_move :: "latch_guard \<Rightarrow> latch_guard \<times> latch_guard" where
  "ReadPageGuard_move that = (that, \<lparr>lg_bpm = False, lg_page = None\<rparr>)"

definition Read_Drop :: "latch_guard \<Rightarrow> latches \<times> 'd bpm \<Rightarrow> (latch_guard \<times> latches \<times> 'd bpm) res" where
  "Read_Drop g = (\<lambda>(ls, b).
     (case lg_page g of
        None \<Rightarrow> Inr (g, ls, b)
      | Some f \<Rightarrow>
          rbind (RUnlock (ls f)) (\<lambda>l.
            if \<not> lg_bpm g then Inl null_page
            else let (_, b') = UnpinPage b (pg_id (frame b f)) False
                 in Inr (\<lparr>lg_bpm = False, lg_page = None\<rparr>, ls(f := l), b'))))"

definition Read_assign :: "bool \<Rightarrow> latch_guard \<Rightarrow> latch_guard \<Rightarrow> latches \<times> 'd bpm \<Rightarrow>
    ((latch_guard \<times> latch_guard) \<times> latches \<times> 'd bpm) res" where
  "Read_assign same this that s =
     (if same then Inr ((this, that), s)
      else rbind (Read_Drop this s) (\<lambda>(_, s').
        Inr ((\<lparr>lg_bpm = lg_bpm that, lg_page = lg_page that\<rparr>, \<lparr>lg_bpm = False, lg_page = None\<rparr>), s')))"

definition Read_GetPageId :: "latch_guard \<Rightarrow> 'd bpm \<Rightarrow> page_id" where
  "Read_GetPageId g b = (case lg_page g of None \<Rightarrow> INVALID_PAGE_ID | Some f \<Rightarrow> pg_id (frame b f))"

definition Read_GetData :: "latch_guard \<Rightarrow> 'd bpm \<Rightarrow> 'd res" where
  "Read_GetData g b = (case lg_page g of None \<Rightarrow> Inl null_page | Some f \<Rightarrow> Inr (page_read b f))"

subsection \<open>Write guards\<close>

definition WritePageGuard :: "frame_id option \<Rightarrow> latches \<Rightarrow> (latch_guard \<times> latches) option" where
  "WritePageGuard page ls =
     (case page of
        None \<Rightarrow> Some (\<lparr>lg_bpm = True, lg_page = None\<rparr>, ls)
      | Some f \<Rightarrow> (case WLock (ls f) of None \<Rightarrow> None | Some l \<Rightarrow> Some (\<lparr>lg_bpm = True, lg_page = Some f\<rparr>, ls(f := l))))"

definition WritePageGuard_move :: "latch_guard \<Rightarrow> latch_guard \<times> latch_guard" where
  "WritePageGuard_move that = (that, \<lparr>lg_bpm = False, lg_page = None\<rparr>)"

definition Write_GetPageId :: "latch_guard \<Rightarrow> 'd bpm \<Rightarrow> page_id" where
  "Write_GetPageId g b = (case lg_page g of None \<Rightarrow> INVALID_PAGE_ID | Some f \<Rightarrow> pg_id (frame b f))"

definition Write_Drop :: "latch_guard \<Rightarrow> latches \<times> 'd bpm \<Rightarrow> (latch_guard \<times> latches \<times> 'd bpm) res" where
  "Write_Drop g = (\<lambda>(ls, b).
     (case lg_page g of
        None \<Rightarrow> Inr (g, ls, b)
      | Some f \<Rightarrow>
          rbind (WUnlock (ls f)) (\<lambda>l.
            if \<not> lg_bpm g then Inl null_page
            else let (_, b') = UnpinPage b (Write_GetPageId g b) True
                 in Inr (\<lparr>lg_bpm = False, lg_page = None\<rparr>, ls(f := l), b'))))"

definition Write_assign :: "bool \<Rightarrow> latch_guard \<Rightarrow> latch_guard \<Rightarrow> latches \<times> 'd bpm \<Rightarrow>
    ((latch_guard \<times> latch_guard) \<times> latches \<times> 'd bpm) res" where
  "Write_assign same this that s =
     (if same then Inr ((this, that), s)
      else rbind (Write_Drop this s) (\<lambda>(_, s').
        Inr ((\<lparr>lg_bpm = lg_bpm that, lg_page = lg_page that\<rparr>, \<lparr>lg_bpm = False, lg_page = None\<rparr>), s')))"

definition Write_GetData :: "latch_guard \<Rightarrow> 'd bpm \<Rightarrow> 'd res" where
  "Write_GetData g b = (case lg_page g of None \<Rightarrow> Inl null_page | Some f \<Rightarrow> Inr (page_read b f))"

definition Write_GetDataMut :: "latch_guard \<Rightarrow> frame_id res" where
  "Write_GetDataMut g = (case lg_page g of None \<Rightarrow> Inl null_page | Some f \<Rightarrow> Inr f)"

section \<open>All three classes\<close>

primrec page_of :: "guard \<Rightarrow> frame_id option" where
  "page_of (Basic g) = bg_page g"
| "page_of (Read g) = lg_page g"
| "page_of (Write g) = lg_page g"

primrec bpm_of :: "guard \<Rightarrow> bool" where
  "bpm_of (Basic g) = bg_bpm g"
| "bpm_of (Read g) = lg_bpm g"
| "bpm_of (Write g) = lg_bpm g"

primrec Drop :: "guard \<Rightarrow> latches \<times> 'd bpm \<Rightarrow> (guard \<times> latches \<times> 'd bpm) res" where
  "Drop (Basic g) s = rbind (Basic_Drop g (snd s)) (\<lambda>(g', b'). Inr (Basic g', fst s, b'))"
| "Drop (Read g) s = rbind (Read_Drop g s) (\<lambda>(g', s'). Inr (Read g', s'))"
| "Drop (Write g) s = rbind (Write_Drop g s) (\<lambda>(g', s'). Inr (Write g', s'))"

primrec move :: "guard \<Rightarrow> guard \<times> guard" where
  "move (Basic g) = map_prod Basic Basic (BasicPageGuard_move g)"
| "move (Read g) = map_prod Read Read (ReadPageGuard_move g)"
| "move (Write g) = map_prod Write Write (WritePageGuard_move g)"

text \<open>Assignment is defined within a class; \<open>None\<close> is a program that does not type-check.\<close>

fun assign :: "bool \<Rightarrow> guard \<Rightarrow> guard \<Rightarrow> latches \<times> 'd bpm \<Rightarrow> ((guard \<times> guard) \<times> latches \<times> 'd bpm) res option" where
  "assign same (Basic g) (Basic h) (ls, b) =
     Some (rbind (Basic_assign same g h b) (\<lambda>(gh, b'). Inr (map_prod Basic Basic gh, ls, b')))"
| "assign same (Read g) (Read h) s = Some (rbind (Read_assign same g h s) (\<lambda>(gh, s'). Inr (map_prod Read Read gh, s')))"
| "assign same (Write g) (Write h) s = Some (rbind (Write_assign same g h s) (\<lambda>(gh, s'). Inr (map_prod Write Write gh, s')))"
| "assign same _ _ _ = None"

datatype guard_class = BASIC | READ | WRITE

primrec construct :: "guard_class \<Rightarrow> frame_id option \<Rightarrow> latches \<Rightarrow> (guard \<times> latches) option" where
  "construct BASIC page ls = Some (Basic (BasicPageGuard page), ls)"
| "construct READ page ls = map_option (map_prod Read id) (ReadPageGuard page ls)"
| "construct WRITE page ls = map_option (map_prod Write id) (WritePageGuard page ls)"

primrec default_guard :: "guard_class \<Rightarrow> guard" where
  "default_guard BASIC = Basic BasicPageGuard_default"
| "default_guard READ = Read latch_guard_default"
| "default_guard WRITE = Write latch_guard_default"

primrec GetPageId :: "guard \<Rightarrow> 'd bpm \<Rightarrow> page_id" where
  "GetPageId (Basic g) b = Basic_GetPageId g b"
| "GetPageId (Read g) b = Read_GetPageId g b"
| "GetPageId (Write g) b = Write_GetPageId g b"

lemma GetPageId_page: "GetPageId g b = (case page_of g of None \<Rightarrow> INVALID_PAGE_ID | Some f \<Rightarrow> pg_id (frame b f))"
  by (cases g) (simp_all add: Basic_GetPageId_def Read_GetPageId_def Write_GetPageId_def)

text \<open>Whether \<open>Drop\<close> unpins the page as modified, and which latch the guard holds.\<close>

primrec modifies :: "guard \<Rightarrow> bool" where
  "modifies (Basic g) = bg_dirty g"
| "modifies (Read g) = False"
| "modifies (Write g) = True"

definition reads :: "frame_id \<Rightarrow> guard \<Rightarrow> bool" where
  "reads f g \<longleftrightarrow> (\<exists>r. g = Read r \<and> lg_page r = Some f)"

definition writes :: "frame_id \<Rightarrow> guard \<Rightarrow> bool" where
  "writes f g \<longleftrightarrow> (\<exists>w. g = Write w \<and> lg_page w = Some f)"

lemma reads_writes [simp]:
  "\<not> reads f (Basic g)" "reads f (Read r) \<longleftrightarrow> lg_page r = Some f" "\<not> reads f (Write w)"
  "\<not> writes f (Basic g)" "\<not> writes f (Read r)" "writes f (Write w) \<longleftrightarrow> lg_page w = Some f"
  by (auto simp: reads_def writes_def)

section \<open>Programs with guards\<close>

text \<open>
  The states that programs reach from the pool \<open>b0\<close>: the latches, the pool and the variables. \<open>V\<close>
  is the content that the pages were last given. A program fetches a page and wraps it, makes empty guards,
  moves, assigns, drops and destroys them, and writes through them.
\<close>

inductive guard_run :: "'d::zero bpm \<Rightarrow> (page_id \<Rightarrow> 'd) \<Rightarrow> latches \<Rightarrow> 'd bpm \<Rightarrow> (nat \<rightharpoonup> guard) \<Rightarrow> bool" for b0 where
  start: "pool_ok {} b0 \<Longrightarrow> guard_run b0 (page_view b0) (\<lambda>_. unlatched) b0 Map.empty"
| fetched: "guard_run b0 V ls b vars \<Longrightarrow> vars x = None \<Longrightarrow> stored b0 p \<Longrightarrow> FetchPage b p = Inr (page, b') \<Longrightarrow>
    construct c page ls = Some (g, ls') \<Longrightarrow> guard_run b0 V ls' b' (vars(x \<mapsto> g))"
| empty_guard: "guard_run b0 V ls b vars \<Longrightarrow> vars x = None \<Longrightarrow> guard_run b0 V ls b (vars(x \<mapsto> default_guard c))"
| moved: "guard_run b0 V ls b vars \<Longrightarrow> vars x = None \<Longrightarrow> vars y = Some h \<Longrightarrow> move h = (g, h') \<Longrightarrow>
    guard_run b0 V ls b (vars(y \<mapsto> h', x \<mapsto> g))"
| assigned: "guard_run b0 V ls b vars \<Longrightarrow> vars x = Some g \<Longrightarrow> vars y = Some h \<Longrightarrow>
    assign (x = y) g h (ls, b) = Some (Inr ((g', h'), ls', b')) \<Longrightarrow> guard_run b0 V ls' b' (vars(y \<mapsto> h', x \<mapsto> g'))"
| dropped: "guard_run b0 V ls b vars \<Longrightarrow> vars x = Some g \<Longrightarrow> Drop g (ls, b) = Inr (g', ls', b') \<Longrightarrow>
    guard_run b0 V ls' b' (vars(x \<mapsto> g'))"
| destroyed: "guard_run b0 V ls b vars \<Longrightarrow> vars x = Some g \<Longrightarrow> Drop g (ls, b) = Inr (g', ls', b') \<Longrightarrow>
    guard_run b0 V ls' b' (vars(x := None))"
| wrote_basic: "guard_run b0 V ls b vars \<Longrightarrow> vars x = Some (Basic g) \<Longrightarrow> Basic_GetDataMut g = (g', Inr f) \<Longrightarrow>
    guard_run b0 (V(Basic_GetPageId g b := d)) ls (page_write b f d) (vars(x \<mapsto> Basic g'))"
| wrote_latched: "guard_run b0 V ls b vars \<Longrightarrow> vars x = Some (Write g) \<Longrightarrow> Write_GetDataMut g = Inr f \<Longrightarrow>
    guard_run b0 (V(Write_GetPageId g b := d)) ls (page_write b f d) vars"

section \<open>Counting guards\<close>

definition tally :: "(nat \<rightharpoonup> guard) \<Rightarrow> (guard \<Rightarrow> bool) \<Rightarrow> int" where
  "tally A P = int (card {x. \<exists>g. A x = Some g \<and> P g})"

lemma tally_finite: "finite (dom A) \<Longrightarrow> finite {x. \<exists>g. A x = Some g \<and> P g}"
  by (erule finite_subset [rotated]) auto

lemma tally_empty [simp]: "tally Map.empty P = 0"
  by (simp add: tally_def)

lemma tally_upd:
  assumes "finite (dom A)" "A x = None"
  shows "tally (A(x \<mapsto> g)) P = tally A P + of_bool (P g)"
proof -
  have "{y. \<exists>h. (A(x \<mapsto> g)) y = Some h \<and> P h} = (if P g then insert x {y. \<exists>h. A y = Some h \<and> P h} else {y. \<exists>h. A y = Some h \<and> P h})"
    using assms(2) by auto
  then show ?thesis using tally_finite [OF assms(1), of P] assms(2) by (simp add: tally_def)
qed

lemma tally_del:
  assumes "finite (dom A)" "A x = Some g"
  shows "tally (A(x := None)) P = tally A P - of_bool (P g)"
proof -
  have "(A(x := None))(x \<mapsto> g) = A" using assms(2) by auto
  then show ?thesis using tally_upd [of "A(x := None)" x g P] assms(1) by simp
qed

lemma tally_cong: "(\<And>x g. A x = Some g \<Longrightarrow> P g = Q g) \<Longrightarrow> tally A P = tally A Q"
  by (auto simp: tally_def intro!: arg_cong [of _ _ card])

lemma tally_pos: "finite (dom A) \<Longrightarrow> A x = Some g \<Longrightarrow> P g \<Longrightarrow> 0 < tally A P"
  using tally_finite [of A P] by (auto simp: tally_def card_gt_0_iff)

lemma tally_nonneg [simp]: "0 \<le> tally A P"
  by (simp add: tally_def)

lemma tally_one: "finite (dom A) \<Longrightarrow> tally A P \<le> 1 \<Longrightarrow> A x = Some g \<Longrightarrow> P g \<Longrightarrow> A y = Some h \<Longrightarrow> P h \<Longrightarrow> x = y"
  using tally_finite [of A P] card_le_Suc0_iff_eq [of "{x. \<exists>g. A x = Some g \<and> P g}"] by (auto simp: tally_def)

section \<open>The invariant\<close>

lemma pool_ok_mono: "pool_ok W b \<Longrightarrow> W \<subseteq> W' \<Longrightarrow> \<forall>q \<in> W'. 0 < pins b q \<Longrightarrow> pool_ok W' b"
  by (auto simp: pool_ok_def coherent_def)

lemma holds_inj: "pool_ok W b \<Longrightarrow> holds b f p \<Longrightarrow> holds b f q \<Longrightarrow> p = q"
  using cached_inj [of "{}" b p f q] by (simp add: pool_ok_def holds_def)

lemma holds_pg_id: "pool_ok W b \<Longrightarrow> holds b f p \<Longrightarrow> pg_id (frame b f) = p \<and> 0 \<le> p"
  using bpm_inv_cached [of "{}" b p f] by (simp add: pool_ok_def holds_def frame_ok_def)

lemma unpin_keeps:
  assumes "pool_ok W b" "0 < pins b p"
  shows "\<exists>b'. UnpinPage b p d = (True, b') \<and> pins b' = (pins b)(p := pins b p - 1) \<and> stored b' = stored b \<and>
    page_view b' = page_view b \<and> holds b' = holds b \<and>
    (\<forall>W'. (if d then W - {p} else W) \<subseteq> W' \<longrightarrow> (\<forall>q \<in> W'. 0 < pins b' q) \<longrightarrow> pool_ok W' b')"
proof -
  have b: "bpm_inv b" "coherent W b" using assms(1) by (auto simp: pool_ok_def)
  from UnpinPage_inv [OF b(1) assms(2), of d] obtain b' where b': "UnpinPage b p d = (True, b')" "bpm_inv b'"
    "\<forall>q g. cached b q = Some g \<longrightarrow> pg_data (frame b' g) = pg_data (frame b g) \<and>
       (is_dirty (frame b' g) \<longleftrightarrow> is_dirty (frame b g) \<or> q = p \<and> d)" "cached b' = cached b"
    "pins b' = (pins b)(p := pins b p - 1)" "stored b' = stored b" "page_view b' = page_view b"
    "disk_manager b' = disk_manager b"
    by blast
  have "pool_ok W' b'" if W': "(if d then W - {p} else W) \<subseteq> W'" "\<forall>q \<in> W'. 0 < pins b' q" for W'
  proof -
    have "coherent W' b'" unfolding coherent_def
    proof (intro conjI allI impI ballI)
      fix q g assume "cached b' q = Some g" "\<not> is_dirty (frame b' g)" "q \<notin> W'"
      then have q: "cached b q = Some g" "\<not> is_dirty (frame b g)" "q \<notin> W" "pg_data (frame b' g) = pg_data (frame b g)"
        using b'(3,4) W'(1) by (auto split: if_splits)
      from coherentD [OF b(2) q(1,2,3)] q(4) b'(8)
      show "on_disk (disk_manager b') q" "disk_page (disk_manager b') q = pg_data (frame b' g)" by simp_all
    qed (use W'(2) in blast)
    then show ?thesis using b'(2) by (simp add: pool_ok_def)
  qed
  then show ?thesis using b' by (intro exI [of _ b']) (simp add: holds_def fun_eq_iff)
qed

definition onpage :: "'d bpm \<Rightarrow> page_id \<Rightarrow> guard \<Rightarrow> bool" where
  "onpage b p g \<longleftrightarrow> (\<exists>f. page_of g = Some f \<and> holds b f p)"

definition modified :: "'d bpm \<Rightarrow> (nat \<rightharpoonup> guard) \<Rightarrow> page_id set" where
  "modified b A = {p. \<exists>x g. A x = Some g \<and> modifies g \<and> onpage b p g}"

lemma modified_upd:
  "modified b (A(x \<mapsto> g)) = (if modifies g then {p. onpage b p g} else {}) \<union> modified b (A(x := None))"
  unfolding modified_def by (auto split: if_splits)

lemma modified_at: "A x = Some g \<Longrightarrow> modified b A = (if modifies g then {p. onpage b p g} else {}) \<union> modified b (A(x := None))"
  using modified_upd [of b "A(x := None)" x g] by (simp add: fun_upd_idem)

lemma modified_new: "A x = None \<Longrightarrow> modified b (A(x \<mapsto> g)) = (if modifies g then {p. onpage b p g} else {}) \<union> modified b A"
  using modified_upd [of b A x g] by (simp add: fun_upd_idem)

definition active :: "(nat \<rightharpoonup> guard) \<Rightarrow> (nat \<rightharpoonup> guard)" where
  "active vars = (\<lambda>x. case vars x of None \<Rightarrow> None | Some g \<Rightarrow> if page_of g = None then None else Some g)"

lemma active_simps [simp]:
  "active Map.empty = Map.empty" "active (vars(x := None)) = (active vars)(x := None)"
  "active (vars(x \<mapsto> g)) = (if page_of g = None then (active vars)(x := None) else (active vars)(x \<mapsto> g))"
  by (auto simp: active_def)

lemma active_fresh: "vars x = None \<Longrightarrow> (active vars)(x := None) = active vars"
  by (auto simp: active_def fun_eq_iff)

lemma active_eq [simp]: "active vars x = Some g \<longleftrightarrow> vars x = Some g \<and> page_of g \<noteq> None"
  by (auto simp: active_def split: option.splits)

lemma active_None: "vars x = None \<Longrightarrow> active vars x = None" "vars x = Some g \<Longrightarrow> page_of g = None \<Longrightarrow> active vars x = None"
  by (simp_all add: active_def)

definition latched_as :: "(nat \<rightharpoonup> guard) \<Rightarrow> latches \<Rightarrow> bool" where
  "latched_as A ls \<longleftrightarrow> (\<forall>f. int (readers (ls f)) = tally A (reads f) \<and> of_bool (writer (ls f)) = tally A (writes f) \<and>
     \<not> (writer (ls f) \<and> 0 < readers (ls f)))"

definition guards_ok :: "'d::zero bpm \<Rightarrow> (page_id \<Rightarrow> 'd) \<Rightarrow> (nat \<rightharpoonup> guard) \<Rightarrow> latches \<Rightarrow> 'd bpm \<Rightarrow> bool" where
  "guards_ok b0 V A ls b \<longleftrightarrow> finite (dom A) \<and> pool_ok {} b0 \<and> pool_ok (modified b A) b \<and>
     (\<forall>x g. A x = Some g \<longrightarrow> bpm_of g \<and> (\<exists>p. onpage b p g)) \<and>
     (\<forall>p. pins b p = pins b0 p + tally A (onpage b p)) \<and> latched_as A ls \<and>
     (\<forall>p. stored b0 p \<longrightarrow> stored b p \<and> page_view b p = V p)"

lemma guards_okD:
  assumes "guards_ok b0 V A ls b"
  shows "finite (dom A)" "pool_ok {} b0" "pool_ok (modified b A) b"
    "A x = Some g \<Longrightarrow> bpm_of g" "A x = Some g \<Longrightarrow> \<exists>p. onpage b p g"
    "pins b p = pins b0 p + tally A (onpage b p)" "latched_as A ls"
    "stored b0 p \<Longrightarrow> stored b p" "stored b0 p \<Longrightarrow> page_view b p = V p"
  using assms by (auto simp: guards_ok_def)

lemma guards_pinned: "guards_ok b0 V A ls b \<Longrightarrow> A x = Some g \<Longrightarrow> onpage b p g \<Longrightarrow> 0 < pins b p"
  using guards_okD(6) [of b0 V A ls b p] tally_pos [OF guards_okD(1), of b0 V A ls b x g "onpage b p"]
    pool.pin_nonneg [OF guards_okD(2), of b0 V A ls b p] by simp

lemma latched_drop:
  assumes "latched_as A ls" "A x = Some g" "finite (dom A)"
  shows "reads f g \<Longrightarrow> 0 < readers (ls f) \<and> latched_as (A(x := None)) (ls(f := (ls f)\<lparr>readers := readers (ls f) - 1\<rparr>))"
    "writes f g \<Longrightarrow> writer (ls f) \<and> latched_as (A(x := None)) (ls(f := (ls f)\<lparr>writer := False\<rparr>))"
    "\<forall>f. \<not> reads f g \<and> \<not> writes f g \<Longrightarrow> latched_as (A(x := None)) ls"
proof -
  note t = tally_del [OF assms(3,2)]
  have l: "int (readers (ls f)) = tally A (reads f)" "of_bool (writer (ls f)) = tally A (writes f)"
    "\<not> (writer (ls f) \<and> 0 < readers (ls f))" for f
    using assms(1) by (auto simp: latched_as_def)
  show "latched_as (A(x := None)) ls" if "\<forall>f. \<not> reads f g \<and> \<not> writes f g"
    using l that by (simp add: latched_as_def t)
  show "0 < readers (ls f) \<and> latched_as (A(x := None)) (ls(f := (ls f)\<lparr>readers := readers (ls f) - 1\<rparr>))" if r: "reads f g"
  proof -
    have "0 < tally A (reads f)" using tally_pos [of A x g "reads f"] assms(2,3) r by blast
    then have pos: "0 < readers (ls f)" using l(1) [of f] by simp
    have rg: "reads k g \<longleftrightarrow> k = f" "\<not> writes k g" for k using r by (auto simp: reads_def)
    show ?thesis using l pos by (simp add: latched_as_def t rg of_nat_diff)
  qed
  show "writer (ls f) \<and> latched_as (A(x := None)) (ls(f := (ls f)\<lparr>writer := False\<rparr>))" if w: "writes f g"
  proof -
    have "0 < tally A (writes f)" using tally_pos [of A x g "writes f"] assms(2,3) w by blast
    then have pos: "writer (ls f)" using l(2) [of f] by (cases "writer (ls f)") simp_all
    have wg: "writes k g \<longleftrightarrow> k = f" "\<not> reads k g" for k using w by (auto simp: writes_def)
    have "tally A (writes f) = 1" "readers (ls f) = 0" "tally A (reads f) = 0"
      using l(1) [of f] l(2) [of f] l(3) [of f] pos by simp_all
    then show ?thesis using l pos by (simp add: latched_as_def t wg)
  qed
qed

lemma Drop_empty: "page_of g = None \<Longrightarrow> Drop g s = Inr (g, s)"
  by (cases g; cases s) (simp_all add: Basic_Drop_def Read_Drop_def Write_Drop_def)

lemma Drop_page:
  assumes "page_of g = Some f" "bpm_of g" "reads f g \<Longrightarrow> 0 < readers (ls f)" "writes f g \<Longrightarrow> writer (ls f)"
    and "UnpinPage b (pg_id (frame b f)) (modifies g) = (True, b')"
  shows "\<exists>g'. page_of g' = None \<and> Drop g (ls, b) = Inr (g',
    if reads f g then ls(f := (ls f)\<lparr>readers := readers (ls f) - 1\<rparr>)
    else if writes f g then ls(f := (ls f)\<lparr>writer := False\<rparr>) else ls, b')"
  using assms
  by (cases g) (simp_all add: Basic_Drop_def Read_Drop_def Write_Drop_def RUnlock_def WUnlock_def Write_GetPageId_def)

lemma Drop_ok:
  assumes ok: "guards_ok b0 V A ls b" and x: "A x = Some g"
  shows "\<exists>g' ls' b'. Drop g (ls, b) = Inr (g', ls', b') \<and> page_of g' = None \<and> guards_ok b0 V (A(x := None)) ls' b'"
proof -
  note d = guards_okD [OF ok]
  from d(5) [OF x] obtain p f where p: "onpage b p g" and f: "page_of g = Some f" "holds b f p"
    by (auto simp: onpage_def)
  have pos: "0 < pins b p" by (rule guards_pinned [OF ok x p])
  have id: "pg_id (frame b f) = p" using holds_pg_id [OF d(3) f(2)] by simp
  from unpin_keeps [OF d(3) pos, of "modifies g"] obtain b' where b': "UnpinPage b p (modifies g) = (True, b')"
    "pins b' = (pins b)(p := pins b p - 1)" "stored b' = stored b" "page_view b' = page_view b" "holds b' = holds b"
    "\<forall>W'. (if modifies g then modified b A - {p} else modified b A) \<subseteq> W' \<longrightarrow> (\<forall>q \<in> W'. 0 < pins b' q) \<longrightarrow> pool_ok W' b'"
    by blast
  define ls' where "ls' = (if reads f g then ls(f := (ls f)\<lparr>readers := readers (ls f) - 1\<rparr>)
    else if writes f g then ls(f := (ls f)\<lparr>writer := False\<rparr>) else ls)"
  note l = latched_drop [OF d(7) x d(1)]
  from Drop_page [OF f(1) d(4) [OF x], of ls b b'] b'(1) l(1,2) [of f] id obtain g' where
    g': "page_of g' = None" "Drop g (ls, b) = Inr (g', ls', b')" unfolding ls'_def by blast
  have "\<not> reads f g \<Longrightarrow> \<not> writes f g \<Longrightarrow> \<forall>k. \<not> reads k g \<and> \<not> writes k g"
    using f(1) by (auto simp: reads_def writes_def)
  then have "latched_as (A(x := None)) ls'" unfolding ls'_def using l by simp
  moreover have on: "onpage b' = onpage b" by (simp add: onpage_def b'(5) fun_eq_iff)
  have gp: "onpage b q g \<longleftrightarrow> q = p" for q
    using p f holds_inj [OF d(3) f(2), of q] by (auto simp: onpage_def)
  have pins: "pins b' q = pins b0 q + tally (A(x := None)) (onpage b' q)" for q
    using d(6) [of q] by (cases "q = p") (simp_all add: b'(2) on tally_del [OF d(1) x] gp)
  moreover have "pool_ok (modified b' (A(x := None))) b'"
  proof (rule b'(6) [rule_format])
    have "modified b' (A(x := None)) = modified b (A(x := None))" by (simp add: modified_def on)
    then show "(if modifies g then modified b A - {p} else modified b A) \<subseteq> modified b' (A(x := None))"
      using modified_at [of A x g b, OF x] gp by auto
    show "0 < pins b' q" if "q \<in> modified b' (A(x := None))" for q
    proof -
      from that obtain y h where y: "(A(x := None)) y = Some h" "onpage b' q h" by (auto simp: modified_def)
      have "finite (dom (A(x := None)))" using d(1) by simp
      from tally_pos [of "A(x := None)" y h "onpage b' q", OF this y(1)] y(2) pins [of q]
        pool.pin_nonneg [OF d(2), of q] show ?thesis by simp
    qed
  qed
  ultimately have "guards_ok b0 V (A(x := None)) ls' b'"
    using ok unfolding guards_ok_def by (simp add: on b'(3,4))
  then show ?thesis using g' by blast
qed

text \<open>A guard that changes its variable.\<close>

lemma tally_move:
  assumes "finite (dom A)" "A y = Some h" "A x = None"
  shows "tally ((A(y := None))(x \<mapsto> h)) P = tally A P"
proof -
  have "x \<noteq> y" using assms(2,3) by auto
  then have "(A(y := None)) x = None" "finite (dom (A(y := None)))" using assms(1,3) by simp_all
  from tally_upd [OF this(2,1), of h P] tally_del [OF assms(1,2), of P] show ?thesis by (simp del: fun_upd_apply)
qed

lemma move_ok:
  assumes ok: "guards_ok b0 V A ls b" and "A y = Some h" "A x = None"
  shows "guards_ok b0 V ((A(y := None))(x \<mapsto> h)) ls b"
proof -
  note d = guards_okD [OF ok] and t = tally_move [OF guards_okD(1) [OF ok] assms(2,3)]
  have "modified b ((A(y := None))(x \<mapsto> h)) = modified b A"
  proof -
    have "(A(y := None)) x = None" using assms(3) by simp
    from modified_new [of "A(y := None)" x b h, OF this] modified_at [of A y h b] assms(2) show ?thesis by simp
  qed
  moreover have "\<forall>z g. ((A(y := None))(x \<mapsto> h)) z = Some g \<longrightarrow> bpm_of g \<and> (\<exists>p. onpage b p g)"
    using d(4,5) assms(2) by (auto split: if_splits)
  moreover have "latched_as ((A(y := None))(x \<mapsto> h)) ls" using d(7) by (simp add: latched_as_def t)
  ultimately show ?thesis using ok unfolding guards_ok_def t by simp
qed

text \<open>A page that is fetched and wrapped.\<close>

lemma latched_new:
  assumes "latched_as A ls" "finite (dom A)" "A x = None" "construct c (Some f) ls = Some (g, ls')"
  shows "latched_as (A(x \<mapsto> g)) ls' \<and> page_of g = Some f \<and> bpm_of g \<and> (modifies g \<longleftrightarrow> c = WRITE)"
proof -
  note t = tally_upd [OF assms(2,3)]
  have l: "int (readers (ls f)) = tally A (reads f)" "of_bool (writer (ls f)) = tally A (writes f)"
    "\<not> (writer (ls f) \<and> 0 < readers (ls f))" for f
    using assms(1) by (auto simp: latched_as_def)
  show ?thesis
  proof (cases c)
    case BASIC
    then show ?thesis using assms(4) l by (auto simp: BasicPageGuard_def latched_as_def t)
  next
    case READ
    then have "\<not> writer (ls f)" "g = Read \<lparr>lg_bpm = True, lg_page = Some f\<rparr>" "ls' = ls(f := (ls f)\<lparr>readers := readers (ls f) + 1\<rparr>)"
      using assms(4) by (auto simp: ReadPageGuard_def RLock_def split: if_splits)
    then show ?thesis using l l(2) [of f] READ by (auto simp: latched_as_def t)
  next
    case WRITE
    then have "\<not> writer (ls f)" "readers (ls f) = 0" "g = Write \<lparr>lg_bpm = True, lg_page = Some f\<rparr>" "ls' = ls(f := (ls f)\<lparr>writer := True\<rparr>)"
      using assms(4) by (auto simp: WritePageGuard_def WLock_def split: if_splits)
    then show ?thesis using l l(1) [of f] l(2) [of f] WRITE by (auto simp: latched_as_def t)
  qed
qed

lemma fetch_ok:
  assumes ok: "guards_ok b0 V A ls b" and x: "A x = None" and st: "stored b0 p" and "FetchPage b p = Inr (Some f, b')"
    and c: "construct c (Some f) ls = Some (g, ls')"
  shows "guards_ok b0 V (A(x \<mapsto> g)) ls' b' \<and> page_of g = Some f"
proof -
  note d = guards_okD [OF ok]
  from pool.fetch [OF d(3) d(8) [OF st]] assms(4) have b': "pool_ok (modified b A) b'" "holds b' f p"
    "pins b' = (pins b)(p := pins b p + 1)" "\<forall>q. stored b q \<longrightarrow> stored b' q \<and> page_view b' q = page_view b q"
    "\<forall>g q. 0 < pins b q \<longrightarrow> holds b g q \<longrightarrow> holds b' g q"
    by auto
  note l = latched_new [OF d(7,1) x c]
  have on: "onpage b' q h \<longleftrightarrow> onpage b q h" if h: "A y = Some h" for y h q
  proof
    assume "onpage b q h"
    then show "onpage b' q h" using b'(5) guards_pinned [OF ok h] by (auto simp: onpage_def)
  next
    assume "onpage b' q h"
    moreover obtain r where r: "onpage b r h" using d(5) [OF h] by blast
    moreover have "onpage b' r h" using b'(5) guards_pinned [OF ok h r] r by (auto simp: onpage_def)
    ultimately have "q = r" using holds_inj [OF b'(1), of _ q r] by (auto simp: onpage_def)
    with r show "onpage b q h" by simp
  qed
  have gp: "onpage b' q g \<longleftrightarrow> q = p" for q using l b'(2) holds_inj [OF b'(1) b'(2), of q] by (auto simp: onpage_def)
  have pins: "pins b' q = pins b0 q + tally (A(x \<mapsto> g)) (onpage b' q)" for q
  proof -
    have "tally A (onpage b' q) = tally A (onpage b q)" by (rule tally_cong) (rule on)
    then show ?thesis using d(6) [of q] by (cases "q = p") (simp_all add: b'(3) tally_upd [OF d(1) x] gp)
  qed
  have dom: "finite (dom (A(x \<mapsto> g)))" using d(1) by simp
  have "pool_ok (modified b' (A(x \<mapsto> g))) b'"
  proof (rule pool_ok_mono [OF b'(1)])
    show "modified b A \<subseteq> modified b' (A(x \<mapsto> g))"
    proof
      fix q assume "q \<in> modified b A"
      then obtain y h where y: "A y = Some h" "modifies h" "onpage b q h" by (auto simp: modified_def)
      then have "(A(x \<mapsto> g)) y = Some h" "onpage b' q h" using x on [OF y(1)] by auto
      then show "q \<in> modified b' (A(x \<mapsto> g))" using y(2) unfolding modified_def by blast
    qed
    show "\<forall>q \<in> modified b' (A(x \<mapsto> g)). 0 < pins b' q"
    proof
      fix q assume "q \<in> modified b' (A(x \<mapsto> g))"
      then obtain y h where y: "(A(x \<mapsto> g)) y = Some h" "onpage b' q h" unfolding modified_def by blast
      from tally_pos [of "A(x \<mapsto> g)" y h "onpage b' q", OF dom y] pins [of q] pool.pin_nonneg [OF d(2), of q]
      show "0 < pins b' q" by simp
    qed
  qed
  moreover have "\<forall>y h. (A(x \<mapsto> g)) y = Some h \<longrightarrow> bpm_of h \<and> (\<exists>p. onpage b' p h)"
  proof (intro allI impI)
    fix y h assume "(A(x \<mapsto> g)) y = Some h"
    then show "bpm_of h \<and> (\<exists>p. onpage b' p h)" using l gp on [of y h] d(4,5) [of y h] by (cases "y = x") auto
  qed
  ultimately show ?thesis
    using l pins dom d(2,8,9) b'(4) unfolding guards_ok_def by (simp del: fun_upd_apply)
qed

lemma construct_null: "construct c None ls = Some (g, ls') \<Longrightarrow> page_of g = None \<and> ls' = ls"
  by (cases c) (auto simp: BasicPageGuard_def ReadPageGuard_def WritePageGuard_def)

text \<open>A page that is written through a guard.\<close>

lemma write_ok:
  assumes ok: "guards_ok b0 V A ls b" and x: "A x = Some g" and f: "page_of g = Some f"
    and g': "page_of g' = Some f" "bpm_of g' = bpm_of g" "modifies g'" "\<And>k. reads k g' = reads k g" "\<And>k. writes k g' = writes k g"
  shows "guards_ok b0 (V(GetPageId g b := d)) (A(x \<mapsto> g')) ls (page_write b f d)"
proof -
  note k = guards_okD [OF ok]
  from k(5) [OF x] obtain p where p: "onpage b p g" "holds b f p" using f by (auto simp: onpage_def)
  have id: "GetPageId g b = p" using holds_pg_id [OF k(3) p(2)] f by (simp add: GetPageId_page)
  from pool.put [OF k(3) p(2) guards_pinned [OF ok x p(1)], of d] have w:
    "pool_ok (insert p (modified b A)) (page_write b f d)" "page_view (page_write b f d) = (page_view b)(p := d)"
    "pins (page_write b f d) = pins b" "stored (page_write b f d) = stored b" "holds (page_write b f d) = holds b"
    by auto
  have on: "onpage (page_write b f d) = onpage b" by (simp add: onpage_def w(5) fun_eq_iff)
  have gp: "onpage b q g' \<longleftrightarrow> onpage b q g" for q using f g'(1) by (simp add: onpage_def)
  have gp': "onpage b q g \<longleftrightarrow> q = p" for q using p f holds_inj [OF k(3) p(2), of q] by (auto simp: onpage_def)
  have t: "tally (A(x \<mapsto> g')) P = tally A P" if "P g' = P g" for P
  proof -
    have "{y. \<exists>h. (A(x \<mapsto> g')) y = Some h \<and> P h} = {y. \<exists>h. A y = Some h \<and> P h}" using x that by auto
    then show ?thesis by (simp add: tally_def)
  qed
  have "modified (page_write b f d) (A(x \<mapsto> g')) = insert p (modified b A)"
    using modified_upd [of b A x g'] modified_at [of A x g b, OF x] g'(3) gp gp' by (auto simp: modified_def on simp del: fun_upd_apply)
  moreover have "latched_as (A(x \<mapsto> g')) ls" using k(7) by (simp add: latched_as_def t g'(4,5))
  moreover have "pins b q = pins b0 q + tally (A(x \<mapsto> g')) (onpage b q)" for q using k(6) [of q] t [of "onpage b q"] gp by simp
  moreover have "\<forall>y h. (A(x \<mapsto> g')) y = Some h \<longrightarrow> bpm_of h \<and> (\<exists>p. onpage b p h)" using k(4,5) x g'(2) gp p(1) by auto
  ultimately show ?thesis
    using k(1,2,8,9) w(1) id unfolding guards_ok_def on w(2-4) by (simp del: fun_upd_apply) simp
qed

section \<open>Runs keep the invariant\<close>

lemma drop_any:
  assumes ok: "guards_ok b0 V (active vars) ls b" and x: "vars x = Some g"
  shows "\<exists>g' ls' b'. Drop g (ls, b) = Inr (g', ls', b') \<and> page_of g' = None \<and> guards_ok b0 V ((active vars)(x := None)) ls' b'"
proof (cases "page_of g")
  case None
  then have "(active vars)(x := None) = active vars" using active_None(2) [of vars x g] x by auto
  with ok have "guards_ok b0 V ((active vars)(x := None)) ls b" by (simp only:)
  then show ?thesis using Drop_empty [OF None] None by blast
next
  case (Some f)
  then have "active vars x = Some g" using x by simp
  from Drop_ok [OF ok this] show ?thesis .
qed

lemma assign_drop:
  assumes "assign False g h s = Some r" "Drop g s = Inr (g1, s1)"
  shows "\<exists>h0. page_of h0 = None \<and> r = Inr ((h, h0), s1)"
proof -
  obtain ls b where s: "s = (ls, b)" by (cases s)
  show ?thesis using assms unfolding s
    by (cases g; cases h) (auto simp: Basic_assign_def Read_assign_def Write_assign_def)
qed

lemma assign_same: "assign True g g s = Some r \<Longrightarrow> r = Inr ((g, g), s)"
  by (cases s; cases g) (auto simp: Basic_assign_def Read_assign_def Write_assign_def)

lemma move_cases: "move h = (g, h') \<Longrightarrow> g = h \<and> page_of h' = None"
  by (cases h) (auto simp: BasicPageGuard_move_def ReadPageGuard_move_def WritePageGuard_move_def)

lemma give_ok:
  assumes ok: "guards_ok b0 V (active vars) ls b" and "vars y = Some h" "active vars x = None" "page_of h' = None" "x \<noteq> y"
  shows "guards_ok b0 V (active (vars(y \<mapsto> h', x \<mapsto> h))) ls b"
proof (cases "page_of h = None")
  case True
  then have "active (vars(y \<mapsto> h', x \<mapsto> h)) = active vars"
    using assms(2-5) active_None(2) [of vars y h] by (auto simp: fun_eq_iff)
  then show ?thesis using ok by simp
next
  case False
  then obtain f where f: "page_of h = Some f" by blast
  then have "active vars y = Some h" using assms(2) by simp
  from move_ok [OF ok this assms(3)] show ?thesis using f assms(4) by (simp del: fun_upd_apply)
qed

lemma guard_run_ok: "guard_run b0 V ls b vars \<Longrightarrow> guards_ok b0 V (active vars) ls b"
proof (induction rule: guard_run.induct)
  case start
  then show ?case by (simp add: guards_ok_def modified_def latched_as_def unlatched_def)
next
  case (fetched V ls b vars x p page b' c g ls')
  have fresh: "active vars x = None" using fetched(2) by (rule active_None)
  show ?case
  proof (cases page)
    case (Some f)
    from fetch_ok [OF fetched.IH fresh fetched(3) fetched(4) [unfolded Some] fetched(5) [unfolded Some]]
    show ?thesis by (simp del: fun_upd_apply)
  next
    case None
    have "FetchPage b p = Inr (None, b')" using fetched(4) None by simp
    with pool.fetch [OF guards_okD(3,8) [OF fetched.IH], OF fetched(3)] have "b' = b" by auto
    moreover have "(active vars)(x := None) = active vars" using active_fresh fetched(2) by blast
    ultimately show ?thesis using construct_null [OF fetched(5) [unfolded None]] fetched.IH by (simp del: fun_upd_apply)
  qed
next
  case (empty_guard V ls b vars x c)
  have "page_of (default_guard c) = None" by (cases c) (simp_all add: BasicPageGuard_default_def latch_guard_default_def)
  moreover have "(active vars)(x := None) = active vars" using active_fresh empty_guard(2) by blast
  ultimately show ?case using empty_guard.IH by (simp del: fun_upd_apply)
next
  case (moved V ls b vars x y h g h')
  have "x \<noteq> y" using moved(2,3) by auto
  from give_ok [OF moved.IH moved(3) _ _ this] move_cases [OF moved(4)] active_None(1) [of vars x, OF moved(2)] show ?case by blast
next
  case (assigned V ls b vars x g y h g' h' ls' b')
  show ?case
  proof (cases "x = y")
    case True
    then have "g = h" using assigned(2,3) by simp
    with True assign_same assigned(4) have "g' = g" "h' = g" "ls' = ls" "b' = b" by fastforce+
    then show ?thesis using assigned.IH assigned(2) True by (simp add: fun_upd_idem)
  next
    case False
    from drop_any [OF assigned.IH assigned(2)] obtain g1 ls1 b1 where d: "Drop g (ls, b) = Inr (g1, ls1, b1)" "page_of g1 = None"
      "guards_ok b0 V ((active vars)(x := None)) ls1 b1" by blast
    have "assign False g h (ls, b) = Some (Inr ((g', h'), ls', b'))" using assigned(4) False by simp
    from assign_drop [OF this d(1)] have e: "g' = h" "page_of h' = None" "ls' = ls1" "b' = b1" by auto
    have "guards_ok b0 V (active (vars(x \<mapsto> g1))) ls1 b1" using d(2,3) by simp
    from give_ok [OF this _ _ e(2) False, of h] assigned(3) False d(2)
    have "guards_ok b0 V (active ((vars(x \<mapsto> g1))(y \<mapsto> h', x \<mapsto> h))) ls1 b1" by simp
    moreover have "(vars(x \<mapsto> g1))(y \<mapsto> h', x \<mapsto> h) = vars(y \<mapsto> h', x \<mapsto> h)" using False by auto
    ultimately show ?thesis using e by (simp only:)
  qed
next
  case (dropped V ls b vars x g g' ls' b')
  from drop_any [OF dropped.IH dropped(2)] dropped(3) show ?case by (auto simp del: fun_upd_apply)
next
  case (destroyed V ls b vars x g g' ls' b')
  from drop_any [OF destroyed.IH destroyed(2)] destroyed(3) show ?case by (auto simp del: fun_upd_apply)
next
  case (wrote_basic V ls b vars x g g' f d)
  then have f: "bg_page g = Some f" "g' = g\<lparr>bg_dirty := True\<rparr>" by (auto simp: Basic_GetDataMut_def null_page_def split: option.splits)
  then have "active vars x = Some (Basic g)" using wrote_basic(2) by simp
  from write_ok [OF wrote_basic.IH this, of f "Basic g'" d] f show ?case by (simp del: fun_upd_apply)
next
  case (wrote_latched V ls b vars x g f d)
  then have f: "lg_page g = Some f" by (auto simp: Write_GetDataMut_def null_page_def split: option.splits)
  then have a: "active vars x = Some (Write g)" using wrote_latched(2) by simp
  then have "(active vars)(x \<mapsto> Write g) = active vars" by (simp add: fun_upd_idem)
  with write_ok [OF wrote_latched.IH a, of f "Write g" d] f show ?case by (simp del: fun_upd_apply)
qed

section \<open>Properties\<close>

text \<open>The stale flag that moving construction leaves: a moved-from guard is empty and still reports dirty.\<close>

lemma moved_from_dirty: "Basic_IsDirty (snd (BasicPageGuard_move g)) = Basic_IsDirty g"
  by (simp add: BasicPageGuard_move_def Basic_IsDirty_def)

text \<open>
  C15. Guards balance, whatever a program does with them: moves, self-assignment, early drops. No drop
  releases a latch that is not held or follows a null pointer; a page has one pin for each guard on it; a
  write guard excludes every other latched guard on its page; what was last written through a guard is what the
  pool presents; and when no guard holds a page any more, all pins and latches are back and nothing is left unsaved.
\<close>

theorem guards_balance:
  assumes "guard_run b0 V ls b vars"
  shows "(\<forall>x g. vars x = Some g \<longrightarrow> (\<exists>r. Drop g (ls, b) = Inr r)) \<and>
    (\<forall>p. 0 \<le> p \<longrightarrow> pins b p = pins b0 p + int (card {x. \<exists>g. vars x = Some g \<and> GetPageId g b = p})) \<and>
    (\<forall>x y g h f. vars x = Some g \<and> writes f g \<and> vars y = Some h \<and> y \<noteq> x \<longrightarrow> \<not> reads f h \<and> \<not> writes f h) \<and>
    (\<forall>p. stored b0 p \<longrightarrow> page_view b p = V p) \<and>
    ((\<forall>x g. vars x = Some g \<longrightarrow> page_of g = None) \<longrightarrow> pool_ok {} b \<and> pins b = pins b0 \<and> ls = (\<lambda>_. unlatched))"
proof -
  have ok: "guards_ok b0 V (active vars) ls b" by (rule guard_run_ok [OF assms])
  note d = guards_okD [OF ok]
  have "{x. \<exists>g. vars x = Some g \<and> GetPageId g b = p} = {x. \<exists>g. active vars x = Some g \<and> onpage b p g}" if "0 \<le> p" for p
  proof -
    have "GetPageId g b = p \<longleftrightarrow> page_of g \<noteq> None \<and> onpage b p g" if x: "vars x = Some g" for x g
    proof (cases "page_of g")
      case None
      then show ?thesis using \<open>0 \<le> p\<close> by (simp add: GetPageId_page INVALID_PAGE_ID_def onpage_def)
    next
      case (Some f)
      then obtain q where q: "holds b f q" using d(5) [of x g] x by (auto simp: onpage_def)
      have "GetPageId g b = q" using holds_pg_id [OF d(3) q] Some by (simp add: GetPageId_page)
      moreover have "onpage b p g \<longleftrightarrow> p = q" using holds_inj [OF d(3) q, of p] q Some by (auto simp: onpage_def)
      ultimately show ?thesis using Some by auto
    qed
    then have "(\<exists>g. vars x = Some g \<and> GetPageId g b = p) \<longleftrightarrow> (\<exists>g. active vars x = Some g \<and> onpage b p g)" for x
      unfolding active_eq by blast
    then show ?thesis by simp
  qed
  then have 2: "\<forall>p. 0 \<le> p \<longrightarrow> pins b p = pins b0 p + int (card {x. \<exists>g. vars x = Some g \<and> GetPageId g b = p})"
    using d(6) by (simp add: tally_def)
  have "\<not> reads f h \<and> \<not> writes f h" if x: "vars x = Some g" "writes f g" and y: "vars y = Some h" "y \<noteq> x" for x y g h f
  proof -
    have l: "int (readers (ls f)) = tally (active vars) (reads f)" "of_bool (writer (ls f)) = tally (active vars) (writes f)"
      "\<not> (writer (ls f) \<and> 0 < readers (ls f))"
      using d(7) by (auto simp: latched_as_def)
    have g: "active vars x = Some g" using x by (auto simp: writes_def)
    have "0 < tally (active vars) (writes f)" using tally_pos [of "active vars" x g "writes f"] d(1) g x(2) by blast
    then have "tally (active vars) (writes f) \<le> 1" "tally (active vars) (reads f) = 0"
      using l by (cases "writer (ls f)"; simp)+
    moreover have "active vars y = Some h" if "reads f h \<or> writes f h" using that y by (auto simp: reads_def writes_def)
    ultimately show ?thesis
      using tally_one [of "active vars" "writes f" x g y h] tally_pos [of "active vars" y h "reads f"] d(1) g x(2) y(2) by auto
  qed
  then have 3: "\<forall>x y g h f. vars x = Some g \<and> writes f g \<and> vars y = Some h \<and> y \<noteq> x \<longrightarrow> \<not> reads f h \<and> \<not> writes f h"
    by blast
  have 5: "pool_ok {} b \<and> pins b = pins b0 \<and> ls = (\<lambda>_. unlatched)" if "\<forall>x g. vars x = Some g \<longrightarrow> page_of g = None"
  proof -
    have "active vars = Map.empty" using that by (auto simp: active_def fun_eq_iff split: option.split)
    then have "modified b (active vars) = {}" "\<forall>p. pins b p = pins b0 p" "\<forall>f. readers (ls f) = 0 \<and> \<not> writer (ls f)"
      using d(6,7) by (auto simp: modified_def latched_as_def)
    then show ?thesis using d(3) by (auto simp: unlatched_def fun_eq_iff)
  qed
  have 1: "\<forall>x g. vars x = Some g \<longrightarrow> (\<exists>r. Drop g (ls, b) = Inr r)"
  proof (intro allI impI)
    fix x g assume "vars x = Some g"
    from drop_any [OF ok this] show "\<exists>r. Drop g (ls, b) = Inr r" by (elim exE conjE) (rule exI)
  qed
  have 4: "\<forall>p. stored b0 p \<longrightarrow> page_view b p = V p" using d(9) by blast
  show ?thesis by (intro conjI 1 2 3 4 impI 5) blast
qed

lemma demo_fetch: "\<exists>b'. FetchPage (demo_pool [7] 1 0 0 True) 1 = Inr (Some 0, b')"
  by (simp add: pool_eval del: map_of_entries map_of_page_table)

lemma guards_balance_witness:
  "\<exists>V ls b. guard_run (demo_pool [7] 1 0 0 True) V ls b [0 \<mapsto> Write \<lparr>lg_bpm = True, lg_page = Some 0\<rparr>] \<and>
     (\<exists>r. Drop (Write \<lparr>lg_bpm = True, lg_page = Some 0\<rparr>) (ls, b) = Inr r)"
proof -
  note run = pool_runD(1,2) [OF demo_run demo_disk_ok]
  then have "pool_ok {} (demo_pool [7] 1 0 0 True)" by (simp add: pool_ok_def)
  note st = guard_run.start [OF this]
  obtain b' where f: "FetchPage (demo_pool [7] 1 0 0 True) 1 = Inr (Some 0, b')" using demo_fetch by blast
  have "stored (demo_pool [7] 1 0 0 True) 1" by (simp add: stored_def cached_def demo_pool_def)
  from guard_run.fetched [OF st _ this f, where x = 0 and c = WRITE and g = "Write \<lparr>lg_bpm = True, lg_page = Some 0\<rparr>"]
  obtain ls where r: "guard_run (demo_pool [7] 1 0 0 True) (page_view (demo_pool [7] 1 0 0 True)) ls b'
      [0 \<mapsto> Write \<lparr>lg_bpm = True, lg_page = Some 0\<rparr>]"
    by (auto simp: WritePageGuard_def WLock_def unlatched_def)
  have "\<exists>r. Drop (Write \<lparr>lg_bpm = True, lg_page = Some 0\<rparr>) (ls, b') = Inr r"
    by (rule guards_balance [OF r, THEN conjunct1, rule_format, of 0]) simp
  then show ?thesis using r by blast
qed

end
