(* ===== verification/Executors.thy ===== *)
theory Executors
  imports Catalog Expressions "HOL-Library.Product_Lexorder"
begin

text \<open>
  Plans and executors: \<^verbatim>\<open>execution/plans/*.h\<close>, \<^verbatim>\<open>execution/executors/*.cpp\<close>, \<^verbatim>\<open>executor_factory.cpp\<close> and
  \<^verbatim>\<open>execution_engine.cpp\<close>. The class of plan nodes is a datatype, and so are the executors with their members; \<^verbatim>\<open>plan_\<close>
  is the plan that \<open>exec_Init\<close> and \<open>exec_Next\<close> recur on. Both run in a state of the buffer pool and the catalog,
  they may throw, and a loop may not end (\<open>None\<close>). \<^verbatim>\<open>Next\<close> gives a tuple with its record identifier, or \<open>None\<close>
  for false. A modification leaves the caller's identifier as it was: it gives one row after each \<^verbatim>\<open>Init\<close>, and every caller
  passes a fresh identifier, so that this is the invalid one.
\<close>

section \<open>Plans\<close>

datatype aggregation_type = CountStarAggregate | CountAggregate | SumAggregate | MinAggregate | MaxAggregate

datatype utility_type = CREATE_INDEX | DROP_INDEX | SHOW_TABLES | SHOW_INDEXES | SHOW_SCHEMA

datatype plan =
    SeqScanPlanNode (GetOutputSchema: schema) table_oid "expr option"
  | IndexScanPlanNode (GetOutputSchema: schema) table_oid index_oid expr "expr option"
  | InsertPlanNode (GetOutputSchema: schema) plan table_oid
  | DeletePlanNode (GetOutputSchema: schema) plan table_oid
  | UpdatePlanNode (GetOutputSchema: schema) plan table_oid "expr list"
  | NestedLoopJoinPlanNode (GetOutputSchema: schema) plan plan "expr option"
  | HashJoinPlanNode (GetOutputSchema: schema) plan plan expr expr
  | AggregationPlanNode (GetOutputSchema: schema) plan "expr list" "expr list" "aggregation_type list"
  | SortPlanNode (GetOutputSchema: schema) plan "(bool \<times> expr) list"
  | LimitPlanNode (GetOutputSchema: schema) plan nat
  | ProjectionPlanNode (GetOutputSchema: schema) plan "expr list"
  | UtilityPlanNode (GetOutputSchema: schema) utility_type string string "nat list" "string list" bool

section \<open>Running\<close>

text \<open>
  What the executors reach through the executor context: the buffer pool and the catalog. The parameters of the
  environment stand for the decimal rendering of a float, for \<^verbatim>\<open>std::sort\<close> with a comparison
  that may throw, and for the order in which an unordered map with given keys is iterated.
\<close>

record db =
  db_pool :: heap_pool
  db_catalog :: catalog

record env =
  fmt_float :: "f32 \<Rightarrow> string"
  std_sort :: "(tuple \<Rightarrow> tuple \<Rightarrow> bool res) \<Rightarrow> tuple list \<Rightarrow> tuple list res"
  bucket_order :: "string list \<Rightarrow> string list"

type_synonym 'a exec = "db \<Rightarrow> ('a \<times> db) res option"

definition ret :: "'a \<Rightarrow> 'a exec" where
  "ret x = (\<lambda>d. Some (Inr (x, d)))"

definition ebind :: "'a exec \<Rightarrow> ('a \<Rightarrow> 'b exec) \<Rightarrow> 'b exec" where
  "ebind m k = (\<lambda>d. cbind (m d) (\<lambda>(x, d'). k x d'))"

definition lift :: "'a res \<Rightarrow> 'a exec" where
  "lift r = (\<lambda>d. Some (rbind r (\<lambda>x. Inr (x, d))))"

definition on_pool :: "(heap_pool \<Rightarrow> ('a \<times> heap_pool) res option) \<Rightarrow> 'a exec" where
  "on_pool f = (\<lambda>d. cbind (f (db_pool d)) (\<lambda>(x, b). Some (Inr (x, d\<lparr>db_pool := b\<rparr>))))"

definition get_catalog :: "catalog exec" where
  "get_catalog = (\<lambda>d. Some (Inr (db_catalog d, d)))"

definition on_catalog :: "(catalog \<Rightarrow> catalog) \<Rightarrow> unit exec" where
  "on_catalog f = (\<lambda>d. Some (Inr ((), d\<lparr>db_catalog := f (db_catalog d)\<rparr>)))"

primrec efor :: "('x \<Rightarrow> unit exec) \<Rightarrow> 'x list \<Rightarrow> unit exec" where
  "efor f [] = ret ()"
| "efor f (x # xs) = ebind (f x) (\<lambda>_. efor f xs)"

lemma ebind_mono [partial_function_mono]:
  assumes "mono_option (\<lambda>f. m f d)" "\<And>x d. mono_option (\<lambda>f. k x f d)"
  shows "mono_option (\<lambda>f. ebind (m f) (\<lambda>x. k x f) d)"
  unfolding ebind_def by (rule cbind_mono [OF assms(1)]) (simp add: case_prod_beta assms(2))

definition null_pointer :: "'a res" where
  "null_pointer = Inl (UndefinedBehaviour ''null pointer dereferenced'')"

text \<open>\<^verbatim>\<open>catalog->GetTable(oid)\<close> whose result is dereferenced.\<close>

definition table_at :: "table_oid \<Rightarrow> table_info exec" where
  "table_at oid = ebind get_catalog (\<lambda>c. lift (case GetTable c oid of None \<Rightarrow> null_pointer | Some ti \<Rightarrow> Inr ti))"

text \<open>The condition of a filter, and the columns of a row under a schema.\<close>

definition holds_for :: "val res \<Rightarrow> bool res" where
  "holds_for r = rbind r (\<lambda>v. if v_null v then Inr False else GetAsBoolean v)"

definition row_values :: "tuple \<Rightarrow> schema \<Rightarrow> val list res" where
  "row_values t s = rmap (Tuple_GetColumn t s) [0..<length (columns s)]"

section \<open>Executors\<close>

record agg_state =
  as_group_bys :: "val list"
  as_aggregates :: "val list"

datatype executor =
    SeqScanExecutor (ex_table: "table_info option") (ex_iter: rid)
  | IndexScanExecutor (ex_table: "table_info option") (ex_index: "index_info option") (ex_rids: "rid list") (ex_cursor: nat)
  | InsertExecutor (ex_child: executor) (has_inserted: bool)
  | DeleteExecutor (ex_child: executor) (has_deleted: bool)
  | UpdateExecutor (ex_child: executor) (has_updated: bool)
  | NestedLoopJoinExecutor (ex_left: executor) (ex_right: executor) (ex_rows: "tuple list") (ex_cursor: nat)
  | HashJoinExecutor (ex_left: executor) (ex_right: executor) (hash_table: "(string, tuple list) umap")
      (ex_rows: "tuple list") (ex_cursor: nat)
  | AggregationExecutor (ex_child: executor) (ex_rows: "tuple list") (ex_cursor: nat)
  | SortExecutor (ex_child: executor) (ex_rows: "tuple list") (ex_cursor: nat)
  | LimitExecutor (ex_child: executor) (ex_count: nat)
  | ProjectionExecutor (ex_child: executor)
  | UtilityExecutor (ex_rows: "tuple list") (ex_cursor: nat)

type_synonym row = "tuple \<times> rid"
type_synonym next_fun = "executor \<Rightarrow> (row option \<times> executor) exec"

primrec CreateExecutor :: "plan \<Rightarrow> executor" where
  "CreateExecutor (SeqScanPlanNode s oid p) = SeqScanExecutor None (RID INVALID_PAGE_ID 0)"
| "CreateExecutor (IndexScanPlanNode s oid ioid k p) = IndexScanExecutor None None [] 0"
| "CreateExecutor (InsertPlanNode s child oid) = InsertExecutor (CreateExecutor child) False"
| "CreateExecutor (DeletePlanNode s child oid) = DeleteExecutor (CreateExecutor child) False"
| "CreateExecutor (UpdatePlanNode s child oid es) = UpdateExecutor (CreateExecutor child) False"
| "CreateExecutor (NestedLoopJoinPlanNode s l r p) = NestedLoopJoinExecutor (CreateExecutor l) (CreateExecutor r) [] 0"
| "CreateExecutor (HashJoinPlanNode s l r lk rk) = HashJoinExecutor (CreateExecutor l) (CreateExecutor r) [] [] 0"
| "CreateExecutor (AggregationPlanNode s child gs as ts) = AggregationExecutor (CreateExecutor child) [] 0"
| "CreateExecutor (SortPlanNode s child os) = SortExecutor (CreateExecutor child) [] 0"
| "CreateExecutor (LimitPlanNode s child n) = LimitExecutor (CreateExecutor child) 0"
| "CreateExecutor (ProjectionPlanNode s child es) = ProjectionExecutor (CreateExecutor child)"
| "CreateExecutor (UtilityPlanNode s ut tn inm ks os m) = UtilityExecutor [] 0"

text \<open>
  The loop \<^verbatim>\<open>while (executor->Next(&tuple, &rid))\<close>: the body changes the local variables \<open>acc\<close>.
\<close>

partial_function (option) drain :: "next_fun \<Rightarrow> (row \<Rightarrow> 'a \<Rightarrow> 'a exec) \<Rightarrow> 'a \<Rightarrow> executor \<Rightarrow> db \<Rightarrow> (('a \<times> executor) \<times> db) res option" where
  "drain next body acc e d =
     ebind (next e) (\<lambda>(row, e').
       case row of
         None \<Rightarrow> ret (acc, e')
       | Some x \<Rightarrow> ebind (body x acc) (\<lambda>acc'. drain next body acc' e')) d"

text \<open>Giving out the rows that \<^verbatim>\<open>Init\<close> has computed.\<close>

definition give_row :: "(nat \<Rightarrow> executor) \<Rightarrow> tuple list \<Rightarrow> nat \<Rightarrow> (row option \<times> executor) exec" where
  "give_row mk rows cursor =
     (if cursor < length rows then ret (Some (rows ! cursor, RID INVALID_PAGE_ID 0), mk (cursor + 1))
      else ret (None, mk cursor))"

section \<open>Scans\<close>

definition SeqScan_Init :: "table_oid \<Rightarrow> executor exec" where
  "SeqScan_Init oid =
     ebind (table_at oid) (\<lambda>ti.
     ebind (on_pool (\<lambda>b. Heap_Begin b (ti_table ti))) (\<lambda>r. ret (SeqScanExecutor (Some ti) r)))"

definition passes :: "expr option \<Rightarrow> tuple \<times> schema \<Rightarrow> bool res" where
  "passes pred r = (case pred of None \<Rightarrow> Inr True | Some e \<Rightarrow> holds_for (Evaluate e (Some r)))"

definition parse_row :: "schema \<Rightarrow> tuple \<Rightarrow> rid \<Rightarrow> tuple res" where
  "parse_row s raw r = rbind (row_values raw s) (\<lambda>vs. rbind (Tuple vs) (\<lambda>t. Inr (t\<lparr>t_rid := r\<rparr>)))"

partial_function (option) scan_next :: "table_info \<Rightarrow> expr option \<Rightarrow> rid \<Rightarrow> db \<Rightarrow> ((row option \<times> rid) \<times> db) res option" where
  "scan_next ti pred r d =
     (if r = Heap_End then ret (None, r) d
      else ebind (on_pool (\<lambda>b. Some (Heap_GetTuple b r))) (\<lambda>bs.
           ebind (on_pool (\<lambda>b. Iterator_next b r)) (\<lambda>r'.
           ebind (lift (passes pred (stored_tuple r bs, ti_schema ti))) (\<lambda>ok d'.
             if \<not> ok then scan_next ti pred r' d'
             else ebind (lift (parse_row (ti_schema ti) (stored_tuple r bs) r)) (\<lambda>t. ret (Some (t, r), r')) d'))) d)"

text \<open>Before \<^verbatim>\<open>Init\<close> the iterator is at the end.\<close>

definition SeqScan_Next :: "expr option \<Rightarrow> next_fun" where
  "SeqScan_Next pred e =
     (case ex_table e of
        None \<Rightarrow> ret (None, e)
      | Some ti \<Rightarrow> ebind (scan_next ti pred (ex_iter e)) (\<lambda>(row, r). ret (row, SeqScanExecutor (Some ti) r)))"

definition IndexScan_Init :: "table_oid \<Rightarrow> index_oid \<Rightarrow> expr \<Rightarrow> executor exec" where
  "IndexScan_Init oid ioid key =
     ebind get_catalog (\<lambda>c.
     ebind (lift (rbind (Evaluate key None) GetAsInteger)) (\<lambda>raw_key.
       case GetIndex c ioid of
         None \<Rightarrow> lift null_pointer
       | Some ix \<Rightarrow>
           ret (IndexScanExecutor (GetTable c oid) (Some ix)
             (case LookupInteger ix raw_key of None \<Rightarrow> [] | Some rids \<Rightarrow> rids) 0)))"

definition IndexScan_Next :: next_fun where
  "IndexScan_Next e =
     (if ex_cursor e < length (ex_rids e)
      then let r = ex_rids e ! ex_cursor e
           in case ex_table e of
                None \<Rightarrow> lift null_pointer
              | Some ti \<Rightarrow> ebind (on_pool (\<lambda>b. Some (Heap_GetTuple b r))) (\<lambda>bs.
                  ret (Some (stored_tuple r bs, r), IndexScanExecutor (ex_table e) (ex_index e) (ex_rids e) (ex_cursor e + 1)))
      else ret (None, e))"

section \<open>Modifications\<close>

text \<open>The counters are \<^verbatim>\<open>int32_t\<close>: an overflow is undefined.\<close>

definition increment :: "int \<Rightarrow> int res" where
  "increment n = (if n < 2 ^ 31 - 1 then Inr (n + 1) else Inl (UndefinedBehaviour ''signed integer overflow''))"

definition count_row :: "int \<Rightarrow> tuple res" where
  "count_row n = Tuple [SQL_int (word_of_int n)]"

definition table_indexes :: "table_info \<Rightarrow> index_info list exec" where
  "table_indexes ti = ebind get_catalog (\<lambda>c. lift (GetTableIndexes c (ti_name ti)))"

definition index_key :: "table_info \<Rightarrow> index_info \<Rightarrow> tuple \<Rightarrow> 32 word res" where
  "index_key ti ix t = rbind (GetLookupAttr ix) (\<lambda>a. rbind (Tuple_GetColumn t (ti_schema ti) a) GetAsInteger)"

definition insert_row :: "table_info \<Rightarrow> index_info list \<Rightarrow> row \<Rightarrow> int \<Rightarrow> int exec" where
  "insert_row ti ixs = (\<lambda>(t, _) n.
     ebind (on_pool (\<lambda>b. Heap_InsertTuple b (ti_table ti) (t_data t))) (\<lambda>new_rid.
       case new_rid of
         None \<Rightarrow> ret n
       | Some r \<Rightarrow>
           ebind (lift (increment n)) (\<lambda>n'.
           ebind (efor (\<lambda>ix. if ii_supports_point_lookup ix
                              then ebind (lift (index_key ti ix t)) (\<lambda>key. on_catalog (update_index (ii_oid ix) (InsertEntry key r)))
                              else ret ()) ixs) (\<lambda>_.
             ret n'))))"

definition Insert_Next :: "next_fun \<Rightarrow> table_oid \<Rightarrow> next_fun" where
  "Insert_Next next oid e =
     (if has_inserted e then ret (None, e)
      else ebind (table_at oid) (\<lambda>ti.
           ebind (table_indexes ti) (\<lambda>ixs.
           ebind (drain next (insert_row ti ixs) 0 (ex_child e)) (\<lambda>(n, child).
           ebind (lift (count_row n)) (\<lambda>t.
             ret (Some (t, invalid_rid), InsertExecutor child True))))))"

definition delete_row :: "table_info \<Rightarrow> index_info list \<Rightarrow> row \<Rightarrow> int \<Rightarrow> int exec" where
  "delete_row ti ixs = (\<lambda>(t, r) n.
     ebind (on_pool (\<lambda>b. Some (rbind (Heap_DeleteTuple b r) (\<lambda>b'. Inr ((), b'))))) (\<lambda>_.
     ebind (lift (increment n)) (\<lambda>n'.
     ebind (efor (\<lambda>ix. if ii_supports_point_lookup ix
                        then ebind (lift (index_key ti ix t)) (\<lambda>key. on_catalog (update_index (ii_oid ix) (RemoveEntry key r)))
                        else ret ()) ixs) (\<lambda>_.
       ret n'))))"

definition Delete_Next :: "next_fun \<Rightarrow> table_oid \<Rightarrow> next_fun" where
  "Delete_Next next oid e =
     (if has_deleted e then ret (None, e)
      else ebind (table_at oid) (\<lambda>ti.
           ebind (table_indexes ti) (\<lambda>ixs.
           ebind (drain next (delete_row ti ixs) 0 (ex_child e)) (\<lambda>(n, child).
           ebind (lift (count_row n)) (\<lambda>t.
             ret (Some (t, invalid_rid), DeleteExecutor child True))))))"

text \<open>The result of \<^verbatim>\<open>UpdateTuple\<close> is not looked at.\<close>

definition update_row :: "schema \<Rightarrow> expr list \<Rightarrow> table_info \<Rightarrow> index_info list \<Rightarrow> row \<Rightarrow> int \<Rightarrow> int exec" where
  "update_row child_schema exprs ti ixs = (\<lambda>(t, r) n.
     ebind (lift (rbind (rmap (\<lambda>e. Evaluate e (Some (t, child_schema))) exprs) Tuple)) (\<lambda>new_tuple.
     ebind (on_pool (\<lambda>b. Some (Heap_UpdateTuple b r (t_data new_tuple)))) (\<lambda>_.
     ebind (lift (increment n)) (\<lambda>n'.
     ebind (efor (\<lambda>ix. if ii_supports_point_lookup ix
                        then ebind (lift (index_key ti ix t)) (\<lambda>old_key.
                             ebind (lift (index_key ti ix new_tuple)) (\<lambda>new_key.
                               on_catalog (\<lambda>c. update_index (ii_oid ix) (InsertEntry new_key r)
                                             (update_index (ii_oid ix) (RemoveEntry old_key r) c))))
                        else ret ()) ixs) (\<lambda>_.
       ret n')))))"

definition Update_Next :: "next_fun \<Rightarrow> schema \<Rightarrow> table_oid \<Rightarrow> expr list \<Rightarrow> next_fun" where
  "Update_Next next child_schema oid exprs e =
     (if has_updated e then ret (None, e)
      else ebind (table_at oid) (\<lambda>ti.
           ebind (table_indexes ti) (\<lambda>ixs.
           ebind (drain next (update_row child_schema exprs ti ixs) 0 (ex_child e)) (\<lambda>(n, child).
           ebind (lift (count_row n)) (\<lambda>t.
             ret (Some (t, invalid_rid), UpdateExecutor child True))))))"

section \<open>Joins\<close>

definition join_row :: "tuple \<times> schema \<Rightarrow> tuple \<times> schema \<Rightarrow> tuple res" where
  "join_row l r = rbind (row_values (fst l) (snd l)) (\<lambda>lvs. rbind (row_values (fst r) (snd r)) (\<lambda>rvs. Tuple (lvs @ rvs)))"

definition join_matches :: "expr option \<Rightarrow> tuple \<times> schema \<Rightarrow> tuple \<times> schema \<Rightarrow> bool res" where
  "join_matches pred l r = (case pred of None \<Rightarrow> Inr True | Some e \<Rightarrow> holds_for (EvaluateJoin e l r))"

definition nlj_inner :: "schema \<Rightarrow> schema \<Rightarrow> expr option \<Rightarrow> tuple \<Rightarrow> row \<Rightarrow> tuple list \<Rightarrow> tuple list exec" where
  "nlj_inner ls rs pred lt = (\<lambda>(rt, _) out.
     ebind (lift (join_matches pred (lt, ls) (rt, rs))) (\<lambda>is_match.
       if is_match then ebind (lift (join_row (lt, ls) (rt, rs))) (\<lambda>t. ret (out @ [t])) else ret out))"

definition NestedLoopJoin_Init :: "next_fun \<Rightarrow> (executor \<Rightarrow> executor exec) \<Rightarrow> next_fun \<Rightarrow> (executor \<Rightarrow> executor exec) \<Rightarrow>
    schema \<Rightarrow> schema \<Rightarrow> expr option \<Rightarrow> executor \<Rightarrow> executor exec" where
  "NestedLoopJoin_Init lnext linit rnext rinit ls rs pred e =
     ebind (linit (ex_left e)) (\<lambda>left.
     ebind (drain lnext (\<lambda>(lt, _) (right, out).
              ebind (rinit right) (\<lambda>right'.
              ebind (drain rnext (nlj_inner ls rs pred lt) out right') (\<lambda>(out', right''). ret (right'', out'))))
            (ex_right e, []) left) (\<lambda>((right, out), left').
       ret (NestedLoopJoinExecutor left' right out 0)))"

definition build_row :: "env \<Rightarrow> schema \<Rightarrow> expr \<Rightarrow> row \<Rightarrow> (string, tuple list) umap \<Rightarrow> (string, tuple list) umap exec" where
  "build_row E rs rkey = (\<lambda>(rt, _) ht.
     ebind (lift (Evaluate rkey (Some (rt, rs)))) (\<lambda>v.
       let k = Value_ToString (fmt_float E) v
       in ret (AList.update k ((case map_of ht k of None \<Rightarrow> [] | Some ts \<Rightarrow> ts) @ [rt]) ht)))"

definition probe_row :: "env \<Rightarrow> schema \<Rightarrow> schema \<Rightarrow> expr \<Rightarrow> (string, tuple list) umap \<Rightarrow> row \<Rightarrow> tuple list \<Rightarrow> tuple list exec" where
  "probe_row E ls rs lkey ht = (\<lambda>(lt, _) out.
     ebind (lift (Evaluate lkey (Some (lt, ls)))) (\<lambda>v.
       case map_of ht (Value_ToString (fmt_float E) v) of
         None \<Rightarrow> ret out
       | Some ts \<Rightarrow> ebind (lift (rmap (\<lambda>rt. join_row (lt, ls) (rt, rs)) ts)) (\<lambda>js. ret (out @ js))))"

definition HashJoin_Init :: "env \<Rightarrow> next_fun \<Rightarrow> (executor \<Rightarrow> executor exec) \<Rightarrow> next_fun \<Rightarrow> (executor \<Rightarrow> executor exec) \<Rightarrow>
    schema \<Rightarrow> schema \<Rightarrow> expr \<Rightarrow> expr \<Rightarrow> executor \<Rightarrow> executor exec" where
  "HashJoin_Init E lnext linit rnext rinit ls rs lkey rkey e =
     ebind (linit (ex_left e)) (\<lambda>left.
     ebind (rinit (ex_right e)) (\<lambda>right.
     ebind (drain rnext (build_row E rs rkey) [] right) (\<lambda>(ht, right').
     ebind (drain lnext (probe_row E ls rs lkey ht) [] left) (\<lambda>(out, left').
       ret (HashJoinExecutor left' right' ht out 0)))))"

section \<open>Aggregation\<close>

definition initial_aggregate :: "aggregation_type \<Rightarrow> val" where
  "initial_aggregate ty = (if ty = CountStarAggregate \<or> ty = CountAggregate then SQL_int 0 else Value_default)"

definition update_aggregate :: "aggregation_type \<Rightarrow> val \<Rightarrow> val \<Rightarrow> val res" where
  "update_aggregate ty current input =
     (case ty of
        CountStarAggregate \<Rightarrow> Value_Add current (SQL_int 1)
      | CountAggregate \<Rightarrow> if \<not> v_null input then Value_Add current (SQL_int 1) else Inr current
      | SumAggregate \<Rightarrow>
          if \<not> v_null input then (if v_null current then Inr input else Value_Add current input) else Inr current
      | MinAggregate \<Rightarrow>
          if v_null input then Inr current
          else if v_null current then Inr input
          else rbind (rbind (CompareLessThan input current) GetAsBoolean) (\<lambda>less. Inr (if less then input else current))
      | MaxAggregate \<Rightarrow>
          if v_null input then Inr current
          else if v_null current then Inr input
          else rbind (rbind (CompareGreaterThan input current) GetAsBoolean) (\<lambda>gt. Inr (if gt then input else current)))"

text \<open>The loop over the aggregates; an input that is missing would be read outside its vector.\<close>

fun update_aggregates :: "aggregation_type list \<Rightarrow> val list \<Rightarrow> val list \<Rightarrow> val list res" where
  "update_aggregates [] current inputs = Inr current"
| "update_aggregates (ty # tys) (c # cs) (i # ins) =
     rbind (update_aggregate ty c i) (\<lambda>c'. rbind (update_aggregates tys cs ins) (\<lambda>cs'. Inr (c' # cs')))"
| "update_aggregates _ _ _ = Inl (UndefinedBehaviour ''index out of range'')"

definition group_key :: "env \<Rightarrow> val list \<Rightarrow> string" where
  "group_key E gvs =
     (let k = concat (map (\<lambda>v. Value_ToString (fmt_float E) v @ ''#'') gvs) in if k = [] then ''SINGLE_GROUP'' else k)"

definition aggregate_row :: "env \<Rightarrow> schema \<Rightarrow> expr list \<Rightarrow> expr list \<Rightarrow> aggregation_type list \<Rightarrow> row \<Rightarrow>
    bool \<times> (string, agg_state) umap \<Rightarrow> (bool \<times> (string, agg_state) umap) exec" where
  "aggregate_row E s gs ags tys = (\<lambda>(t, _) (_, aht).
     lift (rbind (rmap (\<lambda>e. Evaluate e (Some (t, s))) gs) (\<lambda>gvs.
           rbind (rmap (\<lambda>e. Evaluate e (Some (t, s))) ags) (\<lambda>avs.
             let k = group_key E gvs;
                 state = (case map_of aht k of
                            None \<Rightarrow> \<lparr>as_group_bys = gvs, as_aggregates = map initial_aggregate tys\<rparr>
                          | Some st \<Rightarrow> st)
             in rbind (update_aggregates tys (as_aggregates state) avs) (\<lambda>aggs.
                  Inr (True, AList.update k (state\<lparr>as_aggregates := aggs\<rparr>) aht))))))"

definition iterated :: "env \<Rightarrow> (string, 'v) umap \<Rightarrow> 'v list" where
  "iterated E m = map (\<lambda>k. the (map_of m k)) (bucket_order E (map fst m))"

definition Aggregation_Init :: "env \<Rightarrow> next_fun \<Rightarrow> (executor \<Rightarrow> executor exec) \<Rightarrow> schema \<Rightarrow> expr list \<Rightarrow> expr list \<Rightarrow>
    aggregation_type list \<Rightarrow> executor \<Rightarrow> executor exec" where
  "Aggregation_Init E next init s gs ags tys e =
     ebind (init (ex_child e)) (\<lambda>child.
     ebind (drain next (aggregate_row E s gs ags tys) (False, []) child) (\<lambda>((has_tuples, aht), child').
       let aht' = (if \<not> has_tuples \<and> gs = []
                   then AList.update ''SINGLE_GROUP'' \<lparr>as_group_bys = [], as_aggregates = map initial_aggregate tys\<rparr> aht
                   else aht)
       in ebind (lift (rmap (\<lambda>st. Tuple (as_group_bys st @ as_aggregates st)) (iterated E aht'))) (\<lambda>rows.
            ret (AggregationExecutor child' rows 0))))"

section \<open>Sorting, limits and projections\<close>

fun sort_less :: "schema \<Rightarrow> (bool \<times> expr) list \<Rightarrow> tuple \<Rightarrow> tuple \<Rightarrow> bool res" where
  "sort_less s [] a b = Inr False"
| "sort_less s ((is_ascending, e) # os) a b =
     rbind (Evaluate e (Some (a, s))) (\<lambda>va.
     rbind (Evaluate e (Some (b, s))) (\<lambda>vb.
     rbind (rbind (CompareEquals va vb) GetAsBoolean) (\<lambda>eq.
       if eq then sort_less s os a b
       else rbind (if is_ascending then CompareLessThan va vb else CompareGreaterThan va vb) GetAsBoolean)))"

definition Sort_Init :: "env \<Rightarrow> next_fun \<Rightarrow> (executor \<Rightarrow> executor exec) \<Rightarrow> schema \<Rightarrow> (bool \<times> expr) list \<Rightarrow> executor \<Rightarrow> executor exec" where
  "Sort_Init E next init s os e =
     ebind (init (ex_child e)) (\<lambda>child.
     ebind (drain next (\<lambda>(t, _) ts. ret (ts @ [t])) [] child) (\<lambda>(ts, child').
     ebind (lift (std_sort E (sort_less s os) ts)) (\<lambda>sorted.
       ret (SortExecutor child' sorted 0))))"

definition Limit_Next :: "next_fun \<Rightarrow> nat \<Rightarrow> next_fun" where
  "Limit_Next next limit e =
     (if ex_count e \<ge> limit then ret (None, e)
      else ebind (next (ex_child e)) (\<lambda>(row, child).
             case row of
               Some x \<Rightarrow> ret (Some x, LimitExecutor child (ex_count e + 1))
             | None \<Rightarrow> ret (None, LimitExecutor child (ex_count e))))"

definition project_row :: "schema \<Rightarrow> expr list \<Rightarrow> row \<Rightarrow> row res" where
  "project_row s es = (\<lambda>(t, r). rbind (rbind (rmap (\<lambda>e. Evaluate e (Some (t, s))) es) Tuple) (\<lambda>t'. Inr (t', r)))"

definition Projection_Next :: "next_fun \<Rightarrow> schema \<Rightarrow> expr list \<Rightarrow> next_fun" where
  "Projection_Next next s es e =
     ebind (next (ex_child e)) (\<lambda>(row, child).
       case row of
         Some x \<Rightarrow> ebind (lift (project_row s es x)) (\<lambda>y. ret (Some y, ProjectionExecutor child))
       | None \<Rightarrow> ret (None, ProjectionExecutor child))"

section \<open>Utility statements\<close>

text \<open>
  \<^verbatim>\<open>std::sort\<close> sorts the tables by name and the indexes by name, table and identifier. No two of them compare equal, so
  that the result is the sorted list.
\<close>

definition table_row :: "string list \<Rightarrow> tuple res" where
  "table_row ss = Tuple (map (Value_string T_VARCHAR) ss)"

definition index_less_key :: "index_info \<Rightarrow> string \<times> string \<times> index_oid" where
  "index_less_key ix = (ii_name ix, ii_table_name ix, ii_oid ix)"

text \<open>The tables with an index of the name: the empty string stands for none.\<close>

primrec match_table :: "catalog \<Rightarrow> string \<Rightarrow> table_info list \<Rightarrow> string \<Rightarrow> string res" where
  "match_table c index_name [] matched = Inr matched"
| "match_table c index_name (ti # tis) matched =
     rbind (GetIndex_name c index_name (ti_name ti)) (\<lambda>ix.
       if ix = None then match_table c index_name tis matched
       else if matched \<noteq> [] then Inl (RuntimeError (''Ambiguous index name: '' @ index_name))
       else match_table c index_name tis (ti_name ti))"

primrec drop_indexes :: "bool \<Rightarrow> string list \<Rightarrow> catalog \<Rightarrow> bool \<Rightarrow> (bool \<times> catalog) res" where
  "drop_indexes missing_ok [] c removed = Inr (removed, c)"
| "drop_indexes missing_ok (n # ns) c removed =
     rbind (match_table c n (GetAllTables c) []) (\<lambda>matched.
       if matched = []
       then if \<not> missing_ok then Inl (RuntimeError (''Index not found: '' @ n)) else drop_indexes missing_ok ns c removed
       else let (dropped, c') = DropIndex c n matched in drop_indexes missing_ok ns c' (dropped \<or> removed))"

definition command_row :: "string \<Rightarrow> tuple list exec" where
  "command_row tag = lift (rbind (table_row [tag]) (\<lambda>t. Inr [t]))"

definition Utility_Init :: "utility_type \<Rightarrow> string \<Rightarrow> string \<Rightarrow> nat list \<Rightarrow> string list \<Rightarrow> bool \<Rightarrow> executor exec" where
  "Utility_Init ut table_name index_name key_attrs object_names missing_ok =
     ebind
       (case ut of
          CREATE_INDEX \<Rightarrow>
            (\<lambda>d. case CreateIndex (db_catalog d) (db_pool d) index_name table_name key_attrs of
                    None \<Rightarrow> None
                  | Some (Inl e, c) \<Rightarrow> Some (Inl e)
                  | Some (Inr (info, b), c) \<Rightarrow>
                      (if info = None then lift (Inl (RuntimeError (''Failed to create index: '' @ index_name)))
                       else command_row (''CREATE INDEX '' @ index_name)) \<lparr>db_pool = b, db_catalog = c\<rparr>)
        | DROP_INDEX \<Rightarrow>
            ebind get_catalog (\<lambda>c.
            ebind (lift (drop_indexes missing_ok object_names c False)) (\<lambda>(removed_any, c').
            ebind (on_catalog (\<lambda>_. c')) (\<lambda>_.
              command_row (if removed_any then ''DROP INDEX'' else ''DROP INDEX (0 rows)''))))
        | SHOW_TABLES \<Rightarrow>
            ebind get_catalog (\<lambda>c. lift (rmap (\<lambda>ti. table_row [ti_name ti]) (sort_key ti_name (GetAllTables c))))
        | SHOW_INDEXES \<Rightarrow>
            ebind get_catalog (\<lambda>c. lift (rmap
              (\<lambda>ix. table_row [ii_name ix, ii_table_name ix, join '','' (map c_name (columns (ii_key_schema ix)))])
              (sort_key index_less_key (GetAllIndexes c))))
        | SHOW_SCHEMA \<Rightarrow>
            ebind get_catalog (\<lambda>c.
            ebind (lift (GetTable_name c table_name)) (\<lambda>info.
              case info of
                None \<Rightarrow> lift (Inl (RuntimeError (''Table not found: '' @ table_name)))
              | Some ti \<Rightarrow> lift (rmap (\<lambda>col. table_row [c_name col, Column_ToString col]) (columns (ti_schema ti))))))
       (\<lambda>rows. ret (UtilityExecutor rows 0))"

section \<open>The executors of a plan\<close>

primrec exec_Next :: "env \<Rightarrow> plan \<Rightarrow> next_fun" where
  "exec_Next E (SeqScanPlanNode s oid p) = SeqScan_Next p"
| "exec_Next E (IndexScanPlanNode s oid ioid k p) = IndexScan_Next"
| "exec_Next E (InsertPlanNode s child oid) = Insert_Next (exec_Next E child) oid"
| "exec_Next E (DeletePlanNode s child oid) = Delete_Next (exec_Next E child) oid"
| "exec_Next E (UpdatePlanNode s child oid es) = Update_Next (exec_Next E child) (GetOutputSchema child) oid es"
| "exec_Next E (NestedLoopJoinPlanNode s l r p) = (\<lambda>e. give_row (NestedLoopJoinExecutor (ex_left e) (ex_right e) (ex_rows e)) (ex_rows e) (ex_cursor e))"
| "exec_Next E (HashJoinPlanNode s l r lk rk) =
     (\<lambda>e. give_row (HashJoinExecutor (ex_left e) (ex_right e) (hash_table e) (ex_rows e)) (ex_rows e) (ex_cursor e))"
| "exec_Next E (AggregationPlanNode s child gs ags tys) = (\<lambda>e. give_row (AggregationExecutor (ex_child e) (ex_rows e)) (ex_rows e) (ex_cursor e))"
| "exec_Next E (SortPlanNode s child os) = (\<lambda>e. give_row (SortExecutor (ex_child e) (ex_rows e)) (ex_rows e) (ex_cursor e))"
| "exec_Next E (LimitPlanNode s child n) = Limit_Next (exec_Next E child) n"
| "exec_Next E (ProjectionPlanNode s child es) = Projection_Next (exec_Next E child) (GetOutputSchema child) es"
| "exec_Next E (UtilityPlanNode s ut tn inm ks os m) = (\<lambda>e. give_row (UtilityExecutor (ex_rows e)) (ex_rows e) (ex_cursor e))"

primrec exec_Init :: "env \<Rightarrow> plan \<Rightarrow> executor \<Rightarrow> executor exec" where
  "exec_Init E (SeqScanPlanNode s oid p) = (\<lambda>e. SeqScan_Init oid)"
| "exec_Init E (IndexScanPlanNode s oid ioid k p) = (\<lambda>e. IndexScan_Init oid ioid k)"
| "exec_Init E (InsertPlanNode s child oid) = (\<lambda>e. ebind (exec_Init E child (ex_child e)) (\<lambda>c. ret (InsertExecutor c False)))"
| "exec_Init E (DeletePlanNode s child oid) = (\<lambda>e. ebind (exec_Init E child (ex_child e)) (\<lambda>c. ret (DeleteExecutor c False)))"
| "exec_Init E (UpdatePlanNode s child oid es) = (\<lambda>e. ebind (exec_Init E child (ex_child e)) (\<lambda>c. ret (UpdateExecutor c False)))"
| "exec_Init E (NestedLoopJoinPlanNode s l r p) =
     NestedLoopJoin_Init (exec_Next E l) (exec_Init E l) (exec_Next E r) (exec_Init E r) (GetOutputSchema l) (GetOutputSchema r) p"
| "exec_Init E (HashJoinPlanNode s l r lk rk) =
     HashJoin_Init E (exec_Next E l) (exec_Init E l) (exec_Next E r) (exec_Init E r) (GetOutputSchema l) (GetOutputSchema r) lk rk"
| "exec_Init E (AggregationPlanNode s child gs ags tys) =
     Aggregation_Init E (exec_Next E child) (exec_Init E child) (GetOutputSchema child) gs ags tys"
| "exec_Init E (SortPlanNode s child os) = Sort_Init E (exec_Next E child) (exec_Init E child) (GetOutputSchema child) os"
| "exec_Init E (LimitPlanNode s child n) = (\<lambda>e. ebind (exec_Init E child (ex_child e)) (\<lambda>c. ret (LimitExecutor c 0)))"
| "exec_Init E (ProjectionPlanNode s child es) = (\<lambda>e. ebind (exec_Init E child (ex_child e)) (\<lambda>c. ret (ProjectionExecutor c)))"
| "exec_Init E (UtilityPlanNode s ut tn inm ks os m) = (\<lambda>e. Utility_Init ut tn inm ks os m)"

text \<open>\<^verbatim>\<open>ExecutionEngine::Execute\<close> with a result set: the tuples that are appended to it.\<close>

definition Execute :: "env \<Rightarrow> plan \<Rightarrow> tuple list exec" where
  "Execute E p =
     ebind (exec_Init E p (CreateExecutor p)) (\<lambda>e.
     ebind (drain (exec_Next E p) (\<lambda>(t, _) ts. ret (ts @ [t])) [] e) (\<lambda>(ts, _). ret ts))"

end
