(* ===== verification/Queries.thy ===== *)
theory Queries
  imports Executors
begin

text \<open>
  What a query computes, as lists of rows over the tables of a logical database, and the proof that the
  executors compute it: \<open>sem\<close> is the reference, in which a join filters the product of its operands and an
  aggregation folds over each group, and \<open>Execute_correct\<close> says that \<open>Execute\<close> returns its rows, leaves the pages
  as they were and needs at most \<open>cost\<close> accesses to the buffer pool.
\<close>

section \<open>The reference\<close>

primrec rfilter :: "('a \<Rightarrow> bool res) \<Rightarrow> 'a list \<Rightarrow> 'a list res" where
  "rfilter f [] = Inr []"
| "rfilter f (x # xs) = rbind (f x) (\<lambda>b. rbind (rfilter f xs) (\<lambda>ys. Inr (if b then x # ys else ys)))"

primrec rfold :: "('a \<Rightarrow> 'b \<Rightarrow> 'b res) \<Rightarrow> 'a list \<Rightarrow> 'b \<Rightarrow> 'b res" where
  "rfold f [] b = Inr b"
| "rfold f (x # xs) b = rbind (f x b) (rfold f xs)"

text \<open>What the order of an unordered map is documented to be: each key once.\<close>

definition env_ok :: "env \<Rightarrow> bool" where
  "env_ok E \<longleftrightarrow> (\<forall>ks. set (bucket_order E ks) = set ks \<and> length (bucket_order E ks) = length ks)"

text \<open>
  The tables with their live rows in the order of a scan, the pages of a table, and the look-ups in the indexes.
\<close>

record logical =
  lg_tables :: "table_oid \<Rightarrow> (schema \<times> (rid \<times> byte list) list) option"
  lg_pages :: "table_oid \<Rightarrow> page_id list"
  lg_index :: "index_oid \<Rightarrow> (32 word \<Rightarrow> rid list) option"

definition no_query :: "'a res" where
  "no_query = Inl (LogicError ''not a query'')"

definition new_row :: "tuple res \<Rightarrow> row res" where
  "new_row r = rbind r (\<lambda>t. Inr (t, invalid_rid))"

definition scan_rows :: "expr option \<Rightarrow> schema \<Rightarrow> (rid \<times> byte list) list \<Rightarrow> row list res" where
  "scan_rows p s rows =
     rbind (rfilter (\<lambda>(r, bs). passes p (stored_tuple r bs, s)) rows)
       (rmap (\<lambda>(r, bs). rbind (parse_row s (stored_tuple r bs) r) (\<lambda>t. Inr (t, r))))"

definition sem_join :: "schema \<Rightarrow> schema \<Rightarrow> expr option \<Rightarrow> row list \<Rightarrow> row list \<Rightarrow> row list res" where
  "sem_join ls rs p L R =
     rbind (rfilter (\<lambda>(l, r). join_matches p (fst l, ls) (fst r, rs)) (List.product L R))
       (rmap (\<lambda>(l, r). new_row (join_row (fst l, ls) (fst r, rs))))"

definition row_key_string :: "env \<Rightarrow> schema \<Rightarrow> expr \<Rightarrow> row \<Rightarrow> string res" where
  "row_key_string E s e x = rbind (Evaluate e (Some (fst x, s))) (\<lambda>v. Inr (Value_ToString (fmt_float E) v))"

text \<open>An equality join on the printed form of the keys.\<close>

definition keyed :: "env \<Rightarrow> schema \<Rightarrow> expr \<Rightarrow> row list \<Rightarrow> (string \<times> row) list res" where
  "keyed E s e = rmap (\<lambda>x. rbind (row_key_string E s e x) (\<lambda>k. Inr (k, x)))"

definition sem_hash_join :: "env \<Rightarrow> schema \<Rightarrow> schema \<Rightarrow> expr \<Rightarrow> expr \<Rightarrow> row list \<Rightarrow> row list \<Rightarrow> row list res" where
  "sem_hash_join E ls rs lk rk L R =
     rbind (keyed E ls lk L) (\<lambda>KL. rbind (keyed E rs rk R) (\<lambda>KR.
       rmap (\<lambda>((_, l), (_, r)). new_row (join_row (fst l, ls) (fst r, rs)))
         (filter (\<lambda>((k, _), (k', _)). k = k') (List.product KL KR))))"

text \<open>An aggregation: one fold for each group, in the order of the map that has the groups by their first rows.\<close>

definition agg_input :: "env \<Rightarrow> schema \<Rightarrow> expr list \<Rightarrow> expr list \<Rightarrow> row \<Rightarrow> (string \<times> val list \<times> val list) res" where
  "agg_input E s gs ags x =
     rbind (rmap (\<lambda>e. Evaluate e (Some (fst x, s))) gs) (\<lambda>gvs.
     rbind (rmap (\<lambda>e. Evaluate e (Some (fst x, s))) ags) (\<lambda>avs. Inr (group_key E gvs, gvs, avs)))"

definition group_row :: "aggregation_type list \<Rightarrow> (string \<times> val list \<times> val list) list \<Rightarrow> val list res" where
  "group_row tys xs =
     rbind (rfold (\<lambda>(_, _, avs) st. update_aggregates tys st avs) xs (map initial_aggregate tys))
       (\<lambda>aggs. Inr (fst (snd (hd xs)) @ aggs))"

definition sem_aggregate :: "env \<Rightarrow> schema \<Rightarrow> expr list \<Rightarrow> expr list \<Rightarrow> aggregation_type list \<Rightarrow> row list \<Rightarrow> row list res" where
  "sem_aggregate E s gs ags tys R =
     (if R = [] \<and> gs = [] then rmap (\<lambda>vs. new_row (Tuple vs)) [map initial_aggregate tys]
      else rbind (rmap (agg_input E s gs ags) R) (\<lambda>xs.
           rmap (\<lambda>k. rbind (group_row tys (filter (\<lambda>x. fst x = k) xs)) (\<lambda>vs. new_row (Tuple vs)))
             (bucket_order E (rev (remdups (rev (map fst xs)))))))"

primrec sem :: "env \<Rightarrow> logical \<Rightarrow> plan \<Rightarrow> row list res" where
  "sem E D (SeqScanPlanNode s oid p) =
     (case lg_tables D oid of None \<Rightarrow> no_query | Some (ts, rows) \<Rightarrow> scan_rows p ts rows)"
| "sem E D (IndexScanPlanNode s oid ioid k p) =
     (case lg_tables D oid of None \<Rightarrow> no_query | Some (_, rows) \<Rightarrow>
      case lg_index D ioid of None \<Rightarrow> no_query | Some f \<Rightarrow>
        rbind (rbind (Evaluate k None) GetAsInteger) (\<lambda>key.
          rmap (\<lambda>r. case map_of rows r of None \<Rightarrow> no_query | Some bs \<Rightarrow> Inr (stored_tuple r bs, r)) (f key)))"
| "sem E D (InsertPlanNode s child oid) = no_query"
| "sem E D (DeletePlanNode s child oid) = no_query"
| "sem E D (UpdatePlanNode s child oid es) = no_query"
| "sem E D (NestedLoopJoinPlanNode s l r p) =
     rbind (sem E D l) (\<lambda>L. rbind (sem E D r) (\<lambda>R. sem_join (GetOutputSchema l) (GetOutputSchema r) p L R))"
| "sem E D (HashJoinPlanNode s l r lk rk) =
     rbind (sem E D l) (\<lambda>L. rbind (sem E D r) (\<lambda>R. sem_hash_join E (GetOutputSchema l) (GetOutputSchema r) lk rk L R))"
| "sem E D (AggregationPlanNode s child gs ags tys) =
     rbind (sem E D child) (sem_aggregate E (GetOutputSchema child) gs ags tys)"
| "sem E D (SortPlanNode s child os) =
     rbind (sem E D child) (\<lambda>R. rbind (std_sort E (sort_less (GetOutputSchema child) os) (map fst R)) (\<lambda>ts.
       Inr (map (\<lambda>t. (t, invalid_rid)) ts)))"
| "sem E D (LimitPlanNode s child n) = rbind (sem E D child) (\<lambda>R. Inr (take n R))"
| "sem E D (ProjectionPlanNode s child es) = rbind (sem E D child) (rmap (project_row (GetOutputSchema child) es))"
| "sem E D (UtilityPlanNode s ut tn inm ks os m) = no_query"

text \<open>Accesses to the buffer pool: a nested loop join scans its right operand once for each left row.\<close>

definition row_count :: "row list res \<Rightarrow> nat" where
  "row_count r = (case r of Inl _ \<Rightarrow> 0 | Inr R \<Rightarrow> length R)"

primrec cost :: "env \<Rightarrow> logical \<Rightarrow> plan \<Rightarrow> nat" where
  "cost E D (SeqScanPlanNode s oid p) =
     (case lg_tables D oid of None \<Rightarrow> 0 | Some (_, rows) \<Rightarrow> length (lg_pages D oid) + length rows * (length (lg_pages D oid) + 1))"
| "cost E D (IndexScanPlanNode s oid ioid k p) = row_count (sem E D (IndexScanPlanNode s oid ioid k p))"
| "cost E D (InsertPlanNode s child oid) = 0"
| "cost E D (DeletePlanNode s child oid) = 0"
| "cost E D (UpdatePlanNode s child oid es) = 0"
| "cost E D (NestedLoopJoinPlanNode s l r p) = cost E D l + row_count (sem E D l) * cost E D r"
| "cost E D (HashJoinPlanNode s l r lk rk) = cost E D l + cost E D r"
| "cost E D (AggregationPlanNode s child gs ags tys) = cost E D child"
| "cost E D (SortPlanNode s child os) = cost E D child"
| "cost E D (LimitPlanNode s child n) = cost E D child"
| "cost E D (ProjectionPlanNode s child es) = cost E D child"
| "cost E D (UtilityPlanNode s ut tn inm ks os m) = 0"

section \<open>Sources of rows\<close>

text \<open>
  A pool and a catalog that do not change but for the accesses that are left: \<open>(c, P, V, S, F)\<close> are the catalog, the
  pin counts, the contents of the pages \<open>S\<close> and the next new page.
\<close>

type_synonym snapshot = "catalog \<times> (page_id \<Rightarrow> int) \<times> (page_id \<Rightarrow> table_data) \<times> page_id set \<times> page_id"

definition snap :: "snapshot \<Rightarrow> nat \<Rightarrow> db \<Rightarrow> bool" where
  "snap = (\<lambda>(c, P, V, S, F) L d. db_catalog d = c \<and> pool_at {} P V S L F (db_pool d) \<and> card {q. 0 < P q} < pool_size (db_pool d))"

text \<open>\<open>gives s next rows n e\<close>: the executor \<open>e\<close> gives the rows and then no more, with at most \<open>n\<close> accesses.\<close>

primrec gives :: "snapshot \<Rightarrow> next_fun \<Rightarrow> row list \<Rightarrow> nat \<Rightarrow> executor \<Rightarrow> bool" where
  "gives s nx [] n e \<longleftrightarrow> (\<forall>L d. snap s L d \<and> n \<le> L \<longrightarrow> (\<exists>e' d'. nx e d = Some (Inr ((None, e'), d')) \<and> snap s (L - n) d'))"
| "gives s nx (x # xs) n e \<longleftrightarrow> (\<forall>L d. snap s L d \<and> n \<le> L \<longrightarrow>
     (\<exists>m e' d'. m \<le> n \<and> nx e d = Some (Inr ((Some x, e'), d')) \<and> snap s (L - m) d' \<and> gives s nx xs (n - m) e'))"

definition source :: "snapshot \<Rightarrow> next_fun \<Rightarrow> (executor \<Rightarrow> executor exec) \<Rightarrow> row list \<Rightarrow> nat \<Rightarrow> bool" where
  "source s nx init rows n \<longleftrightarrow> (\<forall>L d e. snap s L d \<and> n \<le> L \<longrightarrow>
     (\<exists>m e' d'. m \<le> n \<and> init e d = Some (Inr (e', d')) \<and> snap s (L - m) d' \<and> gives s nx rows (n - m) e'))"

lemma snap_weaken: "snap s L d \<Longrightarrow> L' \<le> L \<Longrightarrow> snap s L' d"
  by (cases s) (auto simp: snap_def pool_at_def)

lemma run_simps [simp]:
  "ret x d = Some (Inr (x, d))" "lift (Inr x) d = Some (Inr (x, d))" "lift (Inl e) d = Some (Inl e)"
  "get_catalog d = Some (Inr (db_catalog d, d))"
  by (simp_all add: ret_def lift_def get_catalog_def)

lemma ebind_run: "m d = Some (Inr (x, d')) \<Longrightarrow> ebind m k d = k x d'"
  by (simp add: ebind_def)

lemma ebind_ret [simp]: "ebind (ret x) k = k x" "ebind (lift (Inr x)) k = k x"
  by (simp_all add: ebind_def fun_eq_iff)

lemma gives_Nil:
  "gives s nx [] n e \<Longrightarrow> snap s L d \<Longrightarrow> n \<le> L \<Longrightarrow> \<exists>e' d'. nx e d = Some (Inr ((None, e'), d')) \<and> snap s (L - n) d'"
  unfolding gives.simps by blast

lemma gives_Cons:
  "gives s nx (x # xs) n e \<Longrightarrow> snap s L d \<Longrightarrow> n \<le> L \<Longrightarrow>
   \<exists>m e' d'. m \<le> n \<and> nx e d = Some (Inr ((Some x, e'), d')) \<and> snap s (L - m) d' \<and> gives s nx xs (n - m) e'"
  unfolding gives.simps by blast

lemma source_init:
  "source s nx init rows n \<Longrightarrow> snap s L d \<Longrightarrow> n \<le> L \<Longrightarrow>
   \<exists>m e' d'. m \<le> n \<and> init e d = Some (Inr (e', d')) \<and> snap s (L - m) d' \<and> gives s nx rows (n - m) e'"
  unfolding source_def by blast

text \<open>A loop over a source, with a body that does not touch the database.\<close>

lemma drain_step:
  "nx e d = Some (Inr ((None, e'), d')) \<Longrightarrow> drain nx body acc e d = Some (Inr ((acc, e'), d'))"
  "nx e d = Some (Inr ((Some x, e'), d')) \<Longrightarrow> drain nx body acc e d = ebind (body x acc) (\<lambda>acc'. drain nx body acc' e') d'"
  by (subst drain.simps, simp add: ebind_run)+

lemma drain_gives_cost:
  assumes body: "\<forall>x a b b' L d. Q a b \<and> f x b = Inr b' \<and> snap s L d \<and> k \<le> L \<longrightarrow>
      (\<exists>a' d'. body x a d = Some (Inr (a', d')) \<and> Q a' b' \<and> snap s (L - k) d')"
    and "gives s nx xs n e" "rfold f xs b = Inr b'" "Q a b" "snap s L d" "n + length xs * k \<le> L"
  shows "\<exists>a' e' d'. drain nx body a e d = Some (Inr ((a', e'), d')) \<and> Q a' b' \<and> snap s (L - (n + length xs * k)) d'"
  using assms(2-)
proof (induction xs arbitrary: n e a b L d)
  case Nil
  have "n \<le> L" using Nil.prems(5) by simp
  from gives_Nil [OF Nil.prems(1,4) this] obtain e' d' where "nx e d = Some (Inr ((None, e'), d'))" "snap s (L - n) d'" by blast
  then show ?case using drain_step(1) [of nx e d e' d' body a] Nil.prems(2,3) by simp
next
  case (Cons x xs)
  have "n \<le> L" using Cons.prems(5) by simp
  from gives_Cons [OF Cons.prems(1,4) this] obtain m e' d' where
    x: "m \<le> n" "nx e d = Some (Inr ((Some x, e'), d'))" "snap s (L - m) d'" "gives s nx xs (n - m) e'" by blast
  from Cons.prems(2) obtain b1 where b1: "f x b = Inr b1" "rfold f xs b1 = Inr b'" by auto
  have "k \<le> L - m" using Cons.prems(5) x(1) by simp
  with body Cons.prems(3) b1(1) x(3) obtain a1 d1 where
    a1: "body x a d' = Some (Inr (a1, d1))" "Q a1 b1" "snap s (L - m - k) d1" by blast
  have "drain nx body a e d = drain nx body a1 e' d1"
    using drain_step(2) [of nx e d x e' d' body a] x(2) ebind_run [of "body x a" d' a1 d1] a1(1) by simp
  moreover have "n - m + length xs * k \<le> L - m - k" "L - m - k - (n - m + length xs * k) = L - (n + length (x # xs) * k)"
    using x(1) Cons.prems(5) by simp_all
  ultimately show ?case using Cons.IH [OF x(4) b1(2) a1(2,3)] by simp
qed

lemma drain_gives:
  assumes "gives s nx xs n e" "rfold f xs acc = Inr acc'" "\<And>x a. body x a = lift (f x a)" "snap s L d" "n \<le> L"
  shows "\<exists>e' d'. drain nx body acc e d = Some (Inr ((acc', e'), d')) \<and> snap s (L - n) d'"
  using drain_gives_cost [of "(=)" f s 0 body nx xs n e acc acc' acc L d] assms by auto

lemma gives_mono: "gives s nx xs n e \<Longrightarrow> n \<le> n' \<Longrightarrow> gives s nx xs n' e"
proof (induction xs arbitrary: n n' e)
  case Nil
  show ?case unfolding gives.simps
  proof (intro allI impI, elim conjE)
    fix L d assume l: "snap s L d" "n' \<le> L"
    then have "n \<le> L" using Nil.prems(2) by simp
    from gives_Nil [OF Nil.prems(1) l(1) this] obtain e' d' where "nx e d = Some (Inr ((None, e'), d'))" "snap s (L - n) d'" by blast
    moreover have "snap s (L - n') d'" by (rule snap_weaken [OF calculation(2)]) (use Nil.prems(2) in simp)
    ultimately show "\<exists>e' d'. nx e d = Some (Inr ((None, e'), d')) \<and> snap s (L - n') d'" by blast
  qed
next
  case (Cons x xs)
  show ?case unfolding gives.simps
  proof (intro allI impI, elim conjE)
    fix L d assume l: "snap s L d" "n' \<le> L"
    then have "n \<le> L" using Cons.prems(2) by simp
    from gives_Cons [OF Cons.prems(1) l(1) this] obtain m e' d' where
      x: "m \<le> n" "nx e d = Some (Inr ((Some x, e'), d'))" "snap s (L - m) d'" "gives s nx xs (n - m) e'" by blast
    have "gives s nx xs (n' - m) e'" by (rule Cons.IH [OF x(4)]) (use Cons.prems(2) in simp)
    moreover have "m \<le> n'" using x(1) Cons.prems(2) by simp
    ultimately show "\<exists>m e' d'. m \<le> n' \<and> nx e d = Some (Inr ((Some x, e'), d')) \<and> snap s (L - m) d' \<and> gives s nx xs (n' - m) e'"
      using x(2,3) by blast
  qed
qed

text \<open>Executors that compute their rows in \<^verbatim>\<open>Init\<close>.\<close>

lemma give_row_gives:
  assumes "\<And>e. nx e = give_row (mk e) (ex_rows e) (ex_cursor e)"
    and "\<And>e i. ex_rows (mk e i) = ex_rows e" "\<And>e i. ex_cursor (mk e i) = i"
    and "rs = map (\<lambda>t. (t, invalid_rid)) (drop (ex_cursor e) (ex_rows e))"
  shows "gives s nx rs 0 e"
  using assms(4)
proof (induction rs arbitrary: e)
  case Nil
  then show ?case by (simp add: assms(1) give_row_def)
next
  case (Cons x rs)
  then have len: "ex_cursor e < length (ex_rows e)" by (cases "ex_cursor e < length (ex_rows e)") simp_all
  then have "drop (ex_cursor e) (ex_rows e) = ex_rows e ! ex_cursor e # drop (ex_cursor e + 1) (ex_rows e)"
    by (simp add: Cons_nth_drop_Suc)
  then have "x = (ex_rows e ! ex_cursor e, RID INVALID_PAGE_ID 0)" "rs = map (\<lambda>t. (t, invalid_rid)) (drop (ex_cursor e + 1) (ex_rows e))"
    using Cons.prems by (simp_all add: invalid_rid_def)
  moreover have "gives s nx rs 0 (mk e (ex_cursor e + 1))"
    by (rule Cons.IH) (simp add: assms(2,3) calculation)
  moreover have "nx e = ret (Some (ex_rows e ! ex_cursor e, RID INVALID_PAGE_ID 0), mk e (ex_cursor e + 1))"
    using len by (simp add: assms(1) [of e] give_row_def)
  ultimately show ?case by simp
qed

section \<open>Scans are sources\<close>

lemma snap_heap:
  "snap (c, P, V, S, F) L d \<Longrightarrow> heap_pages V ps \<Longrightarrow> set ps \<subseteq> S \<Longrightarrow> heap_at (db_pool d) P V S ps L F"
  by (simp add: snap_def heap_at_def)

lemma heap_snap:
  "snap (c, P, V, S, F) L d \<Longrightarrow> heap_at b P V S ps L' F \<Longrightarrow> snap (c, P, V, S, F) L' (d\<lparr>db_pool := b\<rparr>)"
  by (simp add: snap_def heap_at_def)

lemma on_pool_run: "f (db_pool d) = Some (Inr (x, b)) \<Longrightarrow> on_pool f d = Some (Inr (x, d\<lparr>db_pool := b\<rparr>))"
  by (simp add: on_pool_def)

abbreviation stored_rows :: "(page_id \<Rightarrow> table_data) \<Rightarrow> page_id list \<Rightarrow> rid list \<Rightarrow> (rid \<times> byte list) list" where
  "stored_rows V ps rs \<equiv> map (\<lambda>r. (r, the (heap_map V ps r))) rs"

lemma scan_rows_Cons:
  "scan_rows p s ((r, bs) # rows) = Inr out \<longleftrightarrow>
   (\<exists>ok out'. passes p (stored_tuple r bs, s) = Inr ok \<and> scan_rows p s rows = Inr out' \<and>
      (if ok then \<exists>t. parse_row s (stored_tuple r bs) r = Inr t \<and> out = (t, r) # out' else out = out'))"
  by (auto simp: scan_rows_def split: if_splits)

lemma get_and_step:
  assumes s: "s = (c, P, V, S, F)" and hp: "heap_pages V ps" "set ps \<subseteq> S" and live: "live V ps = pre @ r # rs"
    and d: "snap s L d" and L: "length ps + 1 \<le> L"
  shows "\<exists>d1 d2. on_pool (\<lambda>b. Some (Heap_GetTuple b r)) d = Some (Inr (the (heap_map V ps r), d1)) \<and>
    on_pool (\<lambda>b. Iterator_next b r) d1 = Some (Inr (hd (rs @ [Heap_End]), d2)) \<and> snap s (L - (length ps + 1)) d2 \<and>
    pool_size (db_pool d2) = pool_size (db_pool d)"
proof -
  have "r \<in> dom (heap_map V ps)" using live live_contents [OF hp(1)] by auto
  then have bs: "heap_map V ps r = Some (the (heap_map V ps r))" by auto
  note h = snap_heap [OF d [unfolded s] hp]
  have "0 < L" using L by simp
  from GetTuple_at [OF h bs this] obtain b1 where b1: "Heap_GetTuple (db_pool d) r = Inr (the (heap_map V ps r), b1)"
    "heap_at b1 P V S ps (L - 1) F" "pool_size b1 = pool_size (db_pool d)" by blast
  have "length ps \<le> L - 1" using L by simp
  from Iterator_next_at [OF b1(2) live this] obtain b2 where b2: "Iterator_next b1 r = Some (Inr (hd (rs @ [Heap_End]), b2))"
    "heap_at b2 P V S ps (L - 1 - length ps) F" "pool_size b2 = pool_size b1" by blast
  have 1: "on_pool (\<lambda>b. Some (Heap_GetTuple b r)) d = Some (Inr (the (heap_map V ps r), d\<lparr>db_pool := b1\<rparr>))"
    by (rule on_pool_run) (simp add: b1(1))
  have 2: "on_pool (\<lambda>b. Iterator_next b r) (d\<lparr>db_pool := b1\<rparr>) = Some (Inr (hd (rs @ [Heap_End]), d\<lparr>db_pool := b1\<rparr>\<lparr>db_pool := b2\<rparr>))"
    by (rule on_pool_run) (simp add: b2(1))
  have "snap s (L - 1 - length ps) (d\<lparr>db_pool := b1\<rparr>\<lparr>db_pool := b2\<rparr>)"
    using heap_snap [OF heap_snap [OF d [unfolded s] b1(2)] b2(2)] s by simp
  then show ?thesis using 1 2 b1(3) b2(3)
    by (intro exI [of _ "d\<lparr>db_pool := b1\<rparr>"] exI [of _ "d\<lparr>db_pool := b1\<rparr>\<lparr>db_pool := b2\<rparr>"]) (simp add: diff_diff_left add.commute)
qed

lemma scan_next_spec:
  assumes s: "s = (c, P, V, S, F)" and hp: "heap_pages V ps" "set ps \<subseteq> S"
    and "live V ps = pre @ rs" "scan_rows p (ti_schema ti) (stored_rows V ps rs) = Inr out"
    and "snap s L d" "length rs * (length ps + 1) \<le> L"
  shows "(out = [] \<longrightarrow> (\<exists>d'. scan_next ti p (hd (rs @ [Heap_End])) d = Some (Inr ((None, Heap_End), d')) \<and>
      snap s (L - length rs * (length ps + 1)) d' \<and> pool_size (db_pool d') = pool_size (db_pool d))) \<and>
    (\<forall>x xs. out = x # xs \<longrightarrow> (\<exists>pre' rs' k d'. live V ps = pre' @ snd x # rs' \<and> length rs = k + length rs' \<and> 0 < k \<and>
      scan_next ti p (hd (rs @ [Heap_End])) d = Some (Inr ((Some x, hd (rs' @ [Heap_End])), d')) \<and>
      scan_rows p (ti_schema ti) (stored_rows V ps rs') = Inr xs \<and> snap s (L - k * (length ps + 1)) d' \<and>
      pool_size (db_pool d') = pool_size (db_pool d)))"
  using assms(4-)
proof (induction rs arbitrary: pre out L d)
  case Nil
  then have "out = []" by (simp add: scan_rows_def)
  moreover have "scan_next ti p Heap_End d = Some (Inr ((None, Heap_End), d))" by (subst scan_next.simps) simp
  ultimately show ?case using Nil.prems(3) by simp
next
  case (Cons r rs)
  let ?n = "length ps + 1" let ?t = "stored_tuple r (the (heap_map V ps r))"
  have L: "?n \<le> L" "length rs * ?n \<le> L - ?n" using Cons.prems(4) by simp_all
  from get_and_step [OF s hp Cons.prems(1,3) L(1)] obtain d1 d2 where
    d: "on_pool (\<lambda>b. Some (Heap_GetTuple b r)) d = Some (Inr (the (heap_map V ps r), d1))"
    "on_pool (\<lambda>b. Iterator_next b r) d1 = Some (Inr (hd (rs @ [Heap_End]), d2))" "snap s (L - ?n) d2"
    "pool_size (db_pool d2) = pool_size (db_pool d)" by blast
  from Cons.prems(2) obtain ok out' where ok: "passes p (?t, ti_schema ti) = Inr ok"
    "scan_rows p (ti_schema ti) (stored_rows V ps rs) = Inr out'"
    "if ok then \<exists>t. parse_row (ti_schema ti) ?t r = Inr t \<and> out = (t, r) # out' else out = out'"
    by (auto simp: scan_rows_Cons)
  have "r \<noteq> Heap_End" using live_not_end [OF hp(1), of r] Cons.prems(1) by simp
  then have run: "scan_next ti p r d =
      (if \<not> ok then scan_next ti p (hd (rs @ [Heap_End])) d2
       else ebind (lift (parse_row (ti_schema ti) ?t r)) (\<lambda>t. ret (Some (t, r), hd (rs @ [Heap_End]))) d2)"
    by (subst scan_next.simps) (simp add: ebind_def d(1,2) ok(1))
  have live: "live V ps = (pre @ [r]) @ rs" using Cons.prems(1) by simp
  show ?case
  proof (cases ok)
    case False
    note ih = Cons.IH [OF live ok(2) d(3) L(2)]
    have e: "L - ?n - length rs * ?n = L - length (r # rs) * ?n" "\<And>k. L - ?n - k * ?n = L - Suc k * ?n" by simp_all
    have o: "out = out'" "scan_next ti p r d = scan_next ti p (hd (rs @ [Heap_End])) d2" using ok(3) run False by simp_all
    show ?thesis
    proof (intro conjI allI impI)
      assume "out = []"
      then show "\<exists>d'. scan_next ti p (hd ((r # rs) @ [Heap_End])) d = Some (Inr ((None, Heap_End), d')) \<and>
          snap s (L - length (r # rs) * ?n) d' \<and> pool_size (db_pool d') = pool_size (db_pool d)" using d(4) conjunct1 [OF ih] o e(1) by (simp del: mult_Suc)
    next
      fix x xs assume "out = x # xs"
      then obtain pre' rs' k d' where k: "live V ps = pre' @ snd x # rs'" "length rs = k + length rs'"
        "scan_next ti p (hd (rs @ [Heap_End])) d2 = Some (Inr ((Some x, hd (rs' @ [Heap_End])), d'))"
        "scan_rows p (ti_schema ti) (stored_rows V ps rs') = Inr xs" "snap s (L - ?n - k * ?n) d'"
        "pool_size (db_pool d') = pool_size (db_pool d2)" using conjunct2 [OF ih] o(1) by blast
      have "length (r # rs) = Suc k + length rs'" "0 < Suc k" "snap s (L - Suc k * ?n) d'"
        "scan_next ti p (hd ((r # rs) @ [Heap_End])) d = Some (Inr ((Some x, hd (rs' @ [Heap_End])), d'))"
        using k(2,3,5) o(2) unfolding e(2) by simp_all
      then show "\<exists>pre' rs' k d'. live V ps = pre' @ snd x # rs' \<and> length (r # rs) = k + length rs' \<and> 0 < k \<and>
          scan_next ti p (hd ((r # rs) @ [Heap_End])) d = Some (Inr ((Some x, hd (rs' @ [Heap_End])), d')) \<and>
          scan_rows p (ti_schema ti) (stored_rows V ps rs') = Inr xs \<and> snap s (L - k * ?n) d' \<and>
          pool_size (db_pool d') = pool_size (db_pool d)" using k(1,4) k(6) [unfolded d(4)] by blast
    qed
  next
    case True
    then obtain t where t: "parse_row (ti_schema ti) ?t r = Inr t" "out = (t, r) # out'" using ok(3) by auto
    then have "scan_next ti p (hd ((r # rs) @ [Heap_End])) d = Some (Inr ((Some (t, r), hd (rs @ [Heap_End])), d2))" using run True by simp
    then have "live V ps = pre @ snd (t, r) # rs \<and> length (r # rs) = 1 + length rs \<and> 0 < (1::nat) \<and>
      scan_next ti p (hd ((r # rs) @ [Heap_End])) d = Some (Inr ((Some (t, r), hd (rs @ [Heap_End])), d2)) \<and>
      scan_rows p (ti_schema ti) (stored_rows V ps rs) = Inr out' \<and> snap s (L - 1 * ?n) d2 \<and>
      pool_size (db_pool d2) = pool_size (db_pool d)" using live ok(2) d(3,4) by simp
    then show ?thesis unfolding t(2) by blast
  qed
qed

lemma scan_gives:
  assumes s: "s = (c, P, V, S, F)" and hp: "heap_pages V ps" "set ps \<subseteq> S"
    and "live V ps = pre @ rs" "scan_rows p (ti_schema ti) (stored_rows V ps rs) = Inr out"
  shows "gives s (SeqScan_Next p) out (length rs * (length ps + 1)) (SeqScanExecutor (Some ti) (hd (rs @ [Heap_End])))"
  using assms(4-)
proof (induction out arbitrary: pre rs)
  case Nil
  show ?case unfolding gives.simps
  proof (intro allI impI, elim conjE)
    fix L d assume "snap s L d" "length rs * (length ps + 1) \<le> L"
    from scan_next_spec [OF s hp Nil this] obtain d' where d': "snap s (L - length rs * (length ps + 1)) d'"
      "scan_next ti p (hd (rs @ [Heap_End])) d = Some (Inr ((None, Heap_End), d'))" by blast
    have "SeqScan_Next p (SeqScanExecutor (Some ti) (hd (rs @ [Heap_End]))) d = Some (Inr ((None, SeqScanExecutor (Some ti) Heap_End), d'))"
      by (simp add: SeqScan_Next_def ebind_def d'(2))
    then show "\<exists>e' d'. SeqScan_Next p (SeqScanExecutor (Some ti) (hd (rs @ [Heap_End]))) d = Some (Inr ((None, e'), d')) \<and>
        snap s (L - length rs * (length ps + 1)) d'" using d'(1) by blast
  qed
next
  case (Cons x xs)
  show ?case unfolding gives.simps
  proof (intro allI impI, elim conjE)
    fix L d assume "snap s L d" "length rs * (length ps + 1) \<le> L"
    from scan_next_spec [OF s hp Cons.prems this] obtain pre' rs' k d' where n: "live V ps = (pre' @ [snd x]) @ rs'" "length rs = k + length rs'"
      "scan_next ti p (hd (rs @ [Heap_End])) d = Some (Inr ((Some x, hd (rs' @ [Heap_End])), d'))"
      "scan_rows p (ti_schema ti) (stored_rows V ps rs') = Inr xs" "snap s (L - k * (length ps + 1)) d'" by auto
    have "SeqScan_Next p (SeqScanExecutor (Some ti) (hd (rs @ [Heap_End]))) d =
        Some (Inr ((Some x, SeqScanExecutor (Some ti) (hd (rs' @ [Heap_End]))), d'))"
      by (simp add: SeqScan_Next_def ebind_def n(3))
    moreover have "length rs * (length ps + 1) - k * (length ps + 1) = length rs' * (length ps + 1)"
      "k * (length ps + 1) \<le> length rs * (length ps + 1)" unfolding n(2) add_mult_distrib by simp_all
    ultimately show "\<exists>m e' d'. m \<le> length rs * (length ps + 1) \<and>
        SeqScan_Next p (SeqScanExecutor (Some ti) (hd (rs @ [Heap_End]))) d = Some (Inr ((Some x, e'), d')) \<and> snap s (L - m) d' \<and>
        gives s (SeqScan_Next p) xs (length rs * (length ps + 1) - m) e'"
      using Cons.IH [OF n(1,4)] n(5) by (intro exI [of _ "k * (length ps + 1)"]) auto
  qed
qed

text \<open>The logical database that a snapshot holds.\<close>

definition represents :: "logical \<Rightarrow> snapshot \<Rightarrow> bool" where
  "represents D = (\<lambda>(c, P, V, S, F).
     (\<forall>oid s rows. lg_tables D oid = Some (s, rows) \<longrightarrow> (\<exists>ti ps. GetTable c oid = Some ti \<and> ti_schema ti = s \<and>
        heap_pages V ps \<and> set ps \<subseteq> S \<and> hd ps = ti_table ti \<and> lg_pages D oid = ps \<and> rows = stored_rows V ps (live V ps))) \<and>
     (\<forall>ioid f. lg_index D ioid = Some f \<longrightarrow> (\<exists>ix. GetIndex c ioid = Some ix \<and> f = entries_of ix)))"

lemma snap_catalog: "snap (c, P, V, S, F) L d \<Longrightarrow> db_catalog d = c"
  by (simp add: snap_def)

lemma source_SeqScan:
  assumes D: "represents D s" and "sem E D (SeqScanPlanNode sch oid p) = Inr rows"
  shows "source s (exec_Next E (SeqScanPlanNode sch oid p)) (exec_Init E (SeqScanPlanNode sch oid p)) rows (cost E D (SeqScanPlanNode sch oid p))"
proof -
  obtain c P V S F where s: "s = (c, P, V, S, F)" by (cases s) blast
  from assms(2) obtain ts rs where t: "lg_tables D oid = Some (ts, rs)" "scan_rows p ts rs = Inr rows"
    by (auto simp: no_query_def split: option.splits)
  from D t(1) obtain ti ps where ti: "GetTable c oid = Some ti" "ti_schema ti = ts" "heap_pages V ps" "set ps \<subseteq> S" "hd ps = ti_table ti"
    "lg_pages D oid = ps" "rs = stored_rows V ps (live V ps)" unfolding represents_def s by blast
  have g: "gives s (SeqScan_Next p) rows (length (live V ps) * (length ps + 1)) (SeqScanExecutor (Some ti) (hd (live V ps @ [Heap_End])))"
    by (rule scan_gives [OF s ti(3,4), of "[]"]) (use t(2) ti in simp_all)
  have n: "cost E D (SeqScanPlanNode sch oid p) = length ps + length (live V ps) * (length ps + 1)" using t(1) ti(6,7) by simp
  show ?thesis unfolding source_def n
  proof (intro allI impI, elim conjE)
    fix L d e assume d: "snap s L d" and L: "length ps + length (live V ps) * (length ps + 1) \<le> L"
    then have "length ps \<le> L" by simp
    from Begin_at [OF snap_heap [OF d [unfolded s] ti(3,4)] this] obtain b where
      b: "Heap_Begin (db_pool d) (hd ps) = Some (Inr (hd (live V ps @ [Heap_End]), b))" "heap_at b P V S ps (L - length ps) F" by blast
    have "table_at oid d = Some (Inr (ti, d))" using snap_catalog [OF d [unfolded s]] ti(1) by (simp add: table_at_def ebind_def)
    moreover have "on_pool (\<lambda>b. Heap_Begin b (ti_table ti)) d = Some (Inr (hd (live V ps @ [Heap_End]), d\<lparr>db_pool := b\<rparr>))"
      by (rule on_pool_run) (use b(1) ti(5) in simp)
    ultimately have "exec_Init E (SeqScanPlanNode sch oid p) e d =
        Some (Inr (SeqScanExecutor (Some ti) (hd (live V ps @ [Heap_End])), d\<lparr>db_pool := b\<rparr>))"
      by (simp add: SeqScan_Init_def ebind_def)
    moreover have "snap s (L - length ps) (d\<lparr>db_pool := b\<rparr>)" using heap_snap [OF d [unfolded s] b(2)] s by simp
    ultimately show "\<exists>m e' d'. m \<le> length ps + length (live V ps) * (length ps + 1) \<and>
        exec_Init E (SeqScanPlanNode sch oid p) e d = Some (Inr (e', d')) \<and> snap s (L - m) d' \<and>
        gives s (exec_Next E (SeqScanPlanNode sch oid p)) rows (length ps + length (live V ps) * (length ps + 1) - m) e'"
      using g by (intro exI [of _ "length ps"]) simp
  qed
qed

lemma index_gives:
  assumes s: "s = (c, P, V, S, F)" and hp: "heap_pages V ps" "set ps \<subseteq> S"
    and "\<forall>r \<in> set (drop (ex_cursor e) (ex_rids e)). heap_map V ps r \<noteq> None" "ex_table e = Some ti"
    and "xs = map (\<lambda>r. (stored_tuple r (the (heap_map V ps r)), r)) (drop (ex_cursor e) (ex_rids e))"
  shows "gives s IndexScan_Next xs (length xs) e"
  using assms(4-)
proof (induction xs arbitrary: e)
  case Nil
  then show ?case by (simp add: IndexScan_Next_def)
next
  case (Cons x xs)
  then have len: "ex_cursor e < length (ex_rids e)" by (cases "ex_cursor e < length (ex_rids e)") simp_all
  define r where "r = ex_rids e ! ex_cursor e"
  define e' where "e' = IndexScanExecutor (ex_table e) (ex_index e) (ex_rids e) (ex_cursor e + 1)"
  have dr: "drop (ex_cursor e) (ex_rids e) = r # drop (ex_cursor e') (ex_rids e')" using len by (simp add: Cons_nth_drop_Suc r_def e'_def)
  have x: "x = (stored_tuple r (the (heap_map V ps r)), r)" "xs = map (\<lambda>r. (stored_tuple r (the (heap_map V ps r)), r)) (drop (ex_cursor e') (ex_rids e'))"
    using Cons.prems(3) by (simp_all add: dr)
  have bs: "heap_map V ps r = Some (the (heap_map V ps r))" using Cons.prems(1) by (auto simp: dr)
  have g: "gives s IndexScan_Next xs (length xs) e'"
    by (rule Cons.IH) (use Cons.prems(1,2) dr x(2) in \<open>simp_all add: e'_def\<close>)
  show ?case unfolding gives.simps
  proof (intro allI impI, elim conjE)
    fix L d assume d: "snap s L d" and L: "length (x # xs) \<le> L"
    then have "0 < L" by simp
    from GetTuple_at [OF snap_heap [OF d [unfolded s] hp] bs this] obtain b where
      b: "Heap_GetTuple (db_pool d) r = Inr (the (heap_map V ps r), b)" "heap_at b P V S ps (L - 1) F" by blast
    have "on_pool (\<lambda>b. Some (Heap_GetTuple b r)) d = Some (Inr (the (heap_map V ps r), d\<lparr>db_pool := b\<rparr>))"
      by (rule on_pool_run) (simp add: b(1))
    then have "IndexScan_Next e d = Some (Inr ((Some x, e'), d\<lparr>db_pool := b\<rparr>))"
      using len Cons.prems(2) by (simp add: IndexScan_Next_def Let_def ebind_def r_def [symmetric] x(1) e'_def)
    moreover have "snap s (L - 1) (d\<lparr>db_pool := b\<rparr>)" using heap_snap [OF d [unfolded s] b(2)] s by simp
    ultimately show "\<exists>m e' d'. m \<le> length (x # xs) \<and> IndexScan_Next e d = Some (Inr ((Some x, e'), d')) \<and> snap s (L - m) d' \<and>
        gives s IndexScan_Next xs (length (x # xs) - m) e'"
      using g by (intro exI [of _ 1]) auto
  qed
qed

lemma rmap_Inr: "rmap f xs = Inr ys \<longleftrightarrow> list_all2 (\<lambda>x y. f x = Inr y) xs ys"
  by (induction xs arbitrary: ys) (auto simp: list_all2_Cons1)

lemma rmap_ok: "rmap f xs = Inr ys \<Longrightarrow> x \<in> set xs \<Longrightarrow> \<exists>y \<in> set ys. f x = Inr y"
  by (induction xs arbitrary: ys) auto

lemma rmap_map: "rmap f (map g xs) = rmap (\<lambda>x. f (g x)) xs"
  by (induction xs) simp_all

lemma rmap_values: "rmap f xs = Inr ys \<Longrightarrow> (\<And>x y. x \<in> set xs \<Longrightarrow> f x = Inr y \<Longrightarrow> y = g x) \<Longrightarrow> ys = map g xs"
  by (induction xs arbitrary: ys) auto

lemma map_of_stored: "map_of (stored_rows V ps rs) r = (if r \<in> set rs then Some (the (heap_map V ps r)) else None)"
  by (induction rs) auto

lemma source_IndexScan:
  assumes D: "represents D s" and q: "sem E D (IndexScanPlanNode sch oid ioid k p) = Inr rows"
  shows "source s (exec_Next E (IndexScanPlanNode sch oid ioid k p)) (exec_Init E (IndexScanPlanNode sch oid ioid k p)) rows
    (cost E D (IndexScanPlanNode sch oid ioid k p))"
proof -
  obtain c P V S F where s: "s = (c, P, V, S, F)" by (cases s) blast
  from q obtain ts rs f v key where t: "lg_tables D oid = Some (ts, rs)" "lg_index D ioid = Some f" "Evaluate k None = Inr v"
    "GetAsInteger v = Inr key" "rmap (\<lambda>r. case map_of rs r of None \<Rightarrow> no_query | Some bs \<Rightarrow> Inr (stored_tuple r bs, r)) (f key) = Inr rows"
    by (auto simp: no_query_def split: option.splits)
  from D t(1) obtain ti ps where ti: "GetTable c oid = Some ti" "heap_pages V ps" "set ps \<subseteq> S" "rs = stored_rows V ps (live V ps)"
    unfolding represents_def s by blast
  from D t(2) obtain ix where ix: "GetIndex c ioid = Some ix" "f = entries_of ix" unfolding represents_def s by blast
  have live: "\<forall>r \<in> set (f key). r \<in> set (live V ps)"
  proof
    fix r assume "r \<in> set (f key)"
    from rmap_ok [OF t(5) this] obtain y where
      "(case map_of rs r of None \<Rightarrow> no_query | Some bs \<Rightarrow> Inr (stored_tuple r bs, r)) = Inr y" by blast
    then show "r \<in> set (live V ps)" by (auto simp: ti(4) map_of_stored no_query_def split: if_splits)
  qed
  have rows: "rows = map (\<lambda>r. (stored_tuple r (the (heap_map V ps r)), r)) (f key)"
    by (rule rmap_values [OF t(5)]) (use live in \<open>auto simp: ti(4) map_of_stored\<close>)
  define e0 where "e0 = IndexScanExecutor (Some ti) (Some ix) (f key) 0"
  have look: "(case LookupInteger ix key of None \<Rightarrow> [] | Some rids \<Rightarrow> rids) = f key" by (simp add: ix(2) entries_of_def)
  have "gives s IndexScan_Next rows (length rows) e0"
    by (rule index_gives [OF s ti(2,3)]) (use live live_contents [OF ti(2)] rows in \<open>auto simp: e0_def\<close>)
  moreover have "exec_Init E (IndexScanPlanNode sch oid ioid k p) e d = Some (Inr (e0, d))" if "snap s L d" for L d e
    using snap_catalog [OF that [unfolded s]] t(3,4) ti(1) ix(1) look by (simp add: IndexScan_Init_def ebind_def e0_def)
  moreover have "cost E D (IndexScanPlanNode sch oid ioid k p) = length rows" unfolding cost.simps q row_count_def by simp
  ultimately show ?thesis unfolding source_def by (intro allI impI exI [of _ 0] exI [of _ e0]) auto
qed

section \<open>The other executors are sources\<close>

lemma gives_Limit:
  assumes "gives s nx xs n e"
  shows "gives s (Limit_Next nx lmt) (take (lmt - k) xs) n (LimitExecutor e k)"
  using assms
proof (induction xs arbitrary: n e k)
  case Nil
  show ?case unfolding take_Nil gives.simps
  proof (intro allI impI, elim conjE)
    fix L d assume l: "snap s L d" "n \<le> L"
    from gives_Nil [OF Nil l] obtain e' d' where x: "nx e d = Some (Inr ((None, e'), d'))" "snap s (L - n) d'" by blast
    have "snap s (L - n) d" by (rule snap_weaken [OF l(1)]) simp
    then show "\<exists>e' d'. Limit_Next nx lmt (LimitExecutor e k) d = Some (Inr ((None, e'), d')) \<and> snap s (L - n) d'"
      using x by (cases "k \<ge> lmt") (auto simp: Limit_Next_def ebind_def)
  qed
next
  case (Cons x xs)
  show ?case
  proof (cases "k \<ge> lmt")
    case True
    show ?thesis unfolding gives.simps using True snap_weaken [of s _ _ "_ - n"]
      by (simp add: Limit_Next_def) (meson diff_le_self)
  next
    case False
    then have "lmt - k = Suc (lmt - (k + 1))" by simp
    then have t: "take (lmt - k) (x # xs) = x # take (lmt - (k + 1)) xs" by simp
    show ?thesis unfolding t gives.simps
    proof (intro allI impI, elim conjE)
      fix L d assume l: "snap s L d" "n \<le> L"
      from gives_Cons [OF Cons.prems l] obtain m e' d' where
        x: "m \<le> n" "nx e d = Some (Inr ((Some x, e'), d'))" "snap s (L - m) d'" "gives s nx xs (n - m) e'" by blast
      have "Limit_Next nx lmt (LimitExecutor e k) d = Some (Inr ((Some x, LimitExecutor e' (k + 1)), d'))"
        using False x(2) by (simp add: Limit_Next_def ebind_def)
      then show "\<exists>m e' d'. m \<le> n \<and> Limit_Next nx lmt (LimitExecutor e k) d = Some (Inr ((Some x, e'), d')) \<and> snap s (L - m) d' \<and>
          gives s (Limit_Next nx lmt) (take (lmt - (k + 1)) xs) (n - m) e'"
        using x(1,3) Cons.IH [OF x(4), of "k + 1"] by blast
    qed
  qed
qed

lemma gives_Projection:
  assumes "gives s nx xs n e" "rmap (project_row sch es) xs = Inr ys"
  shows "gives s (Projection_Next nx sch es) ys n (ProjectionExecutor e)"
  using assms
proof (induction xs arbitrary: n e ys)
  case Nil
  then have ys: "ys = []" by simp
  show ?case unfolding ys gives.simps
  proof (intro allI impI, elim conjE)
    fix L d assume l: "snap s L d" "n \<le> L"
    from gives_Nil [OF Nil(1) l] obtain e' d' where "nx e d = Some (Inr ((None, e'), d'))" "snap s (L - n) d'" by blast
    then show "\<exists>e' d'. Projection_Next nx sch es (ProjectionExecutor e) d = Some (Inr ((None, e'), d')) \<and> snap s (L - n) d'"
      by (simp add: Projection_Next_def ebind_def)
  qed
next
  case (Cons x xs)
  from Cons.prems(2) obtain y ys' where y: "project_row sch es x = Inr y" "rmap (project_row sch es) xs = Inr ys'" "ys = y # ys'" by auto
  show ?case unfolding y(3) gives.simps
  proof (intro allI impI, elim conjE)
    fix L d assume l: "snap s L d" "n \<le> L"
    from gives_Cons [OF Cons.prems(1) l] obtain m e' d' where
      x: "m \<le> n" "nx e d = Some (Inr ((Some x, e'), d'))" "snap s (L - m) d'" "gives s nx xs (n - m) e'" by blast
    have "Projection_Next nx sch es (ProjectionExecutor e) d = Some (Inr ((Some y, ProjectionExecutor e'), d'))"
      using x(2) y(1) by (simp add: Projection_Next_def ebind_def)
    then show "\<exists>m e' d'. m \<le> n \<and> Projection_Next nx sch es (ProjectionExecutor e) d = Some (Inr ((Some y, e'), d')) \<and>
        snap s (L - m) d' \<and> gives s (Projection_Next nx sch es) ys' (n - m) e'"
      using x(1,3) Cons.IH [OF x(4) y(2)] by blast
  qed
qed

text \<open>\<^verbatim>\<open>Init\<close> of a wrapper around a child.\<close>

lemma source_wrap:
  assumes "source s nx init xs n" "\<And>n e. gives s nx xs n e \<Longrightarrow> gives s nx' ys n (mk e)"
    and "\<And>e. init' e = ebind (init (ex_child e)) (\<lambda>c. ret (mk c))"
  shows "source s nx' init' ys n"
  unfolding source_def
proof (intro allI impI, elim conjE)
  fix L d e assume l: "snap s L d" "n \<le> L"
  from source_init [OF assms(1) l, of "ex_child e"] obtain m e' d' where
    x: "m \<le> n" "init (ex_child e) d = Some (Inr (e', d'))" "snap s (L - m) d'" "gives s nx xs (n - m) e'" by blast
  then have "init' e d = Some (Inr (mk e', d'))" by (simp add: assms(3) ebind_def)
  then show "\<exists>m e' d'. m \<le> n \<and> init' e d = Some (Inr (e', d')) \<and> snap s (L - m) d' \<and> gives s nx' ys (n - m) e'"
    using x(1,3) assms(2) [OF x(4)] by blast
qed

text \<open>\<^verbatim>\<open>Init\<close> that computes the rows.\<close>

lemma source_rows:
  assumes "\<And>L d e. snap s L d \<Longrightarrow> n \<le> L \<Longrightarrow>
      \<exists>m e' d'. m \<le> n \<and> init e d = Some (Inr (e', d')) \<and> snap s (L - m) d' \<and> ex_rows e' = ts \<and> ex_cursor e' = 0"
    and "\<And>e. nx e = give_row (mk e) (ex_rows e) (ex_cursor e)" "\<And>e i. ex_rows (mk e i) = ex_rows e" "\<And>e i. ex_cursor (mk e i) = i"
  shows "source s nx init (map (\<lambda>t. (t, invalid_rid)) ts) n"
  unfolding source_def
proof (intro allI impI, elim conjE)
  fix L d e assume l: "snap s L d" "n \<le> L"
  from assms(1) [OF l, of e] obtain m e' d' where x: "m \<le> n" "init e d = Some (Inr (e', d'))" "snap s (L - m) d'"
    "ex_rows e' = ts" "ex_cursor e' = 0" by blast
  have "gives s nx (map (\<lambda>t. (t, invalid_rid)) ts) 0 e'"
    by (rule give_row_gives [of nx mk, OF assms(2-4)]) (simp add: x(4,5))
  from gives_mono [OF this] x(1-3)
  show "\<exists>m e' d'. m \<le> n \<and> init e d = Some (Inr (e', d')) \<and> snap s (L - m) d' \<and> gives s nx (map (\<lambda>t. (t, invalid_rid)) ts) (n - m) e'"
    by blast
qed

subsection \<open>Joins\<close>

lemma rbind_cong: "(\<And>x. r = Inr x \<Longrightarrow> f x = g x) \<Longrightarrow> rbind r f = rbind r g"
  by (cases r) simp_all

lemma rfold_append: "rfold f (xs @ ys) b = rbind (rfold f xs b) (rfold f ys)"
  by (induction xs arbitrary: b) (auto simp: rbind_assoc intro: rbind_cong)

lemma rfold_map: "rfold f (map g xs) b = rfold (\<lambda>x. f (g x)) xs b"
  by (induction xs arbitrary: b) (auto intro: rbind_cong)

lemma rfold_product: "rfold (\<lambda>x. rfold (\<lambda>y. f (x, y)) ys) xs b = rfold f (List.product xs ys) b"
  by (induction xs arbitrary: b) (auto simp: rfold_append rfold_map intro: rbind_cong)

lemma rmap_append: "rmap f (xs @ ys) = rbind (rmap f xs) (\<lambda>a. rbind (rmap f ys) (\<lambda>b. Inr (a @ b)))"
  by (induction xs) (simp_all add: rbind_assoc)

lemma filter_map_fold:
  "rbind (rfilter f xs) (rmap g) = Inr zs \<Longrightarrow>
   rfold (\<lambda>x out. rbind (f x) (\<lambda>b. if b then rbind (g x) (\<lambda>t. Inr (out @ [t])) else Inr out)) xs out = Inr (out @ zs)"
proof (induction xs arbitrary: zs out)
  case (Cons x xs)
  from Cons.prems obtain b ys where b: "f x = Inr b" "rfilter f xs = Inr ys" "rmap g (if b then x # ys else ys) = Inr zs" by auto
  show ?case
  proof (cases b)
    case True
    then obtain t ts where "g x = Inr t" "rmap g ys = Inr ts" "zs = t # ts" using b(3) by auto
    then show ?thesis using Cons.IH [of ts "out @ [t]"] b(1,2) True by simp
  next
    case False
    then show ?thesis using Cons.IH [of zs out] b by simp
  qed
qed simp

lemma rmap_new_row:
  "rmap (\<lambda>x. new_row (g x)) xs = Inr rows \<Longrightarrow> \<exists>ts. rmap g xs = Inr ts \<and> rows = map (\<lambda>t. (t, invalid_rid)) ts"
  by (induction xs arbitrary: rows) (fastforce simp: new_row_def)+

definition nlj_step :: "schema \<Rightarrow> schema \<Rightarrow> expr option \<Rightarrow> row \<times> row \<Rightarrow> tuple list \<Rightarrow> tuple list res" where
  "nlj_step ls rs p = (\<lambda>(l, r) out. rbind (join_matches p (fst l, ls) (fst r, rs)) (\<lambda>b.
     if b then rbind (join_row (fst l, ls) (fst r, rs)) (\<lambda>t. Inr (out @ [t])) else Inr out))"

lemma nlj_inner_lift: "nlj_inner ls rs p lt x out = lift (nlj_step ls rs p ((lt, r), x) out)"
  by (cases "join_matches p (lt, ls) (fst x, rs)"; cases "join_row (lt, ls) (fst x, rs)")
    (auto simp: nlj_inner_def nlj_step_def fun_eq_iff ebind_def lift_def ret_def split: prod.splits)

lemma source_NestedLoopJoin:
  assumes l: "source s lnx li Ls n" and r: "source s rnx ri Rs m" and j: "sem_join ls rs p Ls Rs = Inr rows"
    and nx: "\<And>e. nx e = give_row (NestedLoopJoinExecutor (ex_left e) (ex_right e) (ex_rows e)) (ex_rows e) (ex_cursor e)"
  shows "source s nx (NestedLoopJoin_Init lnx li rnx ri ls rs p) rows (n + length Ls * m)"
proof -
  from j obtain ys where ys: "rfilter (\<lambda>(l, r). join_matches p (fst l, ls) (fst r, rs)) (List.product Ls Rs) = Inr ys"
    "rmap (\<lambda>(l, r). new_row (join_row (fst l, ls) (fst r, rs))) ys = Inr rows" by (auto simp: sem_join_def)
  have "(\<lambda>x. new_row (case x of (l, r) \<Rightarrow> join_row (fst l, ls) (fst r, rs))) = (\<lambda>(l, r). new_row (join_row (fst l, ls) (fst r, rs)))"
    by (simp add: fun_eq_iff)
  with rmap_new_row [of "\<lambda>(l, r). join_row (fst l, ls) (fst r, rs)" ys rows] ys(2) obtain ts where
    ts: "rmap (\<lambda>(l, r). join_row (fst l, ls) (fst r, rs)) ys = Inr ts" "rows = map (\<lambda>t. (t, invalid_rid)) ts" by metis
  have "nlj_step ls rs p = (\<lambda>x out. rbind (case x of (l, r) \<Rightarrow> join_matches p (fst l, ls) (fst r, rs)) (\<lambda>b.
      if b then rbind (case x of (l, r) \<Rightarrow> join_row (fst l, ls) (fst r, rs)) (\<lambda>t. Inr (out @ [t])) else Inr out))"
    by (simp add: nlj_step_def fun_eq_iff split: prod.split)
  then have "rfold (nlj_step ls rs p) (List.product Ls Rs) [] = Inr ts"
    using filter_map_fold [of "\<lambda>(l, r). join_matches p (fst l, ls) (fst r, rs)" "List.product Ls Rs"
      "\<lambda>(l, r). join_row (fst l, ls) (fst r, rs)" ts "[]"] ys(1) ts(1) by simp
  then have fold: "rfold (\<lambda>x. rfold (\<lambda>y. nlj_step ls rs p (x, y)) Rs) Ls [] = Inr ts" by (simp add: rfold_product)
  let ?body = "\<lambda>(lt, _) (right, out). ebind (ri right) (\<lambda>right'.
      ebind (drain rnx (nlj_inner ls rs p lt) out right') (\<lambda>(out', right''). ret (right'', out')))"
  have body: "\<forall>x (a :: executor \<times> tuple list) b b' L d. snd a = b \<and> rfold (\<lambda>y. nlj_step ls rs p (x, y)) Rs b = Inr b' \<and> snap s L d \<and> m \<le> L \<longrightarrow>
    (\<exists>a' d'. ?body x a d = Some (Inr (a', d')) \<and> snd a' = b' \<and> snap s (L - m) d')"
  proof (intro allI impI, elim conjE)
    fix x and a :: "executor \<times> tuple list" and b b' L d assume a: "snd a = b" and f: "rfold (\<lambda>y. nlj_step ls rs p (x, y)) Rs b = Inr b'" and d: "snap s L d" "m \<le> L"
    obtain lt lr right out where x: "x = (lt, lr)" "a = (right, out)" by (cases x; cases a) auto
    from source_init [OF r d, of right] obtain k e d1 where
      k: "k \<le> m" "ri right d = Some (Inr (e, d1))" "snap s (L - k) d1" "gives s rnx Rs (m - k) e" by blast
    have "m - k \<le> L - k" using d(2) by simp
    from drain_gives [OF k(4) f [unfolded x] nlj_inner_lift k(3) this] obtain e' d' where
      "drain rnx (nlj_inner ls rs p lt) b e d1 = Some (Inr ((b', e'), d'))" "snap s (L - k - (m - k)) d'" by blast
    then show "\<exists>a' d'. ?body x a d = Some (Inr (a', d')) \<and> snd a' = b' \<and> snap s (L - m) d'"
      using k(1,2) a x by (simp add: ebind_def)
  qed
  show ?thesis unfolding ts(2)
  proof (rule source_rows [OF _ nx])
    fix L d e assume d: "snap s L d" "n + length Ls * m \<le> L"
    then have "n \<le> L" by simp
    from source_init [OF l d(1) this, of "ex_left e"] obtain k left d1 where
      k: "k \<le> n" "li (ex_left e) d = Some (Inr (left, d1))" "snap s (L - k) d1" "gives s lnx Ls (n - k) left" by blast
    have "n - k + length Ls * m \<le> L - k" using k(1) d(2) by simp
    from drain_gives_cost [where Q = "\<lambda>a b. snd a = b" and body = ?body and a = "(ex_right e, [])", OF body k(4) fold _ k(3) this]
    obtain a' e' d' where
      r: "drain lnx ?body (ex_right e, []) left d1 = Some (Inr ((a', e'), d'))" "snd a' = ts" "snap s (L - k - (n - k + length Ls * m)) d'"
      by auto
    have "L - k - (n - k + length Ls * m) = L - (n + length Ls * m)" using k(1) by simp
    moreover have "NestedLoopJoin_Init lnx li rnx ri ls rs p e d = Some (Inr (NestedLoopJoinExecutor e' (fst a') ts 0, d'))"
      using k(2) r(1,2) by (simp add: NestedLoopJoin_Init_def ebind_def case_prod_beta)
    ultimately show "\<exists>k e' d'. k \<le> n + length Ls * m \<and> NestedLoopJoin_Init lnx li rnx ri ls rs p e d = Some (Inr (e', d')) \<and>
        snap s (L - k) d' \<and> ex_rows e' = ts \<and> ex_cursor e' = 0"
      using r(3) by (intro exI [of _ "n + length Ls * m"]) auto
  qed simp_all
qed

text \<open>The hash join: the buckets of the table, the rows that a left row meets.\<close>

definition bucket :: "(string, tuple list) umap \<Rightarrow> string \<Rightarrow> tuple list" where
  "bucket ht k = (case map_of ht k of None \<Rightarrow> [] | Some ts \<Rightarrow> ts)"

definition build_step :: "env \<Rightarrow> schema \<Rightarrow> expr \<Rightarrow> row \<Rightarrow> (string, tuple list) umap \<Rightarrow> (string, tuple list) umap res" where
  "build_step E rs rk x ht = rbind (row_key_string E rs rk x) (\<lambda>k. Inr (AList.update k (bucket ht k @ [fst x]) ht))"

definition probe_step :: "env \<Rightarrow> schema \<Rightarrow> schema \<Rightarrow> expr \<Rightarrow> (string, tuple list) umap \<Rightarrow> row \<Rightarrow> tuple list \<Rightarrow> tuple list res" where
  "probe_step E ls rs lk ht x out = rbind (row_key_string E ls lk x) (\<lambda>k.
     rbind (rmap (\<lambda>t. join_row (fst x, ls) (t, rs)) (bucket ht k)) (\<lambda>js. Inr (out @ js)))"

lemma ret_lift: "ret x = lift (Inr x)"
  by (simp add: fun_eq_iff)

lemma lift_rbind: "ebind (lift r) (\<lambda>x. lift (f x)) = lift (rbind r f)"
  by (cases r) (simp_all add: fun_eq_iff ebind_def)

lemma build_row_lift: "build_row E rs rk x ht = lift (build_step E rs rk x ht)"
  by (cases x) (simp add: build_row_def build_step_def row_key_string_def bucket_def Let_def ret_lift lift_rbind rbind_assoc)

lemma probe_row_lift: "probe_row E ls rs lk ht x out = lift (probe_step E ls rs lk ht x out)"
proof -
  obtain lt lr where x: "x = (lt, lr)" by (cases x)
  have "(case map_of ht k of None \<Rightarrow> ret out | Some ts \<Rightarrow> ebind (lift (rmap (\<lambda>rt. join_row (lt, ls) (rt, rs)) ts)) (\<lambda>js. ret (out @ js))) =
      lift (rbind (rmap (\<lambda>t. join_row (lt, ls) (t, rs)) (bucket ht k)) (\<lambda>js. Inr (out @ js)))" for k
    by (cases "map_of ht k") (simp_all add: bucket_def ret_lift lift_rbind)
  then show ?thesis by (simp add: x probe_row_def probe_step_def row_key_string_def lift_rbind rbind_assoc)
qed

definition same_key :: "string \<Rightarrow> (string \<times> row) list \<Rightarrow> tuple list" where
  "same_key k ks = map (\<lambda>(_, r). fst r) (filter (\<lambda>(k', _). k' = k) ks)"

lemma build_buckets:
  "keyed E rs rk R = Inr KR \<Longrightarrow> \<exists>ht'. rfold (build_step E rs rk) R ht = Inr ht' \<and> (\<forall>k. bucket ht' k = bucket ht k @ same_key k KR)"
proof (induction R arbitrary: KR ht)
  case (Cons x R)
  from Cons.prems obtain k KR' where k: "row_key_string E rs rk x = Inr k" "keyed E rs rk R = Inr KR'" "KR = (k, x) # KR'"
    by (auto simp: keyed_def)
  define ht1 where "ht1 = AList.update k (bucket ht k @ [fst x]) ht"
  have b: "bucket ht1 k' = bucket ht k' @ same_key k' [(k, x)]" for k' by (simp add: ht1_def bucket_def update_conv same_key_def)
  from Cons.IH [OF k(2), of ht1] obtain ht' where
    "rfold (build_step E rs rk) R ht1 = Inr ht'" "\<forall>k. bucket ht' k = bucket ht1 k @ same_key k KR'" by blast
  moreover have "build_step E rs rk x ht = Inr ht1" by (simp add: build_step_def k(1) ht1_def)
  moreover have "same_key k' KR = same_key k' [(k, x)] @ same_key k' KR'" for k' by (simp add: k(3) same_key_def)
  ultimately show ?case using b by simp
qed (simp add: keyed_def same_key_def)

lemma probe_rows:
  assumes ht: "\<forall>k. bucket ht k = same_key k KR"
  shows "keyed E ls lk L = Inr KL \<Longrightarrow>
    rmap (\<lambda>((_, l), (_, r)). new_row (join_row (fst l, ls) (fst r, rs))) (filter (\<lambda>((k, _), (k', _)). k = k') (List.product KL KR)) = Inr rows \<Longrightarrow>
    \<exists>ts. rfold (probe_step E ls rs lk ht) L out = Inr (out @ ts) \<and> rows = map (\<lambda>t. (t, invalid_rid)) ts"
proof (induction L arbitrary: KL rows out)
  case (Cons x L)
  let ?new = "\<lambda>((_, l), (_, r)). new_row (join_row (fst l, ls) (fst r, rs))"
  from Cons.prems(1) obtain k KL' where k: "row_key_string E ls lk x = Inr k" "keyed E ls lk L = Inr KL'" "KL = (k, x) # KL'"
    by (auto simp: keyed_def)
  have f: "filter (\<lambda>((k, _), (k', _)). k = k') (List.product KL KR) =
      map (Pair (k, x)) (filter (\<lambda>(k', _). k' = k) KR) @ filter (\<lambda>((k, _), (k', _)). k = k') (List.product KL' KR)"
    by (simp add: k(3) filter_map comp_def eq_commute [of k])
  from Cons.prems(2) obtain r1 r2 where r: "rmap ?new (map (Pair (k, x)) (filter (\<lambda>(k', _). k' = k) KR)) = Inr r1"
    "rmap ?new (filter (\<lambda>((k, _), (k', _)). k = k') (List.product KL' KR)) = Inr r2" "rows = r1 @ r2"
    unfolding f rmap_append by auto
  have "rmap (\<lambda>t. new_row (join_row (fst x, ls) (t, rs))) (same_key k KR) = Inr r1"
    using r(1) by (simp add: same_key_def rmap_map case_prod_beta)
  from rmap_new_row [OF this] obtain ts where
    ts: "rmap (\<lambda>t. join_row (fst x, ls) (t, rs)) (same_key k KR) = Inr ts" "r1 = map (\<lambda>t. (t, invalid_rid)) ts" by blast
  have "probe_step E ls rs lk ht x out = Inr (out @ ts)" using k(1) ts(1) ht by (simp add: probe_step_def)
  moreover from Cons.IH [OF k(2) r(2), of "out @ ts"] obtain ts' where
    "rfold (probe_step E ls rs lk ht) L (out @ ts) = Inr ((out @ ts) @ ts')" "r2 = map (\<lambda>t. (t, invalid_rid)) ts'" by blast
  ultimately show ?case using r(3) ts(2) by (intro exI [of _ "ts @ ts'"]) simp
qed (simp add: keyed_def)

lemma source_HashJoin:
  assumes l: "source s lnx li Ls n" and r: "source s rnx ri Rs m" and j: "sem_hash_join E ls rs lk rk Ls Rs = Inr rows"
    and nx: "\<And>e. nx e = give_row (HashJoinExecutor (ex_left e) (ex_right e) (hash_table e) (ex_rows e)) (ex_rows e) (ex_cursor e)"
  shows "source s nx (HashJoin_Init E lnx li rnx ri ls rs lk rk) rows (n + m)"
proof -
  from j obtain KL KR where K: "keyed E ls lk Ls = Inr KL" "keyed E rs rk Rs = Inr KR"
    "rmap (\<lambda>((_, l), (_, r)). new_row (join_row (fst l, ls) (fst r, rs))) (filter (\<lambda>((k, _), (k', _)). k = k') (List.product KL KR)) = Inr rows"
    by (auto simp: sem_hash_join_def)
  from build_buckets [OF K(2), of "[]"] obtain ht where
    ht: "rfold (build_step E rs rk) Rs [] = Inr ht" "\<forall>k. bucket ht k = same_key k KR" by (auto simp: bucket_def)
  from probe_rows [OF ht(2) K(1,3), of "[]"] obtain ts where
    ts: "rfold (probe_step E ls rs lk ht) Ls [] = Inr ts" "rows = map (\<lambda>t. (t, invalid_rid)) ts" by auto
  show ?thesis unfolding ts(2)
  proof (rule source_rows [OF _ nx])
    fix L d e assume d: "snap s L d" "n + m \<le> L"
    then have "n \<le> L" by simp
    from source_init [OF l d(1) this, of "ex_left e"] obtain k left d1 where
      k: "k \<le> n" "li (ex_left e) d = Some (Inr (left, d1))" "snap s (L - k) d1" "gives s lnx Ls (n - k) left" by blast
    have "m \<le> L - k" using k(1) d(2) by simp
    from source_init [OF r k(3) this, of "ex_right e"] obtain i right d2 where
      i: "i \<le> m" "ri (ex_right e) d1 = Some (Inr (right, d2))" "snap s (L - k - i) d2" "gives s rnx Rs (m - i) right" by blast
    have "m - i \<le> L - k - i" using k(1) i(1) d(2) by simp
    from drain_gives [OF i(4) ht(1) build_row_lift i(3) this] obtain right' d3 where
      r3: "drain rnx (build_row E rs rk) [] right d2 = Some (Inr ((ht, right'), d3))" "snap s (L - k - i - (m - i)) d3" by blast
    have "n - k \<le> L - k - i - (m - i)" using k(1) i(1) d(2) by simp
    from drain_gives [OF k(4) ts(1) probe_row_lift r3(2) this] obtain left' d4 where
      r4: "drain lnx (probe_row E ls rs lk ht) [] left d3 = Some (Inr ((ts, left'), d4))" "snap s (L - k - i - (m - i) - (n - k)) d4" by blast
    have "L - k - i - (m - i) - (n - k) = L - (n + m)" using k(1) i(1) by simp
    moreover have "HashJoin_Init E lnx li rnx ri ls rs lk rk e d = Some (Inr (HashJoinExecutor left' right' ht ts 0, d4))"
      using k(2) i(2) r3(1) r4(1) by (simp add: HashJoin_Init_def ebind_def)
    ultimately show "\<exists>k e' d'. k \<le> n + m \<and> HashJoin_Init E lnx li rnx ri ls rs lk rk e d = Some (Inr (e', d')) \<and>
        snap s (L - k) d' \<and> ex_rows e' = ts \<and> ex_cursor e' = 0"
      using r4(2) by (intro exI [of _ "n + m"]) auto
  qed simp_all
qed

subsection \<open>Aggregation and sorting\<close>

definition first_keys :: "(string \<times> 'a) list \<Rightarrow> string list" where
  "first_keys xs = rev (remdups (rev (map fst xs)))"

lemma first_keys_snoc:
  "first_keys (xs @ [(k, v)]) = (if k \<in> set (first_keys xs) then first_keys xs else first_keys xs @ [k])"
  by (auto simp: first_keys_def)

lemma first_keys_distinct [simp]: "distinct (first_keys xs)"
  by (simp add: first_keys_def)

lemma first_keys_set [simp]: "set (first_keys xs) = fst ` set xs"
  by (auto simp: first_keys_def)

type_synonym agg_row = "string \<times> val list \<times> val list"

definition group_of :: "string \<Rightarrow> agg_row list \<Rightarrow> agg_row list" where
  "group_of k xs = filter (\<lambda>x. fst x = k) xs"

definition fold_group :: "aggregation_type list \<Rightarrow> agg_row list \<Rightarrow> val list res" where
  "fold_group tys g = rfold (\<lambda>(_, _, avs) st. update_aggregates tys st avs) g (map initial_aggregate tys)"

definition agg_step :: "env \<Rightarrow> schema \<Rightarrow> expr list \<Rightarrow> expr list \<Rightarrow> aggregation_type list \<Rightarrow> row \<Rightarrow>
    bool \<times> (string, agg_state) umap \<Rightarrow> (bool \<times> (string, agg_state) umap) res" where
  "agg_step E s gs ags tys x acc = rbind (agg_input E s gs ags x) (\<lambda>(k, gvs, avs).
     let state = (case map_of (snd acc) k of None \<Rightarrow> \<lparr>as_group_bys = gvs, as_aggregates = map initial_aggregate tys\<rparr> | Some st \<Rightarrow> st)
     in rbind (update_aggregates tys (as_aggregates state) avs) (\<lambda>aggs.
          Inr (True, AList.update k (state\<lparr>as_aggregates := aggs\<rparr>) (snd acc))))"

lemma aggregate_row_lift: "aggregate_row E s gs ags tys x acc = lift (agg_step E s gs ags tys x acc)"
  by (cases x; cases acc) (simp add: aggregate_row_def agg_step_def agg_input_def rbind_assoc Let_def)

text \<open>The table after the rows \<open>xs\<close>: the groups in order, each with its fold.\<close>

definition groups_ok :: "aggregation_type list \<Rightarrow> agg_row list \<Rightarrow> (string, agg_state) umap \<Rightarrow> bool" where
  "groups_ok tys xs aht \<longleftrightarrow> map fst aht = first_keys xs \<and> (\<forall>k \<in> fst ` set xs. \<exists>aggs. fold_group tys (group_of k xs) = Inr aggs \<and>
     map_of aht k = Some \<lparr>as_group_bys = fst (snd (hd (group_of k xs))), as_aggregates = aggs\<rparr>)"

lemma agg_step_groups:
  assumes ok: "groups_ok tys xs aht" and x: "agg_input E s gs ags r = Inr (k, gvs, avs)"
    and f: "fold_group tys (group_of k (xs @ [(k, gvs, avs)])) = Inr aggs"
  shows "\<exists>aht'. agg_step E s gs ags tys r (b, aht) = Inr (True, aht') \<and> groups_ok tys (xs @ [(k, gvs, avs)]) aht'"
proof -
  let ?x = "(k, gvs, avs)"
  define st where "st = (case map_of aht k of None \<Rightarrow> \<lparr>as_group_bys = gvs, as_aggregates = map initial_aggregate tys\<rparr> | Some st \<Rightarrow> st)"
  have keys: "map fst aht = first_keys xs" using ok by (simp add: groups_ok_def)
  have g: "group_of k' (xs @ [?x]) = group_of k' xs @ (if k' = k then [?x] else [])" for k' by (simp add: group_of_def)
  have "fst ` set aht = fst ` set xs" by (metis keys first_keys_set set_map)
  then have n: "map_of aht k = None \<longleftrightarrow> k \<notin> fst ` set xs" by (simp add: map_of_eq_None_iff)
  have none: "map_of aht k = None \<longleftrightarrow> group_of k xs = []" unfolding n by (auto simp: group_of_def filter_empty_conv)
  have st: "fold_group tys (group_of k xs) = Inr (as_aggregates st)" "as_group_bys st = fst (snd (hd (group_of k (xs @ [?x]))))"
  proof -
    have "fold_group tys (group_of k xs) = Inr (as_aggregates st) \<and> as_group_bys st = fst (snd (hd (group_of k (xs @ [?x]))))"
    proof (cases "map_of aht k")
      case None
      then show ?thesis using none(1) by (simp add: st_def g fold_group_def)
    next
      case (Some a)
      then have "k \<in> fst ` set xs" "group_of k xs \<noteq> []" using n none by auto
      with ok obtain aggs where "fold_group tys (group_of k xs) = Inr aggs"
        "map_of aht k = Some \<lparr>as_group_bys = fst (snd (hd (group_of k xs))), as_aggregates = aggs\<rparr>" unfolding groups_ok_def by blast
      then show ?thesis using \<open>group_of k xs \<noteq> []\<close> by (simp add: st_def g)
    qed
    then show "fold_group tys (group_of k xs) = Inr (as_aggregates st)" "as_group_bys st = fst (snd (hd (group_of k (xs @ [?x]))))" by simp_all
  qed
  have u: "update_aggregates tys (as_aggregates st) avs = Inr aggs"
    using f st(1) unfolding g fold_group_def by (simp add: rfold_append)
  define aht' where "aht' = AList.update k (st\<lparr>as_aggregates := aggs\<rparr>) aht"
  have "agg_step E s gs ags tys r (b, aht) = Inr (True, aht')" using x u by (simp add: agg_step_def st_def [symmetric] aht'_def)
  moreover have "map fst aht' = first_keys (xs @ [?x])" unfolding aht'_def update_keys keys first_keys_snoc by simp
  moreover have "\<exists>aggs. fold_group tys (group_of k' (xs @ [?x])) = Inr aggs \<and>
      map_of aht' k' = Some \<lparr>as_group_bys = fst (snd (hd (group_of k' (xs @ [?x])))), as_aggregates = aggs\<rparr>"
    if "k' \<in> fst ` set (xs @ [?x])" for k'
  proof (cases "k' = k")
    case True
    then show ?thesis using f st(2) by (simp add: aht'_def update_conv)
  next
    case False
    then have "k' \<in> fst ` set xs" using that by auto
    with ok obtain aggs where "fold_group tys (group_of k' xs) = Inr aggs"
      "map_of aht k' = Some \<lparr>as_group_bys = fst (snd (hd (group_of k' xs))), as_aggregates = aggs\<rparr>" unfolding groups_ok_def by blast
    then show ?thesis using False unfolding g by (simp add: aht'_def update_conv)
  qed
  ultimately show ?thesis unfolding groups_ok_def by blast
qed

lemma agg_steps_groups:
  assumes "rmap (agg_input E s gs ags) R = Inr ys" "groups_ok tys xs aht"
    and "\<forall>k \<in> fst ` set (xs @ ys). \<exists>aggs. fold_group tys (group_of k (xs @ ys)) = Inr aggs"
  shows "\<exists>aht'. rfold (agg_step E s gs ags tys) R (b, aht) = Inr (b \<or> R \<noteq> [], aht') \<and> groups_ok tys (xs @ ys) aht'"
  using assms
proof (induction R arbitrary: ys xs aht b)
  case (Cons r R)
  from Cons.prems(1) obtain k gvs avs ys' where y: "agg_input E s gs ags r = Inr (k, gvs, avs)"
    "rmap (agg_input E s gs ags) R = Inr ys'" "ys = (k, gvs, avs) # ys'" by auto
  let ?x = "(k, gvs, avs)"
  have "k \<in> fst ` set (xs @ ys)" using y(3) by simp
  with Cons.prems(3) obtain aggs where "fold_group tys (group_of k (xs @ [?x] @ ys')) = Inr aggs" using y(3) by auto
  then obtain aggs' where "fold_group tys (group_of k (xs @ [?x])) = Inr aggs'"
    by (auto simp: group_of_def fold_group_def rfold_append)
  from agg_step_groups [OF Cons.prems(2) y(1) this] obtain aht1 where
    a1: "agg_step E s gs ags tys r (b, aht) = Inr (True, aht1)" "groups_ok tys (xs @ [?x]) aht1" by blast
  from Cons.IH [OF y(2) a1(2), of True] Cons.prems(3) y(3) obtain aht' where
    "rfold (agg_step E s gs ags tys) R (True, aht1) = Inr (True, aht')" "groups_ok tys (xs @ ys) aht'" by auto
  then show ?case using a1(1) by auto
qed simp

lemma single_bucket: "env_ok E \<Longrightarrow> bucket_order E [k] = [k]"
  unfolding env_ok_def by (drule spec [of _ "[k]"], cases "bucket_order E [k]") auto

lemma rmap_cong: "(\<And>x. x \<in> set xs \<Longrightarrow> f x = g x) \<Longrightarrow> rmap f xs = rmap g xs"
  by (induction xs) simp_all

lemma groups_rows:
  assumes E: "env_ok E" and ok: "groups_ok tys xs aht"
  shows "rmap (\<lambda>k. rbind (group_row tys (group_of k xs)) (\<lambda>vs. new_row (Tuple vs))) (bucket_order E (first_keys xs)) =
    rmap (\<lambda>st. new_row (Tuple (as_group_bys st @ as_aggregates st))) (iterated E aht)"
proof -
  have keys: "map fst aht = first_keys xs" using ok by (simp add: groups_ok_def)
  have "rbind (group_row tys (group_of k xs)) (\<lambda>vs. new_row (Tuple vs)) =
      new_row (Tuple (as_group_bys (the (map_of aht k)) @ as_aggregates (the (map_of aht k))))"
    if "k \<in> set (bucket_order E (first_keys xs))" for k
  proof -
    have "k \<in> set (first_keys xs)" using E that by (simp only: env_ok_def)
    then have "k \<in> fst ` set xs" by simp
    with ok obtain aggs where "fold_group tys (group_of k xs) = Inr aggs"
      "map_of aht k = Some \<lparr>as_group_bys = fst (snd (hd (group_of k xs))), as_aggregates = aggs\<rparr>" unfolding groups_ok_def by blast
    then show ?thesis by (simp add: group_row_def fold_group_def [symmetric])
  qed
  then show ?thesis unfolding iterated_def keys rmap_map by (rule rmap_cong)
qed

lemma source_Aggregation:
  assumes E: "env_ok E" and c: "source s cnx ci Rs n" and j: "sem_aggregate E sch gs ags tys Rs = Inr rows"
    and nx: "\<And>e. nx e = give_row (AggregationExecutor (ex_child e) (ex_rows e)) (ex_rows e) (ex_cursor e)"
  shows "source s nx (Aggregation_Init E cnx ci sch gs ags tys) rows n"
proof -
  note single = single_bucket [OF E]
  define final where "final b aht = (if \<not> b \<and> gs = []
      then AList.update ''SINGLE_GROUP'' \<lparr>as_group_bys = [], as_aggregates = map initial_aggregate tys\<rparr> aht else aht)" for b and aht :: "(string, agg_state) umap"
  have "\<exists>aht ts. rfold (agg_step E sch gs ags tys) Rs (False, []) = Inr (Rs \<noteq> [], aht) \<and>
      rmap (\<lambda>st. Tuple (as_group_bys st @ as_aggregates st)) (iterated E (final (Rs \<noteq> []) aht)) = Inr ts \<and> rows = map (\<lambda>t. (t, invalid_rid)) ts"
  proof (cases "Rs = [] \<and> gs = []")
    case True
    with j have "rmap (\<lambda>vs. new_row (Tuple vs)) [map initial_aggregate tys] = Inr rows" by (simp add: sem_aggregate_def)
    from rmap_new_row [OF this] True show ?thesis by (auto simp: final_def iterated_def single)
  next
    case False
    with j obtain xs where xs: "rmap (agg_input E sch gs ags) Rs = Inr xs"
      "rmap (\<lambda>k. rbind (group_row tys (group_of k xs)) (\<lambda>vs. new_row (Tuple vs))) (bucket_order E (first_keys xs)) = Inr rows"
      by (auto simp: sem_aggregate_def group_of_def first_keys_def)
    have "\<forall>k \<in> fst ` set xs. \<exists>aggs. fold_group tys (group_of k xs) = Inr aggs"
    proof
      fix k assume "k \<in> fst ` set xs"
      then have "k \<in> set (bucket_order E (first_keys xs))" using E by (simp only: env_ok_def first_keys_set)
      from rmap_ok [OF xs(2) this] show "\<exists>aggs. fold_group tys (group_of k xs) = Inr aggs"
        by (auto simp: group_row_def fold_group_def)
    qed
    moreover have "groups_ok tys [] []" by (simp add: groups_ok_def first_keys_def)
    ultimately obtain aht where aht: "rfold (agg_step E sch gs ags tys) Rs (False, []) = Inr (Rs \<noteq> [], aht)" "groups_ok tys xs aht"
      using agg_steps_groups [OF xs(1), of tys "[]" "[]" False] by auto
    from rmap_new_row [OF xs(2) [unfolded groups_rows [OF E aht(2)]]] obtain ts where
      "rmap (\<lambda>st. Tuple (as_group_bys st @ as_aggregates st)) (iterated E aht) = Inr ts" "rows = map (\<lambda>t. (t, invalid_rid)) ts" by blast
    moreover have "final (Rs \<noteq> []) aht = aht" using False by (auto simp: final_def)
    ultimately show ?thesis using aht(1) by auto
  qed
  then obtain aht ts where a: "rfold (agg_step E sch gs ags tys) Rs (False, []) = Inr (Rs \<noteq> [], aht)"
    "rmap (\<lambda>st. Tuple (as_group_bys st @ as_aggregates st)) (iterated E (final (Rs \<noteq> []) aht)) = Inr ts"
    "rows = map (\<lambda>t. (t, invalid_rid)) ts" by blast
  show ?thesis unfolding a(3)
  proof (rule source_rows [OF _ nx])
    fix L d e assume d: "snap s L d" "n \<le> L"
    from source_init [OF c d, of "ex_child e"] obtain k child d1 where
      k: "k \<le> n" "ci (ex_child e) d = Some (Inr (child, d1))" "snap s (L - k) d1" "gives s cnx Rs (n - k) child" by blast
    have "n - k \<le> L - k" using d(2) by simp
    from drain_gives [OF k(4) a(1) aggregate_row_lift k(3) this] obtain child' d2 where
      r: "drain cnx (aggregate_row E sch gs ags tys) (False, []) child d1 = Some (Inr (((Rs \<noteq> [], aht), child'), d2))"
      "snap s (L - k - (n - k)) d2" by blast
    have "Aggregation_Init E cnx ci sch gs ags tys e d = Some (Inr (AggregationExecutor child' ts 0, d2))"
      using k(2) r(1) a(2) by (simp add: Aggregation_Init_def ebind_def final_def)
    moreover have "L - k - (n - k) = L - n" using k(1) d(2) by simp
    ultimately show "\<exists>k e' d'. k \<le> n \<and> Aggregation_Init E cnx ci sch gs ags tys e d = Some (Inr (e', d')) \<and>
        snap s (L - k) d' \<and> ex_rows e' = ts \<and> ex_cursor e' = 0"
      using r(2) by (intro exI [of _ n]) auto
  qed simp_all
qed

lemma collect_rows: "rfold (\<lambda>x ts. Inr (ts @ [fst x])) xs ts = Inr (ts @ map fst xs)"
  by (induction xs arbitrary: ts) simp_all

lemma source_Sort:
  assumes c: "source s cnx ci Rs n" and j: "std_sort E (sort_less sch os) (map fst Rs) = Inr ts"
    and nx: "\<And>e. nx e = give_row (SortExecutor (ex_child e) (ex_rows e)) (ex_rows e) (ex_cursor e)"
  shows "source s nx (Sort_Init E cnx ci sch os) (map (\<lambda>t. (t, invalid_rid)) ts) n"
proof (rule source_rows [OF _ nx])
  fix L d e assume d: "snap s L d" "n \<le> L"
  from source_init [OF c d, of "ex_child e"] obtain k child d1 where
    k: "k \<le> n" "ci (ex_child e) d = Some (Inr (child, d1))" "snap s (L - k) d1" "gives s cnx Rs (n - k) child" by blast
  have "n - k \<le> L - k" using d(2) by simp
  moreover have "\<And>x ts. (\<lambda>(t, _) ts. ret (ts @ [t])) x ts = lift (Inr (ts @ [fst x]))" by (simp add: ret_lift case_prod_beta)
  ultimately obtain child' d2 where
    r: "drain cnx (\<lambda>(t, _) ts. ret (ts @ [t])) [] child d1 = Some (Inr ((map fst Rs, child'), d2))" "snap s (L - k - (n - k)) d2"
    using drain_gives [OF k(4) collect_rows [of Rs "[]"] _ k(3), of "\<lambda>(t, _) ts. ret (ts @ [t])"] by auto
  have "Sort_Init E cnx ci sch os e d = Some (Inr (SortExecutor child' ts 0, d2))"
    using k(2) r(1) j by (simp add: Sort_Init_def ebind_def)
  moreover have "L - k - (n - k) = L - n" using k(1) d(2) by simp
  ultimately show "\<exists>k e' d'. k \<le> n \<and> Sort_Init E cnx ci sch os e d = Some (Inr (e', d')) \<and>
      snap s (L - k) d' \<and> ex_rows e' = ts \<and> ex_cursor e' = 0"
    using r(2) by (intro exI [of _ n]) auto
qed simp_all

section \<open>The executors of a plan\<close>

lemma source_plan:
  assumes E: "env_ok E" and D: "represents D s"
  shows "sem E D p = Inr rows \<Longrightarrow> source s (exec_Next E p) (exec_Init E p) rows (cost E D p)"
proof (induction p arbitrary: rows)
  case (SeqScanPlanNode sch oid q)
  then show ?case by (rule source_SeqScan [OF D])
next
  case (IndexScanPlanNode sch oid ioid k q)
  then show ?case by (rule source_IndexScan [OF D])
next
  case (NestedLoopJoinPlanNode sch l r q)
  from NestedLoopJoinPlanNode.prems obtain L R where q: "sem E D l = Inr L" "sem E D r = Inr R"
    "sem_join (GetOutputSchema l) (GetOutputSchema r) q L R = Inr rows" by auto
  have n: "row_count (sem E D l) = length L" by (simp add: q(1) row_count_def)
  show ?case
    using source_NestedLoopJoin [OF NestedLoopJoinPlanNode.IH(1) [OF q(1)] NestedLoopJoinPlanNode.IH(2) [OF q(2)] q(3)] by (simp add: n)
next
  case (HashJoinPlanNode sch l r lk rk)
  from HashJoinPlanNode.prems obtain L R where q: "sem E D l = Inr L" "sem E D r = Inr R"
    "sem_hash_join E (GetOutputSchema l) (GetOutputSchema r) lk rk L R = Inr rows" by auto
  show ?case using source_HashJoin [OF HashJoinPlanNode.IH(1) [OF q(1)] HashJoinPlanNode.IH(2) [OF q(2)] q(3)] by simp
next
  case (AggregationPlanNode sch child gs ags tys)
  from AggregationPlanNode.prems obtain R where q: "sem E D child = Inr R"
    "sem_aggregate E (GetOutputSchema child) gs ags tys R = Inr rows" by auto
  show ?case using source_Aggregation [OF E AggregationPlanNode.IH [OF q(1)] q(2)] by simp
next
  case (SortPlanNode sch child os)
  from SortPlanNode.prems obtain R ts where q: "sem E D child = Inr R"
    "std_sort E (sort_less (GetOutputSchema child) os) (map fst R) = Inr ts" "rows = map (\<lambda>t. (t, invalid_rid)) ts" by auto
  show ?case using source_Sort [OF SortPlanNode.IH [OF q(1)] q(2)] q(3) by simp
next
  case (LimitPlanNode sch child n)
  from LimitPlanNode.prems obtain R where q: "sem E D child = Inr R" "rows = take n R" by auto
  show ?case using source_wrap [OF LimitPlanNode.IH [OF q(1)], of "Limit_Next (exec_Next E child) n" rows "\<lambda>c. LimitExecutor c 0"
      "exec_Init E (LimitPlanNode sch child n)"] gives_Limit [of s "exec_Next E child" R _ _ n 0] q(2) by simp
next
  case (ProjectionPlanNode sch child es)
  from ProjectionPlanNode.prems obtain R where q: "sem E D child = Inr R" "rmap (project_row (GetOutputSchema child) es) R = Inr rows" by auto
  show ?case using source_wrap [OF ProjectionPlanNode.IH [OF q(1)], of "Projection_Next (exec_Next E child) (GetOutputSchema child) es" rows
      ProjectionExecutor "exec_Init E (ProjectionPlanNode sch child es)"] gives_Projection [OF _ q(2)] by simp
qed (simp_all add: no_query_def)

lemma Execute_source:
  assumes "source s (exec_Next E p) (exec_Init E p) rows n" "snap s L d" "n \<le> L"
  shows "\<exists>d'. Execute E p d = Some (Inr (map fst rows, d')) \<and> snap s (L - n) d'"
proof -
  from source_init [OF assms, of "CreateExecutor p"] obtain k e d1 where
    k: "k \<le> n" "exec_Init E p (CreateExecutor p) d = Some (Inr (e, d1))" "snap s (L - k) d1" "gives s (exec_Next E p) rows (n - k) e" by blast
  have "n - k \<le> L - k" using assms(3) by simp
  moreover have "\<And>x ts. (\<lambda>(t, _) ts. ret (ts @ [t])) x ts = lift (Inr (ts @ [fst x]))" by (simp add: ret_lift case_prod_beta)
  ultimately obtain e' d2 where
    r: "drain (exec_Next E p) (\<lambda>(t, _) ts. ret (ts @ [t])) [] e d1 = Some (Inr ((map fst rows, e'), d2))" "snap s (L - k - (n - k)) d2"
    using drain_gives [OF k(4) collect_rows [of rows "[]"] _ k(3), of "\<lambda>(t, _) ts. ret (ts @ [t])"] by auto
  moreover have "L - k - (n - k) = L - n" using k(1) assms(3) by simp
  ultimately show ?thesis using k(2) by (simp add: Execute_def ebind_def)
qed

section \<open>Properties\<close>

text \<open>
  The tables and the indexes of a database: the heap of a table has its rows in the order of its live records, and
  an index has the record identifiers of each key.
\<close>

definition has_tables :: "logical \<Rightarrow> db \<Rightarrow> bool" where
  "has_tables D d \<longleftrightarrow> pool_ok {} (db_pool d) \<and>
     (\<forall>oid s rows. lg_tables D oid = Some (s, rows) \<longrightarrow>
        (\<exists>ti. GetTable (db_catalog d) oid = Some ti \<and> ti_schema ti = s \<and> heap_ok (db_pool d) (ti_table ti) (lg_pages D oid) \<and>
           rows = map (\<lambda>r. (r, the (heap_contents (db_pool d) (lg_pages D oid) r))) (live (page_view (db_pool d)) (lg_pages D oid)))) \<and>
     (\<forall>ioid f. lg_index D ioid = Some f \<longrightarrow> (\<exists>ix. GetIndex (db_catalog d) ioid = Some ix \<and> f = entries_of ix))"

definition snapshot_of :: "db \<Rightarrow> snapshot" where
  "snapshot_of d = (db_catalog d, pins (db_pool d), page_view (db_pool d), {p. stored (db_pool d) p}, next_page_id (disk_manager (db_pool d)))"

lemma has_tables_represents:
  assumes "has_tables D d"
  shows "represents D (snapshot_of d)"
  unfolding represents_def snapshot_of_def prod.case
proof (intro conjI allI impI)
  fix oid s rows assume "lg_tables D oid = Some (s, rows)"
  with assms obtain ti where t: "GetTable (db_catalog d) oid = Some ti" "ti_schema ti = s" "heap_ok (db_pool d) (ti_table ti) (lg_pages D oid)"
    "rows = map (\<lambda>r. (r, the (heap_contents (db_pool d) (lg_pages D oid) r))) (live (page_view (db_pool d)) (lg_pages D oid))"
    unfolding has_tables_def by blast
  then show "\<exists>ti ps. GetTable (db_catalog d) oid = Some ti \<and> ti_schema ti = s \<and> heap_pages (page_view (db_pool d)) ps \<and>
      set ps \<subseteq> {p. stored (db_pool d) p} \<and> hd ps = ti_table ti \<and> lg_pages D oid = ps \<and>
      rows = stored_rows (page_view (db_pool d)) ps (live (page_view (db_pool d)) ps)"
    by (intro exI [of _ ti] exI [of _ "lg_pages D oid"]) (auto simp: heap_ok_def heap_contents_def)
next
  fix ioid f assume "lg_index D ioid = Some f"
  with assms show "\<exists>ix. GetIndex (db_catalog d) ioid = Some ix \<and> f = entries_of ix" unfolding has_tables_def by blast
qed

lemma live_cong: "(\<And>p. p \<in> set ps \<Longrightarrow> V' p = V p) \<Longrightarrow> live V' ps = live V ps"
  by (induction ps) (auto simp: live_from_def)

lemma snap_has_tables:
  assumes D: "represents D s" and d: "snap s L d"
  shows "has_tables D d"
proof -
  obtain c P V S F where s: "s = (c, P, V, S, F)" by (cases s) blast
  have at: "pool_at {} P V S L F (db_pool d)" and c: "db_catalog d = c" using d by (simp_all add: s snap_def)
  have "\<exists>ti. GetTable c oid = Some ti \<and> ti_schema ti = sc \<and> heap_ok (db_pool d) (ti_table ti) (lg_pages D oid) \<and>
      rows = map (\<lambda>r. (r, the (heap_contents (db_pool d) (lg_pages D oid) r))) (live (page_view (db_pool d)) (lg_pages D oid))"
    if "lg_tables D oid = Some (sc, rows)" for oid sc rows
  proof -
    from D that obtain ti ps where t: "GetTable c oid = Some ti" "ti_schema ti = sc" "heap_pages V ps" "set ps \<subseteq> S" "hd ps = ti_table ti"
      "lg_pages D oid = ps" "rows = stored_rows V ps (live V ps)" unfolding represents_def s by blast
    have "page_view (db_pool d) q = V q" if "q \<in> set ps" for q using pool_at_view [OF at] that t(4) by blast
    then have "live (page_view (db_pool d)) ps = live V ps" by (rule live_cong)
    then show ?thesis using at_heap_ok [OF at t(3-5)] t by simp
  qed
  moreover have "\<exists>ix. GetIndex c ioid = Some ix \<and> f = entries_of ix" if "lg_index D ioid = Some f" for ioid f
    using D that unfolding represents_def s by blast
  ultimately show ?thesis using at by (simp add: has_tables_def c pool_at_def)
qed

lemma Execute_sem:
  assumes E: "env_ok E" and db: "has_tables D d" and rows: "sem E D p = Inr rows" and room: "room_for (cost E D p + n) 1 (db_pool d)"
  shows "\<exists>d'. Execute E p d = Some (Inr (map fst rows, d')) \<and> has_tables D d' \<and> db_catalog d' = db_catalog d \<and> room_for n 1 (db_pool d')"
proof -
  define s where "s = snapshot_of d"
  have D: "represents D s" unfolding s_def by (rule has_tables_represents [OF db])
  have "pool_ok {} (db_pool d)" using db by (simp add: has_tables_def)
  then have "snap s (cost E D p + n) d"
    using room by (simp add: s_def snap_def snapshot_of_def room_for_def pool_at_def)
  from Execute_source [OF source_plan [OF E D rows] this] obtain d' where
    d': "Execute E p d = Some (Inr (map fst rows, d'))" "snap s n d'" by auto
  moreover have "room_for n 1 (db_pool d')" "db_catalog d' = db_catalog d"
    using d'(2) by (auto simp: s_def snap_def snapshot_of_def room_for_def pool_at_def)
  ultimately show ?thesis using snap_has_tables [OF D d'(2)] by blast
qed

text \<open>
  C1. A query returns the rows that it means. When the logical tables and indexes are those of the database, the
  reference computes rows for the plan without an error and enough of the buffer pool is left, then \<open>Execute\<close> returns
  exactly these rows in their order, and the database still has the same tables, indexes and catalog.
\<close>

theorem Execute_correct:
  assumes E: "env_ok E" and db: "has_tables D d" and rows: "sem E D p = Inr rows" and room: "room_for (cost E D p + n) 1 (db_pool d)"
  shows "\<exists>d'. Execute E p d = Some (Inr (map fst rows, d')) \<and> has_tables D d' \<and> db_catalog d' = db_catalog d \<and> room_for n 1 (db_pool d')"
  by (rule Execute_sem [OF assms])

text \<open>A table with one row of one BOOLEAN column, and \<^verbatim>\<open>SELECT COUNT(*)\<close> over it.\<close>

definition flag_schema :: schema where
  "flag_schema = Schema [Column ''a'' T_BOOLEAN 0]"

definition demo_env :: env where
  "demo_env = \<lparr>fmt_float = (\<lambda>_. ''0''), std_sort = (\<lambda>_ ts. Inr ts), bucket_order = (\<lambda>ks. ks)\<rparr>"

definition demo_plan :: plan where
  "demo_plan = AggregationPlanNode (Schema [Column ''agg_0'' T_INTEGER 0]) (SeqScanPlanNode flag_schema 1 None) []
     [ColumnValueExpression 0 0 T_INTEGER] [CountStarAggregate]"

lemma demo_env: "env_ok demo_env"
  by (simp add: env_ok_def demo_env_def)

lemma demo_order [simp]: "bucket_order demo_env ks = ks"
  by (simp add: demo_env_def)

lemma demo_db:
  "\<exists>d D r. has_tables D d \<and> lg_tables D 1 = Some (flag_schema, [(r, [1, 2, 3])]) \<and> length (lg_pages D 1) = 1 \<and> room_for 50 1 (db_pool d) \<and>
     (\<exists>ti. GetTable_name (db_catalog d) ''t'' = Inr (Some ti) \<and> ti_schema ti = flag_schema \<and> ti_oid ti = 1)"
proof -
  obtain b p where b: "heap_ok b p [p]" "heap_contents b [p] = (\<lambda>_. None)(RID p 0 \<mapsto> [1, 2, 3])" "room_for 50 1 b"
    "live (page_view b) [p] = [RID p 0]" using demo_heap_one by blast
  define ti where "ti = \<lparr>ti_schema = flag_schema, ti_name = ''t'', ti_table = p, ti_oid = 1\<rparr>"
  define d where "d = \<lparr>db_pool = b, db_catalog = Catalog\<lparr>tables := [(1, ti)], table_names := [(''t'', 1)]\<rparr>\<rparr>"
  define D where "D = \<lparr>lg_tables = (\<lambda>_. None)(1 \<mapsto> (flag_schema, [(RID p 0, [1, 2, 3])])), lg_pages = (\<lambda>_. [p]), lg_index = (\<lambda>_. None)\<rparr>"
  have "has_tables D d"
    using b unfolding has_tables_def by (auto simp: D_def d_def GetTable_def ti_def heap_ok_def split: if_splits)
  moreover have "lg_tables D 1 = Some (flag_schema, [(RID p 0, [1, 2, 3])])" "length (lg_pages D 1) = 1" by (simp_all add: D_def)
  moreover have "room_for 50 1 (db_pool d)" using b(3) by (simp add: d_def)
  moreover have "GetTable_name (db_catalog d) ''t'' = Inr (Some ti) \<and> ti_schema ti = flag_schema \<and> ti_oid ti = 1"
    by (simp add: d_def ti_def GetTable_name_def map_at_def)
  ultimately show ?thesis by blast
qed

lemma demo_column: "Tuple_GetColumn (stored_tuple r [1, 2, 3]) flag_schema 0 = Inr (SQL_bool True)"
  by (simp add: flag_schema_def Schema_def Tuple_GetColumn_def stored_tuple_def Tuple_DeserializeFrom_def Tuple_empty_def
      Column_def GetFixedLengthFor_def DeserializeFrom_def take_bytes_def)

lemma demo_stored_row: "\<exists>t. parse_row flag_schema (stored_tuple r [1, 2, 3]) r = Inr t \<and> length (t_values t) = 1"
proof -
  have "length (columns flag_schema) = 1" by (simp add: flag_schema_def Schema_def)
  then show ?thesis using demo_column [of r] by (simp add: parse_row_def row_values_def Tuple_def SerializeTo_def Value_bool_def)
qed

lemma demo_sem:
  assumes D: "lg_tables D 1 = Some (flag_schema, [(r, [1, 2, 3])])"
  shows "\<exists>t. sem demo_env D (SeqScanPlanNode flag_schema 1 None) = Inr [(t, r)]"
    and "\<exists>t. sem demo_env D demo_plan = Inr [(t, invalid_rid)] \<and> t_values t = [SQL_int 1]"
proof -
  let ?e = "ColumnValueExpression 0 0 T_INTEGER"
  obtain t where t: "parse_row flag_schema (stored_tuple r [1, 2, 3]) r = Inr t" "length (t_values t) = 1" using demo_stored_row by blast
  have scan: "sem demo_env D (SeqScanPlanNode flag_schema 1 None) = Inr [(t, r)]"
    using D t by (simp add: scan_rows_def passes_def)
  then show "\<exists>t. sem demo_env D (SeqScanPlanNode flag_schema 1 None) = Inr [(t, r)]" by blast
  have "agg_input demo_env flag_schema [] [?e] (t, r) = Inr (''SINGLE_GROUP'', [], [t_values t ! 0])"
    using t(2) by (auto simp: agg_input_def group_key_def column_value_def Tuple_GetColumn_def)
  moreover have "update_aggregates [CountStarAggregate] [SQL_int 0] [v] = Inr [SQL_int 1]" for v
    by (simp add: update_aggregate_def Value_Add_def int_result_def v_int_def Value_int_def)
  moreover have "\<exists>t. Tuple [SQL_int 1] = Inr t \<and> t_values t = [SQL_int 1]" by (simp add: Tuple_def SerializeTo_def Value_int_def)
  ultimately show "\<exists>t. sem demo_env D demo_plan = Inr [(t, invalid_rid)] \<and> t_values t = [SQL_int 1]" using scan
    by (auto simp: demo_plan_def sem_aggregate_def group_row_def initial_aggregate_def new_row_def)
qed

theorem Execute_correct_witness:
  "\<exists>d d' t. Execute demo_env demo_plan d = Some (Inr ([t], d')) \<and> t_values t = [SQL_int 1]"
proof -
  obtain d D r where d: "has_tables D d" "lg_tables D 1 = Some (flag_schema, [(r, [1, 2, 3])])" "length (lg_pages D 1) = 1" "room_for 50 1 (db_pool d)"
    using demo_db by blast
  from demo_sem(2) [OF d(2)] obtain t where t: "sem demo_env D demo_plan = Inr [(t, invalid_rid)]" "t_values t = [SQL_int 1]" by blast
  have "room_for (cost demo_env D demo_plan + 0) 1 (db_pool d)" using d(2-4) by (simp add: demo_plan_def room_for_def)
  from Execute_correct [OF demo_env d(1) t(1) this] t(2) show ?thesis by fastforce
qed

section \<open>Aggregates of no rows\<close>

abbreviation count_types :: "aggregation_type set" where
  "count_types \<equiv> {CountStarAggregate, CountAggregate}"

lemma initial_count: "ty \<in> count_types \<Longrightarrow> initial_aggregate ty = SQL_int 0"
  by (auto simp: initial_aggregate_def)

lemma initial_other: "ty \<notin> count_types \<Longrightarrow> initial_aggregate ty = Value_default"
  by (auto simp: initial_aggregate_def)

lemma serialize_initial:
  "set tys \<subseteq> count_types \<Longrightarrow> \<exists>bs. serialize_values (map initial_aggregate tys) = Inr bs"
  "\<not> set tys \<subseteq> count_types \<Longrightarrow> serialize_values (map initial_aggregate tys) = Inl (LogicError ''Unsupported type for serialization'')"
proof (induction tys)
  case (Cons ty tys)
  { case 1 then show ?case using Cons.IH(1) initial_count [of ty] by (auto simp: SerializeTo_def Value_int_def) }
  { case 2
    show ?case
    proof (cases "ty \<in> count_types")
      case True
      then show ?thesis using 2 Cons.IH(2) initial_count [OF True] by (simp add: SerializeTo_def Value_int_def)
    next
      case False
      then show ?thesis using initial_other [OF False] by (simp add: SerializeTo_def Value_default_def)
    qed }
qed simp_all

lemma empty_child:
  assumes E: "env_ok E" and "has_tables D d" and "sem E D child = Inr []" and "room_for (cost E D child) 1 (db_pool d)"
  shows "represents D (snapshot_of d)" "snap (snapshot_of d) (cost E D child) d"
proof -
  show "represents D (snapshot_of d)" by (rule has_tables_represents [OF assms(2)])
  have "pool_ok {} (db_pool d)" using assms(2) by (simp add: has_tables_def)
  then show "snap (snapshot_of d) (cost E D child) d"
    using assms(4) by (simp add: snap_def snapshot_of_def room_for_def pool_at_def)
qed

text \<open>
  C39. Aggregates over no rows: without GROUP BY, counting answers one row of zeros, as many as there are aggregates; with
  GROUP BY there is no row, whatever the aggregates.
\<close>

theorem empty_aggregation:
  assumes E: "env_ok E" and D: "has_tables D d" and none: "sem E D child = Inr []" and room: "room_for (cost E D child) 1 (db_pool d)"
  shows "(set tys \<subseteq> {CountStarAggregate, CountAggregate} \<longrightarrow>
      (\<exists>t d'. Execute E (AggregationPlanNode s child [] ags tys) d = Some (Inr ([t], d')) \<and> t_values t = replicate (length tys) (SQL_int 0))) \<and>
    (gs \<noteq> [] \<longrightarrow> (\<exists>d'. Execute E (AggregationPlanNode s child gs ags tys) d = Some (Inr ([], d'))))"
proof (intro conjI impI)
  note sn = empty_child [OF E D none room]
  assume tys: "set tys \<subseteq> {CountStarAggregate, CountAggregate}"
  then have i: "map initial_aggregate tys = replicate (length tys) (SQL_int 0)"
    by (induction tys) (auto simp: initial_aggregate_def)
  from serialize_initial(1) [OF tys] obtain t where "Tuple (map initial_aggregate tys) = Inr t" "t_values t = map initial_aggregate tys"
    by (auto simp: Tuple_def)
  then have p: "sem E D (AggregationPlanNode s child [] ags tys) = Inr [(t, invalid_rid)]" "t_values t = replicate (length tys) (SQL_int 0)"
    using none i by (simp_all add: sem_aggregate_def new_row_def)
  then show "\<exists>t d'. Execute E (AggregationPlanNode s child [] ags tys) d = Some (Inr ([t], d')) \<and> t_values t = replicate (length tys) (SQL_int 0)"
    using Execute_source [OF source_plan [OF E sn(1) p(1)] sn(2)] p(2) by fastforce
next
  note sn = empty_child [OF E D none room]
  have "bucket_order E [] = []" using E unfolding env_ok_def by (metis length_0_conv)
  moreover assume "gs \<noteq> []"
  ultimately have p: "sem E D (AggregationPlanNode s child gs ags tys) = Inr []"
    using none by (simp add: sem_aggregate_def)
  then show "\<exists>d'. Execute E (AggregationPlanNode s child gs ags tys) d = Some (Inr ([], d'))"
    using Execute_source [OF source_plan [OF E sn(1) p] sn(2)] by fastforce
qed

theorem empty_aggregation_witness:
  "\<exists>d t d'. Execute demo_env (AggregationPlanNode flag_schema (LimitPlanNode flag_schema (SeqScanPlanNode flag_schema 1 None) 0) []
     [ColumnValueExpression 0 0 T_INTEGER] [CountAggregate]) d = Some (Inr ([t], d')) \<and> t_values t = [SQL_int 0]"
proof -
  obtain d D r where d: "has_tables D d" "lg_tables D 1 = Some (flag_schema, [(r, [1, 2, 3])])" "length (lg_pages D 1) = 1" "room_for 50 1 (db_pool d)"
    using demo_db by blast
  define child where "child = LimitPlanNode flag_schema (SeqScanPlanNode flag_schema 1 None) 0"
  from demo_sem(1) [OF d(2)] obtain t where "sem demo_env D (SeqScanPlanNode flag_schema 1 None) = Inr [(t, r)]" by blast
  then have "sem demo_env D child = Inr []" by (simp add: child_def)
  moreover have "room_for (cost demo_env D child) 1 (db_pool d)" using d(2-4) by (simp add: child_def room_for_def)
  ultimately show ?thesis
    using empty_aggregation [OF demo_env d(1), of child "[CountAggregate]" flag_schema "[ColumnValueExpression 0 0 T_INTEGER]"]
    unfolding child_def [symmetric] by (intro exI [of _ d]) simp
qed

text \<open>
  What the code does where it means to answer NULL: one SUM, MIN or MAX among the aggregates without GROUP BY over no rows makes
  \<open>Execute\<close> throw, since the NULL it starts from has no type and cannot be stored in a tuple.
\<close>

lemma empty_sum_throws:
  assumes E: "env_ok E" and D: "has_tables D d" and none: "sem E D child = Inr []" and room: "room_for (cost E D child) 1 (db_pool d)"
    and tys: "\<not> set tys \<subseteq> count_types"
  shows "Execute E (AggregationPlanNode s child [] ags tys) d = Some (Inl (LogicError ''Unsupported type for serialization''))"
proof -
  let ?p = "AggregationPlanNode s child [] ags tys"
  note sn = empty_child [OF E D none room]
  from source_init [OF source_plan [OF E sn(1) none] sn(2), of "ex_child (CreateExecutor ?p)"] obtain k child' d1 where
    k: "k \<le> cost E D child" "exec_Init E child (ex_child (CreateExecutor ?p)) d = Some (Inr (child', d1))"
    "snap (snapshot_of d) (cost E D child - k) d1" "gives (snapshot_of d) (exec_Next E child) [] (cost E D child - k) child'" by auto
  from gives_Nil [OF k(4,3)] obtain e' d2 where n: "exec_Next E child child' d1 = Some (Inr ((None, e'), d2))" by blast
  have "Tuple (map initial_aggregate tys) = Inl (LogicError ''Unsupported type for serialization'')"
    using serialize_initial(2) [OF tys] by (simp add: Tuple_def)
  then have "exec_Init E ?p (CreateExecutor ?p) d = Some (Inl (LogicError ''Unsupported type for serialization''))"
    using k(2) n single_bucket [OF E] drain_step(1) [of "exec_Next E child" child' d1 e' d2 "aggregate_row E (GetOutputSchema child) [] ags tys" "(False, [])"]
    by (simp add: Aggregation_Init_def ebind_def iterated_def)
  then show ?thesis by (simp add: Execute_def ebind_def)
qed

end
