(* ===== verification/Binder.thy ===== *)
theory Binder
  imports Queries
begin

text \<open>
  The binder: \<^verbatim>\<open>binder/binder.cpp\<close>, from the parse tree of a statement to its plan. The parser libpg_query is
  vendored: a parse is a parameter, and the nodes of its tree are a datatype with the fields that the binder reads. A list
  of the parser is empty exactly when its pointer is null. A node that is used as another type than it has, and the first
  cell of an empty list, are undefined behaviour. So is a null plan, which the optimizer and the executors dereference at once. The
  lemmas show that a bound expression computes what the condition in the query means by a reference semantics, when its operator nodes are
  operators and its names are unambiguous.
\<close>

section \<open>Parse trees\<close>

text \<open>Names that may be absent are options. \<open>PGOther\<close> is any other node, with the number of its type.\<close>

datatype pg_value = PGInteger "64 word" | PGFloat string | PGStringValue string | PGOtherValue

datatype bool_expr_type = PG_AND_EXPR | PG_OR_EXPR | PG_NOT_EXPR

text \<open>\<^verbatim>\<open>PGAExpr_Kind\<close>: what an operator node stands for; \<^verbatim>\<open>IS DISTINCT FROM\<close> and \<^verbatim>\<open>NULLIF\<close> carry the name \<^verbatim>\<open>=\<close>.\<close>

datatype aexpr_kind =
    PG_AEXPR_OP | PG_AEXPR_OP_ANY | PG_AEXPR_OP_ALL | PG_AEXPR_DISTINCT | PG_AEXPR_NOT_DISTINCT | PG_AEXPR_NULLIF
  | PG_AEXPR_OF | PG_AEXPR_IN | PG_AEXPR_LIKE | PG_AEXPR_ILIKE | PG_AEXPR_GLOB | PG_AEXPR_SIMILAR | PG_AEXPR_BETWEEN
  | PG_AEXPR_NOT_BETWEEN | PG_AEXPR_BETWEEN_SYM | PG_AEXPR_NOT_BETWEEN_SYM | AEXPR_PAREN

datatype pg_node =
    PGString string
  | PGAStar
  | PGList "pg_node list"
  | PGColumnRef "pg_node list"
  | PGAConst pg_value
  | PGAExpr aexpr_kind "pg_node list" "pg_node option" "pg_node option"
  | PGBoolExpr bool_expr_type "pg_node list"
  | PGFuncCall "pg_node list" "pg_node list" bool
  | PGRangeVar string "string option"
  | PGJoinExpr pg_node pg_node "pg_node option"
  | PGOther nat

record pg_target =
  rt_name :: "string option"
  rt_val :: "pg_node option"

record pg_select =
  fromClause :: "pg_node list"
  whereClause :: "pg_node option"
  targetList :: "pg_target list"
  groupClause :: "pg_node list"
  sortClause :: "(pg_node \<times> bool) list"
  limitCount :: "pg_node option"
  valuesLists :: bool

text \<open>
  An element of an index has a name or an expression. In \<open>sortClause\<close> the flag says \<^verbatim>\<open>DESC\<close>, in a drop statement the first one that
  indexes are dropped, and \<open>valuesLists\<close> that there are any.
\<close>

datatype pg_stmt =
    PGIndexStmt "string option" "string option" "(string option \<times> bool) list"
  | PGDropStmt bool "pg_node list" bool
  | PGVariableShowStmt "string option" "string option"
  | PGSelectStmt pg_select
  | PGInsertStmt string "pg_select option"
  | PGDeleteStmt string "pg_node option"
  | PGUpdateStmt string "pg_target list" "pg_node option"
  | PGOtherStmt nat

text \<open>The type numbers that error messages show: \<^verbatim>\<open>PGNodeTag\<close> of the parser.\<close>

primrec node_tag :: "pg_node \<Rightarrow> nat" where
  "node_tag (PGString s) = 220"
| "node_tag PGAStar = 360"
| "node_tag (PGList ns) = 223"
| "node_tag (PGColumnRef fs) = 356"
| "node_tag (PGAConst v) = 358"
| "node_tag (PGAExpr kind name l r) = 355"
| "node_tag (PGBoolExpr t args) = 112"
| "node_tag (PGFuncCall f args star) = 359"
| "node_tag (PGRangeVar n a) = 96"
| "node_tag (PGJoinExpr l r q) = 143"
| "node_tag (PGOther t) = t"

primrec stmt_tag :: "pg_stmt \<Rightarrow> nat" where
  "stmt_tag (PGIndexStmt n t es) = 254"
| "stmt_tag (PGDropStmt i ns m) = 248"
| "stmt_tag (PGVariableShowStmt s r) = 276"
| "stmt_tag (PGSelectStmt s) = 234"
| "stmt_tag (PGInsertStmt t s) = 230"
| "stmt_tag (PGDeleteStmt t w) = 231"
| "stmt_tag (PGUpdateStmt t ts w) = 232"
| "stmt_tag (PGOtherStmt n) = n"

section \<open>Names and constants\<close>

definition bad_cast :: "'a res" where
  "bad_cast = Inl (UndefinedBehaviour ''node of another type'')"

definition null_node :: "'a res" where
  "null_node = Inl (UndefinedBehaviour ''null node dereferenced'')"

fun strVal :: "pg_node \<Rightarrow> string res" where
  "strVal (PGString s) = Inr s"
| "strVal _ = bad_cast"

definition list_first :: "'a list \<Rightarrow> 'a res" where
  "list_first xs = (case xs of [] \<Rightarrow> null_node | x # _ \<Rightarrow> Inr x)"

definition list_last :: "'a list \<Rightarrow> 'a res" where
  "list_last xs = (if xs = [] then null_node else Inr (last xs))"

definition lower_char :: "char \<Rightarrow> char" where
  "lower_char c = (let n = of_char c in if 65 \<le> n \<and> n \<le> (90 :: nat) then char_of (n + 32) else c)"

definition LowerCopy :: "string \<Rightarrow> string" where
  "LowerCopy text = map lower_char text"

definition JoinStrings :: "string list \<Rightarrow> string \<Rightarrow> string" where
  "JoinStrings parts separator = join separator parts"

fun NodeToQualifiedName :: "pg_node \<Rightarrow> string" where
  "NodeToQualifiedName (PGString s) = s"
| "NodeToQualifiedName (PGList ns) = JoinStrings (map NodeToQualifiedName ns) ''.''"
| "NodeToQualifiedName (PGRangeVar relname a) = relname"
| "NodeToQualifiedName _ = []"

text \<open>
  \<^verbatim>\<open>std::stof\<close> on a decimal literal, which is what the lexer accepts: digits with a point and an exponent, rounded to the
  nearest float. It throws \<^verbatim>\<open>std::out_of_range\<close> when the number is too large, and when it is too small to be rounded like a normal
  float and not exact (\<^verbatim>\<open>ERANGE\<close> of \<^verbatim>\<open>strtof\<close>: the number is tiny if it stays below the least normal float when it is rounded with
  the exponents unbounded, which is seen on its double).
\<close>

definition is_digit :: "char \<Rightarrow> bool" where
  "is_digit c \<longleftrightarrow> 48 \<le> (of_char c :: nat) \<and> (of_char c :: nat) \<le> 57"

definition digits_value_of :: "string \<Rightarrow> nat" where
  "digits_value_of ds = foldl (\<lambda>n c. 10 * n + (of_char c - 48)) 0 ds"

fun sign_of :: "string \<Rightarrow> bool \<times> string" where
  "sign_of (CHR ''-'' # s) = (True, s)"
| "sign_of (CHR ''+'' # s) = (False, s)"
| "sign_of s = (False, s)"

fun exponent_of :: "string \<Rightarrow> int" where
  "exponent_of (c # s) =
     (if c = CHR ''e'' \<or> c = CHR ''E''
      then let (neg, r) = sign_of s; n = int (digits_value_of (takeWhile is_digit r)) in if neg then - n else n
      else 0)"
| "exponent_of [] = 0"

fun fraction_of :: "string \<Rightarrow> string \<times> string" where
  "fraction_of (CHR ''.'' # s) = (takeWhile is_digit s, dropWhile is_digit s)"
| "fraction_of s = ([], s)"

definition std_stof :: "string \<Rightarrow> f32 res" where
  "std_stof text =
     (let (neg, s) = sign_of text;
          (frac, rest) = fraction_of (dropWhile is_digit s);
          ds = takeWhile is_digit s @ frac;
          e = exponent_of rest - int (length frac)
      in if ds = [] then Inl (LogicError ''stof'')
         else let num = digits_value_of ds * 10 ^ nat e * 2 ^ 149; den = 10 ^ nat (- e);
                  m = f32_round num den
              in if m \<ge> F32_INF \<or> (f32_round (2 * num) den < 2 ^ 24 \<and> num \<noteq> m * den) then Inl (LogicError ''stof'')
                 else Inr (f32_make neg m))"

section \<open>Expressions\<close>

record table_scope =
  sc_alias :: string
  sc_info :: table_info
  sc_tuple_idx :: nat

primrec find_column :: "string \<Rightarrow> nat \<Rightarrow> column list \<Rightarrow> (nat \<times> type_id) option" where
  "find_column n i [] = None"
| "find_column n i (col # cols) = (if c_name col = n then Some (i, c_type col) else find_column n (i + 1) cols)"

primrec ResolveColumn :: "string \<Rightarrow> string \<Rightarrow> table_scope list \<Rightarrow> (nat \<times> nat \<times> type_id) res" where
  "ResolveColumn col qualifier [] =
     Inl (RuntimeError (''Column not found: '' @ (if qualifier = [] then col else qualifier @ ''.'' @ col)))"
| "ResolveColumn col qualifier (sc # scs) =
     (if qualifier \<noteq> [] \<and> qualifier \<noteq> sc_alias sc then ResolveColumn col qualifier scs
      else case find_column col 0 (columns (ti_schema (sc_info sc))) of
             Some (i, t) \<Rightarrow> Inr (sc_tuple_idx sc, i, t)
           | None \<Rightarrow> ResolveColumn col qualifier scs)"

text \<open>The qualifier and the name of a column; \<open>None\<close> for a star.\<close>

definition column_name :: "pg_node list \<Rightarrow> (string \<times> string) option res" where
  "column_name names =
     (case names of
        [n] \<Rightarrow> (case n of PGString s \<Rightarrow> Inr (Some ([], s)) | PGAStar \<Rightarrow> Inr None | _ \<Rightarrow> Inr (Some ([], [])))
      | [q, n] \<Rightarrow> rbind (strVal q) (\<lambda>qualifier.
          case n of PGAStar \<Rightarrow> Inr None | _ \<Rightarrow> rbind (strVal n) (\<lambda>s. Inr (Some (qualifier, s))))
      | _ \<Rightarrow> Inr (Some ([], [])))"

definition BindColumnRef :: "pg_node list \<Rightarrow> table_scope list \<Rightarrow> expr option res" where
  "BindColumnRef names scopes =
     rbind (column_name names) (\<lambda>name.
       case name of
         None \<Rightarrow> Inr None
       | Some (qualifier, col) \<Rightarrow>
           rbind (ResolveColumn col qualifier scopes) (\<lambda>(ti, ci, t). Inr (Some (ColumnValueExpression ti ci t))))"

definition BindConstant :: "pg_value \<Rightarrow> expr option res" where
  "BindConstant v =
     (case v of
        PGInteger i \<Rightarrow> Inr (Some (ConstantValueExpression (SQL_int (ucast i))))
      | PGFloat s \<Rightarrow> rbind (std_stof s) (\<lambda>f. Inr (Some (ConstantValueExpression (Value_float T_FLOAT f))))
      | PGStringValue s \<Rightarrow> Inr (Some (ConstantValueExpression (Value_string T_VARCHAR s)))
      | PGOtherValue \<Rightarrow> Inl (RuntimeError ''Unsupported constant type''))"

text \<open>A child that is a null pointer.\<close>

definition child :: "expr option \<Rightarrow> expr" where
  "child e = (case e of None \<Rightarrow> NullExpression | Some x \<Rightarrow> x)"

definition operator_expression :: "string \<Rightarrow> expr \<Rightarrow> expr \<Rightarrow> expr res" where
  "operator_expression op l r =
     (if op = ''='' then Inr (ComparisonExpression l r Equal)
      else if op = ''<>'' \<or> op = ''!='' then Inr (ComparisonExpression l r NotEqual)
      else if op = ''<'' then Inr (ComparisonExpression l r LessThan)
      else if op = ''<='' then Inr (ComparisonExpression l r LessThanOrEqual)
      else if op = ''>'' then Inr (ComparisonExpression l r GreaterThan)
      else if op = ''>='' then Inr (ComparisonExpression l r GreaterThanOrEqual)
      else if op = ''+'' then Inr (ArithmeticExpression l r Plus)
      else if op = ''-'' then Inr (ArithmeticExpression l r Minus)
      else if op = ''*'' then Inr (ArithmeticExpression l r Multiply)
      else if op = ''/'' then Inr (ArithmeticExpression l r Divide)
      else if op = ''%'' then Inr (ArithmeticExpression l r Modulo)
      else Inl (RuntimeError (''Unsupported operator: '' @ op)))"

text \<open>
  The kind of an operator node is not looked at. \<open>BindChain\<close> is the loop over the further arguments of \<^verbatim>\<open>AND\<close> and \<^verbatim>\<open>OR\<close>.
  The operands may be null pointers.
\<close>

fun BindExpression :: "pg_node \<Rightarrow> table_scope list \<Rightarrow> expr option res"
  and BindOperand :: "pg_node option \<Rightarrow> table_scope list \<Rightarrow> expr option res"
  and BindChain :: "logic_type \<Rightarrow> expr option \<Rightarrow> pg_node list \<Rightarrow> table_scope list \<Rightarrow> expr option res"
where
  "BindExpression (PGColumnRef names) scopes = BindColumnRef names scopes"
| "BindExpression (PGAConst v) scopes = BindConstant v"
| "BindExpression (PGAExpr kind name l r) scopes =
     rbind (BindOperand l scopes) (\<lambda>left.
     rbind (BindOperand r scopes) (\<lambda>right.
     rbind (rbind (list_first name) strVal) (\<lambda>op.
     rbind (operator_expression op (child left) (child right)) (\<lambda>e. Inr (Some e)))))"
| "BindExpression (PGBoolExpr t args) scopes =
     (case t of
        PG_AND_EXPR \<Rightarrow> (case args of [] \<Rightarrow> null_node | a # as \<Rightarrow> rbind (BindExpression a scopes) (\<lambda>e. BindChain And e as scopes))
      | PG_OR_EXPR \<Rightarrow> (case args of [] \<Rightarrow> null_node | a # as \<Rightarrow> rbind (BindExpression a scopes) (\<lambda>e. BindChain Or e as scopes))
      | PG_NOT_EXPR \<Rightarrow> Inl (RuntimeError ''Unsupported BoolExpr type''))"
| "BindExpression node scopes = Inl (RuntimeError (''Unsupported expression node type: '' @ int_to_string (int (node_tag node))))"
| "BindOperand None scopes = Inr None"
| "BindOperand (Some node) scopes = BindExpression node scopes"
| "BindChain g e [] scopes = Inr e"
| "BindChain g e (a # as) scopes =
     rbind (BindExpression a scopes) (\<lambda>right. BindChain g (Some (LogicExpression (child e) (child right) g)) as scopes)"

section \<open>Statements\<close>

text \<open>The table of a name, or the exception.\<close>

definition find_table :: "catalog \<Rightarrow> string \<Rightarrow> table_info res" where
  "find_table c name =
     rbind (GetTable_name c name) (\<lambda>info.
       case info of None \<Rightarrow> Inl (RuntimeError (''Table not found: '' @ name)) | Some ti \<Rightarrow> Inr ti)"

definition CountSchema :: schema where
  "CountSchema = Schema [Column ''count'' T_INTEGER 0]"

definition CommandSchema :: schema where
  "CommandSchema = Schema [Column ''command_tag'' T_VARCHAR 0]"

definition ShowTablesSchema :: schema where
  "ShowTablesSchema = Schema [Column ''table_name'' T_VARCHAR 0]"

definition ShowIndexesSchema :: schema where
  "ShowIndexesSchema =
     Schema [Column ''index_name'' T_VARCHAR 0, Column ''table_name'' T_VARCHAR 0, Column ''columns'' T_VARCHAR 0]"

definition ShowSchemaSchema :: schema where
  "ShowSchemaSchema = Schema [Column ''column_name'' T_VARCHAR 0, Column ''column_type'' T_VARCHAR 0]"

definition CollectAllColumns :: "table_scope list \<Rightarrow> schema" where
  "CollectAllColumns scopes = Schema (concat (map (\<lambda>sc. columns (ti_schema (sc_info sc))) scopes))"

definition GetFuncName :: "pg_node list \<Rightarrow> string res" where
  "GetFuncName funcname = rbind (rbind (list_last funcname) strVal) (\<lambda>s. Inr (LowerCopy s))"

definition scan_of :: "table_info \<Rightarrow> expr option \<Rightarrow> plan" where
  "scan_of ti p = SeqScanPlanNode (ti_schema ti) (ti_oid ti) p"

definition index_attr :: "table_info \<Rightarrow> string option \<times> bool \<Rightarrow> nat res" where
  "index_attr ti = (\<lambda>(name, has_expr).
     case name of
       None \<Rightarrow> Inl (RuntimeError ''Only column-based CREATE INDEX is supported'')
     | Some n \<Rightarrow>
         if has_expr then Inl (RuntimeError ''Only column-based CREATE INDEX is supported'')
         else let i = GetColumnIdx (ti_schema ti) n
              in if i = UINT32_MAX then Inl (RuntimeError (''Column not found: '' @ n)) else Inr i)"

definition BindIndexStmt :: "catalog \<Rightarrow> string option \<Rightarrow> string option \<Rightarrow> (string option \<times> bool) list \<Rightarrow> plan res" where
  "BindIndexStmt c idxname relation elems =
     (case (relation, idxname) of
        (Some t, Some i) \<Rightarrow>
          rbind (find_table c t) (\<lambda>ti.
          rbind (rmap (index_attr ti) elems) (\<lambda>key_attrs.
            Inr (UtilityPlanNode CommandSchema CREATE_INDEX t i key_attrs [] False)))
      | _ \<Rightarrow> Inl (RuntimeError ''Invalid CREATE INDEX statement''))"

definition BindDropStmt :: "pg_node list \<Rightarrow> bool \<Rightarrow> plan" where
  "BindDropStmt objects missing_ok =
     UtilityPlanNode CommandSchema DROP_INDEX [] [] [] (filter (\<lambda>n. n \<noteq> []) (map NodeToQualifiedName objects)) missing_ok"

text \<open>\<open>None\<close>: no case of the statement applies.\<close>

definition BindShowStmt :: "catalog \<Rightarrow> string option \<Rightarrow> string option \<Rightarrow> plan option res" where
  "BindShowStmt c set_of relation =
     (let show_tables = UtilityPlanNode ShowTablesSchema SHOW_TABLES [] [] [] [] False
      in if set_of \<noteq> None \<and> LowerCopy (the set_of) \<in> {''__show_tables_expanded'', ''__show_tables_from_database''}
         then Inr (Some show_tables)
         else case relation of
                None \<Rightarrow> Inr None
              | Some name \<Rightarrow>
                  if LowerCopy name = ''tables'' then Inr (Some show_tables)
                  else if LowerCopy name = ''index'' \<or> LowerCopy name = ''indexes''
                  then Inr (Some (UtilityPlanNode ShowIndexesSchema SHOW_INDEXES [] [] [] [] False))
                  else rbind (GetTable_name c name) (\<lambda>info.
                         Inr (if info = None then None
                              else Some (UtilityPlanNode ShowSchemaSchema SHOW_SCHEMA name [] [] [] False))))"

section \<open>SELECT\<close>

definition null_plan :: "'a res" where
  "null_plan = Inl (UndefinedBehaviour ''null plan dereferenced'')"

text \<open>A table of a join, which is taken to be a range variable.\<close>

fun range_scope :: "catalog \<Rightarrow> pg_node \<Rightarrow> nat \<Rightarrow> table_scope res" where
  "range_scope c (PGRangeVar relname alias) i =
     rbind (find_table c relname) (\<lambda>ti.
       Inr \<lparr>sc_alias = (case alias of None \<Rightarrow> relname | Some a \<Rightarrow> a), sc_info = ti, sc_tuple_idx = i\<rparr>)"
| "range_scope c _ i = bad_cast"

text \<open>The loop over \<^verbatim>\<open>FROM\<close> has the scopes, the scans of single tables and the plan of a join; other nodes are skipped.\<close>

type_synonym from_state = "table_scope list \<times> plan list \<times> plan option"

definition bind_from_item :: "catalog \<Rightarrow> pg_node \<Rightarrow> from_state \<Rightarrow> from_state res" where
  "bind_from_item c node = (\<lambda>(scopes, from_plans, base).
     case node of
       PGRangeVar relname alias \<Rightarrow>
         rbind (range_scope c node (length scopes)) (\<lambda>sc.
           Inr (scopes @ [sc], from_plans @ [scan_of (sc_info sc) None], base))
     | PGJoinExpr larg rarg quals \<Rightarrow>
         rbind (range_scope c larg 0) (\<lambda>l.
         rbind (range_scope c rarg 1) (\<lambda>r.
           let scopes' = scopes @ [l, r]
           in rbind (BindOperand quals scopes') (\<lambda>p.
                Inr (scopes', [], Some (NestedLoopJoinPlanNode (CollectAllColumns scopes')
                  (scan_of (sc_info l) None) (scan_of (sc_info r) None) p)))))
     | _ \<Rightarrow> Inr (scopes, from_plans, base))"

definition bind_from :: "catalog \<Rightarrow> pg_node list \<Rightarrow> (table_scope list \<times> plan option) res" where
  "bind_from c from =
     (if from = [] then Inl (RuntimeError ''SELECT without FROM not supported'')
      else rbind (rfold (bind_from_item c) from ([], [], None)) (\<lambda>(scopes, from_plans, base).
        Inr (scopes, if from_plans \<noteq> [] then Some (hd from_plans) else base)))"

definition bind_where :: "pg_node option \<Rightarrow> table_scope list \<Rightarrow> plan option \<Rightarrow> plan option res" where
  "bind_where clause scopes base =
     (case clause of
        None \<Rightarrow> Inr base
      | Some w \<Rightarrow>
          rbind (BindExpression w scopes) (\<lambda>p.
            case base of
              None \<Rightarrow> null_plan
            | Some (SeqScanPlanNode s oid q) \<Rightarrow> rbind (list_first scopes) (\<lambda>sc. Inr (Some (scan_of (sc_info sc) p)))
            | Some (NestedLoopJoinPlanNode s l r q) \<Rightarrow>
                Inr (Some (NestedLoopJoinPlanNode s l r
                  (case q of None \<Rightarrow> p | Some j \<Rightarrow> Some (LogicExpression j (child p) And))))
            | Some pl \<Rightarrow> Inr (Some pl)))"

text \<open>The loop over the target list. There are aggregates exactly when one has been collected.\<close>

record target_state =
  is_star :: bool
  agg_calls :: "(aggregation_type \<times> expr option) list"
  output_exprs :: "expr option list"
  output_names :: "string list"

definition aggregate_names :: "string list" where
  "aggregate_names = [''count'', ''sum'', ''min'', ''max'']"

definition bind_aggregate :: "string \<Rightarrow> pg_node list \<Rightarrow> bool \<Rightarrow> table_scope list \<Rightarrow> (aggregation_type \<times> expr option) res" where
  "bind_aggregate fname args agg_star scopes =
     (let is_count_star = agg_star \<or> fname = ''count'' \<and> args \<noteq> [] \<and> hd args = PGAStar
      in if fname = ''count'' \<and> is_count_star then Inr (CountStarAggregate, Some (ColumnValueExpression 0 0 T_INTEGER))
         else rbind (list_first args) (\<lambda>a. rbind (BindExpression a scopes) (\<lambda>e.
                Inr (if fname = ''count'' then CountAggregate else if fname = ''sum'' then SumAggregate
                     else if fname = ''min'' then MinAggregate else MaxAggregate, e))))"

definition output_name :: "string option \<Rightarrow> pg_node \<Rightarrow> nat \<Rightarrow> string res" where
  "output_name name val_node n =
     (case name of
        Some s \<Rightarrow> Inr s
      | None \<Rightarrow>
          (case val_node of
             PGColumnRef names \<Rightarrow> rbind (list_last names) (\<lambda>t. Inr (NodeToQualifiedName t))
           | _ \<Rightarrow> Inr (''col_'' @ digits n)))"

definition bind_output :: "string option \<Rightarrow> pg_node \<Rightarrow> table_scope list \<Rightarrow> target_state \<Rightarrow> target_state res" where
  "bind_output name val_node scopes st =
     rbind (BindExpression val_node scopes) (\<lambda>e.
     rbind (output_name name val_node (length (output_names st))) (\<lambda>n.
       Inr (st\<lparr>output_exprs := output_exprs st @ [e], output_names := output_names st @ [n]\<rparr>)))"

definition bind_target :: "table_scope list \<Rightarrow> pg_target \<Rightarrow> target_state \<Rightarrow> target_state res" where
  "bind_target scopes t st =
     (case rt_val t of
        None \<Rightarrow> Inr st
      | Some PGAStar \<Rightarrow> Inr (st\<lparr>is_star := True\<rparr>)
      | Some (PGColumnRef names) \<Rightarrow>
          rbind (list_first names) (\<lambda>f.
            if f = PGAStar then Inr (st\<lparr>is_star := True\<rparr>) else bind_output (rt_name t) (PGColumnRef names) scopes st)
      | Some (PGFuncCall funcname args agg_star) \<Rightarrow>
          rbind (GetFuncName funcname) (\<lambda>fname.
            if fname \<in> set aggregate_names
            then rbind (bind_aggregate fname args agg_star scopes) (\<lambda>a. Inr (st\<lparr>agg_calls := agg_calls st @ [a]\<rparr>))
            else bind_output (rt_name t) (PGFuncCall funcname args agg_star) scopes st)
      | Some val_node \<Rightarrow> bind_output (rt_name t) val_node scopes st)"

definition bind_aggregation :: "pg_node list \<Rightarrow> table_scope list \<Rightarrow> target_state \<Rightarrow> plan option \<Rightarrow> plan option res" where
  "bind_aggregation groups scopes st base =
     (if agg_calls st = [] then Inr base
      else rbind (rmap (\<lambda>g. BindExpression g scopes) groups) (\<lambda>gs.
        case base of
          None \<Rightarrow> null_plan
        | Some p \<Rightarrow>
            Inr (Some (AggregationPlanNode
              (Schema (map (\<lambda>i. Column (''group_'' @ digits i) T_INTEGER 0) [0..<length gs] @
                       map (\<lambda>i. Column (''agg_'' @ digits i) T_INTEGER 0) [0..<length (agg_calls st)]))
              p (map child gs) (map (\<lambda>a. child (snd a)) (agg_calls st)) (map fst (agg_calls st))))))"

definition bind_sort :: "(pg_node \<times> bool) list \<Rightarrow> table_scope list \<Rightarrow> plan option \<Rightarrow> plan option res" where
  "bind_sort clause scopes base =
     (if clause = [] then Inr base
      else rbind (rmap (\<lambda>(node, desc). rbind (BindExpression node scopes) (\<lambda>e. Inr (\<not> desc, child e))) clause) (\<lambda>order_bys.
        case base of None \<Rightarrow> null_plan | Some p \<Rightarrow> Inr (Some (SortPlanNode (GetOutputSchema p) p order_bys))))"

definition bind_limit :: "pg_node option \<Rightarrow> plan option \<Rightarrow> plan option res" where
  "bind_limit clause base =
     (case clause of
        None \<Rightarrow> Inr base
      | Some (PGAConst (PGInteger n)) \<Rightarrow>
          (case base of None \<Rightarrow> null_plan | Some p \<Rightarrow> Inr (Some (LimitPlanNode (GetOutputSchema p) p (unat n))))
      | _ \<Rightarrow> bad_cast)"

definition output_column :: "bool \<Rightarrow> string \<times> expr option \<Rightarrow> column res" where
  "output_column moved_first = (\<lambda>(name, e).
     case e of
       None \<Rightarrow> Inl (UndefinedBehaviour ''null expression dereferenced'')
     | Some x \<Rightarrow> Inr (Column name (GetReturnType moved_first x) 0))"

definition bind_projection :: "bool \<Rightarrow> target_state \<Rightarrow> plan option \<Rightarrow> plan option res" where
  "bind_projection moved_first st base =
     (if is_star st \<or> agg_calls st \<noteq> [] \<or> output_exprs st = [] then Inr base
      else rbind (rmap (output_column moved_first) (zip (output_names st) (output_exprs st))) (\<lambda>cols.
        case base of
          None \<Rightarrow> null_plan
        | Some p \<Rightarrow> Inr (Some (ProjectionPlanNode (Schema cols) p (map child (output_exprs st))))))"

definition BindSelectStmt :: "bool \<Rightarrow> catalog \<Rightarrow> pg_select \<Rightarrow> plan res" where
  "BindSelectStmt moved_first c s =
     rbind (bind_from c (fromClause s)) (\<lambda>(scopes, base).
     rbind (bind_where (whereClause s) scopes base) (\<lambda>base1.
     rbind (rfold (bind_target scopes) (targetList s) \<lparr>is_star = False, agg_calls = [], output_exprs = [], output_names = []\<rparr>) (\<lambda>st.
     rbind (bind_aggregation (groupClause s) scopes st base1) (\<lambda>base2.
     rbind (bind_sort (sortClause s) scopes base2) (\<lambda>base3.
     rbind (bind_limit (limitCount s) base3) (\<lambda>base4.
     rbind (bind_projection moved_first st base4) (\<lambda>base5.
       case base5 of None \<Rightarrow> null_plan | Some p \<Rightarrow> Inr p)))))))"

section \<open>Modifications and queries\<close>

definition bind_source :: "catalog \<Rightarrow> pg_node option \<Rightarrow> pg_node \<Rightarrow> table_scope list \<times> plan option \<Rightarrow> (table_scope list \<times> plan option) res" where
  "bind_source c clause node = (\<lambda>(scopes, sub_plan).
     case node of
       PGRangeVar relname alias \<Rightarrow>
         rbind (find_table c relname) (\<lambda>ti.
           let scopes' = scopes @ [\<lparr>sc_alias = relname, sc_info = ti, sc_tuple_idx = 0\<rparr>]
           in rbind (BindOperand clause scopes') (\<lambda>p. Inr (scopes', Some (scan_of ti p))))
     | _ \<Rightarrow> Inr (scopes, sub_plan))"

definition BindInsertStmt :: "catalog \<Rightarrow> string \<Rightarrow> pg_select option \<Rightarrow> plan res" where
  "BindInsertStmt c relname select =
     rbind (find_table c relname) (\<lambda>info.
       case select of
         None \<Rightarrow> null_node
       | Some sub \<Rightarrow>
           rbind (if fromClause sub \<noteq> [] then rfold (bind_source c (whereClause sub)) (fromClause sub) ([], None)
                  else if valuesLists sub then Inl (RuntimeError ''INSERT ... VALUES not supported yet'')
                  else Inr ([], None)) (\<lambda>(_, sub_plan).
             case sub_plan of None \<Rightarrow> null_plan | Some p \<Rightarrow> Inr (InsertPlanNode CountSchema p (ti_oid info))))"

definition own_scope :: "string \<Rightarrow> table_info \<Rightarrow> table_scope list" where
  "own_scope relname info = [\<lparr>sc_alias = relname, sc_info = info, sc_tuple_idx = 0\<rparr>]"

definition BindDeleteStmt :: "catalog \<Rightarrow> string \<Rightarrow> pg_node option \<Rightarrow> plan res" where
  "BindDeleteStmt c relname clause =
     rbind (find_table c relname) (\<lambda>info.
     rbind (BindOperand clause (own_scope relname info)) (\<lambda>p.
       Inr (DeletePlanNode CountSchema (scan_of info p) (ti_oid info))))"

definition bind_set :: "table_scope list \<Rightarrow> pg_target \<Rightarrow> (string, expr option) umap \<Rightarrow> (string, expr option) umap res" where
  "bind_set scopes t set_exprs =
     (case rt_name t of
        None \<Rightarrow> null_node
      | Some col \<Rightarrow> rbind (BindOperand (rt_val t) scopes) (\<lambda>e. Inr (AList.update col e set_exprs)))"

definition update_exprs :: "schema \<Rightarrow> (string, expr option) umap \<Rightarrow> expr list" where
  "update_exprs s set_exprs =
     map (\<lambda>i. let col = columns s ! i
              in case map_of set_exprs (c_name col) of
                   Some e \<Rightarrow> child e
                 | None \<Rightarrow> ColumnValueExpression 0 i (c_type col)) [0..<length (columns s)]"

definition BindUpdateStmt :: "catalog \<Rightarrow> string \<Rightarrow> pg_target list \<Rightarrow> pg_node option \<Rightarrow> plan res" where
  "BindUpdateStmt c relname targets clause =
     rbind (find_table c relname) (\<lambda>info.
     rbind (rfold (bind_set (own_scope relname info)) targets []) (\<lambda>set_exprs.
     rbind (BindOperand clause (own_scope relname info)) (\<lambda>p.
       Inr (UpdatePlanNode CountSchema (scan_of info p) (ti_oid info) (update_exprs (ti_schema info) set_exprs)))))"

definition unsupported :: "pg_stmt \<Rightarrow> 'a res" where
  "unsupported stmt = Inl (RuntimeError (''Unsupported statement type: '' @ int_to_string (int (stmt_tag stmt))))"

definition BindStmt :: "bool \<Rightarrow> catalog \<Rightarrow> pg_stmt \<Rightarrow> plan res" where
  "BindStmt moved_first c stmt =
     (case stmt of
        PGIndexStmt idxname relation elems \<Rightarrow> BindIndexStmt c idxname relation elems
      | PGDropStmt is_index objects missing_ok \<Rightarrow> if is_index then Inr (BindDropStmt objects missing_ok) else unsupported stmt
      | PGVariableShowStmt set_of relation \<Rightarrow>
          rbind (BindShowStmt c set_of relation) (\<lambda>p. case p of None \<Rightarrow> unsupported stmt | Some q \<Rightarrow> Inr q)
      | PGSelectStmt s \<Rightarrow> BindSelectStmt moved_first c s
      | PGInsertStmt relname s \<Rightarrow> BindInsertStmt c relname s
      | PGDeleteStmt relname clause \<Rightarrow> BindDeleteStmt c relname clause
      | PGUpdateStmt relname targets clause \<Rightarrow> BindUpdateStmt c relname targets clause
      | PGOtherStmt t \<Rightarrow> unsupported stmt)"

text \<open>The parser gives an error message or the list of statements; the binder takes the first one.\<close>

record query_binder =
  moved_first :: bool
  parse :: "string \<Rightarrow> string + pg_stmt list"

definition BindQuery :: "query_binder \<Rightarrow> catalog \<Rightarrow> string \<Rightarrow> plan res" where
  "BindQuery B c sql =
     (case parse B sql of
        Inl msg \<Rightarrow> Inl (RuntimeError (''Parse error: '' @ msg))
      | Inr [] \<Rightarrow> Inl (RuntimeError ''Empty parse tree'')
      | Inr (stmt # _) \<Rightarrow> BindStmt (moved_first B) c stmt)"

section \<open>What an expression means\<close>

text \<open>The operators on values, by their names.\<close>

definition apply_operator :: "string \<Rightarrow> val \<Rightarrow> val \<Rightarrow> val res" where
  "apply_operator op a b =
     (if op = ''='' then CompareEquals a b else if op \<in> {''<>'', ''!=''} then CompareNotEquals a b
      else if op = ''<'' then CompareLessThan a b else if op = ''<='' then CompareLessThanOrEqual a b
      else if op = ''>'' then CompareGreaterThan a b else if op = ''>='' then CompareGreaterThanOrEqual a b
      else if op = ''+'' then Value_Add a b else if op = ''-'' then Value_Subtract a b
      else if op = ''*'' then Value_Multiply a b else if op = ''/'' then Value_Divide a b
      else if op = ''%'' then Value_Modulo a b else null_expression)"

definition operators :: "string list" where
  "operators = [''='', ''<>'', ''!='', ''<'', ''<='', ''>'', ''>='', ''+'', ''-'', ''*'', ''/'', ''%'']"

definition operator_name :: "pg_node list \<Rightarrow> string" where
  "operator_name name = (case name of PGString op # _ \<Rightarrow> op | _ \<Rightarrow> [])"

definition constant_of :: "pg_value \<Rightarrow> val res" where
  "constant_of v =
     (case v of
        PGInteger i \<Rightarrow> Inr (SQL_int (ucast i))
      | PGFloat s \<Rightarrow> rbind (std_stof s) (\<lambda>f. Inr (Value_float T_FLOAT f))
      | PGStringValue s \<Rightarrow> Inr (Value_string T_VARCHAR s)
      | PGOtherValue \<Rightarrow> null_expression)"

subsection \<open>The reference\<close>

text \<open>
  The meaning of a condition in SQL, over the values \<open>col\<close> of its names. An operator node means what its kind says: two
  values are distinct if one of them alone is NULL or if they differ, and \<^verbatim>\<open>NULLIF\<close> is NULL for equal values; the other
  kinds have no meaning here. The operators themselves are those of the values.
\<close>

definition is_distinct :: "val \<Rightarrow> val \<Rightarrow> bool res" where
  "is_distinct a b =
     (if v_null a \<or> v_null b then Inr (v_null a \<noteq> v_null b) else rbind (CompareNotEquals a b) GetAsBoolean)"

fun kind_operator :: "aexpr_kind \<Rightarrow> string \<Rightarrow> val \<Rightarrow> val \<Rightarrow> val res" where
  "kind_operator PG_AEXPR_OP op a b = apply_operator op a b"
| "kind_operator PG_AEXPR_DISTINCT op a b = rbind (is_distinct a b) (\<lambda>d. Inr (SQL_bool d))"
| "kind_operator PG_AEXPR_NOT_DISTINCT op a b = rbind (is_distinct a b) (\<lambda>d. Inr (SQL_bool (\<not> d)))"
| "kind_operator PG_AEXPR_NULLIF op a b =
     rbind (is_distinct a b) (\<lambda>d. Inr (if d then a else Value_typed (v_type a)))"
| "kind_operator _ op a b = null_expression"

fun sql_value :: "(string \<Rightarrow> string \<Rightarrow> val res) \<Rightarrow> pg_node \<Rightarrow> val res"
  and sql_operand :: "(string \<Rightarrow> string \<Rightarrow> val res) \<Rightarrow> pg_node option \<Rightarrow> val res"
  and sql_chain :: "(string \<Rightarrow> string \<Rightarrow> val res) \<Rightarrow> (val \<Rightarrow> val \<Rightarrow> val res) \<Rightarrow> val res \<Rightarrow> pg_node list \<Rightarrow> val res"
where
  "sql_value col (PGColumnRef names) = (case column_name names of Inr (Some (q, n)) \<Rightarrow> col q n | _ \<Rightarrow> null_expression)"
| "sql_value col (PGAConst v) = constant_of v"
| "sql_value col (PGAExpr kind name l r) =
     rbind (sql_operand col l) (\<lambda>a. rbind (sql_operand col r) (\<lambda>b. kind_operator kind (operator_name name) a b))"
| "sql_value col (PGBoolExpr t args) =
     (case args of
        [] \<Rightarrow> null_expression
      | a # as \<Rightarrow>
          (case t of
             PG_AND_EXPR \<Rightarrow> sql_chain col Value_And (sql_value col a) as
           | PG_OR_EXPR \<Rightarrow> sql_chain col Value_Or (sql_value col a) as
           | PG_NOT_EXPR \<Rightarrow> rbind (sql_value col a) Value_Not))"
| "sql_value col _ = null_expression"
| "sql_operand col None = null_expression"
| "sql_operand col (Some node) = sql_value col node"
| "sql_chain col f r [] = r"
| "sql_chain col f r (a # as) = sql_chain col f (rbind r (\<lambda>x. rbind (sql_value col a) (\<lambda>y. f x y))) as"

text \<open>
  A name denotes a column of a row if it fits exactly one column of one table: \<open>candidates\<close> are the positions of the tables in
  \<^verbatim>\<open>FROM\<close> with the positions of the columns in them, \<open>rows\<close> has one row for each table.
\<close>

definition candidates :: "table_scope list \<Rightarrow> string \<Rightarrow> string \<Rightarrow> (nat \<times> nat) list" where
  "candidates scopes q n =
     [(k, i). (k, sc) \<leftarrow> List.enumerate 0 scopes, q = [] \<or> q = sc_alias sc,
              (i, c) \<leftarrow> List.enumerate 0 (columns (ti_schema (sc_info sc))), c_name c = n]"

definition denoted :: "table_scope list \<Rightarrow> (tuple \<times> schema) list \<Rightarrow> string \<Rightarrow> string \<Rightarrow> val res" where
  "denoted scopes rows q n =
     (case candidates scopes q n of [(k, i)] \<Rightarrow> column_value (Some (rows ! k)) i | _ \<Rightarrow> null_expression)"

text \<open>The names in a condition, whether they are all unambiguous, and whether all operator nodes are operators.\<close>

fun names_in :: "pg_node \<Rightarrow> (string \<times> string) list" where
  "names_in (PGColumnRef names) = (case column_name names of Inr (Some x) \<Rightarrow> [x] | _ \<Rightarrow> [])"
| "names_in (PGAExpr kind name l r) =
     (case l of None \<Rightarrow> [] | Some x \<Rightarrow> names_in x) @ (case r of None \<Rightarrow> [] | Some x \<Rightarrow> names_in x)"
| "names_in (PGBoolExpr t args) = concat (map names_in args)"
| "names_in _ = []"

definition unambiguous :: "table_scope list \<Rightarrow> pg_node \<Rightarrow> bool" where
  "unambiguous scopes node \<longleftrightarrow> (\<forall>(q, n) \<in> set (names_in node). length (candidates scopes q n) \<le> 1)"

fun plain_operators :: "pg_node \<Rightarrow> bool" where
  "plain_operators (PGAExpr kind name l r) \<longleftrightarrow> kind = PG_AEXPR_OP \<and>
     (case l of None \<Rightarrow> True | Some x \<Rightarrow> plain_operators x) \<and> (case r of None \<Rightarrow> True | Some x \<Rightarrow> plain_operators x)"
| "plain_operators (PGBoolExpr t args) \<longleftrightarrow> list_all plain_operators args"
| "plain_operators _ \<longleftrightarrow> True"

text \<open>The conditions that must be accepted: their names are known, their operators are supported and their constants have values.\<close>

fun bindable :: "table_scope list \<Rightarrow> pg_node \<Rightarrow> bool" where
  "bindable scopes (PGColumnRef names) \<longleftrightarrow> (case column_name names of Inr (Some (q, n)) \<Rightarrow> candidates scopes q n \<noteq> [] | _ \<Rightarrow> False)"
| "bindable scopes (PGAConst v) \<longleftrightarrow> (case constant_of v of Inr _ \<Rightarrow> True | Inl _ \<Rightarrow> False)"
| "bindable scopes (PGAExpr kind name l r) \<longleftrightarrow> operator_name name \<in> set operators \<and>
     (case l of None \<Rightarrow> False | Some x \<Rightarrow> bindable scopes x) \<and> (case r of None \<Rightarrow> False | Some x \<Rightarrow> bindable scopes x)"
| "bindable scopes (PGBoolExpr t args) \<longleftrightarrow> t \<noteq> PG_NOT_EXPR \<and> args \<noteq> [] \<and> list_all (bindable scopes) args"
| "bindable scopes _ \<longleftrightarrow> False"

subsection \<open>What the binder reads\<close>

text \<open>
  The value of a condition as the binder reads its tree: an operator node is the operator of its name, whatever its kind, and the
  values of the names are \<open>col\<close>. On the trees of operators this is the reference.
\<close>

fun read_value :: "(string \<Rightarrow> string \<Rightarrow> val res) \<Rightarrow> pg_node \<Rightarrow> val res"
  and read_operand :: "(string \<Rightarrow> string \<Rightarrow> val res) \<Rightarrow> pg_node option \<Rightarrow> val res"
  and read_chain :: "(string \<Rightarrow> string \<Rightarrow> val res) \<Rightarrow> (val \<Rightarrow> val \<Rightarrow> val res) \<Rightarrow> val res \<Rightarrow> pg_node list \<Rightarrow> val res"
where
  "read_value col (PGColumnRef names) = (case column_name names of Inr (Some (q, n)) \<Rightarrow> col q n | _ \<Rightarrow> null_expression)"
| "read_value col (PGAConst v) = constant_of v"
| "read_value col (PGAExpr kind name l r) =
     rbind (read_operand col l) (\<lambda>a. rbind (read_operand col r) (\<lambda>b. apply_operator (operator_name name) a b))"
| "read_value col (PGBoolExpr t args) =
     (case args of
        [] \<Rightarrow> null_expression
      | a # as \<Rightarrow>
          (case t of
             PG_AND_EXPR \<Rightarrow> read_chain col Value_And (read_value col a) as
           | PG_OR_EXPR \<Rightarrow> read_chain col Value_Or (read_value col a) as
           | PG_NOT_EXPR \<Rightarrow> null_expression))"
| "read_value col _ = null_expression"
| "read_operand col None = null_expression"
| "read_operand col (Some node) = read_value col node"
| "read_chain col f r [] = r"
| "read_chain col f r (a # as) = read_chain col f (rbind r (\<lambda>x. rbind (read_value col a) (\<lambda>y. f x y))) as"

text \<open>The columns that a list of scopes offers, in order; a name means the first that fits.\<close>

definition scope_columns :: "table_scope list \<Rightarrow> (string \<times> string \<times> nat \<times> nat \<times> type_id) list" where
  "scope_columns scopes =
     concat (map (\<lambda>sc. map (\<lambda>(i, c). (sc_alias sc, c_name c, sc_tuple_idx sc, i, c_type c))
       (List.enumerate 0 (columns (ti_schema (sc_info sc))))) scopes)"

definition fits :: "string \<Rightarrow> string \<Rightarrow> string \<times> string \<times> nat \<times> nat \<times> type_id \<Rightarrow> bool" where
  "fits q n = (\<lambda>(a, m, r). (q = [] \<or> q = a) \<and> m = n)"

definition meant :: "table_scope list \<Rightarrow> string \<Rightarrow> string \<Rightarrow> (nat \<times> nat \<times> type_id) option" where
  "meant scopes q n =
     map_option (\<lambda>(a, m, r). r) (find (fits q n) (scope_columns scopes))"

definition named :: "(nat \<Rightarrow> nat \<Rightarrow> val res) \<Rightarrow> table_scope list \<Rightarrow> string \<Rightarrow> string \<Rightarrow> val res" where
  "named get scopes q n = (case meant scopes q n of None \<Rightarrow> null_expression | Some (ti, ci, t) \<Rightarrow> get ti ci)"

lemma find_append: "find P (xs @ ys) = (case find P xs of None \<Rightarrow> find P ys | Some x \<Rightarrow> Some x)"
  by (induction xs) simp_all

lemma find_column_found:
  "find_column n k cs =
     map_option (\<lambda>(a, m, ti, i, t). (i, t))
       (find (fits q n) (map (\<lambda>(i, c). (al, c_name c, ti, i, c_type c)) (List.enumerate k cs)))"
  if "q = [] \<or> q = al"
  using that by (induction cs arbitrary: k) (auto simp: fits_def)

lemma find_other: "\<not> (q = [] \<or> q = al) \<Longrightarrow>
    find (fits q n) (map (\<lambda>(i, c). (al, c_name c, ti, i, c_type c)) cs) = None"
  by (auto simp: find_None_iff fits_def)

lemma ResolveColumn_meant:
  "ResolveColumn n q scopes =
     (case meant scopes q n of
        None \<Rightarrow> Inl (RuntimeError (''Column not found: '' @ (if q = [] then n else q @ ''.'' @ n)))
      | Some r \<Rightarrow> Inr r)"
proof (induction scopes)
  case Nil
  show ?case by (simp add: meant_def scope_columns_def)
next
  case (Cons sc scs)
  let ?own = "map (\<lambda>(i, c). (sc_alias sc, c_name c, sc_tuple_idx sc, i, c_type c)) (List.enumerate 0 (columns (ti_schema (sc_info sc))))"
  have cols: "scope_columns (sc # scs) = ?own @ scope_columns scs" by (simp add: scope_columns_def)
  show ?case
  proof (cases "q = [] \<or> q = sc_alias sc")
    case False
    then show ?thesis using Cons by (simp add: meant_def cols find_append find_other)
  next
    case True
    let ?f = "find (fits q n) ?own"
    have idx: "fst (snd (snd x)) = sc_tuple_idx sc" if "?f = Some x" for x
      using that by (auto simp: find_Some_iff nth_enumerate_eq)
    note f = find_column_found [OF True, of n 0 "columns (ti_schema (sc_info sc))" "sc_tuple_idx sc"]
    show ?thesis
    proof (cases ?f)
      case None
      then show ?thesis using True Cons f by (auto simp: meant_def cols find_append)
    next
      case (Some x)
      then show ?thesis using True f idx [OF Some] by (cases x) (auto simp: meant_def cols find_append)
    qed
  qed
qed

lemma operator_expression_value:
  assumes "operator_expression op l r = Inr e"
  shows "eval_with get e = rbind (eval_with get l) (\<lambda>a. rbind (eval_with get r) (\<lambda>b. apply_operator op a b))"
  using assms
  by (simp add: operator_expression_def split: if_splits)
    (auto simp: apply_operator_def PerformComparison_def PerformComputation_def cong: rbind_cong)

lemma BindConstant_value: "BindConstant v = Inr r \<Longrightarrow> eval_with get (child r) = constant_of v"
  by (cases v) (auto simp: BindConstant_def constant_of_def child_def)

lemma BindColumnRef_value:
  assumes "BindColumnRef names scopes = Inr r"
  shows "eval_with get (child r) = read_value (named get scopes) (PGColumnRef names)"
proof (cases "column_name names")
  case (Inr x)
  then show ?thesis using assms
    by (cases x) (auto simp: BindColumnRef_def child_def named_def ResolveColumn_meant split: option.splits)
qed (use assms in \<open>simp add: BindColumnRef_def\<close>)

lemma bound_value:
  "\<forall>r. BindExpression node scopes = Inr r \<longrightarrow> eval_with get (child r) = read_value (named get scopes) node"
  "\<forall>r. BindOperand operand scopes = Inr r \<longrightarrow> eval_with get (child r) = read_operand (named get scopes) operand"
  "\<forall>r. BindChain g e as scopes = Inr r \<longrightarrow>
     eval_with get (child r) = read_chain (named get scopes) (PerformLogic g) (eval_with get (child e)) as"
proof (induction node scopes and operand scopes and g e as scopes rule: BindExpression_BindOperand_BindChain.induct)
  case (1 names scopes)
  then show ?case using BindColumnRef_value [of names scopes] by simp
next
  case (2 v scopes)
  then show ?case using BindConstant_value by simp
next
  case (3 kind name l r scopes)
  show ?case
  proof (intro allI impI)
    fix e assume "BindExpression (PGAExpr kind name l r) scopes = Inr e"
    then obtain left right n x where b: "BindOperand l scopes = Inr left" "BindOperand r scopes = Inr right" "list_first name = Inr n"
      "strVal n = Inr x" "operator_expression x (child left) (child right) = Inr (child e)" by (auto simp: child_def)
    have "operator_name name = x"
      using b(3,4) by (cases n rule: strVal.cases) (auto simp: operator_name_def list_first_def bad_cast_def null_node_def split: list.splits)
    then show "eval_with get (child e) = read_value (named get scopes) (PGAExpr kind name l r)"
      using operator_expression_value [OF b(5), of get] 3 b(1,2) by simp
  qed
next
  case (4 t args scopes)
  have logic: "PerformLogic And = Value_And" "PerformLogic Or = Value_Or" by (simp_all add: PerformLogic_def fun_eq_iff)
  show ?case using 4 by (auto simp: logic null_node_def split: list.splits bool_expr_type.splits)
qed (auto simp: child_def)

text \<open>The columns that an expression reads, with their types.\<close>

primrec columns_read :: "expr \<Rightarrow> (nat \<times> nat \<times> type_id) list" where
  "columns_read (ColumnValueExpression ti ci t) = [(ti, ci, t)]"
| "columns_read (ConstantValueExpression v) = []"
| "columns_read (ComparisonExpression l r c) = columns_read l @ columns_read r"
| "columns_read (ArithmeticExpression l r a) = columns_read l @ columns_read r"
| "columns_read (LogicExpression l r g) = columns_read l @ columns_read r"
| "columns_read NullExpression = []"

abbreviation offered :: "table_scope list \<Rightarrow> (nat \<times> nat \<times> type_id) set" where
  "offered scopes \<equiv> (\<lambda>x. snd (snd x)) ` set (scope_columns scopes)"

lemma meant_offered: "meant scopes q n = Some x \<Longrightarrow> x \<in> offered scopes"
proof -
  assume "meant scopes q n = Some x"
  then obtain y where y: "find (fits q n) (scope_columns scopes) = Some y" "x = snd (snd y)" by (auto simp: meant_def)
  then have "y \<in> set (scope_columns scopes)" by (auto simp: find_Some_iff)
  then show ?thesis using y(2) by blast
qed

lemma BindColumnRef_columns:
  assumes "BindColumnRef names scopes = Inr r"
  shows "set (columns_read (child r)) \<subseteq> offered scopes"
proof (cases "column_name names")
  case (Inr x)
  then show ?thesis using assms meant_offered [of scopes]
    by (cases x) (auto simp: BindColumnRef_def child_def ResolveColumn_meant split: option.splits)
qed (use assms in \<open>simp add: BindColumnRef_def\<close>)

lemma operator_columns: "operator_expression op l r = Inr e \<Longrightarrow> columns_read e = columns_read l @ columns_read r"
  by (auto simp: operator_expression_def split: if_splits)

lemma child_simps: "child None = NullExpression" "child (Some x) = x"
  by (simp_all add: child_def)

lemma bound_columns:
  "\<forall>r. BindExpression node scopes = Inr r \<longrightarrow> set (columns_read (child r)) \<subseteq> offered scopes"
  "\<forall>r. BindOperand operand scopes = Inr r \<longrightarrow> set (columns_read (child r)) \<subseteq> offered scopes"
  "\<forall>r. BindChain g e as scopes = Inr r \<longrightarrow> set (columns_read (child e)) \<subseteq> offered scopes \<longrightarrow> set (columns_read (child r)) \<subseteq> offered scopes"
proof (induction node scopes and operand scopes and g e as scopes rule: BindExpression_BindOperand_BindChain.induct)
  case (1 names scopes)
  show ?case using BindColumnRef_columns [of names scopes] by simp
next
  case (2 v scopes)
  show ?case by (cases v) (auto simp: BindConstant_def child_def)
next
  case (3 kind name l r scopes)
  then show ?case by (fastforce simp: child_def [of "Some _"] dest!: operator_columns)
next
  case (4 t args scopes)
  show ?case
  proof (intro allI impI)
    fix r assume r: "BindExpression (PGBoolExpr t args) scopes = Inr r"
    then obtain a as where args: "args = a # as" by (cases args; cases t) (auto simp: null_node_def)
    with r obtain g e where g: "BindExpression a scopes = Inr e" "BindChain g e as scopes = Inr r"
      "t = PG_AND_EXPR \<and> g = And \<or> t = PG_OR_EXPR \<and> g = Or" by (cases t) auto
    then have e: "set (columns_read (child e)) \<subseteq> offered scopes" using 4(1,3) args by blast
    show "set (columns_read (child r)) \<subseteq> offered scopes" using g(3)
    proof
      assume "t = PG_AND_EXPR \<and> g = And" then show ?thesis using 4(2) [OF _ args] g(2) e by simp
    next
      assume "t = PG_OR_EXPR \<and> g = Or" then show ?thesis using 4(4) [OF _ args] g(2) e by simp
    qed
  qed
qed (simp_all add: child_simps, blast)

section \<open>The binder and the reference\<close>

text \<open>The tables in \<^verbatim>\<open>FROM\<close> are numbered in their order.\<close>

definition numbered :: "table_scope list \<Rightarrow> bool" where
  "numbered scopes \<longleftrightarrow> (\<forall>k < length scopes. sc_tuple_idx (scopes ! k) = k)"

lemma own_candidates:
  "map (\<lambda>(a, m, ti, i, t). (ti, i)) (filter (fits q n) (map (\<lambda>(i, c). (al, c_name c, ti, i, c_type c)) (List.enumerate j cs))) =
   (if q = [] \<or> q = al then [(ti, i). (i, c) \<leftarrow> List.enumerate j cs, c_name c = n] else [])"
  by (induction cs arbitrary: j) (auto simp: fits_def)

lemma fitting_candidates:
  assumes "\<forall>k < length scs. sc_tuple_idx (scs ! k) = j + k"
  shows "map (\<lambda>(a, m, ti, i, t). (ti, i)) (filter (fits q n) (scope_columns scs)) =
    [(k, i). (k, sc) \<leftarrow> List.enumerate j scs, q = [] \<or> q = sc_alias sc,
             (i, c) \<leftarrow> List.enumerate 0 (columns (ti_schema (sc_info sc))), c_name c = n]"
  using assms
proof (induction scs arbitrary: j)
  case Nil
  then show ?case by (simp add: scope_columns_def)
next
  case (Cons sc scs)
  have idx: "sc_tuple_idx sc = j" using Cons.prems [rule_format, of 0] by simp
  have "\<forall>k < length scs. sc_tuple_idx (scs ! k) = Suc j + k" using Cons.prems by fastforce
  from Cons.IH [OF this] own_candidates [of q n "sc_alias sc" j 0 "columns (ti_schema (sc_info sc))"]
  show ?case by (simp add: scope_columns_def idx)
qed

lemma candidates_fitting:
  "numbered scopes \<Longrightarrow> candidates scopes q n = map (\<lambda>(a, m, ti, i, t). (ti, i)) (filter (fits q n) (scope_columns scopes))"
  unfolding candidates_def by (subst fitting_candidates [where j = 0]) (auto simp: numbered_def)

lemma find_filter: "find P xs = (case filter P xs of [] \<Rightarrow> None | x # _ \<Rightarrow> Some x)"
  by (induction xs) simp_all

lemma meant_candidates:
  assumes "numbered scopes"
  shows "map_option (\<lambda>(ti, i, t). (ti, i)) (meant scopes q n) = (case candidates scopes q n of [] \<Rightarrow> None | x # _ \<Rightarrow> Some x)"
  unfolding candidates_fitting [OF assms] meant_def find_filter by (auto split: list.split)

text \<open>An unambiguous name has the same value for the binder and in the reference.\<close>

lemma named_denoted:
  assumes "numbered scopes" "length (candidates scopes q n) \<le> 1"
    and get: "\<And>ti i. ti < length scopes \<Longrightarrow> get ti i = column_value (Some (rows ! ti)) i"
  shows "named get scopes q n = denoted scopes rows q n"
proof (cases "candidates scopes q n")
  case Nil
  then have "meant scopes q n = None" using meant_candidates [OF assms(1), of q n] by simp
  then show ?thesis using Nil by (simp add: named_def denoted_def)
next
  case (Cons x xs)
  obtain k i where x: "x = (k, i)" by (cases x)
  have c: "candidates scopes q n = [(k, i)]" using Cons x assms(2) by simp
  then obtain t where m: "meant scopes q n = Some (k, i, t)" using meant_candidates [OF assms(1), of q n] by auto
  have "(k, i) \<in> set (candidates scopes q n)" using c by simp
  then have "k < length scopes" by (auto simp: candidates_def in_set_enumerate_eq)
  then show ?thesis using m c get by (simp add: named_def denoted_def)
qed

abbreviation same_names :: "(string \<Rightarrow> string \<Rightarrow> val res) \<Rightarrow> (string \<Rightarrow> string \<Rightarrow> val res) \<Rightarrow> (string \<times> string) list \<Rightarrow> bool" where
  "same_names f g ns \<equiv> \<forall>(q, n) \<in> set ns. f q n = g q n"

lemma kind_operator_plain: "kind_operator PG_AEXPR_OP op = apply_operator op"
  by (simp add: fun_eq_iff)

lemma bound_means:
  "\<forall>r. BindExpression node scopes = Inr r \<longrightarrow> plain_operators node \<longrightarrow> same_names (named get scopes) col (names_in node) \<longrightarrow>
     eval_with get (child r) = sql_value col node"
  "\<forall>r. BindOperand operand scopes = Inr r \<longrightarrow> (case operand of None \<Rightarrow> True | Some x \<Rightarrow> plain_operators x) \<longrightarrow>
     same_names (named get scopes) col (case operand of None \<Rightarrow> [] | Some x \<Rightarrow> names_in x) \<longrightarrow>
     eval_with get (child r) = sql_operand col operand"
  "\<forall>r. BindChain g e as scopes = Inr r \<longrightarrow> list_all plain_operators as \<longrightarrow>
     same_names (named get scopes) col (concat (map names_in as)) \<longrightarrow>
     eval_with get (child r) = sql_chain col (PerformLogic g) (eval_with get (child e)) as"
proof (induction node scopes and operand scopes and g e as scopes rule: BindExpression_BindOperand_BindChain.induct)
  case (1 names scopes)
  then show ?case using BindColumnRef_value [of names scopes] by (auto split: sum.splits option.splits)
next
  case (2 v scopes)
  then show ?case using BindConstant_value by simp
next
  case (3 kind name l r scopes)
  show ?case
  proof (intro allI impI)
    fix e assume "BindExpression (PGAExpr kind name l r) scopes = Inr e"
      and p: "plain_operators (PGAExpr kind name l r)" "same_names (named get scopes) col (names_in (PGAExpr kind name l r))"
    then obtain left right n x where b: "BindOperand l scopes = Inr left" "BindOperand r scopes = Inr right" "list_first name = Inr n"
      "strVal n = Inr x" "operator_expression x (child left) (child right) = Inr (child e)" by (auto simp: child_def)
    have "operator_name name = x"
      using b(3,4) by (cases n rule: strVal.cases) (auto simp: operator_name_def list_first_def bad_cast_def null_node_def split: list.splits)
    moreover have "eval_with get (child left) = sql_operand col l" "eval_with get (child right) = sql_operand col r"
      using 3 b(1,2) p by auto
    ultimately show "eval_with get (child e) = sql_value col (PGAExpr kind name l r)"
      using operator_expression_value [OF b(5), of get] p(1) by (simp add: kind_operator_plain)
  qed
next
  case (4 t args scopes)
  have logic: "PerformLogic And = Value_And" "PerformLogic Or = Value_Or" by (simp_all add: PerformLogic_def fun_eq_iff)
  show ?case using 4 by (auto simp: logic null_node_def split: list.splits bool_expr_type.splits)
next
  case (9 g e a as scopes)
  show ?case
  proof (intro allI impI)
    fix r assume "BindChain g e (a # as) scopes = Inr r" and p: "list_all plain_operators (a # as)"
      "same_names (named get scopes) col (concat (map names_in (a # as)))"
    then obtain right where b: "BindExpression a scopes = Inr right"
      "BindChain g (Some (LogicExpression (child e) (child right) g)) as scopes = Inr r" by auto
    have "eval_with get (child right) = sql_value col a" using 9(1) b(1) p by auto
    moreover have "eval_with get (child r) =
        sql_chain col (PerformLogic g) (eval_with get (child (Some (LogicExpression (child e) (child right) g)))) as"
      using 9(2) b p by auto
    ultimately show "eval_with get (child r) = sql_chain col (PerformLogic g) (eval_with get (child e)) (a # as)"
      by (simp add: child_simps)
  qed
qed (auto simp: child_simps)

lemma operator_supported: "op \<in> set operators \<Longrightarrow> \<exists>e. operator_expression op l r = Inr e"
  by (auto simp: operators_def operator_expression_def)

lemma constant_supported: "constant_of v = Inr x \<Longrightarrow> BindConstant v = Inr (Some (ConstantValueExpression x))"
  by (cases v) (auto simp: BindConstant_def constant_of_def null_expression_def)

lemma bindable_accepted:
  "numbered scopes \<Longrightarrow> bindable scopes node \<Longrightarrow> \<exists>e. BindExpression node scopes = Inr (Some e)"
  "numbered scopes \<Longrightarrow> (case operand of None \<Rightarrow> False | Some x \<Rightarrow> bindable scopes x) \<Longrightarrow> \<exists>e. BindOperand operand scopes = Inr (Some e)"
  "numbered scopes \<Longrightarrow> list_all (bindable scopes) as \<Longrightarrow> e \<noteq> None \<Longrightarrow> \<exists>x. BindChain g e as scopes = Inr (Some x)"
proof (induction node scopes and operand scopes and g e as scopes rule: BindExpression_BindOperand_BindChain.induct)
  case (1 names scopes)
  then obtain q n where n: "column_name names = Inr (Some (q, n))" "candidates scopes q n \<noteq> []"
    by (auto split: sum.splits option.splits)
  then obtain x where "meant scopes q n = Some x"
    using meant_candidates [OF 1(1), of q n] by (cases "meant scopes q n") (auto split: list.splits)
  then show ?case using n by (cases x) (simp add: BindColumnRef_def ResolveColumn_meant)
next
  case (2 v scopes)
  then show ?case using constant_supported [of v] by (auto split: sum.splits)
next
  case (3 kind name l r scopes)
  then have op: "operator_name name \<in> set operators" by simp
  then obtain op rest where "name = PGString op # rest"
    by (auto simp: operator_name_def operators_def split: list.splits pg_node.splits)
  then have "rbind (list_first name) strVal = Inr (operator_name name)" by (simp add: list_first_def operator_name_def)
  then show ?case using 3 operator_supported [OF op] by fastforce
next
  case (4 t args scopes)
  then obtain a as where args: "args = a # as" by (cases args) auto
  show ?case using 4 args by (cases t) fastforce+
qed auto

lemma offered_numbered:
  assumes "numbered scopes" "(ti, ci, t) \<in> offered scopes"
  shows "ti < length scopes \<and> ci < length (columns (ti_schema (sc_info (scopes ! ti)))) \<and>
    c_type (columns (ti_schema (sc_info (scopes ! ti))) ! ci) = t"
proof -
  obtain sc where "sc \<in> set scopes" "sc_tuple_idx sc = ti" "ci < length (columns (ti_schema (sc_info sc)))"
    "c_type (columns (ti_schema (sc_info sc)) ! ci) = t"
    using assms(2) by (fastforce simp: scope_columns_def in_set_enumerate_eq)
  then show ?thesis using assms(1) by (auto simp: numbered_def in_set_conv_nth)
qed

text \<open>
  What the binder makes of the kinds that it does not look at: \<^verbatim>\<open>a IS DISTINCT FROM b\<close> becomes the expression of \<^verbatim>\<open>a = b\<close>, which for
  equal integers is true where the reference is false.
\<close>

lemma kind_ignored: "BindExpression (PGAExpr kind name l r) scopes = BindExpression (PGAExpr PG_AEXPR_OP name l r) scopes"
  by simp

lemma distinct_from_is_equality:
  assumes "BindExpression (PGAExpr PG_AEXPR_DISTINCT [PGString ''=''] (Some (PGAConst (PGInteger 1))) (Some (PGAConst (PGInteger 1)))) scopes = Inr (Some e)"
  shows "Evaluate e (Some row) = Inr (SQL_bool True) \<and>
    sql_value col (PGAExpr PG_AEXPR_DISTINCT [PGString ''=''] (Some (PGAConst (PGInteger 1))) (Some (PGAConst (PGInteger 1)))) = Inr (SQL_bool False)"
proof -
  have "e = ComparisonExpression (ConstantValueExpression (SQL_int 1)) (ConstantValueExpression (SQL_int 1)) Equal"
    using assms by (simp add: BindConstant_def list_first_def operator_expression_def child_def)
  then show ?thesis
    by (simp add: PerformComparison_def CompareEquals_def CompareNotEquals_def constant_of_def is_distinct_def Value_int_def Value_bool_def GetAsBoolean_def
        v_bool_def)
qed

text \<open>
  What the projections and the sort keys of a join read: they are evaluated on the joined row alone, in which a column of the right
  table has another position than the binder gave it.
\<close>

lemma right_column_on_joined_row: "Evaluate (ColumnValueExpression 1 ci t) (Some joined) = Evaluate (ColumnValueExpression 0 ci t) (Some joined)"
  by simp

section \<open>Properties\<close>

text \<open>
  C3. A bound expression computes what the query says. Over the numbered tables of \<^verbatim>\<open>FROM\<close>, the binder accepts every condition with known
  names, supported operators and constants; and if the operator nodes of a condition that it accepts are operators (not
  \<^verbatim>\<open>IS DISTINCT FROM\<close> and its like, which it reads as \<^verbatim>\<open>=\<close>) and its names are unambiguous, then the expression evaluates over a row of
  the one table, and over a pair of rows of two joined tables, to the value of the condition in which each name is the column of the one
  table that has it. It reads only columns that the tables have, with their types.
\<close>

theorem BindExpression_correct:
  assumes "numbered scopes"
  shows "(bindable scopes node \<longrightarrow> (\<exists>e. BindExpression node scopes = Inr (Some e))) \<and>
    (\<forall>e. BindExpression node scopes = Inr (Some e) \<longrightarrow> plain_operators node \<longrightarrow> unambiguous scopes node \<longrightarrow>
       (length scopes = 1 \<longrightarrow> Evaluate e (Some row) = sql_value (denoted scopes [row]) node) \<and>
       (length scopes = 2 \<longrightarrow> EvaluateJoin e lrow rrow = sql_value (denoted scopes [lrow, rrow]) node)) \<and>
    (\<forall>e. BindExpression node scopes = Inr (Some e) \<longrightarrow> (\<forall>(ti, ci, t) \<in> set (columns_read e). ti < length scopes \<and>
       ci < length (columns (ti_schema (sc_info (scopes ! ti)))) \<and> c_type (columns (ti_schema (sc_info (scopes ! ti))) ! ci) = t))"
proof (intro conjI allI impI)
  assume "bindable scopes node"
  then show "\<exists>e. BindExpression node scopes = Inr (Some e)" using bindable_accepted(1) [OF assms] by blast
next
  fix e assume e: "BindExpression node scopes = Inr (Some e)" "plain_operators node" "unambiguous scopes node" and n: "length scopes = 1"
  have "same_names (named (\<lambda>ti. column_value (Some row)) scopes) (denoted scopes [row]) (names_in node)"
    using e(3) n by (auto simp: unambiguous_def intro!: named_denoted [OF assms])
  then show "Evaluate e (Some row) = sql_value (denoted scopes [row]) node"
    using bound_means(1) [of node scopes "\<lambda>ti. column_value (Some row)"] e by (simp add: Evaluate_with child_simps)
next
  fix e assume e: "BindExpression node scopes = Inr (Some e)" "plain_operators node" "unambiguous scopes node" and n: "length scopes = 2"
  have "same_names (named (\<lambda>ti. column_value (Some (if ti = 0 then lrow else rrow))) scopes) (denoted scopes [lrow, rrow]) (names_in node)"
    using e(3) n by (auto simp: unambiguous_def less_2_cases_iff intro!: named_denoted [OF assms])
  then show "EvaluateJoin e lrow rrow = sql_value (denoted scopes [lrow, rrow]) node"
    using bound_means(1) [of node scopes "\<lambda>ti. column_value (Some (if ti = 0 then lrow else rrow))"] e
    by (simp add: EvaluateJoin_with child_simps)
next
  fix e assume e: "BindExpression node scopes = Inr (Some e)"
  then have "set (columns_read e) \<subseteq> offered scopes"
    using bound_columns(1) [of node scopes] by (simp add: child_simps)
  then show "\<forall>(ti, ci, t) \<in> set (columns_read e). ti < length scopes \<and>
       ci < length (columns (ti_schema (sc_info (scopes ! ti)))) \<and> c_type (columns (ti_schema (sc_info (scopes ! ti))) ! ci) = t"
    using offered_numbered [OF assms] by blast
qed

text \<open>\<^verbatim>\<open>u.a = t.a AND t.a < 7\<close> over two tables.\<close>

definition demo_scopes :: "table_scope list" where
  "demo_scopes =
     [\<lparr>sc_alias = ''t'', sc_info = \<lparr>ti_schema = flag_schema, ti_name = ''t'', ti_table = 0, ti_oid = 1\<rparr>, sc_tuple_idx = 0\<rparr>,
      \<lparr>sc_alias = ''u'', sc_info = \<lparr>ti_schema = flag_schema, ti_name = ''u'', ti_table = 1, ti_oid = 2\<rparr>, sc_tuple_idx = 1\<rparr>]"

definition demo_condition :: pg_node where
  "demo_condition =
     PGBoolExpr PG_AND_EXPR
       [PGAExpr PG_AEXPR_OP [PGString ''=''] (Some (PGColumnRef [PGString ''u'', PGString ''a''])) (Some (PGColumnRef [PGString ''t'', PGString ''a''])),
        PGAExpr PG_AEXPR_OP [PGString ''<''] (Some (PGColumnRef [PGString ''t'', PGString ''a''])) (Some (PGAConst (PGInteger 7)))]"

lemma flag_columns: "columns flag_schema = [(Column ''a'' T_BOOLEAN 0)\<lparr>c_offset := 0\<rparr>]"
  by (simp add: flag_schema_def Schema_def)

lemma demo_bound:
  "BindExpression demo_condition demo_scopes =
     Inr (Some (LogicExpression
       (ComparisonExpression (ColumnValueExpression 1 0 T_BOOLEAN) (ColumnValueExpression 0 0 T_BOOLEAN) Equal)
       (ComparisonExpression (ColumnValueExpression 0 0 T_BOOLEAN) (ConstantValueExpression (SQL_int 7)) LessThan) And))"
  by (simp add: demo_condition_def demo_scopes_def BindColumnRef_def column_name_def flag_columns Column_def BindConstant_def
      list_first_def operator_expression_def child_def)

lemma demo_names:
  "numbered demo_scopes" "plain_operators demo_condition" "unambiguous demo_scopes demo_condition" "bindable demo_scopes demo_condition"
  by (auto simp: numbered_def demo_scopes_def less_Suc_eq demo_condition_def unambiguous_def candidates_def column_name_def flag_columns Column_def
      operator_name_def operators_def constant_of_def)

theorem BindExpression_correct_witness:
  "\<exists>e. BindExpression demo_condition demo_scopes = Inr (Some e) \<and> columns_read e = [(1, 0, T_BOOLEAN), (0, 0, T_BOOLEAN), (0, 0, T_BOOLEAN)] \<and>
     (\<forall>l r. EvaluateJoin e l r = sql_value (denoted demo_scopes [l, r]) demo_condition)"
  using demo_bound BindExpression_correct [OF demo_names(1), of demo_condition] demo_names by (simp add: demo_scopes_def)

text \<open>The parse of \<^verbatim>\<open>SELECT COUNT(*) FROM t\<close>, and the plan that the binder makes of it.\<close>

definition demo_select :: pg_select where
  "demo_select =
     \<lparr>fromClause = [PGRangeVar ''t'' None], whereClause = None,
      targetList = [\<lparr>rt_name = None, rt_val = Some (PGFuncCall [PGString ''COUNT''] [] True)\<rparr>],
      groupClause = [], sortClause = [], limitCount = None, valuesLists = False\<rparr>"

definition demo_binder :: query_binder where
  "demo_binder = \<lparr>moved_first = True,
     parse = (\<lambda>sql. if sql = ''SELECT COUNT(*) FROM t'' then Inr [PGSelectStmt demo_select] else Inl ''syntax error'')\<rparr>"

lemma demo_query:
  assumes "GetTable_name c ''t'' = Inr (Some ti)" "ti_schema ti = flag_schema" "ti_oid ti = 1"
  shows "BindQuery demo_binder c ''SELECT COUNT(*) FROM t'' = Inr demo_plan"
proof -
  have "LowerCopy ''COUNT'' = ''count''" by code_simp
  moreover have "digits 0 = ''0''" by code_simp
  ultimately show ?thesis
    using assms by (simp add: BindQuery_def demo_binder_def BindStmt_def BindSelectStmt_def demo_select_def bind_from_def bind_from_item_def
      find_table_def scan_of_def bind_where_def bind_target_def GetFuncName_def list_last_def aggregate_names_def bind_aggregate_def
      bind_aggregation_def bind_sort_def bind_limit_def bind_projection_def demo_plan_def child_def)
qed

end
