(* ===== verification/Optimizer.thy ===== *)
theory Optimizer
  imports Queries
begin

text \<open>
  The optimizer: \<^verbatim>\<open>optimizer/optimizer.cpp\<close>. Its two rules turn a scan with an equality on an indexed column into an index
  scan, and a nested loop join on two columns into a hash join. The dynamic casts are patterns, the catalog
  may be absent, and a plan is changed bottom-up. The properties compare the plans by the rows that they mean (\<open>sem\<close>).
\<close>

section \<open>The rules\<close>

text \<open>The column and the constant of a predicate \<open>column = constant\<close>, either way round.\<close>

fun lookup_column :: "expr \<Rightarrow> (nat \<times> expr) option" where
  "lookup_column (ComparisonExpression (ColumnValueExpression ti ci t) (ConstantValueExpression v) Equal) = Some (ci, ConstantValueExpression v)"
| "lookup_column (ComparisonExpression (ConstantValueExpression v) (ColumnValueExpression ti ci t) Equal) = Some (ci, ConstantValueExpression v)"
| "lookup_column _ = None"

primrec find_index :: "nat \<Rightarrow> index_info list \<Rightarrow> index_info option res" where
  "find_index col [] = Inr None"
| "find_index col (ix # ixs) =
     (if \<not> ii_supports_point_lookup ix then find_index col ixs
      else rbind (GetLookupAttr ix) (\<lambda>a. if a \<noteq> col then find_index col ixs else Inr (Some ix)))"

definition OptimizeSeqScanToIndexScan :: "catalog option \<Rightarrow> plan \<Rightarrow> plan res" where
  "OptimizeSeqScanToIndexScan cat p =
     (case (cat, p) of
        (Some c, SeqScanPlanNode s oid (Some pred)) \<Rightarrow>
          (case lookup_column pred of
             None \<Rightarrow> Inr p
           | Some (col, key) \<Rightarrow>
               (case GetTable c oid of
                  None \<Rightarrow> Inr p
                | Some ti \<Rightarrow>
                    rbind (GetTableIndexes c (ti_name ti)) (\<lambda>ixs.
                    rbind (find_index col ixs) (\<lambda>found.
                      Inr (case found of None \<Rightarrow> p | Some ix \<Rightarrow> IndexScanPlanNode s oid (ii_oid ix) key (Some pred))))))
      | _ \<Rightarrow> Inr p)"

text \<open>The keys of a join on \<open>column = column\<close>: the left one and the right one, as columns of one row.\<close>

fun join_keys :: "expr \<Rightarrow> (expr \<times> expr) option" where
  "join_keys (ComparisonExpression (ColumnValueExpression ti ci t) (ColumnValueExpression tj cj u) Equal) =
     (if ti = 0 \<and> tj = 1 then Some (ColumnValueExpression 0 ci t, ColumnValueExpression 0 cj u)
      else if ti = 1 \<and> tj = 0 then Some (ColumnValueExpression 0 cj u, ColumnValueExpression 0 ci t)
      else None)"
| "join_keys _ = None"

definition OptimizeNLJToHashJoin :: "plan \<Rightarrow> plan" where
  "OptimizeNLJToHashJoin p =
     (case p of
        NestedLoopJoinPlanNode s l r (Some pred) \<Rightarrow>
          (case join_keys pred of None \<Rightarrow> p | Some (lk, rk) \<Rightarrow> HashJoinPlanNode s l r lk rk)
      | _ \<Rightarrow> p)"

definition apply_rules :: "catalog option \<Rightarrow> plan \<Rightarrow> plan res" where
  "apply_rules cat p = rbind (OptimizeSeqScanToIndexScan cat p) (\<lambda>p'. Inr (OptimizeNLJToHashJoin p'))"

primrec Optimize :: "catalog option \<Rightarrow> plan \<Rightarrow> plan res" where
  "Optimize cat (SeqScanPlanNode s oid p) = apply_rules cat (SeqScanPlanNode s oid p)"
| "Optimize cat (IndexScanPlanNode s oid ioid k p) = apply_rules cat (IndexScanPlanNode s oid ioid k p)"
| "Optimize cat (InsertPlanNode s child oid) = rbind (Optimize cat child) (\<lambda>c. apply_rules cat (InsertPlanNode s c oid))"
| "Optimize cat (DeletePlanNode s child oid) = rbind (Optimize cat child) (\<lambda>c. apply_rules cat (DeletePlanNode s c oid))"
| "Optimize cat (UpdatePlanNode s child oid es) = rbind (Optimize cat child) (\<lambda>c. apply_rules cat (UpdatePlanNode s c oid es))"
| "Optimize cat (NestedLoopJoinPlanNode s l r p) =
     rbind (Optimize cat l) (\<lambda>l'. rbind (Optimize cat r) (\<lambda>r'. apply_rules cat (NestedLoopJoinPlanNode s l' r' p)))"
| "Optimize cat (HashJoinPlanNode s l r lk rk) =
     rbind (Optimize cat l) (\<lambda>l'. rbind (Optimize cat r) (\<lambda>r'. apply_rules cat (HashJoinPlanNode s l' r' lk rk)))"
| "Optimize cat (AggregationPlanNode s child gs ags tys) =
     rbind (Optimize cat child) (\<lambda>c. apply_rules cat (AggregationPlanNode s c gs ags tys))"
| "Optimize cat (SortPlanNode s child os) = rbind (Optimize cat child) (\<lambda>c. apply_rules cat (SortPlanNode s c os))"
| "Optimize cat (LimitPlanNode s child n) = rbind (Optimize cat child) (\<lambda>c. apply_rules cat (LimitPlanNode s c n))"
| "Optimize cat (ProjectionPlanNode s child es) = rbind (Optimize cat child) (\<lambda>c. apply_rules cat (ProjectionPlanNode s c es))"
| "Optimize cat (UtilityPlanNode s ut tn inm ks os m) = apply_rules cat (UtilityPlanNode s ut tn inm ks os m)"

section \<open>Printed integers\<close>

lemma digits_value: "foldl (\<lambda>n c. 10 * n + (of_char c - 48)) 0 (digits n) = n"
proof (induction n rule: digits.induct)
  case (1 n)
  then show ?case
    by (subst digits.simps) (simp add: of_char_of)
qed

lemma digits_inj: "digits m = digits n \<longleftrightarrow> m = n"
  by (metis digits_value)

lemma digits_no_minus: "CHR ''-'' \<notin> set (digits n)"
proof (induction n rule: digits.induct)
  case (1 n)
  have "CHR ''-'' \<noteq> char_of (48 + k)" if "k < 10" for k :: nat
  proof
    assume "CHR ''-'' = char_of (48 + k)"
    then have "of_char (CHR ''-'') = (of_char (char_of (48 + k)) :: nat)" by simp
    then show False using that by (simp add: of_char_of)
  qed
  with 1 show ?case by (subst digits.simps) (simp add: eq_commute)
qed

lemma int_to_string_inj: "int_to_string i = int_to_string j \<longleftrightarrow> i = j"
proof -
  have "digits n \<noteq> CHR ''-'' # ds" for n ds using digits_no_minus [of n] by auto
  moreover have "CHR ''-'' # ds \<noteq> digits n" for n ds using calculation by metis
  ultimately show ?thesis by (auto simp: int_to_string_def digits_inj)
qed

section \<open>Hash joins\<close>

text \<open>A key that an equality and the printed form tell apart alike: a value of a fixed type, not a FLOAT, and not NULL.\<close>

definition hash_key :: "type_id \<Rightarrow> val \<Rightarrow> bool" where
  "hash_key T v \<longleftrightarrow> v_type v = T \<and> \<not> v_null v"

lemma hash_key_equals:
  assumes "T \<in> {T_BOOLEAN, T_INTEGER, T_VARCHAR}" "hash_key T v" "hash_key T w"
  shows "CompareEquals v w = Inr (SQL_bool (Value_ToString fmt v = Value_ToString fmt w))"
  using assms by (auto simp: hash_key_def CompareEquals_def Value_ToString_def int_to_string_inj)

lemma rfilter_pure: "\<forall>x \<in> set xs. f x = Inr (g x) \<Longrightarrow> rfilter f xs = Inr (filter g xs)"
  by (induction xs) auto

lemma rmap_pure: "\<forall>x \<in> set xs. f x = Inr (g x) \<Longrightarrow> rmap f xs = Inr (map g xs)"
  by (induction xs) auto

lemma filter_product_map:
  "filter (\<lambda>((k, _), (k', _)). k = k') (List.product (map (\<lambda>x. (f x, x)) xs) (map (\<lambda>y. (g y, y)) ys)) =
   map (\<lambda>(x, y). ((f x, x), (g y, y))) (filter (\<lambda>(x, y). f x = g y) (List.product xs ys))"
  by (induction xs) (simp_all add: filter_map comp_def)

lemma holds_for_bool: "holds_for (Inr (SQL_bool b)) = Inr b"
  unfolding holds_for_def by (simp add: GetAsBoolean_def) (simp add: Value_bool_def)

definition keys_ok :: "type_id \<Rightarrow> schema \<Rightarrow> expr \<Rightarrow> row list \<Rightarrow> bool" where
  "keys_ok T s k xs \<longleftrightarrow> (\<forall>x \<in> set xs. \<exists>v. Evaluate k (Some (fst x, s)) = Inr v \<and> hash_key T v)"

lemma join_as_hash_join:
  assumes T: "T \<in> {T_BOOLEAN, T_INTEGER, T_VARCHAR}" and k: "join_keys pred = Some (lk, rk)"
    and L: "keys_ok T ls lk L" and R: "keys_ok T rs rk R"
  shows "sem_hash_join E ls rs lk rk L R = sem_join ls rs (Some pred) L R"
proof -
  define key where "key s e x = (case Evaluate e (Some (fst x, s)) of Inr v \<Rightarrow> v | Inl _ \<Rightarrow> Value_default)" for s e and x :: row
  let ?str = "\<lambda>s e x. Value_ToString (fmt_float E) (key s e x)"
  have l: "Evaluate lk (Some (fst x, ls)) = Inr (key ls lk x) \<and> hash_key T (key ls lk x)" if "x \<in> set L" for x
    using L that by (auto simp: keys_ok_def key_def)
  have r: "Evaluate rk (Some (fst x, rs)) = Inr (key rs rk x) \<and> hash_key T (key rs rk x)" if "x \<in> set R" for x
    using R that by (auto simp: keys_ok_def key_def)
  have match: "join_matches (Some pred) (fst x, ls) (fst y, rs) = Inr (?str ls lk x = ?str rs rk y)" if "x \<in> set L" "y \<in> set R" for x y
  proof -
    have e: "EvaluateJoin pred (fst x, ls) (fst y, rs) = CompareEquals (key ls lk x) (key rs rk y) \<or>
        EvaluateJoin pred (fst x, ls) (fst y, rs) = CompareEquals (key rs rk y) (key ls lk x)"
      using k l [OF that(1)] r [OF that(2)]
      by (cases pred rule: join_keys.cases) (auto simp: PerformComparison_def split: if_splits)
    show ?thesis
      using e hash_key_equals [OF T, of "key ls lk x" "key rs rk y" "fmt_float E"]
        hash_key_equals [OF T, of "key rs rk y" "key ls lk x" "fmt_float E"] l [OF that(1)] r [OF that(2)]
      by (auto simp: join_matches_def holds_for_bool eq_commute)
  qed
  have 1: "rfilter (\<lambda>(l, r). join_matches (Some pred) (fst l, ls) (fst r, rs)) (List.product L R) =
      Inr (filter (\<lambda>(x, y). ?str ls lk x = ?str rs rk y) (List.product L R))"
    by (rule rfilter_pure) (auto simp: match)
  have 2: "keyed E ls lk L = Inr (map (\<lambda>x. (?str ls lk x, x)) L)" "keyed E rs rk R = Inr (map (\<lambda>x. (?str rs rk x, x)) R)"
    unfolding keyed_def by (rule rmap_pure; use l r in \<open>auto simp: row_key_string_def\<close>)+
  show ?thesis unfolding sem_join_def sem_hash_join_def 1 2 rbind.simps filter_product_map rmap_map by (simp add: case_prod_beta')
qed

section \<open>Whole plans\<close>

lemma rules_no_catalog: "apply_rules None p = Inr (OptimizeNLJToHashJoin p)"
  by (simp add: apply_rules_def OptimizeSeqScanToIndexScan_def)

text \<open>Every join that the second rule changes has comparable keys.\<close>

primrec joins_ok :: "env \<Rightarrow> logical \<Rightarrow> plan \<Rightarrow> bool" where
  "joins_ok E D (SeqScanPlanNode s oid p) \<longleftrightarrow> True"
| "joins_ok E D (IndexScanPlanNode s oid ioid k p) \<longleftrightarrow> True"
| "joins_ok E D (InsertPlanNode s child oid) \<longleftrightarrow> joins_ok E D child"
| "joins_ok E D (DeletePlanNode s child oid) \<longleftrightarrow> joins_ok E D child"
| "joins_ok E D (UpdatePlanNode s child oid es) \<longleftrightarrow> joins_ok E D child"
| "joins_ok E D (NestedLoopJoinPlanNode s l r p) \<longleftrightarrow> joins_ok E D l \<and> joins_ok E D r \<and>
     (\<forall>pred lk rk L R. p = Some pred \<and> join_keys pred = Some (lk, rk) \<and> sem E D l = Inr L \<and> sem E D r = Inr R \<longrightarrow>
        (\<exists>T \<in> {T_BOOLEAN, T_INTEGER, T_VARCHAR}. keys_ok T (GetOutputSchema l) lk L \<and> keys_ok T (GetOutputSchema r) rk R))"
| "joins_ok E D (HashJoinPlanNode s l r lk rk) \<longleftrightarrow> joins_ok E D l \<and> joins_ok E D r"
| "joins_ok E D (AggregationPlanNode s child gs ags tys) \<longleftrightarrow> joins_ok E D child"
| "joins_ok E D (SortPlanNode s child os) \<longleftrightarrow> joins_ok E D child"
| "joins_ok E D (LimitPlanNode s child n) \<longleftrightarrow> joins_ok E D child"
| "joins_ok E D (ProjectionPlanNode s child es) \<longleftrightarrow> joins_ok E D child"
| "joins_ok E D (UtilityPlanNode s ut tn inm ks os m) \<longleftrightarrow> True"

lemma join_rule:
  assumes "joins_ok E D (NestedLoopJoinPlanNode s l r p)"
    and "GetOutputSchema l' = GetOutputSchema l" "GetOutputSchema r' = GetOutputSchema r" "sem E D l' = sem E D l" "sem E D r' = sem E D r"
  shows "sem E D (OptimizeNLJToHashJoin (NestedLoopJoinPlanNode s l' r' p)) = sem E D (NestedLoopJoinPlanNode s l r p)"
proof (cases "\<exists>pred lk rk. p = Some pred \<and> join_keys pred = Some (lk, rk)")
  case False
  then show ?thesis using assms(2-5) by (auto simp: OptimizeNLJToHashJoin_def split: option.splits)
next
  case True
  then obtain pred lk rk where p: "p = Some pred" "join_keys pred = Some (lk, rk)" by blast
  have "rbind (sem E D l) (\<lambda>L. rbind (sem E D r) (sem_hash_join E (GetOutputSchema l) (GetOutputSchema r) lk rk L)) =
      rbind (sem E D l) (\<lambda>L. rbind (sem E D r) (sem_join (GetOutputSchema l) (GetOutputSchema r) (Some pred) L))"
  proof (intro rbind_cong)
    fix L R assume "sem E D l = Inr L" "sem E D r = Inr R"
    with assms(1) p obtain T where T: "T \<in> {T_BOOLEAN, T_INTEGER, T_VARCHAR}" "keys_ok T (GetOutputSchema l) lk L" "keys_ok T (GetOutputSchema r) rk R"
      unfolding joins_ok.simps by blast
    show "sem_hash_join E (GetOutputSchema l) (GetOutputSchema r) lk rk L R = sem_join (GetOutputSchema l) (GetOutputSchema r) (Some pred) L R"
      by (rule join_as_hash_join [OF T(1) p(2) T(2,3)])
  qed
  then show ?thesis using assms(2-5) p by (simp add: OptimizeNLJToHashJoin_def)
qed

text \<open>
  C9. Hash joins for nested loop joins. Without the catalog the optimizer always returns a plan with the same output
  schema, and, where the columns of the joins that it changes hold values of one type other than FLOAT and no NULL, the
  new plan means the same as the old one: the same rows in the same order, or the same error.
\<close>

theorem Optimize_joins:
  "\<exists>q. Optimize None p = Inr q \<and> GetOutputSchema q = GetOutputSchema p \<and> (joins_ok E D p \<longrightarrow> sem E D q = sem E D p)"
proof (induction p)
  case (NestedLoopJoinPlanNode s l r p)
  then obtain l' r' where i: "Optimize None l = Inr l'" "Optimize None r = Inr r'"
    "GetOutputSchema l' = GetOutputSchema l" "GetOutputSchema r' = GetOutputSchema r"
    "joins_ok E D l \<longrightarrow> sem E D l' = sem E D l" "joins_ok E D r \<longrightarrow> sem E D r' = sem E D r" by blast
  have "GetOutputSchema (OptimizeNLJToHashJoin (NestedLoopJoinPlanNode s l' r' p)) = s"
    by (auto simp: OptimizeNLJToHashJoin_def split: option.splits)
  moreover have "joins_ok E D (NestedLoopJoinPlanNode s l r p) \<longrightarrow>
      sem E D (OptimizeNLJToHashJoin (NestedLoopJoinPlanNode s l' r' p)) = sem E D (NestedLoopJoinPlanNode s l r p)"
    using join_rule [OF _ i(3,4)] i(5,6) by auto
  ultimately show ?case using i(1,2) by (simp add: rules_no_catalog)
qed (fastforce simp: rules_no_catalog OptimizeNLJToHashJoin_def)+

section \<open>Index scans\<close>

lemma find_index_some: "find_index col ixs = Inr (Some ix) \<Longrightarrow> ix \<in> set ixs \<and> ii_supports_point_lookup ix \<and> GetLookupAttr ix = Inr col"
  by (induction ixs) (auto split: if_splits)

text \<open>\<open>f\<close> lists the rows of a table by the INTEGER in a column, each once.\<close>

definition row_int :: "schema \<Rightarrow> nat \<Rightarrow> rid \<times> byte list \<Rightarrow> 32 word res" where
  "row_int s a = (\<lambda>(r, bs). rbind (Tuple_GetColumn (stored_tuple r bs) s a) GetAsInteger)"

definition lists_rows :: "schema \<Rightarrow> nat \<Rightarrow> (rid \<times> byte list) list \<Rightarrow> (32 word \<Rightarrow> rid list) \<Rightarrow> bool" where
  "lists_rows s a rows f \<longleftrightarrow> (\<forall>k. distinct (f k) \<and> set (f k) = fst ` {x \<in> set rows. row_int s a x = Inr k})"

lemma lookup_column_value:
  assumes "lookup_column pred = Some (a, key)"
  shows "Evaluate key None = Inr (GetValue key) \<and> (\<exists>ti t. pred = ComparisonExpression (ColumnValueExpression ti a t) key Equal \<or>
    pred = ComparisonExpression key (ColumnValueExpression ti a t) Equal) \<and> key = ConstantValueExpression (GetValue key)"
  using assms by (cases pred rule: lookup_column.cases) auto

lemma v_int_eq: "v_int v = v_int w \<longleftrightarrow> v_bits v = v_bits w"
proof
  assume "v_int v = v_int w"
  then have "(of_int (sint (v_bits v)) :: 32 word) = of_int (sint (v_bits w))" by (simp only: v_int_def)
  then show "v_bits v = v_bits w" by (simp only: of_int_sint scast_id)
qed (simp add: v_int_def)

lemma passes_lookup:
  assumes p: "lookup_column pred = Some (a, key)" and v: "GetValue key = SQL_int w"
    and ok: "passes (Some pred) (stored_tuple r bs, s) = Inr ok"
  shows "ok \<longleftrightarrow> row_int s a (r, bs) = Inr w"
proof -
  have k: "key = ConstantValueExpression (SQL_int w)" using lookup_column_value [OF p] v by simp
  from lookup_column_value [OF p] obtain ti t where "pred = ComparisonExpression (ColumnValueExpression ti a t) key Equal \<or>
      pred = ComparisonExpression key (ColumnValueExpression ti a t) Equal" by blast
  then obtain v where v: "Tuple_GetColumn (stored_tuple r bs) s a = Inr v"
    "holds_for (CompareEquals v (SQL_int w)) = Inr ok \<or> holds_for (CompareEquals (SQL_int w) v) = Inr ok"
    using ok k by (auto simp: passes_def PerformComparison_def column_value_def holds_for_def)
  have "v_type v = T_INTEGER" using v(2) by (auto simp: CompareEquals_def holds_for_def Value_int_def)
  moreover from this have "ok \<longleftrightarrow> v_int v = v_int (SQL_int w)"
    using v(2) by (auto simp: CompareEquals_def holds_for_bool Value_int_def [of T_INTEGER])
  ultimately show ?thesis using v(1) by (simp add: row_int_def GetAsInteger_def v_int_eq) (simp add: Value_int_def)
qed

lemma rfilter_cong: "rfilter f xs = Inr ys \<Longrightarrow> \<forall>x \<in> set xs. \<forall>b. f x = Inr b \<longrightarrow> b = g x \<Longrightarrow> ys = filter g xs"
  by (induction xs arbitrary: ys) (auto split: if_splits)

lemma parsed_columns:
  assumes "parse_row s (stored_tuple r bs) r = Inr t" "i < length (columns s)"
  shows "Tuple_GetColumn t s i = Tuple_GetColumn (stored_tuple r bs) s i"
proof -
  from assms(1) obtain vs t' where vs: "rmap (Tuple_GetColumn (stored_tuple r bs) s) [0..<length (columns s)] = Inr vs"
    "Tuple vs = Inr t'" "t = t'\<lparr>t_rid := r\<rparr>" by (auto simp: parse_row_def row_values_def)
  have "t_values t = vs" using vs(2,3) by (auto simp: Tuple_def)
  moreover have len: "length vs = length (columns s)" "Tuple_GetColumn (stored_tuple r bs) s i = Inr (vs ! i)"
    using vs(1) assms(2) by (auto simp: rmap_Inr list_all2_conv_all_nth)
  moreover have "vs \<noteq> []" using len(1) assms(2) by auto
  ultimately show ?thesis using assms(2) by (simp add: Tuple_GetColumn_def)
qed

text \<open>Every index of a table that supports look-ups lists the rows of the table by its column.\<close>

definition indexes_list :: "logical \<Rightarrow> catalog \<Rightarrow> bool" where
  "indexes_list D c \<longleftrightarrow> (\<forall>oid ti s rows ixs. lg_tables D oid = Some (s, rows) \<and> GetTable c oid = Some ti \<and> GetTableIndexes c (ti_name ti) = Inr ixs \<longrightarrow>
     (\<forall>ix \<in> set ixs. \<forall>a. ii_supports_point_lookup ix \<and> GetLookupAttr ix = Inr a \<longrightarrow>
        (\<exists>f. lg_index D (ii_oid ix) = Some f \<and> lists_rows s a rows f)))"

lemma scan_kept:
  assumes p: "lookup_column pred = Some (a, key)" "GetValue key = SQL_int w"
    and q: "scan_rows (Some pred) s rows = Inr out"
  shows "map snd out = map fst (filter (\<lambda>x. row_int s a x = Inr w) rows)"
    and "(t, r) \<in> set out \<Longrightarrow> \<exists>bs. (r, bs) \<in> set rows \<and> parse_row s (stored_tuple r bs) r = Inr t"
proof -
  from q obtain kept where kept: "rfilter (\<lambda>(r, bs). passes (Some pred) (stored_tuple r bs, s)) rows = Inr kept"
    "rmap (\<lambda>(r, bs). rbind (parse_row s (stored_tuple r bs) r) (\<lambda>t. Inr (t, r))) kept = Inr out" by (auto simp: scan_rows_def)
  have k: "kept = filter (\<lambda>x. row_int s a x = Inr w) rows"
    by (rule rfilter_cong [OF kept(1)]) (use passes_lookup [OF p] in auto)
  have o: "list_all2 (\<lambda>x y. (case x of (r, bs) \<Rightarrow> rbind (parse_row s (stored_tuple r bs) r) (\<lambda>t. Inr (t, r))) = Inr y) kept out"
    using kept(2) by (simp add: rmap_Inr)
  then have "list_all2 (\<lambda>x y. snd y = fst x) kept out" by (rule list_all2_mono) auto
  then have "map snd out = map fst kept" by (induction rule: list_all2_induct) simp_all
  then show "map snd out = map fst (filter (\<lambda>x. row_int s a x = Inr w) rows)" using k by simp
  show "\<exists>bs. (r, bs) \<in> set rows \<and> parse_row s (stored_tuple r bs) r = Inr t" if "(t, r) \<in> set out"
  proof -
    from that obtain i where i: "i < length out" "out ! i = (t, r)" by (auto simp: in_set_conv_nth)
    then have n: "i < length kept" "(case kept ! i of (r, bs) \<Rightarrow> rbind (parse_row s (stored_tuple r bs) r) (\<lambda>t. Inr (t, r))) = Inr (t, r)"
      using o by (auto simp: list_all2_conv_all_nth)
    then have "kept ! i \<in> set rows" using k nth_mem [OF n(1)] by simp
    with n(2) show ?thesis by (cases "kept ! i") auto
  qed
qed

text \<open>
  C10. Index scans for sequential scans. When the first rule changes the scan of a table with an INTEGER constant, and the
  indexes list the rows of the table, the index scan succeeds whenever the scan does and gives the same records, each
  once. It gives them without the decoded values: every column reads the same at its offset, but \<^verbatim>\<open>GetValue\<close>, which
  the server prints, is an invalid NULL.
\<close>

theorem index_scan_rule:
  assumes D: "indexes_list D c" and t: "lg_tables D oid = Some (s, rows)" "distinct (map fst rows)"
    and o: "OptimizeSeqScanToIndexScan (Some c) (SeqScanPlanNode sch oid (Some pred)) = Inr q" "q \<noteq> SeqScanPlanNode sch oid (Some pred)"
    and w: "\<forall>a key. lookup_column pred = Some (a, key) \<longrightarrow> GetValue key = SQL_int w"
    and out: "sem E D (SeqScanPlanNode sch oid (Some pred)) = Inr out"
  shows "\<exists>out'. sem E D q = Inr out' \<and> distinct (map snd out') \<and> set (map snd out') = set (map snd out) \<and>
    (\<forall>(t, r) \<in> set out. \<forall>(t', r') \<in> set out'. r' = r \<longrightarrow>
      (\<forall>i < length (columns s). Tuple_GetColumn t' s i = Tuple_GetColumn t s i \<and> Tuple_GetValue t' i = Value_default))"
proof -
  from o obtain a key ti ixs ix where q: "lookup_column pred = Some (a, key)" "GetTable c oid = Some ti"
    "GetTableIndexes c (ti_name ti) = Inr ixs" "find_index a ixs = Inr (Some ix)" "q = IndexScanPlanNode sch oid (ii_oid ix) key (Some pred)"
    by (auto simp: OptimizeSeqScanToIndexScan_def split: option.splits)
  have v: "GetValue key = SQL_int w" using w q(1) by blast
  have ix: "ix \<in> set ixs" "ii_supports_point_lookup ix" "GetLookupAttr ix = Inr a" using find_index_some [OF q(4)] by simp_all
  with D t(1) q(2,3) obtain f where f: "lg_index D (ii_oid ix) = Some f" "lists_rows s a rows f" unfolding indexes_list_def by blast
  have fw: "distinct (f w)" "set (f w) = fst ` {x \<in> set rows. row_int s a x = Inr w}" using f(2) unfolding lists_rows_def by blast+
  have sc: "scan_rows (Some pred) s rows = Inr out" using out t(1) by simp
  note kept = scan_kept [OF q(1) v sc]
  define out' where "out' = map (\<lambda>r. (stored_tuple r (the (map_of rows r)), r)) (f w)"
  have "map_of rows r \<noteq> None" if "r \<in> set (f w)" for r
    unfolding map_of_eq_None_iff using that fw(2) by auto
  then have "rmap (\<lambda>r. case map_of rows r of None \<Rightarrow> no_query | Some bs \<Rightarrow> Inr (stored_tuple r bs, r)) (f w) = Inr out'"
    unfolding out'_def by (intro rmap_pure) fastforce
  moreover have "Evaluate key None = Inr (SQL_int w)" using lookup_column_value [OF q(1)] v by simp
  ultimately have "sem E D q = Inr out'" by (simp add: q(5) t(1) f(1) GetAsInteger_def) (simp add: Value_int_def)
  moreover have o': "map snd out' = f w" by (simp add: out'_def comp_def)
  moreover have "set (map snd out) = set (f w)" unfolding kept(1) fw(2) by auto
  moreover have "Tuple_GetColumn t' s i = Tuple_GetColumn t s i \<and> Tuple_GetValue t' i = Value_default"
    if m: "(t, r) \<in> set out" "(t', r) \<in> set out'" and i: "i < length (columns s)" for t t' r i
  proof -
    from kept(2) [OF m(1)] obtain bs where bs: "(r, bs) \<in> set rows" "parse_row s (stored_tuple r bs) r = Inr t" by blast
    then have "map_of rows r = Some bs" using t(2) by simp
    then have "t' = stored_tuple r bs" using m(2) by (auto simp: out'_def)
    then show ?thesis using parsed_columns [OF bs(2) i]
      by (simp add: Tuple_GetValue_def stored_tuple_def Tuple_DeserializeFrom_def Tuple_empty_def)
  qed
  ultimately show ?thesis using fw(1) by (intro exI [of _ out']) (auto simp: o')
qed

section \<open>Witnesses\<close>

text \<open>A table with two rows, an index on its INTEGER column, and a join of the table with itself.\<close>

definition opt_schema :: schema where
  "opt_schema = Schema [Column ''a'' T_INTEGER 0]"

definition opt_rows :: "(rid \<times> byte list) list" where
  "opt_rows = [(RID 0 0, [7, 0, 0, 0]), (RID 0 1, [9, 0, 0, 0])]"

definition opt_db :: logical where
  "opt_db = \<lparr>lg_tables = (\<lambda>_. None)(1 \<mapsto> (opt_schema, opt_rows)), lg_pages = (\<lambda>_. [0]),
     lg_index = (\<lambda>_. None)(1 \<mapsto> (\<lambda>k. if k = 7 then [RID 0 0] else if k = 9 then [RID 0 1] else []))\<rparr>"

definition opt_catalog :: catalog where
  "opt_catalog = Catalog\<lparr>tables := [(1, \<lparr>ti_schema = opt_schema, ti_name = ''t'', ti_table = 0, ti_oid = 1\<rparr>)],
     indexes := [(1, (IndexInfo opt_schema ''i'' ''t'' 1 [0])\<lparr>ii_supports_point_lookup := True\<rparr>)], index_names := [(''t'', [(''i'', 1)])]\<rparr>"

definition opt_predicate :: expr where
  "opt_predicate = ComparisonExpression (ColumnValueExpression 0 0 T_INTEGER) (ConstantValueExpression (SQL_int 9)) Equal"

lemma opt_columns: "columns opt_schema = [(Column ''a'' T_INTEGER 0)\<lparr>c_offset := 0\<rparr>]"
  by (simp add: opt_schema_def Schema_def)

lemma opt_column: "Tuple_GetColumn (stored_tuple r [b, 0, 0, 0]) opt_schema 0 = Inr (SQL_int (ucast b))"
  by (simp add: Tuple_GetColumn_def stored_tuple_def Tuple_DeserializeFrom_def Tuple_empty_def opt_columns Column_def
      DeserializeFrom_def take_bytes_def of_le32_def)

lemma opt_row: "\<exists>t. parse_row opt_schema (stored_tuple r [b, 0, 0, 0]) r = Inr t \<and> t_values t = [SQL_int (ucast b)]"
  using opt_column [of r b] by (simp add: parse_row_def row_values_def opt_columns Tuple_def SerializeTo_def Value_int_def)

lemma opt_scan: "\<exists>t u. sem E opt_db (SeqScanPlanNode opt_schema 1 None) = Inr [(t, RID 0 0), (u, RID 0 1)] \<and>
    t_values t = [SQL_int 7] \<and> t_values u = [SQL_int 9]"
proof -
  obtain t u where "parse_row opt_schema (stored_tuple (RID 0 0) [7, 0, 0, 0]) (RID 0 0) = Inr t" "t_values t = [SQL_int 7]"
    "parse_row opt_schema (stored_tuple (RID 0 1) [9, 0, 0, 0]) (RID 0 1) = Inr u" "t_values u = [SQL_int 9]"
    using opt_row [of "RID 0 0" 7] opt_row [of "RID 0 1" 9] by auto
  then show ?thesis by (simp add: opt_db_def opt_rows_def scan_rows_def passes_def)
qed

lemma opt_keys: "join_keys (ComparisonExpression (ColumnValueExpression 1 0 T_INTEGER) (ColumnValueExpression 0 0 T_INTEGER) Equal) =
    Some (ColumnValueExpression 0 0 T_INTEGER, ColumnValueExpression 0 0 T_INTEGER)"
  by simp

theorem Optimize_joins_witness:
  "let scan = SeqScanPlanNode opt_schema 1 None;
       pred = ComparisonExpression (ColumnValueExpression 1 0 T_INTEGER) (ColumnValueExpression 0 0 T_INTEGER) Equal;
       p = NestedLoopJoinPlanNode opt_schema scan scan (Some pred)
   in \<exists>q. Optimize None p = Inr q \<and> q \<noteq> p \<and> sem demo_env opt_db q = sem demo_env opt_db p"
proof -
  define scan where "scan = SeqScanPlanNode opt_schema 1 None"
  define pred where "pred = ComparisonExpression (ColumnValueExpression 1 0 T_INTEGER) (ColumnValueExpression 0 0 T_INTEGER) Equal"
  define p where "p = NestedLoopJoinPlanNode opt_schema scan scan (Some pred)"
  obtain t u where r: "sem demo_env opt_db scan = Inr [(t, RID 0 0), (u, RID 0 1)]" "t_values t = [SQL_int 7]" "t_values u = [SQL_int 9]"
    using opt_scan unfolding scan_def by blast
  have "keys_ok T_INTEGER opt_schema (ColumnValueExpression 0 0 T_INTEGER) [(t, RID 0 0), (u, RID 0 1)]"
    using r(2,3) by (simp add: keys_ok_def column_value_def Tuple_GetColumn_def hash_key_def) (simp add: Value_int_def)
  then have "joins_ok demo_env opt_db p" using r(1) opt_keys by (auto simp: p_def pred_def scan_def)
  moreover have "Optimize None p = Inr (HashJoinPlanNode opt_schema scan scan (ColumnValueExpression 0 0 T_INTEGER) (ColumnValueExpression 0 0 T_INTEGER))"
    by (simp add: p_def scan_def pred_def rules_no_catalog OptimizeNLJToHashJoin_def)
  moreover note Optimize_joins [of p demo_env opt_db]
  ultimately have "\<exists>q. Optimize None p = Inr q \<and> q \<noteq> p \<and> sem demo_env opt_db q = sem demo_env opt_db p" by (auto simp: p_def)
  then show ?thesis by (simp add: Let_def p_def scan_def pred_def)
qed

lemma opt_catalog_table: "GetTable opt_catalog oid = (if oid = 1 then Some \<lparr>ti_schema = opt_schema, ti_name = ''t'', ti_table = 0, ti_oid = 1\<rparr> else None)"
  by (simp add: GetTable_def opt_catalog_def)

lemma opt_catalog_index: "GetTableIndexes opt_catalog ''t'' = Inr [(IndexInfo opt_schema ''i'' ''t'' 1 [0])\<lparr>ii_supports_point_lookup := True\<rparr>]"
  by (simp add: GetTableIndexes_def opt_catalog_def map_at_def)

lemma opt_indexes:
  assumes "lists_rows opt_schema 0 opt_rows (\<lambda>k. if k = 7 then [RID 0 0] else if k = 9 then [RID 0 1] else [])"
  shows "indexes_list opt_db opt_catalog"
  unfolding indexes_list_def
proof (intro allI impI ballI, elim conjE)
  fix oid ti s rows ixs ix a
  assume h: "lg_tables opt_db oid = Some (s, rows)" "GetTable opt_catalog oid = Some ti" "GetTableIndexes opt_catalog (ti_name ti) = Inr ixs"
    "ix \<in> set ixs" "GetLookupAttr ix = Inr a"
  from h(2) have ti: "oid = 1" "ti_name ti = ''t''" by (auto simp: opt_catalog_table split: if_splits)
  with h(3,4) have "ix = (IndexInfo opt_schema ''i'' ''t'' 1 [0])\<lparr>ii_supports_point_lookup := True\<rparr>" by (auto simp: opt_catalog_index)
  then have "ii_oid ix = 1" "a = 0" using h(5) by (simp_all add: IndexInfo_def GetLookupAttr_def)
  then show "\<exists>f. lg_index opt_db (ii_oid ix) = Some f \<and> lists_rows s a rows f" using assms h(1) ti(1) by (auto simp: opt_db_def)
qed

theorem index_scan_rule_witness:
  "\<exists>q out out'. OptimizeSeqScanToIndexScan (Some opt_catalog) (SeqScanPlanNode opt_schema 1 (Some opt_predicate)) = Inr q \<and>
     sem demo_env opt_db (SeqScanPlanNode opt_schema 1 (Some opt_predicate)) = Inr out \<and> sem demo_env opt_db q = Inr out' \<and> map snd out = [RID 0 1] \<and> set (map snd out') = set (map snd out)"
proof -
  let ?p = "SeqScanPlanNode opt_schema 1 (Some opt_predicate)"
  define q where "q = IndexScanPlanNode opt_schema 1 1 (ConstantValueExpression (SQL_int 9)) (Some opt_predicate)"
  have q: "OptimizeSeqScanToIndexScan (Some opt_catalog) ?p = Inr q" "q \<noteq> ?p"
    by (simp_all add: OptimizeSeqScanToIndexScan_def opt_predicate_def opt_catalog_table opt_catalog_index IndexInfo_def GetLookupAttr_def q_def)
  have ints: "row_int opt_schema 0 (r, [b, 0, 0, 0]) = Inr (ucast b)" for r b
    using opt_column [of r b] by (simp add: row_int_def GetAsInteger_def Value_int_def)
  have rows: "{x \<in> set opt_rows. row_int opt_schema 0 x = Inr k} =
      (if k = 7 then {(RID 0 0, [7, 0, 0, 0])} else if k = 9 then {(RID 0 1, [9, 0, 0, 0])} else {})" for k
    by (auto simp: opt_rows_def ints)
  have "lists_rows opt_schema 0 opt_rows (\<lambda>k. if k = 7 then [RID 0 0] else if k = 9 then [RID 0 1] else [])"
    by (simp add: lists_rows_def rows)
  from opt_indexes [OF this] have D: "indexes_list opt_db opt_catalog" .
  have t: "lg_tables opt_db 1 = Some (opt_schema, opt_rows)" "distinct (map fst opt_rows)" by (simp_all add: opt_db_def opt_rows_def)
  have w: "\<forall>a key. lookup_column opt_predicate = Some (a, key) \<longrightarrow> GetValue key = SQL_int 9" by (simp add: opt_predicate_def)
  obtain u where u: "parse_row opt_schema (stored_tuple (RID 0 1) [9, 0, 0, 0]) (RID 0 1) = Inr u" using opt_row [of "RID 0 1" 9] by blast
  have "passes (Some opt_predicate) (stored_tuple r [b, 0, 0, 0], opt_schema) = Inr (ucast b = (9 :: 32 word))" for r b
    using opt_column [of r b] by (simp add: passes_def opt_predicate_def column_value_def PerformComparison_def CompareEquals_def Value_int_def [of T_INTEGER]
        holds_for_bool v_int_eq)
  then have out: "sem demo_env opt_db ?p = Inr [(u, RID 0 1)]"
    using u by (simp add: opt_db_def opt_rows_def scan_rows_def)
  from index_scan_rule [OF D t q w out] obtain out' where "sem demo_env opt_db q = Inr out'" "set (map snd out') = set (map snd [(u, RID 0 1)])"
    by blast
  moreover have "map snd [(u, RID 0 1)] = [RID 0 1]" by simp
  ultimately show ?thesis using q(1) out by (intro exI conjI)
qed

end
