(* ===== verification/Modifications.thy ===== *)
theory Modifications
  imports Optimizer
begin

text \<open>
  Modifications of a table through a scan of it: \<^verbatim>\<open>execution/executors/delete_executor.cpp\<close> and \<^verbatim>\<open>update_executor.cpp\<close>. The scan
  has moved on before its row is deleted or updated, and neither touches the slots of other rows: the rows that the scan still gives
  are those that it would have given. The loop is proved once, for a body that changes the record of its row; deletion and update
  are instances. The indexes of the table keep listing its rows.
\<close>

section \<open>Records in their slots\<close>

definition slots_of :: "(page_id \<Rightarrow> table_data) \<Rightarrow> page_id list \<Rightarrow> rid list" where
  "slots_of V ps = concat (map (\<lambda>p. map (\<lambda>i. RID p (of_nat i)) [0..<slots (V p)]) ps)"

lemma live_slots_of:
  assumes "heap_pages V ps"
  shows "live V ps = filter (\<lambda>r. heap_map V ps r \<noteq> None) (slots_of V ps)"
proof -
  have p: "live_from V p 0 = filter (\<lambda>r. heap_map V ps r \<noteq> None) (map (\<lambda>i. RID p (of_nat i)) [0..<slots (V p)])" if "p \<in> set ps" for p
  proof -
    have "heap_map V ps (RID p (of_nat i)) \<noteq> None \<longleftrightarrow> 0 < slot_len (V p) i" if i: "i < slots (V p)" for i
      using page_invD(3) [OF heap_pagesD(1) [OF assms \<open>p \<in> set ps\<close>]] i \<open>p \<in> set ps\<close> by (simp add: heap_map_def tuple_at_def unat_of_nat_16)
    then have "filter (\<lambda>i. 0 < slot_len (V p) i) [0..<slots (V p)] = filter (\<lambda>i. heap_map V ps (RID p (of_nat i)) \<noteq> None) [0..<slots (V p)]"
      by (intro filter_cong) auto
    then show ?thesis by (simp add: live_from_def live_slots_def filter_map comp_def)
  qed
  have "concat (map (\<lambda>p. live_from V p 0) qs) =
      filter (\<lambda>r. heap_map V ps r \<noteq> None) (concat (map (\<lambda>p. map (\<lambda>i. RID p (of_nat i)) [0..<slots (V p)]) qs))" if "set qs \<subseteq> set ps" for qs
    using that by (induction qs) (simp_all add: p)
  then show ?thesis by (simp add: live_def slots_of_def)
qed

text \<open>A change of the heap \<open>ps\<close> that leaves every slot in its place.\<close>

definition in_slots :: "(page_id \<Rightarrow> table_data) \<Rightarrow> (page_id \<Rightarrow> table_data) \<Rightarrow> page_id list \<Rightarrow> (rid \<Rightarrow> byte list option) \<Rightarrow> bool" where
  "in_slots V V' ps M \<longleftrightarrow> heap_pages V' ps \<and> heap_map V' ps = M \<and> (\<forall>q \<in> set ps. slots (V' q) = slots (V q)) \<and> (\<forall>q. q \<notin> set ps \<longrightarrow> V' q = V q)"

lemma in_slots_refl: "heap_pages V ps \<Longrightarrow> in_slots V V ps (heap_map V ps)"
  by (simp add: in_slots_def)

lemma in_slots_trans: "in_slots V V1 ps M1 \<Longrightarrow> in_slots V1 V2 ps M2 \<Longrightarrow> in_slots V V2 ps M2"
  by (simp add: in_slots_def)

lemma live_in_slots:
  assumes "heap_pages V ps" "in_slots V V' ps M" "dom M \<subseteq> dom (heap_map V ps)"
  shows "live V' ps = filter (\<lambda>r. M r \<noteq> None) (live V ps)"
proof -
  have "slots_of V' ps = slots_of V ps" using assms(2) by (auto simp: in_slots_def slots_of_def intro!: arg_cong [where f = concat])
  moreover have "live V' ps = filter (\<lambda>r. M r \<noteq> None) (slots_of V' ps)" using live_slots_of [of V' ps] assms(2) by (simp add: in_slots_def)
  moreover have "filter (\<lambda>r. M r \<noteq> None) (slots_of V ps) = filter (\<lambda>r. M r \<noteq> None) (filter (\<lambda>r. heap_map V ps r \<noteq> None) (slots_of V ps))"
    using assms(3) by (auto intro!: filter_cong)
  ultimately show ?thesis by (simp add: live_slots_of [OF assms(1)])
qed

lemma live_change:
  assumes hp: "heap_pages V ps" and V': "in_slots V V' ps ((heap_map V ps)(r := v))" and live: "live V ps = pre @ r # rs"
  shows "live V' ps = (pre @ (if v = None then [] else [r])) @ rs" "stored_rows V' ps rs = stored_rows V ps rs"
    "stored_rows V' ps pre = stored_rows V ps pre"
proof -
  have s: "set (live V ps) = dom (heap_map V ps)" by (rule live_contents [OF hp])
  then have r: "heap_map V ps r \<noteq> None" using live by auto
  have d: "r \<notin> set pre" "r \<notin> set rs" using live_distinct [OF hp] live by auto
  have "dom ((heap_map V ps)(r := v)) \<subseteq> dom (heap_map V ps)" using r by auto
  from live_in_slots [OF hp V' this] have "live V' ps = filter (\<lambda>q. ((heap_map V ps)(r := v)) q \<noteq> None) (pre @ r # rs)" by (simp add: live)
  moreover have "\<forall>q \<in> set pre \<union> set rs. ((heap_map V ps)(r := v)) q \<noteq> None" using d live s by auto
  then have "filter (\<lambda>q. ((heap_map V ps)(r := v)) q \<noteq> None) pre = pre" "filter (\<lambda>q. ((heap_map V ps)(r := v)) q \<noteq> None) rs = rs"
    unfolding filter_id_conv by blast+
  ultimately show "live V' ps = (pre @ (if v = None then [] else [r])) @ rs" by (simp del: fun_upd_apply) simp
  show "stored_rows V' ps rs = stored_rows V ps rs" "stored_rows V' ps pre = stored_rows V ps pre" using V' d by (auto simp: in_slots_def)
qed

section \<open>The loop\<close>

text \<open>
  A body that changes the record of its row to \<open>new\<close> and the catalog by \<open>act\<close>, with one access to the pool. \<open>fits V xs\<close> is
  what it needs to go through the rows \<open>xs\<close>.
\<close>

definition modifies_row :: "(row \<Rightarrow> int \<Rightarrow> int exec) \<Rightarrow> (row \<Rightarrow> catalog \<Rightarrow> catalog) \<Rightarrow> (row \<Rightarrow> byte list option) \<Rightarrow>
    ((page_id \<Rightarrow> table_data) \<Rightarrow> row list \<Rightarrow> bool) \<Rightarrow> page_id list \<Rightarrow> bool" where
  "modifies_row body act new fits ps \<longleftrightarrow> (\<forall>c P V S F x xs L d n.
     fits V (x # xs) \<and> heap_pages V ps \<and> set ps \<subseteq> S \<and> heap_map V ps (snd x) \<noteq> None \<and> snap (c, P, V, S, F) L d \<and> 0 < L \<and> n < 2 ^ 31 - 1 \<longrightarrow>
     (\<exists>V' d'. body x n d = Some (Inr (n + 1, d')) \<and> snap (act x c, P, V', S, F) (L - 1) d' \<and>
        in_slots V V' ps ((heap_map V ps)(snd x := new x)) \<and> fits V' xs))"

definition changed :: "(row \<Rightarrow> byte list option) \<Rightarrow> row list \<Rightarrow> (rid \<Rightarrow> byte list option) \<Rightarrow> rid \<Rightarrow> byte list option" where
  "changed new out M = fold (\<lambda>x M. M(snd x := new x)) out M"

lemma changed_simps [simp]: "changed new [] M = M" "changed new (x # xs) M = changed new xs (M(snd x := new x))"
  by (simp_all add: changed_def)

lemma modify_loop:
  assumes body: "modifies_row body act new fits ps" and S: "set ps \<subseteq> S"
    and "heap_pages V ps" "live V ps = pre @ rs" "scan_rows p (ti_schema ti) (stored_rows V ps rs) = Inr out" "fits V out"
    "snap (c, P, V, S, F) L d" "length rs * (length ps + 1) + length out \<le> L" "0 \<le> n" "n + int (length out) < 2 ^ 31"
  shows "\<exists>V' e' d'. drain (SeqScan_Next p) body n (SeqScanExecutor (Some ti) (hd (rs @ [Heap_End]))) d =
      Some (Inr ((n + int (length out), e'), d')) \<and>
    snap (fold act out c, P, V', S, F) (L - (length rs * (length ps + 1) + length out)) d' \<and> in_slots V V' ps (changed new out (heap_map V ps))"
  using assms(3-)
proof (induction out arbitrary: V pre rs c L d n)
  case Nil
  have L: "length rs * (length ps + 1) \<le> L" using Nil.prems(6) by simp
  from scan_next_spec [OF refl Nil.prems(1) S Nil.prems(2,3,5) L] obtain d' where
    d': "scan_next ti p (hd (rs @ [Heap_End])) d = Some (Inr ((None, Heap_End), d'))"
    "snap (c, P, V, S, F) (L - length rs * (length ps + 1)) d'" by blast
  then have "SeqScan_Next p (SeqScanExecutor (Some ti) (hd (rs @ [Heap_End]))) d = Some (Inr ((None, SeqScanExecutor (Some ti) Heap_End), d'))"
    by (simp add: SeqScan_Next_def ebind_def)
  then have "drain (SeqScan_Next p) body n (SeqScanExecutor (Some ti) (hd (rs @ [Heap_End]))) d =
      Some (Inr ((n, SeqScanExecutor (Some ti) Heap_End), d'))" by (rule drain_step(1))
  then show ?case using d'(2) in_slots_refl [OF Nil.prems(1)]
    by (intro exI [of _ V] exI [of _ "SeqScanExecutor (Some ti) Heap_End"] exI [of _ d']) simp
next
  case (Cons x xs)
  let ?e = "\<lambda>rs. SeqScanExecutor (Some ti) (hd (rs @ [Heap_End]))"
  have L: "length rs * (length ps + 1) \<le> L" using Cons.prems(6) by simp
  from scan_next_spec [OF refl Cons.prems(1) S Cons.prems(2,3,5) L] obtain pre' rs' k d1 where
    n: "live V ps = pre' @ snd x # rs'" "length rs = k + length rs'"
    "scan_next ti p (hd (rs @ [Heap_End])) d = Some (Inr ((Some x, hd (rs' @ [Heap_End])), d1))"
    "scan_rows p (ti_schema ti) (stored_rows V ps rs') = Inr xs" "snap (c, P, V, S, F) (L - k * (length ps + 1)) d1" by blast
  have m: "length rs * (length ps + 1) = k * (length ps + 1) + length rs' * (length ps + 1)" unfolding n(2) by (rule add_mult_distrib)
  have "heap_map V ps (snd x) \<noteq> None" using live_contents [OF Cons.prems(1)] n(1) by (auto simp: dom_def)
  moreover have "0 < L - k * (length ps + 1)" using Cons.prems(6) m by simp
  moreover have "n < 2 ^ 31 - 1" using Cons.prems(8) by simp
  ultimately obtain V1 d2 where v: "body x n d1 = Some (Inr (n + 1, d2))" "snap (act x c, P, V1, S, F) (L - k * (length ps + 1) - 1) d2"
    "in_slots V V1 ps ((heap_map V ps)(snd x := new x))" "fits V1 xs"
    using body Cons.prems(1,4) S n(5) unfolding modifies_row_def by blast
  note lv = live_change [OF Cons.prems(1) v(3) n(1)]
  have V1: "heap_pages V1 ps" "heap_map V1 ps = (heap_map V ps)(snd x := new x)" using v(3) by (simp_all add: in_slots_def)
  have rows: "scan_rows p (ti_schema ti) (stored_rows V1 ps rs') = Inr xs" using n(4) by (simp only: lv(2))
  have L': "length rs' * (length ps + 1) + length xs \<le> L - k * (length ps + 1) - 1"
    "L - k * (length ps + 1) - 1 - (length rs' * (length ps + 1) + length xs) = L - (length rs * (length ps + 1) + length (x # xs))"
    using Cons.prems(6) m by simp_all
  have c: "0 \<le> n + 1" "n + 1 + int (length xs) < 2 ^ 31" "n + 1 + int (length xs) = n + int (length (x # xs))" using Cons.prems(7,8) by simp_all
  from Cons.IH [OF V1(1) lv(1) rows v(4,2) L'(1) c(1,2)] obtain V' e' d' where
    ih: "drain (SeqScan_Next p) body (n + 1) (?e rs') d2 = Some (Inr ((n + 1 + int (length xs), e'), d'))"
    "snap (fold act xs (act x c), P, V', S, F) (L - k * (length ps + 1) - 1 - (length rs' * (length ps + 1) + length xs)) d'"
    "in_slots V1 V' ps (changed new xs (heap_map V1 ps))" by blast
  have "SeqScan_Next p (?e rs) d = Some (Inr ((Some x, ?e rs'), d1))" by (simp add: SeqScan_Next_def ebind_def n(3))
  then have "drain (SeqScan_Next p) body n (?e rs) d = ebind (body x n) (\<lambda>n'. drain (SeqScan_Next p) body n' (?e rs')) d1"
    by (rule drain_step(2))
  then have
    "drain (SeqScan_Next p) body n (?e rs) d = Some (Inr ((n + int (length (x # xs)), e'), d'))"
    using v(1) ih(1) c(3) by (simp add: ebind_def)
  moreover have "in_slots V V' ps (changed new (x # xs) (heap_map V ps))" using in_slots_trans [OF v(3) ih(3)] V1(2) by simp
  ultimately show ?case using ih(2) unfolding L'(2) by (intro exI [of _ V'] exI [of _ e'] exI [of _ d']) simp
qed

section \<open>Entries of the indexes\<close>

lemma update_twice: "AList.update k v (AList.update k u m) = AList.update k v m"
  by (induction m) auto

lemma update_index_comp: "update_index oid g (update_index oid f c) = update_index oid (\<lambda>i. g (f i)) c"
  by (auto simp: update_index_def update_twice split: option.split)

lemma GetIndex_update: "GetIndex (update_index oid f c) oid' = (if oid' = oid then map_option f (GetIndex c oid) else GetIndex c oid')"
  by (auto simp: update_index_def GetIndex_def split: option.split)

lemma update_index_fields [simp]:
  "tables (update_index oid f c) = tables c" "table_names (update_index oid f c) = table_names c"
  "index_names (update_index oid f c) = index_names c"
  by (simp_all add: update_index_def split: option.split)

text \<open>One change of the entries for every index with look-ups.\<close>

definition entry_changes :: "(index_info \<Rightarrow> index_info \<Rightarrow> index_info) \<Rightarrow> index_info list \<Rightarrow> catalog \<Rightarrow> catalog" where
  "entry_changes f ixs = fold (\<lambda>ix. if ii_supports_point_lookup ix then update_index (ii_oid ix) (f ix) else id) ixs"

lemma entry_changes_Cons [simp]:
  "entry_changes f [] c = c"
  "entry_changes f (ix # ixs) c = entry_changes f ixs (if ii_supports_point_lookup ix then update_index (ii_oid ix) (f ix) c else c)"
  by (simp_all add: entry_changes_def)

lemma entry_changes_fields [simp]:
  "tables (entry_changes f ixs c) = tables c" "table_names (entry_changes f ixs c) = table_names c"
  "index_names (entry_changes f ixs c) = index_names c"
  by (induction ixs arbitrary: c) simp_all

lemma entry_changes_other: "oid \<notin> ii_oid ` set ixs \<Longrightarrow> GetIndex (entry_changes f ixs c) oid = GetIndex c oid"
  by (induction ixs arbitrary: c) (auto simp: GetIndex_update)

lemma entry_changes_at:
  assumes "distinct (map ii_oid ixs)" "ix \<in> set ixs" "ii_supports_point_lookup ix"
  shows "GetIndex (entry_changes f ixs c) (ii_oid ix) = map_option (f ix) (GetIndex c (ii_oid ix))"
  using assms
proof (induction ixs arbitrary: c)
  case (Cons i ixs)
  show ?case
  proof (cases "i = ix")
    case True
    then show ?thesis using Cons.prems entry_changes_other [of "ii_oid ix" ixs f] by (simp add: GetIndex_update)
  next
    case False
    then have "ix \<in> set ixs" "ii_oid i \<noteq> ii_oid ix" using Cons.prems by auto
    then show ?thesis using Cons by (auto simp: GetIndex_update)
  qed
qed simp

definition same_fields :: "(index_info \<Rightarrow> index_info) \<Rightarrow> bool" where
  "same_fields f \<longleftrightarrow> (\<forall>i. ii_name (f i) = ii_name i \<and> ii_table_name (f i) = ii_table_name i \<and> ii_oid (f i) = ii_oid i \<and>
     ii_key_attrs (f i) = ii_key_attrs i \<and> ii_supports_point_lookup (f i) = ii_supports_point_lookup i)"

lemma entry_changes_ok:
  assumes "\<And>ix. same_fields (f ix)" "catalog_ok c"
  shows "catalog_ok (entry_changes f ixs c)"
  using assms(2)
proof (induction ixs arbitrary: c)
  case (Cons ix ixs)
  have "catalog_ok (update_index (ii_oid ix) (f ix) c)"
    by (rule update_index_ok [OF Cons.prems]) (use assms(1) in \<open>simp add: same_fields_def\<close>)
  then show ?case using Cons by simp
qed simp

lemma entry_changes_keep:
  assumes "\<And>ix. same_fields (f ix)"
  shows "\<exists>g. same_fields g \<and> GetIndex (entry_changes f ixs c) oid = map_option g (GetIndex c oid)"
proof (induction ixs arbitrary: c)
  case Nil
  have "same_fields (\<lambda>i. i)" by (simp add: same_fields_def)
  then show ?case by (intro exI [of _ "\<lambda>i. i"]) (simp add: option.map_ident)
next
  case (Cons ix ixs)
  obtain g where g: "same_fields g" "GetIndex (entry_changes f (ix # ixs) c) oid =
      map_option g (GetIndex (if ii_supports_point_lookup ix then update_index (ii_oid ix) (f ix) c else c) oid)"
    using Cons [of "if ii_supports_point_lookup ix then update_index (ii_oid ix) (f ix) c else c"] by auto
  have "same_fields (\<lambda>i. g (f ix i))" using g(1) assms [of ix] by (simp add: same_fields_def)
  then show ?case using g by (cases "ii_supports_point_lookup ix \<and> oid = ii_oid ix") (auto simp: GetIndex_update option.map_comp comp_def)
qed

text \<open>The loop over the indexes in the executors.\<close>

lemma on_catalog_id: "ret () = on_catalog id"
  by (simp add: ret_def on_catalog_def fun_eq_iff)

lemma on_catalog_seq: "ebind (on_catalog f) (\<lambda>_. on_catalog g) = on_catalog (\<lambda>c. g (f c))"
  by (simp add: ebind_def on_catalog_def fun_eq_iff)

lemma efor_changes:
  assumes "\<forall>ix \<in> set ixs. body ix = (if ii_supports_point_lookup ix then on_catalog (update_index (ii_oid ix) (f ix)) else ret ())"
  shows "efor body ixs = on_catalog (entry_changes f ixs)"
  using assms
proof (induction ixs)
  case (Cons ix ixs)
  then have "efor body (ix # ixs) = ebind (on_catalog (if ii_supports_point_lookup ix then update_index (ii_oid ix) (f ix) else id))
      (\<lambda>_. on_catalog (entry_changes f ixs))" by (simp add: on_catalog_id)
  also have "\<dots> = on_catalog (entry_changes f (ix # ixs))" unfolding on_catalog_seq by (rule arg_cong [where f = on_catalog]) auto
  finally show ?case .
qed (simp add: on_catalog_id fun_eq_iff on_catalog_def)

text \<open>The indexes list the rows of a heap under their keys.\<close>

definition indexed :: "schema \<Rightarrow> index_info list \<Rightarrow> catalog \<Rightarrow> (rid \<Rightarrow> byte list option) \<Rightarrow> bool" where
  "indexed s ixs c M \<longleftrightarrow> (\<forall>ix \<in> set ixs. ii_supports_point_lookup ix \<longrightarrow>
     (\<exists>a i. GetLookupAttr ix = Inr a \<and> GetIndex c (ii_oid ix) = Some i \<and> ix.exact i (row_keys s a M)))"

lemma row_keys_upd: "row_keys s a (M(r := v)) = (row_keys s a M)(r := (case v of None \<Rightarrow> None | Some bs \<Rightarrow> row_keys s a (\<lambda>_. Some bs) r))"
  by (auto simp: row_keys_def fun_eq_iff split: option.split)

text \<open>What a change of the entries must do for one index and one row.\<close>

definition follows :: "schema \<Rightarrow> (index_info \<Rightarrow> index_info \<Rightarrow> index_info) \<Rightarrow> index_info list \<Rightarrow> (rid \<Rightarrow> byte list option) \<Rightarrow> rid \<Rightarrow>
    byte list option \<Rightarrow> bool" where
  "follows s f ixs M r v \<longleftrightarrow> (\<forall>ix \<in> set ixs. \<forall>a i. ii_supports_point_lookup ix \<and> GetLookupAttr ix = Inr a \<and> ix.exact i (row_keys s a M) \<longrightarrow>
     ix.exact (f ix i) (row_keys s a (M(r := v))))"

lemma indexed_step:
  assumes "indexed s ixs c M" "distinct (map ii_oid ixs)" "follows s f ixs M r v"
  shows "indexed s ixs (entry_changes f ixs c) (M(r := v))"
  unfolding indexed_def
proof (intro ballI impI)
  fix ix assume ix: "ix \<in> set ixs" "ii_supports_point_lookup ix"
  with assms(1) obtain a i where i: "GetLookupAttr ix = Inr a" "GetIndex c (ii_oid ix) = Some i" "ix.exact i (row_keys s a M)"
    unfolding indexed_def by blast
  then have "ix.exact (f ix i) (row_keys s a (M(r := v)))" using assms(3) ix unfolding follows_def by blast
  then show "\<exists>a i. GetLookupAttr ix = Inr a \<and> GetIndex (entry_changes f ixs c) (ii_oid ix) = Some i \<and> ix.exact i (row_keys s a (M(r := v)))"
    using i(1,2) entry_changes_at [OF assms(2) ix] by simp
qed

lemma indexed_loop:
  assumes "distinct (map ii_oid ixs)" and "distinct (map snd out)" "\<forall>x \<in> set out. \<forall>M'. M' (snd x) = M (snd x) \<longrightarrow> follows s (f x) ixs M' (snd x) (new x)"
    and "indexed s ixs c M"
  shows "indexed s ixs (fold (\<lambda>x. entry_changes (f x) ixs) out c) (changed new out M)"
  using assms(2-)
proof (induction out arbitrary: c M)
  case (Cons x out)
  have "follows s (f x) ixs M (snd x) (new x)" using Cons.prems(2) by simp
  from indexed_step [OF Cons.prems(3) assms(1) this] have
    i: "indexed s ixs (entry_changes (f x) ixs c) (M(snd x := new x))" .
  have "\<forall>y \<in> set out. \<forall>M'. M' (snd y) = (M(snd x := new x)) (snd y) \<longrightarrow> follows s (f y) ixs M' (snd y) (new y)"
    using Cons.prems(1,2) by (auto simp: image_iff)
  from Cons.IH [OF _ this i] show ?case using Cons.prems(1) by (simp del: fun_upd_apply)
qed simp

section \<open>The body of a deletion\<close>

lemma heap_slots_change:
  assumes "heap_pages V ps" "p \<in> set ps" "page_inv d" "GetNextPageId d = GetNextPageId (V p)" "slots d = slots (V p)"
    and "tuple_at d = (tuple_at (V p))(unat slot := v)"
  shows "in_slots V (V(p := d)) ps ((heap_map V ps)(RID p slot := v))"
  using heap_pages_change [OF assms(1,3,4)] heap_map_change [of p ps d V slot v, OF assms(2,6)] assms(2,5) by (auto simp: in_slots_def)

text \<open>The page of a live record, fetched and changed.\<close>

lemma record_page:
  assumes at: "heap_at b P V S ps L F" and r: "heap_map V ps r = Some old" and L: "0 < L"
  shows "rid_page_id r \<in> set ps" "page_inv (V (rid_page_id r))" "unat (rid_slot_num r) < slots (V (rid_page_id r))"
    and "\<exists>f b1. FetchPage b (rid_page_id r) = Inr (Some f, b1) \<and> page_read b1 f = V (rid_page_id r) \<and>
      (\<forall>d. \<exists>b2. UnpinPage (page_write b1 f d) (rid_page_id r) True = (True, b2) \<and>
         pool_at {} P (V(rid_page_id r := d)) S (L - 1) F b2 \<and> pool_size b2 = pool_size b)"
proof -
  note h = heap_atD [OF at]
  have p: "rid_page_id r \<in> set ps" "tuple_at (V (rid_page_id r)) (unat (rid_slot_num r)) = Some old"
    using r by (auto simp: heap_map_def split: if_splits)
  then show "rid_page_id r \<in> set ps" "page_inv (V (rid_page_id r))" using h(5) by auto
  show "unat (rid_slot_num r) < slots (V (rid_page_id r))" using p(2) by (simp add: tuple_at_def split: if_splits)
  have S: "rid_page_id r \<in> S" using p(1) h(2) by blast
  have "FetchPage b (rid_page_id r) \<noteq> Inr (None, b)" using fetch_exhausted [OF h(1) S] h(4) L by (auto simp: exhausted_def)
  with fetch_at [OF h(1) S] obtain f b1 where f: "FetchPage b (rid_page_id r) = Inr (Some f, b1)" by blast
  with change_at [OF h(1) S f] show "\<exists>f b1. FetchPage b (rid_page_id r) = Inr (Some f, b1) \<and> page_read b1 f = V (rid_page_id r) \<and>
      (\<forall>d. \<exists>b2. UnpinPage (page_write b1 f d) (rid_page_id r) True = (True, b2) \<and>
         pool_at {} P (V(rid_page_id r := d)) S (L - 1) F b2 \<and> pool_size b2 = pool_size b)" by auto
qed

lemma delete_at:
  assumes at: "heap_at b P V S ps L F" and r: "heap_map V ps r = Some old" and L: "0 < L"
  shows "\<exists>V' b'. Heap_DeleteTuple b r = Inr b' \<and> pool_at {} P V' S (L - 1) F b' \<and> pool_size b' = pool_size b \<and>
    in_slots V V' ps ((heap_map V ps)(r := None))"
proof -
  note p = record_page [OF at r L]
  from Page_DeleteTuple_ok [OF p(2,3)] obtain d where d: "Page_DeleteTuple (V (rid_page_id r)) (rid_slot_num r) = Inr d" "page_inv d"
    "slots d = slots (V (rid_page_id r))" "tuple_at d = (tuple_at (V (rid_page_id r)))(unat (rid_slot_num r) := None)"
    "GetNextPageId d = GetNextPageId (V (rid_page_id r))" by blast
  from p(4) obtain f b1 b2 where f: "FetchPage b (rid_page_id r) = Inr (Some f, b1)" "page_read b1 f = V (rid_page_id r)"
    "UnpinPage (page_write b1 f d) (rid_page_id r) True = (True, b2)" "pool_at {} P (V(rid_page_id r := d)) S (L - 1) F b2"
    "pool_size b2 = pool_size b" by blast
  have "Heap_DeleteTuple b r = Inr b2" using f(1-3) d(1) by (simp add: Heap_DeleteTuple_def)
  moreover have "in_slots V (V(rid_page_id r := d)) ps ((heap_map V ps)(r := None))"
    using heap_slots_change [OF heap_atD(3) [OF at] p(1) d(2,5,3,4)] by simp
  ultimately show ?thesis using f(4,5) by blast
qed

definition key_at :: "table_info \<Rightarrow> index_info \<Rightarrow> tuple \<Rightarrow> 32 word" where
  "key_at ti ix t = (case index_key ti ix t of Inl _ \<Rightarrow> 0 | Inr k \<Rightarrow> k)"

definition has_keys :: "table_info \<Rightarrow> index_info list \<Rightarrow> tuple \<Rightarrow> bool" where
  "has_keys ti ixs t \<longleftrightarrow> (\<forall>ix \<in> set ixs. ii_supports_point_lookup ix \<longrightarrow> (\<exists>k. index_key ti ix t = Inr k))"

lemma lift_bind: "ebind (lift (Inr x)) k = k x"
  by (simp add: fun_eq_iff ebind_def)

definition removed_entry :: "table_info \<Rightarrow> row \<Rightarrow> index_info \<Rightarrow> index_info \<Rightarrow> index_info" where
  "removed_entry ti x ix = RemoveEntry (key_at ti ix (fst x)) (snd x)"

lemma delete_modifies:
  "modifies_row (delete_row ti ixs) (\<lambda>x. entry_changes (removed_entry ti x) ixs) (\<lambda>_. None) (\<lambda>V xs. \<forall>x \<in> set xs. has_keys ti ixs (fst x)) ps"
  unfolding modifies_row_def
proof (intro allI impI, elim conjE)
  fix c P V S F x xs L d and n :: int
  assume k: "\<forall>x \<in> set (x # xs). has_keys ti ixs (fst x)" and hp: "heap_pages V ps" "set ps \<subseteq> S" and r: "heap_map V ps (snd x) \<noteq> None"
    and d: "snap (c, P, V, S, F) L d" and L: "0 < L" and n: "n < 2 ^ 31 - 1"
  obtain t rr where x: "x = (t, rr)" by (cases x)
  obtain old where old: "heap_map V ps (snd x) = Some old" using r by blast
  from delete_at [OF snap_heap [OF d hp] old L] obtain V' b' where b: "Heap_DeleteTuple (db_pool d) (snd x) = Inr b'"
    "pool_at {} P V' S (L - 1) F b'" "pool_size b' = pool_size (db_pool d)" "in_slots V V' ps ((heap_map V ps)(snd x := None))" by blast
  have loop: "efor (\<lambda>ix. if ii_supports_point_lookup ix
                        then ebind (lift (index_key ti ix t)) (\<lambda>key. on_catalog (update_index (ii_oid ix) (RemoveEntry key rr)))
                        else ret ()) ixs = on_catalog (entry_changes (removed_entry ti x) ixs)"
  proof (rule efor_changes, intro ballI)
    fix ix assume "ix \<in> set ixs"
    then have "ii_supports_point_lookup ix \<Longrightarrow> index_key ti ix t = Inr (key_at ti ix t)"
      using k by (auto simp: x has_keys_def key_at_def)
    then show "(if ii_supports_point_lookup ix
        then ebind (lift (index_key ti ix t)) (\<lambda>key. on_catalog (update_index (ii_oid ix) (RemoveEntry key rr))) else ret ()) =
      (if ii_supports_point_lookup ix then on_catalog (update_index (ii_oid ix) (removed_entry ti x ix)) else ret ())"
      by (simp add: lift_bind x removed_entry_def)
  qed
  let ?d1 = "d\<lparr>db_pool := b'\<rparr>"
  let ?d2 = "?d1\<lparr>db_catalog := entry_changes (removed_entry ti x) ixs (db_catalog d)\<rparr>"
  have "on_pool (\<lambda>b. Some (rbind (Heap_DeleteTuple b rr) (\<lambda>b'. Inr ((), b')))) d = Some (Inr ((), ?d1))"
    using b(1) by (simp add: on_pool_def x)
  moreover have "increment n = Inr (n + 1)" using n by (simp add: increment_def)
  ultimately have "delete_row ti ixs x n d = Some (Inr (n + 1, ?d2))"
    unfolding x delete_row_def prod.case loop [unfolded x] by (simp add: ebind_def on_catalog_def)
  moreover have "snap (entry_changes (removed_entry ti x) ixs c, P, V', S, F) (L - 1) ?d2" using d b(2,3) by (simp add: snap_def)
  ultimately show "\<exists>V' d'. delete_row ti ixs x n d = Some (Inr (n + 1, d')) \<and>
      snap (entry_changes (removed_entry ti x) ixs c, P, V', S, F) (L - 1) d' \<and>
      in_slots V V' ps ((heap_map V ps)(snd x := None)) \<and> (\<forall>x \<in> set xs. has_keys ti ixs (fst x))"
    using b(4) k by auto
qed

section \<open>The body of an update\<close>

lemma update_at:
  assumes at: "heap_at b P V S ps L F" and r: "heap_map V ps r = Some old" and L: "0 < L"
    and bs: "bs \<noteq> []" "length bs \<le> free_space (V (rid_page_id r))"
  shows "\<exists>V' b'. Heap_UpdateTuple b r bs = Inr (True, b') \<and> pool_at {} P V' S (L - 1) F b' \<and> pool_size b' = pool_size b \<and>
    in_slots V V' ps ((heap_map V ps)(r := Some bs)) \<and>
    (\<forall>q. free_space (V' q) = (if q = rid_page_id r then free_space (V q) - length bs else free_space (V q)))"
proof -
  note p = record_page [OF at r L]
  from Page_UpdateTuple_room [OF p(2,3) bs(2)] bs(1) obtain d where d: "Page_UpdateTuple (V (rid_page_id r)) (rid_slot_num r) bs = Inr (True, d)"
    "page_inv d" "slots d = slots (V (rid_page_id r))" "tuple_at d = (tuple_at (V (rid_page_id r)))(unat (rid_slot_num r) := Some bs)"
    "GetNextPageId d = GetNextPageId (V (rid_page_id r))" "free_space d = free_space (V (rid_page_id r)) - length bs" by auto
  from p(4) obtain f b1 b2 where f: "FetchPage b (rid_page_id r) = Inr (Some f, b1)" "page_read b1 f = V (rid_page_id r)"
    "UnpinPage (page_write b1 f d) (rid_page_id r) True = (True, b2)" "pool_at {} P (V(rid_page_id r := d)) S (L - 1) F b2"
    "pool_size b2 = pool_size b" by blast
  have "Heap_UpdateTuple b r bs = Inr (True, b2)" using f(1-3) d(1) by (simp add: Heap_UpdateTuple_def)
  moreover have "in_slots V (V(rid_page_id r := d)) ps ((heap_map V ps)(r := Some bs))"
    using heap_slots_change [OF heap_atD(3) [OF at] p(1) d(2,5,3,4)] by simp
  ultimately show ?thesis using f(4,5) d(6) by (intro exI [of _ "V(rid_page_id r := d)"] exI [of _ b2]) simp
qed

definition updated_tuple :: "schema \<Rightarrow> expr list \<Rightarrow> tuple \<Rightarrow> tuple res" where
  "updated_tuple s es t = rbind (rmap (\<lambda>e. Evaluate e (Some (t, s))) es) Tuple"

definition new_bytes :: "schema \<Rightarrow> expr list \<Rightarrow> row \<Rightarrow> byte list option" where
  "new_bytes s es x = (case updated_tuple s es (fst x) of Inl _ \<Rightarrow> None | Inr t \<Rightarrow> Some (t_data t))"

text \<open>What the new tuples of one page need: the old ones do not give their space back.\<close>

definition page_demand :: "(row \<Rightarrow> byte list option) \<Rightarrow> row list \<Rightarrow> page_id \<Rightarrow> nat" where
  "page_demand new xs q = sum_list (map (\<lambda>x. length (the (new x))) (filter (\<lambda>x. rid_page_id (snd x) = q) xs))"

definition updates_fit :: "schema \<Rightarrow> expr list \<Rightarrow> table_info \<Rightarrow> index_info list \<Rightarrow> (page_id \<Rightarrow> table_data) \<Rightarrow> row list \<Rightarrow> bool" where
  "updates_fit s es ti ixs V xs \<longleftrightarrow>
     (\<forall>x \<in> set xs. \<exists>t. updated_tuple s es (fst x) = Inr t \<and> t_data t \<noteq> [] \<and> has_keys ti ixs (fst x) \<and> has_keys ti ixs t) \<and>
     (\<forall>q. page_demand (new_bytes s es) xs q \<le> free_space (V q))"

definition moved_entry :: "schema \<Rightarrow> expr list \<Rightarrow> table_info \<Rightarrow> row \<Rightarrow> index_info \<Rightarrow> index_info \<Rightarrow> index_info" where
  "moved_entry s es ti x ix i =
     (case updated_tuple s es (fst x) of
        Inl _ \<Rightarrow> i
      | Inr t \<Rightarrow> InsertEntry (key_at ti ix t) (snd x) (RemoveEntry (key_at ti ix (fst x)) (snd x) i))"

lemma update_modifies:
  "modifies_row (update_row s es ti ixs) (\<lambda>x. entry_changes (moved_entry s es ti x) ixs) (new_bytes s es) (updates_fit s es ti ixs) ps"
  unfolding modifies_row_def
proof (intro allI impI, elim conjE)
  fix c P V S F x xs L d and n :: int
  assume k: "updates_fit s es ti ixs V (x # xs)" and hp: "heap_pages V ps" "set ps \<subseteq> S" and r: "heap_map V ps (snd x) \<noteq> None"
    and d: "snap (c, P, V, S, F) L d" and L: "0 < L" and n: "n < 2 ^ 31 - 1"
  obtain t rr where x: "x = (t, rr)" by (cases x)
  obtain old where old: "heap_map V ps (snd x) = Some old" using r by blast
  from k obtain u where u: "updated_tuple s es t = Inr u" "t_data u \<noteq> []" "has_keys ti ixs t" "has_keys ti ixs u"
    by (auto simp: updates_fit_def x)
  have new: "new_bytes s es x = Some (t_data u)" using u(1) by (simp add: new_bytes_def x)
  have dem: "page_demand (new_bytes s es) (x # xs) q =
      (if q = rid_page_id (snd x) then length (t_data u) + page_demand (new_bytes s es) xs q else page_demand (new_bytes s es) xs q)" for q
    by (simp add: page_demand_def new)
  have q: "page_demand (new_bytes s es) (x # xs) q \<le> free_space (V q)" for q using k by (simp add: updates_fit_def)
  have room: "length (t_data u) \<le> free_space (V (rid_page_id (snd x)))" using q [of "rid_page_id (snd x)"] dem by simp
  from update_at [OF snap_heap [OF d hp] old L u(2) room] obtain V' b' where b: "Heap_UpdateTuple (db_pool d) (snd x) (t_data u) = Inr (True, b')"
    "pool_at {} P V' S (L - 1) F b'" "pool_size b' = pool_size (db_pool d)" "in_slots V V' ps ((heap_map V ps)(snd x := Some (t_data u)))"
    "\<forall>q. free_space (V' q) = (if q = rid_page_id (snd x) then free_space (V q) - length (t_data u) else free_space (V q))" by blast
  have fits: "updates_fit s es ti ixs V' xs"
    using k q dem b(5) unfolding updates_fit_def by (auto split: if_splits)
  have loop: "efor (\<lambda>ix. if ii_supports_point_lookup ix
                        then ebind (lift (index_key ti ix t)) (\<lambda>old_key.
                             ebind (lift (index_key ti ix u)) (\<lambda>new_key.
                               on_catalog (\<lambda>c. update_index (ii_oid ix) (InsertEntry new_key rr)
                                             (update_index (ii_oid ix) (RemoveEntry old_key rr) c))))
                        else ret ()) ixs = on_catalog (entry_changes (moved_entry s es ti x) ixs)"
  proof (rule efor_changes, intro ballI)
    fix ix assume "ix \<in> set ixs"
    then have "ii_supports_point_lookup ix \<Longrightarrow> index_key ti ix t = Inr (key_at ti ix t) \<and> index_key ti ix u = Inr (key_at ti ix u)"
      using u(3,4) by (auto simp: has_keys_def key_at_def)
    moreover have "moved_entry s es ti x ix = (\<lambda>i. InsertEntry (key_at ti ix u) rr (RemoveEntry (key_at ti ix t) rr i))"
      using u(1) by (simp add: fun_eq_iff moved_entry_def x)
    ultimately show "(if ii_supports_point_lookup ix
        then ebind (lift (index_key ti ix t)) (\<lambda>old_key. ebind (lift (index_key ti ix u)) (\<lambda>new_key.
               on_catalog (\<lambda>c. update_index (ii_oid ix) (InsertEntry new_key rr) (update_index (ii_oid ix) (RemoveEntry old_key rr) c))))
        else ret ()) = (if ii_supports_point_lookup ix then on_catalog (update_index (ii_oid ix) (moved_entry s es ti x ix)) else ret ())"
      by (simp add: lift_bind update_index_comp)
  qed
  let ?d1 = "d\<lparr>db_pool := b'\<rparr>"
  let ?d2 = "?d1\<lparr>db_catalog := entry_changes (moved_entry s es ti x) ixs (db_catalog d)\<rparr>"
  have "on_pool (\<lambda>b. Some (Heap_UpdateTuple b rr (t_data u))) d = Some (Inr (True, ?d1))" using b(1) by (simp add: on_pool_def x)
  moreover have "increment n = Inr (n + 1)" using n by (simp add: increment_def)
  ultimately have "update_row s es ti ixs x n d = Some (Inr (n + 1, ?d2))"
    unfolding x update_row_def prod.case u(1) [unfolded updated_tuple_def] lift_bind loop [unfolded x] by (simp add: ebind_def on_catalog_def)
  moreover have "snap (entry_changes (moved_entry s es ti x) ixs c, P, V', S, F) (L - 1) ?d2" using d b(2,3) by (simp add: snap_def)
  ultimately show "\<exists>V' d'. update_row s es ti ixs x n d = Some (Inr (n + 1, d')) \<and>
      snap (entry_changes (moved_entry s es ti x) ixs c, P, V', S, F) (L - 1) d' \<and>
      in_slots V V' ps ((heap_map V ps)(snd x := new_bytes s es x)) \<and> updates_fit s es ti ixs V' xs"
    using b(4) fits new by auto
qed

section \<open>A modification as a whole\<close>

text \<open>A database whose tables have their own pages, whose catalog is consistent and whose indexes list the rows.\<close>

definition disjoint_pages :: "logical \<Rightarrow> bool" where
  "disjoint_pages D \<longleftrightarrow> (\<forall>o1 o2. lg_tables D o1 \<noteq> None \<and> lg_tables D o2 \<noteq> None \<and> o1 \<noteq> o2 \<longrightarrow> set (lg_pages D o1) \<inter> set (lg_pages D o2) = {})"

definition consistent :: "logical \<Rightarrow> db \<Rightarrow> bool" where
  "consistent D d \<longleftrightarrow> has_tables D d \<and> catalog_ok (db_catalog d) \<and> indexes_list D (db_catalog d) \<and> disjoint_pages D"

definition with_rows :: "logical \<Rightarrow> table_oid \<Rightarrow> page_id list \<Rightarrow> schema \<Rightarrow> (rid \<times> byte list) list \<Rightarrow> catalog \<Rightarrow> logical" where
  "with_rows D oid ps s rows c =
     D\<lparr>lg_tables := (lg_tables D)(oid \<mapsto> (s, rows)), lg_pages := (lg_pages D)(oid := ps),
       lg_index := (\<lambda>i. map_option (\<lambda>_. entries_of (the (GetIndex c i))) (lg_index D i))\<rparr>"

lemma with_rows_simps [simp]:
  "lg_tables (with_rows D oid ps s rows c) = (lg_tables D)(oid \<mapsto> (s, rows))" "lg_pages (with_rows D oid ps s rows c) = (lg_pages D)(oid := ps)"
  "lg_index (with_rows D oid ps s rows c) = (\<lambda>i. map_option (\<lambda>_. entries_of (the (GetIndex c i))) (lg_index D i))"
  by (simp_all add: with_rows_def)

text \<open>The two ways to say that an index lists the rows.\<close>

lemma lists_exact:
  assumes "heap_pages V ps"
  shows "lists_rows s a (stored_rows V ps (live V ps)) (entries_of i) \<longleftrightarrow> ix.exact i (row_keys s a (heap_map V ps))"
proof -
  have "fst ` {x \<in> set (stored_rows V ps (live V ps)). row_int s a x = Inr k} = {r. row_keys s a (heap_map V ps) r = Some k}" for k
  proof -
    have "row_int s a (r, the (heap_map V ps r)) = Inr k \<and> r \<in> dom (heap_map V ps) \<longleftrightarrow> row_keys s a (heap_map V ps) r = Some k" for r
      by (cases "heap_map V ps r"; cases "row_key s a (the (heap_map V ps r)) r") (auto simp: row_keys_def row_int_def row_key_def)
    then show ?thesis unfolding live_contents [OF assms, symmetric] by (force simp: image_iff)
  qed
  then show ?thesis by (auto simp: lists_rows_def ix.exact_def)
qed

lemma heap_pages_cong: "heap_pages V ps \<Longrightarrow> (\<And>q. q \<in> set ps \<Longrightarrow> V' q = V q) \<Longrightarrow> heap_pages V' ps"
  using linked_cong [of V ps V'] by (auto simp: heap_pages_def)

lemma stored_rows_cong:
  assumes "\<And>q. q \<in> set ps \<Longrightarrow> V' q = V q"
  shows "stored_rows V' ps (live V' ps) = stored_rows V ps (live V ps)"
  using live_cong [of ps V' V] heap_map_same [of ps V' V] assms by auto

lemma represents_change:
  assumes D: "represents D (c, P, V, S, F)" and t: "lg_tables D oid = Some (s, rows)"
    and c': "tables c' = tables c" "\<And>i. GetIndex c i \<noteq> None \<Longrightarrow> GetIndex c' i \<noteq> None"
    and V': "heap_pages V' ps" "set ps \<subseteq> S'" "S \<subseteq> S'" "hd ps = hd (lg_pages D oid)" "\<And>q. q \<notin> set ps \<Longrightarrow> V' q = V q"
    and other: "\<And>o'. lg_tables D o' \<noteq> None \<Longrightarrow> o' \<noteq> oid \<Longrightarrow> set (lg_pages D o') \<inter> set ps = {}"
  shows "represents (with_rows D oid ps s (stored_rows V' ps (live V' ps)) c') (c', P, V', S', F')"
  unfolding represents_def prod.case
proof (intro conjI allI impI)
  let ?D = "with_rows D oid ps s (stored_rows V' ps (live V' ps)) c'"
  fix o' s' rows' assume o': "lg_tables ?D o' = Some (s', rows')"
  have tab: "GetTable c' = GetTable c" using c'(1) by (simp add: GetTable_def fun_eq_iff)
  show "\<exists>ti qs. GetTable c' o' = Some ti \<and> ti_schema ti = s' \<and> heap_pages V' qs \<and> set qs \<subseteq> S' \<and> hd qs = ti_table ti \<and>
      lg_pages ?D o' = qs \<and> rows' = stored_rows V' qs (live V' qs)"
  proof (cases "o' = oid")
    case True
    from D t obtain ti where "GetTable c oid = Some ti" "ti_schema ti = s" "hd (lg_pages D oid) = ti_table ti"
      unfolding represents_def prod.case by blast
    then show ?thesis using o' V' True by (auto simp: tab)
  next
    case False
    then have l: "lg_tables D o' = Some (s', rows')" using o' by simp
    from D l obtain ti where ti: "GetTable c o' = Some ti" "ti_schema ti = s'" "heap_pages V (lg_pages D o')" "set (lg_pages D o') \<subseteq> S"
      "hd (lg_pages D o') = ti_table ti" "rows' = stored_rows V (lg_pages D o') (live V (lg_pages D o'))"
      unfolding represents_def prod.case by blast
    have same: "V' q = V q" if "q \<in> set (lg_pages D o')" for q using V'(5) [of q] other [of o'] l False that by blast
    have "set (lg_pages D o') \<subseteq> S'" using ti(4) V'(3) by blast
    then show ?thesis using ti(1,2,5,6) heap_pages_cong [OF ti(3) same] stored_rows_cong [of "lg_pages D o'" V' V, OF same] False
      by (simp add: tab)
  qed
next
  fix i f assume "lg_index (with_rows D oid ps s (stored_rows V' ps (live V' ps)) c') i = Some f"
  then obtain f0 where f: "lg_index D i = Some f0" "f = entries_of (the (GetIndex c' i))" by auto
  with D have "GetIndex c i \<noteq> None" unfolding represents_def prod.case by blast
  then show "\<exists>ix. GetIndex c' i = Some ix \<and> f = entries_of ix" using c'(2) [of i] f(2) by auto
qed

text \<open>The indexes of one table, of which no other table has any.\<close>

lemma table_indexes_facts:
  assumes c: "catalog_ok c" and ixs: "GetTableIndexes c t = Inr ixs"
  shows "ix \<in> set ixs \<longleftrightarrow> GetIndex c (ii_oid ix) = Some ix \<and> ii_table_name ix = t"
proof -
  have "ix \<in> set ixs \<longleftrightarrow> (\<exists>i. map_of (indexes c) i = Some ix) \<and> ii_table_name ix = t"
    using GetTableIndexes_ok [OF c, of t] ixs GetAllIndexes_ok(1) [OF c, of ix] by auto
  then show ?thesis using catalog_okD(5) [OF c, of _ ix] by (auto simp: GetIndex_def)
qed

lemma table_indexes_distinct:
  assumes c: "catalog_ok c" and ixs: "GetTableIndexes c t = Inr ixs"
  shows "distinct (map ii_oid ixs)"
proof (cases "map_of (index_names c) t")
  case None
  then show ?thesis using ixs by (simp add: GetTableIndexes_def)
next
  case (Some m)
  then have dm: "distinct (keys m)" using catalog_okD(1) [OF c] unfolding umaps_ok_def by blast
  have at: "map_of (indexes c) o' = Some ix \<Longrightarrow> ii_oid ix = o'" for o' ix using catalog_okD(5) [OF c] by blast
  have l: "list_all2 (\<lambda>x ix. map_of (indexes c) (snd x) = Some ix) m ixs"
  proof -
    have "rmap (\<lambda>(name, oid). map_at (indexes c) oid) m = Inr ixs" using ixs Some by (simp add: GetTableIndexes_def)
    then have "list_all2 (\<lambda>x ix. (case x of (name, oid) \<Rightarrow> map_at (indexes c) oid) = Inr ix) m ixs" by (simp add: rmap_Inr)
    then show ?thesis by (rule list_all2_mono) (auto simp: map_at_def split: option.splits)
  qed
  have name: "ii_name ix = fst x" if x: "x \<in> set m" "map_of (indexes c) (snd x) = Some ix" for x ix
  proof -
    have "index_oid_of c t (fst x) = Some (snd x)" using x(1) Some set_umap_iff [OF dm, of "fst x" "snd x"] by (simp add: index_oid_of_def)
    then show ?thesis using catalog_okD(4) [OF c, of t "fst x" "snd x"] x(2) by auto
  qed
  have "list_all2 (\<lambda>x ix. ii_name ix = fst x) m ixs" using l by (rule list.rel_mono_strong) (use name in blast)
  then have "map ii_name ixs = keys m" by (induction rule: list_all2_induct) simp_all
  then have dn: "distinct (map ii_name ixs)" using dm by simp
  have "inj_on ii_oid (set ixs)"
    using table_indexes_facts [OF c ixs] by (intro inj_onI) (metis option.inject)
  moreover have "distinct ixs" using dn by (simp add: distinct_map)
  ultimately show ?thesis by (simp add: distinct_map)
qed

text \<open>The rows that a scan gives are rows of the table, each once.\<close>

lemma scanned:
  assumes "scan_rows p s rows = Inr out"
  shows "x \<in> set out \<Longrightarrow> \<exists>bs. (snd x, bs) \<in> set rows \<and> parse_row s (stored_tuple (snd x) bs) (snd x) = Inr (fst x)"
    and "distinct (map fst rows) \<Longrightarrow> distinct (map snd out)"
proof -
  let ?ok = "\<lambda>(r, bs). passes p (stored_tuple r bs, s)" let ?parse = "\<lambda>(r, bs). rbind (parse_row s (stored_tuple r bs) r) (\<lambda>t. Inr (t, r))"
  from assms obtain kept where k: "rfilter ?ok rows = Inr kept" "rmap ?parse kept = Inr out" by (auto simp: scan_rows_def)
  have kept: "kept = filter (\<lambda>x. ?ok x = Inr True) rows" by (rule rfilter_cong [OF k(1)]) auto
  have o: "list_all2 (\<lambda>x y. ?parse x = Inr y) kept out" using k(2) by (simp add: rmap_Inr)
  then have f: "list_all2 (\<lambda>x y. snd y = fst x \<and> parse_row s (stored_tuple (fst x) (snd x)) (fst x) = Inr (fst y)) kept out"
    by (rule list_all2_mono) auto
  then have "map snd out = map fst kept" by (induction rule: list_all2_induct) simp_all
  then show "distinct (map fst rows) \<Longrightarrow> distinct (map snd out)" using distinct_map_filter [of fst rows] by (simp only: kept)
  assume "x \<in> set out"
  then obtain y where y: "y \<in> set kept" "snd x = fst y" "parse_row s (stored_tuple (fst y) (snd y)) (fst y) = Inr (fst x)"
    using f unfolding list_all2_conv_all_nth in_set_conv_nth by metis
  then have "(snd x, snd y) \<in> set rows" using kept by simp
  then show "\<exists>bs. (snd x, bs) \<in> set rows \<and> parse_row s (stored_tuple (snd x) bs) (snd x) = Inr (fst x)"
    by (intro exI [of _ "snd y"] conjI) (simp_all add: y(2,3))
qed

lemma find_row: "find (\<lambda>x. snd x = r) out = None \<longleftrightarrow> r \<notin> snd ` set out"
  by (force simp: find_None_iff)

lemma find_row_in: "find (\<lambda>x. snd x = r) out = Some x \<Longrightarrow> x \<in> set out"
  by (auto simp: find_Some_iff)

lemma changed_at:
  "distinct (map snd out) \<Longrightarrow> changed new out M r = (case find (\<lambda>x. snd x = r) out of None \<Rightarrow> M r | Some x \<Rightarrow> new x)"
proof (induction out arbitrary: M)
  case (Cons x out)
  have "snd x = r \<Longrightarrow> find (\<lambda>x. snd x = r) out = None" using Cons.prems by (auto simp: find_None_iff image_iff)
  then show ?case using Cons by (auto split: option.split)
qed simp

definition rows_after :: "(row \<Rightarrow> byte list option) \<Rightarrow> row list \<Rightarrow> (rid \<times> byte list) list \<Rightarrow> (rid \<times> byte list) list" where
  "rows_after new out rows = concat (map (\<lambda>(r, bs). case find (\<lambda>x. snd x = r) out of
     None \<Rightarrow> [(r, bs)] | Some x \<Rightarrow> (case new x of None \<Rightarrow> [] | Some bs' \<Rightarrow> [(r, bs')])) rows)"

lemma rows_after_none: "rows_after (\<lambda>_. None) out rows = filter (\<lambda>x. fst x \<notin> snd ` set out) rows"
proof (induction rows)
  case (Cons x rows)
  then show ?case using find_row [of "fst x" out]
    by (cases x; cases "find (\<lambda>y. snd y = fst x) out") (simp_all add: rows_after_def)
qed (simp add: rows_after_def)

lemma rows_after_some:
  assumes "\<forall>x \<in> set out. new x \<noteq> None"
  shows "rows_after new out rows = map (\<lambda>(r, bs). (r, case find (\<lambda>x. snd x = r) out of None \<Rightarrow> bs | Some x \<Rightarrow> the (new x))) rows"
proof (induction rows)
  case (Cons x rows)
  show ?case
  proof (cases "find (\<lambda>y. snd y = fst x) out")
    case (Some y)
    then obtain bs where "new y = Some bs" using find_row_in [OF Some] assms by blast
    then show ?thesis using Cons Some by (cases x) (simp add: rows_after_def)
  qed (use Cons in \<open>cases x, simp add: rows_after_def\<close>)
qed (simp add: rows_after_def)

lemma rows_after_change:
  assumes "heap_pages V ps" "in_slots V V' ps (changed new out (heap_map V ps))" "distinct (map snd out)" "snd ` set out \<subseteq> set (live V ps)"
  shows "stored_rows V' ps (live V' ps) = rows_after new out (stored_rows V ps (live V ps))"
proof -
  let ?M = "changed new out (heap_map V ps)"
  note at = changed_at [OF assms(3)]
  have "dom ?M \<subseteq> dom (heap_map V ps)"
  proof
    fix r assume "r \<in> dom ?M"
    show "r \<in> dom (heap_map V ps)"
    proof (cases "r \<in> snd ` set out")
      case False
      then have "find (\<lambda>x. snd x = r) out = None" by (simp add: find_row)
      then show ?thesis using \<open>r \<in> dom ?M\<close> by (simp add: at dom_def)
    qed (use assms(4) live_contents [OF assms(1)] in blast)
  qed
  then have l: "live V' ps = filter (\<lambda>r. ?M r \<noteq> None) (live V ps)" by (rule live_in_slots [OF assms(1,2)])
  have M: "heap_map V' ps = ?M" using assms(2) by (simp add: in_slots_def)
  have "map (\<lambda>r. (r, the (?M r))) (filter (\<lambda>r. ?M r \<noteq> None) rs) = rows_after new out (map (\<lambda>r. (r, the (heap_map V ps r))) rs)"
    if "set rs \<subseteq> dom (heap_map V ps)" for rs
    using that by (induction rs) (auto simp: rows_after_def at split: option.splits)
  then show ?thesis using live_contents [OF assms(1)] unfolding l M by simp
qed

text \<open>The catalog after the changes for all rows.\<close>

abbreviation row_changes :: "(row \<Rightarrow> index_info \<Rightarrow> index_info \<Rightarrow> index_info) \<Rightarrow> index_info list \<Rightarrow> row list \<Rightarrow> catalog \<Rightarrow> catalog" where
  "row_changes f ixs \<equiv> fold (\<lambda>x. entry_changes (f x) ixs)"

lemma row_changes_fields:
  "tables (row_changes f ixs out c) = tables c" "table_names (row_changes f ixs out c) = table_names c"
  "index_names (row_changes f ixs out c) = index_names c"
  by (induction out arbitrary: c) simp_all

lemma row_changes_other: "oid \<notin> ii_oid ` set ixs \<Longrightarrow> GetIndex (row_changes f ixs out c) oid = GetIndex c oid"
  by (induction out arbitrary: c) (simp_all add: entry_changes_other)

lemma row_changes_ok:
  assumes "\<And>x ix. same_fields (f x ix)"
  shows "catalog_ok c \<Longrightarrow> catalog_ok (row_changes f ixs out c)"
  by (induction out arbitrary: c) (simp_all add: entry_changes_ok assms)

lemma row_changes_keep:
  assumes "\<And>x ix. same_fields (f x ix)"
  shows "\<exists>g. same_fields g \<and> GetIndex (row_changes f ixs out c) oid = map_option g (GetIndex c oid)"
proof (induction out arbitrary: c)
  case Nil
  show ?case using entry_changes_keep [of "\<lambda>_ i. i" "[]" c oid] by (simp add: same_fields_def)
next
  case (Cons x out)
  obtain g where g: "same_fields g" "GetIndex (row_changes f ixs out (entry_changes (f x) ixs c)) oid =
      map_option g (GetIndex (entry_changes (f x) ixs c) oid)" using Cons by blast
  obtain h where h: "same_fields h" "GetIndex (entry_changes (f x) ixs c) oid = map_option h (GetIndex c oid)"
    using entry_changes_keep [of "f x" ixs c oid] assms by blast
  have "same_fields (g \<circ> h)" using g(1) h(1) by (simp add: same_fields_def)
  then show ?case using g(2) h(2) by (intro exI [of _ "g \<circ> h"]) (simp add: option.map_comp comp_def)
qed

lemma indexes_list_start:
  assumes D: "represents D (c, P, V, S, F)" "indexes_list D c" "catalog_ok c" and t: "lg_tables D oid = Some (s, rows)" "GetTable c oid = Some ti"
    and ixs: "GetTableIndexes c (ti_name ti) = Inr ixs"
  shows "indexed s ixs c (heap_map V (lg_pages D oid))"
  unfolding indexed_def
proof (intro ballI impI)
  fix ix assume ix: "ix \<in> set ixs" "ii_supports_point_lookup ix"
  from table_indexes_facts [OF D(3) ixs, of ix] ix(1) have i: "GetIndex c (ii_oid ix) = Some ix" by simp
  then have "ii_key_attrs ix \<noteq> []" using catalog_okD(5) [OF D(3), of "ii_oid ix" ix] by (simp add: GetIndex_def)
  then obtain a where a: "GetLookupAttr ix = Inr a" by (cases "ii_key_attrs ix") (auto simp: GetLookupAttr_def)
  from D(2) t ixs ix a obtain f where f: "lg_index D (ii_oid ix) = Some f" "lists_rows s a rows f" unfolding indexes_list_def by blast
  from D(1) f(1) i have "f = entries_of ix" unfolding represents_def prod.case by fastforce
  moreover from D(1) t(1) have "heap_pages V (lg_pages D oid)" "rows = stored_rows V (lg_pages D oid) (live V (lg_pages D oid))"
    unfolding represents_def prod.case by blast+
  ultimately have "ix.exact ix (row_keys s a (heap_map V (lg_pages D oid)))" using f(2) lists_exact by metis
  then show "\<exists>a i. GetLookupAttr ix = Inr a \<and> GetIndex c (ii_oid ix) = Some i \<and> ix.exact i (row_keys s a (heap_map V (lg_pages D oid)))"
    using a i by blast
qed

lemma indexes_list_after:
  assumes D: "represents D (c, P, V, S, F)" "indexes_list D c" "catalog_ok c" and t: "lg_tables D oid = Some (s, rows)" "GetTable c oid = Some ti"
    and ixs: "GetTableIndexes c (ti_name ti) = Inr ixs" and f: "\<And>x ix. same_fields (f x ix)"
    and after: "heap_pages V' ps" "indexed s ixs (row_changes f ixs out c) (heap_map V' ps)"
  shows "indexes_list (with_rows D oid ps s (stored_rows V' ps (live V' ps)) (row_changes f ixs out c)) (row_changes f ixs out c)"
  unfolding indexes_list_def
proof (intro allI impI ballI, elim conjE)
  let ?c = "row_changes f ixs out c" let ?D = "with_rows D oid ps s (stored_rows V' ps (live V' ps)) ?c"
  fix o' ti' s' rows' ixs' ix a
  assume h: "lg_tables ?D o' = Some (s', rows')" "GetTable ?c o' = Some ti'" "GetTableIndexes ?c (ti_name ti') = Inr ixs'" "ix \<in> set ixs'"
    "ii_supports_point_lookup ix" "GetLookupAttr ix = Inr a"
  have c': "catalog_ok ?c" by (rule row_changes_ok [OF f D(3)])
  have ti': "GetTable c o' = Some ti'" using h(2) by (simp add: GetTable_def row_changes_fields)
  from table_indexes_facts [OF c' h(3), of ix] h(4) have i: "GetIndex ?c (ii_oid ix) = Some ix" "ii_table_name ix = ti_name ti'" by simp_all
  obtain g where g: "same_fields g" "GetIndex ?c (ii_oid ix) = map_option g (GetIndex c (ii_oid ix))" using row_changes_keep [of f, OF f] by blast
  then obtain i0 where i0: "GetIndex c (ii_oid ix) = Some i0" "ix = g i0" using i(1) by (cases "GetIndex c (ii_oid ix)") simp_all
  then have same: "ii_oid i0 = ii_oid ix" "ii_supports_point_lookup i0" "GetLookupAttr i0 = Inr a" "ii_table_name i0 = ti_name ti'"
    using g(1) h(5,6) i(2) by (auto simp: same_fields_def GetLookupAttr_def)
  have names: "o' = oid" if "ti_name ti' = ti_name ti"
    using catalog_okD(2) [OF D(3), of "ti_name ti" o'] catalog_okD(2) [OF D(3), of "ti_name ti" oid] ti' t(2) that by (auto simp: GetTable_def)
  from GetTableIndexes_ok [OF D(3), of "ti_name ti'"] obtain ixs0 where x0: "GetTableIndexes c (ti_name ti') = Inr ixs0" by blast
  have m0: "i0 \<in> set ixs0" using table_indexes_facts [OF D(3) x0, of i0] i0(1) same(1,4) by simp
  show "\<exists>f. lg_index ?D (ii_oid ix) = Some f \<and> lists_rows s' a rows' f"
  proof (cases "o' = oid")
    case True
    then have e: "ti' = ti" "s' = s" "rows' = stored_rows V' ps (live V' ps)" using ti' t(2) h(1) by simp_all
    have "i0 \<in> set ixs" using m0 x0 ixs e(1) by simp
    with after(2) same(2,3) obtain i where "GetIndex ?c (ii_oid i0) = Some i" "ix.exact i (row_keys s a (heap_map V' ps))"
      unfolding indexed_def by fastforce
    then have "ix.exact ix (row_keys s a (heap_map V' ps))" using same(1) i(1) by simp
    then have "lists_rows s' a rows' (entries_of ix)" using lists_exact [OF after(1)] e by simp
    moreover have "lg_index D (ii_oid ix) \<noteq> None"
      using D(2) t ixs \<open>i0 \<in> set ixs\<close> same(1-3) unfolding indexes_list_def by (metis option.distinct(1))
    ultimately show ?thesis using i(1) by auto
  next
    case False
    then have l: "lg_tables D o' = Some (s', rows')" using h(1) by simp
    from D(2) l ti' x0 m0 same(1-3) obtain f0 where f0: "lg_index D (ii_oid ix) = Some f0" "lists_rows s' a rows' f0"
      unfolding indexes_list_def by metis
    have "ii_oid ix \<notin> ii_oid ` set ixs"
    proof
      assume "ii_oid ix \<in> ii_oid ` set ixs"
      then obtain j where "j \<in> set ixs" "ii_oid j = ii_oid ix" by auto
      then have "i0 \<in> set ixs" "ii_table_name i0 = ti_name ti" using table_indexes_facts [OF D(3) ixs, of j] i0(1) by auto
      then show False using names same(4) False by simp
    qed
    then have "ix = i0" using row_changes_other [of "ii_oid ix" ixs f out c] i(1) i0(1) by simp
    moreover have "f0 = entries_of i0" using D(1) f0(1) i0(1) unfolding represents_def prod.case by fastforce
    ultimately show ?thesis using f0 i(1) by simp
  qed
qed

text \<open>The names of tables and indexes and all that is not an entry.\<close>

definition same_names :: "catalog \<Rightarrow> catalog \<Rightarrow> bool" where
  "same_names c c' \<longleftrightarrow> tables c' = tables c \<and> table_names c' = table_names c \<and> index_names c' = index_names c \<and>
     (\<forall>oid. \<exists>g. same_fields g \<and> GetIndex c' oid = map_option g (GetIndex c oid))"

text \<open>A consistent database after changes of one heap, with the changes of the indexes that follow them.\<close>

lemma consistent_after:
  assumes D: "represents D (c, P, V, S, F)" "catalog_ok c" "indexes_list D c" "disjoint_pages D"
    and t: "lg_tables D oid = Some (s, rows)" "GetTable c oid = Some ti" and ixs: "GetTableIndexes c (ti_name ti) = Inr ixs"
    and f: "\<And>x ix. same_fields (f x ix)" and out: "distinct (map snd out)"
    and fol: "\<forall>x \<in> set out. \<forall>M. M (snd x) = heap_map V (lg_pages D oid) (snd x) \<longrightarrow> follows s (f x) ixs M (snd x) (new x)"
    and d: "snap (row_changes f ixs out c, P, V', S', F') n d"
    and V': "heap_pages V' ps" "heap_map V' ps = changed new out (heap_map V (lg_pages D oid))" "set ps \<subseteq> S'" "S \<subseteq> S'" "hd ps = hd (lg_pages D oid)"
      "\<And>q. q \<notin> set ps \<Longrightarrow> V' q = V q" "set ps \<inter> S \<subseteq> set (lg_pages D oid)"
  shows "consistent (with_rows D oid ps s (stored_rows V' ps (live V' ps)) (row_changes f ixs out c)) d" "same_names c (db_catalog d)"
proof -
  let ?c = "row_changes f ixs out c" let ?D = "with_rows D oid ps s (stored_rows V' ps (live V' ps)) ?c"
  have other: "set (lg_pages D o') \<inter> set ps = {}" if o': "lg_tables D o' \<noteq> None" "o' \<noteq> oid" for o'
  proof -
    have "set (lg_pages D o') \<subseteq> S" using D(1) o'(1) unfolding represents_def prod.case by fastforce
    moreover have "set (lg_pages D o') \<inter> set (lg_pages D oid) = {}" using D(4) o' t(1) unfolding disjoint_pages_def by simp
    ultimately show ?thesis using V'(7) by blast
  qed
  have "set (lg_pages ?D o1) \<inter> set (lg_pages ?D o2) = {}" if "lg_tables ?D o1 \<noteq> None" "lg_tables ?D o2 \<noteq> None" "o1 \<noteq> o2" for o1 o2
    using that other [of o1] other [of o2] D(4) unfolding disjoint_pages_def by (cases "o1 = oid"; cases "o2 = oid") auto
  then have dis: "disjoint_pages ?D" unfolding disjoint_pages_def by blast
  have keep: "\<exists>g. same_fields g \<and> GetIndex ?c i = map_option g (GetIndex c i)" for i by (rule row_changes_keep [OF f])
  have rep: "represents ?D (?c, P, V', S', F')"
  proof (rule represents_change [OF D(1) t(1) row_changes_fields(1) _ V'(1,3,4,5,6) other])
    show "GetIndex ?c i \<noteq> None" if "GetIndex c i \<noteq> None" for i using keep [of i] that by auto
  qed
  from indexed_loop [OF table_indexes_distinct [OF D(2) ixs] out fol indexes_list_start [OF D(1,3,2) t ixs]]
  have ind: "indexed s ixs ?c (heap_map V' ps)" by (simp only: V'(2))
  show "consistent ?D d"
    using snap_has_tables [OF rep d] row_changes_ok [of f, OF f D(2)] indexes_list_after [OF D(1,3,2) t ixs f V'(1) ind] dis
    unfolding consistent_def snap_catalog [OF d] by blast
  show "same_names c (db_catalog d)" using keep by (simp add: same_names_def snap_catalog [OF d] row_changes_fields)
qed

lemma modify_scan:
  assumes D: "consistent D d" and t: "lg_tables D oid = Some (s, rows)" "GetTable (db_catalog d) oid = Some ti"
    and ixs: "GetTableIndexes (db_catalog d) (ti_name ti) = Inr ixs"
    and out: "scan_rows p s rows = Inr out" "int (length out) < 2 ^ 31"
    and body: "modifies_row body (\<lambda>x. entry_changes (f x) ixs) new fits (lg_pages D oid)" "fits (page_view (db_pool d)) out"
    and f: "\<And>x ix. same_fields (f x ix)"
    and fol: "\<forall>x \<in> set out. \<forall>bs M. (snd x, bs) \<in> set rows \<and> M (snd x) = Some bs \<longrightarrow> follows s (f x) ixs M (snd x) (new x)"
    and room: "room_for (length (lg_pages D oid) + length rows * (length (lg_pages D oid) + 1) + length out + n) 1 (db_pool d)"
  shows "\<exists>e0 d0 e1 d1 D'. exec_Init E (SeqScanPlanNode sch oid p) e d = Some (Inr (e0, d0)) \<and> db_catalog d0 = db_catalog d \<and>
     drain (exec_Next E (SeqScanPlanNode sch oid p)) body 0 e0 d0 = Some (Inr ((int (length out), e1), d1)) \<and>
     consistent D' d1 \<and> lg_tables D' = (lg_tables D)(oid \<mapsto> (s, rows_after new out rows)) \<and> lg_pages D' = lg_pages D \<and>
     same_names (db_catalog d) (db_catalog d1) \<and> room_for n 1 (db_pool d1)"
proof -
  let ?ps = "lg_pages D oid" let ?c = "db_catalog d" let ?c' = "row_changes f ixs out ?c"
  obtain P V S F where sn: "snapshot_of d = (?c, P, V, S, F)" and V: "V = page_view (db_pool d)" by (simp add: snapshot_of_def)
  have D4: "has_tables D d" "catalog_ok ?c" "indexes_list D ?c" "disjoint_pages D" using D by (simp_all add: consistent_def)
  have rep: "represents D (?c, P, V, S, F)" using has_tables_represents [OF D4(1)] sn by simp
  have ti: "ti_schema ti = s" "heap_pages V ?ps" "set ?ps \<subseteq> S" "hd ?ps = ti_table ti" "rows = stored_rows V ?ps (live V ?ps)"
    using rep t unfolding represents_def prod.case by fastforce+
  let ?L = "length ?ps + length rows * (length ?ps + 1) + length out + n"
  have "snap (snapshot_of d) ?L d"
    using room D4(1) by (simp add: snap_def snapshot_of_def room_for_def pool_at_def has_tables_def)
  then have d: "snap (?c, P, V, S, F) ?L d" by (simp only: sn)
  have "length ?ps \<le> ?L" by simp
  from Begin_at [OF snap_heap [OF d ti(2,3)] this] obtain b where
    b: "Heap_Begin (db_pool d) (hd ?ps) = Some (Inr (hd (live V ?ps @ [Heap_End]), b))" "heap_at b P V S ?ps (?L - length ?ps) F" by blast
  let ?d0 = "d\<lparr>db_pool := b\<rparr>" let ?e0 = "SeqScanExecutor (Some ti) (hd (live V ?ps @ [Heap_End]))"
  have init: "exec_Init E (SeqScanPlanNode sch oid p) e d = Some (Inr (?e0, ?d0))"
    using t(2) b(1) ti(4) on_pool_run [of "\<lambda>b. Heap_Begin b (ti_table ti)" d]
    by (simp add: SeqScan_Init_def ebind_def table_at_def)
  have d0: "snap (?c, P, V, S, F) (?L - length ?ps) ?d0" using heap_snap [OF d b(2)] by simp
  have len: "length (live V ?ps) = length rows" using ti(5) by simp
  have sc: "scan_rows p (ti_schema ti) (stored_rows V ?ps (live V ?ps)) = Inr out" using out(1) ti(1,5) by simp
  have fits: "fits V out" using body(2) V by simp
  have room': "length (live V ?ps) * (length ?ps + 1) + length out \<le> ?L - length ?ps"
    "?L - length ?ps - (length (live V ?ps) * (length ?ps + 1) + length out) = n" by (simp_all add: len)
  have count: "0 \<le> (0::int)" "0 + int (length out) < 2 ^ 31" using out(2) by simp_all
  from modify_loop [OF body(1) ti(3,2) _ sc fits d0 room'(1) count, of "[]"] obtain V' e1 d1 where
    r: "drain (SeqScan_Next p) body 0 ?e0 ?d0 = Some (Inr ((int (length out), e1), d1))" "snap (?c', P, V', S, F) n d1"
      "in_slots V V' ?ps (changed new out (heap_map V ?ps))" unfolding room'(2) by auto
  let ?D = "with_rows D oid ?ps s (stored_rows V' ?ps (live V' ?ps)) ?c'"
  have rd: "distinct (map fst rows)" using live_distinct [OF ti(2)] ti(5) by (simp add: comp_def)
  have od: "distinct (map snd out)" by (rule scanned(2) [OF out(1) rd])
  have mem: "(snd x, the (heap_map V ?ps (snd x))) \<in> set rows \<and> heap_map V ?ps (snd x) \<noteq> None" if "x \<in> set out" for x
    using scanned(1) [OF out(1) that] live_contents [OF ti(2)] ti(5) by auto
  have sub: "snd ` set out \<subseteq> set (live V ?ps)" using mem live_contents [OF ti(2)] by auto
  have hp': "heap_pages V' ?ps" "heap_map V' ?ps = changed new out (heap_map V ?ps)" using r(3) by (simp_all add: in_slots_def)
  have "\<forall>x \<in> set out. \<forall>M'. M' (snd x) = heap_map V ?ps (snd x) \<longrightarrow> follows s (f x) ixs M' (snd x) (new x)"
    using fol mem by force
  from consistent_after [OF rep D4(2-4) t ixs f od this r(2) hp' ti(3) subset_refl refl]
  have "consistent ?D d1" "same_names ?c (db_catalog d1)" using r(3) by (auto simp: in_slots_def)
  moreover have "lg_tables ?D = (lg_tables D)(oid \<mapsto> (s, rows_after new out rows))" "lg_pages ?D = lg_pages D"
    using rows_after_change [OF ti(2) r(3) od sub] ti(5) by simp_all
  moreover have "room_for n 1 (db_pool d1)" using r(2) d by (auto simp: snap_def room_for_def pool_at_def)
  ultimately show ?thesis using init r(1) by (intro exI [of _ ?e0] exI [of _ ?d0] exI [of _ e1] exI [of _ d1] exI [of _ ?D]) simp
qed

text \<open>The key of a tuple in every index of its table is the one that its stored bytes read as.\<close>

definition same_keys :: "table_info \<Rightarrow> index_info list \<Rightarrow> tuple \<Rightarrow> rid \<times> byte list \<Rightarrow> bool" where
  "same_keys ti ixs t x \<longleftrightarrow> (\<forall>ix \<in> set ixs. ii_supports_point_lookup ix \<longrightarrow>
     (\<exists>a k. GetLookupAttr ix = Inr a \<and> row_int (ti_schema ti) a x = Inr k \<and> index_key ti ix t = Inr k))"

definition integer_keys :: "schema \<Rightarrow> index_info list \<Rightarrow> rid \<times> byte list \<Rightarrow> bool" where
  "integer_keys s ixs x \<longleftrightarrow> (\<forall>ix \<in> set ixs. ii_supports_point_lookup ix \<longrightarrow>
     (\<exists>a k. GetLookupAttr ix = Inr a \<and> a < length (columns s) \<and> row_int s a x = Inr k))"

lemma parsed_keys:
  assumes "parse_row (ti_schema ti) (stored_tuple r bs) r = Inr t" "integer_keys (ti_schema ti) ixs (r, bs)"
  shows "same_keys ti ixs t (r, bs)"
  unfolding same_keys_def
proof (intro ballI impI)
  fix ix assume "ix \<in> set ixs" "ii_supports_point_lookup ix"
  with assms(2) obtain a k where a: "GetLookupAttr ix = Inr a" "a < length (columns (ti_schema ti))" "row_int (ti_schema ti) a (r, bs) = Inr k"
    unfolding integer_keys_def by blast
  then have "index_key ti ix t = Inr k" using parsed_columns [OF assms(1) a(2)] by (simp add: index_key_def row_int_def)
  then show "\<exists>a k. GetLookupAttr ix = Inr a \<and> row_int (ti_schema ti) a (r, bs) = Inr k \<and> index_key ti ix t = Inr k" using a by blast
qed

lemma same_keys_key:
  assumes "same_keys ti ixs t (r, bs)" "ix \<in> set ixs" "ii_supports_point_lookup ix" "GetLookupAttr ix = Inr a"
  shows "M r = Some bs \<Longrightarrow> row_keys (ti_schema ti) a M r = Some (key_at ti ix t)"
proof -
  from assms obtain k where "row_int (ti_schema ti) a (r, bs) = Inr k" "index_key ti ix t = Inr k" unfolding same_keys_def by fastforce
  then show "M r = Some bs \<Longrightarrow> row_keys (ti_schema ti) a M r = Some (key_at ti ix t)"
    by (simp del: rbind_eq_Inr add: row_keys_def row_key_def row_int_def key_at_def)
qed

lemma same_keys_has: "same_keys ti ixs t x \<Longrightarrow> has_keys ti ixs t"
  unfolding same_keys_def has_keys_def by blast

lemma removed_follows:
  assumes "same_keys ti ixs (fst x) (snd x, bs)" "M (snd x) = Some bs"
  shows "follows (ti_schema ti) (removed_entry ti x) ixs M (snd x) None"
  unfolding follows_def row_keys_upd removed_entry_def
  using same_keys_key [of ti ixs "fst x" "snd x" bs _ _ M] assms by (auto intro!: ix.exact_remove)

lemma moved_follows:
  assumes "same_keys ti ixs (fst x) (snd x, bs)" "M (snd x) = Some bs"
    and u: "updated_tuple s es (fst x) = Inr u" "same_keys ti ixs u (snd x, t_data u)"
  shows "follows (ti_schema ti) (moved_entry s es ti x) ixs M (snd x) (new_bytes s es x)"
proof -
  have "row_keys (ti_schema ti) a (\<lambda>_. Some (t_data u)) (snd x) = Some (key_at ti ix u)"
    if "ix \<in> set ixs" "ii_supports_point_lookup ix" "GetLookupAttr ix = Inr a" for ix a
    by (rule same_keys_key [OF u(2) that]) simp
  then show ?thesis unfolding follows_def row_keys_upd moved_entry_def new_bytes_def u(1)
    using same_keys_key [of ti ixs "fst x" "snd x" bs _ _ M] assms(1,2) by (auto intro!: ix.exact_move)
qed

lemma entry_kept: "same_fields (InsertEntry k r)" "same_fields (RemoveEntry k r)"
  by (auto simp: same_fields_def InsertEntry_def RemoveEntry_def Let_def split: option.split)

lemma removed_fields: "same_fields (removed_entry ti x ix)"
  using entry_kept(2) by (simp add: removed_entry_def)

lemma moved_fields: "same_fields (moved_entry s es ti x ix)"
  using entry_kept by (auto simp: same_fields_def moved_entry_def split: sum.split)

text \<open>A modification answers with one row.\<close>

lemma one_row:
  assumes "exec_Init E p (CreateExecutor p) d = Some (Inr (e0, d0))" "exec_Next E p e0 d0 = Some (Inr ((Some (t, r), e1), d1))"
    and "exec_Next E p e1 d1 = Some (Inr ((None, e2), d2))"
  shows "Execute E p d = Some (Inr ([t], d2))"
proof -
  let ?body = "\<lambda>(t, _) ts. ret (ts @ [t])"
  have "drain (exec_Next E p) ?body [] e0 d0 = ebind (?body (t, r) []) (\<lambda>ts. drain (exec_Next E p) ?body ts e1) d1"
    by (rule drain_step(2)) (rule assms(2))
  moreover have "drain (exec_Next E p) ?body [t] e1 d1 = Some (Inr (([t], e2), d2))" by (rule drain_step(1)) (rule assms(3))
  ultimately show ?thesis using assms(1) by (simp add: Execute_def ebind_def)
qed

lemma count_row_ok: "\<exists>t. count_row n = Inr t \<and> t_values t = [SQL_int (word_of_int n)]"
  by (simp add: count_row_def Tuple_def SerializeTo_def Value_int_def)

text \<open>The records that a scan of a consistent database gives.\<close>

lemma consistent_table:
  assumes "consistent D d" "lg_tables D oid = Some (s, rows)" "GetTable (db_catalog d) oid = Some ti"
  shows "ti_schema ti = s" "distinct (map fst rows)"
proof -
  from assms have "ti_schema ti = s \<and> heap_ok (db_pool d) (ti_table ti) (lg_pages D oid) \<and>
      rows = map (\<lambda>r. (r, the (heap_contents (db_pool d) (lg_pages D oid) r))) (live (page_view (db_pool d)) (lg_pages D oid))"
    unfolding consistent_def has_tables_def by fastforce
  then show "ti_schema ti = s" "distinct (map fst rows)" using live_distinct [OF heap_okD(2)] by (auto simp: comp_def)
qed

lemma scanned_keys:
  assumes "scan_rows p s rows = Inr out" "distinct (map fst rows)" "ti_schema ti = s" "\<forall>x \<in> set rows. integer_keys s ixs x"
    and x: "x \<in> set out"
  shows "(snd x, bs) \<in> set rows \<Longrightarrow> same_keys ti ixs (fst x) (snd x, bs)" "has_keys ti ixs (fst x)"
proof -
  from scanned(1) [OF assms(1) x] obtain bs' where b: "(snd x, bs') \<in> set rows" "parse_row s (stored_tuple (snd x) bs') (snd x) = Inr (fst x)"
    by blast
  have k: "same_keys ti ixs (fst x) (snd x, bs')" by (rule parsed_keys) (use b assms(3,4) in auto)
  then show "has_keys ti ixs (fst x)" by (rule same_keys_has)
  show "same_keys ti ixs (fst x) (snd x, bs)" if "(snd x, bs) \<in> set rows"
    using eq_key_imp_eq_value [OF assms(2) that b(1)] k by simp
qed

text \<open>A table with one row and an index on its INTEGER column.\<close>

definition demo_index :: "page_id \<Rightarrow> index_info" where
  "demo_index p = (IndexInfo opt_schema ''i'' ''t'' 1 [0])\<lparr>ii_supports_point_lookup := True, ii_int_rid_map := [(7, [RID p 0])]\<rparr>"

definition indexed_catalog :: "page_id \<Rightarrow> catalog" where
  "indexed_catalog p = \<lparr>next_table_oid = 2, next_index_oid = 2, tables = [(1, \<lparr>ti_schema = opt_schema, ti_name = ''t'', ti_table = p, ti_oid = 1\<rparr>)], table_names = [(''t'', 1)],
     indexes = [(1, demo_index p)], index_names = [(''t'', [(''i'', 1)])]\<rparr>"

lemma indexed_catalog:
  "GetTable (indexed_catalog p) 1 = Some \<lparr>ti_schema = opt_schema, ti_name = ''t'', ti_table = p, ti_oid = 1\<rparr>"
  "GetTableIndexes (indexed_catalog p) ''t'' = Inr [demo_index p]" "GetIndex (indexed_catalog p) 1 = Some (demo_index p)"
  "GetLookupAttr (demo_index p) = Inr 0" "entries_of (demo_index p) = (\<lambda>k. if k = 7 then [RID p 0] else [])"
  "ii_supports_point_lookup (demo_index p)" "ii_oid (demo_index p) = 1"
  by (auto simp: indexed_catalog_def demo_index_def IndexInfo_def GetTable_def GetTableIndexes_def GetIndex_def map_at_def GetLookupAttr_def
      entries_of_def LookupInteger_def fun_eq_iff)

lemma indexed_catalog_ok: "catalog_ok (indexed_catalog p)"
  by (auto simp: catalog_ok_def umaps_ok_def indexed_catalog_def demo_index_def IndexInfo_def index_oid_of_def split: if_splits)

lemma demo_key: "row_int opt_schema 0 (r, [b, 0, 0, 0]) = Inr (ucast b)"
  using opt_column [of r b] by (simp add: row_int_def GetAsInteger_def) (simp add: Value_int_def)

lemma demo_consistent:
  "\<exists>d D p. consistent D d \<and> db_catalog d = indexed_catalog p \<and> lg_tables D 1 = Some (opt_schema, [(RID p 0, [7, 0, 0, 0])]) \<and> lg_pages D 1 = [p] \<and>
     room_for 50 1 (db_pool d) \<and> 4 \<le> free_space (page_view (db_pool d) p)"
proof -
  obtain b p where b: "heap_ok b p [p]" "heap_contents b [p] = (\<lambda>_. None)(RID p 0 \<mapsto> [7, 0, 0, 0])" "room_for 50 1 b"
    "free_space (page_view b p) = 4072" "live (page_view b) [p] = [RID p 0]" using demo_heap_row [of "[7, 0, 0, 0]"] by (auto simp: room_for_def)
  define d where "d = \<lparr>db_pool = b, db_catalog = indexed_catalog p\<rparr>"
  define D where "D = \<lparr>lg_tables = (\<lambda>_. None)(1 \<mapsto> (opt_schema, [(RID p 0, [7, 0, 0, 0])])), lg_pages = (\<lambda>_. [p]),
    lg_index = (\<lambda>_. None)(1 \<mapsto> entries_of (demo_index p))\<rparr>"
  have "has_tables D d"
    using b indexed_catalog [of p] unfolding has_tables_def by (auto simp: D_def d_def heap_ok_def split: if_splits)
  moreover have "{x. x = (RID p 0, [7, 0, 0, 0]) \<and> row_int opt_schema 0 x = Inr k} = (if k = 7 then {(RID p 0, [7, 0, 0, 0])} else {})" for k
    using demo_key [of "RID p 0" 7] by auto
  then have "lists_rows opt_schema 0 [(RID p 0, [7, 0, 0, 0])] (entries_of (demo_index p))"
    by (simp add: lists_rows_def indexed_catalog)
  then have "indexes_list D (indexed_catalog p)"
    using indexed_catalog [of p] unfolding indexes_list_def by (auto simp: D_def split: if_splits)
  ultimately have "consistent D d" using indexed_catalog_ok by (auto simp: consistent_def d_def D_def disjoint_pages_def)
  then show ?thesis using b(3,4) by (intro exI [of _ d] exI [of _ D] exI [of _ p]) (simp add: d_def D_def)
qed

lemma demo_scan: "\<exists>t. scan_rows None opt_schema [(r, [7, 0, 0, 0])] = Inr [(t, r)] \<and> t_values t = [SQL_int 7]"
  using opt_row [of r 7] by (auto simp: scan_rows_def passes_def)

lemma demo_integer_keys: "\<forall>x \<in> set [(r, [7, 0, 0, 0])]. integer_keys opt_schema [demo_index p] x"
  by (simp add: integer_keys_def indexed_catalog demo_key opt_columns)

section \<open>Properties\<close>

text \<open>
  C6. DELETE. On a consistent database, DELETE of the rows for which a condition on a scan holds answers with their number and leaves a
  consistent database: of the table exactly the other rows are left, in their order, no other table has changed, every index lists the
  rows that are left, and the catalog has the same tables and indexes.
\<close>

theorem Delete_correct:
  assumes D: "consistent D d" and t: "lg_tables D oid = Some (s, rows)" "GetTable (db_catalog d) oid = Some ti"
    and ixs: "GetTableIndexes (db_catalog d) (ti_name ti) = Inr ixs" "\<forall>x \<in> set rows. integer_keys s ixs x"
    and out: "scan_rows p s rows = Inr out" "int (length out) < 2 ^ 31"
    and room: "room_for (length (lg_pages D oid) + length rows * (length (lg_pages D oid) + 1) + length out + n) 1 (db_pool d)"
  shows "\<exists>t d' D'. Execute E (DeletePlanNode sch' (SeqScanPlanNode sch oid p) oid) d = Some (Inr ([t], d')) \<and>
    t_values t = [SQL_int (of_nat (length out))] \<and> consistent D' d' \<and>
    lg_tables D' = (lg_tables D)(oid \<mapsto> (s, filter (\<lambda>x. fst x \<notin> snd ` set out) rows)) \<and> lg_pages D' = lg_pages D \<and>
    same_names (db_catalog d) (db_catalog d') \<and> room_for n 1 (db_pool d')"
proof -
  let ?scan = "SeqScanPlanNode sch oid p"
  note ct = consistent_table [OF D t]
  note keys = scanned_keys [OF out(1) ct(2,1) ixs(2)]
  have fits: "\<forall>x \<in> set out. has_keys ti ixs (fst x)" using keys(2) by blast
  have "\<forall>x \<in> set out. \<forall>bs M. (snd x, bs) \<in> set rows \<and> M (snd x) = Some bs \<longrightarrow> follows s (removed_entry ti x) ixs M (snd x) None"
    using removed_follows [of ti ixs] keys(1) ct(1) by blast
  from modify_scan [OF D t ixs(1) out delete_modifies fits removed_fields this room] obtain e0 d0 e1 d1 D' where
    r: "exec_Init E ?scan (CreateExecutor ?scan) d = Some (Inr (e0, d0))" "db_catalog d0 = db_catalog d"
      "drain (exec_Next E ?scan) (delete_row ti ixs) 0 e0 d0 = Some (Inr ((int (length out), e1), d1))"
      "consistent D' d1" "lg_tables D' = (lg_tables D)(oid \<mapsto> (s, filter (\<lambda>x. fst x \<notin> snd ` set out) rows))" "lg_pages D' = lg_pages D"
      "same_names (db_catalog d) (db_catalog d1)" "room_for n 1 (db_pool d1)" unfolding rows_after_none by blast
  from count_row_ok obtain c where c: "count_row (int (length out)) = Inr c" "t_values c = [SQL_int (of_nat (length out))]"
    by (metis of_int_of_nat_eq)
  have at: "table_at oid d0 = Some (Inr (ti, d0))" "table_indexes ti d0 = Some (Inr (ixs, d0))"
    using t(2) ixs(1) r(2) by (simp_all add: table_at_def table_indexes_def ebind_def)
  have "Execute E (DeletePlanNode sch' ?scan oid) d = Some (Inr ([c], d1))"
    by (rule one_row [where ?e0.0 = "DeleteExecutor e0 False" and ?e1.0 = "DeleteExecutor e1 True" and ?d0.0 = d0 and ?d1.0 = d1])
      (use r(1,3) at c(1) in \<open>simp_all add: ebind_def Delete_Next_def\<close>)
  then show ?thesis using r(4-8) c(2) by (intro exI [of _ c] exI [of _ d1] exI [of _ D']) simp
qed

theorem Delete_correct_witness:
  "\<exists>d D r d' D' t. consistent D d \<and> lg_tables D 1 = Some (opt_schema, [(r, [7, 0, 0, 0])]) \<and>
     Execute demo_env (DeletePlanNode opt_schema (SeqScanPlanNode opt_schema 1 None) 1) d = Some (Inr ([t], d')) \<and> t_values t = [SQL_int 1] \<and>
     consistent D' d' \<and> lg_tables D' 1 = Some (opt_schema, [])"
proof -
  obtain d D p where d: "consistent D d" "db_catalog d = indexed_catalog p" "lg_tables D 1 = Some (opt_schema, [(RID p 0, [7, 0, 0, 0])])"
    "lg_pages D 1 = [p]" "room_for 50 1 (db_pool d)" using demo_consistent by blast
  obtain t where t: "scan_rows None opt_schema [(RID p 0, [7, 0, 0, 0])] = Inr [(t, RID p 0)]" using demo_scan by blast
  let ?ti = "\<lparr>ti_schema = opt_schema, ti_name = ''t'', ti_table = p, ti_oid = 1\<rparr>"
  have c: "GetTable (db_catalog d) 1 = Some ?ti" "GetTableIndexes (db_catalog d) (ti_name ?ti) = Inr [demo_index p]"
    using d(2) indexed_catalog [of p] by simp_all
  have l: "int (length [(t, RID p 0)]) < 2 ^ 31" by simp
  have "room_for (length (lg_pages D 1) + length [(RID p 0, [7, 0, 0, 0 :: byte])] * (length (lg_pages D 1) + 1) + length [(t, RID p 0)] + 0) 1 (db_pool d)"
    using d(4,5) by (simp add: room_for_def)
  from Delete_correct [OF d(1,3) c demo_integer_keys t l this, of demo_env opt_schema opt_schema] d(1,3) show ?thesis by fastforce
qed

text \<open>What an update needs: the new tuples can be made, have the keys that their bytes read as, and fit into the pages of the old ones.\<close>

definition updatable :: "schema \<Rightarrow> expr list \<Rightarrow> table_info \<Rightarrow> index_info list \<Rightarrow> row list \<Rightarrow> bool" where
  "updatable s es ti ixs out \<longleftrightarrow> (\<forall>x \<in> set out. \<exists>u. updated_tuple s es (fst x) = Inr u \<and> t_data u \<noteq> [] \<and> same_keys ti ixs u (snd x, t_data u))"

text \<open>
  C5. UPDATE. On a consistent database, UPDATE of the rows for which a condition on a scan holds answers with their number and leaves a
  consistent database: these rows have the values of the SET list under their old record identifiers, all others and the order of
  the rows are as before, every index lists the rows under their new keys, and the catalog has the same tables and indexes. The pages must
  have room for the new tuples besides the old ones.
\<close>

theorem Update_correct:
  assumes D: "consistent D d" and t: "lg_tables D oid = Some (s, rows)" "GetTable (db_catalog d) oid = Some ti"
    and ixs: "GetTableIndexes (db_catalog d) (ti_name ti) = Inr ixs" "\<forall>x \<in> set rows. integer_keys s ixs x"
    and out: "scan_rows p s rows = Inr out" "int (length out) < 2 ^ 31"
    and new: "updatable sch es ti ixs out" "\<forall>q. page_demand (new_bytes sch es) out q \<le> free_space (page_view (db_pool d) q)"
    and room: "room_for (length (lg_pages D oid) + length rows * (length (lg_pages D oid) + 1) + length out + n) 1 (db_pool d)"
  shows "\<exists>t d' D'. Execute E (UpdatePlanNode sch' (SeqScanPlanNode sch oid p) oid es) d = Some (Inr ([t], d')) \<and>
    t_values t = [SQL_int (of_nat (length out))] \<and> consistent D' d' \<and>
    lg_tables D' = (lg_tables D)(oid \<mapsto> (s, map (\<lambda>(r, bs). (r, case find (\<lambda>x. snd x = r) out of
      None \<Rightarrow> bs | Some x \<Rightarrow> the (new_bytes sch es x))) rows)) \<and> lg_pages D' = lg_pages D \<and>
    same_names (db_catalog d) (db_catalog d') \<and> room_for n 1 (db_pool d')"
proof -
  let ?scan = "SeqScanPlanNode sch oid p"
  note ct = consistent_table [OF D t]
  note keys = scanned_keys [OF out(1) ct(2,1) ixs(2)]
  have u: "\<exists>u. updated_tuple sch es (fst x) = Inr u \<and> t_data u \<noteq> [] \<and> same_keys ti ixs u (snd x, t_data u)" if "x \<in> set out" for x
    using new(1) that unfolding updatable_def by blast
  have fits: "updates_fit sch es ti ixs (page_view (db_pool d)) out"
    using u keys(2) same_keys_has new(2) unfolding updates_fit_def by blast
  have "\<forall>x \<in> set out. \<forall>bs M. (snd x, bs) \<in> set rows \<and> M (snd x) = Some bs \<longrightarrow>
      follows s (moved_entry sch es ti x) ixs M (snd x) (new_bytes sch es x)"
    using moved_follows [of ti ixs] keys(1) u ct(1) by blast
  from modify_scan [OF D t ixs(1) out update_modifies fits moved_fields this room] obtain e0 d0 e1 d1 D' where
    r: "exec_Init E ?scan (CreateExecutor ?scan) d = Some (Inr (e0, d0))" "db_catalog d0 = db_catalog d"
      "drain (exec_Next E ?scan) (update_row sch es ti ixs) 0 e0 d0 = Some (Inr ((int (length out), e1), d1))"
      "consistent D' d1" "lg_tables D' = (lg_tables D)(oid \<mapsto> (s, rows_after (new_bytes sch es) out rows))" "lg_pages D' = lg_pages D"
      "same_names (db_catalog d) (db_catalog d1)" "room_for n 1 (db_pool d1)" by blast
  have some: "\<forall>x \<in> set out. new_bytes sch es x \<noteq> None" using u unfolding new_bytes_def by fastforce
  from count_row_ok obtain c where c: "count_row (int (length out)) = Inr c" "t_values c = [SQL_int (of_nat (length out))]"
    by (metis of_int_of_nat_eq)
  have at: "table_at oid d0 = Some (Inr (ti, d0))" "table_indexes ti d0 = Some (Inr (ixs, d0))"
    using t(2) ixs(1) r(2) by (simp_all add: table_at_def table_indexes_def ebind_def)
  have "Execute E (UpdatePlanNode sch' ?scan oid es) d = Some (Inr ([c], d1))"
    by (rule one_row [where ?e0.0 = "UpdateExecutor e0 False" and ?e1.0 = "UpdateExecutor e1 True" and ?d0.0 = d0 and ?d1.0 = d1])
      (use r(1,3) at c(1) in \<open>simp_all add: ebind_def Update_Next_def\<close>)
  then show ?thesis using r(4-8) c(2) unfolding rows_after_some [OF some] by (intro exI [of _ c] exI [of _ d1] exI [of _ D']) simp
qed

theorem Update_correct_witness:
  "\<exists>d D r d' D' t. consistent D d \<and> lg_tables D 1 = Some (opt_schema, [(r, [7, 0, 0, 0])]) \<and>
     Execute demo_env (UpdatePlanNode opt_schema (SeqScanPlanNode opt_schema 1 None) 1 [ConstantValueExpression (SQL_int 9)]) d = Some (Inr ([t], d')) \<and>
     t_values t = [SQL_int 1] \<and> consistent D' d' \<and> lg_tables D' 1 = Some (opt_schema, [(r, [9, 0, 0, 0])])"
proof -
  let ?es = "[ConstantValueExpression (SQL_int 9)]"
  obtain d D p where d: "consistent D d" "db_catalog d = indexed_catalog p" "lg_tables D 1 = Some (opt_schema, [(RID p 0, [7, 0, 0, 0])])"
    "lg_pages D 1 = [p]" "room_for 50 1 (db_pool d)" "4 \<le> free_space (page_view (db_pool d) p)" using demo_consistent by blast
  obtain t where t: "scan_rows None opt_schema [(RID p 0, [7, 0, 0, 0])] = Inr [(t, RID p 0)]" using demo_scan by blast
  let ?ti = "\<lparr>ti_schema = opt_schema, ti_name = ''t'', ti_table = p, ti_oid = 1\<rparr>"
  have c: "GetTable (db_catalog d) 1 = Some ?ti" "GetTableIndexes (db_catalog d) (ti_name ?ti) = Inr [demo_index p]"
    using d(2) indexed_catalog [of p] by simp_all
  obtain u where u: "updated_tuple opt_schema ?es t = Inr u" "t_values u = [SQL_int 9]" "t_data u = [9, 0, 0, 0]"
    by (auto simp: updated_tuple_def Tuple_def SerializeTo_def Value_int_def le32_def)
  have "index_key ?ti (demo_index p) u = Inr 9" using u(2) indexed_catalog(4) [of p]
    by (simp add: index_key_def Tuple_GetColumn_def GetAsInteger_def) (simp add: Value_int_def)
  then have up: "updatable opt_schema ?es ?ti [demo_index p] [(t, RID p 0)]"
    using u indexed_catalog(4) [of p] demo_key [of "RID p 0" 9] by (simp add: updatable_def same_keys_def)
  have nb: "new_bytes opt_schema ?es (t, RID p 0) = Some [9, 0, 0, 0]" using u(1,3) by (simp add: new_bytes_def)
  have dem: "\<forall>q. page_demand (new_bytes opt_schema ?es) [(t, RID p 0)] q \<le> free_space (page_view (db_pool d) q)"
    using d(6) nb by (simp add: page_demand_def)
  have l: "int (length [(t, RID p 0)]) < 2 ^ 31" by simp
  have "room_for (length (lg_pages D 1) + length [(RID p 0, [7, 0, 0, 0 :: byte])] * (length (lg_pages D 1) + 1) + length [(t, RID p 0)] + 0) 1 (db_pool d)"
    using d(4,5) by (simp add: room_for_def)
  from Update_correct [OF d(1,3) c demo_integer_keys t l up dem this, of demo_env opt_schema] d(1,3) nb show ?thesis by fastforce
qed

end
