(* ===== verification/Insertion.thy ===== *)
theory Insertion
  imports Modifications
begin

text \<open>
  \<^verbatim>\<open>INSERT INTO t SELECT ... FROM s\<close> for two tables: \<^verbatim>\<open>execution/executors/insert_executor.cpp\<close> over a scan. Every row of the scan goes to the first page with
  room, or to a new page at the end of the heap, while the scan goes on over the pages of the other table; the indexes of the target list
  the new rows besides the old ones.
\<close>

section \<open>A heap that grows\<close>

text \<open>
  The heap \<open>ps\<close> of the pages \<open>S\<close> has become \<open>ps'\<close> with the records \<open>M\<close>: its new pages are none of \<open>S\<close>, and no other page has changed.
\<close>

definition grown :: "(page_id \<Rightarrow> table_data) \<Rightarrow> page_id set \<Rightarrow> page_id list \<Rightarrow> (page_id \<Rightarrow> table_data) \<Rightarrow> page_id set \<Rightarrow> page_id list \<Rightarrow>
    (rid \<Rightarrow> byte list option) \<Rightarrow> bool" where
  "grown V S ps V' S' ps' M \<longleftrightarrow> heap_pages V' ps' \<and> heap_map V' ps' = M \<and> S \<subseteq> S' \<and> set ps' \<subseteq> S' \<and> hd ps' = hd ps \<and>
     set ps \<subseteq> set ps' \<and> set ps' \<inter> S \<subseteq> set ps \<and> (\<forall>q. q \<notin> set ps' \<longrightarrow> V' q = V q)"

lemma grown_refl: "heap_pages V ps \<Longrightarrow> set ps \<subseteq> S \<Longrightarrow> grown V S ps V S ps (heap_map V ps)"
  by (auto simp: grown_def)

lemma grown_trans:
  assumes "grown V S ps V1 S1 ps1 M1" "grown V1 S1 ps1 V2 S2 ps2 M2" "set ps \<subseteq> S"
  shows "grown V S ps V2 S2 ps2 M2"
proof -
  have "set ps2 \<inter> S \<subseteq> set ps" using assms unfolding grown_def by blast
  moreover have "V2 q = V q" if "q \<notin> set ps2" for q
    using assms that unfolding grown_def by (metis subset_iff)
  ultimately show ?thesis using assms unfolding grown_def by auto
qed

lemma grown_others:
  assumes "grown V S ps V' S' ps' M" "set qs \<subseteq> S" "set ps \<inter> set qs = {}"
  shows "set ps' \<inter> set qs = {}" "\<And>q. q \<in> set qs \<Longrightarrow> V' q = V q"
  using assms unfolding grown_def by blast+

lemma page_fresh:
  assumes "pool_at {} P V S L F (b :: heap_pool)" "0 < L" "card {q. 0 < P q} < pool_size b"
  shows "F \<notin> S"
  using new_at [OF assms(1)] assms(2,3) by auto

lemma insert_at:
  assumes at: "heap_at b P V S ps L F" and L: "length ps + 1 \<le> L" and F: "F < 2 ^ 31" and free: "card {q. 0 < P q} + 2 \<le> pool_size b"
    and bs: "bs \<noteq> []" "length bs \<le> 4076"
  shows "\<exists>r b' V' S' ps' F'. Heap_InsertTuple b (hd ps) bs = Some (Inr (Some r, b')) \<and> pool_at {} P V' S' (L - (length ps + 1)) F' b' \<and>
    pool_size b' = pool_size b \<and> F' \<le> F + 1 \<and> heap_map V ps r = None \<and> length ps' \<le> length ps + 1 \<and>
    grown V S ps V' S' ps' ((heap_map V ps)(r \<mapsto> bs))"
proof -
  note h = heap_atD [OF at]
  have "heap_pages V ([] @ ps)" "set ([] @ ps) \<subseteq> S" using h(2,3) by simp_all
  from insert_walk [OF h(1) this h(7) F bs(1)] obtain r b' V' S' ps' F' where
    w: "walk (insert_round bs) None b (hd ps, ()) = Some (Inr (r, b'))" "pool_at {} P V' S' (L - (length ps + 1)) F' b'" "S \<subseteq> S'"
      "set ps' \<subseteq> S'" "F' \<le> F + 1" "inserted bs r V ps V' ps' F" "pool_size b' = pool_size b"
      "r = None \<longrightarrow> 4076 < length bs \<or> exhausted (length ps + 1) 2 L P b" by auto
  have "\<not> exhausted (length ps + 1) 2 L P b" using L free by (simp add: exhausted_def)
  then obtain rid where r: "r = Some rid" using w(8) bs(2) by (cases r) auto
  have "F \<notin> S" by (rule page_fresh [OF h(1) _ h(4)]) (use L in simp)
  then have "set ps' \<inter> S \<subseteq> set ps" "set ps \<subseteq> set ps'" "hd ps' = hd ps" "length ps' \<le> length ps + 1"
    using w(6) h(7) by (auto simp: inserted_def)
  moreover have "Heap_InsertTuple b (hd ps) bs = Some (Inr (Some rid, b'))" using w(1) r by (simp add: Heap_InsertTuple_def)
  ultimately show ?thesis using w(2-7) r
    by (intro exI [of _ rid] exI [of _ b'] exI [of _ V'] exI [of _ S'] exI [of _ ps'] exI [of _ F']) (simp add: inserted_def grown_def)
qed

section \<open>The body of an insertion\<close>

definition entered :: "table_info \<Rightarrow> row \<Rightarrow> index_info \<Rightarrow> index_info \<Rightarrow> index_info" where
  "entered ti x ix = InsertEntry (key_at ti ix (fst x)) (snd x)"

lemma entered_fields: "same_fields (entered ti x ix)"
  using entry_kept(1) by (simp add: entered_def)

definition stored_bytes :: "row \<Rightarrow> byte list option" where
  "stored_bytes x = Some (t_data (fst x))"

lemma entered_follows:
  assumes "same_keys ti ixs (fst x) (snd x, t_data (fst x))" "M (snd x) = None"
  shows "follows (ti_schema ti) (entered ti x) ixs M (snd x) (stored_bytes x)"
proof -
  have "row_keys (ti_schema ti) a (\<lambda>_. Some (t_data (fst x))) (snd x) = Some (key_at ti ix (fst x))"
    if "ix \<in> set ixs" "ii_supports_point_lookup ix" "GetLookupAttr ix = Inr a" for ix a
    by (rule same_keys_key [OF assms(1) that]) simp
  moreover have "row_keys (ti_schema ti) a M (snd x) = None" for a using assms(2) by (simp add: row_keys_def)
  ultimately show ?thesis unfolding follows_def row_keys_upd entered_def stored_bytes_def by (auto intro!: ix.exact_insert)
qed

lemma insert_row_run:
  assumes d: "snap (c, P, V, S, F) L d" and hp: "heap_pages V ps" "set ps \<subseteq> S" "hd ps = ti_table ti"
    and L: "length ps + 1 \<le> L" and F: "F < 2 ^ 31" and free: "card {q. 0 < P q} + 2 \<le> pool_size (db_pool d)"
    and t: "t_data t \<noteq> []" "length (t_data t) \<le> 4076" "has_keys ti ixs t" and n: "n < 2 ^ 31 - 1"
  shows "\<exists>r V' S' ps' F' d'. insert_row ti ixs (t, q) n d = Some (Inr (n + 1, d')) \<and>
    snap (entry_changes (entered ti (t, r)) ixs c, P, V', S', F') (L - (length ps + 1)) d' \<and> pool_size (db_pool d') = pool_size (db_pool d) \<and>
    F' \<le> F + 1 \<and> heap_map V ps r = None \<and> length ps' \<le> length ps + 1 \<and> grown V S ps V' S' ps' ((heap_map V ps)(r \<mapsto> t_data t))"
proof -
  from insert_at [OF snap_heap [OF d hp(1,2)] L F free t(1,2)] obtain r b' V' S' ps' F' where
    b: "Heap_InsertTuple (db_pool d) (hd ps) (t_data t) = Some (Inr (Some r, b'))" "pool_at {} P V' S' (L - (length ps + 1)) F' b'"
      "pool_size b' = pool_size (db_pool d)" "F' \<le> F + 1" "heap_map V ps r = None" "length ps' \<le> length ps + 1"
      "grown V S ps V' S' ps' ((heap_map V ps)(r \<mapsto> t_data t))" by blast
  have loop: "efor (\<lambda>ix. if ii_supports_point_lookup ix
                        then ebind (lift (index_key ti ix t)) (\<lambda>key. on_catalog (update_index (ii_oid ix) (InsertEntry key r)))
                        else ret ()) ixs = on_catalog (entry_changes (entered ti (t, r)) ixs)"
  proof (rule efor_changes, intro ballI)
    fix ix assume "ix \<in> set ixs"
    then have "ii_supports_point_lookup ix \<Longrightarrow> index_key ti ix t = Inr (key_at ti ix t)" using t(3) by (auto simp: has_keys_def key_at_def)
    then show "(if ii_supports_point_lookup ix
        then ebind (lift (index_key ti ix t)) (\<lambda>key. on_catalog (update_index (ii_oid ix) (InsertEntry key r))) else ret ()) =
      (if ii_supports_point_lookup ix then on_catalog (update_index (ii_oid ix) (entered ti (t, r) ix)) else ret ())"
      by (simp add: lift_bind entered_def)
  qed
  let ?d1 = "d\<lparr>db_pool := b'\<rparr>"
  let ?d2 = "?d1\<lparr>db_catalog := entry_changes (entered ti (t, r)) ixs (db_catalog d)\<rparr>"
  have "on_pool (\<lambda>b. Heap_InsertTuple b (ti_table ti) (t_data t)) d = Some (Inr (Some r, ?d1))" using b(1) hp(3) by (simp add: on_pool_def)
  moreover have "increment n = Inr (n + 1)" using n by (simp add: increment_def)
  ultimately have "insert_row ti ixs (t, q) n d = Some (Inr (n + 1, ?d2))"
    by (simp add: insert_row_def ebind_def loop on_catalog_def)
  moreover have "snap (entry_changes (entered ti (t, r)) ixs c, P, V', S', F') (L - (length ps + 1)) ?d2" using d b(2,3) by (simp add: snap_def)
  ultimately show ?thesis using b(3-7)
    by (intro exI [of _ r] exI [of _ V'] exI [of _ S'] exI [of _ ps'] exI [of _ F'] exI [of _ ?d2]) (simp del: fun_upd_apply)
qed

section \<open>The loop\<close>

lemma insert_loop:
  assumes "heap_pages V qs" "set qs \<subseteq> S" "live V qs = pre @ rs" "scan_rows p (ti_schema si) (stored_rows V qs rs) = Inr out"
    and "heap_pages V ps" "set ps \<subseteq> S" "hd ps = ti_table ti" "set ps \<inter> set qs = {}"
    and "\<forall>x \<in> set out. t_data (fst x) \<noteq> [] \<and> length (t_data (fst x)) \<le> 4076 \<and> has_keys ti ixs (fst x)"
    and "snap (c, P, V, S, F) L d" "F + int (length out) \<le> 2 ^ 31" "card {q. 0 < P q} + 2 \<le> pool_size (db_pool d)"
    and "length ps + length out \<le> K" "length rs * (length qs + 1) + length out * (K + 1) \<le> L" "0 \<le> n" "n + int (length out) < 2 ^ 31"
  shows "\<exists>new V' S' ps' F' e' d'. map fst new = map fst out \<and>
    drain (SeqScan_Next p) (insert_row ti ixs) n (SeqScanExecutor (Some si) (hd (rs @ [Heap_End]))) d = Some (Inr ((n + int (length out), e'), d')) \<and>
    snap (row_changes (entered ti) ixs new c, P, V', S', F') (L - (length rs * (length qs + 1) + length out * (K + 1))) d' \<and>
    grown V S ps V' S' ps' (changed stored_bytes new (heap_map V ps)) \<and> distinct (map snd new) \<and> (\<forall>x \<in> set new. heap_map V ps (snd x) = None)"
  using assms
proof (induction out arbitrary: V S ps pre rs c F L d n)
  case Nil
  have L: "length rs * (length qs + 1) \<le> L" using Nil.prems(14) by simp
  from scan_next_spec [OF refl Nil.prems(1,2,3,4,10) L] obtain d' where
    d': "scan_next si p (hd (rs @ [Heap_End])) d = Some (Inr ((None, Heap_End), d'))"
    "snap (c, P, V, S, F) (L - length rs * (length qs + 1)) d'" by blast
  then have "SeqScan_Next p (SeqScanExecutor (Some si) (hd (rs @ [Heap_End]))) d = Some (Inr ((None, SeqScanExecutor (Some si) Heap_End), d'))"
    by (simp add: SeqScan_Next_def ebind_def)
  then have "drain (SeqScan_Next p) (insert_row ti ixs) n (SeqScanExecutor (Some si) (hd (rs @ [Heap_End]))) d =
      Some (Inr ((n, SeqScanExecutor (Some si) Heap_End), d'))" by (rule drain_step(1))
  then show ?case using d'(2) grown_refl [OF Nil.prems(5,6)]
    by (intro exI [of _ "[]"] exI [of _ V] exI [of _ S] exI [of _ ps] exI [of _ F] exI [of _ "SeqScanExecutor (Some si) Heap_End"] exI [of _ d']) simp
next
  case (Cons x xs)
  let ?e = "\<lambda>rs. SeqScanExecutor (Some si) (hd (rs @ [Heap_End]))" let ?n = "length qs + 1"
  obtain t q where x: "x = (t, q)" by (cases x)
  have L: "length rs * ?n \<le> L" using Cons.prems(14) by simp
  from scan_next_spec [OF refl Cons.prems(1,2,3,4,10) L] obtain pre' rs' k d1 where
    s: "live V qs = pre' @ snd x # rs'" "length rs = k + length rs'"
    "scan_next si p (hd (rs @ [Heap_End])) d = Some (Inr ((Some x, hd (rs' @ [Heap_End])), d1))"
    "scan_rows p (ti_schema si) (stored_rows V qs rs') = Inr xs" "snap (c, P, V, S, F) (L - k * ?n) d1"
    "pool_size (db_pool d1) = pool_size (db_pool d)" by blast
  have m: "length rs * ?n = k * ?n + length rs' * ?n" unfolding s(2) by (rule add_mult_distrib)
  have L1: "length ps + 1 \<le> L - k * ?n" using Cons.prems(13,14) m by simp
  have F: "F < 2 ^ 31" using Cons.prems(11) by simp
  have free: "card {q. 0 < P q} + 2 \<le> pool_size (db_pool d1)" using Cons.prems(12) s(6) by simp
  have t: "t_data t \<noteq> []" "length (t_data t) \<le> 4076" "has_keys ti ixs t" using Cons.prems(9) by (simp_all add: x)
  have n: "n < 2 ^ 31 - 1" using Cons.prems(16) by simp
  from insert_row_run [OF s(5) Cons.prems(5-7) L1 F free t n, of q] obtain r V1 S1 ps1 F1 d2 where
    v: "insert_row ti ixs (t, q) n d1 = Some (Inr (n + 1, d2))" "snap (entry_changes (entered ti (t, r)) ixs c, P, V1, S1, F1) (L - k * ?n - (length ps + 1)) d2"
      "pool_size (db_pool d2) = pool_size (db_pool d1)" "F1 \<le> F + 1" "heap_map V ps r = None" "length ps1 \<le> length ps + 1"
      "grown V S ps V1 S1 ps1 ((heap_map V ps)(r \<mapsto> t_data t))" by blast
  note g = grown_others [OF v(7) Cons.prems(2,8)]
  have hp1: "heap_pages V1 qs" by (rule heap_pages_cong [OF Cons.prems(1)]) (rule g(2))
  have live1: "live V1 qs = (pre' @ [snd x]) @ rs'" using live_cong [of qs V1 V] g(2) s(1) by simp
  have "heap_map V1 qs = heap_map V qs" using heap_map_same [of qs V1 V] g(2) by simp
  then have rows1: "scan_rows p (ti_schema si) (stored_rows V1 qs rs') = Inr xs" using s(4) by simp
  have p1: "heap_pages V1 ps1" "set ps1 \<subseteq> S1" "hd ps1 = ti_table ti" "S \<subseteq> S1" and M1: "heap_map V1 ps1 = (heap_map V ps)(r \<mapsto> t_data t)"
    using v(7) Cons.prems(7) by (simp_all add: grown_def)
  have sub1: "set qs \<subseteq> S1" using p1(4) Cons.prems(2) by blast
  have fit1: "\<forall>x \<in> set xs. t_data (fst x) \<noteq> [] \<and> length (t_data (fst x)) \<le> 4076 \<and> has_keys ti ixs (fst x)" using Cons.prems(9) by simp
  let ?L = "L - k * ?n - (K + 1)"
  have d2: "snap (entry_changes (entered ti (t, r)) ixs c, P, V1, S1, F1) ?L d2"
    by (rule snap_weaken [OF v(2)]) (use Cons.prems(13) in simp)
  have F1: "F1 + int (length xs) \<le> 2 ^ 31" using Cons.prems(11) v(4) by simp
  have free1: "card {q. 0 < P q} + 2 \<le> pool_size (db_pool d2)" using free v(3) by simp
  have K1: "length ps1 + length xs \<le> K" using Cons.prems(13) v(6) by simp
  have L2: "length rs' * ?n + length xs * (K + 1) \<le> ?L"
    "?L - (length rs' * ?n + length xs * (K + 1)) = L - (length rs * ?n + length (x # xs) * (K + 1))"
    using Cons.prems(14) m by simp_all
  have c: "0 \<le> n + 1" "n + 1 + int (length xs) < 2 ^ 31" "n + 1 + int (length xs) = n + int (length (x # xs))" using Cons.prems(15,16) by simp_all
  from Cons.IH [OF hp1 sub1 live1 rows1 p1(1-3) g(1) fit1 d2 F1 free1 K1 L2(1) c(1,2)] obtain new V' S' ps' F' e' d' where
    ih: "map fst new = map fst xs" "drain (SeqScan_Next p) (insert_row ti ixs) (n + 1) (?e rs') d2 = Some (Inr ((n + 1 + int (length xs), e'), d'))"
      "snap (row_changes (entered ti) ixs new (entry_changes (entered ti (t, r)) ixs c), P, V', S', F') (?L - (length rs' * ?n + length xs * (K + 1))) d'"
      "grown V1 S1 ps1 V' S' ps' (changed stored_bytes new (heap_map V1 ps1))" "distinct (map snd new)" "\<forall>x \<in> set new. heap_map V1 ps1 (snd x) = None"
    by blast
  have "SeqScan_Next p (?e rs) d = Some (Inr ((Some x, ?e rs'), d1))" by (simp add: SeqScan_Next_def ebind_def s(3))
  then have "drain (SeqScan_Next p) (insert_row ti ixs) n (?e rs) d = ebind (insert_row ti ixs x n) (\<lambda>n'. drain (SeqScan_Next p) (insert_row ti ixs) n' (?e rs')) d1"
    by (rule drain_step(2))
  then have run: "drain (SeqScan_Next p) (insert_row ti ixs) n (?e rs) d = Some (Inr ((n + int (length (x # xs)), e'), d'))"
    using v(1) ih(2) c(3) by (simp add: ebind_def x)
  have new: "\<forall>y \<in> set new. snd y \<noteq> r \<and> heap_map V ps (snd y) = None"
  proof
    fix y assume "y \<in> set new"
    then have "((heap_map V ps)(r \<mapsto> t_data t)) (snd y) = None" using ih(6) M1 by simp
    then show "snd y \<noteq> r \<and> heap_map V ps (snd y) = None" by (simp split: if_splits)
  qed
  have "grown V S ps V' S' ps' (changed stored_bytes ((t, r) # new) (heap_map V ps))"
    using grown_trans [OF v(7) ih(4) Cons.prems(6)] by (simp only: M1 changed_simps stored_bytes_def fst_conv snd_conv)
  moreover have "map fst ((t, r) # new) = map fst (x # xs)" using ih(1) by (simp add: x)
  moreover have "distinct (map snd ((t, r) # new))" using ih(5) new by (auto simp: image_iff)
  moreover have "\<forall>y \<in> set ((t, r) # new). heap_map V ps (snd y) = None" using new v(5) by simp
  moreover have "snap (row_changes (entered ti) ixs ((t, r) # new) c, P, V', S', F') (L - (length rs * ?n + length (x # xs) * (K + 1))) d'"
    using ih(3) unfolding L2(2) by simp
  ultimately show ?case using run by blast
qed

lemma grown_rows:
  assumes hp: "heap_pages V ps" and g: "grown V S ps V' S' ps' (changed stored_bytes new (heap_map V ps))"
    and new: "distinct (map snd new)" "\<forall>x \<in> set new. heap_map V ps (snd x) = None"
  shows "set (stored_rows V' ps' (live V' ps')) = set (stored_rows V ps (live V ps)) \<union> (\<lambda>(t, r). (r, t_data t)) ` set new"
proof -
  have hp': "heap_pages V' ps'" "heap_map V' ps' = changed stored_bytes new (heap_map V ps)" using g by (simp_all add: grown_def)
  have rows: "set (stored_rows W qs (live W qs)) = {(r, bs). heap_map W qs r = Some bs}" if "heap_pages W qs" for W qs
    using live_contents [OF that] by (force simp: dom_def)
  have at: "changed stored_bytes new (heap_map V ps) (snd x) = Some (t_data (fst x))" if x: "x \<in> set new" for x
  proof -
    obtain y where y: "find (\<lambda>y. snd y = snd x) new = Some y" using x find_row [of "snd x" new] by fastforce
    then have "y \<in> set new" "snd y = snd x" using find_row_in by (auto simp: find_Some_iff)
    then have "y = x" using new(1) x by (metis distinct_map inj_on_def)
    then show ?thesis using y by (simp add: changed_at [OF new(1)] stored_bytes_def)
  qed
  have old: "changed stored_bytes new (heap_map V ps) r = heap_map V ps r" if "r \<notin> snd ` set new" for r
    using that find_row [of r new] by (simp add: changed_at [OF new(1)])
  have "{(r, bs). changed stored_bytes new (heap_map V ps) r = Some bs} = {(r, bs). heap_map V ps r = Some bs} \<union> (\<lambda>(t, r). (r, t_data t)) ` set new"
  proof (intro set_eqI iffI)
    fix z assume z: "z \<in> {(r, bs). changed stored_bytes new (heap_map V ps) r = Some bs}"
    show "z \<in> {(r, bs). heap_map V ps r = Some bs} \<union> (\<lambda>(t, r). (r, t_data t)) ` set new"
    proof (cases "fst z \<in> snd ` set new")
      case True
      then obtain x where "x \<in> set new" "snd x = fst z" by auto
      then show ?thesis using at [of x] z by (intro UnI2 image_eqI [of _ _ x]) (auto simp: case_prod_beta prod_eq_iff)
    next
      case False
      then show ?thesis using old [of "fst z"] z by auto
    qed
  next
    fix z assume "z \<in> {(r, bs). heap_map V ps r = Some bs} \<union> (\<lambda>(t, r). (r, t_data t)) ` set new"
    then show "z \<in> {(r, bs). changed stored_bytes new (heap_map V ps) r = Some bs}"
    proof
      assume "z \<in> {(r, bs). heap_map V ps r = Some bs}"
      moreover then have "fst z \<notin> snd ` set new" using new(2) by auto
      ultimately show ?thesis using old [of "fst z"] by auto
    next
      assume "z \<in> (\<lambda>(t, r). (r, t_data t)) ` set new"
      then show ?thesis using at by force
    qed
  qed
  then show ?thesis unfolding rows [OF hp] rows [OF hp'(1)] by (simp only: hp'(2))
qed

lemma insert_scan:
  assumes D: "consistent D d" and t: "lg_tables D oid = Some (s, rows)" "GetTable (db_catalog d) oid = Some ti"
    and ixs: "GetTableIndexes (db_catalog d) (ti_name ti) = Inr ixs"
    and src: "lg_tables D src = Some (ss, srows)" "src \<noteq> oid"
    and out: "scan_rows p ss srows = Inr out" "int (length out) < 2 ^ 31"
    and fit: "\<forall>x \<in> set out. t_data (fst x) \<noteq> [] \<and> length (t_data (fst x)) \<le> 4076 \<and> (\<forall>r. same_keys ti ixs (fst x) (r, t_data (fst x)))"
    and pages: "next_page_id (disk_manager (db_pool d)) + int (length out) \<le> 2 ^ 31"
    and room: "room_for (length (lg_pages D src) + length srows * (length (lg_pages D src) + 1) +
      length out * (length (lg_pages D oid) + length out + 1) + n) 2 (db_pool d)"
  shows "\<exists>e0 d0 e1 d1 D' new rows'. exec_Init E (SeqScanPlanNode sch src p) e d = Some (Inr (e0, d0)) \<and> db_catalog d0 = db_catalog d \<and>
    drain (exec_Next E (SeqScanPlanNode sch src p)) (insert_row ti ixs) 0 e0 d0 = Some (Inr ((int (length out), e1), d1)) \<and>
    consistent D' d1 \<and> lg_tables D' = (lg_tables D)(oid \<mapsto> (s, rows')) \<and>
    set rows' = set rows \<union> (\<lambda>(t, r). (r, t_data t)) ` set new \<and> distinct (map fst rows') \<and>
    map fst new = map fst out \<and> distinct (map snd new) \<and> snd ` set new \<inter> fst ` set rows = {} \<and>
    same_names (db_catalog d) (db_catalog d1) \<and> room_for n 1 (db_pool d1)"
proof -
  let ?ps = "lg_pages D oid" let ?qs = "lg_pages D src" let ?c = "db_catalog d" let ?scan = "SeqScanPlanNode sch src p"
  obtain P V S F where sn: "snapshot_of d = (?c, P, V, S, F)" "F = next_page_id (disk_manager (db_pool d))" "P = pins (db_pool d)"
    by (simp add: snapshot_of_def)
  have D4: "has_tables D d" "catalog_ok ?c" "indexes_list D ?c" "disjoint_pages D" using D by (simp_all add: consistent_def)
  have rep: "represents D (?c, P, V, S, F)" using has_tables_represents [OF D4(1)] sn(1) by simp
  have ti: "ti_schema ti = s" "heap_pages V ?ps" "set ?ps \<subseteq> S" "hd ?ps = ti_table ti" "rows = stored_rows V ?ps (live V ?ps)"
    using rep t unfolding represents_def prod.case by fastforce+
  from rep src(1) obtain si where si: "GetTable ?c src = Some si" "ti_schema si = ss" "heap_pages V ?qs" "set ?qs \<subseteq> S" "hd ?qs = ti_table si"
    "srows = stored_rows V ?qs (live V ?qs)" unfolding represents_def prod.case by blast
  have dis: "set ?ps \<inter> set ?qs = {}" using D4(4) t(1) src unfolding disjoint_pages_def by simp
  let ?K = "length ?ps + length out"
  let ?M = "length srows * (length ?qs + 1) + length out * (?K + 1)" let ?L = "length ?qs + ?M + n"
  have "snap (snapshot_of d) ?L d"
    using room D4(1) by (simp add: snap_def snapshot_of_def room_for_def pool_at_def has_tables_def)
  then have d: "snap (?c, P, V, S, F) ?L d" by (simp only: sn(1))
  have "length ?qs \<le> ?L" by simp
  from Begin_at [OF snap_heap [OF d si(3,4)] this] obtain b where
    b: "Heap_Begin (db_pool d) (hd ?qs) = Some (Inr (hd (live V ?qs @ [Heap_End]), b))" "heap_at b P V S ?qs (?L - length ?qs) F"
      "pool_size b = pool_size (db_pool d)" by blast
  let ?d0 = "d\<lparr>db_pool := b\<rparr>" let ?e0 = "SeqScanExecutor (Some si) (hd (live V ?qs @ [Heap_End]))"
  have init: "exec_Init E ?scan e d = Some (Inr (?e0, ?d0))"
    using si(1,5) b(1) on_pool_run [of "\<lambda>b. Heap_Begin b (ti_table si)" d]
    by (simp add: SeqScan_Init_def ebind_def table_at_def)
  have d0: "snap (?c, P, V, S, F) (?L - length ?qs) ?d0" by (rule heap_snap [OF d b(2)])
  have len: "length (live V ?qs) = length srows" using si(6) by simp
  have sc: "scan_rows p (ti_schema si) (stored_rows V ?qs (live V ?qs)) = Inr out" using out(1) si(2,6) by simp
  have fits: "\<forall>x \<in> set out. t_data (fst x) \<noteq> [] \<and> length (t_data (fst x)) \<le> 4076 \<and> has_keys ti ixs (fst x)"
    using fit same_keys_has by blast
  have free: "card {q. 0 < P q} + 2 \<le> pool_size (db_pool ?d0)" using room sn(3) b(3) by (simp add: room_for_def)
  have L: "length (live V ?qs) * (length ?qs + 1) + length out * (?K + 1) \<le> ?L - length ?qs"
    "?L - length ?qs - (length (live V ?qs) * (length ?qs + 1) + length out * (?K + 1)) = n" by (simp_all add: len)
  have F: "F + int (length out) \<le> 2 ^ 31" using pages sn(2) by simp
  have count: "0 \<le> (0::int)" "0 + int (length out) < 2 ^ 31" using out(2) by simp_all
  from insert_loop [OF si(3,4) _ sc ti(2-4) dis fits d0 F free order_refl L(1) count, of "[]"] obtain new V' S' ps' F' e1 d1 where
    r: "map fst new = map fst out" "drain (SeqScan_Next p) (insert_row ti ixs) 0 ?e0 ?d0 = Some (Inr ((int (length out), e1), d1))"
      "snap (row_changes (entered ti) ixs new ?c, P, V', S', F') n d1" "grown V S ?ps V' S' ps' (changed stored_bytes new (heap_map V ?ps))"
      "distinct (map snd new)" "\<forall>x \<in> set new. heap_map V ?ps (snd x) = None" unfolding L(2) by auto
  let ?c' = "row_changes (entered ti) ixs new ?c" let ?rows = "stored_rows V' ps' (live V' ps')" let ?D = "with_rows D oid ps' s ?rows ?c'"
  have g: "heap_pages V' ps'" "heap_map V' ps' = changed stored_bytes new (heap_map V ?ps)" "set ps' \<subseteq> S'" "S \<subseteq> S'" "hd ps' = hd ?ps"
    "\<And>q. q \<notin> set ps' \<Longrightarrow> V' q = V q" "set ps' \<inter> S \<subseteq> set ?ps" using r(4) by (simp_all add: grown_def)
  have "same_keys ti ixs (fst x) (snd x, t_data (fst x))" if "x \<in> set new" for x
  proof -
    from that have "fst x \<in> set (map fst new)" by simp
    then show ?thesis using fit unfolding r(1) by auto
  qed
  then have "\<forall>x \<in> set new. \<forall>M'. M' (snd x) = heap_map V ?ps (snd x) \<longrightarrow> follows s (entered ti x) ixs M' (snd x) (stored_bytes x)"
    using entered_follows [of ti ixs] r(6) ti(1) by auto
  from consistent_after [OF rep D4(2-4) t ixs entered_fields r(5) this r(3) g]
  have "consistent ?D d1" "same_names ?c (db_catalog d1)" by blast+
  moreover have "set ?rows = set rows \<union> (\<lambda>(t, r). (r, t_data t)) ` set new" unfolding ti(5) by (rule grown_rows [OF ti(2) r(4-6)])
  moreover have "distinct (map fst ?rows)" using live_distinct [OF g(1)] by (simp add: comp_def)
  moreover have "snd ` set new \<inter> fst ` set rows = {}" using r(6) ti(5) live_contents [OF ti(2)] by auto
  moreover have "room_for n 1 (db_pool d1)" using r(3) by (auto simp: snap_def room_for_def pool_at_def)
  ultimately show ?thesis using init r(1,2,5)
    by (intro exI [of _ ?e0] exI [of _ ?d0] exI [of _ e1] exI [of _ d1] exI [of _ ?D] exI [of _ new] exI [of _ ?rows]) simp
qed

section \<open>INSERT\<close>

text \<open>
  C4. INSERT from another table. On a consistent database, INSERT of the rows of another table for which a condition holds answers with their number
  and leaves a consistent database: the table has its old rows and, under fresh record identifiers, each of these rows once, no other table
  has changed, every index lists the old and the new rows, and the catalog has the same tables and indexes. A row must fit into an
  empty page.
\<close>

theorem Insert_correct:
  assumes D: "consistent D d" and t: "lg_tables D oid = Some (s, rows)" "GetTable (db_catalog d) oid = Some ti"
    and ixs: "GetTableIndexes (db_catalog d) (ti_name ti) = Inr ixs"
    and src: "lg_tables D src = Some (ss, srows)" "src \<noteq> oid"
    and out: "scan_rows p ss srows = Inr out" "int (length out) < 2 ^ 31"
    and fit: "\<forall>x \<in> set out. t_data (fst x) \<noteq> [] \<and> length (t_data (fst x)) \<le> 4076 \<and> (\<forall>r. same_keys ti ixs (fst x) (r, t_data (fst x)))"
    and pages: "next_page_id (disk_manager (db_pool d)) + int (length out) \<le> 2 ^ 31"
    and room: "room_for (length (lg_pages D src) + length srows * (length (lg_pages D src) + 1) +
      length out * (length (lg_pages D oid) + length out + 1) + n) 2 (db_pool d)"
  shows "\<exists>t d' D' new rows'. Execute E (InsertPlanNode sch' (SeqScanPlanNode sch src p) oid) d = Some (Inr ([t], d')) \<and>
    t_values t = [SQL_int (of_nat (length out))] \<and> consistent D' d' \<and> lg_tables D' = (lg_tables D)(oid \<mapsto> (s, rows')) \<and>
    set rows' = set rows \<union> (\<lambda>(t, r). (r, t_data t)) ` set new \<and> distinct (map fst rows') \<and>
    map fst new = map fst out \<and> distinct (map snd new) \<and> snd ` set new \<inter> fst ` set rows = {} \<and>
    same_names (db_catalog d) (db_catalog d') \<and> room_for n 1 (db_pool d')"
proof -
  let ?scan = "SeqScanPlanNode sch src p"
  from insert_scan [OF assms, where E = E and sch = sch and e = "CreateExecutor ?scan"] obtain e0 d0 e1 d1 D' new rows' where
    r: "exec_Init E ?scan (CreateExecutor ?scan) d = Some (Inr (e0, d0))" "db_catalog d0 = db_catalog d"
      "drain (exec_Next E ?scan) (insert_row ti ixs) 0 e0 d0 = Some (Inr ((int (length out), e1), d1))"
      "consistent D' d1" "lg_tables D' = (lg_tables D)(oid \<mapsto> (s, rows'))"
      "set rows' = set rows \<union> (\<lambda>(t, r). (r, t_data t)) ` set new" "distinct (map fst rows')"
      "map fst new = map fst out" "distinct (map snd new)" "snd ` set new \<inter> fst ` set rows = {}"
      "same_names (db_catalog d) (db_catalog d1)" "room_for n 1 (db_pool d1)" by (elim exE conjE) (rule that)
  from count_row_ok obtain c where c: "count_row (int (length out)) = Inr c" "t_values c = [SQL_int (of_nat (length out))]"
    by (metis of_int_of_nat_eq)
  have at: "table_at oid d0 = Some (Inr (ti, d0))" "table_indexes ti d0 = Some (Inr (ixs, d0))"
    using t(2) ixs r(2) by (simp_all add: table_at_def table_indexes_def ebind_def)
  have "Execute E (InsertPlanNode sch' ?scan oid) d = Some (Inr ([c], d1))"
    by (rule one_row [where ?e0.0 = "InsertExecutor e0 False" and ?e1.0 = "InsertExecutor e1 True" and ?d0.0 = d0 and ?d1.0 = d1])
      (use r(1,3) at c(1) in \<open>simp_all add: ebind_def Insert_Next_def\<close>)
  then show ?thesis using r(4-12) c(2)
    by (intro exI [of _ c] exI [of _ d1] exI [of _ D'] exI [of _ new] exI [of _ rows'] conjI)
qed

text \<open>A table with one row and an empty table with an index.\<close>

definition empty_index :: index_info where
  "empty_index = (IndexInfo opt_schema ''i'' ''u'' 1 [0])\<lparr>ii_supports_point_lookup := True\<rparr>"

definition two_tables :: "page_id \<Rightarrow> page_id \<Rightarrow> catalog" where
  "two_tables p q = \<lparr>next_table_oid = 3, next_index_oid = 2,
     tables = [(1, \<lparr>ti_schema = opt_schema, ti_name = ''t'', ti_table = p, ti_oid = 1\<rparr>),
       (2, \<lparr>ti_schema = opt_schema, ti_name = ''u'', ti_table = q, ti_oid = 2\<rparr>)], table_names = [(''t'', 1), (''u'', 2)],
     indexes = [(1, empty_index)], index_names = [(''u'', [(''i'', 1)])]\<rparr>"

lemma two_tables:
  "GetTable (two_tables p q) 1 = Some \<lparr>ti_schema = opt_schema, ti_name = ''t'', ti_table = p, ti_oid = 1\<rparr>"
  "GetTable (two_tables p q) 2 = Some \<lparr>ti_schema = opt_schema, ti_name = ''u'', ti_table = q, ti_oid = 2\<rparr>"
  "GetTableIndexes (two_tables p q) ''t'' = Inr []" "GetTableIndexes (two_tables p q) ''u'' = Inr [empty_index]"
  "GetIndex (two_tables p q) 1 = Some empty_index"
  by (auto simp: two_tables_def GetTable_def GetTableIndexes_def GetIndex_def map_at_def)

lemma empty_index: "GetLookupAttr empty_index = Inr 0" "entries_of empty_index = (\<lambda>_. [])" "ii_oid empty_index = 1"
  by (auto simp: empty_index_def IndexInfo_def GetLookupAttr_def entries_of_def LookupInteger_def fun_eq_iff)

lemma two_tables_ok: "catalog_ok (two_tables p q)"
  by (auto simp: catalog_ok_def umaps_ok_def two_tables_def empty_index_def IndexInfo_def index_oid_of_def split: if_splits)

lemma two_heaps:
  "\<exists>b p q. heap_ok b p [p] \<and> heap_contents b [p] = (\<lambda>_. None)(RID p 0 \<mapsto> [7, 0, 0, 0]) \<and> live (page_view b) [p] = [RID p 0] \<and>
     heap_ok b q [q] \<and> heap_contents b [q] = (\<lambda>_. None) \<and> p \<noteq> q \<and> room_for 40 2 b \<and> next_page_id (disk_manager b) = 2"
proof -
  obtain b p where b: "heap_ok b p [p]" "heap_contents b [p] = (\<lambda>_. None)(RID p 0 \<mapsto> [7, 0, 0, 0])" "room_for 50 2 b"
    "next_page_id (disk_manager b) = 1" "live (page_view b) [p] = [RID p 0]" using demo_heap_row [of "[7, 0, 0, 0]"] by auto
  have at: "pool_at {} (pins b) (page_view b) {p} (pool_life b) 1 b" using heap_ok_at [OF b(1)] b(4) by simp
  have "0 < pool_life b" "card {q. 0 < pins b q} < pool_size b" using b(3) by (simp_all add: room_for_def)
  from TableHeap_at [OF at this] obtain b' where b': "pool_at {} (pins b) ((page_view b)(1 := Init INVALID_PAGE_ID)) (insert 1 {p}) (pool_life b - 1) 2 b'"
    "1 \<notin> {p}" "pool_size b' = pool_size b" by auto
  let ?V = "(page_view b)(1 := Init INVALID_PAGE_ID)"
  have same: "?V x = page_view b x" if "x \<in> set [p]" for x using that b'(2) by simp
  have V: "heap_pages ?V [p]" "heap_map ?V [p] = (\<lambda>_. None)(RID p 0 \<mapsto> [7, 0, 0, 0])"
    using heap_pages_cong [OF heap_okD(2) [OF b(1)] same] heap_map_same [of "[p]" ?V "page_view b"] same b(2)
    by (simp_all only: heap_contents_def)
  note e = empty_heap [of 1 ?V, simplified]
  have "live (page_view b') [p] = [RID p 0]"
    using live_cong [of "[p]" "page_view b'" "page_view b"] pool_at_view [OF b'(1), of p] b'(2) b(5) by simp
  moreover have "room_for 40 2 b'" "next_page_id (disk_manager b') = 2" using b(3) b'(1,3) by (auto simp: room_for_def pool_at_def)
  ultimately show ?thesis using at_heap_ok [OF b'(1) V(1), of p] at_heap_ok [OF b'(1) e(1), of 1] V(2) e(2) b'(2)
    by (intro exI [of _ b'] exI [of _ p] exI [of _ 1]) simp
qed

lemma demo_two_tables:
  "\<exists>d D p q. consistent D d \<and> db_catalog d = two_tables p q \<and> lg_tables D 1 = Some (opt_schema, [(RID p 0, [7, 0, 0, 0])]) \<and>
     lg_tables D 2 = Some (opt_schema, []) \<and> lg_pages D 1 = [p] \<and> lg_pages D 2 = [q] \<and> room_for 40 2 (db_pool d) \<and>
     next_page_id (disk_manager (db_pool d)) = 2"
proof -
  obtain b p q where b: "heap_ok b p [p]" "heap_contents b [p] = (\<lambda>_. None)(RID p 0 \<mapsto> [7, 0, 0, 0])" "live (page_view b) [p] = [RID p 0]"
    "heap_ok b q [q]" "heap_contents b [q] = (\<lambda>_. None)" "p \<noteq> q" "room_for 40 2 b" "next_page_id (disk_manager b) = 2" using two_heaps by blast
  have "live (page_view b) [q] = []" using live_contents [OF heap_okD(2) [OF b(4)]] b(5) by (simp add: heap_contents_def)
  note b = b this
  define d where "d = \<lparr>db_pool = b, db_catalog = two_tables p q\<rparr>"
  define D where "D = \<lparr>lg_tables = (\<lambda>_. None)(1 \<mapsto> (opt_schema, [(RID p 0, [7, 0, 0, 0])]), 2 \<mapsto> (opt_schema, [])),
    lg_pages = (\<lambda>oid. if oid = 1 then [p] else [q]), lg_index = (\<lambda>_. None)(1 \<mapsto> entries_of empty_index)\<rparr>"
  have "has_tables D d"
    using b two_tables [of p q] empty_index unfolding has_tables_def by (auto simp: D_def d_def heap_ok_def split: if_splits)
  moreover have "lists_rows opt_schema 0 [] (\<lambda>_. [])" by (simp add: lists_rows_def)
  then have "indexes_list D (two_tables p q)"
    using two_tables [of p q] empty_index unfolding indexes_list_def by (auto simp: D_def split: if_splits)
  ultimately have "consistent D d" using two_tables_ok b(6) by (auto simp: consistent_def d_def D_def disjoint_pages_def)
  then show ?thesis using b(7,8) by (intro exI [of _ d] exI [of _ D] exI [of _ p] exI [of _ q]) (simp add: d_def D_def)
qed

lemma singleton_list: "distinct xs \<Longrightarrow> set xs = {x} \<Longrightarrow> xs = [x]"
  by (cases xs) (auto simp: subset_singleton_iff insert_eq_iff)

theorem Insert_correct_witness:
  "\<exists>d D d' D' t r. consistent D d \<and> lg_tables D 2 = Some (opt_schema, []) \<and>
     Execute demo_env (InsertPlanNode opt_schema (SeqScanPlanNode opt_schema 1 None) 2) d = Some (Inr ([t], d')) \<and> t_values t = [SQL_int 1] \<and>
     consistent D' d' \<and> lg_tables D' 2 = Some (opt_schema, [(r, [7, 0, 0, 0])])"
proof -
  obtain d D p q where d: "consistent D d" "db_catalog d = two_tables p q" "lg_tables D 1 = Some (opt_schema, [(RID p 0, [7, 0, 0, 0])])"
    "lg_tables D 2 = Some (opt_schema, [])" "lg_pages D 1 = [p]" "lg_pages D 2 = [q]" "room_for 40 2 (db_pool d)"
    "next_page_id (disk_manager (db_pool d)) = 2" using demo_two_tables by blast
  have "\<exists>t. parse_row opt_schema (stored_tuple (RID p 0) [7, 0, 0, 0]) (RID p 0) = Inr t \<and> t_values t = [SQL_int 7] \<and> t_data t = [7, 0, 0, 0]"
    using opt_column [of "RID p 0" 7] by (simp add: parse_row_def row_values_def opt_columns Tuple_def SerializeTo_def Value_int_def le32_def)
  then obtain t where t: "scan_rows None opt_schema [(RID p 0, [7, 0, 0, 0])] = Inr [(t, RID p 0)]" "t_values t = [SQL_int 7]" "t_data t = [7, 0, 0, 0]"
    by (auto simp: scan_rows_def passes_def)
  let ?ti = "\<lparr>ti_schema = opt_schema, ti_name = ''u'', ti_table = q, ti_oid = 2\<rparr>"
  have c: "GetTable (db_catalog d) 2 = Some ?ti" "GetTableIndexes (db_catalog d) (ti_name ?ti) = Inr [empty_index]"
    using d(2) two_tables [of p q] by simp_all
  have "index_key ?ti empty_index t = Inr 7" using t(2) empty_index(1)
    by (simp add: index_key_def Tuple_GetColumn_def GetAsInteger_def) (simp add: Value_int_def)
  then have fit: "\<forall>x \<in> set [(t, RID p 0)]. t_data (fst x) \<noteq> [] \<and> length (t_data (fst x)) \<le> 4076 \<and>
      (\<forall>r. same_keys ?ti [empty_index] (fst x) (r, t_data (fst x)))"
    using t(3) empty_index(1) demo_key [of _ 7] by (simp add: same_keys_def)
  have l: "(1 :: table_oid) \<noteq> 2" "int (length [(t, RID p 0)]) < 2 ^ 31" by simp_all
  have pg: "next_page_id (disk_manager (db_pool d)) + int (length [(t, RID p 0)]) \<le> 2 ^ 31" using d(8) by simp
  have "room_for (length (lg_pages D 1) + length [(RID p 0, [7, 0, 0, 0 :: byte])] * (length (lg_pages D 1) + 1) +
      length [(t, RID p 0)] * (length (lg_pages D 2) + length [(t, RID p 0)] + 1) + 0) 2 (db_pool d)"
    using d(5-7) by (simp add: room_for_def)
  from Insert_correct [OF d(1,4) c d(3) l(1) t(1) l(2) fit pg this, of demo_env opt_schema opt_schema] obtain u d' D' new rows' where
    r: "Execute demo_env (InsertPlanNode opt_schema (SeqScanPlanNode opt_schema 1 None) 2) d = Some (Inr ([u], d'))"
      "t_values u = [SQL_int (of_nat (length [(t, RID p 0)]))]" "consistent D' d'" "lg_tables D' = (lg_tables D)(2 \<mapsto> (opt_schema, rows'))"
      "set rows' = set [] \<union> (\<lambda>(t, r). (r, t_data t)) ` set new" "distinct (map fst rows')" "map fst new = map fst [(t, RID p 0)]"
    by (elim exE conjE) (rule that)
  from r(7) obtain x where "new = [(t, x)]" by auto
  then have "set rows' = {(x, [7, 0, 0, 0])}" using r(5) t(3) by simp
  then have "rows' = [(x, [7, 0, 0, 0])]" using singleton_list [of rows'] r(6) by (simp add: distinct_map)
  then have "lg_tables D' 2 = Some (opt_schema, [(x, [7, 0, 0, 0])])" using r(4) by simp
  moreover have "t_values u = [SQL_int 1]" using r(2) by simp
  ultimately show ?thesis using d(1,4) r(1,3) by blast
qed

end
