(* ===== verification/Transactions.thy ===== *)
theory Transactions
  imports OneBase_Prelude
begin

text \<open>
  Transactions: \<^verbatim>\<open>concurrency/transaction.h\<close>, \<^verbatim>\<open>transaction_manager.cpp\<close> and \<^verbatim>\<open>lock_manager.cpp\<close>. The lock manager
  is not implemented: each of its operations throws. A \<^verbatim>\<open>Transaction *\<close> is the transaction's identifier in the map of the manager, and
  a set of record identifiers is the list of its elements in the order of iteration. An operation that throws has changed the state: it
  returns the new manager beside the exception.
\<close>

datatype transaction_state = GROWING | SHRINKING | COMMITTED | ABORTED

datatype isolation_level = READ_UNCOMMITTED | READ_COMMITTED | REPEATABLE_READ

type_synonym txn_id = "64 word"

record transaction =
  txn_id :: txn_id
  isolation :: isolation_level
  txn_state :: transaction_state
  shared_lock_set :: "rid list"
  exclusive_lock_set :: "rid list"

definition Transaction :: "txn_id \<Rightarrow> isolation_level \<Rightarrow> transaction" where
  "Transaction i l = \<lparr>txn_id = i, isolation = l, txn_state = GROWING, shared_lock_set = [], exclusive_lock_set = []\<rparr>"

definition IsSharedLocked :: "transaction \<Rightarrow> rid \<Rightarrow> bool" where
  "IsSharedLocked t r \<longleftrightarrow> r \<in> set (shared_lock_set t)"

definition IsExclusiveLocked :: "transaction \<Rightarrow> rid \<Rightarrow> bool" where
  "IsExclusiveLocked t r \<longleftrightarrow> r \<in> set (exclusive_lock_set t)"

record txn_manager =
  next_txn_id :: txn_id
  txn_map :: "(txn_id, transaction) umap"

definition TransactionManager :: txn_manager where
  "TransactionManager = \<lparr>next_txn_id = 0, txn_map = []\<rparr>"

section \<open>The lock manager\<close>

definition not_implemented :: "'a res" where
  "not_implemented = Inl (OneBaseException NOT_IMPLEMENTED)"

definition LockShared :: "transaction \<Rightarrow> rid \<Rightarrow> bool res" where
  "LockShared t r = not_implemented"

definition LockExclusive :: "transaction \<Rightarrow> rid \<Rightarrow> bool res" where
  "LockExclusive t r = not_implemented"

definition LockUpgrade :: "transaction \<Rightarrow> rid \<Rightarrow> bool res" where
  "LockUpgrade t r = not_implemented"

definition Unlock :: "transaction \<Rightarrow> rid \<Rightarrow> bool res" where
  "Unlock t r = not_implemented"

section \<open>The transaction manager\<close>

definition Begin :: "isolation_level \<Rightarrow> txn_manager \<Rightarrow> txn_id \<times> txn_manager" where
  "Begin l m =
     (let i = next_txn_id m
      in (i, m\<lparr>next_txn_id := i + 1, txn_map := AList.update i (Transaction i l) (txn_map m)\<rparr>))"

primrec unlock_all :: "transaction \<Rightarrow> rid list \<Rightarrow> unit res" where
  "unlock_all t [] = Inr ()"
| "unlock_all t (r # rs) = rbind (Unlock t r) (\<lambda>_. unlock_all t rs)"

text \<open>\<^verbatim>\<open>Commit\<close> and \<^verbatim>\<open>Abort\<close> differ in the state that they set before they release the locks.\<close>

definition finish :: "transaction_state \<Rightarrow> transaction \<Rightarrow> unit res \<times> transaction" where
  "finish st t =
     (let t1 = t\<lparr>txn_state := st\<rparr>
      in case rbind (unlock_all t1 (shared_lock_set t1)) (\<lambda>_. unlock_all t1 (exclusive_lock_set t1)) of
           Inl e \<Rightarrow> (Inl e, t1)
         | Inr _ \<Rightarrow> (Inr (), t1\<lparr>shared_lock_set := [], exclusive_lock_set := []\<rparr>))"

definition on_txn :: "txn_id \<Rightarrow> (transaction \<Rightarrow> unit res \<times> transaction) \<Rightarrow> txn_manager \<Rightarrow> unit res \<times> txn_manager" where
  "on_txn i f m =
     (case map_of (txn_map m) i of
        None \<Rightarrow> (Inl (UndefinedBehaviour ''no such transaction''), m)
      | Some t \<Rightarrow> (case f t of (r, t') \<Rightarrow> (r, m\<lparr>txn_map := AList.update i t' (txn_map m)\<rparr>)))"

definition Commit :: "txn_id \<Rightarrow> txn_manager \<Rightarrow> unit res \<times> txn_manager" where
  "Commit i = on_txn i (finish COMMITTED)"

definition Abort :: "txn_id \<Rightarrow> txn_manager \<Rightarrow> unit res \<times> txn_manager" where
  "Abort i = on_txn i (finish ABORTED)"

text \<open>What the code does with a manager: no code enters a lock in the sets of a transaction.\<close>

inductive txn_step :: "txn_manager \<Rightarrow> txn_manager \<Rightarrow> bool" where
  start_txn: "Begin l m = (i, m') \<Longrightarrow> txn_step m m'"
| commit: "map_of (txn_map m) i \<noteq> None \<Longrightarrow> Commit i m = (r, m') \<Longrightarrow> txn_step m m'"
| abort: "map_of (txn_map m) i \<noteq> None \<Longrightarrow> Abort i m = (r, m') \<Longrightarrow> txn_step m m'"

inductive txn_run :: "txn_manager \<Rightarrow> nat \<Rightarrow> bool" where
  start: "txn_run TransactionManager 0"
| step: "txn_run m n \<Longrightarrow> txn_step m m' \<Longrightarrow> txn_run m' (Suc n)"

section \<open>Reachable managers\<close>

lemma unlock_all_result: "unlock_all t rs = (if rs = [] then Inr () else not_implemented)"
  by (cases rs) (simp_all add: Unlock_def not_implemented_def)

lemma finish_result:
  "finish st t = (if shared_lock_set t = [] \<and> exclusive_lock_set t = [] then (Inr (), t\<lparr>txn_state := st\<rparr>)
     else (not_implemented, t\<lparr>txn_state := st\<rparr>))"
  by (cases t) (auto simp: finish_def unlock_all_result Let_def not_implemented_def)

text \<open>
  What transactions do as the code stands: after fewer than 2 ^ 64 operations each one is kept under its own identifier, below the next
  one, which is new therefore; it is never SHRINKING and holds no lock, so that \<^verbatim>\<open>Commit\<close> and \<^verbatim>\<open>Abort\<close> return.
\<close>

definition txns_ok :: "txn_manager \<Rightarrow> nat \<Rightarrow> bool" where
  "txns_ok m n \<longleftrightarrow> unat (next_txn_id m) \<le> n \<and> (\<forall>i t. map_of (txn_map m) i = Some t \<longrightarrow>
     txn_id t = i \<and> i < next_txn_id m \<and> txn_state t \<noteq> SHRINKING \<and> shared_lock_set t = [] \<and> exclusive_lock_set t = [])"

lemma on_txn_ok:
  assumes "txns_ok m n" "on_txn i (finish st) m = (r, m')" "st \<noteq> SHRINKING"
  shows "txns_ok m' n"
proof (cases "map_of (txn_map m) i")
  case None
  then show ?thesis using assms by (simp add: on_txn_def)
next
  case (Some t)
  then have "shared_lock_set t = []" "exclusive_lock_set t = []" "txn_id t = i" "i < next_txn_id m" using assms(1) by (auto simp: txns_ok_def)
  then have "m' = m\<lparr>txn_map := AList.update i (t\<lparr>txn_state := st\<rparr>) (txn_map m)\<rparr>"
    using assms(2) Some by (simp add: on_txn_def finish_result)
  then show ?thesis using assms(1,3) Some unfolding txns_ok_def by (auto simp: update_conv')
qed

lemma Begin_ok:
  assumes "txns_ok m n" "Begin l m = (i, m')" "Suc n < 2 ^ 64"
  shows "txns_ok m' (Suc n)"
proof -
  have n: "unat (next_txn_id m) + 1 < 2 ^ 64" using assms(1,3) by (simp add: txns_ok_def)
  then have u: "unat (next_txn_id m + 1) = unat (next_txn_id m) + 1" by (simp add: unat_word_ariths)
  then have less: "i < next_txn_id m \<Longrightarrow> i < next_txn_id m + 1" "next_txn_id m < next_txn_id m + 1" for i by (simp_all add: word_less_nat_alt)
  have "m' = m\<lparr>next_txn_id := next_txn_id m + 1, txn_map := AList.update (next_txn_id m) (Transaction (next_txn_id m) l) (txn_map m)\<rparr>"
    using assms(2) by (auto simp: Begin_def Let_def)
  then show ?thesis using assms(1) u less unfolding txns_ok_def by (auto simp: update_conv' Transaction_def)
qed

lemma txn_run_ok:
  assumes "txn_run m n" and "n < 2 ^ 64"
  shows "txns_ok m n"
  using assms
proof (induction rule: txn_run.induct)
  case start
  then show ?case by (simp add: txns_ok_def TransactionManager_def)
next
  case (step m n m')
  then have ok: "txns_ok m n" by simp
  then have up: "txns_ok x n \<Longrightarrow> txns_ok x (Suc n)" for x by (auto simp: txns_ok_def)
  from step.hyps(2) show ?case
  proof (cases rule: txn_step.cases)
    case (start_txn l i)
    then show ?thesis using Begin_ok [OF ok] step.prems by simp
  next
    case (commit i r)
    then show ?thesis using up on_txn_ok [OF ok] by (auto simp: Commit_def)
  next
    case (abort i r)
    then show ?thesis using up on_txn_ok [OF ok] by (auto simp: Abort_def)
  qed
qed

lemma ended_txn:
  assumes "txns_ok m n" "map_of (txn_map m) i = Some t"
  shows "on_txn i (finish st) m = (Inr (), m\<lparr>txn_map := AList.update i (t\<lparr>txn_state := st\<rparr>) (txn_map m)\<rparr>)"
  using assms by (auto simp: txns_ok_def on_txn_def finish_result)

section \<open>Properties\<close>

text \<open>
  C40. The life of transactions, as the manager is used: after fewer than 2 ^ 64 operations \<^verbatim>\<open>Begin\<close> gives out an identifier that no
  transaction has, and adds the growing transaction without touching the others; every transaction is kept under its own
  identifier, and \<^verbatim>\<open>Commit\<close> and \<^verbatim>\<open>Abort\<close> of it return and change its state alone. (The lock manager throws on every call, so
  that no transaction ever holds a lock that they would have to release.)
\<close>

theorem transactions_live:
  assumes "txn_run m n" and "n < 2 ^ 64" and "Begin l m = (j, m1)"
  shows "map_of (txn_map m) j = None \<and> map_of (txn_map m1) = (map_of (txn_map m))(j \<mapsto> Transaction j l) \<and>
    (\<forall>i t. map_of (txn_map m) i = Some t \<longrightarrow> txn_id t = i \<and>
       (\<exists>m2. Commit i m = (Inr (), m2) \<and> map_of (txn_map m2) = (map_of (txn_map m))(i \<mapsto> t\<lparr>txn_state := COMMITTED\<rparr>)) \<and>
       (\<exists>m2. Abort i m = (Inr (), m2) \<and> map_of (txn_map m2) = (map_of (txn_map m))(i \<mapsto> t\<lparr>txn_state := ABORTED\<rparr>)))"
proof (intro conjI allI impI)
  note ok = txn_run_ok [OF assms(1,2)]
  have j: "j = next_txn_id m" "txn_map m1 = AList.update j (Transaction j l) (txn_map m)" using assms(3) by (auto simp: Begin_def Let_def)
  then show "map_of (txn_map m) j = None" using ok by (cases "map_of (txn_map m) j") (auto simp: txns_ok_def)
  show "map_of (txn_map m1) = (map_of (txn_map m))(j \<mapsto> Transaction j l)" by (simp add: j(2))
  fix i t assume t: "map_of (txn_map m) i = Some t"
  then show "txn_id t = i" using ok by (simp add: txns_ok_def)
  show "\<exists>m2. Commit i m = (Inr (), m2) \<and> map_of (txn_map m2) = (map_of (txn_map m))(i \<mapsto> t\<lparr>txn_state := COMMITTED\<rparr>)"
    by (simp add: Commit_def ended_txn [OF ok t])
  show "\<exists>m2. Abort i m = (Inr (), m2) \<and> map_of (txn_map m2) = (map_of (txn_map m))(i \<mapsto> t\<lparr>txn_state := ABORTED\<rparr>)"
    by (simp add: Abort_def ended_txn [OF ok t])
qed

theorem transactions_live_witness:
  "\<exists>m m2. txn_run m 1 \<and> map_of (txn_map m) (fst (Begin REPEATABLE_READ m)) = None \<and> Abort 0 m = (Inr (), m2) \<and>
     map_of (txn_map m2) 0 = Some ((Transaction 0 READ_COMMITTED)\<lparr>txn_state := ABORTED\<rparr>)"
proof -
  let ?m = "snd (Begin READ_COMMITTED TransactionManager)"
  have 1: "txn_run ?m 1"
    using txn_run.step [OF txn_run.start txn_step.start_txn, of READ_COMMITTED "fst (Begin READ_COMMITTED TransactionManager)" ?m] by simp
  have t: "map_of (txn_map ?m) 0 = Some (Transaction 0 READ_COMMITTED)" by (simp add: Begin_def TransactionManager_def Let_def)
  have n: "1 < (2 :: nat) ^ 64" by simp
  from transactions_live [OF 1 n, of REPEATABLE_READ "fst (Begin REPEATABLE_READ ?m)" "snd (Begin REPEATABLE_READ ?m)"] t
  obtain m2 where "map_of (txn_map ?m) (fst (Begin REPEATABLE_READ ?m)) = None" "Abort 0 ?m = (Inr (), m2)"
    "map_of (txn_map m2) = (map_of (txn_map ?m))(0 \<mapsto> (Transaction 0 READ_COMMITTED)\<lparr>txn_state := ABORTED\<rparr>)" by auto
  then show ?thesis using 1 by (intro exI [of _ ?m] exI [of _ m2]) simp
qed

end
