(* ===== verification/Protocol.thy ===== *)
theory Protocol
  imports Schema_Tuple
begin

text \<open>
  The wire protocol: \<^verbatim>\<open>server/protocol.h\<close>. The system calls \<^verbatim>\<open>read\<close> and \<^verbatim>\<open>write\<close> on a connected socket are
  parameters, functions on the state \<open>'n\<close> of the network: they may transfer fewer bytes than asked, and fail. \<open>reads\<close> and \<open>writes\<close> state
  what POSIX says of them on a byte stream. A message is written as a 32-bit length in network byte order, a
  type byte and the data, and a result table as lines of cells with a separator.
\<close>

type_synonym 'n read_fun = "'n \<Rightarrow> nat \<Rightarrow> (byte list \<times> 'n) option"
type_synonym 'n write_fun = "'n \<Rightarrow> byte list \<Rightarrow> (nat \<times> 'n) option"

section \<open>Messages\<close>

text \<open>A \<^verbatim>\<open>MessageType\<close> has a fixed underlying type: it holds any byte.\<close>

type_synonym message_type = byte

definition QUERY :: message_type where
  "QUERY = of_char (CHR ''Q'')"

definition RESULT :: message_type where
  "RESULT = of_char (CHR ''R'')"

definition ERROR :: message_type where
  "ERROR = of_char (CHR ''E'')"

definition COMMAND_COMPLETE :: message_type where
  "COMMAND_COMPLETE = of_char (CHR ''C'')"

definition TERMINATE :: message_type where
  "TERMINATE = of_char (CHR ''X'')"

text \<open>
  \<open>None\<close> is the return value false; the network is as the failed call left it. A transfer of no bytes is
  the end of the stream.
\<close>

function ReadExact :: "'n read_fun \<Rightarrow> 'n \<Rightarrow> nat \<Rightarrow> (byte list \<times> 'n) option" where
  "ReadExact rd s remaining =
     (if remaining = 0 then Some ([], s)
      else case rd s remaining of
             None \<Rightarrow> None
           | Some (bs, s') \<Rightarrow>
               if bs = [] then None
               else (case ReadExact rd s' (remaining - length bs) of
                       None \<Rightarrow> None
                     | Some (rest, s'') \<Rightarrow> Some (bs @ rest, s'')))"
  by pat_completeness auto
termination
  by (relation "measure (\<lambda>(rd, s, n). n)") auto

function WriteExact :: "'n write_fun \<Rightarrow> 'n \<Rightarrow> byte list \<Rightarrow> bool \<times> 'n" where
  "WriteExact wr s buf =
     (if buf = [] then (True, s)
      else case wr s buf of
             None \<Rightarrow> (False, s)
           | Some (n, s') \<Rightarrow> if n = 0 then (False, s') else WriteExact wr s' (drop n buf))"
  by pat_completeness auto
termination
  by (relation "measure (\<lambda>(wr, s, buf). length buf)") auto

declare ReadExact.simps [simp del] WriteExact.simps [simp del]

text \<open>\<^verbatim>\<open>htonl\<close> and the bytes of its result in memory.\<close>

definition be32 :: "32 word \<Rightarrow> byte list" where
  "be32 w = rev (le32 w)"

definition of_be32 :: "byte list \<Rightarrow> 32 word" where
  "of_be32 bs = of_le32 (rev bs)"

definition SendMessage :: "'n write_fun \<Rightarrow> 'n \<Rightarrow> message_type \<Rightarrow> string \<Rightarrow> bool \<times> 'n" where
  "SendMessage wr s type data =
     (let payload_len = (of_nat (length data + 1) :: 32 word)
      in case WriteExact wr s (be32 payload_len) of
           (False, s1) \<Rightarrow> (False, s1)
         | (True, s1) \<Rightarrow>
             (case WriteExact wr s1 [type] of
                (False, s2) \<Rightarrow> (False, s2)
              | (True, s2) \<Rightarrow> if data = [] then (True, s2) else WriteExact wr s2 (string_bytes data)))"

definition RecvMessage :: "'n read_fun \<Rightarrow> 'n \<Rightarrow> ((message_type \<times> string) \<times> 'n) option" where
  "RecvMessage rd s =
     (case ReadExact rd s 4 of
        None \<Rightarrow> None
      | Some (net_len, s1) \<Rightarrow>
          if of_be32 net_len = 0 then None
          else (case ReadExact rd s1 1 of
                  None \<Rightarrow> None
                | Some (type, s2) \<Rightarrow>
                    let data_len = unat (of_be32 net_len - 1)
                    in if data_len = 0 then Some ((hd type, []), s2)
                       else (case ReadExact rd s2 data_len of
                               None \<Rightarrow> None
                             | Some (data, s3) \<Rightarrow> Some ((hd type, bytes_string data), s3))))"

section \<open>Result sets\<close>

fun cells_line :: "string \<Rightarrow> string list \<Rightarrow> string" where
  "cells_line line [] = line"
| "cells_line line (v # vs) = cells_line (line @ ''|'' @ v) vs"

definition FormatResultHeader :: "string list \<Rightarrow> string" where
  "FormatResultHeader col_names = (case col_names of [] \<Rightarrow> [] | c # cs \<Rightarrow> cells_line c cs)"

definition FormatResultRow :: "string list \<Rightarrow> string" where
  "FormatResultRow vals = (case vals of [] \<Rightarrow> [] | v # vs \<Rightarrow> cells_line v vs)"

fun parse_pipes :: "string list \<Rightarrow> string \<Rightarrow> string \<Rightarrow> string list" where
  "parse_pipes parts current [] = parts @ [current]"
| "parse_pipes parts current (c # cs) =
     (if c = CHR ''|'' then parse_pipes (parts @ [current]) [] cs else parse_pipes parts (current @ [c]) cs)"

definition ParsePipeSeparated :: "string \<Rightarrow> string list" where
  "ParsePipeSeparated line = parse_pipes [] [] line"

section \<open>A reliable byte stream\<close>

text \<open>
  \<open>inb s\<close> are the bytes on their way to the reader and \<open>outb s\<close> those that the writer has sent. A read gives the first
  of them, at least one if there are any, and no more than asked; a write appends some of its bytes, at least one. The
  other direction \<open>keep\<close> does not change.
\<close>

definition reads :: "'n read_fun \<Rightarrow> ('n \<Rightarrow> byte list) \<Rightarrow> ('n \<Rightarrow> 'k) \<Rightarrow> bool" where
  "reads rd inb keep \<longleftrightarrow> (\<forall>s k. inb s \<noteq> [] \<and> 0 < k \<longrightarrow>
     (\<exists>bs s'. rd s k = Some (bs, s') \<and> bs \<noteq> [] \<and> length bs \<le> k \<and> inb s = bs @ inb s' \<and> keep s' = keep s))"

definition writes :: "'n write_fun \<Rightarrow> ('n \<Rightarrow> byte list) \<Rightarrow> ('n \<Rightarrow> 'k) \<Rightarrow> bool" where
  "writes wr outb keep \<longleftrightarrow> (\<forall>s bs. bs \<noteq> [] \<longrightarrow>
     (\<exists>n s'. wr s bs = Some (n, s') \<and> 0 < n \<and> n \<le> length bs \<and> outb s' = outb s @ take n bs \<and> keep s' = keep s))"

text \<open>One stream between a writer and a reader.\<close>

definition reliable :: "'n read_fun \<Rightarrow> 'n write_fun \<Rightarrow> ('n \<Rightarrow> byte list) \<Rightarrow> bool" where
  "reliable rd wr pending \<longleftrightarrow> reads rd pending (\<lambda>_. ()) \<and> writes wr pending (\<lambda>_. ())"

lemma ReadExact_reads:
  assumes "reads rd inb keep"
  shows "inb s = bs @ rest \<Longrightarrow> \<exists>s'. ReadExact rd s (length bs) = Some (bs, s') \<and> inb s' = rest \<and> keep s' = keep s"
proof (induction "length bs" arbitrary: bs s rule: less_induct)
  case less
  show ?case
  proof (cases "bs = []")
    case True
    then show ?thesis using less.prems by (subst ReadExact.simps) simp
  next
    case False
    then have "inb s \<noteq> [] \<and> 0 < length bs" using less.prems by simp
    with assms obtain xs s1 where x: "rd s (length bs) = Some (xs, s1)" "xs \<noteq> []" "length xs \<le> length bs" "inb s = xs @ inb s1" "keep s1 = keep s"
      unfolding reads_def by blast
    define ys where "ys = drop (length xs) bs"
    have e: "xs @ inb s1 = bs @ rest" using x(4) less.prems by simp
    have ys: "bs = xs @ ys" "inb s1 = ys @ rest"
      using arg_cong [OF e, of "take (length xs)"] arg_cong [OF e, of "drop (length xs)"] x(3) append_take_drop_id [of "length xs" bs]
      by (simp_all add: ys_def)
    have "length ys < length bs" using x(2) ys(1) by simp
    from less.hyps [OF this ys(2)] obtain s' where "ReadExact rd s1 (length ys) = Some (ys, s')" "inb s' = rest" "keep s' = keep s1" by blast
    then show ?thesis using x(1,2,5) ys(1) False by (subst ReadExact.simps) simp
  qed
qed

lemma WriteExact_writes:
  assumes "writes wr outb keep"
  shows "\<exists>s'. WriteExact wr s bs = (True, s') \<and> outb s' = outb s @ bs \<and> keep s' = keep s"
proof (induction "length bs" arbitrary: bs s rule: less_induct)
  case less
  show ?case
  proof (cases "bs = []")
    case True
    then show ?thesis by (subst WriteExact.simps) simp
  next
    case False
    with assms obtain n s1 where n: "wr s bs = Some (n, s1)" "0 < n" "n \<le> length bs" "outb s1 = outb s @ take n bs" "keep s1 = keep s"
      unfolding writes_def by blast
    have "length (drop n bs) < length bs" using n(2,3) by simp
    from less.hyps [OF this, of s1] obtain s' where "WriteExact wr s1 (drop n bs) = (True, s')" "outb s' = outb s @ bs" "keep s' = keep s"
      using n(4,5) by auto
    then show ?thesis using n(1,2) False by (subst WriteExact.simps) simp
  qed
qed

definition frame_bytes :: "message_type \<Rightarrow> string \<Rightarrow> byte list" where
  "frame_bytes type data = be32 (of_nat (length data + 1)) @ type # string_bytes data"

lemma SendMessage_writes:
  assumes r: "writes wr outb keep"
  shows "\<exists>s'. SendMessage wr s type data = (True, s') \<and> outb s' = outb s @ frame_bytes type data \<and> keep s' = keep s"
proof -
  from WriteExact_writes [OF r, of s "be32 (of_nat (length data + 1))"] obtain s1 where
    1: "WriteExact wr s (be32 (of_nat (length data + 1))) = (True, s1)" "outb s1 = outb s @ be32 (of_nat (length data + 1))" "keep s1 = keep s" by blast
  from WriteExact_writes [OF r, of s1 "[type]"] obtain s2 where
    2: "WriteExact wr s1 [type] = (True, s2)" "outb s2 = outb s1 @ [type]" "keep s2 = keep s1" by blast
  from WriteExact_writes [OF r, of s2 "string_bytes data"] obtain s3 where
    3: "WriteExact wr s2 (string_bytes data) = (True, s3)" "outb s3 = outb s2 @ string_bytes data" "keep s3 = keep s2" by blast
  show ?thesis using 1 2 3
    by (cases "data = []") (simp_all add: SendMessage_def Let_def frame_bytes_def string_bytes_def)
qed

lemma of_be32_be32 [simp]: "of_be32 (be32 w) = w"
  by (simp add: of_be32_def be32_def)

lemma length_be32 [simp]: "length (be32 w) = 4"
  by (simp add: be32_def)

lemma RecvMessage_reads:
  assumes r: "reads rd inb keep" and p: "inb s = frame_bytes type data @ rest" and len: "length data + 1 < 2 ^ 32"
  shows "\<exists>s'. RecvMessage rd s = Some ((type, data), s') \<and> inb s' = rest \<and> keep s' = keep s"
proof -
  let ?w = "of_nat (length data + 1) :: 32 word"
  have "unat (of_nat n :: 32 word) = n" if "n < 2 ^ 32" for n using that by (simp add: unat_of_nat take_bit_eq_mod)
  from this [OF len] have w: "unat ?w = length data + 1" .
  then have "?w \<noteq> 0" by (metis add_is_0 one_neq_zero unat_0)
  moreover from unat_minus_one [OF this] have "unat (?w - 1) = length data" unfolding w by (simp only: add_diff_cancel_right')
  ultimately have w1: "?w \<noteq> 0" "unat (?w - 1) = length data" .
  from ReadExact_reads [OF r, of s "be32 ?w"] p obtain s1 where
    1: "ReadExact rd s 4 = Some (be32 ?w, s1)" "inb s1 = [type] @ string_bytes data @ rest" "keep s1 = keep s" by (auto simp: frame_bytes_def)
  from ReadExact_reads [OF r 1(2)] obtain s2 where
    2: "ReadExact rd s1 1 = Some ([type], s2)" "inb s2 = string_bytes data @ rest" "keep s2 = keep s1" by auto
  from ReadExact_reads [OF r 2(2)] obtain s3 where
    3: "ReadExact rd s2 (length data) = Some (string_bytes data, s3)" "inb s3 = rest" "keep s3 = keep s2" by auto
  show ?thesis
  proof (cases "data = []")
    case True
    then show ?thesis using 1 2 w1 by (simp add: RecvMessage_def Let_def string_bytes_def)
  next
    case False
    then show ?thesis using 1 2 3 w1 by (simp add: RecvMessage_def Let_def)
  qed
qed

section \<open>Cells and separators\<close>

lemma parse_pipes_cell: "CHR ''|'' \<notin> set v \<Longrightarrow> parse_pipes parts current (v @ cs) = parse_pipes parts (current @ v) cs"
  by (induction v arbitrary: current) auto

lemma cells_line_append: "cells_line line vs = line @ concat (map (\<lambda>v. ''|'' @ v) vs)"
  by (induction vs arbitrary: line) simp_all

lemma parse_cells_line:
  "CHR ''|'' \<notin> set v \<Longrightarrow> \<forall>w \<in> set vs. CHR ''|'' \<notin> set w \<Longrightarrow> parse_pipes parts [] (cells_line v vs) = parts @ v # vs"
proof (induction vs arbitrary: parts v)
  case Nil
  then show ?case using parse_pipes_cell [of v parts "[]" "[]"] by simp
next
  case (Cons w ws)
  have "parse_pipes parts [] (cells_line v (w # ws)) = parse_pipes (parts @ [v]) [] (cells_line w ws)"
    using parse_pipes_cell [OF Cons.prems(1), of parts "[]" "CHR ''|'' # w @ concat (map (\<lambda>v. ''|'' @ v) ws)"]
    by (simp add: cells_line_append)
  then show ?case using Cons.IH [of w "parts @ [v]"] Cons.prems(2) by simp
qed

section \<open>Properties\<close>

fun send_all :: "'n write_fun \<Rightarrow> 'n \<Rightarrow> (message_type \<times> string) list \<Rightarrow> bool \<times> 'n" where
  "send_all wr s [] = (True, s)"
| "send_all wr s ((type, data) # ms) =
     (case SendMessage wr s type data of (False, s') \<Rightarrow> (False, s') | (True, s') \<Rightarrow> send_all wr s' ms)"

fun recv_all :: "'n read_fun \<Rightarrow> 'n \<Rightarrow> nat \<Rightarrow> ((message_type \<times> string) list \<times> 'n) option" where
  "recv_all rd s 0 = Some ([], s)"
| "recv_all rd s (Suc n) =
     (case RecvMessage rd s of
        None \<Rightarrow> None
      | Some (m, s') \<Rightarrow> (case recv_all rd s' n of None \<Rightarrow> None | Some (ms, s'') \<Rightarrow> Some (m # ms, s'')))"

lemma send_all_reliable:
  "reliable rd wr pending \<Longrightarrow> \<exists>s'. send_all wr s ms = (True, s') \<and> pending s' = pending s @ concat (map (\<lambda>(t, d). frame_bytes t d) ms)"
proof (induction ms arbitrary: s)
  case (Cons m ms)
  obtain t d where m: "m = (t, d)" by (cases m)
  have "writes wr pending (\<lambda>_. ())" using Cons.prems by (simp add: reliable_def)
  from SendMessage_writes [OF this, of s t d] obtain s1 where
    "SendMessage wr s t d = (True, s1)" "pending s1 = pending s @ frame_bytes t d" by blast
  then show ?case using Cons.IH [OF Cons.prems, of s1] m by auto
qed simp

lemma recv_all_reliable:
  assumes "reliable rd wr pending"
  shows "pending s = concat (map (\<lambda>(t, d). frame_bytes t d) ms) @ rest \<Longrightarrow> \<forall>(t, d) \<in> set ms. length d + 1 < 2 ^ 32 \<Longrightarrow>
    \<exists>s'. recv_all rd s (length ms) = Some (ms, s') \<and> pending s' = rest"
proof (induction ms arbitrary: s)
  case (Cons m ms)
  obtain t d where m: "m = (t, d)" by (cases m)
  have "pending s = frame_bytes t d @ concat (map (\<lambda>(t, d). frame_bytes t d) ms) @ rest" "length d + 1 < 2 ^ 32"
    using Cons.prems m by auto
  with assms RecvMessage_reads [of rd pending "\<lambda>_. ()"] obtain s1 where
    s1: "RecvMessage rd s = Some ((t, d), s1)" "pending s1 = concat (map (\<lambda>(t, d). frame_bytes t d) ms) @ rest" unfolding reliable_def by blast
  from Cons.IH [OF s1(2)] Cons.prems(2) m obtain s' where "recv_all rd s1 (length ms) = Some (ms, s')" "pending s' = rest" by auto
  then show ?case using s1(1) m by simp
qed simp

text \<open>
  C23. Messages arrive as they were sent. On a reliable byte stream, however it splits the transfers, sending messages
  of less than 2 ^ 32 - 1 bytes succeeds, and receiving as many gives the same messages in their order and
  leaves what was behind them.
\<close>

theorem messages_roundtrip:
  assumes "reliable rd wr pending" and "pending s = []" and "\<forall>(type, data) \<in> set ms. length data + 1 < 2 ^ 32"
  shows "\<exists>s' s''. send_all wr s ms = (True, s') \<and> recv_all rd s' (length ms) = Some (ms, s'') \<and> pending s'' = []"
proof -
  from send_all_reliable [OF assms(1), of s ms] obtain s' where
    s': "send_all wr s ms = (True, s')" "pending s' = concat (map (\<lambda>(t, d). frame_bytes t d) ms) @ []" using assms(2) by auto
  from recv_all_reliable [OF assms(1) s'(2)] assms(3) s'(1) show ?thesis by blast
qed

text \<open>A stream that reads three bytes and writes two bytes at a time.\<close>

definition demo_read :: "byte list read_fun" where
  "demo_read s k = (if s = [] then None else Some (take (min k 3) s, drop (min k 3) s))"

definition demo_write :: "byte list write_fun" where
  "demo_write s bs = Some (min 2 (length bs), s @ take 2 bs)"

lemma demo_reliable: "reliable demo_read demo_write id"
  unfolding reliable_def reads_def writes_def demo_read_def demo_write_def by (auto simp: min_def)

theorem messages_roundtrip_witness:
  "\<exists>s' s''. send_all demo_write [] [(QUERY, ''SELECT 1''), (TERMINATE, [])] = (True, s') \<and>
     recv_all demo_read s' 2 = Some ([(QUERY, ''SELECT 1''), (TERMINATE, [])], s'')"
proof -
  have "\<forall>(type, data) \<in> set [(QUERY, ''SELECT 1''), (TERMINATE, [])]. length data + 1 < 2 ^ 32" by simp
  from messages_roundtrip [OF demo_reliable _ this, of "[]"] show ?thesis by (simp add: numeral_2_eq_2) blast
qed

text \<open>
  The cells of a line come back as they were formatted if no cell contains the separator. A line of no cells comes back as one
  empty cell.
\<close>

theorem cells_roundtrip:
  assumes "\<forall>v \<in> set vals. CHR ''|'' \<notin> set v"
  shows "ParsePipeSeparated (FormatResultRow vals) = (if vals = [] then [''''] else vals) \<and>
    ParsePipeSeparated (FormatResultHeader vals) = (if vals = [] then [''''] else vals)"
  using assms parse_cells_line by (cases vals) (simp_all add: ParsePipeSeparated_def FormatResultRow_def FormatResultHeader_def)

theorem cells_roundtrip_witness:
  "ParsePipeSeparated (FormatResultRow [''7'', '''', ''x y'']) = [''7'', '''', ''x y''] \<and> ParsePipeSeparated (FormatResultRow [''a|b'']) = [''a'', ''b'']"
  using cells_roundtrip [of "[''7'', '''', ''x y'']"] by (simp add: ParsePipeSeparated_def FormatResultRow_def)

end
