(* ===== verification/Server_Client.thy ===== *)
theory Server_Client
  imports Binder Protocol Optimizer
begin

text \<open>
  The server \<^verbatim>\<open>onebase_server/server_main.cpp\<close>, the client \<^verbatim>\<open>onebase_client/client_main.cpp\<close> and the shell
  \<^verbatim>\<open>tools/onebase_shell.cpp\<close>, without the set-up of sockets, threads and the terminal: how a query is answered, how the
  answers go over a connection, how a result is printed, and how lines of input become queries.
\<close>

section \<open>Result tables\<close>

abbreviation newline :: string where
  "newline \<equiv> [CHR 0x0A]"

definition row_cells :: "(f32 \<Rightarrow> string) \<Rightarrow> schema \<Rightarrow> tuple \<Rightarrow> string list" where
  "row_cells fmt s t = map (\<lambda>i. Value_ToString fmt (Tuple_GetValue t i)) [0..<length (columns s)]"

definition row_summary :: "nat \<Rightarrow> string" where
  "row_summary n = ''('' @ digits n @ '' row'' @ (if n \<noteq> 1 then ''s'' else []) @ '')''"

definition result_body :: "(f32 \<Rightarrow> string) \<Rightarrow> schema \<Rightarrow> tuple list \<Rightarrow> string" where
  "result_body fmt s rows =
     FormatResultHeader (map c_name (columns s)) @ newline @
     concat (map (\<lambda>t. FormatResultRow (row_cells fmt s t) @ newline) rows) @ row_summary (length rows)"

text \<open>\<^verbatim>\<open>std::getline\<close> until the end of the text.\<close>

fun getlines :: "string \<Rightarrow> string \<Rightarrow> string list" where
  "getlines current [] = (if current = [] then [] else [current])"
| "getlines current (c # cs) = (if c = CHR 0x0A then current # getlines [] cs else getlines (current @ [c]) cs)"

text \<open>A line that ends the rows: the summary, or an empty line.\<close>

definition ends_rows :: "string \<Rightarrow> bool" where
  "ends_rows line \<longleftrightarrow> line = [] \<or> hd line = CHR ''(''"

definition parse_rows :: "string list \<Rightarrow> string list list" where
  "parse_rows lines = map ParsePipeSeparated (takeWhile (\<lambda>l. \<not> ends_rows l) lines)"

text \<open>The widths of the columns, and a table with a rule above and below the header and below the rows.\<close>

definition cell_at :: "string list \<Rightarrow> nat \<Rightarrow> string" where
  "cell_at row c = (if c < length row then row ! c else [])"

definition column_widths :: "string list \<Rightarrow> string list list \<Rightarrow> nat list" where
  "column_widths headers rows =
     map (\<lambda>c. fold (\<lambda>row w. if c < length row then max w (length (row ! c)) else w) rows (length (headers ! c))) [0..<length headers]"

text \<open>\<^verbatim>\<open>std::left\<close> with \<^verbatim>\<open>std::setw\<close>.\<close>

definition pad :: "nat \<Rightarrow> string \<Rightarrow> string" where
  "pad w s = s @ replicate (w - length s) (CHR '' '')"

definition separator :: "nat list \<Rightarrow> string" where
  "separator widths = ''+'' @ concat (map (\<lambda>w. replicate (w + 2) (CHR ''-'') @ ''+'') widths)"

definition table_line :: "nat list \<Rightarrow> string list \<Rightarrow> string" where
  "table_line widths row = ''|'' @ concat (map (\<lambda>c. '' '' @ pad (widths ! c) (cell_at row c) @ '' |'') [0..<length widths])"

definition print_table :: "string list \<Rightarrow> string list list \<Rightarrow> string" where
  "print_table headers rows =
     (let ws = column_widths headers rows; sep = separator ws
      in sep @ newline @ table_line ws headers @ newline @ sep @ newline @
         concat (map (\<lambda>row. table_line ws row @ newline) rows) @ sep @ newline)"

definition PrintResult :: "string \<Rightarrow> string" where
  "PrintResult body =
     (case getlines [] body of
        [] \<Rightarrow> []
      | l # ls \<Rightarrow>
          print_table (ParsePipeSeparated l) (parse_rows ls) @
          (case find (\<lambda>m. m \<noteq> [] \<and> hd m = CHR ''('') (rev (l # ls)) of None \<Rightarrow> [] | Some m \<Rightarrow> m @ newline))"

definition PrintResultTable :: "(f32 \<Rightarrow> string) \<Rightarrow> schema \<Rightarrow> tuple list \<Rightarrow> string" where
  "PrintResultTable fmt s rows =
     print_table (map c_name (columns s)) (map (row_cells fmt s) rows) @ row_summary (length rows) @ newline"

section \<open>The server\<close>

text \<open>
  The parser in the binder, the text of an exception, and what a statement that throws has changed in the database before
  are parameters. An undefined behaviour is not an exception that the server could catch.
\<close>

record server =
  sv_env :: env
  sv_binder :: query_binder
  what :: "exn \<Rightarrow> string"
  aborted :: "plan \<Rightarrow> db \<Rightarrow> db"

definition caught :: "server \<Rightarrow> exn \<Rightarrow> (message_type \<times> string) exec" where
  "caught sv e = (case e of UndefinedBehaviour m \<Rightarrow> lift (Inl e) | _ \<Rightarrow> ret (ERROR, what sv e))"

definition HandleQuery :: "server \<Rightarrow> string \<Rightarrow> (message_type \<times> string) exec" where
  "HandleQuery sv sql = (\<lambda>d.
     case rbind (BindQuery (sv_binder sv) (db_catalog d) sql) (Optimize (Some (db_catalog d))) of
       Inl e \<Rightarrow> caught sv e d
     | Inr p \<Rightarrow>
         (case Execute (sv_env sv) p d of
            None \<Rightarrow> None
          | Some (Inl e) \<Rightarrow> caught sv e (aborted sv p d)
          | Some (Inr (rows, d')) \<Rightarrow> Some (Inr ((RESULT, result_body (fmt_float (sv_env sv)) (GetOutputSchema p) rows), d'))))"

text \<open>The connection of one client; \<open>running\<close> is the flag that a signal clears. What \<open>SendMessage\<close> returns is not looked at.\<close>

partial_function (option) HandleClient :: "server \<Rightarrow> 'n read_fun \<Rightarrow> 'n write_fun \<Rightarrow> ('n \<Rightarrow> bool) \<Rightarrow> 'n \<Rightarrow> db \<Rightarrow> ('n \<times> db) res option" where
  "HandleClient sv rd wr running n d =
     (if \<not> running n then Some (Inr (n, d))
      else case RecvMessage rd n of
             None \<Rightarrow> Some (Inr (n, d))
           | Some ((type, data), n1) \<Rightarrow>
               if type = QUERY
               then cbind (HandleQuery sv data d) (\<lambda>((t, reply), d1).
                      HandleClient sv rd wr running (snd (SendMessage wr n1 t reply)) d1)
               else if type = TERMINATE then Some (Inr (n1, d))
               else HandleClient sv rd wr running (snd (SendMessage wr n1 ERROR ''Unknown message type'')) d)"

text \<open>The shell executes without the catalog in the optimizer and prints an error on the other stream.\<close>

definition ExecuteSQL :: "server \<Rightarrow> string \<Rightarrow> (string + string) exec" where
  "ExecuteSQL sv sql = (\<lambda>d.
     let failed = (\<lambda>e d. cbind (caught sv e d) (\<lambda>((_, msg), d'). Some (Inr (Inl (''ERROR: '' @ msg @ newline), d'))))
     in case rbind (BindQuery (sv_binder sv) (db_catalog d) sql) (Optimize None) of
          Inl e \<Rightarrow> failed e d
        | Inr p \<Rightarrow>
            (case Execute (sv_env sv) p d of
               None \<Rightarrow> None
             | Some (Inl e) \<Rightarrow> failed e (aborted sv p d)
             | Some (Inr (rows, d')) \<Rightarrow> Some (Inr (Inr (PrintResultTable (fmt_float (sv_env sv)) (GetOutputSchema p) rows), d'))))"

section \<open>Lines of input\<close>

definition is_space :: "char \<Rightarrow> bool" where
  "is_space c \<longleftrightarrow> c = CHR '' '' \<or> c \<in> {CHR 0x09, CHR 0x0A, CHR 0x0B, CHR 0x0C, CHR 0x0D}"

definition trim :: "string \<Rightarrow> string" where
  "trim s = rev (dropWhile is_space (rev (dropWhile is_space s)))"

datatype input = Quit | Help | Tables | Nothing | Query string

text \<open>A line is added to the buffer; with a semicolon at its end the buffer is a query.\<close>

definition add_line :: "string \<Rightarrow> string \<Rightarrow> input \<times> string" where
  "add_line buf line =
     (let b = buf @ line
      in if last b \<noteq> CHR '';'' then (Nothing, b @ '' '')
         else let q = trim (butlast b) in (if q = [] then Nothing else Query q, []))"

definition client_line :: "string \<Rightarrow> string \<Rightarrow> input \<times> string" where
  "client_line buf line =
     (if line \<in> {CHR 0x5C # ''q'', ''quit'', ''exit''} then (Quit, buf)
      else if line \<in> {CHR 0x5C # ''?'', ''help''} then (Help, buf)
      else if line = [] then (Nothing, buf)
      else add_line buf line)"

definition shell_line :: "string \<Rightarrow> string \<Rightarrow> input \<times> string" where
  "shell_line buf line =
     (if line = [] then (Nothing, buf)
      else if buf = [] \<and> line \<in> {''quit'', ''exit'', CHR 0x5C # ''q''} then (Quit, buf)
      else if buf = [] \<and> line \<in> {''help'', CHR 0x5C # ''h'', CHR 0x5C # ''?''} then (Help, buf)
      else if buf = [] \<and> line \<in> {''tables'', CHR 0x5C # ''dt''} then (Tables, buf)
      else add_line buf line)"

text \<open>What the client prints of a reply, and whether on the stream of errors.\<close>

definition show_reply :: "message_type \<Rightarrow> string \<Rightarrow> bool \<times> string" where
  "show_reply type data =
     (if type = RESULT then (False, PrintResult data)
      else if type = ERROR then (True, ''ERROR: '' @ data @ newline)
      else if type = COMMAND_COMPLETE then (False, data @ newline)
      else (True, ''Unexpected response from server.'' @ newline))"

text \<open>The list of tables of the shell.\<close>

definition show_tables :: "catalog \<Rightarrow> string" where
  "show_tables c =
     (if GetAllTables c = [] then ''No tables.'' @ newline
      else pad 20 ''Name'' @ ''Schema'' @ newline @ replicate 60 (CHR ''-'') @ newline @
           concat (map (\<lambda>ti. pad 20 (ti_name ti) @ Schema_ToString (ti_schema ti) @ newline) (GetAllTables c)))"

section \<open>Lines\<close>

lemma getlines_line: "CHR 0x0A \<notin> set l \<Longrightarrow> getlines current (l @ newline @ cs) = (current @ l) # getlines [] cs"
  by (induction l arbitrary: current) auto

lemma getlines_last: "CHR 0x0A \<notin> set l \<Longrightarrow> current @ l \<noteq> [] \<Longrightarrow> getlines current l = [current @ l]"
  by (induction l arbitrary: current) auto

lemma getlines_lines:
  "\<forall>l \<in> set ls. CHR 0x0A \<notin> set l \<Longrightarrow> getlines [] (concat (map (\<lambda>l. l @ newline) ls) @ cs) = ls @ getlines [] cs"
proof (induction ls)
  case (Cons l ls)
  then show ?case using getlines_line [of l "[]" "concat (map (\<lambda>l. l @ newline) ls) @ cs"] by simp
qed simp

lemma digits_chars: "c \<in> set (digits n) \<Longrightarrow> \<exists>k < 10. c = char_of (48 + k :: nat)"
proof (induction n rule: digits.induct)
  case (1 n)
  show ?case
  proof (cases "n < 10")
    case True
    then show ?thesis using 1(2) by (subst (asm) digits.simps) auto
  next
    case False
    then have "c \<in> set (digits (n div 10)) \<or> c = char_of (48 + n mod 10)" using 1(2) by (subst (asm) digits.simps) auto
    then show ?thesis
    proof
      assume "c = char_of (48 + n mod 10)"
      then show ?thesis by (intro exI [of _ "n mod 10"]) simp
    qed (rule 1(1) [OF False])
  qed
qed

lemma digit_char: "k < 10 \<Longrightarrow> char_of (48 + k :: nat) \<notin> {CHR 0x0A, CHR ''('', CHR ''|''}"
proof
  assume k: "k < 10" and "char_of (48 + k) \<in> {CHR 0x0A, CHR ''('', CHR ''|''}"
  from imageI [OF this(2), of "of_char :: char \<Rightarrow> nat"]
  have "(of_char (char_of (48 + k)) :: nat) \<in> of_char ` {CHR 0x0A, CHR ''('', CHR ''|''}" .
  then show False using k by (simp add: of_char_of)
qed

lemma summary_line: "CHR 0x0A \<notin> set (row_summary n)" "row_summary n \<noteq> []" "hd (row_summary n) = CHR ''(''"
proof -
  have "CHR 0x0A \<notin> set (digits n)" using digits_chars [of "CHR 0x0A" n] digit_char by (metis insertI1)
  then show "CHR 0x0A \<notin> set (row_summary n)" by (simp add: row_summary_def)
qed (simp_all add: row_summary_def)

lemma cells_line_chars:
  "c \<noteq> CHR ''|'' \<Longrightarrow> c \<notin> set v \<Longrightarrow> \<forall>w \<in> set vs. c \<notin> set w \<Longrightarrow> c \<notin> set (cells_line v vs)"
  by (induction vs arbitrary: v) simp_all

text \<open>A text that can be a cell: without the separator and without the end of a line.\<close>

definition clean :: "string \<Rightarrow> bool" where
  "clean s \<longleftrightarrow> CHR ''|'' \<notin> set s \<and> CHR 0x0A \<notin> set s"

lemma clean_row:
  "\<forall>v \<in> set vals. clean v \<Longrightarrow> vals \<noteq> [] \<Longrightarrow> CHR 0x0A \<notin> set (FormatResultRow vals) \<and> ParsePipeSeparated (FormatResultRow vals) = vals"
  using cells_line_chars [of "CHR 0x0A"] parse_cells_line
  by (cases vals) (auto simp: clean_def FormatResultRow_def ParsePipeSeparated_def)

lemma header_row: "FormatResultHeader vs = FormatResultRow vs"
  by (simp add: FormatResultHeader_def FormatResultRow_def)

definition hidden :: "(f32 \<Rightarrow> string) \<Rightarrow> schema \<Rightarrow> tuple \<Rightarrow> bool" where
  "hidden fmt s t \<longleftrightarrow> ends_rows (FormatResultRow (row_cells fmt s t))"

lemma parse_rows_append: "ends_rows m \<Longrightarrow> parse_rows (ls @ m # ms) = parse_rows ls"
  by (induction ls) (auto simp: parse_rows_def)

lemma find_rev_last: "P m \<Longrightarrow> find P (rev (ls @ [m])) = Some m"
  by simp

text \<open>
  C31. The client prints what the server answered: if no column name and no value contains a separator or a line end, the
  table printed from the text of the result has the names and the rows up to the first row whose line is empty or
  begins with a parenthesis, and the count of all rows. Without such a row it is the table that the shell prints.
\<close>

theorem client_prints_result:
  assumes "columns s \<noteq> []" and "\<forall>c \<in> set (columns s). clean (c_name c)" and "\<forall>t \<in> set rows. \<forall>v \<in> set (row_cells fmt s t). clean v"
  shows "PrintResult (result_body fmt s rows) =
      print_table (map c_name (columns s)) (map (row_cells fmt s) (takeWhile (\<lambda>t. \<not> hidden fmt s t) rows)) @ row_summary (length rows) @ newline \<and>
    ((\<forall>t \<in> set rows. \<not> hidden fmt s t) \<longrightarrow> PrintResult (result_body fmt s rows) = PrintResultTable fmt s rows)"
proof -
  let ?h = "FormatResultRow (map c_name (columns s))" let ?ls = "map (\<lambda>t. FormatResultRow (row_cells fmt s t)) rows"
  have h: "CHR 0x0A \<notin> set ?h" "ParsePipeSeparated ?h = map c_name (columns s)" using clean_row [of "map c_name (columns s)"] assms(1,2) by auto
  have ne: "row_cells fmt s t \<noteq> []" for t using assms(1) by (simp add: row_cells_def)
  have cells: "CHR 0x0A \<notin> set (FormatResultRow (row_cells fmt s t)) \<and> ParsePipeSeparated (FormatResultRow (row_cells fmt s t)) = row_cells fmt s t"
    if "t \<in> set rows" for t using clean_row [OF _ ne] assms(3) that by blast
  have "result_body fmt s rows = concat (map (\<lambda>l. l @ newline) (?h # ?ls)) @ row_summary (length rows)"
    by (simp add: result_body_def header_row comp_def)
  then have lines: "getlines [] (result_body fmt s rows) = ?h # ?ls @ [row_summary (length rows)]"
    using getlines_lines [of "?h # ?ls" "row_summary (length rows)"] getlines_last [of "row_summary (length rows)" "[]"] summary_line h(1) cells
    by simp
  have "parse_rows (?ls @ [row_summary (length rows)]) = parse_rows ?ls"
    by (rule parse_rows_append) (simp add: ends_rows_def summary_line)
  also have "\<dots> = map (row_cells fmt s) (takeWhile (\<lambda>t. \<not> hidden fmt s t) rows)"
    using cells by (induction rows) (auto simp: parse_rows_def hidden_def)
  finally have 1: "PrintResult (result_body fmt s rows) =
      print_table (map c_name (columns s)) (map (row_cells fmt s) (takeWhile (\<lambda>t. \<not> hidden fmt s t) rows)) @ row_summary (length rows) @ newline"
    using find_rev_last [of "\<lambda>m. m \<noteq> [] \<and> hd m = CHR ''(''" "row_summary (length rows)" "?h # ?ls"] summary_line h(2)
    by (simp add: PrintResult_def lines)
  have "PrintResult (result_body fmt s rows) = PrintResultTable fmt s rows" if "\<forall>t \<in> set rows. \<not> hidden fmt s t"
  proof -
    have tw: "takeWhile (\<lambda>t. \<not> hidden fmt s t) rows = rows" using that by simp
    show ?thesis unfolding 1 tw PrintResultTable_def by (rule refl)
  qed
  then show ?thesis using 1 by blast
qed

theorem client_prints_result_witness:
  "let s = Schema [Column ''name'' T_VARCHAR 0]; row = (\<lambda>v. \<lparr>t_rid = invalid_rid, t_data = [], t_values = [Value_string T_VARCHAR v]\<rparr>)
   in PrintResult (result_body (fmt_float demo_env) s [row ''ann'', row ''(bob)'', row ''cid'']) =
     print_table [''name''] [[''ann'']] @ row_summary 3 @ newline"
proof -
  let ?row = "\<lambda>v. \<lparr>t_rid = invalid_rid, t_data = [], t_values = [Value_string T_VARCHAR v]\<rparr>"
  define s where "s = Schema [Column ''name'' T_VARCHAR 0]"
  have c: "columns s = [(Column ''name'' T_VARCHAR 0)\<lparr>c_offset := 0\<rparr>]" by (simp add: s_def Schema_def)
  then have n: "columns s \<noteq> []" "map c_name (columns s) = [''name'']" by (simp_all add: Column_def)
  have r: "row_cells (fmt_float demo_env) s (?row v) = [v]" for v
    by (simp add: row_cells_def c Tuple_GetValue_def Value_ToString_def Value_string_def)
  have "\<forall>c \<in> set (columns s). clean (c_name c)" by (simp add: c Column_def clean_def)
  moreover have "\<forall>t \<in> set [?row ''ann'', ?row ''(bob)'', ?row ''cid'']. \<forall>v \<in> set (row_cells (fmt_float demo_env) s t). clean v" by (simp add: r clean_def)
  ultimately have "PrintResult (result_body (fmt_float demo_env) s [?row ''ann'', ?row ''(bob)'', ?row ''cid'']) =
      print_table (map c_name (columns s)) (map (row_cells (fmt_float demo_env) s) (takeWhile (\<lambda>t. \<not> hidden (fmt_float demo_env) s t) [?row ''ann'', ?row ''(bob)'', ?row ''cid'']))
        @ row_summary (length [?row ''ann'', ?row ''(bob)'', ?row ''cid'']) @ newline"
    using client_prints_result [OF n(1)] by blast
  then have "PrintResult (result_body (fmt_float demo_env) s [?row ''ann'', ?row ''(bob)'', ?row ''cid'']) = print_table [''name''] [[''ann'']] @ row_summary 3 @ newline"
    by (simp add: hidden_def r n(2) FormatResultRow_def ends_rows_def numeral_3_eq_3)
  then show ?thesis by (simp add: Let_def s_def)
qed

section \<open>Widths\<close>

lemma fold_grows:
  assumes "\<And>x w. (w :: nat) \<le> f x w"
  shows "w \<le> fold f xs w"
proof (induction xs arbitrary: w)
  case (Cons x xs)
  show ?case using order_trans [OF assms [of w x] Cons.IH [of "f x w"]] by simp
qed simp

lemma fold_reaches:
  assumes "\<And>x w. (w :: nat) \<le> f x w" "\<And>w. k \<le> f x w"
  shows "x \<in> set xs \<Longrightarrow> k \<le> fold f xs w"
proof (induction xs arbitrary: w)
  case (Cons y xs)
  show ?case
  proof (cases "x = y")
    case True
    then show ?thesis using order_trans [OF assms(2) [of w] fold_grows [of f "f x w" xs, OF assms(1)]] by simp
  next
    case False
    then show ?thesis using Cons by simp
  qed
qed simp

lemma column_widths_length [simp]: "length (column_widths headers rows) = length headers"
  by (simp add: column_widths_def)

definition widen :: "nat \<Rightarrow> string list \<Rightarrow> nat \<Rightarrow> nat" where
  "widen c = (\<lambda>row w. if c < length row then max w (length (row ! c)) else w)"

lemma column_widths_nth: "c < length headers \<Longrightarrow> column_widths headers rows ! c = fold (widen c) rows (length (headers ! c))"
  unfolding column_widths_def widen_def [symmetric] by simp

lemma column_widths_cell:
  assumes "row \<in> set (headers # rows)" "c < length headers"
  shows "length (cell_at row c) \<le> column_widths headers rows ! c"
proof -
  have grow: "w \<le> widen c x w" for x w by (simp add: widen_def)
  show ?thesis
  proof (cases "row = headers")
    case True
    then show ?thesis using assms(2) fold_grows [of "widen c", OF grow] by (simp add: column_widths_nth cell_at_def)
  next
    case False
    have "length (cell_at row c) \<le> widen c row w" for w by (simp add: widen_def cell_at_def)
    from fold_reaches [of "widen c", OF grow this] False assms show ?thesis by (simp add: column_widths_nth)
  qed
qed

lemma separator_length: "length (separator ws) = 1 + sum_list (map (\<lambda>w. w + 3) ws)"
  by (induction ws) (simp_all add: separator_def)

text \<open>
  The lines of a printed table have one width: the header, the rules and every row, a row with too few cells or too many
  included.
\<close>

theorem table_aligned:
  assumes "row \<in> set (headers # rows)"
  shows "length (table_line (column_widths headers rows) row) = length (separator (column_widths headers rows))"
proof -
  let ?ws = "column_widths headers rows"
  have cell: "length ('' '' @ pad (?ws ! c) (cell_at row c) @ '' |'') = ?ws ! c + 3" if "c < length headers" for c
    using column_widths_cell [OF assms that] by (simp add: pad_def)
  have "length (table_line ?ws row) = 1 + sum_list (map (\<lambda>c. length ('' '' @ pad (?ws ! c) (cell_at row c) @ '' |'')) [0..<length ?ws])"
    by (simp add: table_line_def length_concat comp_def)
  also have "map (\<lambda>c. length ('' '' @ pad (?ws ! c) (cell_at row c) @ '' |'')) [0..<length ?ws] = map (\<lambda>c. ?ws ! c + 3) [0..<length ?ws]"
    using cell by (intro map_cong) auto
  also have "\<dots> = map (\<lambda>w. w + 3) ?ws" by (rule nth_equalityI) simp_all
  finally show ?thesis by (simp only: separator_length)
qed

theorem table_aligned_witness:
  "length (table_line (column_widths [''a'', ''b''] [[''1234''], [''x'', ''y'', ''z'']]) [''1234'']) =
   length (separator (column_widths [''a'', ''b''] [[''1234''], [''x'', ''y'', ''z'']]))"
  by (rule table_aligned) simp

section \<open>Connections\<close>

text \<open>The answers to queries, one after the other.\<close>

primrec answers :: "server \<Rightarrow> string list \<Rightarrow> (message_type \<times> string) list exec" where
  "answers sv [] = ret []"
| "answers sv (q # qs) = ebind (HandleQuery sv q) (\<lambda>r. ebind (answers sv qs) (\<lambda>rs. ret (r # rs)))"

abbreviation frames :: "(message_type \<times> string) list \<Rightarrow> byte list" where
  "frames ms \<equiv> concat (map (\<lambda>(t, m). frame_bytes t m) ms)"

lemma message_types: "QUERY \<noteq> TERMINATE" "ERROR \<noteq> QUERY"
  by (simp_all add: QUERY_def TERMINATE_def ERROR_def)

text \<open>
  C24. A client gets its answers. On a connection whose streams are reliable, the server answers each query with one message,
  in the order of the queries, with the database that the queries before have left, until the client takes its
  leave; it returns then and reads no further.
\<close>

theorem server_answers:
  assumes "reads rd inb outb" and "writes wr outb inb" and "\<forall>n. running n"
    and "inb n = frames (map (Pair QUERY) qs) @ frame_bytes TERMINATE bye @ rest"
    and "\<forall>q \<in> set (bye # qs). length q + 1 < 2 ^ 32" and "answers sv qs d = Some (Inr (replies, d'))"
  shows "\<exists>n'. HandleClient sv rd wr running n d = Some (Inr (n', d')) \<and> outb n' = outb n @ frames replies \<and> inb n' = rest"
  using assms(4-)
proof (induction qs arbitrary: n d replies)
  case Nil
  have "inb n = frame_bytes TERMINATE bye @ rest" "length bye + 1 < 2 ^ 32" using Nil.prems by simp_all
  from RecvMessage_reads [OF assms(1) this] obtain n' where
    "RecvMessage rd n = Some ((TERMINATE, bye), n')" "inb n' = rest" "outb n' = outb n" by blast
  then show ?case using Nil.prems(3) assms(3) message_types by (subst HandleClient.simps) simp
next
  case (Cons q qs)
  let ?rest = "frames (map (Pair QUERY) qs) @ frame_bytes TERMINATE bye @ rest"
  have "inb n = frame_bytes QUERY q @ ?rest" "length q + 1 < 2 ^ 32" using Cons.prems(1,2) by simp_all
  from RecvMessage_reads [OF assms(1) this] obtain n1 where
    n1: "RecvMessage rd n = Some ((QUERY, q), n1)" "inb n1 = ?rest" "outb n1 = outb n" by blast
  from Cons.prems(3) obtain t m d1 rs where a: "HandleQuery sv q d = Some (Inr ((t, m), d1))" "answers sv qs d1 = Some (Inr (rs, d'))"
    "replies = (t, m) # rs" by (auto simp: ebind_def ret_def cbind_eq_Inr)
  from SendMessage_writes [OF assms(2), of n1 t m] obtain n2 where
    n2: "SendMessage wr n1 t m = (True, n2)" "outb n2 = outb n1 @ frame_bytes t m" "inb n2 = inb n1" by blast
  have "HandleClient sv rd wr running n d = HandleClient sv rd wr running n2 d1"
    using n1(1) a(1) n2(1) assms(3) by (subst HandleClient.simps) simp
  moreover have "inb n2 = ?rest" "\<forall>q \<in> set (bye # qs). length q + 1 < 2 ^ 32" using n1(2) n2(3) Cons.prems(2) by simp_all
  from Cons.IH [OF this a(2)] obtain n' where
    "HandleClient sv rd wr running n2 d1 = Some (Inr (n', d'))" "outb n' = outb n2 @ frames rs" "inb n' = rest" by blast
  ultimately show ?case using n1(3) n2(2) a(3) by simp
qed

text \<open>A connection that carries two bytes at a time, and a server with one table.\<close>

definition duplex_read :: "(byte list \<times> byte list) read_fun" where
  "duplex_read = (\<lambda>(i, out) k. if i = [] then None else Some (take (min k 2) i, drop (min k 2) i, out))"

definition duplex_write :: "(byte list \<times> byte list) write_fun" where
  "duplex_write = (\<lambda>(i, out) bs. Some (min 2 (length bs), i, out @ take 2 bs))"

definition demo_server :: server where
  "demo_server = \<lparr>sv_env = demo_env, sv_binder = demo_binder,
     what = (\<lambda>e. ''error''), aborted = (\<lambda>p d. d)\<rparr>"

lemma duplex: "reads duplex_read fst snd" "writes duplex_write snd fst"
  by (auto simp: reads_def writes_def duplex_read_def duplex_write_def min_def)

lemma demo_answer:
  "\<exists>d d' body. answers demo_server [''SELECT COUNT(*) FROM t'', ''oops?''] d = Some (Inr ([(RESULT, body), (ERROR, ''error'')], d'))"
proof -
  obtain d D r where d: "has_tables D d" "lg_tables D 1 = Some (flag_schema, [(r, [1, 2, 3])])" "length (lg_pages D 1) = 1" "room_for 50 1 (db_pool d)"
      "\<exists>ti. GetTable_name (db_catalog d) ''t'' = Inr (Some ti) \<and> ti_schema ti = flag_schema \<and> ti_oid ti = 1"
    using demo_db by blast
  then have bound: "BindQuery demo_binder (db_catalog d) ''SELECT COUNT(*) FROM t'' = Inr demo_plan" using demo_query by blast
  have "BindQuery demo_binder c ''oops?'' = Inl (RuntimeError ''Parse error: syntax error'')" for c
    by (simp add: BindQuery_def demo_binder_def)
  note failed = this
  from demo_sem(2) [OF d(2)] obtain t where t: "sem demo_env D demo_plan = Inr [(t, invalid_rid)]" by blast
  have "pool_ok {} (db_pool d)" using d(1) by (simp add: has_tables_def)
  then have "snap (snapshot_of d) 50 d" using d(4) by (simp add: snap_def snapshot_of_def room_for_def pool_at_def)
  moreover have "cost demo_env D demo_plan \<le> 50" using d(2,3) by (simp add: demo_plan_def)
  ultimately obtain d' where x: "Execute demo_env demo_plan d = Some (Inr ([t], d'))"
    using Execute_source [OF source_plan [OF demo_env has_tables_represents [OF d(1)] t]] by fastforce
  have "Optimize (Some c) demo_plan = Inr demo_plan" for c
    by (simp add: demo_plan_def apply_rules_def OptimizeSeqScanToIndexScan_def OptimizeNLJToHashJoin_def)
  then have "HandleQuery demo_server ''SELECT COUNT(*) FROM t'' d = Some (Inr ((RESULT, result_body (fmt_float demo_env) (GetOutputSchema demo_plan) [t]), d'))"
    using x bound by (simp add: HandleQuery_def demo_server_def)
  moreover have "HandleQuery demo_server ''oops?'' d' = Some (Inr ((ERROR, ''error''), d'))"
    by (simp add: HandleQuery_def demo_server_def caught_def failed)
  ultimately have "answers demo_server [''SELECT COUNT(*) FROM t'', ''oops?''] d =
      Some (Inr ([(RESULT, result_body (fmt_float demo_env) (GetOutputSchema demo_plan) [t]), (ERROR, ''error'')], d'))"
    by (simp add: ebind_def ret_def)
  then show ?thesis by blast
qed

theorem server_answers_witness:
  "\<exists>d d' n' body. HandleClient demo_server duplex_read duplex_write (\<lambda>_. True)
     (frames [(QUERY, ''SELECT COUNT(*) FROM t''), (QUERY, ''oops?''), (TERMINATE, [])], []) d = Some (Inr (n', d')) \<and>
     snd n' = frames [(RESULT, body), (ERROR, ''error'')]"
proof -
  from demo_answer obtain d d' body where
    a: "answers demo_server [''SELECT COUNT(*) FROM t'', ''oops?''] d = Some (Inr ([(RESULT, body), (ERROR, ''error'')], d'))" by blast
  let ?n = "(frames [(QUERY, ''SELECT COUNT(*) FROM t''), (QUERY, ''oops?''), (TERMINATE, [])], [])"
  have n: "fst ?n = frames (map (Pair QUERY) [''SELECT COUNT(*) FROM t'', ''oops?'']) @ frame_bytes TERMINATE [] @ []" by simp
  have "\<forall>q \<in> set ([] # [''SELECT COUNT(*) FROM t'', ''oops?'']). length q + 1 < 2 ^ 32" by simp
  from server_answers [of duplex_read fst snd duplex_write "\<lambda>_. True" ?n "[''SELECT COUNT(*) FROM t'', ''oops?'']" "[]" "[]" demo_server,
      OF duplex _ n this a] obtain n' where
    "HandleClient demo_server duplex_read duplex_write (\<lambda>_. True) ?n d = Some (Inr (n', d'))"
    "snd n' = snd ?n @ frames [(RESULT, body), (ERROR, ''error'')]" by blast
  then have "HandleClient demo_server duplex_read duplex_write (\<lambda>_. True) ?n d = Some (Inr (n', d')) \<and>
      snd n' = frames [(RESULT, body), (ERROR, ''error'')]" by (simp only: snd_conv append_Nil)
  then show ?thesis by blast
qed

section \<open>A query from its text to the printed table\<close>

text \<open>
  \<^verbatim>\<open>SELECT * FROM t WHERE w\<close>, and whether the condition holds for a stored row, as the binder reads it (\<open>condition\<close>) and by the reference
  semantics of the parse tree (\<open>sql_condition\<close>).
\<close>

definition select_all :: "string \<Rightarrow> pg_node \<Rightarrow> pg_select" where
  "select_all t w =
     \<lparr>fromClause = [PGRangeVar t None], whereClause = Some w,
      targetList = [\<lparr>rt_name = None, rt_val = Some (PGColumnRef [PGAStar])\<rparr>],
      groupClause = [], sortClause = [], limitCount = None, valuesLists = False\<rparr>"

definition condition :: "string \<Rightarrow> table_info \<Rightarrow> pg_node \<Rightarrow> rid \<times> byte list \<Rightarrow> bool res" where
  "condition t ti w = (\<lambda>(r, bs). holds_for (read_value
     (named (\<lambda>_. column_value (Some (stored_tuple r bs, ti_schema ti))) (own_scope t ti)) w))"

definition sql_condition :: "string \<Rightarrow> table_info \<Rightarrow> pg_node \<Rightarrow> rid \<times> byte list \<Rightarrow> bool res" where
  "sql_condition t ti w = (\<lambda>(r, bs). holds_for (sql_value (denoted (own_scope t ti) [(stored_tuple r bs, ti_schema ti)]) w))"

lemma own_scope_numbered: "numbered (own_scope t ti)"
  by (simp add: numbered_def own_scope_def)

lemma condition_meant:
  assumes e: "BindExpression w (own_scope t ti) = Inr (Some e)" and "plain_operators w" "unambiguous (own_scope t ti) w"
  shows "condition t ti w x = sql_condition t ti w x"
proof -
  obtain r bs where x: "x = (r, bs)" by (cases x)
  let ?row = "(stored_tuple r bs, ti_schema ti)" let ?get = "\<lambda>_ :: nat. column_value (Some ?row)"
  have "same_names (named ?get (own_scope t ti)) (denoted (own_scope t ti) [?row]) (names_in w)"
    using assms(3) by (auto simp: unambiguous_def own_scope_def intro!: named_denoted [OF own_scope_numbered, unfolded own_scope_def])
  then have "eval_with ?get e = sql_value (denoted (own_scope t ti) [?row]) w"
    using bound_means(1) [of w "own_scope t ti" ?get] assms by (simp add: child_simps)
  moreover have "eval_with ?get e = read_value (named ?get (own_scope t ti)) w"
    using bound_value(1) [of w "own_scope t ti" ?get] e by (simp add: child_simps)
  ultimately show ?thesis by (simp add: x condition_def sql_condition_def)
qed

lemma select_all_plan:
  assumes "parse B sql = Inr (PGSelectStmt (select_all t w) # rest)" "GetTable_name c t = Inr (Some ti)"
    and "BindExpression w (own_scope t ti) = Inr (Some e)"
  shows "BindQuery B c sql = Inr (scan_of ti (Some e))"
proof -
  have "[\<lparr>sc_alias = t, sc_info = ti, sc_tuple_idx = 0\<rparr>] = own_scope t ti" by (simp add: own_scope_def)
  then show ?thesis using assms
    by (simp add: BindQuery_def BindStmt_def BindSelectStmt_def select_all_def bind_from_def bind_from_item_def find_table_def scan_of_def
      bind_where_def bind_target_def list_first_def bind_aggregation_def bind_sort_def bind_limit_def bind_projection_def own_scope_def)
qed

lemma condition_rows:
  assumes e: "BindExpression w (own_scope t ti) = Inr (Some e)"
    and rows: "\<forall>(r, bs) \<in> set rows. (\<exists>b. condition t ti w (r, bs) = Inr b) \<and> parse_row (ti_schema ti) (stored_tuple r bs) r = Inr (row r bs)"
  shows "scan_rows (Some e) (ti_schema ti) rows =
    Inr (map (\<lambda>(r, bs). (row r bs, r)) (filter (\<lambda>x. condition t ti w x = Inr True) rows))"
proof -
  let ?kept = "filter (\<lambda>x. condition t ti w x = Inr True) rows"
  have "passes (Some e) (stored_tuple r bs, ti_schema ti) = condition t ti w (r, bs)" for r bs
    using bound_value(1) [of w "own_scope t ti" "\<lambda>_. column_value (Some (stored_tuple r bs, ti_schema ti))"] e
    by (simp add: passes_def condition_def Evaluate_with child_simps)
  then have "rfilter (\<lambda>(r, bs). passes (Some e) (stored_tuple r bs, ti_schema ti)) rows = Inr ?kept"
    by (intro rfilter_pure) (use rows in \<open>fastforce simp: split_beta\<close>)
  moreover have "rmap (\<lambda>(r, bs). rbind (parse_row (ti_schema ti) (stored_tuple r bs) r) (\<lambda>t. Inr (t, r))) ?kept =
      Inr (map (\<lambda>(r, bs). (row r bs, r)) ?kept)"
    by (rule rmap_pure) (use rows in auto)
  ultimately show ?thesis by (simp add: scan_rows_def)
qed

text \<open>
  C2. A query from its text to what the shell prints. When the parser reads \<^verbatim>\<open>SELECT * FROM t WHERE w\<close>, the condition binds, its value
  on the parse tree is no error for any row, and the rows can be read, then the shell prints the table of exactly the rows for which the condition
  is true, in their order, and the tables are as before. If the operator nodes of the condition are operators and its names are unambiguous,
  it is true of a row exactly when the reference semantics of SQL says so.
\<close>

theorem shell_select:
  assumes E: "env_ok (sv_env sv)" and db: "has_tables D d" and "parse (sv_binder sv) sql = Inr (PGSelectStmt (select_all t w) # rest)"
    and ti: "GetTable_name (db_catalog d) t = Inr (Some ti)" "lg_tables D (ti_oid ti) = Some (ti_schema ti, rows)"
    and e: "BindExpression w (own_scope t ti) = Inr (Some e)"
    and rows: "\<forall>(r, bs) \<in> set rows. (\<exists>b. condition t ti w (r, bs) = Inr b) \<and> parse_row (ti_schema ti) (stored_tuple r bs) r = Inr (row r bs)"
    and room: "room_for (length (lg_pages D (ti_oid ti)) + length rows * (length (lg_pages D (ti_oid ti)) + 1)) 1 (db_pool d)"
  shows "(\<exists>d'. ExecuteSQL sv sql d = Some (Inr (Inr (PrintResultTable (fmt_float (sv_env sv)) (ti_schema ti)
      (map (\<lambda>(r, bs). row r bs) (filter (\<lambda>x. condition t ti w x = Inr True) rows))), d')) \<and> has_tables D d') \<and>
    (plain_operators w \<longrightarrow> unambiguous (own_scope t ti) w \<longrightarrow> (\<forall>x \<in> set rows. condition t ti w x = sql_condition t ti w x))"
proof -
  let ?p = "scan_of ti (Some e)" let ?kept = "filter (\<lambda>x. condition t ti w x = Inr True) rows"
  have plan: "BindQuery (sv_binder sv) (db_catalog d) sql = Inr ?p" "Optimize None ?p = Inr ?p"
    using select_all_plan [OF assms(3) ti(1) e] by (simp_all add: scan_of_def rules_no_catalog OptimizeNLJToHashJoin_def)
  have sem: "sem (sv_env sv) D ?p = Inr (map (\<lambda>(r, bs). (row r bs, r)) ?kept)"
    using condition_rows [OF e rows] ti(2) by (simp add: scan_of_def)
  have "room_for (cost (sv_env sv) D ?p + 0) 1 (db_pool d)" using room ti(2) by (simp add: scan_of_def)
  from Execute_sem [OF E db sem this] obtain d' where
    d': "Execute (sv_env sv) ?p d = Some (Inr (map (\<lambda>(r, bs). row r bs) ?kept, d'))" "has_tables D d'" by (auto simp: comp_def case_prod_beta)
  have "GetOutputSchema ?p = ti_schema ti" by (simp add: scan_of_def)
  with plan d' have "ExecuteSQL sv sql d = Some (Inr (Inr (PrintResultTable (fmt_float (sv_env sv)) (ti_schema ti)
      (map (\<lambda>(r, bs). row r bs) ?kept)), d'))" by (simp add: ExecuteSQL_def Let_def)
  with d'(2) condition_meant [OF e] show ?thesis by blast
qed

text \<open>\<^verbatim>\<open>SELECT * FROM t WHERE a = a\<close> on the table with one row.\<close>

definition same_column :: pg_node where
  "same_column = PGAExpr PG_AEXPR_OP [PGString ''=''] (Some (PGColumnRef [PGString ''a''])) (Some (PGColumnRef [PGString ''a'']))"

theorem shell_select_witness:
  "\<exists>d d' t. ExecuteSQL (demo_server\<lparr>sv_binder := \<lparr>moved_first = True, parse = (\<lambda>_. Inr [PGSelectStmt (select_all ''t'' same_column)])\<rparr>\<rparr>)
     ''SELECT * FROM t WHERE a = a'' d = Some (Inr (Inr (PrintResultTable (fmt_float demo_env) flag_schema [t]), d'))"
proof -
  let ?B = "\<lparr>moved_first = True, parse = (\<lambda>_. Inr [PGSelectStmt (select_all ''t'' same_column)])\<rparr>"
  let ?sv = "demo_server\<lparr>sv_binder := ?B\<rparr>" let ?sql = "''SELECT * FROM t WHERE a = a''"
  obtain d D r ti where d: "has_tables D d" "lg_tables D 1 = Some (flag_schema, [(r, [1, 2, 3])])" "length (lg_pages D 1) = 1" "room_for 50 1 (db_pool d)"
      "GetTable_name (db_catalog d) ''t'' = Inr (Some ti)" "ti_schema ti = flag_schema" "ti_oid ti = 1"
    using demo_db by blast
  let ?col = "ColumnValueExpression 0 0 T_BOOLEAN"
  have e: "BindExpression same_column (own_scope ''t'' ti) = Inr (Some (ComparisonExpression ?col ?col Equal))"
    using d(6) by (simp add: same_column_def own_scope_def BindColumnRef_def column_name_def flag_columns Column_def
      list_first_def operator_expression_def child_def)
  obtain t where t: "parse_row flag_schema (stored_tuple r [1, 2, 3]) r = Inr t" using demo_stored_row by blast
  have "named get (own_scope ''t'' ti) [] ''a'' = get 0 0" for get
    using d(6) by (simp add: named_def meant_def fits_def scope_columns_def own_scope_def flag_columns Column_def)
  then have c: "condition ''t'' ti same_column (r, [1, 2, 3]) = Inr True"
    using demo_column [of r] d(6) by (simp add: condition_def same_column_def column_name_def column_value_def apply_operator_def holds_for_bool
      CompareEquals_def operator_name_def)
  then have rows: "\<forall>(r, bs) \<in> set [(r, [1, 2, 3])]. (\<exists>b. condition ''t'' ti same_column (r, bs) = Inr b) \<and>
      parse_row (ti_schema ti) (stored_tuple r bs) r = Inr ((\<lambda>_ _. t) r bs)" using t d(6) by auto
  have "env_ok (sv_env ?sv)" using demo_env by (simp add: demo_server_def)
  moreover have "parse (sv_binder ?sv) ?sql = Inr (PGSelectStmt (select_all ''t'' same_column) # [])" by simp
  moreover have "lg_tables D (ti_oid ti) = Some (ti_schema ti, [(r, [1, 2, 3])])" using d(2,6,7) by simp
  moreover have "room_for (length (lg_pages D (ti_oid ti)) + length [(r, [1 :: byte, 2, 3])] * (length (lg_pages D (ti_oid ti)) + 1)) 1 (db_pool d)"
    using d(3,4,7) by (simp add: room_for_def)
  ultimately show ?thesis
    using shell_select [of ?sv D d ?sql "''t''" same_column "[]" ti "[(r, [1, 2, 3])]", OF _ d(1) _ d(5) _ e rows]
      c d(6) by (auto simp: demo_server_def)
qed

end
