(* ===== verification/Spec2Isabelle.thy ===== *)
theory Spec2Isabelle
  imports OneBase_Prelude LRU_K_Replacer Disk_Manager Buffer_Pool Page_Store Table_Page Table_Heap
    Float32 SQL_Value Schema_Tuple BPT_Page BPlus_Tree BPT_Remove BPT_Tree BPT_Insert BPT_Insert_Correct
    Expressions Heap_Scan Catalog Page_Guard Executors Queries Binder Optimizer Modifications Insertion Transactions Protocol Server_Client
begin

text \<open>
  OneBase, a small relational database in C++: this is the root of the library that models and verifies it.
  Paths are under \<^verbatim>\<open>src/src/\<close>, headers under its \<^verbatim>\<open>include/onebase/\<close>.

  The program. A query is text from a shell, or from a client over a socket (\<^verbatim>\<open>onebase_server, onebase_client\<close>). It is parsed by a
  vendored library, bound to a plan (\<^verbatim>\<open>binder/\<close>), rewritten by the optimizer, and run by a tree of executors
  that produce one row at a time. The executors read and change tables and indexes through the catalog. A table is a
  heap of slotted pages, and its pages live in a buffer pool, which asks a replacer which frame to reuse and a disk manager for
  the bytes. A second index structure, the B+ tree, is built on the same pool; the catalog of this
  version keeps hash indexes in memory. Transactions and locks have an interface whose lock manager is not implemented.

  Theories, from the bottom of the program to its top, with what they model and what their lemmas show.

  \<^item> \<open>OneBase_Prelude\<close>: exceptions, identifiers and machine types of \<^verbatim>\<open>common/\<close>; results \<open>error + value\<close>, association lists.
    Undefined behaviour of C++ is an error value of its own, so that a theorem with a result \<open>Inr\<close> also says that
    there is none.
  \<^item> \<open>LRU_K_Replacer\<close>: \<^verbatim>\<open>buffer/lru_k_replacer.cpp\<close>. In every reachable state eviction is the textbook LRU-K policy on the full access logs,
    and the size counts the evictable frames.
  \<^item> \<open>Disk_Manager\<close>: \<^verbatim>\<open>storage/disk/disk_manager.cpp\<close>. A page that was written is read back, until a short read sets the failbit for good.
    The stream has its failbit and its badbit; pages whose transfer the device refuses are a parameter of the disk, and both I/O exceptions are modelled.
  \<^item> \<open>Buffer_Pool\<close>: \<^verbatim>\<open>buffer/buffer_pool_manager.cpp, storage/page/page.h\<close>. Whatever calls a client makes, the pool throws nothing but the I/O errors of the disk manager, and nothing while the device
    works. Then it also keeps every update that was unpinned dirty whatever it evicts, protects pinned pages from eviction and deletion, and writes
    every page at a flush.
  \<^item> \<open>Page_Store\<close>: the contract between the pool and its clients, a locale with its interpretation on the
    modelled pool.
  \<^item> \<open>Page_Guard\<close>: \<^verbatim>\<open>buffer/page_guard.cpp, common/rwlatch.h\<close>. Guards give back every pin and every latch, moves and self-moves included.
  \<^item> \<open>Table_Page\<close>, \<open>Table_Heap\<close>, \<open>Heap_Scan\<close>: \<^verbatim>\<open>storage/page/table_page.cpp, storage/table/table_heap.cpp\<close>. A page is bytes; a page and then a heap are shown to be
    maps from record identifiers to byte strings, and a scan meets each live record once.
  \<^item> \<open>Float32\<close>, \<open>SQL_Value\<close>, \<open>Schema_Tuple\<close>: \<^verbatim>\<open>type/, catalog/schema.h, catalog/column.h, storage/table/tuple.cpp\<close>. Values, tuples, comparison and arithmetic, with overflow as undefined behaviour;
    what survives serialization and what does not.
  \<^item> \<open>BPT_Page\<close>, \<open>BPlus_Tree\<close>, \<open>BPT_Tree\<close>, \<open>BPT_Insert\<close>, \<open>BPT_Insert_Correct\<close>, \<open>BPT_Remove\<close>: \<^verbatim>\<open>storage/page/b_plus_tree_*.cpp, storage/index/\<close>. The pages as sorted lists, the tree in the pool as a sorted map:
    search, iteration and insertion with splits refine the operations of the map. Removal is modelled, and its composition is not
    verified.
  \<^item> \<open>Expressions\<close>: \<^verbatim>\<open>execution/expressions/\<close>. Typed expressions evaluate to values of their type.
  \<^item> \<open>Catalog\<close>: \<^verbatim>\<open>catalog/catalog.cpp\<close>. The four maps agree, and a new index lists the live rows, until one of the 32-bit counters of identifiers
    wraps. A creation that throws has taken its identifier; the runs contain such creations.
  \<^item> \<open>Executors\<close>, \<open>Queries\<close>: \<^verbatim>\<open>execution/\<close>. Plans and executors are datatypes with the constructors of the class
    hierarchies; \<open>sem\<close> is a reference semantics on lists of rows, and a query returns its rows and leaves the tables as they were.
  \<^item> \<open>Binder\<close>: \<^verbatim>\<open>binder/binder.cpp\<close>. From parse trees to plans: every statement. The reference semantics of a condition reads the kinds of its
    operator nodes and the one column that a name fits; a bound expression has that value when the nodes are operators and the names are unambiguous.
    Two lemmas show where the binder departs from it: the kinds of nodes, and columns of a right table above a join.
  \<^item> \<open>Optimizer\<close>: \<^verbatim>\<open>optimizer/optimizer.cpp\<close>. Its rules preserve the meaning of a plan, as far as they do.
  \<^item> \<open>Modifications\<close>, \<open>Insertion\<close>: \<^verbatim>\<open>execution/executors/delete_executor.cpp, update_executor.cpp, insert_executor.cpp\<close>. DELETE and UPDATE through a scan of their table, which
    goes on over the slots that they change, and INSERT from a scan of another table, whose heap may grow meanwhile: exactly the rows of the condition are
    deleted, changed or added, and every index lists the rows that result.
  \<^item> \<open>Transactions\<close>: \<^verbatim>\<open>concurrency/\<close>. Identifiers are fresh, and a transaction ends without touching the others; the lock
    manager throws on every call, and no transaction of a reachable manager holds a lock.
  \<^item> \<open>Protocol\<close>, \<open>Server_Client\<close>: \<^verbatim>\<open>server/protocol.h, server_main.cpp, client_main.cpp, tools/onebase_shell.cpp\<close>. Messages round-trip over any byte stream that behaves as POSIX says, the server answers every
    query of a connection in order, and the client prints the table of the answer. A SELECT with a condition is followed from its text through
    parser, binder, optimizer and executors to the printed table.

  Conventions. State is passed explicitly; a class is a record of its fields under their names, an enumeration or a
  class hierarchy is a datatype, a pointer to a frame is its number. Fallible code gives \<open>error + value\<close>. Every method of the pool and of the
  replacer holds a mutex, so a concurrent execution is a sequence of method calls, which is what the
  reachable states range over. Machine integers have their width where wrap-around matters; sizes and offsets are natural
  numbers where the code bounds them by the page size. Pin counts and page numbers are integers: a call of the pool adds at most one to each, so that
  they stay in the range of \<^verbatim>\<open>int\<close> for fewer than \<open>2 ^ 31\<close> calls.

  Loops that need not end are \<open>partial_function\<close> functions into \<open>option\<close>: \<open>None\<close> is a loop that does not end, and the properties state that the
  result is \<open>Some\<close>. The replacer's clock is a 64-bit number that every access increases: \<open>pool_life\<close> is the number of accesses left before it
  wraps, \<open>frontier\<close> the next new page number (a 31-bit range). A theorem on a long operation asks for as much of both as the operation uses:
  \<open>room_for\<close> for a heap, \<open>cost\<close> for a query. The bounds are computed from the operation, not from its result, and a fresh pool has
  more than \<open>2 ^ 63\<close> accesses left.

  Exceptions. An operation of the pool, heap or tree that throws gives the exception alone: \<open>HandleQuery\<close> and \<open>ExecuteSQL\<close>, which catch it, take the database
  after it from the parameter \<open>aborted\<close>, about which nothing is assumed, so that whatever a failed statement has changed before it threw is covered. Where a
  theorem is about the state after an exception (creations in the catalog, ends of transactions) the operation gives the exception beside the state.

  Parameters, for code that is not in the repository or not specified by the language: the formatting of floats by fmt, the order in which
  a hash map of groups is iterated and \<^verbatim>\<open>std::sort\<close> (any permutation that is sorted under a strict weak order), the system
  calls on sockets, and the vendored parser libpg_query, from a text to a parse tree.

  Not modelled. The vendored parser; the set-up of sockets, signals, threads and the line editor of the terminal; the logger. The server shares one database between client threads without a
  lock above the pool, and the executors and the catalog are modelled for one client at a time.
  The lock manager has no code to model beyond its exceptions.

  Modelled and not verified as a whole: INSERT from the table itself, which need not end; UPDATE and DELETE over an index scan; removal from the
  B+ tree as removal from the map; the commands that create, drop and show. The rows that a sort returns are those that the parameter
  for \<^verbatim>\<open>std::sort\<close> returns.
\<close>

end
